(* ===== verification/Prelude.thy ===== *)
theory Prelude
  imports Main "HOL-Library.Word" "HOL-Library.Monad_Syntax"
begin

text \<open>
  What every component of the kernel model shares: the C integer types as machine words, bounded
  arrays whose out-of-range accesses are visible, the counted \<open>for\<close> loop of C, and the lemmas about
  them.

  Undefined behaviour of the C program (an access through a null pointer or outside an array, a
  division by zero) is the value \<^term>\<open>None\<close> of an option; a defined run is \<^term>\<open>Some\<close> of its
  result. Error results that the C code itself returns (a null pointer, an error number) are ordinary
  values inside \<^term>\<open>Some\<close>. A theorem that an operation yields \<^term>\<open>Some\<close> is therefore a memory
  safety theorem.
\<close>

unbundle bit_operations_syntax

section \<open>Integer types\<close>

type_synonym u8 = "8 word"
type_synonym u16 = "16 word"
type_synonym u32 = "32 word"
type_synonym u64 = "64 word"

text \<open>The value \<open>(u32)-1\<close> that several lookups of the kernel return for "no such page".\<close>

abbreviation u32_invalid :: u32 where
  "u32_invalid \<equiv> - 1"

text \<open>Facts on words and their readings as numbers, collected for \<open>simp add: word_facts\<close>.\<close>

named_theorems word_facts

text \<open>Facts that describe bounded arrays and loops, collected for \<open>simp add: array_facts\<close>.\<close>

named_theorems array_facts

lemma unat_u32_lt [word_facts]: "unat (x :: u32) < 4294967296"
  using unsigned_less [of x, where ?'a = nat] by simp

lemma unat_u64_lt [word_facts]: "unat (x :: u64) < 18446744073709551616"
  using unsigned_less [of x, where ?'a = nat] by simp

lemma unat_u8_lt [word_facts]: "unat (x :: u8) < 256"
  using unsigned_less [of x, where ?'a = nat] by simp

lemma unat_u16_lt [word_facts]: "unat (x :: u16) < 65536"
  using unsigned_less [of x, where ?'a = nat] by simp

lemma unat_u32_of_nat [word_facts]:
  "n < 4294967296 \<Longrightarrow> unat (of_nat n :: u32) = n"
  by (simp add: unat_of_nat)

lemma unat_u64_of_nat [word_facts]:
  "n < 18446744073709551616 \<Longrightarrow> unat (of_nat n :: u64) = n"
  by (simp add: unat_of_nat)

lemma of_nat_unat_u32 [simp]: "of_nat (unat (x :: u32)) = x"
  by simp

lemma of_nat_unat_u64: "of_nat (unat (x :: u64)) = x"
  by simp

lemma unat_ucast_u32_u64 [simp]: "unat (ucast (x :: u32) :: u64) = unat x"
  using unsigned_less [of x, where ?'a = nat]
  by (simp add: unsigned_ucast_eq take_bit_nat_eq_self)

lemma unat_add_no_wrap:
  fixes a b :: "'a::len word"
  shows "unat a + unat b < 2 ^ LENGTH('a) \<Longrightarrow> unat (a + b) = unat a + unat b"
  by (simp add: unat_word_ariths)

lemma unat_mult_no_wrap:
  fixes a b :: "'a::len word"
  shows "unat a * unat b < 2 ^ LENGTH('a) \<Longrightarrow> unat (a * b) = unat a * unat b"
  by (simp add: unat_word_ariths)

lemma unat_sub_no_wrap:
  fixes a b :: "'a::len word"
  shows "b \<le> a \<Longrightarrow> unat (a - b) = unat a - unat b"
  by (rule unat_sub)

lemma unat_dec:
  fixes a :: "'a::len word"
  shows "a \<noteq> 0 \<Longrightarrow> unat (a - 1) = unat a - 1"
  by (metis One_nat_def Suc_pred unat_1 unat_gt_0 unat_minus_one)

lemma unat_inc:
  fixes a :: "'a::len word"
  shows "unat a + 1 < 2 ^ LENGTH('a) \<Longrightarrow> unat (a + 1) = unat a + 1"
  by (simp add: unat_word_ariths)

text \<open>Clearing the low bits rounds down to a power of two.\<close>

lemma and_not_mask_eq:
  fixes x :: "'a::len word"
  shows "x AND NOT (mask n) = push_bit n (drop_bit n x)"
  by (rule bit_word_eqI) (auto simp: bit_simps)

lemma unat_and_not_mask:
  fixes x :: "'a::len word"
  shows "unat (x AND NOT (mask n)) = unat x div 2 ^ n * 2 ^ n"
proof -
  have "unat x div 2 ^ n * 2 ^ n < 2 ^ LENGTH('a)"
    using unsigned_less [of x, where ?'a = nat] by (meson div_times_less_eq_dividend le_less_trans)
  then show ?thesis
    unfolding and_not_mask_eq unsigned_push_bit_eq unsigned_drop_bit_eq
    by (simp add: push_bit_eq_mult [where ?'a = nat] drop_bit_eq_div [where ?'a = nat]
        take_bit_nat_eq_self)
qed

lemma unat_page_floor: "unat (x AND NOT 4095 :: u64) = unat x div 4096 * 4096"
  using unat_and_not_mask [of x 12] by (simp add: mask_eq_exp_minus_1)

lemma unat_page_ceil:
  assumes "unat (x :: u64) + 4095 < 2 ^ 64"
  shows "unat ((x + 4096 - 1) AND NOT (4096 - 1)) = (unat x + 4095) div 4096 * 4096"
proof -
  have "unat (x + 4095) = unat x + 4095"
    using assms unat_add_no_wrap [of x "4095 :: u64"] by simp
  then have "unat ((x + 4095) AND NOT 4095) = (unat x + 4095) div 4096 * 4096"
    by (simp only: unat_page_floor)
  moreover have "x + 4096 - 1 = x + 4095" "4096 - 1 = (4095 :: u64)" by simp_all
  ultimately show ?thesis by (simp only:)
qed

section \<open>Bounded arrays\<close>

text \<open>A condition without which the rest of the run is undefined.\<close>

definition guard :: "bool \<Rightarrow> unit option" where
  "guard b = (if b then Some () else None)"

lemma guard_simps [simp]: "guard True = Some ()" "guard False = None"
  by (simp_all add: guard_def)

text \<open>
  A C array of known extent is a list. Reading or writing outside it is undefined behaviour, hence
  \<^term>\<open>None\<close>.
\<close>

definition arr_get :: "'a list \<Rightarrow> nat \<Rightarrow> 'a option" where
  "arr_get xs i = (if i < length xs then Some (xs ! i) else None)"

definition arr_set :: "'a list \<Rightarrow> nat \<Rightarrow> 'a \<Rightarrow> 'a list option" where
  "arr_set xs i v = (if i < length xs then Some (xs[i := v]) else None)"

lemma arr_get_in [array_facts]: "i < length xs \<Longrightarrow> arr_get xs i = Some (xs ! i)"
  by (simp add: arr_get_def)

lemma arr_set_in [array_facts]: "i < length xs \<Longrightarrow> arr_set xs i v = Some (xs[i := v])"
  by (simp add: arr_set_def)

lemma arr_get_Some_iff: "arr_get xs i = Some v \<longleftrightarrow> i < length xs \<and> xs ! i = v"
  by (auto simp: arr_get_def)

lemma arr_set_Some_iff: "arr_set xs i v = Some ys \<longleftrightarrow> i < length xs \<and> ys = xs[i := v]"
  by (auto simp: arr_set_def)

lemma arr_get_set_same:
  "arr_set xs i v = Some ys \<Longrightarrow> arr_get ys i = Some v"
  by (auto simp: arr_get_def arr_set_def split: if_splits)

lemma arr_get_set_other:
  "arr_set xs i v = Some ys \<Longrightarrow> i \<noteq> j \<Longrightarrow> arr_get ys j = arr_get xs j"
  by (auto simp: arr_get_def arr_set_def split: if_splits)

text \<open>Stacks in the prefix of an array: the entries below the top.\<close>

lemma take_update_beyond: "n \<le> i \<Longrightarrow> take n (xs[i := v]) = take n xs"
  by simp

lemma take_Suc_push:
  "n < length xs \<Longrightarrow> take (Suc n) (xs[n := v]) = take n xs @ [v]"
  by (simp add: take_Suc_conv_app_nth)

lemma take_pop:
  "0 < n \<Longrightarrow> n \<le> length xs \<Longrightarrow> take n xs = take (n - 1) xs @ [xs ! (n - 1)]"
  by (metis Suc_pred' less_le_trans take_Suc_conv_app_nth diff_less zero_less_one)

lemma set_butlast_distinct:
  "distinct xs \<Longrightarrow> xs \<noteq> [] \<Longrightarrow> set (butlast xs) = set xs - {last xs}"
  by (cases xs rule: rev_cases) auto

text \<open>
  Removing an element of a stack by moving the last one into its place changes the set of elements
  by exactly that element.
\<close>

lemma set_take_swap_remove:
  assumes "distinct (take n xs)" "i < n" "n \<le> length xs"
  shows "set (take (n - 1) (xs[i := xs ! (n - 1)])) = set (take n xs) - {xs ! i}"
    and "distinct (take (n - 1) (xs[i := xs ! (n - 1)]))"
proof -
  let ?ys = "take (n - 1) (xs[i := xs ! (n - 1)])"
  have nth_ys: "?ys ! k = (if k = i then xs ! (n - 1) else xs ! k)" if "k < n - 1" for k
    using that assms by simp
  have inj: "xs ! j = xs ! k \<longleftrightarrow> j = k" if "j < n" "k < n" for j k
    using assms that nth_eq_iff_index_eq [of "take n xs" j k] by simp
  have len: "length ?ys = n - 1" using assms by simp
  show "distinct ?ys"
    unfolding distinct_conv_nth len
  proof (intro allI impI)
    fix j k assume "j < n - 1" "k < n - 1" "j \<noteq> k"
    then show "?ys ! j \<noteq> ?ys ! k" using assms(2) by (simp only: nth_ys) (auto simp: inj)
  qed
  show "set ?ys = set (take n xs) - {xs ! i}"
  proof (rule set_eqI, rule iffI)
    fix v assume "v \<in> set ?ys"
    then obtain k where k: "k < n - 1" "v = ?ys ! k"
      unfolding in_set_conv_nth len by blast
    define j where "j = (if k = i then n - 1 else k)"
    have "j < n" "j \<noteq> i" "v = xs ! j"
      using k nth_ys [OF k(1)] by (auto simp: j_def)
    then show "v \<in> set (take n xs) - {xs ! i}"
      using inj assms(2,3) by (auto simp: in_set_conv_nth)
  next
    fix v assume "v \<in> set (take n xs) - {xs ! i}"
    then obtain j where j: "j < n" "j \<noteq> i" "v = xs ! j"
      using assms(3) by (auto simp: in_set_conv_nth; metis)
    define k where "k = (if j = n - 1 then i else j)"
    have "k < n - 1" using j assms(2) by (auto simp: k_def)
    then have "k < n - 1 \<and> v = ?ys ! k"
      using j nth_ys [of k] by (auto simp: k_def split: if_splits)
    then show "v \<in> set ?ys"
      unfolding in_set_conv_nth len by blast
  qed
qed

text \<open>A duplicate-free stack of numbers below \<open>n\<close> that misses one of them is not full.\<close>

lemma distinct_below_not_full:
  fixes n :: "'a::len word"
  assumes "distinct xs" "\<forall>x \<in> set xs. x < n" "y < n" "y \<notin> set xs"
  shows "length xs < unat n"
proof -
  have "inj_on unat (set (y # xs))" by (simp add: inj_on_def word_unat_eq_iff)
  then have "length (y # xs) = card (unat ` set (y # xs))"
    using assms(1,4) by (simp only: card_image distinct_card distinct.simps simp_thms)
  also have "\<dots> \<le> card {..<unat n}"
    using assms(2,3) by (intro card_mono) (auto simp: word_less_nat_alt)
  finally show ?thesis by simp
qed

section \<open>Counted loops\<close>

text \<open>
  \<open>for (i = lo; i < hi; i++) body\<close>, with the bound fixed before the loop. The body may fail.
\<close>

function for_loop :: "nat \<Rightarrow> nat \<Rightarrow> (nat \<Rightarrow> 's \<Rightarrow> 's option) \<Rightarrow> 's \<Rightarrow> 's option" where
  "for_loop lo hi body s =
     (if lo < hi then (case body lo s of None \<Rightarrow> None | Some s' \<Rightarrow> for_loop (Suc lo) hi body s')
      else Some s)"
  by pat_completeness auto
termination
  by (relation "measure (\<lambda>(lo, hi, body, s). hi - lo)") auto

declare for_loop.simps [simp del]

lemma for_loop_stop [simp]: "hi \<le> lo \<Longrightarrow> for_loop lo hi body s = Some s"
  by (simp add: for_loop.simps)

lemma for_loop_step:
  "lo < hi \<Longrightarrow> body lo s = Some s' \<Longrightarrow> for_loop lo hi body s = for_loop (Suc lo) hi body s'"
  by (subst for_loop.simps) simp

text \<open>
  Total correctness of a loop: an invariant that holds at the start and that every iteration
  re-establishes without failing holds at the end, and the loop does not fail.
\<close>

lemma for_loop_total:
  assumes "P lo s" "lo \<le> hi"
    and step: "\<And>i s. lo \<le> i \<Longrightarrow> i < hi \<Longrightarrow> P i s \<Longrightarrow> \<exists>s'. body i s = Some s' \<and> P (Suc i) s'"
  shows "\<exists>s'. for_loop lo hi body s = Some s' \<and> P hi s'"
  using assms
proof (induction "hi - lo" arbitrary: lo s)
  case 0
  then show ?case by simp
next
  case (Suc k)
  then have "lo < hi" by simp
  with Suc.prems obtain s1 where s1: "body lo s = Some s1" "P (Suc lo) s1" by blast
  have "\<exists>s'. for_loop (Suc lo) hi body s1 = Some s' \<and> P hi s'"
    using Suc.prems Suc.hyps(2) \<open>lo < hi\<close> s1(2) by (intro Suc.hyps(1)) auto
  with s1 \<open>lo < hi\<close> show ?case by (simp add: for_loop_step)
qed

end
