(* ===== verification/Frame_Allocator.thy ===== *)
theory Frame_Allocator
  imports Prelude
begin

text \<open>
  What the clients of the physical memory manager (the page tables of \<open>vmm.c\<close>, the packet buffers of
  \<open>net.c\<close>) rely on: an allocation takes one page-aligned frame out of a finite set of available frames,
  or yields the null address and changes nothing when the set is empty. \<open>Pmm\<close> interprets the
  interface on \<open>pmm_alloc_frame\<close>.
\<close>

text \<open>\<open>n\<close> calls of an allocator in a row, with the addresses in the order of the calls.\<close>

primrec alloc_n :: "('s \<Rightarrow> (u64 \<times> 's) option) \<Rightarrow> nat \<Rightarrow> 's \<Rightarrow> (u64 list \<times> 's) option" where
  "alloc_n f 0 s = Some ([], s)"
| "alloc_n f (Suc n) s = do {
     (a, s1) \<leftarrow> f s;
     (as, s2) \<leftarrow> alloc_n f n s1;
     Some (a # as, s2)
   }"

locale frame_allocator =
  fixes inv :: "'s \<Rightarrow> bool"
    and avail :: "'s \<Rightarrow> u64 set"
    and alloc :: "'s \<Rightarrow> (u64 \<times> 's) option"
  assumes finite_avail: "inv s \<Longrightarrow> finite (avail s)"
    and avail_frame: "inv s \<Longrightarrow> a \<in> avail s \<Longrightarrow> a \<noteq> 0 \<and> 4096 dvd unat a"
    and alloc_empty: "inv s \<Longrightarrow> avail s = {} \<Longrightarrow> alloc s = Some (0, s)"
    and alloc_take: "inv s \<Longrightarrow> avail s \<noteq> {} \<Longrightarrow>
      \<exists>a s'. alloc s = Some (a, s') \<and> inv s' \<and> a \<in> avail s \<and> avail s' = avail s - {a}"
begin

lemma alloc_total: "inv s \<Longrightarrow> \<exists>a s'. alloc s = Some (a, s') \<and> inv s' \<and> avail s' \<subseteq> avail s"
  using alloc_empty alloc_take by (metis Diff_subset order_refl)

text \<open>The result tells the two outcomes apart: null exactly when nothing is available.\<close>

lemma alloc_null_iff:
  assumes "inv s" "alloc s = Some (a, s')"
  shows "a = 0 \<longleftrightarrow> avail s = {}"
  using assms alloc_empty [OF assms(1)] alloc_take [OF assms(1)] avail_frame [OF assms(1)]
  by (metis Pair_inject option.inject)

lemma alloc_frame:
  assumes "inv s" "alloc s = Some (a, s')" "a \<noteq> 0"
  shows "a \<in> avail s" "avail s' = avail s - {a}" "inv s'" "4096 dvd unat a"
proof -
  have "avail s \<noteq> {}" using alloc_null_iff [OF assms(1,2)] assms(3) by simp
  from alloc_take [OF assms(1) this] assms(2)
  show "a \<in> avail s" "avail s' = avail s - {a}" "inv s'" by auto
  then show "4096 dvd unat a" using avail_frame [OF assms(1)] by blast
qed

lemma alloc_null:
  assumes "inv s" "alloc s = Some (0, s')"
  shows "avail s = {}" "s' = s"
  using alloc_null_iff [OF assms] alloc_empty [OF assms(1)] assms(2) by auto

text \<open>As many calls as there are frames return pairwise different frames.\<close>

lemma alloc_n_frames:
  "inv s \<Longrightarrow> n \<le> card (avail s) \<Longrightarrow>
   \<exists>as s'. alloc_n alloc n s = Some (as, s') \<and> inv s' \<and> length as = n \<and> distinct as \<and>
     set as \<subseteq> avail s \<and> avail s' = avail s - set as"
proof (induction n arbitrary: s)
  case 0
  then show ?case by simp
next
  case (Suc n)
  then have "avail s \<noteq> {}" by auto
  from alloc_take [OF Suc.prems(1) this] obtain a s1 where
    s1: "alloc s = Some (a, s1)" "inv s1" "a \<in> avail s" "avail s1 = avail s - {a}" by blast
  have "n \<le> card (avail s1)"
    using Suc.prems s1 finite_avail [OF Suc.prems(1)] by (simp add: card_Diff_singleton)
  from Suc.IH [OF s1(2) this] obtain as s' where
    "alloc_n alloc n s1 = Some (as, s')" "inv s'" "length as = n" "distinct as"
    "set as \<subseteq> avail s1" "avail s' = avail s1 - set as" by blast
  with s1 show ?case by auto
qed

end

end
