(* ===== verification/Pmm.thy ===== *)
theory Pmm
  imports Prelude Frame_Allocator
begin

text \<open>
  The physical memory manager (\<open>src/src/pmm.c\<close>, \<open>src/include/pmm.h\<close>): a stack of free frame
  numbers and one reference count per frame.

  The C arrays \<open>frame_stack\<close> and \<open>ref_counts\<close> are lists of \<open>total_frames\<close> entries; \<^term>\<open>None\<close> stands
  for the null pointer they hold before \<open>pmm_init\<close>. The code places them behind the kernel image; when they do not lie in the
  RAM there, an access to them is undefined and \<open>pmm_init\<close> is \<^term>\<open>None\<close>. What the RAM holds at that place is an
  argument of \<open>pmm_init\<close>, since the code does not clear the stack array. Console output is left out.
\<close>

section \<open>State and operations\<close>

definition PHY_RAM_BASE :: u64 where
  "PHY_RAM_BASE = 0x40000000"

abbreviation PAGE_SIZE :: u64 where
  "PAGE_SIZE \<equiv> 4096"

record pmm =
  frame_stack :: "u32 list option"
  stack_top :: u32
  stack_capacity :: u32
  used_frames :: u32
  phy_ram_size :: u64
  phy_ram_end :: u64
  total_frames :: u32
  ref_counts :: "u8 list option"

text \<open>The static storage before the first call: zeros and null pointers.\<close>

definition pmm_static :: pmm where
  "pmm_static = \<lparr>frame_stack = None, stack_top = 0, stack_capacity = 0, used_frames = 0,
     phy_ram_size = 0, phy_ram_end = 0, total_frames = 0, ref_counts = None\<rparr>"

definition phys_to_index :: "pmm \<Rightarrow> u64 \<Rightarrow> u32" where
  "phys_to_index s addr =
     (if addr < PHY_RAM_BASE \<or> phy_ram_end s \<le> addr then u32_invalid
      else ucast (drop_bit 12 (addr - PHY_RAM_BASE)))"

definition index_to_phys :: "u32 \<Rightarrow> u64" where
  "index_to_phys idx = PHY_RAM_BASE + push_bit 12 (ucast idx)"

definition pmm_inc_ref :: "u64 \<Rightarrow> pmm \<Rightarrow> pmm option" where
  "pmm_inc_ref phys s =
     (let idx = phys_to_index s phys in
      if idx = u32_invalid then Some s
      else case ref_counts s of
        None \<Rightarrow> Some s
      | Some rc \<Rightarrow> do {
          v \<leftarrow> arr_get rc (unat idx);
          if v < 255 then do {
            rc' \<leftarrow> arr_set rc (unat idx) (v + 1);
            Some (s\<lparr>ref_counts := Some rc'\<rparr>)
          } else Some s
        })"

text \<open>The body of the loop of \<open>pmm_init\<close> over the frames.\<close>

definition pmm_init_frame :: "u64 \<Rightarrow> nat \<Rightarrow> pmm \<Rightarrow> pmm option" where
  "pmm_init_frame pmm_reserved_end i s = do {
     let addr = index_to_phys (of_nat i);
     rc \<leftarrow> ref_counts s;
     rc \<leftarrow> arr_set rc i 0;
     if PHY_RAM_BASE \<le> addr \<and> addr < pmm_reserved_end then do {
       rc \<leftarrow> arr_set rc i 1;
       Some (s\<lparr>used_frames := used_frames s + 1, ref_counts := Some rc\<rparr>)
     } else if stack_top s < stack_capacity s then do {
       fs \<leftarrow> frame_stack s;
       fs \<leftarrow> arr_set fs (unat (stack_top s)) (of_nat i);
       Some (s\<lparr>ref_counts := Some rc, frame_stack := Some fs, stack_top := stack_top s + 1\<rparr>)
     } else Some (s\<lparr>ref_counts := Some rc\<rparr>)
   }"

text \<open>The end of the memory that the kernel image and the two arrays occupy.\<close>

definition pmm_reserved_end :: "u64 \<Rightarrow> u32 \<Rightarrow> u64" where
  "pmm_reserved_end kernel_end frames =
     (let stack_start = (kernel_end + PAGE_SIZE - 1) AND NOT (PAGE_SIZE - 1);
          stack_size_bytes = ucast frames * 4;
          ref_size_bytes = ucast frames * 1
      in stack_start + stack_size_bytes + ref_size_bytes)"

text \<open>
  The two arrays, five bytes per frame from the page behind the kernel image on, lie in the RAM; without a frame no entry of
  them is used.
\<close>

definition arrays_in_ram :: "u64 \<Rightarrow> u64 \<Rightarrow> bool" where
  "arrays_in_ram kernel_end ram_size =
     (let stack_start = (unat kernel_end + 4095) div 4096 * 4096;
          frames = unat (ucast (ram_size div PAGE_SIZE) :: u32)
      in frames = 0 \<or> unat PHY_RAM_BASE \<le> stack_start \<and> stack_start + 5 * frames \<le> unat PHY_RAM_BASE + unat ram_size)"

definition pmm_init ::
  "(nat \<Rightarrow> u32) \<Rightarrow> (nat \<Rightarrow> u8) \<Rightarrow> u64 \<Rightarrow> u64 \<Rightarrow> pmm \<Rightarrow> pmm option"
where
  "pmm_init raw_stack raw_refs kernel_end ram_size s =
     (let frames = ucast (ram_size div PAGE_SIZE);
          s1 = s\<lparr>phy_ram_size := ram_size,
                 phy_ram_end := PHY_RAM_BASE + ram_size,
                 total_frames := frames,
                 frame_stack := Some (map raw_stack [0..<unat frames]),
                 ref_counts := Some (map raw_refs [0..<unat frames]),
                 stack_capacity := frames,
                 stack_top := 0\<rparr>
      in do {
        guard (arrays_in_ram kernel_end ram_size);
        for_loop 0 (unat frames) (pmm_init_frame (pmm_reserved_end kernel_end frames)) s1
      })"

text \<open>The inner loop of \<open>pmm_mark_used_region\<close>: find \<open>target\<close> on the stack and take it off.\<close>

function mark_scan :: "u32 \<Rightarrow> nat \<Rightarrow> pmm \<Rightarrow> pmm option" where
  "mark_scan target i s =
     (if i < unat (stack_top s) then do {
        fs \<leftarrow> frame_stack s;
        v \<leftarrow> arr_get fs i;
        if v = target then do {
          let top = stack_top s - 1;
          l \<leftarrow> arr_get fs (unat top);
          fs' \<leftarrow> arr_set fs i l;
          Some (s\<lparr>stack_top := top, frame_stack := Some fs', used_frames := used_frames s + 1\<rparr>)
        } else mark_scan target (Suc i) s
      } else Some s)"
  by pat_completeness auto
termination
  by (relation "measure (\<lambda>(target, i, s). unat (stack_top s) - i)") auto

definition pmm_mark_used_region :: "u64 \<Rightarrow> u64 \<Rightarrow> pmm \<Rightarrow> pmm option" where
  "pmm_mark_used_region base sz s =
     (let start_idx = phys_to_index s base;
          end_idx = phys_to_index s (base + sz + PAGE_SIZE - 1)
      in if start_idx = u32_invalid then Some s
         else for_loop (unat start_idx) (unat end_idx) (\<lambda>target. mark_scan (of_nat target) 0) s)"

definition pmm_alloc_frame :: "pmm \<Rightarrow> (u64 \<times> pmm) option" where
  "pmm_alloc_frame s =
     (if stack_top s = 0 then Some (0, s)
      else do {
        let top = stack_top s - 1;
        fs \<leftarrow> frame_stack s;
        idx \<leftarrow> arr_get fs (unat top);
        rc \<leftarrow> ref_counts s;
        rc' \<leftarrow> arr_set rc (unat idx) 1;
        Some (index_to_phys idx,
              s\<lparr>stack_top := top, used_frames := used_frames s + 1, ref_counts := Some rc'\<rparr>)
      })"

text \<open>\<open>frame_stack[stack_top++] = idx; used_frames--;\<close>, the tail of both releasing branches.\<close>

definition pmm_push_frame :: "u32 \<Rightarrow> pmm \<Rightarrow> pmm option" where
  "pmm_push_frame idx s = do {
     fs \<leftarrow> frame_stack s;
     fs' \<leftarrow> arr_set fs (unat (stack_top s)) idx;
     Some (s\<lparr>frame_stack := Some fs', stack_top := stack_top s + 1,
             used_frames := used_frames s - 1\<rparr>)
   }"

definition pmm_free_frame :: "u64 \<Rightarrow> pmm \<Rightarrow> pmm option" where
  "pmm_free_frame addr s =
     (let idx = phys_to_index s addr in
      if idx = u32_invalid \<or> total_frames s \<le> idx then Some s
      else do {
        rc \<leftarrow> ref_counts s;
        v \<leftarrow> arr_get rc (unat idx);
        if 0 < v then do {
          rc' \<leftarrow> arr_set rc (unat idx) (v - 1);
          let s' = s\<lparr>ref_counts := Some rc'\<rparr>;
          if v - 1 = 0 then pmm_push_frame idx s' else Some s'
        } else if stack_capacity s \<le> stack_top s then Some s
        else pmm_push_frame idx s
      })"

declare mark_scan.simps [simp del]

section \<open>Frame numbers and addresses\<close>

lemma unat_index_to_phys:
  "unat (index_to_phys i) = 0x40000000 + unat i * 4096"
proof -
  have "unat i * 4096 + 0x40000000 < 2 ^ 64" using unat_u32_lt [of i] by simp
  then show ?thesis
    by (simp add: index_to_phys_def PHY_RAM_BASE_def push_bit_eq_mult unat_word_ariths)
qed

lemma index_to_phys_inj [simp]: "index_to_phys i = index_to_phys j \<longleftrightarrow> i = j"
  by (metis add_left_cancel mult_cancel2 unat_index_to_phys word_unat_eq_iff zero_neq_numeral)

lemma index_to_phys_nonzero [simp]: "index_to_phys i \<noteq> 0"
  using unat_index_to_phys [of i] by (metis add_is_0 unat_0 zero_neq_numeral)

lemma index_to_phys_aligned [simp]: "4096 dvd unat (index_to_phys i)"
  by (simp add: unat_index_to_phys)

text \<open>
  The geometry that \<open>pmm_init\<close> sets up for a RAM that fits 32-bit frame numbers and the address space.
\<close>

definition ram_geometry :: "pmm \<Rightarrow> bool" where
  "ram_geometry s \<longleftrightarrow>
     phy_ram_end s = PHY_RAM_BASE + phy_ram_size s \<and>
     total_frames s = ucast (phy_ram_size s div PAGE_SIZE) \<and>
     phy_ram_size s < 0x80000000000"

lemma unat_phy_ram_end:
  "ram_geometry s \<Longrightarrow> unat (phy_ram_end s) = 0x40000000 + unat (phy_ram_size s)"
  by (simp add: ram_geometry_def PHY_RAM_BASE_def word_less_nat_alt unat_word_ariths)

lemma unat_total_frames:
  assumes "ram_geometry s"
  shows "unat (total_frames s) = unat (phy_ram_size s) div 4096"
    and "unat (total_frames s) < 2147483648"
proof -
  have lt: "unat (phy_ram_size s) div 4096 < 2147483648"
    using assms by (simp add: ram_geometry_def word_less_nat_alt div_less_iff_less_mult)
  then show eq: "unat (total_frames s) = unat (phy_ram_size s) div 4096"
    using assms by (simp add: ram_geometry_def unsigned_ucast_eq take_bit_eq_mod unat_div)
  then show "unat (total_frames s) < 2147483648" using lt by simp
qed

lemma phys_to_index_in:
  assumes "ram_geometry s" "0x40000000 \<le> unat addr" "unat addr < unat (phy_ram_end s)"
  shows "unat (phys_to_index s addr) = (unat addr - 0x40000000) div 4096"
proof -
  have "unat (phy_ram_size s) < 0x80000000000"
    using assms(1) by (simp add: ram_geometry_def word_less_nat_alt)
  then have "(unat addr - 0x40000000) div 4096 < 2147483648"
    using assms unat_phy_ram_end [OF assms(1)] by (simp add: div_less_iff_less_mult)
  moreover have "unat (addr - 0x40000000) = unat addr - 0x40000000"
    using assms(2) by (subst unat_sub) (simp_all add: word_le_nat_alt)
  ultimately show ?thesis
    using assms(2,3)
    by (simp add: phys_to_index_def PHY_RAM_BASE_def word_less_nat_alt word_le_nat_alt not_less
        unsigned_ucast_eq take_bit_eq_mod drop_bit_eq_div unat_div)
qed

lemma phys_to_index_invalid:
  "unat addr < 0x40000000 \<or> unat (phy_ram_end s) \<le> unat addr \<Longrightarrow>
   phys_to_index s addr = u32_invalid"
  by (auto simp: phys_to_index_def PHY_RAM_BASE_def word_less_nat_alt word_le_nat_alt)

text \<open>The two conversions are inverse to each other on the frames of the RAM.\<close>

lemma phys_to_index_of_index:
  assumes "ram_geometry s" "i < total_frames s"
  shows "phys_to_index s (index_to_phys i) = i"
proof -
  have "unat i < unat (phy_ram_size s) div 4096"
    using assms unat_total_frames(1) [OF assms(1)] by (simp add: word_less_nat_alt)
  then have "0x40000000 + unat i * 4096 < unat (phy_ram_end s)"
    unfolding unat_phy_ram_end [OF assms(1)] by linarith
  then have "unat (phys_to_index s (index_to_phys i)) = unat i"
    by (subst phys_to_index_in [OF assms(1)]) (simp_all add: unat_index_to_phys)
  then show ?thesis by (simp add: word_unat_eq_iff)
qed

section \<open>Invariant\<close>

text \<open>The free frames, bottom of the stack first, and the reference count of a frame.\<close>

definition free_frames :: "pmm \<Rightarrow> u32 list" where
  "free_frames s = (case frame_stack s of None \<Rightarrow> [] | Some fs \<Rightarrow> take (unat (stack_top s)) fs)"

definition ref_of :: "pmm \<Rightarrow> u32 \<Rightarrow> u8" where
  "ref_of s i =
     (case ref_counts s of None \<Rightarrow> 0 | Some rc \<Rightarrow> if unat i < length rc then rc ! unat i else 0)"

lemma free_frames_ref_update [simp]: "free_frames (s\<lparr>ref_counts := r\<rparr>) = free_frames s"
  by (cases "frame_stack s") (simp_all add: free_frames_def)

definition pmm_arrays :: "pmm \<Rightarrow> bool" where
  "pmm_arrays s =
     (case (frame_stack s, ref_counts s) of
        (Some fs, Some rc) \<Rightarrow>
          length fs = unat (total_frames s) \<and> length rc = unat (total_frames s)
      | _ \<Rightarrow> False)"

text \<open>
  The invariant of the allocator: the arrays have one entry per frame, the stack holds frame numbers
  of the RAM without repetition, a frame on the stack has no references, and every frame is counted
  either as used or on the stack.
\<close>

definition pmm_inv :: "pmm \<Rightarrow> bool" where
  "pmm_inv s \<longleftrightarrow>
     ram_geometry s \<and> pmm_arrays s \<and>
     stack_capacity s = total_frames s \<and> stack_top s \<le> total_frames s \<and>
     used_frames s + stack_top s = total_frames s \<and>
     distinct (free_frames s) \<and>
     (\<forall>i \<in> set (free_frames s). i < total_frames s \<and> ref_of s i = 0)"

lemma pmm_invE:
  assumes "pmm_inv s"
  obtains fs rc where "frame_stack s = Some fs" "ref_counts s = Some rc"
    "length fs = unat (total_frames s)" "length rc = unat (total_frames s)"
    "unat (stack_top s) \<le> unat (total_frames s)" "free_frames s = take (unat (stack_top s)) fs"
    "\<And>i. i < total_frames s \<Longrightarrow> ref_of s i = rc ! unat i"
  using assms
  by (auto simp: pmm_inv_def pmm_arrays_def free_frames_def ref_of_def word_le_nat_alt
      word_less_nat_alt split: option.splits)

lemma pmm_invD:
  assumes "pmm_inv s"
  shows "ram_geometry s" "stack_capacity s = total_frames s"
    "used_frames s + stack_top s = total_frames s" "distinct (free_frames s)"
    "\<And>i. i \<in> set (free_frames s) \<Longrightarrow> i < total_frames s"
    "\<And>i. i \<in> set (free_frames s) \<Longrightarrow> ref_of s i = 0"
  using assms by (simp_all add: pmm_inv_def)

lemma length_free_frames:
  "pmm_inv s \<Longrightarrow> length (free_frames s) = unat (stack_top s)"
  by (erule pmm_invE) simp

lemma free_frames_empty_iff: "pmm_inv s \<Longrightarrow> free_frames s = [] \<longleftrightarrow> stack_top s = 0"
  by (metis length_0_conv length_free_frames unat_eq_zero)

text \<open>What no operation after \<open>pmm_init\<close> changes.\<close>

definition same_geometry :: "pmm \<Rightarrow> pmm \<Rightarrow> bool" where
  "same_geometry s s' \<longleftrightarrow>
     phy_ram_size s' = phy_ram_size s \<and> phy_ram_end s' = phy_ram_end s \<and>
     total_frames s' = total_frames s \<and> stack_capacity s' = stack_capacity s"

lemma same_geometry_refl [simp]: "same_geometry s s"
  by (simp add: same_geometry_def)

lemma same_geometry_trans [trans]:
  "same_geometry s t \<Longrightarrow> same_geometry t u \<Longrightarrow> same_geometry s u"
  by (simp add: same_geometry_def)

lemma same_geometryD:
  assumes "same_geometry s s'"
  shows "total_frames s' = total_frames s" "ram_geometry s' = ram_geometry s"
    "phys_to_index s' = phys_to_index s"
  using assms by (simp_all add: same_geometry_def ram_geometry_def phys_to_index_def fun_eq_iff)

lemma pmm_inv_transfer:
  assumes "pmm_inv s" "same_geometry s s'" "pmm_arrays s'" "stack_top s' \<le> total_frames s'"
    "used_frames s' + stack_top s' = total_frames s'" "distinct (free_frames s')"
    "\<And>i. i \<in> set (free_frames s') \<Longrightarrow> i < total_frames s \<and> ref_of s' i = 0"
  shows "pmm_inv s'"
  using assms unfolding pmm_inv_def same_geometry_def ram_geometry_def by simp

section \<open>Allocation\<close>

lemma pmm_alloc_frame_empty:
  "pmm_inv s \<Longrightarrow> free_frames s = [] \<Longrightarrow> pmm_alloc_frame s = Some (0, s)"
  by (simp add: pmm_alloc_frame_def free_frames_empty_iff)

lemma pmm_alloc_frame_nonempty:
  assumes inv: "pmm_inv s" and ne: "free_frames s \<noteq> []"
  shows "\<exists>s'. pmm_alloc_frame s = Some (index_to_phys (last (free_frames s)), s') \<and> pmm_inv s' \<and>
           free_frames s' = butlast (free_frames s) \<and>
           ref_of s' = (ref_of s)(last (free_frames s) := 1) \<and>
           used_frames s' = used_frames s + 1 \<and> same_geometry s s'"
proof -
  from inv obtain fs rc where *: "frame_stack s = Some fs" "ref_counts s = Some rc"
    "length fs = unat (total_frames s)" "length rc = unat (total_frames s)"
    "unat (stack_top s) \<le> unat (total_frames s)" "free_frames s = take (unat (stack_top s)) fs"
    "\<And>i. i < total_frames s \<Longrightarrow> ref_of s i = rc ! unat i"
    by (rule pmm_invE) blast
  let ?top = "stack_top s - 1" and ?idx = "last (free_frames s)"
  have top: "stack_top s \<noteq> 0" using free_frames_empty_iff [OF inv] ne by simp
  then have utop: "unat ?top = unat (stack_top s) - 1" "0 < unat (stack_top s)"
    by (simp_all add: unat_dec unat_gt_0)
  have split: "free_frames s = take (unat ?top) fs @ [fs ! unat ?top]"
    using take_pop [of "unat (stack_top s)" fs] *(3,5,6) utop by simp
  then have idx: "fs ! unat ?top = ?idx" by simp
  have lt: "?idx < total_frames s" using pmm_invD(5) [OF inv, of ?idx] ne by simp
  define s' where "s' = s\<lparr>stack_top := ?top, used_frames := used_frames s + 1,
                          ref_counts := Some (rc[unat ?idx := 1])\<rparr>"
  have "pmm_alloc_frame s = Some (index_to_phys ?idx, s')"
    using top * utop lt idx
    by (simp add: pmm_alloc_frame_def s'_def array_facts word_less_nat_alt)
  moreover have ff: "free_frames s' = butlast (free_frames s)"
    unfolding split by (simp add: s'_def free_frames_def *(1))
  moreover have rf: "ref_of s' = (ref_of s)(?idx := 1)"
    using lt *(2,4) by (auto simp: s'_def ref_of_def fun_eq_iff word_less_nat_alt word_unat_eq_iff)
  moreover have geo: "same_geometry s s'" by (simp add: s'_def same_geometry_def)
  moreover have "pmm_inv s'"
  proof -
    have dist: "distinct (free_frames s')" "?idx \<notin> set (free_frames s')"
      using pmm_invD(4) [OF inv] split by (simp_all add: ff)
    show ?thesis
    proof (rule pmm_inv_transfer [OF inv geo _ _ _ dist(1)])
      show "pmm_arrays s'" using * by (simp add: pmm_arrays_def s'_def)
      show "stack_top s' \<le> total_frames s'" "used_frames s' + stack_top s' = total_frames s'"
        using *(5) utop pmm_invD(3) [OF inv]
        by (simp_all add: s'_def word_le_nat_alt algebra_simps)
      show "i < total_frames s \<and> ref_of s' i = 0" if "i \<in> set (free_frames s')" for i
      proof -
        from that have "i \<in> set (free_frames s)" by (auto simp: ff dest: in_set_butlastD)
        then show ?thesis using that dist(2) pmm_invD(5,6) [OF inv] by (auto simp: rf)
      qed
    qed
  qed
  ultimately show ?thesis by (auto simp: s'_def)
qed

section \<open>References and release\<close>

text \<open>Writing one reference count: the common effect of the operations below.\<close>

lemma ref_of_update:
  assumes "ref_counts s = Some rc" "length rc = unat (total_frames s)" "i < total_frames s"
  shows "ref_of (s\<lparr>ref_counts := Some (rc[unat i := v])\<rparr>) = (ref_of s)(i := v)"
  using assms by (auto simp: ref_of_def fun_eq_iff word_less_nat_alt word_unat_eq_iff)

lemma pmm_inv_ref_update:
  assumes inv: "pmm_inv s" and rc: "ref_counts s = Some rc" and i: "i < total_frames s"
    and not_free: "i \<notin> set (free_frames s)"
  shows "pmm_inv (s\<lparr>ref_counts := Some (rc[unat i := v])\<rparr>)" (is "pmm_inv ?s")
proof -
  have len: "length rc = unat (total_frames s)"
    using inv rc by (elim pmm_invE) simp
  show ?thesis
  proof (rule pmm_inv_transfer [OF inv])
    show "same_geometry s ?s" by (simp add: same_geometry_def)
    show "pmm_arrays ?s"
      using inv rc by (auto simp: pmm_inv_def pmm_arrays_def split: option.splits)
    show "j < total_frames s \<and> ref_of ?s j = 0" if "j \<in> set (free_frames ?s)" for j
      using that not_free pmm_invD(5,6) [OF inv] by (auto simp: ref_of_update [OF rc len i])
  qed (use inv in \<open>simp_all add: pmm_inv_def\<close>)
qed

text \<open>A frame of the RAM that is not on the stack leaves room for it on the stack.\<close>

lemma stack_not_full:
  assumes "pmm_inv s" "i < total_frames s" "i \<notin> set (free_frames s)"
  shows "stack_top s < total_frames s"
  using distinct_below_not_full [of "free_frames s" "total_frames s" i] assms
    pmm_invD(4,5) [OF assms(1)] length_free_frames [OF assms(1)]
  by (simp add: word_less_nat_alt)

lemma pmm_push_frame_ok:
  assumes inv: "pmm_inv s" and i: "i < total_frames s" "i \<notin> set (free_frames s)"
    and r0: "ref_of s i = 0"
  shows "\<exists>s'. pmm_push_frame i s = Some s' \<and> pmm_inv s' \<and> free_frames s' = free_frames s @ [i] \<and>
           ref_of s' = ref_of s \<and> used_frames s' = used_frames s - 1 \<and> same_geometry s s'"
proof -
  from inv obtain fs rc where *: "frame_stack s = Some fs" "ref_counts s = Some rc"
    "length fs = unat (total_frames s)" "length rc = unat (total_frames s)"
    "unat (stack_top s) \<le> unat (total_frames s)" "free_frames s = take (unat (stack_top s)) fs"
    "\<And>i. i < total_frames s \<Longrightarrow> ref_of s i = rc ! unat i"
    by (rule pmm_invE) blast
  have lt: "unat (stack_top s) < unat (total_frames s)"
    using stack_not_full [OF inv i] by (simp add: word_less_nat_alt)
  then have utop: "unat (stack_top s + 1) = unat (stack_top s) + 1"
    using unat_u32_lt [of "total_frames s"] by (intro unat_inc) simp
  define s' where "s' = s\<lparr>frame_stack := Some (fs[unat (stack_top s) := i]),
                          stack_top := stack_top s + 1, used_frames := used_frames s - 1\<rparr>"
  have "pmm_push_frame i s = Some s'"
    using * lt by (simp add: pmm_push_frame_def s'_def array_facts)
  moreover have ff: "free_frames s' = free_frames s @ [i]"
    using * lt by (simp add: s'_def free_frames_def utop take_Suc_push)
  moreover have rf: "ref_of s' = ref_of s" by (simp add: s'_def ref_of_def fun_eq_iff)
  moreover have geo: "same_geometry s s'" by (simp add: s'_def same_geometry_def)
  moreover have "pmm_inv s'"
  proof -
    show ?thesis
    proof (rule pmm_inv_transfer [OF inv geo])
      show "pmm_arrays s'" using * by (simp add: pmm_arrays_def s'_def)
      show "stack_top s' \<le> total_frames s'" using lt utop by (simp add: s'_def word_le_nat_alt)
      show "used_frames s' + stack_top s' = total_frames s'"
        using pmm_invD(3) [OF inv] by (simp add: s'_def)
      show "distinct (free_frames s')" using pmm_invD(4) [OF inv] i(2) by (simp add: ff)
      show "j < total_frames s \<and> ref_of s' j = 0" if "j \<in> set (free_frames s')" for j
        using that i(1) r0 pmm_invD(5,6) [OF inv] by (auto simp: ff rf)
    qed
  qed
  ultimately show ?thesis by (auto simp: s'_def)
qed

lemma pmm_free_frame_outside:
  "phys_to_index s addr = u32_invalid \<or> total_frames s \<le> phys_to_index s addr \<Longrightarrow>
   pmm_free_frame addr s = Some s"
  by (auto simp: pmm_free_frame_def Let_def)

lemma index_not_invalid:
  assumes "ram_geometry s" "i < total_frames s"
  shows "i \<noteq> u32_invalid"
proof
  assume "i = u32_invalid"
  then have "unat i = 4294967295" by (simp add: unsigned_minus_1_eq_mask mask_eq_exp_minus_1)
  then show False
    using assms(2) unat_total_frames(2) [OF assms(1)] by (simp add: word_less_nat_alt)
qed

lemma pmm_free_frame_unfold:
  assumes inv: "pmm_inv s" and i: "i < total_frames s" "phys_to_index s addr = i"
    and rc: "ref_counts s = Some rc"
  shows "pmm_free_frame addr s =
     (if 0 < ref_of s i then
        (let s' = s\<lparr>ref_counts := Some (rc[unat i := ref_of s i - 1])\<rparr>
         in if ref_of s i - 1 = 0 then pmm_push_frame i s' else Some s')
      else if stack_capacity s \<le> stack_top s then Some s
      else pmm_push_frame i s)"
proof -
  have "length rc = unat (total_frames s)" "ref_of s i = rc ! unat i"
    using inv rc i by (auto elim!: pmm_invE)
  then show ?thesis
    using i(2) rc index_not_invalid [OF pmm_invD(1) [OF inv] i(1)] i(1)
    by (auto simp: pmm_free_frame_def Let_def array_facts word_less_nat_alt word_le_nat_alt)
qed

text \<open>Dropping a reference that is not the last keeps the frame allocated.\<close>

lemma pmm_free_frame_shared:
  assumes inv: "pmm_inv s" and i: "i < total_frames s" "phys_to_index s addr = i"
    and r: "1 < ref_of s i"
  shows "\<exists>s'. pmm_free_frame addr s = Some s' \<and> pmm_inv s' \<and> free_frames s' = free_frames s \<and>
           ref_of s' = (ref_of s)(i := ref_of s i - 1) \<and> same_geometry s s'"
proof -
  obtain rc where rc: "ref_counts s = Some rc" "length rc = unat (total_frames s)"
    using inv by (auto elim!: pmm_invE)
  have "ref_of s i \<noteq> 0" using r by (metis not_less_iff_gr_or_eq word_not_simps(1))
  then have nf: "i \<notin> set (free_frames s)" using pmm_invD(6) [OF inv] by blast
  have ne: "ref_of s i - 1 \<noteq> 0" "0 < ref_of s i"
    using r \<open>ref_of s i \<noteq> 0\<close> by (auto simp: word_greater_zero_iff)
  let ?s = "s\<lparr>ref_counts := Some (rc[unat i := ref_of s i - 1])\<rparr>"
  have "pmm_free_frame addr s = Some ?s"
    using ne by (simp add: pmm_free_frame_unfold [OF inv i rc(1)] Let_def)
  moreover have "pmm_inv ?s" by (rule pmm_inv_ref_update [OF inv rc(1) i(1) nf])
  ultimately show ?thesis
    using ref_of_update [OF rc i(1), of "ref_of s i - 1"]
    by (intro exI [of _ ?s]) (simp add: same_geometry_def)
qed

text \<open>Dropping the last reference returns the frame to the top of the stack.\<close>

lemma pmm_free_frame_last:
  assumes inv: "pmm_inv s" and i: "i < total_frames s" "phys_to_index s addr = i"
    and r: "ref_of s i = 1"
  shows "\<exists>s'. pmm_free_frame addr s = Some s' \<and> pmm_inv s' \<and> free_frames s' = free_frames s @ [i] \<and>
           ref_of s' = (ref_of s)(i := 0) \<and> used_frames s' = used_frames s - 1 \<and> same_geometry s s'"
proof -
  obtain rc where rc: "ref_counts s = Some rc" "length rc = unat (total_frames s)"
    using inv by (auto elim!: pmm_invE)
  have nf: "i \<notin> set (free_frames s)" using pmm_invD(6) [OF inv] r by auto
  let ?s = "s\<lparr>ref_counts := Some (rc[unat i := 0])\<rparr>"
  have inv1: "pmm_inv ?s" by (rule pmm_inv_ref_update [OF inv rc(1) i(1) nf])
  have rf1: "ref_of ?s = (ref_of s)(i := 0)" by (rule ref_of_update [OF rc i(1)])
  obtain s' where "pmm_push_frame i ?s = Some s'" "pmm_inv s'" "free_frames s' = free_frames s @ [i]"
    "ref_of s' = (ref_of s)(i := 0)" "used_frames s' = used_frames s - 1" "same_geometry ?s s'"
    using pmm_push_frame_ok [OF inv1, of i] i(1) nf rf1 by auto
  moreover have "pmm_free_frame addr s = pmm_push_frame i ?s"
    using r by (simp add: pmm_free_frame_unfold [OF inv i rc(1)] Let_def)
  ultimately show ?thesis by (auto simp: same_geometry_def)
qed

text \<open>
  A frame without references that is not on the stack: one that \<open>pmm_mark_used_region\<close> took off.
\<close>

lemma pmm_free_frame_marked:
  assumes inv: "pmm_inv s" and i: "i < total_frames s" "phys_to_index s addr = i"
    and r: "ref_of s i = 0" and nf: "i \<notin> set (free_frames s)"
  shows "\<exists>s'. pmm_free_frame addr s = Some s' \<and> pmm_inv s' \<and> free_frames s' = free_frames s @ [i] \<and>
           ref_of s' = ref_of s \<and> used_frames s' = used_frames s - 1 \<and> same_geometry s s'"
proof -
  obtain rc where rc: "ref_counts s = Some rc" using inv by (auto elim!: pmm_invE)
  have "pmm_free_frame addr s = pmm_push_frame i s"
    using r stack_not_full [OF inv i(1) nf] pmm_invD(2) [OF inv]
    by (auto simp: pmm_free_frame_unfold [OF inv i rc])
  then show ?thesis using pmm_push_frame_ok [OF inv i(1) nf r] by simp
qed

section \<open>Initialisation\<close>

lemma PHY_RAM_BASE_le [simp]: "PHY_RAM_BASE \<le> index_to_phys i"
  by (simp add: word_le_nat_alt unat_index_to_phys PHY_RAM_BASE_def)

text \<open>The frames below \<open>n\<close> that lie above the reserved memory, in increasing order.\<close>

definition unreserved :: "u64 \<Rightarrow> nat \<Rightarrow> u32 list" where
  "unreserved rend n = filter (\<lambda>i. rend \<le> index_to_phys i) (map of_nat [0..<n])"

lemma unreserved_Suc:
  "unreserved rend (Suc n) =
     unreserved rend n @ (if rend \<le> index_to_phys (of_nat n) then [of_nat n] else [])"
  by (simp add: unreserved_def)

lemma length_unreserved: "length (unreserved rend n) \<le> n"
  by (induction n) (auto simp: unreserved_Suc, simp add: unreserved_def)

lemma set_unreserved:
  assumes "n \<le> 4294967296"
  shows "set (unreserved rend n) = {i. unat i < n \<and> rend \<le> index_to_phys i}"
proof -
  have "i \<in> of_nat ` {0..<n}" if "unat i < n" for i :: u32
    using that by (intro image_eqI [of _ _ "unat i"]) simp_all
  then show ?thesis using assms by (auto simp: unreserved_def unat_u32_of_nat)
qed

lemma distinct_unreserved: "n \<le> 4294967296 \<Longrightarrow> distinct (unreserved rend n)"
  by (auto simp: unreserved_def distinct_map inj_on_def word_unat_eq_iff unat_u32_of_nat
      intro!: distinct_filter)

text \<open>The state after \<open>i\<close> iterations of the loop of \<open>pmm_init\<close>.\<close>

definition init_upto :: "u64 \<Rightarrow> pmm \<Rightarrow> nat \<Rightarrow> pmm \<Rightarrow> bool" where
  "init_upto rend s1 i s \<longleftrightarrow>
     same_geometry s1 s \<and> pmm_arrays s \<and> free_frames s = unreserved rend i \<and>
     unat (stack_top s) = length (unreserved rend i) \<and> used_frames s + stack_top s = of_nat i \<and>
     (\<forall>j. unat j < i \<longrightarrow> ref_of s j = (if rend \<le> index_to_phys j then 0 else 1))"

lemma pmm_init_frame_step:
  assumes s1: "stack_capacity s1 = total_frames s1"
    and i: "i < unat (total_frames s1)" and P: "init_upto rend s1 i s"
  shows "\<exists>s'. pmm_init_frame rend i s = Some s' \<and> init_upto rend s1 (Suc i) s'"
proof -
  from P have geo: "same_geometry s1 s" by (simp add: init_upto_def)
  then have tf: "total_frames s = total_frames s1" "stack_capacity s = total_frames s1"
    using s1 by (simp_all add: same_geometry_def)
  from P obtain fs rc where arr: "frame_stack s = Some fs" "ref_counts s = Some rc"
    "length fs = unat (total_frames s1)" "length rc = unat (total_frames s1)"
    by (auto simp: init_upto_def pmm_arrays_def tf split: option.splits)
  have i32: "i < 4294967296" using i unat_u32_lt [of "total_frames s1"] by simp
  then have ui: "unat (of_nat i :: u32) = i" by (simp add: unat_u32_of_nat)
  have top: "unat (stack_top s) \<le> i" using P length_unreserved [of rend i] by (simp add: init_upto_def)
  have used: "used_frames s + stack_top s = of_nat i" using P by (simp add: init_upto_def)
  have stk: "take (unat (stack_top s)) fs = unreserved rend i"
    "unat (stack_top s) = length (unreserved rend i)"
    using P arr(1) unfolding init_upto_def free_frames_def by auto
  have refs: "ref_of s j = (if rend \<le> index_to_phys j then 0 else 1)" if "unat j < i" for j
    using P that by (simp add: init_upto_def)
  have ju: "unat j = i \<Longrightarrow> j = of_nat i" for j :: u32 by auto
  show ?thesis
  proof (cases "rend \<le> index_to_phys (of_nat i)")
    case False
    let ?s = "s\<lparr>used_frames := used_frames s + 1, ref_counts := Some (rc[i := 1])\<rparr>"
    have "pmm_init_frame rend i s = Some ?s"
      using False arr i by (simp add: pmm_init_frame_def array_facts not_le)
    moreover have "init_upto rend s1 (Suc i) ?s"
      unfolding init_upto_def
    proof (intro conjI allI impI)
      show "same_geometry s1 ?s" using geo by (simp add: same_geometry_def)
      show "pmm_arrays ?s" using arr tf by (simp add: pmm_arrays_def)
      show "free_frames ?s = unreserved rend (Suc i)"
        using stk False arr by (simp add: free_frames_def unreserved_Suc)
      show "unat (stack_top ?s) = length (unreserved rend (Suc i))"
        using stk False by (simp add: unreserved_Suc)
      show "used_frames ?s + stack_top ?s = of_nat (Suc i)"
        unfolding of_nat_Suc used [symmetric] by (simp add: ac_simps)
      show "ref_of ?s j = (if rend \<le> index_to_phys j then 0 else 1)" if "unat j < Suc i" for j
        using that False refs arr i by (cases "unat j = i") (auto simp: ref_of_def dest!: ju)
    qed
    ultimately show ?thesis by blast
  next
    case True
    let ?t = "stack_top s"
    have lt: "unat ?t < length fs" using top i arr by simp
    have ut: "unat (?t + 1) = unat ?t + 1"
      using lt arr unat_u32_lt [of "total_frames s1"] by (intro unat_inc) simp
    let ?s = "s\<lparr>ref_counts := Some (rc[i := 0]), frame_stack := Some (fs[unat ?t := of_nat i]),
               stack_top := ?t + 1\<rparr>"
    have "pmm_init_frame rend i s = Some ?s"
      using True arr i lt tf leD [OF True]
      by (simp add: pmm_init_frame_def array_facts word_less_nat_alt [of "stack_top s"])
    moreover have "init_upto rend s1 (Suc i) ?s"
      unfolding init_upto_def
    proof (intro conjI allI impI)
      show "same_geometry s1 ?s" using geo by (simp add: same_geometry_def)
      show "pmm_arrays ?s" using arr tf by (simp add: pmm_arrays_def)
      show "free_frames ?s = unreserved rend (Suc i)"
        using stk True lt by (simp add: free_frames_def unreserved_Suc ut take_Suc_push)
      show "unat (stack_top ?s) = length (unreserved rend (Suc i))"
        using stk True by (simp add: unreserved_Suc ut)
      show "used_frames ?s + stack_top ?s = of_nat (Suc i)"
        unfolding of_nat_Suc used [symmetric] by (simp add: ac_simps)
      show "ref_of ?s j = (if rend \<le> index_to_phys j then 0 else 1)" if "unat j < Suc i" for j
        using that True refs arr i by (cases "unat j = i") (auto simp: ref_of_def dest!: ju)
    qed
    ultimately show ?thesis by blast
  qed
qed

lemma pmm_init_ok:
  assumes ram: "ram_size < 0x80000000000" and fits: "arrays_in_ram kernel_end ram_size"
  shows "\<exists>s. pmm_init raw_stack raw_refs kernel_end ram_size pmm_static = Some s \<and> pmm_inv s \<and>
           phy_ram_size s = ram_size \<and>
           free_frames s = unreserved (pmm_reserved_end kernel_end (total_frames s))
                                      (unat (total_frames s)) \<and>
           (\<forall>i < total_frames s. ref_of s i =
              (if pmm_reserved_end kernel_end (total_frames s) \<le> index_to_phys i then 0 else 1))"
proof -
  let ?n = "ucast (ram_size div PAGE_SIZE) :: u32"
  let ?rend = "pmm_reserved_end kernel_end ?n"
  define s1 where "s1 = pmm_static\<lparr>phy_ram_size := ram_size,
     phy_ram_end := PHY_RAM_BASE + ram_size, total_frames := ?n,
     frame_stack := Some (map raw_stack [0..<unat ?n]),
     ref_counts := Some (map raw_refs [0..<unat ?n]), stack_capacity := ?n, stack_top := 0\<rparr>"
  have geo: "ram_geometry s1" using ram by (simp add: ram_geometry_def s1_def)
  have s1: "stack_capacity s1 = total_frames s1" "total_frames s1 = ?n"
    by (simp_all add: s1_def)
  have start: "init_upto ?rend s1 0 s1"
    by (simp add: init_upto_def s1_def pmm_arrays_def free_frames_def unreserved_def pmm_static_def)
  have "\<exists>s. for_loop 0 (unat ?n) (pmm_init_frame ?rend) s1 = Some s \<and> init_upto ?rend s1 (unat ?n) s"
    by (rule for_loop_total [where P = "init_upto ?rend s1", OF start])
      (use pmm_init_frame_step [OF s1(1), of _ ?rend] s1(2) in auto)
  then obtain s where run: "for_loop 0 (unat ?n) (pmm_init_frame ?rend) s1 = Some s"
    and P: "init_upto ?rend s1 (unat ?n) s" by blast
  from P have sg: "same_geometry s1 s" by (simp add: init_upto_def)
  then have tf: "total_frames s = ?n" using s1(2) by (simp add: same_geometry_def)
  have le: "unat ?n \<le> 4294967296" using unat_u32_lt [of ?n] by simp
  have ff: "free_frames s = unreserved ?rend (unat ?n)" using P by (simp add: init_upto_def)
  have "pmm_inv s"
    unfolding pmm_inv_def tf
  proof (intro conjI ballI)
    show "ram_geometry s" using geo sg by (simp add: ram_geometry_def same_geometry_def)
    show "pmm_arrays s" "used_frames s + stack_top s = ?n" using P by (simp_all add: init_upto_def)
    show "stack_capacity s = ?n" using sg s1 by (simp add: same_geometry_def)
    show "stack_top s \<le> ?n"
      using P length_unreserved [of ?rend "unat ?n"] by (simp add: init_upto_def word_le_nat_alt)
    show "distinct (free_frames s)" by (simp add: ff distinct_unreserved le)
    fix i assume "i \<in> set (free_frames s)"
    then have "unat i < unat ?n" "?rend \<le> index_to_phys i" by (simp_all add: ff set_unreserved [OF le])
    then show "i < ?n" "ref_of s i = 0" using P by (auto simp: init_upto_def word_less_nat_alt)
  qed
  moreover have "pmm_init raw_stack raw_refs kernel_end ram_size pmm_static = Some s"
    using run fits by (simp add: pmm_init_def s1_def Let_def guard_def)
  moreover have "phy_ram_size s = ram_size" using sg by (simp add: s1_def same_geometry_def)
  moreover have "\<forall>i < total_frames s. ref_of s i = (if ?rend \<le> index_to_phys i then 0 else 1)"
    using P tf by (auto simp: init_upto_def word_less_nat_alt)
  ultimately show ?thesis using ff tf by auto
qed

section \<open>Marking a region as used\<close>

lemma mark_scan_remove:
  assumes inv: "pmm_inv s" and fs: "frame_stack s = Some fs"
    and i: "i < unat (stack_top s)"
  shows "\<exists>s'. mark_scan (fs ! i) i s = Some s' \<and> pmm_inv s' \<and>
           set (free_frames s') = set (free_frames s) - {fs ! i} \<and>
           ref_of s' = ref_of s \<and> used_frames s' = used_frames s + 1 \<and> same_geometry s s'"
proof -
  have ff: "free_frames s = take (unat (stack_top s)) fs" using fs by (simp add: free_frames_def)
  have len: "unat (stack_top s) \<le> length fs" "length fs = unat (total_frames s)"
    using inv fs by (auto elim!: pmm_invE)
  let ?top = "stack_top s - 1"
  have ut: "unat ?top = unat (stack_top s) - 1" using i by (intro unat_dec) auto
  let ?fs = "fs[i := fs ! unat ?top]"
  define s' where "s' = s\<lparr>stack_top := ?top, frame_stack := Some ?fs, used_frames := used_frames s + 1\<rparr>"
  have "mark_scan (fs ! i) i s = Some s'"
    using i fs len ut by (subst mark_scan.simps) (simp add: array_facts s'_def)
  moreover have ff': "free_frames s' = take (unat (stack_top s) - 1) (fs[i := fs ! (unat (stack_top s) - 1)])"
    using ut by (simp add: s'_def free_frames_def)
  note swap = set_take_swap_remove [OF _ i len(1), folded ff' ff, OF pmm_invD(4) [OF inv]]
  moreover have rf: "ref_of s' = ref_of s" by (simp add: s'_def ref_of_def fun_eq_iff)
  moreover have geo: "same_geometry s s'" by (simp add: s'_def same_geometry_def)
  moreover have "pmm_inv s'"
  proof (rule pmm_inv_transfer [OF inv geo _ _ _ swap(2)])
    show "pmm_arrays s'" using inv fs by (auto simp: s'_def pmm_arrays_def elim!: pmm_invE)
    show "stack_top s' \<le> total_frames s'" using len ut by (simp add: s'_def word_le_nat_alt)
    show "used_frames s' + stack_top s' = total_frames s'"
      using pmm_invD(3) [OF inv] by (simp add: s'_def)
    show "j < total_frames s \<and> ref_of s' j = 0" if "j \<in> set (free_frames s')" for j
      using that pmm_invD(5,6) [OF inv] by (simp add: swap(1) rf)
  qed
  ultimately show ?thesis by (auto simp: s'_def)
qed

lemma mark_scan_ok:
  assumes "pmm_inv s" "frame_stack s = Some fs" "target \<notin> set (take i fs)" "i \<le> unat (stack_top s)"
  shows "\<exists>s'. mark_scan target i s = Some s' \<and> pmm_inv s' \<and>
           set (free_frames s') = set (free_frames s) - {target} \<and>
           ref_of s' = ref_of s \<and> same_geometry s s'"
  using assms
proof (induction target i s rule: mark_scan.induct)
  case (1 target i s)
  have len: "unat (stack_top s) \<le> length fs" using "1.prems" by (auto elim!: pmm_invE)
  show ?case
  proof (cases "i < unat (stack_top s)")
    case False
    then have "target \<notin> set (free_frames s)" using "1.prems" by (simp add: free_frames_def)
    then show ?thesis using False "1.prems" by (subst mark_scan.simps) simp
  next
    case True
    show ?thesis
    proof (cases "fs ! i = target")
      case eq: True
      then show ?thesis using mark_scan_remove [OF "1.prems"(1,2) True] by auto
    next
      case neq: False
      have "mark_scan target i s = mark_scan target (Suc i) s"
        using True neq len "1.prems"(2) by (subst mark_scan.simps) (simp add: array_facts)
      moreover have "target \<notin> set (take (Suc i) fs)"
        using neq "1.prems"(3) True len by (simp add: take_Suc_conv_app_nth)
      moreover have "\<exists>s'. mark_scan target (Suc i) s = Some s' \<and> pmm_inv s' \<and>
           set (free_frames s') = set (free_frames s) - {target} \<and>
           ref_of s' = ref_of s \<and> same_geometry s s'"
        using "1.IH" [of fs "fs ! i"] True neq len "1.prems" calculation(2)
        by (simp add: array_facts)
      ultimately show ?thesis by simp
    qed
  qed
qed

lemma mark_range_ok:
  assumes inv: "pmm_inv s" and le: "lo \<le> hi" and hi: "hi < 4294967296"
  shows "\<exists>s'. for_loop lo hi (\<lambda>t. mark_scan (of_nat t) 0) s = Some s' \<and> pmm_inv s' \<and>
           set (free_frames s') = {i \<in> set (free_frames s). \<not> (lo \<le> unat i \<and> unat i < hi)} \<and>
           ref_of s' = ref_of s \<and> same_geometry s s'"
proof -
  define P where "P k t \<longleftrightarrow> pmm_inv t \<and>
      set (free_frames t) = {i \<in> set (free_frames s). \<not> (lo \<le> unat i \<and> unat i < k)} \<and>
      ref_of t = ref_of s \<and> same_geometry s t" for k t
  have "P lo s" using inv by (auto simp: P_def)
  then have "\<exists>s'. for_loop lo hi (\<lambda>t. mark_scan (of_nat t) 0) s = Some s' \<and> P hi s'"
  proof (rule for_loop_total [OF _ le])
    fix k t assume k: "lo \<le> k" "k < hi" and Pk: "P k t"
    then obtain fs where fs: "frame_stack t = Some fs" unfolding P_def by (blast elim: pmm_invE)
    obtain t' where t': "mark_scan (of_nat k) 0 t = Some t'" "pmm_inv t'"
      "set (free_frames t') = set (free_frames t) - {of_nat k}" "ref_of t' = ref_of t"
      "same_geometry t t'"
      using mark_scan_ok [of t fs "of_nat k" 0] Pk fs by (auto simp: P_def)
    have uk: "unat (of_nat k :: u32) = k" using k hi by (simp add: unat_u32_of_nat)
    then have "unat i < Suc k \<longleftrightarrow> unat i < k \<or> i = of_nat k" for i :: u32
      by (metis less_Suc_eq of_nat_unat_u32)
    then have "(\<not> (lo \<le> unat i \<and> unat i < k)) \<and> i \<noteq> of_nat k \<longleftrightarrow>
        \<not> (lo \<le> unat i \<and> unat i < Suc k)" for i :: u32
      using k(1) uk by metis
    then have "set (free_frames t') =
        {i \<in> set (free_frames s). \<not> (lo \<le> unat i \<and> unat i < Suc k)}"
      using Pk t'(3) unfolding P_def by blast
    then have "P (Suc k) t'"
      using Pk t' same_geometry_trans unfolding P_def by metis
    with t' show "\<exists>t'. mark_scan (of_nat k) 0 t = Some t' \<and> P (Suc k) t'" by blast
  qed
  then show ?thesis by (simp add: P_def)
qed

text \<open>
  Every frame that overlaps the region is taken off the stack, and no other frame is.
\<close>

lemma pmm_mark_used_region_ok:
  assumes inv: "pmm_inv s" and base: "0x40000000 \<le> unat base" "unat base < unat (phy_ram_end s)"
    and sz: "0 < unat sz" "unat base + unat sz + 4095 < 2 ^ 64"
  shows "\<exists>s'. pmm_mark_used_region base sz s = Some s' \<and> pmm_inv s' \<and>
           set (free_frames s') = {i \<in> set (free_frames s).
              unat (index_to_phys i) + 4096 \<le> unat base \<or>
              unat base + unat sz \<le> unat (index_to_phys i)} \<and>
           ref_of s' = ref_of s \<and> same_geometry s s'"
proof -
  note geo = pmm_invD(1) [OF inv]
  let ?last = "base + sz + PAGE_SIZE - 1"
  let ?lo = "unat (phys_to_index s base)" and ?hi = "unat (phys_to_index s ?last)"
  have sum: "unat (base + sz) = unat base + unat sz"
    using sz by (intro unat_add_no_wrap) simp
  have last: "?last = (base + sz) + 4095" by simp
  have ul: "unat ?last = unat base + unat sz + 4095"
    unfolding last using sz(2) sum unat_add_no_wrap [of "base + sz" "4095 :: u64"] by simp
  have lo: "?lo = (unat base - 0x40000000) div 4096" by (rule phys_to_index_in [OF geo base])
  have inv_lo: "phys_to_index s base \<noteq> u32_invalid"
  proof -
    have "?lo \<le> unat (phy_ram_size s) div 4096"
      using base unat_phy_ram_end [OF geo] unfolding lo by (intro div_le_mono) linarith
    also have "\<dots> < 2147483648" using unat_total_frames [OF geo] by simp
    finally show ?thesis by (auto simp: unsigned_minus_1_eq_mask mask_eq_exp_minus_1)
  qed
  have hi: "?hi < 4294967296" by (rule unat_u32_lt)
  have in_range: "?lo \<le> unat i \<and> unat i < ?hi \<longleftrightarrow>
      \<not> (unat (index_to_phys i) + 4096 \<le> unat base \<or> unat base + unat sz \<le> unat (index_to_phys i))"
    if "i < total_frames s" for i
  proof (cases "unat ?last < unat (phy_ram_end s)")
    case True
    have h: "?hi = (unat base + unat sz + 4095 - 0x40000000) div 4096"
      using phys_to_index_in [OF geo _ True] ul base by simp
    show ?thesis unfolding h lo unat_index_to_phys using base sz by linarith
  next
    case False
    then have h: "?hi = 4294967295"
      using phys_to_index_invalid [of ?last s]
      by (simp add: unsigned_minus_1_eq_mask mask_eq_exp_minus_1)
    have "unat i < unat (total_frames s)" using that by (simp add: word_less_nat_alt)
    moreover have "unat (total_frames s) = unat (phy_ram_size s) div 4096"
      "unat (total_frames s) < 2147483648" by (rule unat_total_frames [OF geo])+
    ultimately show ?thesis
      using False base unfolding h lo unat_index_to_phys unat_phy_ram_end [OF geo] ul by linarith
  qed
  have "?lo \<le> ?hi"
  proof (cases "unat ?last < unat (phy_ram_end s)")
    case True
    then show ?thesis using phys_to_index_in [OF geo _ True] ul base sz unfolding lo
      by (simp add: div_le_mono)
  next
    case False
    then show ?thesis using phys_to_index_invalid [of ?last s] unat_u32_lt [of "phys_to_index s base"]
      by (simp add: unsigned_minus_1_eq_mask mask_eq_exp_minus_1)
  qed
  from mark_range_ok [OF inv this hi] obtain s' where
    "for_loop ?lo ?hi (\<lambda>t. mark_scan (of_nat t) 0) s = Some s'" "pmm_inv s'"
    "set (free_frames s') = {i \<in> set (free_frames s). \<not> (?lo \<le> unat i \<and> unat i < ?hi)}"
    "ref_of s' = ref_of s" "same_geometry s s'" by blast
  moreover have "{i \<in> set (free_frames s). \<not> (?lo \<le> unat i \<and> unat i < ?hi)} =
     {i \<in> set (free_frames s). unat (index_to_phys i) + 4096 \<le> unat base \<or>
        unat base + unat sz \<le> unat (index_to_phys i)}"
    using in_range pmm_invD(5) [OF inv] by blast
  ultimately show ?thesis using inv_lo by (simp add: pmm_mark_used_region_def Let_def)
qed

section \<open>Taking a further reference\<close>

lemma pmm_inc_ref_ok:
  assumes inv: "pmm_inv s" and i: "i < total_frames s" "phys_to_index s addr = i"
    and nf: "i \<notin> set (free_frames s)"
  shows "\<exists>s'. pmm_inc_ref addr s = Some s' \<and> pmm_inv s' \<and> free_frames s' = free_frames s \<and>
           ref_of s' = (ref_of s)(i := (if ref_of s i < 255 then ref_of s i + 1 else 255)) \<and>
           same_geometry s s'"
proof -
  obtain rc where rc: "ref_counts s = Some rc" "length rc = unat (total_frames s)"
    "ref_of s i = rc ! unat i" "unat i < length rc"
    using inv i by (auto elim!: pmm_invE simp: word_less_nat_alt)
  note ni = index_not_invalid [OF pmm_invD(1) [OF inv] i(1)]
  show ?thesis
  proof (cases "ref_of s i < 255")
    case True
    let ?s = "s\<lparr>ref_counts := Some (rc[unat i := ref_of s i + 1])\<rparr>"
    have "pmm_inc_ref addr s = Some ?s"
      using True rc i(2) ni by (simp add: pmm_inc_ref_def Let_def array_facts)
    then show ?thesis
      using True pmm_inv_ref_update [OF inv rc(1) i(1) nf] ref_of_update [OF rc(1,2) i(1)]
      by (intro exI [of _ ?s]) (simp add: same_geometry_def)
  next
    case False
    then have "ref_of s i = 255"
      using unat_u8_lt [of "ref_of s i"] by (simp add: word_less_nat_alt word_unat_eq_iff)
    moreover have "pmm_inc_ref addr s = Some s"
      using False rc i(2) ni by (simp add: pmm_inc_ref_def Let_def array_facts)
    ultimately show ?thesis using inv by (intro exI [of _ s]) (simp add: fun_upd_idem)
  qed
qed

section \<open>The allocator as an implementation of the frame interface\<close>

definition avail_frames :: "pmm \<Rightarrow> u64 set" where
  "avail_frames s = index_to_phys ` set (free_frames s)"

interpretation pmm_frames: frame_allocator pmm_inv avail_frames pmm_alloc_frame
proof unfold_locales
  fix s a assume inv: "pmm_inv s"
  show "finite (avail_frames s)" by (simp add: avail_frames_def)
  show "a \<noteq> 0 \<and> 4096 dvd unat a" if "a \<in> avail_frames s"
    using that by (auto simp: avail_frames_def)
  show "pmm_alloc_frame s = Some (0, s)" if "avail_frames s = {}"
    using pmm_alloc_frame_empty [OF inv] that by (simp add: avail_frames_def)
  assume "avail_frames s \<noteq> {}"
  then have ne: "free_frames s \<noteq> []" by (simp add: avail_frames_def)
  from pmm_alloc_frame_nonempty [OF inv ne] obtain s' where
    s': "pmm_alloc_frame s = Some (index_to_phys (last (free_frames s)), s')" "pmm_inv s'"
      "free_frames s' = butlast (free_frames s)" by blast
  have "avail_frames s' = avail_frames s - {index_to_phys (last (free_frames s))}"
    unfolding avail_frames_def s'(3) set_butlast_distinct [OF pmm_invD(4) [OF inv] ne] by auto
  moreover have "index_to_phys (last (free_frames s)) \<in> avail_frames s"
    using ne by (simp add: avail_frames_def)
  ultimately show "\<exists>a s'. pmm_alloc_frame s = Some (a, s') \<and> pmm_inv s' \<and> a \<in> avail_frames s \<and>
      avail_frames s' = avail_frames s - {a}"
    using s' by blast
qed

section \<open>Reachable states\<close>

text \<open>
  Without \<open>pmm_mark_used_region\<close>, which no part of the kernel calls, the stack and the reference
  counts describe the same partition of the frames.
\<close>

definition pmm_exact :: "pmm \<Rightarrow> bool" where
  "pmm_exact s \<longleftrightarrow>
     pmm_inv s \<and> (\<forall>i. i < total_frames s \<longrightarrow> (ref_of s i = 0 \<longleftrightarrow> i \<in> set (free_frames s)))"

text \<open>
  The states the kernel can bring the allocator into: initialise it once, then allocate, and share and
  release frames that have references.
\<close>

inductive pmm_reach :: "pmm \<Rightarrow> bool" where
  reach_init: "ram_size < 0x80000000000 \<Longrightarrow>
     pmm_init raw_stack raw_refs kernel_end ram_size pmm_static = Some s \<Longrightarrow> pmm_reach s"
| reach_alloc: "pmm_reach s \<Longrightarrow> pmm_alloc_frame s = Some (a, s') \<Longrightarrow> pmm_reach s'"
| reach_share: "pmm_reach s \<Longrightarrow> i < total_frames s \<Longrightarrow> 0 < ref_of s i \<Longrightarrow>
     pmm_inc_ref (index_to_phys i) s = Some s' \<Longrightarrow> pmm_reach s'"
| reach_release: "pmm_reach s \<Longrightarrow> i < total_frames s \<Longrightarrow> 0 < ref_of s i \<Longrightarrow>
     pmm_free_frame (index_to_phys i) s = Some s' \<Longrightarrow> pmm_reach s'"

lemma pmm_exactI:
  assumes "pmm_exact s" "pmm_inv s'" "same_geometry s s'"
    and "\<And>i. i < total_frames s \<Longrightarrow> ref_of s i = 0 \<longleftrightarrow> i \<in> set (free_frames s) \<Longrightarrow>
       ref_of s' i = 0 \<longleftrightarrow> i \<in> set (free_frames s')"
  shows "pmm_exact s'"
  using assms unfolding pmm_exact_def same_geometry_def by simp

lemma pmm_alloc_frame_exact:
  assumes ex: "pmm_exact s" and run: "pmm_alloc_frame s = Some (a, s')"
  shows "pmm_exact s'"
proof -
  from ex have inv: "pmm_inv s" by (simp add: pmm_exact_def)
  show ?thesis
  proof (cases "free_frames s = []")
    case True
    then show ?thesis using pmm_alloc_frame_empty [OF inv] run ex by simp
  next
    case False
    with pmm_alloc_frame_nonempty [OF inv] run have
      s': "pmm_inv s'" "free_frames s' = butlast (free_frames s)"
        "ref_of s' = (ref_of s)(last (free_frames s) := 1)" "same_geometry s s'" by auto
    show ?thesis
      by (rule pmm_exactI [OF ex s'(1,4)])
        (simp add: s'(2,3) set_butlast_distinct [OF pmm_invD(4) [OF inv] False])
  qed
qed

lemma pmm_inc_ref_exact:
  assumes ex: "pmm_exact s" and i: "i < total_frames s" "0 < ref_of s i"
    and run: "pmm_inc_ref (index_to_phys i) s = Some s'"
  shows "pmm_exact s'"
proof -
  from ex have inv: "pmm_inv s" by (simp add: pmm_exact_def)
  have nf: "i \<notin> set (free_frames s)" using i pmm_invD(6) [OF inv] by auto
  from pmm_inc_ref_ok [OF inv i(1) phys_to_index_of_index [OF pmm_invD(1) [OF inv] i(1)] nf] run
  have s': "pmm_inv s'" "free_frames s' = free_frames s" "same_geometry s s'"
    "ref_of s' = (ref_of s)(i := (if ref_of s i < 255 then ref_of s i + 1 else 255))" by auto
  have "ref_of s i + 1 \<noteq> 0" if "ref_of s i < 255"
    using that unat_inc [of "ref_of s i"] by (auto simp: word_less_nat_alt)
  then show ?thesis
    by (intro pmm_exactI [OF ex s'(1,3)]) (auto simp: s'(2,4) nf)
qed

lemma pmm_free_frame_exact:
  assumes ex: "pmm_exact s" and i: "i < total_frames s" "0 < ref_of s i"
    and run: "pmm_free_frame (index_to_phys i) s = Some s'"
  shows "pmm_exact s'"
proof -
  from ex have inv: "pmm_inv s" by (simp add: pmm_exact_def)
  note idx = phys_to_index_of_index [OF pmm_invD(1) [OF inv] i(1)]
  have nf: "i \<notin> set (free_frames s)" using i pmm_invD(6) [OF inv] by auto
  show ?thesis
  proof (cases "ref_of s i = 1")
    case True
    from pmm_free_frame_last [OF inv i(1) idx True] run have
      s': "pmm_inv s'" "free_frames s' = free_frames s @ [i]" "ref_of s' = (ref_of s)(i := 0)"
        "same_geometry s s'" by auto
    show ?thesis by (rule pmm_exactI [OF ex s'(1,4)]) (simp add: s'(2,3))
  next
    case False
    then have "1 < ref_of s i"
      using i(2) by (simp add: word_less_nat_alt word_unat_eq_iff)
    from pmm_free_frame_shared [OF inv i(1) idx this] run have
      s': "pmm_inv s'" "free_frames s' = free_frames s"
        "ref_of s' = (ref_of s)(i := ref_of s i - 1)" "same_geometry s s'" by auto
    show ?thesis using False nf by (intro pmm_exactI [OF ex s'(1,4)]) (auto simp: s'(2,3))
  qed
qed

lemma pmm_reach_exact_aux: "pmm_reach s \<Longrightarrow> pmm_exact s"
proof (induction rule: pmm_reach.induct)
  case (reach_init ram_size raw_stack raw_refs kernel_end s)
  have fits: "arrays_in_ram kernel_end ram_size"
    using reach_init(2) by (simp add: pmm_init_def Let_def guard_def split: if_splits)
  from pmm_init_ok [OF reach_init(1) fits, of raw_stack raw_refs] reach_init(2)
  have s: "pmm_inv s"
    "free_frames s = unreserved (pmm_reserved_end kernel_end (total_frames s)) (unat (total_frames s))"
    "\<forall>i < total_frames s. ref_of s i =
        (if pmm_reserved_end kernel_end (total_frames s) \<le> index_to_phys i then 0 else 1)" by auto
  have "unat (total_frames s) \<le> 4294967296" using unat_u32_lt [of "total_frames s"] by simp
  then show ?case
    using s(1,3) unfolding pmm_exact_def s(2) by (auto simp: set_unreserved word_less_nat_alt)
qed (blast intro: pmm_alloc_frame_exact pmm_inc_ref_exact pmm_free_frame_exact)+

section \<open>Properties\<close>

lemma unat_pmm_reserved_end:
  assumes "unat kernel_end < 2 ^ 60"
  shows "unat (pmm_reserved_end kernel_end n) = (unat kernel_end + 4095) div 4096 * 4096 + 5 * unat n"
proof -
  define st where "st = (kernel_end + PAGE_SIZE - 1) AND NOT (PAGE_SIZE - 1)"
  have start: "unat st = (unat kernel_end + 4095) div 4096 * 4096"
    unfolding st_def using assms by (intro unat_page_ceil) simp
  have n: "unat (ucast n * 4 :: u64) = unat n * 4"
    using unat_u32_lt [of n] unat_mult_no_wrap [of "ucast n :: u64" 4] by simp
  have lt: "unat st + unat n * 4 + unat n < 2 ^ 64"
    using assms unat_u32_lt [of n] unfolding start by simp
  then have one: "unat (st + ucast n * 4) = unat st + unat n * 4"
    by (subst unat_add_no_wrap) (simp_all add: n)
  have "unat (st + ucast n * 4 + ucast n) = unat st + unat n * 4 + unat n"
    using lt one by (subst unat_add_no_wrap) simp_all
  then show ?thesis
    unfolding pmm_reserved_end_def Let_def st_def [symmetric] mult_1_right start by simp
qed

text \<open>How many frames are available after initialisation: all but those of the reserved memory.\<close>

lemma card_avail_init:
  assumes "ram_size < 0x80000000000" and "unat kernel_end < 2 ^ 60" and fits: "arrays_in_ram kernel_end ram_size"
  obtains s where "pmm_init raw_stack raw_refs kernel_end ram_size pmm_static = Some s" "pmm_inv s"
    "phy_ram_size s = ram_size"
    "unat ram_size div 4096 \<le> card (avail_frames s) +
       ((unat kernel_end + 4095) div 4096 * 4096 + 5 * (unat ram_size div 4096) - 0x40000000 + 4095) div 4096"
    "avail_frames s = index_to_phys ` {i. unat i < unat ram_size div 4096 \<and>
       (unat kernel_end + 4095) div 4096 * 4096 + 5 * (unat ram_size div 4096) \<le> unat (index_to_phys i)}"
proof -
  from pmm_init_ok [OF assms(1,3)] obtain s where
    s: "pmm_init raw_stack raw_refs kernel_end ram_size pmm_static = Some s" "pmm_inv s"
      "phy_ram_size s = ram_size"
      "free_frames s = unreserved (pmm_reserved_end kernel_end (total_frames s)) (unat (total_frames s))"
    by blast
  define n where "n = unat ram_size div 4096"
  have n: "unat (total_frames s) = n" "n \<le> 4294967296"
    using unat_total_frames(1) [OF pmm_invD(1) [OF s(2)]] s(3) unat_u32_lt [of "total_frames s"]
    by (simp_all add: n_def)
  define R where "R = (unat kernel_end + 4095) div 4096 * 4096 + 5 * n"
  have free: "set (free_frames s) = {i. unat i < n \<and> R \<le> unat (index_to_phys i)}"
    using s(4) n by (simp add: set_unreserved word_le_nat_alt unat_pmm_reserved_end [OF assms(2)] R_def)
  have cover: "{..<n} \<subseteq> unat ` set (free_frames s) \<union> {..<(R - 0x40000000 + 4095) div 4096}"
  proof
    fix k assume "k \<in> {..<n}"
    then have k: "k < n" "unat (of_nat k :: u32) = k" using n(2) by (simp_all add: unat_u32_of_nat)
    show "k \<in> unat ` set (free_frames s) \<union> {..<(R - 0x40000000 + 4095) div 4096}"
    proof (cases "R \<le> unat (index_to_phys (of_nat k))")
      case True
      then have "of_nat k \<in> set (free_frames s)" using k by (simp add: free)
      then show ?thesis using k(2) by (metis UnI1 image_eqI)
    next
      case False
      then have "k * 4096 < R - 0x40000000" using k(2) by (simp add: unat_index_to_phys)
      then show ?thesis by (auto simp: less_eq_div_iff_mult_less_eq Suc_le_eq [symmetric])
    qed
  qed
  have "n \<le> card (unat ` set (free_frames s)) + (R - 0x40000000 + 4095) div 4096"
    using card_mono [OF _ cover] card_Un_le [of "unat ` set (free_frames s)" "{..<(R - 0x40000000 + 4095) div 4096}"]
    by simp
  moreover have "card (unat ` set (free_frames s)) = card (avail_frames s)"
  proof -
    have "inj_on unat (set (free_frames s))" "inj_on index_to_phys (set (free_frames s))"
      by (simp_all add: inj_on_def) (simp add: word_unat_eq_iff)
    then show ?thesis unfolding avail_frames_def by (simp only: card_image)
  qed
  ultimately show thesis
    using that [OF s(1-3)] free unfolding n_def R_def avail_frames_def by simp
qed

text \<open>
  C12. Initialisation, on every layout: when the stack array (four bytes per frame) and the reference counts (one byte per
  frame) fit into the RAM behind the kernel image, it runs without an out-of-range access and establishes the invariant, and the
  frames that become available are exactly those above these arrays, so none of them overlaps the kernel image or the arrays.
  When they do not fit, it is undefined: the arrays would be written outside of the RAM.
\<close>

theorem pmm_init_correct:
  assumes "ram_size < 0x80000000000" and "unat kernel_end < 2 ^ 60"
  shows "if arrays_in_ram kernel_end ram_size
    then \<exists>s. pmm_init raw_stack raw_refs kernel_end ram_size pmm_static = Some s \<and> pmm_inv s \<and>
           unat (total_frames s) = unat ram_size div 4096 \<and>
           set (free_frames s) = {i. i < total_frames s \<and>
              (unat kernel_end + 4095) div 4096 * 4096 + 5 * unat (total_frames s)
                \<le> unat (index_to_phys i)}
    else pmm_init raw_stack raw_refs kernel_end ram_size pmm_static = None"
proof (cases "arrays_in_ram kernel_end ram_size")
  case True
  from pmm_init_ok [OF assms(1) True] obtain s where
    s: "pmm_init raw_stack raw_refs kernel_end ram_size pmm_static = Some s" "pmm_inv s"
      "phy_ram_size s = ram_size"
      "free_frames s = unreserved (pmm_reserved_end kernel_end (total_frames s)) (unat (total_frames s))"
    by blast
  have "unat (total_frames s) \<le> 4294967296" using unat_u32_lt [of "total_frames s"] by simp
  then show ?thesis
    using True s unat_total_frames(1) [OF pmm_invD(1) [OF s(2)]]
    by (simp add: set_unreserved word_less_nat_alt word_le_nat_alt unat_pmm_reserved_end [OF assms(2)])
next
  case False
  then show ?thesis by (simp add: pmm_init_def guard_def)
qed

theorem pmm_init_correct_witness:
  "\<exists>s. pmm_init (\<lambda>_. 7) (\<lambda>_. 9) 0x40001000 0x10000 pmm_static = Some s \<and> pmm_inv s \<and>
     unat (total_frames s) = 16 \<and>
     set (free_frames s) = {i. i < total_frames s \<and> 0x40001050 \<le> unat (index_to_phys i)}"
proof -
  have h: "(0x10000 :: u64) < 0x80000000000" "unat (0x40001000 :: u64) < 2 ^ 60" by simp_all
  have "arrays_in_ram 0x40001000 0x10000" by (simp add: arrays_in_ram_def PHY_RAM_BASE_def)
  with pmm_init_correct [OF h, of "\<lambda>_. 7" "\<lambda>_. 9"] obtain s where
    s: "pmm_init (\<lambda>_. 7) (\<lambda>_. 9) 0x40001000 0x10000 pmm_static = Some s" "pmm_inv s"
      "unat (total_frames s) = unat (0x10000 :: u64) div 4096"
      "set (free_frames s) = {i. i < total_frames s \<and>
         (unat (0x40001000 :: u64) + 4095) div 4096 * 4096 + 5 * unat (total_frames s)
           \<le> unat (index_to_phys i)}"
    by auto
  have t: "unat (total_frames s) = 16" using s(3) by simp
  from s(4) have "set (free_frames s) = {i. i < total_frames s \<and> 0x40001050 \<le> unat (index_to_phys i)}"
    unfolding t by simp
  with s(1,2) t show ?thesis by blast
qed

text \<open>
  C13. A frame allocation either finds no frame, and then returns the null address and changes nothing,
  or returns the page-aligned address of a frame that was free, takes exactly that frame from the
  available ones, gives it one reference, leaves every other count alone and keeps the invariant.
\<close>

theorem pmm_alloc_frame_correct:
  assumes "pmm_inv s"
  shows "\<exists>a s'. pmm_alloc_frame s = Some (a, s') \<and> pmm_inv s' \<and>
           (if avail_frames s = {} then a = 0 \<and> s' = s
            else a \<in> avail_frames s \<and> a \<noteq> 0 \<and> 4096 dvd unat a \<and>
                 avail_frames s' = avail_frames s - {a} \<and>
                 ref_of s' = (ref_of s)(phys_to_index s a := 1) \<and>
                 used_frames s' = used_frames s + 1)"
proof (cases "avail_frames s = {}")
  case True
  then show ?thesis using pmm_frames.alloc_empty [OF assms] assms by simp
next
  case False
  then have ne: "free_frames s \<noteq> []" by (simp add: avail_frames_def)
  from pmm_alloc_frame_nonempty [OF assms ne] obtain s' where
    s': "pmm_alloc_frame s = Some (index_to_phys (last (free_frames s)), s')"
      "ref_of s' = (ref_of s)(last (free_frames s) := 1)" "used_frames s' = used_frames s + 1" by blast
  have "phys_to_index s (index_to_phys (last (free_frames s))) = last (free_frames s)"
    using ne pmm_invD(1,5) [OF assms] by (intro phys_to_index_of_index) simp_all
  then show ?thesis
    using False s' pmm_frames.alloc_frame [OF assms s'(1)] by simp
qed

text \<open>A small allocator state: four frames, two of them free.\<close>

definition demo_pmm :: pmm where
  "demo_pmm = \<lparr>frame_stack = Some [3, 2, 0, 0], stack_top = 2, stack_capacity = 4, used_frames = 2,
     phy_ram_size = 0x4000, phy_ram_end = 0x40004000, total_frames = 4,
     ref_counts = Some [2, 1, 0, 0]\<rparr>"

lemma demo_pmm_inv: "pmm_inv demo_pmm"
  by (simp add: pmm_inv_def demo_pmm_def ram_geometry_def PHY_RAM_BASE_def pmm_arrays_def
      free_frames_def ref_of_def)

lemma demo_pmm_free: "free_frames demo_pmm = [3, 2]"
  by (simp add: demo_pmm_def free_frames_def)

theorem pmm_alloc_frame_correct_witness:
  "pmm_inv demo_pmm \<and> (\<exists>a s'. pmm_alloc_frame demo_pmm = Some (a, s') \<and> pmm_inv s' \<and>
     a \<in> avail_frames demo_pmm \<and> avail_frames s' = avail_frames demo_pmm - {a})"
proof -
  have "avail_frames demo_pmm \<noteq> {}" by (simp add: avail_frames_def demo_pmm_free)
  then show ?thesis using pmm_alloc_frame_correct [OF demo_pmm_inv] demo_pmm_inv by auto
qed

text \<open>
  C14. Releasing a frame that has references, or that was marked as used, never leaves the arrays and
  keeps the invariant: an address outside the RAM changes nothing, a count above one is decremented
  and the frame stays allocated, the last reference puts the frame on top of the stack.
\<close>

theorem pmm_free_frame_correct:
  assumes inv: "pmm_inv s" and i: "i = phys_to_index s addr" and nf: "i \<notin> set (free_frames s)"
  shows "\<exists>s'. pmm_free_frame addr s = Some s' \<and> pmm_inv s' \<and> same_geometry s s' \<and>
           (if total_frames s \<le> i then s' = s
            else if 1 < ref_of s i then
              free_frames s' = free_frames s \<and> ref_of s' = (ref_of s)(i := ref_of s i - 1)
            else free_frames s' = free_frames s @ [i] \<and> ref_of s' = (ref_of s)(i := 0) \<and>
                 used_frames s' = used_frames s - 1)"
proof (cases "i < total_frames s")
  case False
  then show ?thesis using pmm_free_frame_outside [of s addr] inv i by (auto simp: not_less)
next
  case True
  have cases3: "ref_of s i = 0 \<or> ref_of s i = 1 \<or> 1 < ref_of s i"
    by (auto simp: word_less_nat_alt word_unat_eq_iff)
  show ?thesis
    using cases3 leD [of "total_frames s" i] True
      pmm_free_frame_marked [OF inv True i [symmetric] _ nf]
      pmm_free_frame_last [OF inv True i [symmetric]]
      pmm_free_frame_shared [OF inv True i [symmetric]]
    by (elim disjE) (auto simp: fun_upd_idem)
qed

theorem pmm_free_frame_correct_witness:
  "phys_to_index demo_pmm 0x40001000 = 1 \<and> 1 \<notin> set (free_frames demo_pmm) \<and>
   (\<exists>s'. pmm_free_frame 0x40001000 demo_pmm = Some s' \<and> pmm_inv s' \<and> free_frames s' = [3, 2, 1])"
proof -
  have i: "1 = phys_to_index demo_pmm 0x40001000"
    by (simp add: phys_to_index_def demo_pmm_def PHY_RAM_BASE_def)
  have nf: "1 \<notin> set (free_frames demo_pmm)" by (simp add: demo_pmm_free)
  have "\<not> total_frames demo_pmm \<le> 1" "\<not> 1 < ref_of demo_pmm 1"
    by (simp_all add: demo_pmm_def ref_of_def word_le_nat_alt)
  then show ?thesis
    using pmm_free_frame_correct [OF demo_pmm_inv i nf] i nf by (auto simp: demo_pmm_free)
qed

text \<open>
  Allocating a frame and releasing it again restores the stack of free frames in its order, every
  reference count and the number of used frames.
\<close>

theorem pmm_alloc_free_roundtrip:
  assumes inv: "pmm_inv s" and ne: "avail_frames s \<noteq> {}"
  shows "\<exists>a s' s''. pmm_alloc_frame s = Some (a, s') \<and> pmm_free_frame a s' = Some s'' \<and>
           pmm_inv s'' \<and> free_frames s'' = free_frames s \<and> ref_of s'' = ref_of s \<and>
           used_frames s'' = used_frames s \<and> same_geometry s s''"
proof -
  have ne': "free_frames s \<noteq> []" using ne by (simp add: avail_frames_def)
  let ?i = "last (free_frames s)"
  from pmm_alloc_frame_nonempty [OF inv ne'] obtain s' where
    s': "pmm_alloc_frame s = Some (index_to_phys ?i, s')" "pmm_inv s'"
      "free_frames s' = butlast (free_frames s)" "ref_of s' = (ref_of s)(?i := 1)"
      "used_frames s' = used_frames s + 1" "same_geometry s s'" by blast
  have lt: "?i < total_frames s" "ref_of s ?i = 0" using ne' pmm_invD(5,6) [OF inv] by simp_all
  then have lt': "?i < total_frames s'" using s'(6) by (simp add: same_geometry_def)
  have idx: "phys_to_index s' (index_to_phys ?i) = ?i"
    by (rule phys_to_index_of_index [OF pmm_invD(1) [OF s'(2)] lt'])
  have "ref_of s' ?i = 1" by (simp add: s'(4))
  from pmm_free_frame_last [OF s'(2) lt' idx this] obtain s'' where
    s'': "pmm_free_frame (index_to_phys ?i) s' = Some s''" "pmm_inv s''"
      "free_frames s'' = free_frames s' @ [?i]" "ref_of s'' = (ref_of s')(?i := 0)"
      "used_frames s'' = used_frames s' - 1" "same_geometry s' s''" by blast
  have "free_frames s'' = free_frames s" using s'(3) s''(3) ne' by simp
  moreover have "ref_of s'' = ref_of s" using s'(4) s''(4) lt(2) by (simp add: fun_upd_idem)
  ultimately show ?thesis
    using s' s'' same_geometry_trans [OF s'(6) s''(6)] by auto
qed

theorem pmm_alloc_free_roundtrip_witness:
  "avail_frames demo_pmm \<noteq> {} \<and> (\<exists>a s' s''. pmm_alloc_frame demo_pmm = Some (a, s') \<and>
     pmm_free_frame a s' = Some s'' \<and> free_frames s'' = [3, 2])"
proof -
  have "avail_frames demo_pmm \<noteq> {}" by (simp add: avail_frames_def demo_pmm_free)
  then show ?thesis
    using pmm_alloc_free_roundtrip [OF demo_pmm_inv] by (auto simp: demo_pmm_free)
qed

text \<open>
  Marking a non-empty region of the RAM as used takes every frame that overlaps the region off the
  stack of free frames and no other frame, also where the region ends beyond the RAM.
\<close>

theorem pmm_mark_used_region_correct:
  assumes "pmm_inv s" and "0x40000000 \<le> unat base" "unat base < unat (phy_ram_end s)"
    and "0 < unat sz" "unat base + unat sz + 4095 < 2 ^ 64"
  shows "\<exists>s'. pmm_mark_used_region base sz s = Some s' \<and> pmm_inv s' \<and>
           set (free_frames s') = {i \<in> set (free_frames s).
              unat (index_to_phys i) + 4096 \<le> unat base \<or>
              unat base + unat sz \<le> unat (index_to_phys i)} \<and>
           ref_of s' = ref_of s \<and> same_geometry s s'"
  using assms by (rule pmm_mark_used_region_ok)

theorem pmm_mark_used_region_correct_witness:
  "\<exists>s'. pmm_mark_used_region 0x40002008 16 demo_pmm = Some s' \<and> set (free_frames s') = {3}"
proof -
  have h: "0x40000000 \<le> unat (0x40002008 :: u64)"
    "unat (0x40002008 :: u64) < unat (phy_ram_end demo_pmm)"
    "0 < unat (16 :: u64)" "unat (0x40002008 :: u64) + unat (16 :: u64) + 4095 < 2 ^ 64"
    by (simp_all add: demo_pmm_def)
  have "{i \<in> {3, 2 :: u32}. unat (index_to_phys i) + 4096 \<le> unat (0x40002008 :: u64) \<or>
      unat (0x40002008 :: u64) + unat (16 :: u64) \<le> unat (index_to_phys i)} = {3}"
    by (auto simp: unat_index_to_phys)
  then show ?thesis
    using pmm_mark_used_region_correct [OF demo_pmm_inv h] by (auto simp: demo_pmm_free)
qed

text \<open>
  C15. In every state the kernel can reach by initialising the allocator and then allocating, sharing
  and releasing frames, the invariant holds and a frame of the RAM is on the stack of free frames
  exactly when it has no references: no frame is both free and in use, and none is lost.
\<close>

theorem pmm_reachable_exact:
  assumes "pmm_reach s"
  shows "pmm_inv s \<and> (\<forall>i. i < total_frames s \<longrightarrow> (ref_of s i = 0 \<longleftrightarrow> i \<in> set (free_frames s)))"
  using pmm_reach_exact_aux [OF assms] by (simp add: pmm_exact_def)

theorem pmm_reachable_exact_witness:
  "\<exists>s. pmm_reach s \<and> pmm_inv s \<and> unat (total_frames s) = 16"
proof -
  have ram: "(0x10000 :: u64) < 0x80000000000" by simp
  have "arrays_in_ram 0x40001000 0x10000" by (simp add: arrays_in_ram_def PHY_RAM_BASE_def)
  from pmm_init_ok [OF ram this, of "\<lambda>_. 7" "\<lambda>_. 9"] obtain s where
    s: "pmm_init (\<lambda>_. 7) (\<lambda>_. 9) 0x40001000 0x10000 pmm_static = Some s" "pmm_inv s"
      "phy_ram_size s = 0x10000" by blast
  then have "pmm_reach s" by (intro reach_init [OF ram])
  moreover have "unat (total_frames s) = 16"
    using unat_total_frames(1) [OF pmm_invD(1) [OF s(2)]] s(3) by simp
  ultimately show ?thesis using pmm_reachable_exact by blast
qed

text \<open>
  The release of a frame that is already free is not refused: while any frame is in use, the frame
  is pushed a second time, so the stack holds it twice and the invariant is lost (the check in front
  of that push compares the stack with its capacity only).
\<close>

theorem pmm_double_free_duplicates:
  assumes inv: "pmm_inv s" and i: "i \<in> set (free_frames s)" and used: "stack_top s < total_frames s"
  shows "\<exists>s'. pmm_free_frame (index_to_phys i) s = Some s' \<and>
           free_frames s' = free_frames s @ [i] \<and> \<not> pmm_inv s'"
proof -
  have lt: "i < total_frames s" "ref_of s i = 0" using pmm_invD(5,6) [OF inv i] by simp_all
  from inv obtain fs rc where *: "frame_stack s = Some fs" "ref_counts s = Some rc"
    "length fs = unat (total_frames s)" "free_frames s = take (unat (stack_top s)) fs"
    by (rule pmm_invE) blast
  have top: "unat (stack_top s) < length fs" using used * by (simp add: word_less_nat_alt)
  have ut: "unat (stack_top s + 1) = unat (stack_top s) + 1"
    using top * unat_u32_lt [of "total_frames s"] by (intro unat_inc) simp
  let ?s = "s\<lparr>frame_stack := Some (fs[unat (stack_top s) := i]), stack_top := stack_top s + 1,
              used_frames := used_frames s - 1\<rparr>"
  have "pmm_free_frame (index_to_phys i) s = pmm_push_frame i s"
    using lt used pmm_invD(2) [OF inv]
    by (auto simp: pmm_free_frame_unfold [OF inv lt(1)
        phys_to_index_of_index [OF pmm_invD(1) [OF inv] lt(1)] *(2)])
  also have "\<dots> = Some ?s" using * top by (simp add: pmm_push_frame_def array_facts)
  finally have "pmm_free_frame (index_to_phys i) s = Some ?s" .
  moreover have ff: "free_frames ?s = free_frames s @ [i]"
    using * top ut by (simp add: free_frames_def take_Suc_push)
  moreover have "\<not> pmm_inv ?s" using pmm_invD(4) [of ?s] i by (auto simp: ff)
  ultimately show ?thesis by blast
qed

theorem pmm_double_free_duplicates_witness:
  "2 \<in> set (free_frames demo_pmm) \<and> (\<exists>s'. pmm_free_frame (index_to_phys 2) demo_pmm = Some s' \<and>
     free_frames s' = [3, 2, 2])"
proof -
  have h: "2 \<in> set (free_frames demo_pmm)" "stack_top demo_pmm < total_frames demo_pmm"
    by (simp_all add: demo_pmm_free) (simp add: demo_pmm_def)
  then show ?thesis
    using pmm_double_free_duplicates [OF demo_pmm_inv h] by (auto simp: demo_pmm_free)
qed

end
