(* ===== verification/Memory.thy ===== *)
theory Memory
  imports Prelude
begin

text \<open>
  The byte-addressed memory of the machine and the accesses the C code makes to it: little-endian
  loads and stores of 16, 32 and 64 bits and of byte blocks. Addresses are 64-bit and wrap around.
\<close>

type_synonym mem = "u64 \<Rightarrow> u8"

section \<open>Blocks of bytes\<close>

text \<open>The address \<open>x\<close> lies in the block of \<open>n\<close> bytes at \<open>a\<close>.\<close>

definition in_block :: "u64 \<Rightarrow> nat \<Rightarrow> u64 \<Rightarrow> bool" where
  "in_block a n x \<longleftrightarrow> unat (x - a) < n"

definition ld_bytes :: "mem \<Rightarrow> u64 \<Rightarrow> nat \<Rightarrow> u8 list" where
  "ld_bytes m a n = map (\<lambda>k. m (a + of_nat k)) [0..<n]"

definition st_bytes :: "mem \<Rightarrow> u64 \<Rightarrow> u8 list \<Rightarrow> mem" where
  "st_bytes m a bs = (\<lambda>x. if in_block a (length bs) x then bs ! unat (x - a) else m x)"

lemma length_ld_bytes [simp]: "length (ld_bytes m a n) = n"
  by (simp add: ld_bytes_def)

lemma nth_ld_bytes [simp]: "k < n \<Longrightarrow> ld_bytes m a n ! k = m (a + of_nat k)"
  by (simp add: ld_bytes_def)

lemma in_block_offset:
  "k < n \<Longrightarrow> n \<le> 2 ^ 64 \<Longrightarrow> in_block a n (a + of_nat k)"
  by (simp add: in_block_def unat_of_nat)

lemma in_blockE:
  assumes "in_block a n x"
  obtains k where "k < n" "x = a + of_nat k" "unat (x - a) = k"
  using assms by (auto simp: in_block_def intro: that [of "unat (x - a)"])

lemma st_bytes_in: "in_block a (length bs) x \<Longrightarrow> st_bytes m a bs x = bs ! unat (x - a)"
  by (simp add: st_bytes_def)

lemma st_bytes_out: "\<not> in_block a (length bs) x \<Longrightarrow> st_bytes m a bs x = m x"
  by (simp add: st_bytes_def)

text \<open>A block store is read back, and leaves every block that does not meet it alone.\<close>

lemma ld_st_bytes:
  "length bs \<le> 2 ^ 64 \<Longrightarrow> ld_bytes (st_bytes m a bs) a (length bs) = bs"
  by (rule nth_equalityI) (auto simp: st_bytes_def in_block_offset in_block_def unat_of_nat)

definition disjoint_blocks :: "u64 \<Rightarrow> nat \<Rightarrow> u64 \<Rightarrow> nat \<Rightarrow> bool" where
  "disjoint_blocks a n b k \<longleftrightarrow> (\<forall>x. \<not> (in_block a n x \<and> in_block b k x))"

lemma disjoint_blocks_sym: "disjoint_blocks a n b k \<longleftrightarrow> disjoint_blocks b k a n"
  by (auto simp: disjoint_blocks_def)

lemma ld_st_bytes_disjoint:
  assumes "disjoint_blocks a (length bs) b n" "n \<le> 2 ^ 64"
  shows "ld_bytes (st_bytes m a bs) b n = ld_bytes m b n"
proof (rule nth_equalityI)
  fix k assume "k < length (ld_bytes (st_bytes m a bs) b n)"
  then have k: "k < n" by simp
  then have "\<not> in_block a (length bs) (b + of_nat k)"
    using assms in_block_offset [of k n b] by (auto simp: disjoint_blocks_def)
  then show "ld_bytes (st_bytes m a bs) b n ! k = ld_bytes m b n ! k"
    using k by (simp add: st_bytes_out)
qed simp

text \<open>Blocks that do not wrap around are intervals of numbers.\<close>

lemma in_block_no_wrap:
  assumes "unat a + n \<le> 2 ^ 64"
  shows "in_block a n x \<longleftrightarrow> unat a \<le> unat x \<and> unat x < unat a + n"
proof
  assume "in_block a n x"
  then obtain k where k: "k < n" "x = a + of_nat k" by (rule in_blockE)
  then have "unat x = unat a + k"
    using assms by (simp add: unat_word_ariths unat_of_nat)
  then show "unat a \<le> unat x \<and> unat x < unat a + n" using k by simp
next
  assume "unat a \<le> unat x \<and> unat x < unat a + n"
  then have "unat (x - a) = unat x - unat a" "unat x < unat a + n" "unat a \<le> unat x"
    by (simp_all add: unat_sub_no_wrap word_le_nat_alt)
  then show "in_block a n x" by (simp add: in_block_def)
qed

lemma disjoint_no_wrap:
  assumes "unat a + n \<le> 2 ^ 64" "unat b + k \<le> 2 ^ 64"
    and "unat a + n \<le> unat b \<or> unat b + k \<le> unat a"
  shows "disjoint_blocks a n b k"
  using assms by (auto simp: disjoint_blocks_def in_block_no_wrap)

section \<open>Little-endian words\<close>

primrec le_word :: "u8 list \<Rightarrow> 'a::len word" where
  "le_word [] = 0"
| "le_word (b # bs) = ucast b OR push_bit 8 (le_word bs)"

text \<open>The bytes of a word, the least significant first.\<close>

primrec to_le :: "nat \<Rightarrow> 'a::len word \<Rightarrow> u8 list" where
  "to_le 0 w = []"
| "to_le (Suc n) w = ucast w # to_le n (drop_bit 8 w)"

lemma length_to_le [simp]: "length (to_le n w) = n"
  by (induction n arbitrary: w) simp_all

lemma le_word_to_le: "le_word (to_le n w) = (take_bit (8 * n) w :: 'a::len word)"
proof (induction n arbitrary: w)
  case (Suc n)
  have "ucast (ucast w :: u8) OR push_bit 8 (take_bit (8 * n) (drop_bit 8 w)) =
      (take_bit (8 * Suc n) w :: 'a word)"
    by (rule bit_word_eqI) (auto simp: bit_simps)
  then show ?case using Suc.IH by simp
qed simp

lemma le_word_to_le_full: "LENGTH('a) \<le> 8 * n \<Longrightarrow> le_word (to_le n (w :: 'a::len word)) = w"
  by (simp add: le_word_to_le take_bit_word_eq_self)

definition ld16 :: "mem \<Rightarrow> u64 \<Rightarrow> u16" where "ld16 m a = le_word (ld_bytes m a 2)"
definition ld32 :: "mem \<Rightarrow> u64 \<Rightarrow> u32" where "ld32 m a = le_word (ld_bytes m a 4)"
definition ld64 :: "mem \<Rightarrow> u64 \<Rightarrow> u64" where "ld64 m a = le_word (ld_bytes m a 8)"
definition st16 :: "mem \<Rightarrow> u64 \<Rightarrow> u16 \<Rightarrow> mem" where "st16 m a v = st_bytes m a (to_le 2 v)"
definition st32 :: "mem \<Rightarrow> u64 \<Rightarrow> u32 \<Rightarrow> mem" where "st32 m a v = st_bytes m a (to_le 4 v)"
definition st64 :: "mem \<Rightarrow> u64 \<Rightarrow> u64 \<Rightarrow> mem" where "st64 m a v = st_bytes m a (to_le 8 v)"

lemma ld16_st16_same: "ld16 (st16 m a v) a = v"
  using ld_st_bytes [of "to_le 2 v" m a] by (simp add: ld16_def st16_def le_word_to_le_full)

lemma ld32_st32_same: "ld32 (st32 m a v) a = v"
  using ld_st_bytes [of "to_le 4 v" m a] by (simp add: ld32_def st32_def le_word_to_le_full)

lemma ld64_st64_same: "ld64 (st64 m a v) a = v"
  using ld_st_bytes [of "to_le 8 v" m a] by (simp add: ld64_def st64_def le_word_to_le_full)

text \<open>Words that do not overlap do not see each other.\<close>

lemma ld_st_disjoint:
  "disjoint_blocks a 8 b 8 \<Longrightarrow> ld64 (st64 m a v) b = ld64 m b"
  "disjoint_blocks a 4 b 8 \<Longrightarrow> ld64 (st32 m a w) b = ld64 m b"
  "disjoint_blocks a 8 b 4 \<Longrightarrow> ld32 (st64 m a v) b = ld32 m b"
  "disjoint_blocks a 4 b 4 \<Longrightarrow> ld32 (st32 m a w) b = ld32 m b"
  using ld_st_bytes_disjoint [of a "to_le 8 v" b 8 m] ld_st_bytes_disjoint [of a "to_le 4 w" b 8 m]
    ld_st_bytes_disjoint [of a "to_le 8 v" b 4 m] ld_st_bytes_disjoint [of a "to_le 4 w" b 4 m]
  by (simp_all add: ld64_def st64_def ld32_def st32_def)

section \<open>A store of aligned words\<close>

text \<open>
  The interface that page tables use: a memory of cells, each cell at a valid address, where a write
  is seen by reads of the same cell and by no other.
\<close>

locale cell_store =
  fixes valid :: "'a \<Rightarrow> bool"
    and rd :: "'m \<Rightarrow> 'a \<Rightarrow> 'v"
    and wr :: "'m \<Rightarrow> 'a \<Rightarrow> 'v \<Rightarrow> 'm"
  assumes rd_wr_same: "rd (wr m a v) a = v"
    and rd_wr_other: "valid a \<Longrightarrow> valid b \<Longrightarrow> a \<noteq> b \<Longrightarrow> rd (wr m a v) b = rd m b"
begin

lemma rd_wr: "valid a \<Longrightarrow> valid b \<Longrightarrow> rd (wr m a v) b = (if b = a then v else rd m b)"
  using rd_wr_same rd_wr_other by auto

lemma rd_wr_eqI:
  "valid a \<Longrightarrow> valid b \<Longrightarrow> (a = b \<Longrightarrow> v = rd m b) \<Longrightarrow> rd (wr m a v) b = rd m b"
  by (auto simp: rd_wr)

end

definition aligned8 :: "u64 \<Rightarrow> bool" where
  "aligned8 a \<longleftrightarrow> 8 dvd unat a"

lemma aligned8_no_wrap: "aligned8 a \<Longrightarrow> unat a + 8 \<le> 2 ^ 64"
proof -
  assume "aligned8 a"
  then obtain q where "unat a = 8 * q" by (auto simp: aligned8_def)
  moreover have "unat a < 2 ^ 64" using unat_u64_lt [of a] by simp
  ultimately show ?thesis by simp
qed

lemma aligned8_disjoint:
  assumes "aligned8 a" "aligned8 b" "a \<noteq> b"
  shows "disjoint_blocks a 8 b 8"
proof (rule disjoint_no_wrap)
  show "unat a + 8 \<le> 2 ^ 64" "unat b + 8 \<le> 2 ^ 64" using assms by (simp_all only: aligned8_no_wrap)
  have "unat a \<noteq> unat b" using assms(3) by (simp add: word_unat_eq_iff)
  then show "unat a + 8 \<le> unat b \<or> unat b + 8 \<le> unat a"
    using assms(1,2) unfolding aligned8_def by presburger
qed

interpretation words64: cell_store aligned8 ld64 st64
proof unfold_locales
  show "ld64 (st64 m a v) a = v" for m a v by (rule ld64_st64_same)
  show "ld64 (st64 m a v) b = ld64 m b" if "aligned8 a" "aligned8 b" "a \<noteq> b" for m a v b
    using ld_st_bytes_disjoint [of a "to_le 8 v" b 8 m] aligned8_disjoint [OF that]
    by (simp add: ld64_def st64_def)
qed

end
