(* ===== verification/Cmem.thy ===== *)
theory Cmem
  imports Memory
begin

text \<open>
  The block operations of \<open>src/src/string.c\<close>: \<open>memset\<close>, \<open>memcpy\<close>, \<open>memmove\<close>, \<open>memcmp\<close>, \<open>memchr\<close> and
  \<open>memccpy\<close>, over the byte memory. The vector loads and stores of sixteen bytes are block accesses.
  Lengths are read as numbers once, as the loops only ever subtract what they have compared with.
  The value of an \<open>int\<close> argument is a 32-bit word; a result pointer is an address, 0 for null.
\<close>

section \<open>The operations\<close>

fun memset_vec :: "u8 \<Rightarrow> mem \<Rightarrow> u64 \<Rightarrow> nat \<Rightarrow> mem \<times> u64 \<times> nat" where
  "memset_vec v m a n =
     (if 16 \<le> n then memset_vec v (st_bytes m a (replicate 16 v)) (a + 16) (n - 16) else (m, a, n))"

primrec memset_tail :: "u8 \<Rightarrow> nat \<Rightarrow> mem \<Rightarrow> u64 \<Rightarrow> mem" where
  "memset_tail v 0 m a = m"
| "memset_tail v (Suc n) m a = memset_tail v n (m(a := v)) (a + 1)"

definition memset :: "u64 \<Rightarrow> u32 \<Rightarrow> u64 \<Rightarrow> mem \<Rightarrow> mem" where
  "memset s c n m =
     (let v = ucast c; (m', a, k) = memset_vec v m s (unat n) in memset_tail v k m' a)"

fun memcpy_vec :: "mem \<Rightarrow> u64 \<Rightarrow> u64 \<Rightarrow> nat \<Rightarrow> mem \<times> u64 \<times> u64 \<times> nat" where
  "memcpy_vec m d s n =
     (if 16 \<le> n then
        let chunk = ld_bytes m s 16 in memcpy_vec (st_bytes m d chunk) (d + 16) (s + 16) (n - 16)
      else (m, d, s, n))"

text \<open>\<open>while (n--) *d++ = *s++;\<close>, in \<open>memcpy\<close> and in the first branch of \<open>memmove\<close>.\<close>

primrec copy_up :: "nat \<Rightarrow> mem \<Rightarrow> u64 \<Rightarrow> u64 \<Rightarrow> mem" where
  "copy_up 0 m d s = m"
| "copy_up (Suc n) m d s = copy_up n (m(d := m s)) (d + 1) (s + 1)"

text \<open>\<open>while (n--) *(--d) = *(--s);\<close>\<close>

primrec copy_down :: "nat \<Rightarrow> mem \<Rightarrow> u64 \<Rightarrow> u64 \<Rightarrow> mem" where
  "copy_down 0 m d s = m"
| "copy_down (Suc n) m d s = copy_down n (m(d - 1 := m (s - 1))) (d - 1) (s - 1)"

definition memcpy :: "u64 \<Rightarrow> u64 \<Rightarrow> u64 \<Rightarrow> mem \<Rightarrow> mem" where
  "memcpy s1 s2 n m = (let (m', d, s, k) = memcpy_vec m s1 s2 (unat n) in copy_up k m' d s)"

definition memmove :: "u64 \<Rightarrow> u64 \<Rightarrow> u64 \<Rightarrow> mem \<Rightarrow> mem" where
  "memmove s1 s2 n m =
     (if s1 < s2 then copy_up (unat n) m s1 s2 else copy_down (unat n) m (s1 + n) (s2 + n))"

primrec memcmp_loop :: "nat \<Rightarrow> mem \<Rightarrow> u64 \<Rightarrow> u64 \<Rightarrow> int" where
  "memcmp_loop 0 m a1 a2 = 0"
| "memcmp_loop (Suc n) m a1 a2 =
     (if m a1 \<noteq> m a2 then uint (m a1) - uint (m a2) else memcmp_loop n m (a1 + 1) (a2 + 1))"

definition memcmp :: "u64 \<Rightarrow> u64 \<Rightarrow> u64 \<Rightarrow> mem \<Rightarrow> int" where
  "memcmp s1 s2 n m = memcmp_loop (unat n) m s1 s2"

primrec memchr_loop :: "nat \<Rightarrow> mem \<Rightarrow> u64 \<Rightarrow> u8 \<Rightarrow> u64" where
  "memchr_loop 0 m a c = 0"
| "memchr_loop (Suc n) m a c = (if m a = c then a else memchr_loop n m (a + 1) c)"

definition memchr :: "u64 \<Rightarrow> u32 \<Rightarrow> u64 \<Rightarrow> mem \<Rightarrow> u64" where
  "memchr s c n m = memchr_loop (unat n) m s (ucast c)"

primrec memccpy_loop :: "nat \<Rightarrow> mem \<Rightarrow> u64 \<Rightarrow> u64 \<Rightarrow> u8 \<Rightarrow> u64 \<times> mem" where
  "memccpy_loop 0 m d s uc = (0, m)"
| "memccpy_loop (Suc n) m d s uc =
     (let m' = m(d := m s) in
      if m' d = uc then (d + 1, m') else memccpy_loop n m' (d + 1) (s + 1) uc)"

definition memccpy :: "u64 \<Rightarrow> u64 \<Rightarrow> u32 \<Rightarrow> u64 \<Rightarrow> mem \<Rightarrow> u64 \<times> mem" where
  "memccpy s1 s2 c n m = memccpy_loop (unat n) m s1 s2 (ucast c)"

declare memset_vec.simps [simp del] memcpy_vec.simps [simp del]

section \<open>Splitting blocks\<close>

lemma in_block_0 [simp]: "\<not> in_block a 0 x"
  by (simp add: in_block_def)

lemma in_block_1 [simp]: "in_block a (Suc 0) x \<longleftrightarrow> x = a"
  by (simp add: in_block_def unat_eq_zero)

lemma in_block_add:
  assumes "j + n \<le> 2 ^ 64"
  shows "in_block a (j + n) x \<longleftrightarrow> in_block a j x \<or> in_block (a + of_nat j) n x"
proof (cases "n = 0")
  case False
  then have j: "j < 2 ^ 64" using assms by simp
  then have uj: "unat (of_nat j :: u64) = j" by (simp add: unat_of_nat)
  have eq: "x - (a + of_nat j) = (x - a) - of_nat j" by simp
  show ?thesis
  proof (cases "unat (x - a) < j")
    case True
    then show ?thesis by (simp add: in_block_def)
  next
    case False
    then have "unat ((x - a) - of_nat j) = unat (x - a) - j"
      using uj by (subst unat_sub_no_wrap) (simp_all add: word_le_nat_alt)
    then show ?thesis using False by (auto simp: in_block_def eq)
  qed
qed simp

lemma in_block_Suc:
  "n < 2 ^ 64 \<Longrightarrow> in_block a (Suc n) x \<longleftrightarrow> x = a \<or> in_block (a + 1) n x"
  using in_block_add [of 1 n a x] by simp

lemma not_in_block_next:
  assumes "n < 2 ^ 64"
  shows "\<not> in_block (a + 1) n a"
proof -
  have "unat (a - (a + 1)) = 2 ^ 64 - 1"
    by (simp add: unsigned_minus_1_eq_mask mask_eq_exp_minus_1)
  then show ?thesis using assms unfolding in_block_def by linarith
qed

section \<open>Filling\<close>

definition filled :: "mem \<Rightarrow> u64 \<Rightarrow> u8 \<Rightarrow> nat \<Rightarrow> mem" where
  "filled m a v n = (\<lambda>x. if in_block a n x then v else m x)"

lemma filled_0 [simp]: "filled m a v 0 = m"
  by (simp add: filled_def fun_eq_iff)

lemma filled_add:
  "j + n \<le> 2 ^ 64 \<Longrightarrow> filled (filled m a v j) (a + of_nat j) v n = filled m a v (j + n)"
  by (auto simp: filled_def fun_eq_iff in_block_add)

lemma memset_tail_filled: "n \<le> 2 ^ 64 \<Longrightarrow> memset_tail v n m a = filled m a v n"
proof (induction n arbitrary: m a)
  case (Suc n)
  have "m(a := v) = filled m a v 1" by (auto simp: filled_def fun_eq_iff)
  then show ?case using Suc filled_add [of 1 n m a v] by simp
qed simp

lemma st_bytes_replicate: "st_bytes m a (replicate n v) = filled m a v n"
  by (auto simp: st_bytes_def filled_def fun_eq_iff in_block_def)

lemma memset_vec_filled:
  assumes "memset_vec v m a n = (m', a', k)" "n \<le> 2 ^ 64"
  shows "filled m' a' v k = filled m a v n \<and> k \<le> 2 ^ 64"
  using assms
proof (induction v m a n rule: memset_vec.induct)
  case (1 v m a n)
  show ?case
  proof (cases "16 \<le> n")
    case True
    with "1.prems" have "memset_vec v (st_bytes m a (replicate 16 v)) (a + 16) (n - 16) = (m', a', k)"
      by (simp add: memset_vec.simps [of v m a n])
    with "1.IH" True "1.prems"(2) have
      "filled m' a' v k = filled (st_bytes m a (replicate 16 v)) (a + 16) v (n - 16) \<and> k \<le> 2 ^ 64"
      by simp
    then show ?thesis
      using filled_add [of 16 "n - 16" m a v] True "1.prems"(2) by (simp add: st_bytes_replicate)
  next
    case False
    with "1.prems" show ?thesis by (simp add: memset_vec.simps [of v m a n])
  qed
qed

lemma memset_filled: "memset s c n m = filled m s (ucast c) (unat n)"
proof -
  obtain m' a k where v: "memset_vec (ucast c) m s (unat n) = (m', a, k)" by (metis prod_cases3)
  have "unat n \<le> 2 ^ 64" using unat_u64_lt [of n] by simp
  from memset_vec_filled [OF v this] show ?thesis by (simp add: memset_def v memset_tail_filled)
qed

section \<open>Copying\<close>

text \<open>The \<open>n\<close> bytes at \<open>s\<close> as they are in \<open>m\<close>, placed at \<open>d\<close>.\<close>

definition copied :: "mem \<Rightarrow> u64 \<Rightarrow> u64 \<Rightarrow> nat \<Rightarrow> mem" where
  "copied m d s n = (\<lambda>x. if in_block d n x then m (s + (x - d)) else m x)"

lemma copied_0 [simp]: "copied m d s 0 = m"
  by (simp add: copied_def fun_eq_iff)

lemma copied_eq_st_bytes: "n \<le> 2 ^ 64 \<Longrightarrow> copied m d s n = st_bytes m d (ld_bytes m s n)"
  by (auto simp: copied_def st_bytes_def fun_eq_iff in_block_def)

text \<open>Copying in two steps agrees with copying at once where the second source is not overwritten.\<close>

lemma copied_add:
  assumes "j + n \<le> 2 ^ 64" "disjoint_blocks d j (s + of_nat j) n"
  shows "copied (copied m d s j) (d + of_nat j) (s + of_nat j) n = copied m d s (j + n)"
proof (rule ext)
  fix x
  let ?y = "s + of_nat j + (x - (d + of_nat j))"
  have y: "?y = s + (x - d)" by simp
  show "copied (copied m d s j) (d + of_nat j) (s + of_nat j) n x = copied m d s (j + n) x"
  proof (cases "in_block (d + of_nat j) n x")
    case True
    then have "in_block (s + of_nat j) n ?y" unfolding in_block_def by (simp only: add_diff_cancel_left')
    then have "\<not> in_block d j ?y" using assms(2) by (auto simp: disjoint_blocks_def)
    then show ?thesis using True assms(1) y by (simp add: copied_def in_block_add)
  next
    case False
    then show ?thesis using assms(1) by (simp add: copied_def in_block_add)
  qed
qed

lemma copied_one: "m(d := m s) = copied m d s 1"
  by (auto simp: copied_def fun_eq_iff)

lemma disjoint_blocks_sub:
  assumes "disjoint_blocks d (j + n) s (j + n)" "j + n \<le> 2 ^ 64"
  shows "disjoint_blocks d j (s + of_nat j) n" "disjoint_blocks (d + of_nat j) n (s + of_nat j) n"
  using assms by (auto simp: disjoint_blocks_def in_block_add)

lemma copy_up_copied:
  "n \<le> 2 ^ 64 \<Longrightarrow> disjoint_blocks d n s n \<Longrightarrow> copy_up n m d s = copied m d s n"
proof (induction n arbitrary: m d s)
  case (Suc n)
  have sub: "disjoint_blocks d 1 (s + of_nat 1) n" "disjoint_blocks (d + of_nat 1) n (s + of_nat 1) n"
    using disjoint_blocks_sub [of d 1 n s] Suc.prems by simp_all
  have "copy_up n (m(d := m s)) (d + 1) (s + 1) = copied (m(d := m s)) (d + 1) (s + 1) n"
    using Suc.IH [of "d + 1" "s + 1"] Suc.prems sub(2) by simp
  then show ?case
    using copied_add [of 1 n d s m] sub(1) Suc.prems by (simp add: copied_one)
qed simp

lemma memcpy_vec_copied:
  assumes "memcpy_vec m d s n = (m', d', s', k)" "n \<le> 2 ^ 64" "disjoint_blocks d n s n"
  shows "copied m' d' s' k = copied m d s n \<and> k \<le> 2 ^ 64 \<and> disjoint_blocks d' k s' k"
  using assms
proof (induction m d s n rule: memcpy_vec.induct)
  case (1 m d s n)
  show ?case
  proof (cases "16 \<le> n")
    case True
    let ?m = "st_bytes m d (ld_bytes m s 16)"
    have n: "16 + (n - 16) = n" using True by simp
    have sub: "disjoint_blocks d 16 (s + of_nat 16) (n - 16)"
      "disjoint_blocks (d + of_nat 16) (n - 16) (s + of_nat 16) (n - 16)"
      using disjoint_blocks_sub [of d 16 "n - 16" s] "1.prems"(2,3) n by simp_all
    have "memcpy_vec ?m (d + 16) (s + 16) (n - 16) = (m', d', s', k)"
      using "1.prems"(1) True by (simp add: memcpy_vec.simps [of m d s n] Let_def)
    then have "copied m' d' s' k = copied ?m (d + 16) (s + 16) (n - 16) \<and> k \<le> 2 ^ 64 \<and>
        disjoint_blocks d' k s' k"
      using "1.IH" [OF True refl] "1.prems"(2) sub(2) by simp
    then show ?thesis
      using copied_add [of 16 "n - 16" d s m] sub(1) n "1.prems"(2)
      by (simp add: copied_eq_st_bytes [of 16 m d s, symmetric])
  next
    case False
    with "1.prems" show ?thesis by (simp add: memcpy_vec.simps [of m d s n])
  qed
qed

lemma memcpy_copied:
  assumes "disjoint_blocks d (unat n) s (unat n)"
  shows "memcpy d s n m = copied m d s (unat n)"
proof -
  obtain m' d' s' k where v: "memcpy_vec m d s (unat n) = (m', d', s', k)" by (metis prod_cases4)
  have "unat n \<le> 2 ^ 64" using unat_u64_lt [of n] by simp
  from memcpy_vec_copied [OF v this assms] show ?thesis by (simp add: memcpy_def v copy_up_copied)
qed

text \<open>Copying upwards is right for any overlap where the target does not lie above the source.\<close>

lemma copy_up_overlap:
  "unat d \<le> unat s \<Longrightarrow> unat s + n \<le> 2 ^ 64 \<Longrightarrow> copy_up n m d s = copied m d s n"
proof (induction n arbitrary: m d s)
  case (Suc n)
  show ?case
  proof (cases "n = 0")
    case True
    then show ?thesis by (simp add: copied_one)
  next
    case False
    then have u: "unat (s + 1) = unat s + 1" "unat (d + 1) = unat d + 1"
      using Suc.prems False unat_inc [of s] unat_inc [of d] by simp_all
    have "disjoint_blocks d 1 (s + 1) n"
      using Suc.prems u by (intro disjoint_no_wrap) auto
    moreover have "copy_up n (m(d := m s)) (d + 1) (s + 1) = copied (m(d := m s)) (d + 1) (s + 1) n"
      using Suc.prems u by (intro Suc.IH) simp_all
    ultimately show ?thesis
      using copied_add [of 1 n d s m] Suc.prems by (simp add: copied_one)
  qed
qed simp

text \<open>Copying downwards is right where the target does not lie below the source.\<close>

lemma copy_down_overlap:
  "unat s \<le> unat d \<Longrightarrow> unat d + n \<le> 2 ^ 64 \<Longrightarrow>
   copy_down n m (d + of_nat n) (s + of_nat n) = copied m d s n"
proof (induction n arbitrary: m)
  case (Suc n)
  let ?dn = "d + of_nat n" and ?sn = "s + of_nat n"
  have udn: "unat ?dn = unat d + n" using Suc.prems by (simp add: unat_word_ariths unat_of_nat)
  have src: "s + (x - d) \<noteq> ?dn" if "in_block d n x" for x
  proof
    assume eq: "s + (x - d) = ?dn"
    have "unat (s + (x - d)) = unat s + unat (x - d)"
      using that Suc.prems by (intro unat_add_no_wrap) (simp add: in_block_def)
    moreover have "unat (s + (x - d)) = unat ?dn" using eq by (rule arg_cong)
    ultimately show False using udn that Suc.prems(1) unfolding in_block_def by linarith
  qed
  have blk: "in_block d (Suc n) x \<longleftrightarrow> in_block d n x \<or> x = ?dn" for x
    using in_block_add [of n 1 d x] Suc.prems by simp
  have "copied (m(?dn := m ?sn)) d s n = copied m d s (Suc n)"
    using src by (auto simp: copied_def fun_eq_iff blk)
  moreover have "copy_down n (m(?dn := m ?sn)) ?dn ?sn = copied (m(?dn := m ?sn)) d s n"
    using Suc.prems by (intro Suc.IH) simp_all
  ultimately show ?case by (simp add: algebra_simps)
qed simp

section \<open>Comparing and searching\<close>

lemma ld_bytes_0 [simp]: "ld_bytes m a 0 = []"
  by (simp add: ld_bytes_def)

lemma ld_bytes_Suc: "ld_bytes m a (Suc n) = m a # ld_bytes m (a + 1) n"
  unfolding ld_bytes_def upt_conv_Cons [OF zero_less_Suc] map_Suc_upt [symmetric]
  by (simp add: add.assoc)

text \<open>The reference: the difference at the first position where two byte strings differ.\<close>

fun first_diff :: "u8 list \<Rightarrow> u8 list \<Rightarrow> int" where
  "first_diff (x # xs) (y # ys) = (if x = y then first_diff xs ys else uint x - uint y)"
| "first_diff _ _ = 0"

lemma memcmp_loop_first_diff:
  "memcmp_loop n m a b = first_diff (ld_bytes m a n) (ld_bytes m b n)"
  by (induction n arbitrary: a b) (simp_all add: ld_bytes_Suc)

lemma first_diff_zero: "length xs = length ys \<Longrightarrow> first_diff xs ys = 0 \<longleftrightarrow> xs = ys"
  by (induction xs ys rule: first_diff.induct) (auto simp: word_uint_eq_iff)

lemma first_diff_neg:
  "length xs = length ys \<Longrightarrow> first_diff xs ys < 0 \<longleftrightarrow> (xs, ys) \<in> lexord {(x, y). x < y}"
  by (induction xs ys rule: first_diff.induct) (auto simp: word_less_def)

lemma find_map: "List.find P (map f xs) = map_option f (List.find (\<lambda>x. P (f x)) xs)"
  by (induction xs) auto

lemma memchr_loop_find:
  "n \<le> 2 ^ 64 \<Longrightarrow> memchr_loop n m a c =
     (case List.find (\<lambda>k. m (a + of_nat k) = c) [0..<n] of None \<Rightarrow> 0 | Some k \<Rightarrow> a + of_nat k)"
proof (induction n arbitrary: a)
  case (Suc n)
  have "List.find (\<lambda>k. m (a + of_nat k) = c) [0..<Suc n] =
      (if m a = c then Some 0
       else map_option Suc (List.find (\<lambda>k. m (a + 1 + of_nat k) = c) [0..<n]))"
    unfolding upt_conv_Cons [OF zero_less_Suc] map_Suc_upt [symmetric]
    by (simp add: find_map add.assoc)
  then show ?case using Suc by (auto split: option.split simp: add.assoc)
qed simp

section \<open>Properties\<close>

lemma ld_bytes_copied: "n \<le> 2 ^ 64 \<Longrightarrow> ld_bytes (copied m d s n) d n = ld_bytes m s n"
  using ld_st_bytes [of "ld_bytes m s n" m d] by (simp add: copied_eq_st_bytes)

lemma copied_out: "\<not> in_block d n x \<Longrightarrow> copied m d s n x = m x"
  by (simp add: copied_def)

text \<open>
  \<open>memset\<close>, with its sixteen-byte stores and its byte loop, sets exactly the bytes of the block to
  the low byte of its argument, whatever the length and the alignment.
\<close>

theorem memset_correct:
  "memset s c n m x = (if in_block s (unat n) x then ucast c else m x)"
  by (simp add: memset_filled filled_def)

text \<open>
  \<open>memcpy\<close> on blocks that do not overlap leaves at the target the bytes of the source and changes
  no other byte: the loop over sixteen-byte chunks and the byte loop together cover the block.
\<close>

theorem memcpy_correct:
  assumes "disjoint_blocks d (unat n) s (unat n)"
  shows "ld_bytes (memcpy d s n m) d (unat n) = ld_bytes m s (unat n) \<and>
         (\<forall>x. in_block d (unat n) x \<or> memcpy d s n m x = m x)"
proof -
  have "unat n \<le> 2 ^ 64" using unat_u64_lt [of n] by simp
  then show ?thesis unfolding memcpy_copied [OF assms] using ld_bytes_copied copied_out by blast
qed

theorem memcpy_correct_witness:
  "disjoint_blocks 100 20 200 20 \<and>
   ld_bytes (memcpy 100 200 20 (\<lambda>x. ucast x)) 100 20 = ld_bytes (\<lambda>x. ucast x) 200 20"
proof -
  have "disjoint_blocks 100 20 200 20" by (rule disjoint_no_wrap) simp_all
  then show ?thesis using memcpy_correct [of 100 20 200 "\<lambda>x. ucast x"] by simp
qed

text \<open>
  C29. \<open>memmove\<close> is right for every overlap of source and target: as long as neither block wraps around
  the address space, the target holds afterwards what the source held before, and no byte outside
  the target changes.
\<close>

theorem memmove_correct:
  assumes "unat d + unat n \<le> 2 ^ 64" and "unat s + unat n \<le> 2 ^ 64"
  shows "ld_bytes (memmove d s n m) d (unat n) = ld_bytes m s (unat n) \<and>
         (\<forall>x. in_block d (unat n) x \<or> memmove d s n m x = m x)"
proof -
  have "memmove d s n m = copied m d s (unat n)"
  proof (cases "d < s")
    case True
    then show ?thesis
      using copy_up_overlap [of d s "unat n" m] assms by (simp add: memmove_def word_less_nat_alt)
  next
    case False
    then show ?thesis
      using copy_down_overlap [of s d "unat n" m] assms
      by (simp add: memmove_def word_less_nat_alt)
  qed
  moreover have "unat n \<le> 2 ^ 64" using unat_u64_lt [of n] by simp
  ultimately show ?thesis using ld_bytes_copied copied_out by metis
qed

theorem memmove_correct_witness:
  "ld_bytes (memmove 101 100 4 (\<lambda>x. ucast x)) 101 4 = [100, 101, 102, 103] \<and>
   ld_bytes (memmove 100 101 4 (\<lambda>x. ucast x)) 100 4 = [101, 102, 103, 104]"
proof -
  have up: "ld_bytes (\<lambda>x. ucast x) 100 4 = [100, 101, 102, 103 :: u8]"
    and down: "ld_bytes (\<lambda>x. ucast x) 101 4 = [101, 102, 103, 104 :: u8]"
    by (simp_all add: ld_bytes_def upt_rec)
  show ?thesis
    using memmove_correct [of 101 4 100 "\<lambda>x. ucast x"] memmove_correct [of 100 4 101 "\<lambda>x. ucast x"]
    by (simp add: up down)
qed

text \<open>
  \<open>memcmp\<close> returns zero exactly for equal blocks and a negative number exactly when the first
  block precedes the second in the lexicographic order of unsigned bytes.
\<close>

theorem memcmp_correct:
  "(memcmp a b n m = 0 \<longleftrightarrow> ld_bytes m a (unat n) = ld_bytes m b (unat n)) \<and>
   (memcmp a b n m < 0 \<longleftrightarrow>
      (ld_bytes m a (unat n), ld_bytes m b (unat n)) \<in> lexord {(x, y). x < y})"
  by (simp add: memcmp_def memcmp_loop_first_diff first_diff_zero first_diff_neg)

text \<open>
  \<open>memchr\<close> returns the address of the first byte of the block that equals the low byte of its
  argument, and null when there is none.
\<close>

theorem memchr_correct:
  "memchr s c n m =
     (case List.find (\<lambda>k. m (s + of_nat k) = ucast c) [0..<unat n] of
        None \<Rightarrow> 0 | Some k \<Rightarrow> s + of_nat k)"
proof -
  have "unat n \<le> 2 ^ 64" using unat_u64_lt [of n] by simp
  then show ?thesis by (simp add: memchr_def memchr_loop_find)
qed

end
