(* ===== verification/Vmm.thy ===== *)
theory Vmm
  imports Pmm Cmem
begin

text \<open>
  The virtual memory manager (\<open>src/src/vmm.c\<close>, \<open>src/include/vmm.h\<close>): three levels of translation tables
  for 39-bit addresses, held in frames of the physical memory manager and edited in the byte memory.

  The page and block descriptors are 64-bit words built bit by bit as in the code. The system
  registers that \<open>init_vmm\<close> writes are fields of the state; barriers, cache and TLB maintenance and the message at the end of
  \<open>init_vmm\<close> have no effect on it. The walk of the tables by the hardware is the specification
  \<open>translate\<close>.

  When no frame is left for a table, the code prints the address with the conversion \<open>%llx\<close> before it returns. This conversion is
  one that \<open>printf\<close> never gets past (\<open>table_messages_hang\<close> in \<open>Report\<close> proves it for these messages), so the
  mapping functions do not return there: these branches are \<^term>\<open>None\<close>.
\<close>

section \<open>Constants, state and operations\<close>

abbreviation PT_VALID :: u64 where "PT_VALID \<equiv> push_bit 0 1"
abbreviation PT_TABLE :: u64 where "PT_TABLE \<equiv> push_bit 1 1"
abbreviation PT_PAGE :: u64 where "PT_PAGE \<equiv> push_bit 1 1"
abbreviation PT_BLOCK :: u64 where "PT_BLOCK \<equiv> push_bit 1 0"
abbreviation PT_AF :: u64 where "PT_AF \<equiv> push_bit 10 1"
abbreviation PT_SH_INNER :: u64 where "PT_SH_INNER \<equiv> push_bit 8 3"
abbreviation PT_AP_RW_EL1 :: u64 where "PT_AP_RW_EL1 \<equiv> push_bit 6 0"
abbreviation PT_AP_RO_EL1 :: u64 where "PT_AP_RO_EL1 \<equiv> push_bit 6 2"
abbreviation PT_PXN :: u64 where "PT_PXN \<equiv> push_bit 53 1"
abbreviation PT_UXN :: u64 where "PT_UXN \<equiv> push_bit 54 1"
abbreviation MT_NORMAL :: u64 where "MT_NORMAL \<equiv> 1"
abbreviation VM_WRITABLE :: u64 where "VM_WRITABLE \<equiv> push_bit 0 1"
abbreviation VM_NO_EXEC :: u64 where "VM_NO_EXEC \<equiv> push_bit 2 1"
abbreviation VM_DEVICE :: u64 where "VM_DEVICE \<equiv> push_bit 3 1"
abbreviation BLOCK_SIZE :: u64 where "BLOCK_SIZE \<equiv> push_bit 21 1"

record vmm =
  frames :: pmm
  ram :: mem
  root_table :: u64
  root_phys :: u64
  paging_enabled :: bool
  mair_el1 :: u64
  tcr_el1 :: u64
  ttbr0_el1 :: u64
  ttbr1_el1 :: u64
  sctlr_el1 :: u64

text \<open>The entry \<open>table[idx]\<close> of a table of 64-bit words.\<close>

definition pte_addr :: "u64 \<Rightarrow> u64 \<Rightarrow> u64" where
  "pte_addr table idx = table + 8 * idx"

definition get_next_table :: "u64 \<Rightarrow> u64 \<Rightarrow> vmm \<Rightarrow> (u64 \<times> vmm) option" where
  "get_next_table table idx s =
     (let e = ld64 (ram s) (pte_addr table idx) in
      if e AND PT_VALID \<noteq> 0 then Some (e AND 0x0000FFFFFFFFF000, s)
      else do {
        (new_table_phys, p) \<leftarrow> pmm_alloc_frame (frames s);
        if new_table_phys = 0 then Some (0, s\<lparr>frames := p\<rparr>)
        else
          let m1 = memset new_table_phys 0 PAGE_SIZE (ram s);
              m2 = st64 m1 (pte_addr table idx) (new_table_phys OR PT_TABLE OR PT_VALID)
          in Some (new_table_phys, s\<lparr>frames := p, ram := m2\<rparr>)
      })"

text \<open>The descriptor that \<open>vmm_map_page\<close> builds, in the order of the code.\<close>

definition page_entry :: "u64 \<Rightarrow> u64 \<Rightarrow> u64" where
  "page_entry phys flags =
     (let entry = phys OR PT_PAGE OR PT_VALID OR PT_AF OR PT_SH_INNER;
          entry = (if flags AND VM_DEVICE \<noteq> 0 then entry OR (PT_PXN OR PT_UXN)
                   else entry OR push_bit 2 MT_NORMAL);
          entry = entry OR PT_UXN;
          entry = (if flags AND VM_WRITABLE \<noteq> 0 then entry OR PT_AP_RW_EL1
                   else entry OR PT_AP_RO_EL1)
      in if flags AND VM_NO_EXEC \<noteq> 0 then entry OR PT_PXN else entry)"

definition block_entry :: "u64 \<Rightarrow> u64 \<Rightarrow> u64" where
  "block_entry phys flags =
     (let entry = phys OR PT_BLOCK OR PT_VALID OR PT_AF OR PT_SH_INNER;
          entry = (if flags AND VM_DEVICE \<noteq> 0 then entry OR (PT_PXN OR PT_UXN)
                   else entry OR push_bit 2 MT_NORMAL);
          entry = entry OR PT_UXN;
          entry = (if flags AND VM_WRITABLE \<noteq> 0 then entry OR PT_AP_RW_EL1
                   else entry OR PT_AP_RO_EL1)
      in if flags AND VM_NO_EXEC \<noteq> 0 then entry OR PT_PXN else entry)"

definition l1_idx :: "u64 \<Rightarrow> u64" where "l1_idx virt = drop_bit 30 virt AND 0x1FF"
definition l2_idx :: "u64 \<Rightarrow> u64" where "l2_idx virt = drop_bit 21 virt AND 0x1FF"
definition l3_idx :: "u64 \<Rightarrow> u64" where "l3_idx virt = drop_bit 12 virt AND 0x1FF"

text \<open>In the branches without a table, the call of \<open>printf\<close> does not return.\<close>

definition vmm_map_page :: "u64 \<Rightarrow> u64 \<Rightarrow> u64 \<Rightarrow> vmm \<Rightarrow> vmm option" where
  "vmm_map_page virt phys flags s = do {
     (l2_table, s1) \<leftarrow> get_next_table (root_table s) (l1_idx virt) s;
     if l2_table = 0 then None
     else do {
       (l3_table, s2) \<leftarrow> get_next_table l2_table (l2_idx virt) s1;
       if l3_table = 0 then None
       else Some (s2\<lparr>ram := st64 (ram s2) (pte_addr l3_table (l3_idx virt)) (page_entry phys flags)\<rparr>)
     }
   }"

definition vmm_map_block :: "u64 \<Rightarrow> u64 \<Rightarrow> u64 \<Rightarrow> vmm \<Rightarrow> vmm option" where
  "vmm_map_block virt phys flags s = do {
     (l2_table, s1) \<leftarrow> get_next_table (root_table s) (l1_idx virt) s;
     if l2_table = 0 then None
     else Some (s1\<lparr>ram := st64 (ram s1) (pte_addr l2_table (l2_idx virt)) (block_entry phys flags)\<rparr>)
   }"

text \<open>
  The loop of \<open>vmm_map_region\<close>; \<^term>\<open>None\<close> covers a round that does not return and a loop that never ends (\<open>mapped\<close> wraps
  around before it reaches a huge size).
\<close>

partial_function (option) map_region_loop ::
  "u64 \<Rightarrow> u64 \<Rightarrow> u64 \<Rightarrow> u64 \<Rightarrow> u64 \<Rightarrow> vmm \<Rightarrow> vmm option"
where
  "map_region_loop virt phys sz flags mapped s =
     (if mapped < sz then
        if (virt + mapped) mod BLOCK_SIZE = 0 \<and> (phys + mapped) mod BLOCK_SIZE = 0 \<and>
           BLOCK_SIZE \<le> sz - mapped
        then Option.bind (vmm_map_block (virt + mapped) (phys + mapped) flags s)
               (map_region_loop virt phys sz flags (mapped + BLOCK_SIZE))
        else Option.bind (vmm_map_page (virt + mapped) (phys + mapped) flags s)
               (map_region_loop virt phys sz flags (mapped + PAGE_SIZE))
      else Some s)"

definition vmm_map_region :: "u64 \<Rightarrow> u64 \<Rightarrow> u64 \<Rightarrow> u64 \<Rightarrow> vmm \<Rightarrow> vmm option" where
  "vmm_map_region virt phys sz flags s = map_region_loop virt phys sz flags 0 s"

text \<open>
  \<open>init_vmm\<close>: a fresh root table, the attribute and control registers, the identity mappings of the
  kernel, the RAM, the heap and the devices, and the switch of the MMU. \<open>kernel_end\<close> is the address of
  the linker symbol \<open>_kernel_end\<close>.
\<close>

definition init_vmm :: "u64 \<Rightarrow> vmm \<Rightarrow> vmm option" where
  "init_vmm kernel_end s = do {
     (root, p) \<leftarrow> pmm_alloc_frame (frames s);
     let s = s\<lparr>frames := p, root_phys := root, ram := memset root 0 PAGE_SIZE (ram s),
              root_table := root,
              mair_el1 := push_bit (8 * 0) 0x00 OR push_bit (8 * 1) 0xFF,
              tcr_el1 := push_bit 0 25 OR push_bit 14 0 OR push_bit 32 2 OR push_bit 16 25 OR
                         push_bit 30 2\<rparr>;
     let kernel_size = kernel_end - 0x40000000;
     s \<leftarrow> vmm_map_region 0x40000000 0x40000000 kernel_size VM_WRITABLE s;
     s \<leftarrow> vmm_map_region PHY_RAM_BASE PHY_RAM_BASE (phy_ram_size (frames s)) VM_WRITABLE s;
     s \<leftarrow> vmm_map_region 0x50000000 0x50000000 (8 * 1024 * 1024) VM_WRITABLE s;
     s \<leftarrow> vmm_map_region 0x09000000 0x09000000 (1024 * 1024) (VM_WRITABLE OR VM_DEVICE) s;
     s \<leftarrow> vmm_map_region 0x0a000000 0x0a000000 (1024 * 1024) (VM_WRITABLE OR VM_DEVICE) s;
     s \<leftarrow> vmm_map_region 0x08000000 0x08000000 (1024 * 1024) (VM_WRITABLE OR VM_DEVICE) s;
     Some (s\<lparr>ttbr0_el1 := root_phys s, ttbr1_el1 := root_phys s,
             sctlr_el1 := sctlr_el1 s OR (push_bit 0 1 OR push_bit 2 1 OR push_bit 12 1),
             paging_enabled := True\<rparr>)
   }"

section \<open>Table entries as cells\<close>

definition page_aligned :: "u64 \<Rightarrow> bool" where
  "page_aligned a \<longleftrightarrow> 4096 dvd unat a"

definition pte_valid :: "u64 \<times> u64 \<Rightarrow> bool" where
  "pte_valid c \<longleftrightarrow> page_aligned (fst c) \<and> unat (snd c) < 512"

definition rd_pte :: "mem \<Rightarrow> u64 \<times> u64 \<Rightarrow> u64" where
  "rd_pte m c = ld64 m (pte_addr (fst c) (snd c))"

definition wr_pte :: "mem \<Rightarrow> u64 \<times> u64 \<Rightarrow> u64 \<Rightarrow> mem" where
  "wr_pte m c v = st64 m (pte_addr (fst c) (snd c)) v"

lemma page_aligned_room: "page_aligned a \<Longrightarrow> unat a + 4096 \<le> 2 ^ 64"
proof -
  assume "page_aligned a"
  then obtain q where "unat a = 4096 * q" by (auto simp: page_aligned_def)
  then show ?thesis using unat_u64_lt [of a] by simp
qed

lemma unat_pte_addr:
  assumes "page_aligned t" "unat i < 512"
  shows "unat (pte_addr t i) = unat t + 8 * unat i"
proof -
  have "unat (8 * i) = 8 * unat i" using assms(2) by (simp add: unat_word_ariths)
  then show ?thesis
    using page_aligned_room [OF assms(1)] assms(2) unat_add_no_wrap [of t "8 * i"]
    by (simp add: pte_addr_def)
qed

lemma aligned8_pte: "pte_valid c \<Longrightarrow> aligned8 (pte_addr (fst c) (snd c))"
proof -
  assume "pte_valid c"
  then have "unat (pte_addr (fst c) (snd c)) = unat (fst c) + 8 * unat (snd c)" "4096 dvd unat (fst c)"
    by (simp_all add: pte_valid_def unat_pte_addr page_aligned_def)
  then show ?thesis unfolding aligned8_def by (auto elim!: dvdE)
qed

text \<open>A page number is recovered from any address inside the page.\<close>

lemma page_of_offset: "r < 4096 \<Longrightarrow> (4096 * q + r) div 4096 = (q :: nat)"
  by simp

lemma pte_addr_inj:
  assumes "pte_valid c" "pte_valid d" "pte_addr (fst c) (snd c) = pte_addr (fst d) (snd d)"
  shows "c = d"
proof -
  have "unat (fst c) + 8 * unat (snd c) = unat (fst d) + 8 * unat (snd d)"
    using assms by (metis pte_valid_def unat_pte_addr)
  moreover obtain p q where pq: "unat (fst c) = 4096 * p" "unat (fst d) = 4096 * q"
    using assms(1,2) by (auto simp: pte_valid_def page_aligned_def elim!: dvdE)
  moreover have "8 * unat (snd c) < 4096" "8 * unat (snd d) < 4096"
    using assms(1,2) by (simp_all add: pte_valid_def)
  ultimately have "p = q" using page_of_offset by metis
  with pq \<open>unat (fst c) + 8 * unat (snd c) = unat (fst d) + 8 * unat (snd d)\<close>
  have "unat (fst c) = unat (fst d) \<and> unat (snd c) = unat (snd d)" by simp
  then show ?thesis by (simp add: prod_eq_iff word_unat_eq_iff)
qed

interpretation ptes: cell_store pte_valid rd_pte wr_pte
proof unfold_locales
  show "rd_pte (wr_pte m c v) c = v" for m c v
    by (simp add: rd_pte_def wr_pte_def words64.rd_wr_same)
  show "rd_pte (wr_pte m c v) d = rd_pte m d" if "pte_valid c" "pte_valid d" "c \<noteq> d" for m c v d
    unfolding rd_pte_def wr_pte_def
    using pte_addr_inj [OF that(1,2)] that(3) by (intro words64.rd_wr_other aligned8_pte that) blast
qed

text \<open>Clearing a page clears its entries and no entry of another page.\<close>

lemma rd_pte_clear_page:
  assumes "page_aligned p" "pte_valid c"
  shows "rd_pte (memset p 0 PAGE_SIZE m) c = (if fst c = p then 0 else rd_pte m c)"
proof -
  have t: "page_aligned (fst c)" "unat (snd c) < 512" using assms(2) by (simp_all add: pte_valid_def)
  let ?a = "pte_addr (fst c) (snd c)"
  have in_page: "in_block p 4096 (?a + of_nat k) \<longleftrightarrow> fst c = p" if "k < 8" for k
  proof -
    have "unat (?a + of_nat k) = unat (fst c) + 8 * unat (snd c) + k"
      using unat_pte_addr [OF t] page_aligned_room [OF t(1)] t(2) that
        unat_add_no_wrap [of ?a "of_nat k"]
      by (simp add: unat_of_nat)
    then have "in_block p 4096 (?a + of_nat k) \<longleftrightarrow>
        unat p \<le> unat (fst c) + 8 * unat (snd c) + k \<and>
        unat (fst c) + 8 * unat (snd c) + k < unat p + 4096"
      using in_block_no_wrap [OF page_aligned_room [OF assms(1)]] by simp
    also have "\<dots> \<longleftrightarrow> unat (fst c) = unat p"
    proof -
      obtain q r where "unat (fst c) = 4096 * q" "unat p = 4096 * r"
        using assms(1) t(1) by (auto simp: page_aligned_def elim!: dvdE)
      then show ?thesis
        using t(2) that page_of_offset [of "8 * unat (snd c) + k" q]
          page_of_offset [of "4096 * q + (8 * unat (snd c) + k) - 4096 * r" r]
        by (cases "q = r") auto
    qed
    finally show ?thesis by (simp add: word_unat_eq_iff)
  qed
  have "ld_bytes (memset p 0 PAGE_SIZE m) ?a 8 = (if fst c = p then to_le 8 (0 :: u64) else ld_bytes m ?a 8)"
  proof (rule nth_equalityI)
    fix k assume "k < length (ld_bytes (memset p 0 PAGE_SIZE m) ?a 8)"
    then have k: "k < 8" by simp
    have "to_le 8 (0 :: u64) ! k = 0" using k by (auto simp: numeral_eq_Suc less_Suc_eq)
    then show "ld_bytes (memset p 0 PAGE_SIZE m) ?a 8 ! k =
        (if fst c = p then to_le 8 (0 :: u64) else ld_bytes m ?a 8) ! k"
      using k in_page [OF k] by (simp add: memset_filled filled_def)
  qed simp
  then show ?thesis by (auto simp: rd_pte_def ld64_def le_word_to_le_full)
qed

section \<open>The walk of the hardware\<close>

text \<open>
  The output address field of a descriptor and its attribute fields (bits 2 to 11 and 52 to 63), and
  the walk for an address of 39 bits from a level-1 table.
\<close>

definition next_table :: "u64 \<Rightarrow> u64" where
  "next_table e = e AND 0x0000FFFFFFFFF000"

definition attrs_of :: "u64 \<Rightarrow> u64" where
  "attrs_of e = e AND 0xFFF0000000000FFC"

definition is_valid :: "u64 \<Rightarrow> bool" where "is_valid e \<longleftrightarrow> bit e 0"
definition is_table :: "u64 \<Rightarrow> bool" where "is_table e \<longleftrightarrow> bit e 0 \<and> bit e 1"
definition is_block :: "u64 \<Rightarrow> bool" where "is_block e \<longleftrightarrow> bit e 0 \<and> \<not> bit e 1"

definition walk :: "mem \<Rightarrow> u64 \<Rightarrow> u64 \<Rightarrow> (u64 \<times> u64) option" where
  "walk m root va =
     (let e1 = rd_pte m (root, l1_idx va) in
      if is_block e1 then Some (e1 AND 0x0000FFFFC0000000 OR va AND 0x3FFFFFFF, attrs_of e1)
      else if is_table e1 then
        let e2 = rd_pte m (next_table e1, l2_idx va) in
        if is_block e2 then Some (e2 AND 0x0000FFFFFFE00000 OR va AND 0x1FFFFF, attrs_of e2)
        else if is_table e2 then
          let e3 = rd_pte m (next_table e2, l3_idx va) in
          if is_table e3 then Some (next_table e3 OR va AND 0xFFF, attrs_of e3) else None
        else None
      else None)"

definition translate :: "vmm \<Rightarrow> u64 \<Rightarrow> (u64 \<times> u64) option" where
  "translate s va = walk (ram s) (root_table s) va"

text \<open>The level-2 entry for an address is a block descriptor.\<close>

definition block_at :: "vmm \<Rightarrow> u64 \<Rightarrow> bool" where
  "block_at s va \<longleftrightarrow>
     is_table (rd_pte (ram s) (root_table s, l1_idx va)) \<and>
     is_block (rd_pte (ram s) (next_table (rd_pte (ram s) (root_table s, l1_idx va)), l2_idx va))"

text \<open>The attributes that the flags of a mapping ask for.\<close>

definition attr_bits :: "u64 \<Rightarrow> u64" where
  "attr_bits flags =
     PT_AF OR PT_SH_INNER OR PT_UXN OR
     (if bit flags 3 \<or> bit flags 2 then PT_PXN else 0) OR
     (if bit flags 3 then 0 else push_bit 2 MT_NORMAL) OR
     (if bit flags 0 then PT_AP_RW_EL1 else PT_AP_RO_EL1)"

text \<open>The page and the 2 MB block of a 39-bit address.\<close>

definition vpn :: "u64 \<Rightarrow> u64" where "vpn va = take_bit 27 (drop_bit 12 va)"
definition vbn :: "u64 \<Rightarrow> u64" where "vbn va = take_bit 18 (drop_bit 21 va)"

subsection \<open>Bits of addresses and descriptors\<close>

lemma flag_set_iff:
  "x AND push_bit 0 1 \<noteq> 0 \<longleftrightarrow> bit (x :: u64) 0"
  "x AND push_bit 2 1 \<noteq> 0 \<longleftrightarrow> bit (x :: u64) 2"
  "x AND push_bit 3 1 \<noteq> 0 \<longleftrightarrow> bit (x :: u64) 3"
  by (simp_all only: bit_iff_and_push_bit_not_eq_0)

lemma mask9: "(0x1FF :: u64) = mask 9" by (simp add: mask_eq_exp_minus_1)
lemma mask12: "(0xFFF :: u64) = mask 12" by (simp add: mask_eq_exp_minus_1)
lemma mask21: "(0x1FFFFF :: u64) = mask 21" by (simp add: mask_eq_exp_minus_1)
lemma table_field: "(0x0000FFFFFFFFF000 :: u64) = push_bit 12 (mask 36)" by (simp add: mask_eq_exp_minus_1)
lemma block_field: "(0x0000FFFFFFE00000 :: u64) = push_bit 21 (mask 27)" by (simp add: mask_eq_exp_minus_1)

lemma attr_field: "(0xFFF0000000000FFC :: u64) = push_bit 52 (mask 12) OR push_bit 2 (mask 10)"
  by (simp add: mask_eq_exp_minus_1)

lemma idx_of_vpn:
  "l1_idx va = drop_bit 18 (vpn va)" "l2_idx va = take_bit 9 (drop_bit 9 (vpn va))"
  "l3_idx va = take_bit 9 (vpn va)"
  unfolding l1_idx_def l2_idx_def l3_idx_def vpn_def mask9
  by (rule bit_word_eqI; auto simp: bit_simps ac_simps)+

lemma vpn_of_idx: "vpn va = push_bit 18 (l1_idx va) OR push_bit 9 (l2_idx va) OR l3_idx va"
  unfolding l1_idx_def l2_idx_def l3_idx_def vpn_def mask9
  by (rule bit_word_eqI) (auto simp: bit_simps ac_simps; presburger)

lemma vbn_of_idx: "vbn va = push_bit 9 (l1_idx va) OR l2_idx va"
  unfolding l1_idx_def l2_idx_def vbn_def mask9
  by (rule bit_word_eqI) (auto simp: bit_simps ac_simps)

lemma idx_of_vbn: "l1_idx va = drop_bit 9 (vbn va)" "l2_idx va = take_bit 9 (vbn va)"
  unfolding l1_idx_def l2_idx_def vbn_def mask9
  by (rule bit_word_eqI; auto simp: bit_simps ac_simps)+

lemma vpn_eq_iff:
  "vpn a = vpn b \<longleftrightarrow> l1_idx a = l1_idx b \<and> l2_idx a = l2_idx b \<and> l3_idx a = l3_idx b"
  by (metis idx_of_vpn vpn_of_idx)

lemma vbn_eq_iff: "vbn a = vbn b \<longleftrightarrow> l1_idx a = l1_idx b \<and> l2_idx a = l2_idx b"
  by (metis idx_of_vbn vbn_of_idx)

lemma idx_lt [simp]: "unat (l1_idx va) < 512" "unat (l2_idx va) < 512" "unat (l3_idx va) < 512"
proof -
  have "unat (x AND 0x1FF :: u64) < 512" for x
  proof -
    have "unat (take_bit 9 x) < 2 ^ 9"
      unfolding unsigned_take_bit_eq by (rule take_bit_nat_less_exp)
    then show ?thesis unfolding mask9 take_bit_eq_mask [symmetric] by simp
  qed
  then show "unat (l1_idx va) < 512" "unat (l2_idx va) < 512" "unat (l3_idx va) < 512"
    by (simp_all only: l1_idx_def l2_idx_def l3_idx_def)
qed

text \<open>Aligned physical addresses of at most 48 bits, which a descriptor can hold.\<close>

definition pa_ok :: "nat \<Rightarrow> u64 \<Rightarrow> bool" where
  "pa_ok k a \<longleftrightarrow> 2 ^ k dvd unat a \<and> unat a < 2 ^ 48"

lemma bit_pa_ok:
  assumes "pa_ok k a"
  shows "bit a n \<Longrightarrow> k \<le> n \<and> n < 48"
proof -
  assume b: "bit a n"
  obtain q where "unat a = 2 ^ k * q" "unat a < 2 ^ 48" using assms by (auto simp: pa_ok_def elim: dvdE)
  then have "unat a = push_bit k q" "take_bit 48 (unat a) = unat a"
    by (simp_all add: push_bit_eq_mult mult.commute take_bit_nat_eq_self)
  moreover have "bit (unat a) n" using b by (simp add: bit_unsigned_iff)
  ultimately have "bit (push_bit k q) n" "bit (take_bit 48 (unat a)) n" by simp_all
  then show ?thesis by (simp_all add: bit_push_bit_iff bit_take_bit_iff)
qed

lemma page_entry_bits:
  "page_entry phys flags = phys OR PT_PAGE OR PT_VALID OR attr_bits flags"
  unfolding page_entry_def attr_bits_def Let_def flag_set_iff
  by (cases "bit flags 3"; cases "bit flags 2"; cases "bit flags 0") (simp_all add: or.assoc)

lemma block_entry_bits: "block_entry phys flags = phys OR PT_VALID OR attr_bits flags"
  unfolding block_entry_def attr_bits_def Let_def flag_set_iff
  by (cases "bit flags 3"; cases "bit flags 2"; cases "bit flags 0") (simp_all add: or.assoc)

lemma attr_bits_masks:
  "attr_bits f AND 0xFFF0000000000FFC = attr_bits f" "attr_bits f AND 0x0000FFFFFFFFF000 = 0"
  "attr_bits f AND 0x0000FFFFFFE00000 = 0" "attr_bits f AND 3 = 0"
  unfolding attr_bits_def
  by (cases "bit f 3"; cases "bit f 2"; cases "bit f 0"; simp)+

lemma low_bits_of_and_3:
  fixes x :: u64
  assumes "x AND 3 = y"
  shows "bit x 0 = bit y 0" "bit x 1 = bit y 1"
proof -
  have "y = x AND mask 2" using assms by (simp add: mask_eq_exp_minus_1)
  then show "bit x 0 = bit y 0" "bit x 1 = bit y 1" by (auto simp: bit_simps)
qed

lemma attr_bits_low: "\<not> bit (attr_bits f) 0" "\<not> bit (attr_bits f) (Suc 0)"
  using low_bits_of_and_3 [OF attr_bits_masks(4) [of f]] by simp_all

lemma pa_ok_masks:
  "pa_ok 12 p \<Longrightarrow> p AND 0x0000FFFFFFFFF000 = p" "pa_ok 21 p \<Longrightarrow> p AND 0x0000FFFFFFE00000 = p"
  "pa_ok 12 p \<Longrightarrow> p AND 0xFFF0000000000FFC = 0"
  unfolding table_field block_field attr_field
  by (rule bit_word_eqI; use bit_pa_ok in \<open>fastforce simp: bit_simps\<close>)+

lemma pa_ok_weaken: "pa_ok 21 p \<Longrightarrow> pa_ok 12 p"
  using dvd_trans [of "2 ^ 12" "2 ^ 21" "unat p"] by (simp add: pa_ok_def le_imp_power_dvd)

lemma pa_ok_low: "pa_ok 12 p \<Longrightarrow> \<not> bit p 0" "pa_ok 12 p \<Longrightarrow> \<not> bit p (Suc 0)"
  using bit_pa_ok by fastforce+

lemma table_descriptor:
  assumes "pa_ok 12 p"
  shows "is_table (p OR PT_TABLE OR PT_VALID)" "next_table (p OR PT_TABLE OR PT_VALID) = p"
  using assms pa_ok_masks(1)
  by (simp_all add: is_table_def next_table_def bit_simps bit.conj_disj_distrib2)

lemma page_descriptor:
  assumes "pa_ok 12 p"
  shows "is_table (page_entry p f)" "next_table (page_entry p f) = p"
    "attrs_of (page_entry p f) = attr_bits f"
  using pa_ok_masks(1,3) [OF assms]
  by (simp_all add: page_entry_bits is_table_def next_table_def attrs_of_def bit_simps
      bit.conj_disj_distrib2 attr_bits_masks)

lemma block_descriptor:
  assumes "pa_ok 21 p"
  shows "is_block (block_entry p f)" "\<not> is_table (block_entry p f)"
    "block_entry p f AND 0x0000FFFFFFE00000 = p" "attrs_of (block_entry p f) = attr_bits f"
  using pa_ok_masks(2) [OF assms] pa_ok_masks(3) [OF pa_ok_weaken [OF assms]]
    pa_ok_low [OF pa_ok_weaken [OF assms]] attr_bits_low
  by (simp_all add: block_entry_bits is_block_def is_table_def attrs_of_def bit_simps
      bit.conj_disj_distrib2 attr_bits_masks)

text \<open>The offset inside a page or a block is added to an aligned address.\<close>

lemma or_offset:
  "pa_ok 12 p \<Longrightarrow> p OR va AND 0xFFF = p + (va AND 0xFFF)"
  "pa_ok 21 p \<Longrightarrow> p OR va AND 0x1FFFFF = p + (va AND 0x1FFFFF)"
  unfolding mask12 mask21
  by (rule disjunctive_add [symmetric]; use bit_pa_ok in \<open>fastforce simp: bit_simps\<close>)+

section \<open>The tree of tables\<close>

text \<open>
  Which table serves which part of the address space: the root, the level-2 table of a 1 GB slot, the
  level-3 table of a 2 MB slot. A role assignment is ghost state of the proofs.
\<close>

datatype role = Level1 | Level2 u64 | Level3 u64 u64

fun child :: "role \<Rightarrow> u64 \<Rightarrow> role" where
  "child Level1 i = Level2 i"
| "child (Level2 i) j = Level3 i j"
| "child (Level3 i j) k = Level3 i j"

fun interior :: "role \<Rightarrow> bool" where
  "interior (Level3 i j) \<longleftrightarrow> False"
| "interior r \<longleftrightarrow> True"

lemma interior_inner: "interior Level1" "interior (Level2 i)"
  by simp_all

definition table_tree :: "(u64 \<rightharpoonup> role) \<Rightarrow> vmm \<Rightarrow> bool" where
  "table_tree \<rho> s \<longleftrightarrow>
     pmm_inv (frames s) \<and>
     (\<forall>t. \<rho> t = Some Level1 \<longleftrightarrow> t = root_table s) \<and>
     (\<forall>t \<in> dom \<rho>. pa_ok 12 t \<and> t \<noteq> 0 \<and> t \<notin> avail_frames (frames s)) \<and>
     (\<forall>i. unat i < 512 \<longrightarrow> \<not> is_block (rd_pte (ram s) (root_table s, i))) \<and>
     (\<forall>t r i. \<rho> t = Some r \<and> interior r \<and> unat i < 512 \<and> is_table (rd_pte (ram s) (t, i)) \<longrightarrow>
        \<rho> (next_table (rd_pte (ram s) (t, i))) = Some (child r i))"

text \<open>The well-formed states: the tables below the root form a tree that the allocator cannot reach.\<close>

definition vmm_wf :: "vmm \<Rightarrow> bool" where
  "vmm_wf s \<longleftrightarrow> (\<exists>\<rho>. table_tree \<rho> s)"

lemma table_treeD:
  assumes "table_tree \<rho> s"
  shows "pmm_inv (frames s)" "\<rho> t = Some Level1 \<longleftrightarrow> t = root_table s"
    "\<rho> t = Some r \<Longrightarrow> pa_ok 12 t" "\<rho> t = Some r \<Longrightarrow> t \<noteq> 0"
    "\<rho> t = Some r \<Longrightarrow> t \<notin> avail_frames (frames s)"
    "unat i < 512 \<Longrightarrow> \<not> is_block (rd_pte (ram s) (root_table s, i))"
    "\<rho> t = Some r \<Longrightarrow> interior r \<Longrightarrow> unat i < 512 \<Longrightarrow> is_table (rd_pte (ram s) (t, i)) \<Longrightarrow>
       \<rho> (next_table (rd_pte (ram s) (t, i))) = Some (child r i)"
  using assms unfolding table_tree_def by blast+

lemma pa_ok_aligned: "pa_ok 12 t \<Longrightarrow> page_aligned t"
  by (simp add: pa_ok_def page_aligned_def)

lemma pte_valid_tree: "table_tree \<rho> s \<Longrightarrow> \<rho> t = Some r \<Longrightarrow> unat i < 512 \<Longrightarrow> pte_valid (t, i)"
  using table_treeD(3) pa_ok_aligned by (simp add: pte_valid_def)

lemma valid_not_block: "is_valid e \<Longrightarrow> \<not> is_block e \<Longrightarrow> is_table e"
  by (simp add: is_valid_def is_block_def is_table_def)

lemma is_table_valid: "is_table e \<Longrightarrow> is_valid e" "is_block e \<Longrightarrow> is_valid e" "is_table e \<Longrightarrow> \<not> is_block e"
  by (simp_all add: is_table_def is_block_def is_valid_def)

lemma not_valid_zero: "\<not> is_valid 0" "\<not> is_table 0" "\<not> is_block 0"
  by (simp_all add: is_valid_def is_table_def is_block_def)

text \<open>Frames of the allocator are addresses a descriptor can hold.\<close>

lemma avail_frame_pa_ok: "a \<in> avail_frames p \<Longrightarrow> pa_ok 12 a"
proof -
  assume "a \<in> avail_frames p"
  then obtain i where "a = index_to_phys i" by (auto simp: avail_frames_def)
  then show "pa_ok 12 a" using unat_u32_lt [of i] by (simp add: pa_ok_def unat_index_to_phys)
qed

lemma alloc_keeps_ram_size: "pmm_alloc_frame p = Some (a, p') \<Longrightarrow> phy_ram_size p' = phy_ram_size p"
  by (auto simp: pmm_alloc_frame_def Let_def split: if_splits bind_splits)

text \<open>
  What a new, empty table leaves as it was: the entries of the old tables, except that an invalid
  entry may now lead to an empty table.
\<close>

definition vmm_regs :: "vmm \<Rightarrow> u64 list" where
  "vmm_regs s = [root_phys s, mair_el1 s, tcr_el1 s, sctlr_el1 s]"

lemma vmm_regs_update [simp]:
  "vmm_regs (s\<lparr>ram := m\<rparr>) = vmm_regs s" "vmm_regs (s\<lparr>frames := p\<rparr>) = vmm_regs s"
  by (simp_all add: vmm_regs_def)

definition grows :: "(u64 \<rightharpoonup> role) \<Rightarrow> vmm \<Rightarrow> vmm \<Rightarrow> bool" where
  "grows \<rho> s s' \<longleftrightarrow>
     root_table s' = root_table s \<and> vmm_regs s' = vmm_regs s \<and> phy_ram_size (frames s') = phy_ram_size (frames s) \<and>
     avail_frames (frames s') \<subseteq> avail_frames (frames s) \<and>
     card (avail_frames (frames s)) \<le> card (avail_frames (frames s')) + 1 \<and>
     (\<forall>t r i. \<rho> t = Some r \<and> unat i < 512 \<longrightarrow>
        rd_pte (ram s') (t, i) = rd_pte (ram s) (t, i) \<or>
        interior r \<and> \<not> is_valid (rd_pte (ram s) (t, i)) \<and> is_table (rd_pte (ram s') (t, i)) \<and>
        (\<forall>l. unat l < 512 \<longrightarrow> rd_pte (ram s') (next_table (rd_pte (ram s') (t, i)), l) = 0))"

lemma growsD:
  assumes "grows \<rho> s s'"
  shows "root_table s' = root_table s" "phy_ram_size (frames s') = phy_ram_size (frames s)"
    "avail_frames (frames s') \<subseteq> avail_frames (frames s)"
    "card (avail_frames (frames s)) \<le> card (avail_frames (frames s')) + 1"
    "\<rho> t = Some r \<Longrightarrow> unat i < 512 \<Longrightarrow> is_valid (rd_pte (ram s) (t, i)) \<Longrightarrow>
       rd_pte (ram s') (t, i) = rd_pte (ram s) (t, i)"
  using assms unfolding grows_def by blast+

lemma grows_cases:
  assumes "grows \<rho> s s'" "\<rho> t = Some r" "unat i < 512"
  obtains (same) "rd_pte (ram s') (t, i) = rd_pte (ram s) (t, i)"
  | (fresh) "interior r" "\<not> is_valid (rd_pte (ram s) (t, i))" "is_table (rd_pte (ram s') (t, i))"
      "\<And>l. unat l < 512 \<Longrightarrow> rd_pte (ram s') (next_table (rd_pte (ram s') (t, i)), l) = 0"
  using assms unfolding grows_def by blast

lemma grows_refl: "grows \<rho> s s"
  by (simp add: grows_def)

text \<open>The tables on the walk of an address have the roles of the address.\<close>

lemma walk_roles:
  fixes va :: u64
  assumes "table_tree \<rho> s"
  defines "e1 \<equiv> rd_pte (ram s) (root_table s, l1_idx va)"
  defines "e2 \<equiv> rd_pte (ram s) (next_table e1, l2_idx va)"
  shows "\<rho> (root_table s) = Some Level1"
    and "is_table e1 \<Longrightarrow> \<rho> (next_table e1) = Some (Level2 (l1_idx va))"
    and "is_table e1 \<Longrightarrow> is_table e2 \<Longrightarrow> \<rho> (next_table e2) = Some (Level3 (l1_idx va) (l2_idx va))"
proof -
  show r1: "\<rho> (root_table s) = Some Level1" using table_treeD(2) [OF assms(1)] by blast
  show r2: "\<rho> (next_table e1) = Some (Level2 (l1_idx va))" if "is_table e1"
    using table_treeD(7) [OF assms(1) r1, of "l1_idx va"] that by (simp add: e1_def)
  show "\<rho> (next_table e2) = Some (Level3 (l1_idx va) (l2_idx va))" if "is_table e1" "is_table e2"
    using table_treeD(7) [OF assms(1) r2 [OF that(1)], of "l2_idx va"] that by (simp add: e2_def)
qed

lemma grows_translate:
  assumes tree: "table_tree \<rho> s" and g: "grows \<rho> s s'"
  shows "translate s' va = translate s va" "block_at s' va = block_at s va"
proof -
  note roles = walk_roles(1) [OF tree] walk_roles(2,3) [OF tree, of va]
  let ?e1 = "rd_pte (ram s) (root_table s, l1_idx va)"
  let ?e2 = "rd_pte (ram s) (next_table ?e1, l2_idx va)"
  have both: "translate s' va = translate s va \<and> block_at s' va = block_at s va"
    using g roles(1) idx_lt(1) [of va]
  proof (cases rule: grows_cases)
    case fresh
    then show ?thesis
      by (simp add: translate_def walk_def block_at_def growsD(1) [OF g] not_valid_zero Let_def)
        (auto dest: is_table_valid)
  next
    case same1: same
    show ?thesis
    proof (cases "is_table ?e1")
      case False
      then show ?thesis using same1
        by (simp add: translate_def walk_def block_at_def growsD(1) [OF g] Let_def)
    next
      case e1: True
      show ?thesis
        using g roles(2) [OF e1] idx_lt(2) [of va]
      proof (cases rule: grows_cases)
        case fresh
        then show ?thesis using same1 e1
          by (simp add: translate_def walk_def block_at_def growsD(1) [OF g] not_valid_zero Let_def)
            (auto dest: is_table_valid)
      next
        case same2: same
        show ?thesis
        proof (cases "is_table ?e2")
          case False
          then show ?thesis using same1 same2
            by (simp add: translate_def walk_def block_at_def growsD(1) [OF g] Let_def)
        next
          case e2: True
          have "rd_pte (ram s') (next_table ?e2, l3_idx va) = rd_pte (ram s) (next_table ?e2, l3_idx va)"
            using g roles(3) [OF e1 e2] idx_lt(3) [of va] by (cases rule: grows_cases) auto
          then show ?thesis using same1 same2
            by (simp add: translate_def walk_def block_at_def growsD(1) [OF g] Let_def)
        qed
      qed
    qed
  qed
  then show "translate s' va = translate s va" "block_at s' va = block_at s va" by simp_all
qed

text \<open>A fresh frame, cleared and linked into an invalid entry.\<close>

lemma rd_pte_link:
  assumes "page_aligned p" "pte_valid (t, i)" "pte_valid c" "t \<noteq> p"
  shows "rd_pte (wr_pte (memset p 0 PAGE_SIZE m) (t, i) e) c =
    (if c = (t, i) then e else if fst c = p then 0 else rd_pte m c)"
  using assms by (simp add: ptes.rd_wr rd_pte_clear_page)

lemma link_table_tree:
  assumes tree: "table_tree \<rho> s" and t: "\<rho> t = Some r" "interior r" "unat i < 512"
    and inval: "\<not> is_valid (rd_pte (ram s) (t, i))"
    and al: "pmm_alloc_frame (frames s) = Some (p, q)" "p \<noteq> 0"
  defines "s' \<equiv> s\<lparr>frames := q,
      ram := wr_pte (memset p 0 PAGE_SIZE (ram s)) (t, i) (p OR PT_TABLE OR PT_VALID)\<rparr>"
  shows "table_tree (\<rho>(p \<mapsto> child r i)) s'" "grows \<rho> s s'"
    "is_table (rd_pte (ram s') (t, i))" "next_table (rd_pte (ram s') (t, i)) = p" "\<rho> p = None"
    "card (avail_frames (frames s)) = Suc (card (avail_frames (frames s')))"
    "unat l < 512 \<Longrightarrow> rd_pte (ram s') (p, l) = 0"
proof -
  note inv = table_treeD(1) [OF tree]
  note fr = pmm_frames.alloc_frame [OF inv al]
  have p: "pa_ok 12 p" "page_aligned p" using fr(1) avail_frame_pa_ok pa_ok_aligned by blast+
  show new: "\<rho> p = None" using table_treeD(5) [OF tree] fr(1) by (cases "\<rho> p") auto
  have tp: "t \<noteq> p" using t(1) new by auto
  have rd: "rd_pte (ram s') (u, k) =
      (if (u, k) = (t, i) then p OR PT_TABLE OR PT_VALID else if u = p then 0 else rd_pte (ram s) (u, k))"
    if "u = p \<or> \<rho> u \<noteq> None" "unat k < 512" for u k
  proof -
    have "pte_valid (u, k)" using that p(2) pte_valid_tree [OF tree] by (auto simp: pte_valid_def)
    from rd_pte_link [OF p(2) pte_valid_tree [OF tree t(1,3)] this tp]
    show ?thesis by (simp add: s'_def)
  qed
  note desc = table_descriptor [OF p(1)]
  show "is_table (rd_pte (ram s') (t, i))" "next_table (rd_pte (ram s') (t, i)) = p"
    using rd [of t i] t desc by simp_all
  have root: "root_table s' = root_table s" "frames s' = q" "vmm_regs s' = vmm_regs s"
    by (simp_all add: s'_def)
  show "card (avail_frames (frames s)) = Suc (card (avail_frames (frames s')))"
    using card_Suc_Diff1 [OF pmm_frames.finite_avail [OF inv] fr(1)] fr(2) root(2) by simp
  show "unat l < 512 \<Longrightarrow> rd_pte (ram s') (p, l) = 0" using rd [of p l] tp by simp
  have root_p: "root_table s \<noteq> p" using table_treeD(2) [OF tree, of p] new by auto
  show "grows \<rho> s s'"
    unfolding grows_def root
  proof (intro conjI allI impI)
    show "card (avail_frames (frames s)) \<le> card (avail_frames q) + 1"
      using fr(1,2) pmm_frames.finite_avail [OF inv] by (simp add: card_Diff_singleton)
    fix u r' and k :: u64 assume a: "\<rho> u = Some r' \<and> unat k < 512"
    show "rd_pte (ram s') (u, k) = rd_pte (ram s) (u, k) \<or>
        interior r' \<and> \<not> is_valid (rd_pte (ram s) (u, k)) \<and> is_table (rd_pte (ram s') (u, k)) \<and>
        (\<forall>l. unat l < 512 \<longrightarrow> rd_pte (ram s') (next_table (rd_pte (ram s') (u, k)), l) = 0)"
    proof (cases "(u, k) = (t, i)")
      case True
      then show ?thesis using a t inval desc tp rd [of p] rd [of t i] by auto
    next
      case False
      then show ?thesis using a new rd [of u k] by auto
    qed
  qed (use fr(2) alloc_keeps_ram_size [OF al(1)] in auto)
  show "table_tree (\<rho>(p \<mapsto> child r i)) s'"
    unfolding table_tree_def root
  proof (intro conjI allI impI ballI)
    show "pmm_inv q" by (rule fr(3))
    show "(\<rho>(p \<mapsto> child r i)) u = Some Level1 \<longleftrightarrow> u = root_table s" for u
      using table_treeD(2) [OF tree, of u] root_p by (cases r) auto
    fix u assume "u \<in> dom (\<rho>(p \<mapsto> child r i))"
    then show "pa_ok 12 u" "u \<noteq> 0" "u \<notin> avail_frames q"
      using p(1) al(2) fr(2) table_treeD(3,5) [OF tree] table_treeD(4) [OF tree, of 0]
      by (auto split: if_splits)
  next
    fix k :: u64 assume k: "unat k < 512"
    show "\<not> is_block (rd_pte (ram s') (root_table s, k))"
      using rd [of "root_table s" k] k root_p walk_roles(1) [OF tree] table_treeD(6) [OF tree k]
        is_table_valid(3) [OF desc(1)]
      by (simp split: if_splits)
  next
    fix u r' k
    assume a: "(\<rho>(p \<mapsto> child r i)) u = Some r' \<and> interior r' \<and> unat k < 512 \<and>
      is_table (rd_pte (ram s') (u, k))"
    then have u: "u = p \<or> \<rho> u \<noteq> None" by (auto split: if_splits)
    show "(\<rho>(p \<mapsto> child r i)) (next_table (rd_pte (ram s') (u, k))) = Some (child r' k)"
    proof (cases "(u, k) = (t, i)")
      case True
      then show ?thesis using a t tp desc rd [of t i] by auto
    next
      case False
      then have "u \<noteq> p" "rd_pte (ram s') (u, k) = rd_pte (ram s) (u, k)" "\<rho> u = Some r'"
        using a u rd [of u k] not_valid_zero by (auto split: if_splits)
      then show ?thesis using a new table_treeD(7) [OF tree, of u r' k] by (auto split: if_splits)
    qed
  qed
qed

text \<open>
  \<open>get_next_table\<close> on an entry that is not a block: the next table of the tree, new and empty when
  there was none, or null when no frame is left.
\<close>

lemma get_next_table_ok:
  assumes tree: "table_tree \<rho> s" and t: "\<rho> t = Some r" "interior r" "unat i < 512"
    and nb: "\<not> is_block (rd_pte (ram s) (t, i))"
  obtains (full) "get_next_table t i s = Some (0, s)" "avail_frames (frames s) = {}" "\<not> is_valid (rd_pte (ram s) (t, i))"
  | (ok) n s' \<rho>' where "get_next_table t i s = Some (n, s')" "n \<noteq> 0" "table_tree \<rho>' s'" "\<rho> \<subseteq>\<^sub>m \<rho>'"
      "\<rho>' n = Some (child r i)" "is_table (rd_pte (ram s') (t, i))"
      "next_table (rd_pte (ram s') (t, i)) = n" "grows \<rho> s s'"
      "if is_valid (rd_pte (ram s) (t, i)) then s' = s
       else card (avail_frames (frames s)) = Suc (card (avail_frames (frames s'))) \<and>
         (\<forall>l. unat l < 512 \<longrightarrow> rd_pte (ram s') (n, l) = 0)"
proof (cases "is_valid (rd_pte (ram s) (t, i))")
  case True
  then have e: "is_table (rd_pte (ram s) (t, i))" using nb by (rule valid_not_block)
  note n = table_treeD(7) [OF tree t e]
  have "get_next_table t i s = Some (next_table (rd_pte (ram s) (t, i)), s)"
    using True flag_set_iff(1)
    by (simp only: get_next_table_def is_valid_def rd_pte_def next_table_def fst_conv snd_conv Let_def if_True)
  from ok [OF this table_treeD(4) [OF tree n] tree map_le_refl n e refl grows_refl] True show thesis by simp
next
  case False
  note inv = table_treeD(1) [OF tree]
  from pmm_frames.alloc_total [OF inv] obtain p q where al: "pmm_alloc_frame (frames s) = Some (p, q)"
    by blast
  have eq: "get_next_table t i s =
    (if p = 0 then Some (0, s\<lparr>frames := q\<rparr>)
     else Some (p, s\<lparr>frames := q,
       ram := wr_pte (memset p 0 PAGE_SIZE (ram s)) (t, i) (p OR PT_TABLE OR PT_VALID)\<rparr>))"
    using False flag_set_iff(1) al
    by (simp only: get_next_table_def is_valid_def rd_pte_def wr_pte_def fst_conv snd_conv Let_def
        if_False bind.bind_lunit prod.case)
  show thesis
  proof (cases "p = 0")
    case True
    then have "avail_frames (frames s) = {}" "q = frames s"
      using pmm_frames.alloc_null [OF inv] al by simp_all
    then show thesis using full eq True False by simp
  next
    case p: False
    note l = link_table_tree [OF tree t False al p]
    have "\<rho> \<subseteq>\<^sub>m \<rho>(p \<mapsto> child r i)" using l(5) by (auto simp: map_le_def)
    then show thesis using ok [OF _ p l(1) _ _ l(3,4,2)] eq p False l(6,7) by simp
  qed
qed

text \<open>Writes of leaf entries keep the tree.\<close>

lemma write_leaf_tree:
  assumes tree: "table_tree \<rho> s" and n: "\<rho> n = Some r" "unat k < 512"
    and leaf: "interior r \<Longrightarrow> r \<noteq> Level1 \<and> \<not> is_table e"
  shows "table_tree \<rho> (s\<lparr>ram := wr_pte (ram s) (n, k) e\<rparr>)"
proof -
  have rd: "rd_pte (wr_pte (ram s) (n, k) e) (u, l) = (if (u, l) = (n, k) then e else rd_pte (ram s) (u, l))"
    if "\<rho> u = Some r'" "unat l < 512" for u l r'
    using ptes.rd_wr pte_valid_tree [OF tree] n that by blast
  have "n = root_table s \<Longrightarrow> r = Level1" using walk_roles(1) [OF tree] n(1) by simp
  then have "\<not> is_block (rd_pte (wr_pte (ram s) (n, k) e) (root_table s, i))" if "unat i < 512" for i
    using that rd [OF walk_roles(1) [OF tree]] table_treeD(6) [OF tree] leaf by auto
  moreover have "\<rho> (next_table (rd_pte (wr_pte (ram s) (n, k) e) (u, l))) = Some (child r' l)"
    if "\<rho> u = Some r'" "interior r'" "unat l < 512" "is_table (rd_pte (wr_pte (ram s) (n, k) e) (u, l))"
    for u r' l
    using that rd [OF that(1,3)] n(1) leaf table_treeD(7) [OF tree that(1,2,3)] by (auto split: if_splits)
  ultimately show ?thesis
    using tree unfolding table_tree_def vmm.simps by (intro conjI) (simp_all, blast?)
qed

text \<open>What the two kinds of leaf writes do to the translation.\<close>

lemma page_write_translate:
  assumes tree: "table_tree \<rho> s" and n: "\<rho> n = Some (Level3 i j)" "unat k < 512" and e: "is_table e"
    and e1: "is_table (rd_pte (ram s) (root_table s, i))"
    and e2: "is_table (rd_pte (ram s) (next_table (rd_pte (ram s) (root_table s, i)), j))"
      "next_table (rd_pte (ram s) (next_table (rd_pte (ram s) (root_table s, i)), j)) = n"
  defines "s' \<equiv> s\<lparr>ram := wr_pte (ram s) (n, k) e\<rparr>"
  shows "translate s' va =
      (if l1_idx va = i \<and> l2_idx va = j \<and> l3_idx va = k
       then Some (next_table e OR va AND 0xFFF, attrs_of e) else translate s va)"
    and "block_at s' va = block_at s va"
proof -
  have rd: "rd_pte (ram s') (u, l) = (if (u, l) = (n, k) then e else rd_pte (ram s) (u, l))"
    if "\<rho> u = Some r'" "unat l < 512" for u l r'
    using ptes.rd_wr pte_valid_tree [OF tree] n that by (auto simp: s'_def)
  have root: "root_table s' = root_table s" by (simp add: s'_def)
  note roles = walk_roles(1) [OF tree] walk_roles(2,3) [OF tree, of va]
  have r1: "rd_pte (ram s') (root_table s, l1_idx va) = rd_pte (ram s) (root_table s, l1_idx va)"
    using rd [OF roles(1) idx_lt(1)] roles(1) n(1) by auto
  let ?e1 = "rd_pte (ram s) (root_table s, l1_idx va)"
  let ?e2 = "rd_pte (ram s) (next_table ?e1, l2_idx va)"
  have r2: "rd_pte (ram s') (next_table ?e1, l2_idx va) = ?e2" if "is_table ?e1"
    using rd [OF roles(2) [OF that] idx_lt(2)] roles(2) [OF that] n(1) by auto
  show "block_at s' va = block_at s va"
    by (auto simp: block_at_def root r1 r2)
  have r3: "rd_pte (ram s') (next_table ?e2, l3_idx va) =
      (if next_table ?e2 = n \<and> l3_idx va = k then e else rd_pte (ram s) (next_table ?e2, l3_idx va))"
    if "is_table ?e1" "is_table ?e2"
    using rd [OF roles(3) [OF that] idx_lt(3)] by auto
  show "translate s' va =
      (if l1_idx va = i \<and> l2_idx va = j \<and> l3_idx va = k
       then Some (next_table e OR va AND 0xFFF, attrs_of e) else translate s va)"
  proof (cases "is_table ?e1 \<and> is_table ?e2")
    case True
    then have "next_table ?e2 = n \<longleftrightarrow> l1_idx va = i \<and> l2_idx va = j"
      using roles(3) n(1) e2(2) by (metis option.inject role.inject(2))
    moreover from True have t: "is_table ?e1" "is_table ?e2" "\<not> is_block ?e1" "\<not> is_block ?e2"
      using is_table_valid(3) by blast+
    ultimately show ?thesis
      using e unfolding translate_def walk_def Let_def root r1 r2 [OF t(1)] r3 [OF t(1,2)]
      by (simp only: t if_True if_False) (simp split: if_splits)
  next
    case False
    then have "\<not> (l1_idx va = i \<and> l2_idx va = j)" using e1 e2 by auto
    moreover have "translate s' va = translate s va"
      using False r1 r2 by (auto simp: translate_def walk_def Let_def root)
    ultimately show ?thesis by auto
  qed
qed

lemma block_write_translate:
  assumes tree: "table_tree \<rho> s" and n: "\<rho> n = Some (Level2 i)" "unat j < 512" and e: "is_block e"
    and e1: "is_table (rd_pte (ram s) (root_table s, i))"
      "next_table (rd_pte (ram s) (root_table s, i)) = n"
  defines "s' \<equiv> s\<lparr>ram := wr_pte (ram s) (n, j) e\<rparr>"
  shows "translate s' va =
      (if l1_idx va = i \<and> l2_idx va = j
       then Some (e AND 0x0000FFFFFFE00000 OR va AND 0x1FFFFF, attrs_of e) else translate s va)"
    and "block_at s' va \<longleftrightarrow> l1_idx va = i \<and> l2_idx va = j \<or> block_at s va"
proof -
  have rd: "rd_pte (ram s') (u, l) = (if (u, l) = (n, j) then e else rd_pte (ram s) (u, l))"
    if "\<rho> u = Some r'" "unat l < 512" for u l r'
    using ptes.rd_wr pte_valid_tree [OF tree] n that by (auto simp: s'_def)
  have root: "root_table s' = root_table s" by (simp add: s'_def)
  note roles = walk_roles(1) [OF tree] walk_roles(2,3) [OF tree, of va]
  have r1: "rd_pte (ram s') (root_table s, l1_idx va) = rd_pte (ram s) (root_table s, l1_idx va)"
    using rd [OF roles(1) idx_lt(1)] roles(1) n(1) by auto
  let ?e1 = "rd_pte (ram s) (root_table s, l1_idx va)"
  let ?e2 = "rd_pte (ram s) (next_table ?e1, l2_idx va)"
  have r2: "rd_pte (ram s') (next_table ?e1, l2_idx va) =
      (if l1_idx va = i \<and> l2_idx va = j then e else ?e2)" if "is_table ?e1"
    using rd [OF roles(2) [OF that] idx_lt(2)] roles(2) [OF that] n(1) e1(2) by auto
  have r3: "rd_pte (ram s') (next_table ?e2, l3_idx va) = rd_pte (ram s) (next_table ?e2, l3_idx va)"
    if "is_table ?e1" "is_table ?e2"
    using rd [OF roles(3) [OF that] idx_lt(3)] roles(3) [OF that] n(1) by auto
  show "translate s' va =
      (if l1_idx va = i \<and> l2_idx va = j
       then Some (e AND 0x0000FFFFFFE00000 OR va AND 0x1FFFFF, attrs_of e) else translate s va)"
    using r1 r2 r3 e e1(1) by (auto simp: translate_def walk_def Let_def root dest: is_table_valid(3))
  show "block_at s' va \<longleftrightarrow> l1_idx va = i \<and> l2_idx va = j \<or> block_at s va"
    using r1 r2 e e1(1) by (auto simp: block_at_def root split: if_splits)
qed

text \<open>What every mapping operation leaves as it was.\<close>

definition keeps_root :: "vmm \<Rightarrow> vmm \<Rightarrow> bool" where
  "keeps_root s s' \<longleftrightarrow>
     root_table s' = root_table s \<and> vmm_regs s' = vmm_regs s \<and> phy_ram_size (frames s') = phy_ram_size (frames s) \<and>
     avail_frames (frames s') \<subseteq> avail_frames (frames s)"

lemma keeps_root_refl [simp]: "keeps_root s s"
  by (simp add: keeps_root_def)

lemma keeps_root_trans: "keeps_root s s' \<Longrightarrow> keeps_root s' s'' \<Longrightarrow> keeps_root s s''"
  by (auto simp: keeps_root_def)

lemma grows_keeps_root: "grows \<rho> s s' \<Longrightarrow> keeps_root s s'"
  by (simp add: grows_def keeps_root_def)

lemma block_at_of_tree:
  assumes "table_tree \<rho> s" "is_table (rd_pte (ram s) (root_table s, l1_idx va))"
    "next_table (rd_pte (ram s) (root_table s, l1_idx va)) = n" "\<not> block_at s va"
  shows "\<not> is_block (rd_pte (ram s) (n, l2_idx va))"
  using assms by (auto simp: block_at_def)

section \<open>Mapping a page, a block, a region\<close>

text \<open>The tables that the way to a page or a block still lacks.\<close>

definition level2_missing :: "vmm \<Rightarrow> u64 \<Rightarrow> nat" where
  "level2_missing s virt = (if is_valid (rd_pte (ram s) (root_table s, l1_idx virt)) then 0 else 1)"

definition tables_missing :: "vmm \<Rightarrow> u64 \<Rightarrow> nat" where
  "tables_missing s virt =
     (let e = rd_pte (ram s) (root_table s, l1_idx virt)
      in if \<not> is_valid e then 2 else if is_valid (rd_pte (ram s) (next_table e, l2_idx virt)) then 0 else 1)"

lemma missing_le: "level2_missing s virt \<le> 1" "tables_missing s virt \<le> 2"
  by (simp_all add: level2_missing_def tables_missing_def Let_def)

text \<open>The two steps down the tree that \<open>vmm_map_page\<close> makes.\<close>

lemma map_page_cases:
  assumes tree: "table_tree \<rho> s" and nb: "\<not> block_at s virt"
  obtains (full) "vmm_map_page virt phys flags s = None" "card (avail_frames (frames s)) < tables_missing s virt"
  | (ok) n s' \<rho>' where
      "vmm_map_page virt phys flags s =
         Some (s'\<lparr>ram := wr_pte (ram s') (n, l3_idx virt) (page_entry phys flags)\<rparr>)"
      "table_tree \<rho>' s'" "keeps_root s s'" "\<rho>' n = Some (Level3 (l1_idx virt) (l2_idx virt))"
      "is_table (rd_pte (ram s') (root_table s', l1_idx virt))"
      "is_table (rd_pte (ram s') (next_table (rd_pte (ram s') (root_table s', l1_idx virt)), l2_idx virt))"
      "next_table (rd_pte (ram s')
         (next_table (rd_pte (ram s') (root_table s', l1_idx virt)), l2_idx virt)) = n"
      "\<And>va. translate s' va = translate s va" "\<And>va. block_at s' va = block_at s va"
      "card (avail_frames (frames s)) = card (avail_frames (frames s')) + tables_missing s virt"
proof -
  let ?e = "rd_pte (ram s) (root_table s, l1_idx virt)"
  show thesis
    using tree walk_roles(1) [OF tree] interior_inner(1) idx_lt(1) [of virt]
      table_treeD(6) [OF tree idx_lt(1) [of virt]]
  proof (cases rule: get_next_table_ok)
    case 1: full
    then have "vmm_map_page virt phys flags s = None" by (simp add: vmm_map_page_def)
    then show thesis using full 1(2,3) by (simp add: tables_missing_def)
  next
    case 1: (ok n1 s1 \<rho>1)
    note g1 = 1(8) and same1 = grows_translate [OF tree 1(8)]
    have r1: "root_table s1 = root_table s" by (rule growsD(1) [OF g1])
    let ?f = "rd_pte (ram s1) (n1, l2_idx virt)"
    have missing: "card (avail_frames (frames s)) + (if is_valid ?f then 0 else 1) =
        card (avail_frames (frames s1)) + tables_missing s virt"
    proof (cases "is_valid ?e")
      case True
      then have "s1 = s" "next_table ?e = n1" using 1(7,9) by simp_all
      then show ?thesis using True by (simp add: tables_missing_def)
    next
      case False
      then have "?f = 0" using 1(9) by simp
      then show ?thesis using False 1(9) not_valid_zero(1) by (simp add: tables_missing_def)
    qed
    have "\<not> is_block ?f"
      using block_at_of_tree [OF 1(3)] 1(6,7) r1 nb same1(2) by simp
    with 1(3) 1(5) [unfolded child.simps] interior_inner(2) idx_lt(2) [of virt] show thesis
    proof (cases rule: get_next_table_ok)
      case 2: full
      then have "vmm_map_page virt phys flags s = None" using 1 by (simp add: vmm_map_page_def)
      moreover have "card (avail_frames (frames s)) < tables_missing s virt" using missing 2(2,3) by simp
      ultimately show thesis by (rule full)
    next
      case 2: (ok n2 s2 \<rho>2)
      note g2 = 2(8) and same2 = grows_translate [OF 1(3) 2(8)]
      have r2: "root_table s2 = root_table s1" by (rule growsD(1) [OF g2])
      have "rd_pte (ram s2) (root_table s, l1_idx virt) = rd_pte (ram s1) (root_table s, l1_idx virt)"
        using growsD(5) [OF g2 walk_roles(1) [OF 1(3)] idx_lt(1)] 1(6) is_table_valid(1) r1 by auto
      then have e: "is_table (rd_pte (ram s2) (root_table s2, l1_idx virt))"
        "next_table (rd_pte (ram s2) (root_table s2, l1_idx virt)) = n1"
        using 1(6,7) r1 r2 by simp_all
      have "vmm_map_page virt phys flags s =
          Some (s2\<lparr>ram := wr_pte (ram s2) (n2, l3_idx virt) (page_entry phys flags)\<rparr>)"
        using 1(1,2) 2(1,2) by (simp add: vmm_map_page_def wr_pte_def)
      moreover have "keeps_root s s2"
        using keeps_root_trans [OF grows_keeps_root [OF g1] grows_keeps_root [OF g2]] .
      moreover have "card (avail_frames (frames s)) = card (avail_frames (frames s2)) + tables_missing s virt"
        using missing 2(9) by (simp split: if_splits)
      ultimately show thesis
        using ok [OF _ 2(3)] 2(5,6,7) e same1 same2 by simp
    qed
  qed
qed

lemma map_page_ok:
  assumes tree: "table_tree \<rho> s" and pa: "pa_ok 12 phys" and nb: "\<not> block_at s virt"
  shows "if tables_missing s virt \<le> card (avail_frames (frames s))
    then \<exists>s' \<rho>'. vmm_map_page virt phys flags s = Some s' \<and> table_tree \<rho>' s' \<and> keeps_root s s' \<and>
      (\<forall>va. block_at s' va = block_at s va) \<and>
      card (avail_frames (frames s)) = card (avail_frames (frames s')) + tables_missing s virt \<and>
      (\<forall>va. translate s' va =
        (if vpn va = vpn virt then Some (phys + (va AND 0xFFF), attr_bits flags) else translate s va))
    else vmm_map_page virt phys flags s = None"
  using tree nb
proof (cases rule: map_page_cases [where phys = phys and flags = flags])
  case full
  then show ?thesis by simp
next
  case (ok n s' \<rho>')
  let ?e = "page_entry phys flags"
  let ?s = "s'\<lparr>ram := wr_pte (ram s') (n, l3_idx virt) ?e\<rparr>"
  note d = page_descriptor [OF pa, of flags]
  note w = page_write_translate [OF ok(2,4) idx_lt(3) [of virt] d(1) ok(5,6,7)]
  have "table_tree \<rho>' ?s" by (rule write_leaf_tree [OF ok(2,4) idx_lt(3)]) simp
  moreover have "keeps_root s ?s" using ok(3) by (simp add: keeps_root_def)
  moreover have "block_at ?s va = block_at s va" for va using w(2) ok(9) by simp
  moreover have "translate ?s va =
      (if vpn va = vpn virt then Some (phys + (va AND 0xFFF), attr_bits flags) else translate s va)" for va
    using w(1) [of va] ok(8) or_offset(1) [OF pa] unfolding d(2,3) vpn_eq_iff by simp
  moreover have "card (avail_frames (frames s)) = card (avail_frames (frames ?s)) + tables_missing s virt"
    using ok(10) by simp
  moreover have "tables_missing s virt \<le> card (avail_frames (frames s))" using ok(10) by simp
  ultimately show ?thesis using ok(1) by auto
qed

lemma map_block_ok:
  assumes tree: "table_tree \<rho> s" and pa: "pa_ok 21 phys"
  shows "if level2_missing s virt \<le> card (avail_frames (frames s))
    then \<exists>s' \<rho>'. vmm_map_block virt phys flags s = Some s' \<and> table_tree \<rho>' s' \<and> keeps_root s s' \<and>
      (\<forall>va. vbn va \<noteq> vbn virt \<longrightarrow> block_at s' va = block_at s va) \<and>
      card (avail_frames (frames s)) = card (avail_frames (frames s')) + level2_missing s virt \<and>
      block_at s' virt \<and> (\<forall>va. translate s' va =
        (if vbn va = vbn virt then Some (phys + (va AND 0x1FFFFF), attr_bits flags) else translate s va))
    else vmm_map_block virt phys flags s = None"
  using tree walk_roles(1) [OF tree] interior_inner(1) idx_lt(1) [of virt]
    table_treeD(6) [OF tree idx_lt(1) [of virt]]
proof (cases rule: get_next_table_ok)
  case full
  then show ?thesis by (simp add: vmm_map_block_def level2_missing_def)
next
  case (ok n s' \<rho>')
  let ?e = "block_entry phys flags"
  let ?s = "s'\<lparr>ram := wr_pte (ram s') (n, l2_idx virt) ?e\<rparr>"
  note d = block_descriptor [OF pa, of flags] and same = grows_translate [OF tree ok(8)]
  have r: "root_table s' = root_table s" by (rule growsD(1) [OF ok(8)])
  have n: "\<rho>' n = Some (Level2 (l1_idx virt))" using ok(5) by simp
  note w = block_write_translate [OF ok(3) n idx_lt(2) [of virt] d(1) ok(6,7) [folded r]]
  have "table_tree \<rho>' ?s" by (rule write_leaf_tree [OF ok(3) n idx_lt(2)]) (simp add: d(2))
  moreover have "keeps_root s ?s" using grows_keeps_root [OF ok(8)] by (simp add: keeps_root_def)
  moreover have "vbn va \<noteq> vbn virt \<longrightarrow> block_at ?s va = block_at s va" "block_at ?s virt" for va
    using w(2) same(2) by (auto simp: vbn_eq_iff)
  moreover have "translate ?s va =
      (if vbn va = vbn virt then Some (phys + (va AND 0x1FFFFF), attr_bits flags) else translate s va)" for va
    using w(1) [of va] same(1) or_offset(2) [OF pa] unfolding d(3,4) vbn_eq_iff by simp
  moreover have "vmm_map_block virt phys flags s = Some ?s"
    using ok(1,2) by (simp add: vmm_map_block_def wr_pte_def)
  moreover have c: "card (avail_frames (frames s)) = card (avail_frames (frames ?s)) + level2_missing s virt"
    using ok(9) by (simp add: level2_missing_def split: if_splits)
  moreover have "level2_missing s virt \<le> card (avail_frames (frames s))" using c by simp
  ultimately show ?thesis by auto
qed

text \<open>Pages and blocks of 39-bit addresses as intervals.\<close>

lemma slot_interval:
  fixes va v :: u64
  assumes "unat va < 2 ^ 39" "unat v < 2 ^ 39" "2 ^ k dvd unat v" "k \<le> 39"
  shows "take_bit (39 - k) (drop_bit k va) = take_bit (39 - k) (drop_bit k v) \<longleftrightarrow>
    unat v \<le> unat va \<and> unat va < unat v + 2 ^ k"
proof -
  have slot: "unat (take_bit (39 - k) (drop_bit k x)) = unat x div 2 ^ k" if "unat x < 2 ^ 39" for x :: u64
  proof -
    have "unat x div 2 ^ k < 2 ^ (39 - k)"
      using that assms(4) by (simp add: less_mult_imp_div_less flip: power_add)
    moreover have "take_bit LENGTH(64) (unat x) = unat x"
      by (rule take_bit_nat_eq_self) (rule unsigned_less)
    ultimately show ?thesis
      by (simp only: unsigned_take_bit_eq unsigned_drop_bit_eq take_bit_nat_eq_self
          drop_bit_eq_div [where ?'a = nat])
  qed
  obtain q where q: "unat v = 2 ^ k * q" using assms(3) by (auto elim: dvdE)
  have "unat va div 2 ^ k = q \<longleftrightarrow> 2 ^ k * q \<le> unat va \<and> unat va < 2 ^ k * q + 2 ^ k"
    by (metis add.commute div_nat_eqI dividend_less_times_div mult.commute mult_Suc
        nonzero_mult_div_cancel_left times_div_less_eq_dividend zero_less_numeral zero_less_power)
  then show ?thesis
    using assms(1,2) by (simp add: word_unat_eq_iff slot q)
qed

lemma slot_offset:
  fixes va v :: u64
  assumes "2 ^ k dvd unat v" "unat v \<le> unat va" "unat va < unat v + 2 ^ k" "k < 64"
  shows "va AND mask k = va - v"
proof -
  obtain q where q: "unat v = 2 ^ k * q" using assms(1) by (auto elim: dvdE)
  obtain r where r: "unat va = 2 ^ k * q + r" "r < 2 ^ k"
    using assms(2,3) q by (metis le_iff_add nat_add_left_cancel_less)
  have "unat (va AND mask k) = unat va mod 2 ^ k"
    by (simp only: take_bit_eq_mask [symmetric] unsigned_take_bit_eq take_bit_eq_mod [where ?'a = nat])
  moreover have "unat (va - v) = unat va - unat v"
    using assms(2) by (simp add: unat_sub_no_wrap word_le_nat_alt)
  ultimately show ?thesis using q r by (simp add: word_unat_eq_iff)
qed

lemma vpn_interval:
  "unat va < 2 ^ 39 \<Longrightarrow> unat v < 2 ^ 39 \<Longrightarrow> 4096 dvd unat v \<Longrightarrow>
   vpn va = vpn v \<longleftrightarrow> unat v \<le> unat va \<and> unat va < unat v + 4096"
  using slot_interval [of va v 12] by (simp add: vpn_def)

lemma vbn_interval:
  "unat va < 2 ^ 39 \<Longrightarrow> unat v < 2 ^ 39 \<Longrightarrow> 2097152 dvd unat v \<Longrightarrow>
   vbn va = vbn v \<longleftrightarrow> unat v \<le> unat va \<and> unat va < unat v + 2097152"
  using slot_interval [of va v 21] by (simp add: vbn_def)

text \<open>The number of bytes that \<open>vmm_map_region\<close> covers: the size rounded up to pages.\<close>

definition page_ceil :: "nat \<Rightarrow> nat" where
  "page_ceil n = (n + 4095) div 4096 * 4096"

lemma page_ceil_props: "n \<le> page_ceil n" "page_ceil n < n + 4096" "4096 dvd page_ceil n"
  unfolding page_ceil_def by (simp_all, linarith?)

lemma page_ceil_le: "4096 dvd m \<Longrightarrow> n \<le> m \<Longrightarrow> page_ceil n \<le> m"
  unfolding page_ceil_def by (auto elim!: dvdE)

text \<open>The addresses of a region, as an interval of numbers.\<close>

definition in_region :: "u64 \<Rightarrow> nat \<Rightarrow> nat \<Rightarrow> u64 \<Rightarrow> bool" where
  "in_region virt lo hi va \<longleftrightarrow> unat virt + lo \<le> unat va \<and> unat va < unat virt + hi"

text \<open>A region that the tables can describe.\<close>

definition region_ok :: "u64 \<Rightarrow> u64 \<Rightarrow> u64 \<Rightarrow> bool" where
  "region_ok virt phys sz \<longleftrightarrow>
     4096 dvd unat virt \<and> 4096 dvd unat phys \<and>
     unat virt + page_ceil (unat sz) \<le> 2 ^ 39 \<and> unat phys + page_ceil (unat sz) \<le> 2 ^ 48"

lemma region_offset:
  assumes "region_ok virt phys sz" "unat mapped < page_ceil (unat sz)"
  shows "unat (virt + mapped) = unat virt + unat mapped" "unat (phys + mapped) = unat phys + unat mapped"
    "unat (virt + mapped) < 2 ^ 39" "unat (phys + mapped) < 2 ^ 48"
  using assms unat_add_no_wrap [of virt mapped] unat_add_no_wrap [of phys mapped]
  by (simp_all add: region_ok_def)

lemma block_aligned_iff: "(x :: u64) mod BLOCK_SIZE = 0 \<longleftrightarrow> 2097152 dvd unat x"
proof -
  have "unat (x mod BLOCK_SIZE) = unat x mod 2097152" by (simp add: unat_mod_distrib)
  then show ?thesis by (metis dvd_eq_mod_eq_0 unat_eq_zero)
qed

text \<open>
  When a region may be mapped over existing 2 MB blocks: only over those that it covers as blocks
  itself, since \<open>vmm_map_page\<close> cannot split a block.
\<close>

definition block_base :: "nat \<Rightarrow> nat" where
  "block_base a = a div 2097152 * 2097152"

definition fits_block :: "u64 \<Rightarrow> u64 \<Rightarrow> u64 \<Rightarrow> nat \<Rightarrow> bool" where
  "fits_block virt phys sz a \<longleftrightarrow>
     unat virt mod 2097152 = unat phys mod 2097152 \<and>
     unat virt \<le> block_base a \<and> block_base a + 2097152 \<le> unat virt + unat sz"

definition blocks_replaceable :: "u64 \<Rightarrow> u64 \<Rightarrow> u64 \<Rightarrow> nat \<Rightarrow> vmm \<Rightarrow> bool" where
  "blocks_replaceable virt phys sz lo s \<longleftrightarrow>
     (\<forall>va. in_region virt lo (page_ceil (unat sz)) va \<and> block_at s va \<longrightarrow> fits_block virt phys sz (unat va))"

text \<open>The test of the loop, on numbers, and the frames that its rounds may take for new tables.\<close>

definition takes_block :: "u64 \<Rightarrow> u64 \<Rightarrow> u64 \<Rightarrow> nat \<Rightarrow> bool" where
  "takes_block virt phys sz m \<longleftrightarrow>
     2097152 dvd unat virt + m \<and> 2097152 dvd unat phys + m \<and> m + 2097152 \<le> unat sz"

function region_cost :: "u64 \<Rightarrow> u64 \<Rightarrow> u64 \<Rightarrow> nat \<Rightarrow> nat" where
  "region_cost virt phys sz m =
     (if m < unat sz then
        if takes_block virt phys sz m then 1 + region_cost virt phys sz (m + 2097152)
        else 2 + region_cost virt phys sz (m + 4096)
      else 0)"
  by pat_completeness auto
termination
  by (relation "measure (\<lambda>(virt, phys, sz, m). unat sz - m)") auto

declare region_cost.simps [simp del]

text \<open>
  The outcome of mapping the part \<open>[lo, hi)\<close> of a region: everything outside is as before,
  everything inside is mapped at its offset; at most \<open>c\<close> frames are taken.
\<close>

definition region_result :: "u64 \<Rightarrow> u64 \<Rightarrow> u64 \<Rightarrow> u64 \<Rightarrow> nat \<Rightarrow> nat \<Rightarrow> nat \<Rightarrow> vmm \<Rightarrow> vmm \<Rightarrow> bool" where
  "region_result virt phys sz flags lo hi c s s' \<longleftrightarrow>
     vmm_wf s' \<and> keeps_root s s' \<and> card (avail_frames (frames s)) \<le> card (avail_frames (frames s')) + c \<and>
     (\<forall>va. unat va < 2 ^ 39 \<and> \<not> in_region virt lo hi va \<longrightarrow>
        translate s' va = translate s va \<and> block_at s' va = block_at s va) \<and>
     (\<forall>va. unat va < 2 ^ 39 \<and> block_at s' va \<longrightarrow> block_at s va \<or> fits_block virt phys sz (unat va)) \<and>
     (\<forall>va. in_region virt lo hi va \<longrightarrow> translate s' va = Some (phys + (va - virt), attr_bits flags))"

lemma region_result_empty: "vmm_wf s \<Longrightarrow> hi \<le> lo \<Longrightarrow> region_result virt phys sz flags lo hi 0 s s"
  by (auto simp: region_result_def in_region_def)

lemma region_result_append:
  assumes a: "region_result virt phys sz flags lo mid c s s1" and b: "region_result virt phys sz flags mid hi d s1 s2"
    and "lo \<le> mid" "mid \<le> hi" "unat virt + hi \<le> 2 ^ 39"
  shows "region_result virt phys sz flags lo hi (c + d) s s2"
  unfolding region_result_def
proof (intro conjI allI impI)
  show "vmm_wf s2" using b by (simp add: region_result_def)
  show "keeps_root s s2" using a b keeps_root_trans unfolding region_result_def by blast
  show "card (avail_frames (frames s)) \<le> card (avail_frames (frames s2)) + (c + d)"
    using a b by (simp add: region_result_def)
  fix va
  assume "unat va < 2 ^ 39 \<and> \<not> in_region virt lo hi va"
  then have "unat va < 2 ^ 39" "\<not> in_region virt lo mid va" "\<not> in_region virt mid hi va"
    using assms(3,4) by (auto simp: in_region_def)
  then show "translate s2 va = translate s va" "block_at s2 va = block_at s va"
    using a b by (simp_all add: region_result_def)
next
  fix va
  assume "unat va < 2 ^ 39 \<and> block_at s2 va"
  then show "block_at s va \<or> fits_block virt phys sz (unat va)"
    using a b unfolding region_result_def by blast
next
  fix va
  assume va: "in_region virt lo hi va"
  have "unat va < 2 ^ 39" using va assms(5) by (simp add: in_region_def)
  moreover have "in_region virt lo mid va \<or> in_region virt mid hi va"
    using va by (auto simp: in_region_def)
  ultimately show "translate s2 va = Some (phys + (va - virt), attr_bits flags)"
    using a b by (cases "in_region virt mid hi va") (simp_all add: region_result_def)
qed

text \<open>One round of the loop.\<close>

lemma offset_in_region:
  fixes va virt phys mapped :: u64
  shows "phys + mapped + (va - (virt + mapped)) = phys + (va - virt)"
  by simp

lemma region_page_step:
  assumes wf: "vmm_wf s" and reg: "region_ok virt phys sz" and m: "unat mapped < page_ceil (unat sz)"
    "4096 dvd unat mapped" and nb: "\<not> block_at s (virt + mapped)"
  shows "vmm_map_page (virt + mapped) (phys + mapped) flags s = Some s' \<Longrightarrow>
      region_result virt phys sz flags (unat mapped) (unat mapped + 4096) 2 s s'"
    "2 \<le> card (avail_frames (frames s)) \<Longrightarrow> \<exists>s'. vmm_map_page (virt + mapped) (phys + mapped) flags s = Some s'"
proof -
  note off = region_offset [OF reg m(1)]
  have al: "4096 dvd unat (virt + mapped)" "4096 dvd unat (phys + mapped)"
    using reg m(2) by (simp_all add: off region_ok_def)
  then have pa: "pa_ok 12 (phys + mapped)" using off(4) by (simp add: pa_ok_def)
  have slot: "vpn va = vpn (virt + mapped) \<longleftrightarrow> in_region virt (unat mapped) (unat mapped + 4096) va"
    if "unat va < 2 ^ 39" for va
    using vpn_interval [OF that off(3) al(1)] by (simp add: in_region_def off(1) add.assoc)
  have room: "unat va < 2 ^ 39" if "in_region virt (unat mapped) (unat mapped + 4096) va" for va
  proof -
    have "unat mapped + 4096 \<le> page_ceil (unat sz)"
      using m page_ceil_props(3) [of "unat sz"] by (auto elim!: dvdE)
    then show ?thesis using that reg by (simp add: in_region_def region_ok_def)
  qed
  have val: "phys + mapped + (va AND 0xFFF) = phys + (va - virt)"
    if "in_region virt (unat mapped) (unat mapped + 4096) va" for va
    using slot_offset [of 12 "virt + mapped" va] al(1) that offset_in_region [of phys mapped va virt]
    unfolding mask12 by (simp add: in_region_def off(1) add.assoc)
  from wf obtain \<rho> where "table_tree \<rho> s" by (auto simp: vmm_wf_def)
  note ok = map_page_ok [OF this pa nb, of flags]
  show "\<exists>s'. vmm_map_page (virt + mapped) (phys + mapped) flags s = Some s'" if "2 \<le> card (avail_frames (frames s))"
    using ok that missing_le(2) [of s "virt + mapped"] by (auto split: if_splits)
  assume "vmm_map_page (virt + mapped) (phys + mapped) flags s = Some s'"
  with ok obtain \<rho>' where
    s': "table_tree \<rho>' s'" "keeps_root s s'" "\<And>va. block_at s' va = block_at s va"
      "card (avail_frames (frames s)) = card (avail_frames (frames s')) + tables_missing s (virt + mapped)"
      "\<And>va. translate s' va = (if vpn va = vpn (virt + mapped)
          then Some (phys + mapped + (va AND 0xFFF), attr_bits flags) else translate s va)"
    by (auto split: if_splits)
  show "region_result virt phys sz flags (unat mapped) (unat mapped + 4096) 2 s s'"
    unfolding region_result_def using s' slot room val missing_le(2) [of s "virt + mapped"] by (auto simp: vmm_wf_def)
qed

lemma dvd_add_mod_eq:
  fixes a b c n :: nat
  assumes "n dvd a + c" "n dvd b + c"
  shows "a mod n = b mod n"
proof -
  have "int n dvd int (a + c) - int (b + c)"
    using assms by (intro dvd_diff) (simp_all only: int_dvd_int_iff)
  then have "int a mod int n = int b mod int n" by (simp add: mod_eq_dvd_iff)
  then show ?thesis by (metis of_nat_eq_iff of_nat_mod)
qed

lemma region_block_step:
  assumes wf: "vmm_wf s" and reg: "region_ok virt phys sz" and m: "unat mapped + 2097152 \<le> unat sz"
    and al: "2097152 dvd unat (virt + mapped)" "2097152 dvd unat (phys + mapped)"
  shows "vmm_map_block (virt + mapped) (phys + mapped) flags s = Some s' \<Longrightarrow>
      region_result virt phys sz flags (unat mapped) (unat mapped + 2097152) 1 s s'"
    "1 \<le> card (avail_frames (frames s)) \<Longrightarrow> \<exists>s'. vmm_map_block (virt + mapped) (phys + mapped) flags s = Some s'"
proof -
  have m': "unat mapped < page_ceil (unat sz)" "unat mapped + 2097152 \<le> page_ceil (unat sz)"
    using m page_ceil_props(1) [of "unat sz"] by simp_all
  note off = region_offset [OF reg m'(1)]
  have fits: "fits_block virt phys sz (unat va)"
    if va: "in_region virt (unat mapped) (unat mapped + 2097152) va" for va
  proof -
    have "block_base (unat va) = unat virt + unat mapped"
    proof -
      obtain q where "unat virt + unat mapped = 2097152 * q" using al(1) off(1) by (auto elim: dvdE)
      moreover obtain r where "unat va = unat virt + unat mapped + r" "r < 2097152"
        using va le_Suc_ex [of "unat virt + unat mapped" "unat va"] by (auto simp: in_region_def)
      ultimately show ?thesis by (simp add: block_base_def)
    qed
    then show ?thesis
      using m dvd_add_mod_eq [of 2097152 "unat virt" "unat mapped" "unat phys"] al off(1,2)
      by (simp add: fits_block_def)
  qed
  have pa: "pa_ok 21 (phys + mapped)" using off(4) al(2) by (simp add: pa_ok_def)
  have slot: "vbn va = vbn (virt + mapped) \<longleftrightarrow> in_region virt (unat mapped) (unat mapped + 2097152) va"
    if "unat va < 2 ^ 39" for va
    using vbn_interval [OF that off(3) al(1)] by (simp add: in_region_def off(1) add.assoc)
  have room: "unat va < 2 ^ 39" if "in_region virt (unat mapped) (unat mapped + 2097152) va" for va
    using that reg m' by (simp add: in_region_def region_ok_def)
  have val: "phys + mapped + (va AND 0x1FFFFF) = phys + (va - virt)"
    if "in_region virt (unat mapped) (unat mapped + 2097152) va" for va
    using slot_offset [of 21 "virt + mapped" va] al(1) that offset_in_region [of phys mapped va virt]
    unfolding mask21 by (simp add: in_region_def off(1) add.assoc)
  from wf obtain \<rho> where "table_tree \<rho> s" by (auto simp: vmm_wf_def)
  note ok = map_block_ok [OF this pa, of "virt + mapped" flags]
  show "\<exists>s'. vmm_map_block (virt + mapped) (phys + mapped) flags s = Some s'" if "1 \<le> card (avail_frames (frames s))"
    using ok that missing_le(1) [of s "virt + mapped"] by (auto split: if_splits)
  assume "vmm_map_block (virt + mapped) (phys + mapped) flags s = Some s'"
  with ok obtain \<rho>' where
    s': "table_tree \<rho>' s'" "keeps_root s s'"
      "\<And>va. vbn va \<noteq> vbn (virt + mapped) \<Longrightarrow> block_at s' va = block_at s va"
      "card (avail_frames (frames s)) = card (avail_frames (frames s')) + level2_missing s (virt + mapped)"
      "\<And>va. translate s' va = (if vbn va = vbn (virt + mapped)
          then Some (phys + mapped + (va AND 0x1FFFFF), attr_bits flags) else translate s va)"
    by (auto split: if_splits)
  show "region_result virt phys sz flags (unat mapped) (unat mapped + 2097152) 1 s s'"
    unfolding region_result_def
  proof (intro conjI allI impI)
    show "vmm_wf s'" "keeps_root s s'" using s'(1,2) by (auto simp: vmm_wf_def)
    show "card (avail_frames (frames s)) \<le> card (avail_frames (frames s')) + 1"
      using s'(4) missing_le(1) [of s "virt + mapped"] by simp
    fix va
    assume "unat va < 2 ^ 39 \<and> \<not> in_region virt (unat mapped) (unat mapped + 2097152) va"
    then show "translate s' va = translate s va" "block_at s' va = block_at s va"
      using s'(3,5) slot by auto
  next
    fix va
    assume "unat va < 2 ^ 39 \<and> block_at s' va"
    then show "block_at s va \<or> fits_block virt phys sz (unat va)" using s'(3) slot fits by blast
  next
    fix va
    assume "in_region virt (unat mapped) (unat mapped + 2097152) va"
    then show "translate s' va = Some (phys + (va - virt), attr_bits flags)"
      using s'(5) slot room val by auto
  qed
qed

lemma block_base_aligned: "2097152 dvd a \<Longrightarrow> block_base a = a"
  by (simp add: block_base_def)

lemma block_base_step:
  assumes "4096 dvd a" "\<not> 2097152 dvd a + 4096"
  shows "block_base (a + 4096) = block_base a"
proof -
  obtain q where q: "a = 4096 * q" using assms(1) by (auto elim: dvdE)
  have "\<not> 512 dvd q + 1"
  proof
    assume "512 dvd q + 1"
    then have "4096 * 512 dvd 4096 * (q + 1)" by (rule mult_dvd_mono [OF dvd_refl])
    moreover have "4096 * (q + 1) = a + 4096" "(4096 :: nat) * 512 = 2097152" by (simp_all add: q)
    ultimately show False using assms(2) by metis
  qed
  then have "(q + 1) div 512 = q div 512" by (simp add: div_Suc mod_eq_0_iff_dvd)
  moreover have "(4096 * x) div 2097152 = x div 512" for x :: nat
    using div_mult_mult1 [of 4096 x 512] by simp
  ultimately have "4096 * (q + 1) div 2097152 = 4096 * q div 2097152" by metis
  then show ?thesis by (simp add: block_base_def q)
qed

text \<open>Positions that the loop visits inside a block it can map are the start of the block.\<close>

definition aligned_visit :: "u64 \<Rightarrow> u64 \<Rightarrow> u64 \<Rightarrow> nat \<Rightarrow> bool" where
  "aligned_visit virt phys sz m \<longleftrightarrow>
     (fits_block virt phys sz (unat virt + m) \<longrightarrow> 2097152 dvd unat virt + m)"

lemma aligned_visit_start: "aligned_visit virt phys sz 0"
proof -
  have "2097152 dvd unat virt" if "unat virt \<le> block_base (unat virt)"
  proof -
    have "block_base (unat virt) \<le> unat virt" by (simp add: block_base_def)
    with that have "block_base (unat virt) = unat virt" by simp
    then show ?thesis unfolding block_base_def by (metis dvd_triv_right)
  qed
  then show ?thesis by (auto simp: aligned_visit_def fits_block_def)
qed

lemma visit_takes_block:
  assumes "aligned_visit virt phys sz m" "fits_block virt phys sz (unat virt + m)"
  shows "takes_block virt phys sz m"
proof -
  have al: "2097152 dvd unat virt + m" using assms by (simp add: aligned_visit_def)
  moreover have "unat virt mod 2097152 = unat phys mod 2097152" using assms(2) by (simp add: fits_block_def)
  then have "(unat virt + m) mod 2097152 = (unat phys + m) mod 2097152" by (metis mod_add_left_eq)
  ultimately have "2097152 dvd unat phys + m" by (simp add: dvd_eq_mod_eq_0)
  then show ?thesis using al assms(2) block_base_aligned [OF al] by (simp add: takes_block_def fits_block_def)
qed

lemma aligned_visit_page:
  assumes "aligned_visit virt phys sz m" "\<not> takes_block virt phys sz m" "4096 dvd unat virt + m"
  shows "aligned_visit virt phys sz (m + 4096)"
  unfolding aligned_visit_def
proof
  assume f: "fits_block virt phys sz (unat virt + (m + 4096))"
  show "2097152 dvd unat virt + (m + 4096)"
  proof (rule ccontr)
    assume "\<not> ?thesis"
    then have "block_base (unat virt + m + 4096) = block_base (unat virt + m)"
      using block_base_step [OF assms(3)] by (simp add: add.assoc)
    then have "fits_block virt phys sz (unat virt + m)" using f by (simp add: fits_block_def add.assoc)
    then show False using visit_takes_block [OF assms(1)] assms(2) by blast
  qed
qed

lemma aligned_visit_block:
  "takes_block virt phys sz m \<Longrightarrow> aligned_visit virt phys sz (m + 2097152)"
  using dvd_add [of 2097152 "unat virt + m" 2097152]
  by (simp add: aligned_visit_def takes_block_def add.assoc)

lemma map_region_loop_unfold:
  assumes reg: "region_ok virt phys sz" and m: "mapped < sz"
  shows "map_region_loop virt phys sz flags mapped s =
    (if takes_block virt phys sz (unat mapped)
     then Option.bind (vmm_map_block (virt + mapped) (phys + mapped) flags s)
            (map_region_loop virt phys sz flags (mapped + BLOCK_SIZE))
     else Option.bind (vmm_map_page (virt + mapped) (phys + mapped) flags s)
            (map_region_loop virt phys sz flags (mapped + PAGE_SIZE)))"
proof -
  have "unat mapped < page_ceil (unat sz)"
    using m page_ceil_props(1) [of "unat sz"] by (simp add: word_less_nat_alt)
  note off = region_offset [OF reg this]
  have "unat (sz - mapped) = unat sz - unat mapped" using m by (simp add: unat_sub_no_wrap)
  then have "BLOCK_SIZE \<le> sz - mapped \<longleftrightarrow> unat mapped + 2097152 \<le> unat sz"
    using m by (auto simp: word_le_nat_alt word_less_nat_alt)
  then show ?thesis
    using m unfolding map_region_loop.simps [of virt phys sz flags mapped] block_aligned_iff off(1,2)
      takes_block_def by simp
qed

text \<open>
  What the loop leaves when it returns, and how many frames are enough for it to return.
\<close>

definition region_run :: "u64 \<Rightarrow> u64 \<Rightarrow> u64 \<Rightarrow> u64 \<Rightarrow> nat \<Rightarrow> vmm \<Rightarrow> vmm option \<Rightarrow> bool" where
  "region_run virt phys sz flags lo s res \<longleftrightarrow>
     (\<forall>s'. res = Some s' \<longrightarrow> region_result virt phys sz flags lo (page_ceil (unat sz)) (region_cost virt phys sz lo) s s') \<and>
     (region_cost virt phys sz lo \<le> card (avail_frames (frames s)) \<longrightarrow> res \<noteq> None)"

text \<open>A round that takes at most \<open>c\<close> frames, followed by the rest of the loop.\<close>

lemma region_run_step:
  assumes first: "\<And>s1. res1 = Some s1 \<Longrightarrow> region_result virt phys sz flags lo mid c s s1"
      "c \<le> card (avail_frames (frames s)) \<Longrightarrow> \<exists>s1. res1 = Some s1"
    and rest: "\<And>s1. res1 = Some s1 \<Longrightarrow> region_run virt phys sz flags mid s1 (loop s1)"
    and cost: "region_cost virt phys sz lo = c + region_cost virt phys sz mid"
    and mid: "lo \<le> mid" "mid \<le> page_ceil (unat sz)" "unat virt + page_ceil (unat sz) \<le> 2 ^ 39"
  shows "region_run virt phys sz flags lo s (Option.bind res1 loop)"
proof (cases res1)
  case None
  then show ?thesis using first(2) cost by (auto simp: region_run_def)
next
  case (Some s1)
  note r = first(1) [OF Some] and l = rest [OF Some]
  have "card (avail_frames (frames s)) \<le> card (avail_frames (frames s1)) + c" using r by (simp add: region_result_def)
  then have "region_cost virt phys sz lo \<le> card (avail_frames (frames s)) \<longrightarrow> loop s1 \<noteq> None"
    using l cost by (simp add: region_run_def)
  moreover have "region_result virt phys sz flags lo (page_ceil (unat sz)) (region_cost virt phys sz lo) s s'"
    if "loop s1 = Some s'" for s'
    using region_result_append [OF r _ mid] l that unfolding region_run_def cost by blast
  ultimately show ?thesis using Some by (simp add: region_run_def)
qed

lemma map_region_loop_ok:
  assumes reg: "region_ok virt phys sz" and "vmm_wf s" "4096 dvd unat mapped"
    "unat mapped \<le> page_ceil (unat sz)" "aligned_visit virt phys sz (unat mapped)"
    "blocks_replaceable virt phys sz (unat mapped) s"
  shows "region_run virt phys sz flags (unat mapped) s (map_region_loop virt phys sz flags mapped s)"
  using assms(2-)
proof (induction "page_ceil (unat sz) - unat mapped" arbitrary: mapped s rule: less_induct)
  case less
  let ?up = "page_ceil (unat sz)"
  note up = page_ceil_props [of "unat sz"]
  show ?case
  proof (cases "mapped < sz")
    case False
    then have "?up \<le> unat mapped"
      using less.prems(2) page_ceil_le by (simp add: word_less_nat_alt)
    moreover have "region_cost virt phys sz (unat mapped) = 0"
      using False by (subst region_cost.simps) (simp add: word_less_nat_alt)
    ultimately show ?thesis
      using False region_result_empty [OF less.prems(1)] by (subst map_region_loop.simps) (simp add: region_run_def)
  next
    case True
    then have m: "unat mapped < ?up" using up(1) by (simp add: word_less_nat_alt)
    have bound: "unat sz + 4096 < 2 ^ 64" "unat virt + ?up \<le> 2 ^ 39" using reg up(1) by (auto simp: region_ok_def)
    have virt_m: "4096 dvd unat virt + unat mapped" using reg less.prems(2) by (simp add: region_ok_def)
    have step: "region_run virt phys sz flags (unat mapped + k) s1 (map_region_loop virt phys sz flags (mapped + w) s1)"
      if r: "region_result virt phys sz flags (unat mapped) (unat mapped + k) c s s1"
        and k: "unat w = k" "0 < k" "4096 dvd k" "unat mapped + k \<le> ?up"
        and v: "aligned_visit virt phys sz (unat mapped + k)" for s1 w k c
    proof -
      have w: "unat (mapped + w) = unat mapped + k"
        using k(1,4) bound unat_add_no_wrap [of mapped w] by simp
      have br: "blocks_replaceable virt phys sz (unat mapped + k) s1"
        unfolding blocks_replaceable_def
      proof (intro allI impI)
        fix va assume a: "in_region virt (unat mapped + k) ?up va \<and> block_at s1 va"
        then have "\<not> in_region virt (unat mapped) (unat mapped + k) va" "unat va < 2 ^ 39"
          "in_region virt (unat mapped) ?up va"
          using bound by (auto simp: in_region_def)
        then show "fits_block virt phys sz (unat va)"
          using r a less.prems(5) by (simp add: region_result_def blocks_replaceable_def)
      qed
      have "region_run virt phys sz flags (unat (mapped + w)) s1 (map_region_loop virt phys sz flags (mapped + w) s1)"
      proof (rule less.hyps)
        show "vmm_wf s1" using r by (simp add: region_result_def)
      qed (use w k v br m less.prems(2) in auto)
      then show ?thesis using w by simp
    qed
    show ?thesis
    proof (cases "takes_block virt phys sz (unat mapped)")
      case tb: True
      have room: "unat mapped + 2097152 \<le> ?up" "unat mapped + 2097152 \<le> unat sz"
        using tb up(1) by (simp_all add: takes_block_def)
      note off = region_offset [OF reg m]
      have "2097152 dvd unat (virt + mapped)" "2097152 dvd unat (phys + mapped)"
        using tb by (simp_all add: off takes_block_def)
      note round = region_block_step [OF less.prems(1) reg room(2) this, of flags]
      have "region_run virt phys sz flags (unat mapped) s
          (Option.bind (vmm_map_block (virt + mapped) (phys + mapped) flags s) (map_region_loop virt phys sz flags (mapped + BLOCK_SIZE)))"
      proof (rule region_run_step [OF round])
        fix s1 assume "vmm_map_block (virt + mapped) (phys + mapped) flags s = Some s1"
        then show "region_run virt phys sz flags (unat mapped + 2097152) s1 (map_region_loop virt phys sz flags (mapped + BLOCK_SIZE) s1)"
          using room aligned_visit_block [OF tb] by (intro step [OF round(1)]) simp_all
      next
        show "region_cost virt phys sz (unat mapped) = 1 + region_cost virt phys sz (unat mapped + 2097152)"
          using tb True by (subst region_cost.simps) (simp add: word_less_nat_alt)
      qed (use room bound in simp_all)
      then show ?thesis using tb map_region_loop_unfold [OF reg True] by simp
    next
      case tb: False
      have room: "unat mapped + 4096 \<le> ?up" using m less.prems(2) up(3) by (auto elim!: dvdE)
      have "\<not> block_at s (virt + mapped)"
      proof
        assume "block_at s (virt + mapped)"
        then have "fits_block virt phys sz (unat virt + unat mapped)"
          using less.prems(5) [unfolded blocks_replaceable_def, rule_format, of "virt + mapped"]
            region_offset(1) [OF reg m] m
          by (simp add: in_region_def)
        then show False using visit_takes_block [OF less.prems(4)] tb by blast
      qed
      note round = region_page_step [OF less.prems(1) reg m less.prems(2) this, of flags]
      have "region_run virt phys sz flags (unat mapped) s
          (Option.bind (vmm_map_page (virt + mapped) (phys + mapped) flags s) (map_region_loop virt phys sz flags (mapped + PAGE_SIZE)))"
      proof (rule region_run_step [OF round])
        fix s1 assume "vmm_map_page (virt + mapped) (phys + mapped) flags s = Some s1"
        then show "region_run virt phys sz flags (unat mapped + 4096) s1 (map_region_loop virt phys sz flags (mapped + PAGE_SIZE) s1)"
          using room aligned_visit_page [OF less.prems(4) tb virt_m] by (intro step [OF round(1)]) simp_all
      next
        show "region_cost virt phys sz (unat mapped) = 2 + region_cost virt phys sz (unat mapped + 4096)"
          using tb True by (subst region_cost.simps) (simp add: word_less_nat_alt)
      qed (use room bound in simp_all)
      then show ?thesis using tb map_region_loop_unfold [OF reg True] by simp
    qed
  qed
qed

section \<open>Initialisation\<close>

text \<open>A cleared root table is an empty tree: nothing is mapped.\<close>

lemma empty_tree:
  assumes "pmm_inv (frames s)" "pa_ok 12 (root_table s)" "root_table s \<noteq> 0"
    "root_table s \<notin> avail_frames (frames s)"
    and zero: "\<And>i. unat i < 512 \<Longrightarrow> rd_pte (ram s) (root_table s, i) = 0"
  shows "table_tree [root_table s \<mapsto> Level1] s" "translate s va = None" "\<not> block_at s va"
  using assms
  by (auto simp: table_tree_def translate_def walk_def block_at_def zero not_valid_zero Let_def)

lemma fresh_root:
  assumes inv: "pmm_inv (frames s)" and al: "pmm_alloc_frame (frames s) = Some (root, q)"
    and av: "root \<in> avail_frames (frames s)"
    and s0: "frames s0 = q" "root_table s0 = root" "ram s0 = memset root 0 PAGE_SIZE m"
  shows "vmm_wf s0" "translate s0 va = None" "\<not> block_at s0 va"
proof -
  have root: "pa_ok 12 root" "root \<noteq> 0"
    using avail_frame_pa_ok [OF av] pmm_frames.avail_frame [OF inv av] by blast+
  note q = pmm_frames.alloc_frame [OF inv al root(2)]
  have zero: "rd_pte (ram s0) (root_table s0, i) = 0" if "unat i < 512" for i
    using rd_pte_clear_page [of root "(root, i)" m] pa_ok_aligned [OF root(1)] that s0
    by (simp add: pte_valid_def)
  show "vmm_wf s0" "translate s0 va = None" "\<not> block_at s0 va"
    using empty_tree [of s0, OF _ _ _ _ zero] q root s0 by (auto simp: vmm_wf_def)
qed

lemma region_result_mapped:
  assumes "region_result virt phys sz flags lo hi c s s'" "in_region virt lo hi va"
  shows "translate s' va = Some (phys + (va - virt), attr_bits flags)"
  using assms by (simp add: region_result_def)

lemma region_result_outside:
  assumes "region_result virt phys sz flags lo hi c s s'" "unat va < 2 ^ 39" "\<not> in_region virt lo hi va"
  shows "translate s' va = translate s va" "block_at s' va = block_at s va"
  using assms by (simp_all add: region_result_def)

lemma region_result_wf:
  assumes "region_result virt phys sz flags lo hi c s s'"
  shows "vmm_wf s'" "keeps_root s s'"
  using assms by (simp_all add: region_result_def)

lemma region_result_blocks:
  assumes "region_result virt phys sz flags lo hi c s s'" "unat va < 2 ^ 39" "block_at s' va"
  shows "block_at s va \<or> fits_block virt phys sz (unat va)"
  using assms by (simp add: region_result_def)

lemma vmm_map_region_result:
  assumes "vmm_wf s" "region_ok virt phys sz" "blocks_replaceable virt phys sz 0 s"
  shows "region_run virt phys sz flags 0 s (vmm_map_region virt phys sz flags s)"
  using map_region_loop_ok [OF assms(2,1), of 0 flags] assms(3) aligned_visit_start
  by (simp add: vmm_map_region_def)

text \<open>A region of whole blocks may be mapped over any blocks.\<close>

lemma whole_blocks_replaceable:
  assumes "2097152 dvd unat virt" "2097152 dvd unat phys" "2097152 dvd unat sz"
  shows "blocks_replaceable virt phys sz 0 s"
  unfolding blocks_replaceable_def
proof (intro allI impI)
  fix va
  have up: "page_ceil (unat sz) = unat sz"
    using page_ceil_le [of "unat sz" "unat sz"] page_ceil_props(1) [of "unat sz"] assms(3)
      dvd_trans [of 4096 2097152 "unat sz"] by simp
  assume "in_region virt 0 (page_ceil (unat sz)) va \<and> block_at s va"
  then have va: "unat virt \<le> unat va" "unat va < unat virt + unat sz" by (auto simp: in_region_def up)
  obtain v z where vz: "unat virt = 2097152 * v" "unat sz = 2097152 * z" using assms(1,3) by (auto elim!: dvdE)
  have "v \<le> unat va div 2097152" "unat va div 2097152 < v + z"
    using va vz by (auto simp: less_mult_imp_div_less less_eq_div_iff_mult_less_eq algebra_simps)
  then show "fits_block virt phys sz (unat va)"
    using assms(1,2) vz by (simp add: fits_block_def block_base_def dvd_eq_mod_eq_0)
qed

lemma no_blocks_replaceable:
  "(\<And>va. in_region virt 0 (page_ceil (unat sz)) va \<Longrightarrow> \<not> block_at s va) \<Longrightarrow>
   blocks_replaceable virt phys sz 0 s"
  by (auto simp: blocks_replaceable_def)

lemma identity_region_lookup:
  assumes "region_result virt virt sz flags 0 hi c s s'" "unat va < 2 ^ 39"
  shows "translate s' va = (if in_region virt 0 hi va then Some (va, attr_bits flags) else translate s va)"
  using region_result_mapped [OF assms(1)] region_result_outside(1) [OF assms] by simp

lemma region_result_card:
  assumes "region_result virt phys sz flags lo hi c s s'"
  shows "card (avail_frames (frames s)) \<le> card (avail_frames (frames s')) + c"
  using assms by (simp add: region_result_def)

text \<open>
  How many frames a region may take: two per page, and for a region aligned to 2 MB one per block and
  the pages of an incomplete last block.
\<close>

lemma page_count_step: "b + 4096 \<le> a \<Longrightarrow> b div 4096 + 1 \<le> (a :: nat) div 4096"
  using div_le_mono [of "b + 4096" a 4096] by simp

lemma region_cost_pages: "region_cost virt phys sz m \<le> 2 * ((unat sz - m + 4095) div 4096)"
proof (induction virt phys sz m rule: region_cost.induct)
  case (1 virt phys sz m)
  show ?case
  proof (cases "m < unat sz")
    case False
    then show ?thesis by (subst region_cost.simps) simp
  next
    case m: True
    show ?thesis
    proof (cases "takes_block virt phys sz m")
      case True
      have "(unat sz - (m + 2097152) + 4095) div 4096 + 1 \<le> (unat sz - m + 4095) div 4096"
        using True by (intro page_count_step) (simp add: takes_block_def)
      then show ?thesis using 1(1) [OF m True] m True by (subst region_cost.simps) simp
    next
      case False
      have "(unat sz - (m + 4096) + 4095) div 4096 + 1 \<le> (unat sz - m + 4095) div 4096"
        using m by (cases "m + 4096 \<le> unat sz") (simp_all add: page_count_step)
      then show ?thesis using 1(2) [OF m False] m False by (subst region_cost.simps) simp
    qed
  qed
qed

lemma region_cost_aligned:
  "2097152 dvd unat virt + m \<Longrightarrow> 2097152 dvd unat phys + m \<Longrightarrow>
   region_cost virt phys sz m \<le> (unat sz - m) div 2097152 + 1024"
proof (induction virt phys sz m rule: region_cost.induct)
  case (1 virt phys sz m)
  show ?case
  proof (cases "takes_block virt phys sz m")
    case True
    then have "m + 2097152 \<le> unat sz" by (simp add: takes_block_def)
    then have "(unat sz - m) div 2097152 = (unat sz - (m + 2097152)) div 2097152 + 1"
      using le_div_geq [of 2097152 "unat sz - m"] by (simp add: add.commute)
    moreover have "region_cost virt phys sz (m + 2097152) \<le> (unat sz - (m + 2097152)) div 2097152 + 1024"
      using True \<open>m + 2097152 \<le> unat sz\<close> 1(3,4)
      by (intro 1(1)) (simp_all add: add.assoc [symmetric])
    ultimately show ?thesis
      using True by (subst region_cost.simps) (simp add: takes_block_def)
  next
    case False
    then have "unat sz - m < 2097152" using 1(3,4) by (simp add: takes_block_def)
    then have "(unat sz - m + 4095) div 4096 \<le> 512" by simp
    then show ?thesis using region_cost_pages [of virt phys sz m] by simp
  qed
qed

text \<open>The address map that the kernel runs under: RAM and heap, the three device windows, nothing else.\<close>

definition boot_map :: "nat \<Rightarrow> u64 \<Rightarrow> (u64 \<times> u64) option" where
  "boot_map ram_size va =
     (let a = unat va in
      if 0x40000000 \<le> a \<and> a < 0x40000000 + page_ceil ram_size \<or> 0x50000000 \<le> a \<and> a < 0x50800000
      then Some (va, attr_bits VM_WRITABLE)
      else if 0x08000000 \<le> a \<and> a < 0x08100000 \<or> 0x09000000 \<le> a \<and> a < 0x09100000 \<or>
              0x0a000000 \<le> a \<and> a < 0x0a100000
      then Some (va, attr_bits (VM_WRITABLE OR VM_DEVICE)) else None)"

definition boot_frames :: "nat \<Rightarrow> nat" where
  "boot_frames ram_size = 2 * (ram_size div 2097152) + 4612"

text \<open>One identity region, where the tables can describe it.\<close>

lemma map_identity_region:
  assumes "vmm_wf s" "4096 dvd unat virt" "unat virt + page_ceil (unat sz) \<le> 2 ^ 39"
    "blocks_replaceable virt virt sz 0 s" "region_cost virt virt sz 0 \<le> card (avail_frames (frames s))"
  obtains s' where "vmm_map_region virt virt sz flags s = Some s'"
    "region_result virt virt sz flags 0 (page_ceil (unat sz)) (region_cost virt virt sz 0) s s'"
  using vmm_map_region_result [OF assms(1) _ assms(4), of flags] assms(2,3,5)
  by (auto simp: region_ok_def region_run_def)

lemma map_device_window:
  assumes "vmm_wf s" "unat virt + 0x100000 \<le> 0x40000000" "4096 dvd unat virt"
    and low: "\<And>va. unat va < 0x40000000 \<Longrightarrow> \<not> block_at s va"
    and cost: "region_cost virt virt 0x100000 0 \<le> card (avail_frames (frames s))"
  obtains s' where "vmm_map_region virt virt (1024 * 1024) flags s = Some s'"
    "region_result virt virt 0x100000 flags 0 0x100000 (region_cost virt virt 0x100000 0) s s'"
    "\<And>va. unat va < 0x40000000 \<Longrightarrow> \<not> block_at s' va"
proof -
  have mb: "page_ceil (unat (0x100000 :: u64)) = 0x100000" by (simp add: page_ceil_def)
  have "blocks_replaceable virt virt 0x100000 0 s"
    using assms(2) by (intro no_blocks_replaceable low) (simp only: in_region_def mb, linarith)
  then obtain s' where s': "vmm_map_region virt virt 0x100000 flags s = Some s'"
    and r: "region_result virt virt 0x100000 flags 0 0x100000 (region_cost virt virt 0x100000 0) s s'"
    using map_identity_region [OF assms(1,3), where sz = "0x100000" and flags = flags] assms(2) mb cost by auto
  have "\<not> block_at s' va" if va: "unat va < 0x40000000" for va
  proof
    assume "block_at s' va"
    then have "fits_block virt virt 0x100000 (unat va)"
      using region_result_blocks [OF r, of va] va low by auto
    then show False by (auto simp: fits_block_def)
  qed
  then show thesis using that s' r by simp
qed

text \<open>The calls of \<open>vmm_map_region\<close> on a fresh root table: kernel, RAM and heap, then the devices.\<close>

lemma boot_memory_regions:
  assumes wf: "vmm_wf s" and empty: "\<And>va. \<not> block_at s va"
    and ks: "unat ks \<le> unat (phy_ram_size (frames s))" and rs: "unat (phy_ram_size (frames s)) \<le> 2 ^ 38"
    and cost: "region_cost 0x40000000 0x40000000 ks 0 + region_cost PHY_RAM_BASE PHY_RAM_BASE (phy_ram_size (frames s)) 0 +
      region_cost 0x50000000 0x50000000 0x800000 0 \<le> card (avail_frames (frames s))"
  obtains s1 s2 s3 where
    "vmm_map_region 0x40000000 0x40000000 ks VM_WRITABLE s = Some s1"
    "vmm_map_region PHY_RAM_BASE PHY_RAM_BASE (phy_ram_size (frames s1)) VM_WRITABLE s1 = Some s2"
    "vmm_map_region 0x50000000 0x50000000 (8 * 1024 * 1024) VM_WRITABLE s2 = Some s3"
    "region_result 0x40000000 0x40000000 ks VM_WRITABLE 0 (page_ceil (unat ks))
      (region_cost 0x40000000 0x40000000 ks 0) s s1"
    "region_result PHY_RAM_BASE PHY_RAM_BASE (phy_ram_size (frames s)) VM_WRITABLE 0
       (page_ceil (unat (phy_ram_size (frames s))))
       (region_cost PHY_RAM_BASE PHY_RAM_BASE (phy_ram_size (frames s)) 0) s1 s2"
    "region_result 0x50000000 0x50000000 0x800000 VM_WRITABLE 0 0x800000
      (region_cost 0x50000000 0x50000000 0x800000 0) s2 s3"
    "\<And>va. unat va < 0x40000000 \<Longrightarrow> \<not> block_at s3 va"
proof -
  let ?rs = "phy_ram_size (frames s)"
  have up: "page_ceil (unat ks) \<le> page_ceil (unat ?rs)" "page_ceil (unat ?rs) \<le> 2 ^ 38"
    using ks rs page_ceil_le [of "2 ^ 38" "unat ?rs"] by (simp_all add: page_ceil_def div_le_mono)
  have mb: "page_ceil (unat (0x800000 :: u64)) = 0x800000" by (simp add: page_ceil_def)
  have v1: "unat (0x40000000 :: u64) + page_ceil (unat ks) \<le> 2 ^ 39" "4096 dvd unat (0x40000000 :: u64)"
    "region_cost 0x40000000 0x40000000 ks 0 \<le> card (avail_frames (frames s))"
    using up cost by simp_all
  from map_identity_region [OF wf v1(2,1) no_blocks_replaceable v1(3)] empty obtain s1 where
    s1: "vmm_map_region 0x40000000 0x40000000 ks VM_WRITABLE s = Some s1"
    and r1: "region_result 0x40000000 0x40000000 ks VM_WRITABLE 0 (page_ceil (unat ks))
      (region_cost 0x40000000 0x40000000 ks 0) s s1" by blast
  have k1: "phy_ram_size (frames s1) = ?rs" using region_result_wf(2) [OF r1] by (simp add: keeps_root_def)
  have ram: "unat PHY_RAM_BASE + page_ceil (unat ?rs) \<le> 2 ^ 39" "4096 dvd unat PHY_RAM_BASE"
    using up by (simp_all add: PHY_RAM_BASE_def)
  have c2: "region_cost PHY_RAM_BASE PHY_RAM_BASE ?rs 0 \<le> card (avail_frames (frames s1))"
    using region_result_card [OF r1] cost by linarith
  have "blocks_replaceable PHY_RAM_BASE PHY_RAM_BASE ?rs 0 s1"
    unfolding blocks_replaceable_def
  proof (intro allI impI)
    fix va assume a: "in_region PHY_RAM_BASE 0 (page_ceil (unat ?rs)) va \<and> block_at s1 va"
    then have "unat va < 2 ^ 39" using ram(1) by (simp add: in_region_def)
    from region_result_blocks [OF r1 this] a empty
    show "fits_block PHY_RAM_BASE PHY_RAM_BASE ?rs (unat va)"
      using ks by (auto simp: fits_block_def PHY_RAM_BASE_def)
  qed
  from map_identity_region [OF region_result_wf(1) [OF r1] ram(2,1) this c2] obtain s2 where
    s2: "vmm_map_region PHY_RAM_BASE PHY_RAM_BASE ?rs VM_WRITABLE s1 = Some s2"
    and r2: "region_result PHY_RAM_BASE PHY_RAM_BASE ?rs VM_WRITABLE 0 (page_ceil (unat ?rs))
      (region_cost PHY_RAM_BASE PHY_RAM_BASE ?rs 0) s1 s2" by blast
  have c3: "region_cost 0x50000000 0x50000000 0x800000 0 \<le> card (avail_frames (frames s2))"
    using region_result_card [OF r1] region_result_card [OF r2] cost by linarith
  have "blocks_replaceable 0x50000000 0x50000000 0x800000 0 s2"
    by (rule whole_blocks_replaceable) simp_all
  from map_identity_region [OF region_result_wf(1) [OF r2] _ _ this c3, where flags = VM_WRITABLE] obtain s3 where
    s3: "vmm_map_region 0x50000000 0x50000000 0x800000 VM_WRITABLE s2 = Some s3"
    and r3: "region_result 0x50000000 0x50000000 0x800000 VM_WRITABLE 0 0x800000
      (region_cost 0x50000000 0x50000000 0x800000 0) s2 s3"
    unfolding mb by auto
  have "\<not> block_at s3 va" if "unat va < 0x40000000" for va
    using that region_result_outside(2) [OF r1, of va] region_result_outside(2) [OF r2, of va]
      region_result_outside(2) [OF r3, of va] empty
    by (simp add: in_region_def PHY_RAM_BASE_def)
  then show thesis using that s1 s2 s3 k1 r1 r2 r3 by simp
qed

lemma boot_cost:
  assumes "unat ks \<le> unat rs"
  shows "region_cost 0x40000000 0x40000000 ks 0 + region_cost PHY_RAM_BASE PHY_RAM_BASE rs 0 +
    region_cost 0x50000000 0x50000000 0x800000 0 + region_cost 0x09000000 0x09000000 0x100000 0 +
    region_cost 0x0a000000 0x0a000000 0x100000 0 + region_cost 0x08000000 0x08000000 0x100000 0
      \<le> boot_frames (unat rs)"
proof -
  have "region_cost 0x40000000 0x40000000 ks 0 \<le> unat ks div 2097152 + 1024"
    "region_cost PHY_RAM_BASE PHY_RAM_BASE rs 0 \<le> unat rs div 2097152 + 1024"
    "region_cost 0x50000000 0x50000000 0x800000 0 \<le> 4 + 1024"
    using region_cost_aligned [of "0x40000000" 0 "0x40000000" ks]
      region_cost_aligned [of PHY_RAM_BASE 0 PHY_RAM_BASE rs]
      region_cost_aligned [of "0x50000000" 0 "0x50000000" "0x800000"] by (simp_all add: PHY_RAM_BASE_def)
  moreover have "region_cost v v 0x100000 0 \<le> 512" for v
    using region_cost_pages [of v v "0x100000" 0] by simp
  note this [of "0x09000000"] this [of "0x0a000000"] this [of "0x08000000"]
  moreover have "unat ks div 2097152 \<le> unat rs div 2097152" using assms by (rule div_le_mono)
  ultimately show ?thesis
    unfolding boot_frames_def by linarith
qed

lemma boot_regions:
  assumes wf: "vmm_wf s" and empty: "\<And>va. translate s va = None" "\<And>va. \<not> block_at s va"
    and ks: "unat ks \<le> unat (phy_ram_size (frames s))" and rs: "unat (phy_ram_size (frames s)) \<le> 2 ^ 38"
    and enough: "boot_frames (unat (phy_ram_size (frames s))) \<le> card (avail_frames (frames s))"
  obtains s1 s2 s3 s4 s5 s6 where
    "vmm_map_region 0x40000000 0x40000000 ks VM_WRITABLE s = Some s1"
    "vmm_map_region PHY_RAM_BASE PHY_RAM_BASE (phy_ram_size (frames s1)) VM_WRITABLE s1 = Some s2"
    "vmm_map_region 0x50000000 0x50000000 (8 * 1024 * 1024) VM_WRITABLE s2 = Some s3"
    "vmm_map_region 0x09000000 0x09000000 (1024 * 1024) (VM_WRITABLE OR VM_DEVICE) s3 = Some s4"
    "vmm_map_region 0x0a000000 0x0a000000 (1024 * 1024) (VM_WRITABLE OR VM_DEVICE) s4 = Some s5"
    "vmm_map_region 0x08000000 0x08000000 (1024 * 1024) (VM_WRITABLE OR VM_DEVICE) s5 = Some s6"
    "vmm_wf s6" "keeps_root s s6"
    "card (avail_frames (frames s)) \<le>
       card (avail_frames (frames s6)) + boot_frames (unat (phy_ram_size (frames s)))"
    "\<forall>va. unat va < 2 ^ 39 \<longrightarrow> translate s6 va = boot_map (unat (phy_ram_size (frames s))) va"
proof -
  let ?rs = "phy_ram_size (frames s)"
  let ?d = "VM_WRITABLE OR VM_DEVICE"
  note cost = order_trans [OF boot_cost [OF ks] enough]
  then have "region_cost 0x40000000 0x40000000 ks 0 + region_cost PHY_RAM_BASE PHY_RAM_BASE ?rs 0 +
      region_cost 0x50000000 0x50000000 0x800000 0 \<le> card (avail_frames (frames s))" by linarith
  from boot_memory_regions [OF wf empty(2) ks rs this] obtain s1 s2 s3 where
    m: "vmm_map_region 0x40000000 0x40000000 ks VM_WRITABLE s = Some s1"
      "vmm_map_region PHY_RAM_BASE PHY_RAM_BASE (phy_ram_size (frames s1)) VM_WRITABLE s1 = Some s2"
      "vmm_map_region 0x50000000 0x50000000 (8 * 1024 * 1024) VM_WRITABLE s2 = Some s3"
    and r1: "region_result 0x40000000 0x40000000 ks VM_WRITABLE 0 (page_ceil (unat ks))
      (region_cost 0x40000000 0x40000000 ks 0) s s1"
    and r2: "region_result PHY_RAM_BASE PHY_RAM_BASE ?rs VM_WRITABLE 0 (page_ceil (unat ?rs))
      (region_cost PHY_RAM_BASE PHY_RAM_BASE ?rs 0) s1 s2"
    and r3: "region_result 0x50000000 0x50000000 0x800000 VM_WRITABLE 0 0x800000
      (region_cost 0x50000000 0x50000000 0x800000 0) s2 s3"
    and low3: "\<And>va. unat va < 0x40000000 \<Longrightarrow> \<not> block_at s3 va" by blast
  note c3 = region_result_card [OF r1] region_result_card [OF r2] region_result_card [OF r3]
  have c4: "region_cost 0x09000000 0x09000000 0x100000 0 \<le> card (avail_frames (frames s3))" using c3 cost by linarith
  obtain s4 where m4: "vmm_map_region 0x09000000 0x09000000 (1024 * 1024) ?d s3 = Some s4"
    and r4: "region_result 0x09000000 0x09000000 0x100000 ?d 0 0x100000
      (region_cost 0x09000000 0x09000000 0x100000 0) s3 s4"
    and low4: "\<And>va. unat va < 0x40000000 \<Longrightarrow> \<not> block_at s4 va"
    using map_device_window [OF region_result_wf(1) [OF r3] _ _ low3 c4, where flags = ?d] by auto
  have c5: "region_cost 0x0a000000 0x0a000000 0x100000 0 \<le> card (avail_frames (frames s4))"
    using c3 region_result_card [OF r4] cost by linarith
  obtain s5 where m5: "vmm_map_region 0x0a000000 0x0a000000 (1024 * 1024) ?d s4 = Some s5"
    and r5: "region_result 0x0a000000 0x0a000000 0x100000 ?d 0 0x100000
      (region_cost 0x0a000000 0x0a000000 0x100000 0) s4 s5"
    and low5: "\<And>va. unat va < 0x40000000 \<Longrightarrow> \<not> block_at s5 va"
    using map_device_window [OF region_result_wf(1) [OF r4] _ _ low4 c5, where flags = ?d] by auto
  have c6: "region_cost 0x08000000 0x08000000 0x100000 0 \<le> card (avail_frames (frames s5))"
    using c3 region_result_card [OF r4] region_result_card [OF r5] cost by linarith
  obtain s6 where m6: "vmm_map_region 0x08000000 0x08000000 (1024 * 1024) ?d s5 = Some s6"
    and r6: "region_result 0x08000000 0x08000000 0x100000 ?d 0 0x100000
      (region_cost 0x08000000 0x08000000 0x100000 0) s5 s6"
    using map_device_window [OF region_result_wf(1) [OF r5] _ _ low5 c6, where flags = ?d] by auto
  note keeps = region_result_wf(2) [OF r1] region_result_wf(2) [OF r2] region_result_wf(2) [OF r3]
    region_result_wf(2) [OF r4] region_result_wf(2) [OF r5] region_result_wf(2) [OF r6]
  have up: "page_ceil (unat ks) \<le> page_ceil (unat ?rs)" using ks by (simp add: page_ceil_def div_le_mono)
  have "translate s6 va = boot_map (unat ?rs) va" if va: "unat va < 2 ^ 39" for va
    unfolding identity_region_lookup [OF r6 va] identity_region_lookup [OF r5 va]
      identity_region_lookup [OF r4 va] identity_region_lookup [OF r3 va]
      identity_region_lookup [OF r2 va] identity_region_lookup [OF r1 va] empty(1)
    using up by (auto simp: boot_map_def in_region_def PHY_RAM_BASE_def Let_def)
  moreover have "keeps_root s s6" using keeps keeps_root_trans by blast
  moreover have "card (avail_frames (frames s)) \<le> card (avail_frames (frames s6)) + boot_frames (unat ?rs)"
    using region_result_card [OF r1] region_result_card [OF r2] region_result_card [OF r3]
      region_result_card [OF r4] region_result_card [OF r5] region_result_card [OF r6] boot_cost [OF ks]
    by linarith
  ultimately show thesis
    using that m m4 m5 m6 region_result_wf(1) [OF r6] by blast
qed

lemma init_vmm_ok:
  assumes inv: "pmm_inv (frames s)" and enough: "boot_frames (unat (phy_ram_size (frames s))) < card (avail_frames (frames s))"
    and ker: "0x40000000 \<le> unat kernel_end"
      "unat kernel_end \<le> 0x40000000 + unat (phy_ram_size (frames s))"
    and rs: "unat (phy_ram_size (frames s)) \<le> 2 ^ 38"
  shows "\<exists>s'. init_vmm kernel_end s = Some s' \<and> vmm_wf s' \<and> paging_enabled s' \<and>
    ttbr0_el1 s' = root_table s' \<and> ttbr1_el1 s' = root_table s' \<and> root_table s' \<in> avail_frames (frames s) \<and>
    mair_el1 s' = 0xFF00 \<and> tcr_el1 s' = 0x280190019 \<and> bit (sctlr_el1 s') 0 \<and>
    (\<forall>va. unat va < 2 ^ 39 \<longrightarrow> translate s' va = boot_map (unat (phy_ram_size (frames s))) va) \<and>
    pmm_inv (frames s') \<and> avail_frames (frames s') \<subseteq> avail_frames (frames s) \<and>
    card (avail_frames (frames s)) \<le> card (avail_frames (frames s')) + boot_frames (unat (phy_ram_size (frames s))) + 1"
proof -
  have av: "avail_frames (frames s) \<noteq> {}" using enough by auto
  from pmm_frames.alloc_take [OF inv av] obtain root q where
    q: "pmm_alloc_frame (frames s) = Some (root, q)" "pmm_inv q" "root \<in> avail_frames (frames s)"
      "avail_frames q = avail_frames (frames s) - {root}" by blast
  define s0 where "s0 = s\<lparr>frames := q, root_phys := root, ram := memset root 0 PAGE_SIZE (ram s),
      root_table := root, mair_el1 := push_bit (8 * 0) 0x00 OR push_bit (8 * 1) 0xFF,
      tcr_el1 := push_bit 0 25 OR push_bit 14 0 OR push_bit 32 2 OR push_bit 16 25 OR push_bit 30 2\<rparr>"
  have fr0: "frames s0 = q" "root_table s0 = root" "ram s0 = memset root 0 PAGE_SIZE (ram s)"
    by (simp_all add: s0_def)
  note e = fresh_root [OF inv q(1,3) fr0]
  have ram0: "phy_ram_size (frames s0) = phy_ram_size (frames s)"
    using alloc_keeps_ram_size [OF q(1)] by (simp add: s0_def)
  have "unat (kernel_end - 0x40000000) = unat kernel_end - 0x40000000"
    using ker(1) unat_sub_no_wrap [of "0x40000000" kernel_end] by (simp add: word_le_nat_alt)
  then have ks: "unat (kernel_end - 0x40000000) \<le> unat (phy_ram_size (frames s0))" using ker ram0 by simp
  have left: "Suc (card (avail_frames (frames s0))) = card (avail_frames (frames s))"
    using card_Suc_Diff1 [OF pmm_frames.finite_avail [OF inv] q(3)] q(4) fr0 by simp
  then have "boot_frames (unat (phy_ram_size (frames s0))) \<le> card (avail_frames (frames s0))"
    using enough unfolding ram0 by linarith
  from boot_regions [OF e ks rs [folded ram0] this, unfolded ram0] obtain s1 s2 s3 s4 s5 s6 where
    m: "vmm_map_region 0x40000000 0x40000000 (kernel_end - 0x40000000) VM_WRITABLE s0 = Some s1"
      "vmm_map_region PHY_RAM_BASE PHY_RAM_BASE (phy_ram_size (frames s1)) VM_WRITABLE s1 = Some s2"
      "vmm_map_region 0x50000000 0x50000000 (8 * 1024 * 1024) VM_WRITABLE s2 = Some s3"
      "vmm_map_region 0x09000000 0x09000000 (1024 * 1024) (VM_WRITABLE OR VM_DEVICE) s3 = Some s4"
      "vmm_map_region 0x0a000000 0x0a000000 (1024 * 1024) (VM_WRITABLE OR VM_DEVICE) s4 = Some s5"
      "vmm_map_region 0x08000000 0x08000000 (1024 * 1024) (VM_WRITABLE OR VM_DEVICE) s5 = Some s6"
    and r: "vmm_wf s6" "keeps_root s0 s6"
      "card (avail_frames (frames s0)) \<le>
        card (avail_frames (frames s6)) + boot_frames (unat (phy_ram_size (frames s)))"
      "\<forall>va. unat va < 2 ^ 39 \<longrightarrow> translate s6 va = boot_map (unat (phy_ram_size (frames s))) va"
    by blast
  define s' where "s' = s6\<lparr>ttbr0_el1 := root_phys s6, ttbr1_el1 := root_phys s6,
      sctlr_el1 := sctlr_el1 s6 OR (push_bit 0 1 OR push_bit 2 1 OR push_bit 12 1), paging_enabled := True\<rparr>"
  have run: "init_vmm kernel_end s = Some s'"
    by (simp only: init_vmm_def q(1) bind.bind_lunit prod.case Let_def s0_def [symmetric] m s'_def)
  have regs: "root_phys s6 = root" "mair_el1 s6 = 0xFF00" "tcr_el1 s6 = 0x280190019" "root_table s6 = root"
    using r(2) by (simp_all add: keeps_root_def vmm_regs_def s0_def)
  have same: "translate s' = translate s6" "root_table s' = root_table s6"
    by (simp_all add: s'_def translate_def fun_eq_iff)
  have wf: "vmm_wf s'" using r(1) by (simp add: s'_def vmm_wf_def table_tree_def)
  have fr: "frames s' = frames s6" by (simp add: s'_def)
  have "pmm_inv (frames s')" using wf table_treeD(1) unfolding vmm_wf_def by blast
  moreover have "avail_frames (frames s') \<subseteq> avail_frames (frames s)"
    using r(2) q(4) fr0(1) unfolding fr keeps_root_def by auto
  moreover have "card (avail_frames (frames s)) \<le> card (avail_frames (frames s')) + boot_frames (unat (phy_ram_size (frames s))) + 1"
    using r(3) left unfolding fr by linarith
  moreover have "bit (sctlr_el1 s') 0" by (simp add: s'_def bit_or_iff)
  moreover have "translate s' va = boot_map (unat (phy_ram_size (frames s))) va" if "unat va < 2 ^ 39" for va
    using r(4) that same by simp
  ultimately show ?thesis
    using run regs same q(3) wf by (auto simp: s'_def)
qed

section \<open>Properties\<close>

text \<open>
  A small machine for the examples: four frames, two of them free, and an empty root table in the
  first one.
\<close>

definition demo_vmm :: vmm where
  "demo_vmm = \<lparr>frames = demo_pmm, ram = (\<lambda>_. 0), root_table = 0x40000000, root_phys = 0x40000000,
     paging_enabled = False, mair_el1 = 0, tcr_el1 = 0, ttbr0_el1 = 0, ttbr1_el1 = 0, sctlr_el1 = 0\<rparr>"

lemma demo_avail: "avail_frames demo_pmm = {0x40003000, 0x40002000}"
  by (simp add: avail_frames_def demo_pmm_free index_to_phys_def PHY_RAM_BASE_def)

lemma demo_vmm_tree: "vmm_wf demo_vmm" "translate demo_vmm va = None" "\<not> block_at demo_vmm va"
proof -
  have frames: "frames demo_vmm = demo_pmm" "root_table demo_vmm = 0x40000000" by (simp_all add: demo_vmm_def)
  have zero: "rd_pte (ram demo_vmm) (root_table demo_vmm, i) = 0" for i
    by (simp add: demo_vmm_def rd_pte_def ld64_def ld_bytes_def numeral_eq_Suc le_word_def)
  note e = empty_tree [of demo_vmm, OF _ _ _ _ zero]
  show "vmm_wf demo_vmm" "translate demo_vmm va = None" "\<not> block_at demo_vmm va"
    using e demo_pmm_inv demo_avail by (auto simp: frames vmm_wf_def pa_ok_def)
qed

text \<open>
  C6. \<open>vmm_map_page\<close> on a well-formed tree of tables, for a page-aligned physical address of at most 48
  bits and a virtual address that no 2 MB block covers. When there are as many free frames as tables missing on the way to the
  page (none, one or two), it returns, it takes exactly so many frames, the tables stay a well-formed tree
  under the same root, and the hardware walk of exactly the addresses of that page leads to the physical page with the
  attributes that the flags ask for, while every other address translates as before. When there are fewer frames, it does
  not return, because its message does not.
\<close>

theorem vmm_map_page_correct:
  assumes "vmm_wf s" "pa_ok 12 phys" "\<not> block_at s virt"
  shows "if tables_missing s virt \<le> card (avail_frames (frames s))
    then \<exists>s'. vmm_map_page virt phys flags s = Some s' \<and> vmm_wf s' \<and> root_table s' = root_table s \<and>
      card (avail_frames (frames s)) = card (avail_frames (frames s')) + tables_missing s virt \<and>
      (\<forall>va. translate s' va =
        (if vpn va = vpn virt then Some (phys + (va AND 0xFFF), attr_bits flags) else translate s va))
    else vmm_map_page virt phys flags s = None"
proof -
  from assms(1) obtain \<rho> where "table_tree \<rho> s" by (auto simp: vmm_wf_def)
  from map_page_ok [OF this assms(2,3), of flags] show ?thesis
    by (auto simp: vmm_wf_def keeps_root_def split: if_splits)
qed

theorem vmm_map_page_correct_witness:
  "\<exists>s'. vmm_map_page 0x80001000 0x40003000 VM_WRITABLE demo_vmm = Some s' \<and> vmm_wf s' \<and>
     translate s' 0x80001234 = Some (0x40003234, attr_bits VM_WRITABLE) \<and>
     translate s' 0x80002000 = None"
proof -
  have card: "tables_missing demo_vmm 0x80001000 \<le> card (avail_frames (frames demo_vmm))"
    using missing_le(2) [of demo_vmm "0x80001000"] by (simp add: demo_vmm_def demo_avail)
  have pa: "pa_ok 12 0x40003000" by (simp add: pa_ok_def)
  have v: "vpn 0x80001234 = vpn 0x80001000" "vpn 0x80002000 \<noteq> vpn 0x80001000"
    by (simp_all add: vpn_def drop_bit_eq_div take_bit_eq_mod)
  from vmm_map_page_correct [OF demo_vmm_tree(1) pa demo_vmm_tree(3), of "0x80001000" VM_WRITABLE] card
  obtain s' where "vmm_map_page 0x80001000 0x40003000 VM_WRITABLE demo_vmm = Some s'" "vmm_wf s'"
    "\<And>va. translate s' va = (if vpn va = vpn 0x80001000
       then Some (0x40003000 + (va AND 0xFFF), attr_bits VM_WRITABLE) else translate demo_vmm va)" by auto
  then show ?thesis using v demo_vmm_tree(2) by simp
qed

text \<open>
  \<open>vmm_map_block\<close> on a well-formed tree, for a physical address aligned to 2 MB: when the level-2 table is there or a frame
  for it is free, it returns, the tree stays well formed, and exactly the addresses of the
  2 MB block translate to the physical block, at their offset and with the attributes of the flags,
  whatever was mapped there before; all other translations are kept. Otherwise it does not return.
\<close>

theorem vmm_map_block_correct:
  assumes "vmm_wf s" "pa_ok 21 phys"
  shows "if level2_missing s virt \<le> card (avail_frames (frames s))
    then \<exists>s'. vmm_map_block virt phys flags s = Some s' \<and> vmm_wf s' \<and> root_table s' = root_table s \<and>
      (\<forall>va. translate s' va =
        (if vbn va = vbn virt then Some (phys + (va AND 0x1FFFFF), attr_bits flags) else translate s va))
    else vmm_map_block virt phys flags s = None"
proof -
  from assms(1) obtain \<rho> where tree: "table_tree \<rho> s" by (auto simp: vmm_wf_def)
  from map_block_ok [OF this assms(2), of virt flags] show ?thesis
    by (auto simp: vmm_wf_def keeps_root_def split: if_splits)
qed

theorem vmm_map_block_correct_witness:
  "\<exists>s'. vmm_map_block 0x80000000 0x40000000 VM_WRITABLE demo_vmm = Some s' \<and> vmm_wf s' \<and>
     translate s' 0x80112345 = Some (0x40112345, attr_bits VM_WRITABLE) \<and>
     translate s' 0x80200000 = None"
proof -
  have pa: "pa_ok 21 0x40000000" by (simp add: pa_ok_def)
  have card: "level2_missing demo_vmm 0x80000000 \<le> card (avail_frames (frames demo_vmm))"
    using missing_le(1) [of demo_vmm "0x80000000"] by (simp add: demo_vmm_def demo_avail)
  have v: "vbn 0x80112345 = vbn 0x80000000" "vbn 0x80200000 \<noteq> vbn 0x80000000"
    by (simp_all add: vbn_def drop_bit_eq_div take_bit_eq_mod)
  from vmm_map_block_correct [OF demo_vmm_tree(1) pa, of "0x80000000" VM_WRITABLE] card
  obtain s' where "vmm_map_block 0x80000000 0x40000000 VM_WRITABLE demo_vmm = Some s'" "vmm_wf s'"
    "\<And>va. translate s' va = (if vbn va = vbn 0x80000000
       then Some (0x40000000 + (va AND 0x1FFFFF), attr_bits VM_WRITABLE) else translate demo_vmm va)"
    by auto
  then show ?thesis using v demo_vmm_tree(2) by simp
qed

text \<open>
  C7. \<open>vmm_map_region\<close> on a well-formed tree, for page-aligned addresses in the range of the tables, where existing 2 MB blocks
  inside the region are ones that the loop maps again as whole blocks (a page below a block would be written into the
  mapped memory). With as many free frames as the rounds of the loop may need for tables it terminates. Whenever it returns, the
  tree is well formed under the same root, the whole region, its size rounded up to pages, is mapped, through 4 KB pages or 2 MB
  blocks as alignment allows: every address in it translates to the physical address at the same offset with the
  attributes of the flags, and every 39-bit address outside keeps its translation.
\<close>

theorem vmm_map_region_correct:
  assumes "vmm_wf s" "region_ok virt phys sz" "blocks_replaceable virt phys sz 0 s"
  shows "(region_cost virt phys sz 0 \<le> card (avail_frames (frames s)) \<longrightarrow> (\<exists>s'. vmm_map_region virt phys sz flags s = Some s')) \<and>
    (\<forall>s'. vmm_map_region virt phys sz flags s = Some s' \<longrightarrow> vmm_wf s' \<and> root_table s' = root_table s \<and>
      (\<forall>va. unat va < 2 ^ 39 \<longrightarrow> translate s' va =
        (if in_region virt 0 (page_ceil (unat sz)) va then Some (phys + (va - virt), attr_bits flags) else translate s va)))"
  using vmm_map_region_result [OF assms, of flags] by (auto simp: region_run_def region_result_def keeps_root_def)

theorem vmm_map_region_correct_witness:
  "\<exists>s'. vmm_map_region 0x80200000 0x40400000 0x200000 VM_WRITABLE demo_vmm = Some s' \<and> vmm_wf s' \<and>
     translate s' 0x80301234 = Some (0x40501234, attr_bits VM_WRITABLE) \<and> translate s' 0x80000000 = None"
proof -
  have reg: "region_ok 0x80200000 0x40400000 0x200000" by (simp add: region_ok_def page_ceil_def)
  have blk: "blocks_replaceable 0x80200000 0x40400000 0x200000 0 demo_vmm"
    using demo_vmm_tree(3) by (intro no_blocks_replaceable)
  have cost: "region_cost 0x80200000 0x40400000 0x200000 0 \<le> card (avail_frames (frames demo_vmm))"
    by (simp add: region_cost.simps takes_block_def demo_vmm_def demo_avail)
  from vmm_map_region_correct [OF demo_vmm_tree(1) reg blk, of VM_WRITABLE] cost obtain s' where
    s': "vmm_map_region 0x80200000 0x40400000 0x200000 VM_WRITABLE demo_vmm = Some s'" "vmm_wf s'"
    "\<And>va. unat va < 2 ^ 39 \<Longrightarrow> translate s' va =
       (if in_region 0x80200000 0 (page_ceil (unat (0x200000 :: u64))) va
        then Some (0x40400000 + (va - 0x80200000), attr_bits VM_WRITABLE) else translate demo_vmm va)" by blast
  have "translate s' 0x80301234 = Some (0x40501234, attr_bits VM_WRITABLE)"
    using s'(3) [of "0x80301234"] by (simp add: in_region_def page_ceil_def)
  moreover have "translate s' 0x80000000 = None"
    using s'(3) [of "0x80000000"] demo_vmm_tree(2) by (simp add: in_region_def page_ceil_def)
  ultimately show ?thesis using s' by blast
qed

text \<open>
  C8. \<open>init_vmm\<close>, with a kernel image inside the RAM, at most 256 GB of RAM, and free frames for the root table and all other
  tables (\<open>boot_frames\<close>, two for every 2 MB of RAM and 4612 more): it runs to completion and switches the MMU on with both
  translation bases on the root of a well-formed tree and the attribute and control registers that its descriptors assume. The
  resulting address map of all 39-bit addresses is exactly the identity on RAM and heap (writable, executable at EL1) and on the
  three device windows (writable, never executable, device memory), and nothing else is mapped.
\<close>

theorem init_vmm_correct:
  assumes inv: "pmm_inv (frames s)" and enough: "boot_frames (unat (phy_ram_size (frames s))) < card (avail_frames (frames s))"
    and ker: "0x40000000 \<le> unat kernel_end"
      "unat kernel_end \<le> 0x40000000 + unat (phy_ram_size (frames s))"
    and rs: "unat (phy_ram_size (frames s)) \<le> 2 ^ 38"
  shows "\<exists>s'. init_vmm kernel_end s = Some s' \<and> vmm_wf s' \<and> paging_enabled s' \<and>
    ttbr0_el1 s' = root_table s' \<and> ttbr1_el1 s' = root_table s' \<and> root_table s' \<in> avail_frames (frames s) \<and>
    mair_el1 s' = 0xFF00 \<and> tcr_el1 s' = 0x280190019 \<and> bit (sctlr_el1 s') 0 \<and>
    (\<forall>va. unat va < 2 ^ 39 \<longrightarrow> translate s' va = boot_map (unat (phy_ram_size (frames s))) va)"
  using init_vmm_ok [OF assms] by blast

theorem init_vmm_correct_witness:
  "\<exists>p s'. pmm_init (\<lambda>_. 0) (\<lambda>_. 0) 0x40100000 0x4000000 pmm_static = Some p \<and>
     init_vmm 0x40100000 (demo_vmm\<lparr>frames := p\<rparr>) = Some s' \<and> vmm_wf s' \<and> paging_enabled s' \<and>
     translate s' 0x40080000 = Some (0x40080000, attr_bits VM_WRITABLE) \<and>
     translate s' 0x09000000 = Some (0x09000000, attr_bits (VM_WRITABLE OR VM_DEVICE)) \<and>
     translate s' 0 = None"
proof -
  have "arrays_in_ram 0x40100000 0x4000000" by (simp add: arrays_in_ram_def PHY_RAM_BASE_def)
  then obtain p where p: "pmm_init (\<lambda>_. 0) (\<lambda>_. 0) 0x40100000 0x4000000 pmm_static = Some p" "pmm_inv p"
    "phy_ram_size p = 0x4000000" "16108 \<le> card (avail_frames p)"
    by (rule card_avail_init [of "0x4000000" "0x40100000" "\<lambda>_. 0" "\<lambda>_. 0", rotated 2]) simp_all
  let ?s = "demo_vmm\<lparr>frames := p\<rparr>"
  have h: "pmm_inv (frames ?s)" "boot_frames (unat (phy_ram_size (frames ?s))) < card (avail_frames (frames ?s))"
    "0x40000000 \<le> unat (0x40100000 :: u64)"
    "unat (0x40100000 :: u64) \<le> 0x40000000 + unat (phy_ram_size (frames ?s))"
    "unat (phy_ram_size (frames ?s)) \<le> 2 ^ 38" using p(2-4) by (simp_all add: boot_frames_def)
  from init_vmm_correct [OF h] obtain s' where
    s': "init_vmm 0x40100000 ?s = Some s'" "vmm_wf s'" "paging_enabled s'"
      "\<And>va. unat va < 2 ^ 39 \<Longrightarrow> translate s' va = boot_map (unat (phy_ram_size (frames ?s))) va" by auto
  have "translate s' 0x40080000 = Some (0x40080000, attr_bits VM_WRITABLE)"
    "translate s' 0x09000000 = Some (0x09000000, attr_bits (VM_WRITABLE OR VM_DEVICE))"
    "translate s' 0 = None"
    using s'(4) [of "0x40080000"] s'(4) [of "0x09000000"] s'(4) [of 0] p(3)
    by (simp_all add: boot_map_def page_ceil_def)
  with p(1) s'(1-3) show ?thesis by blast
qed

text \<open>
  The descriptors grant what the flags ask for: no mapping is executable at EL0, a mapping is
  executable at EL1 only when neither the device nor the no-execute flag is given, it is writable
  exactly with the writable flag and never accessible from EL0, and device mappings use the memory
  type of device memory.
\<close>

theorem descriptor_permissions:
  assumes "pa_ok 12 phys" and e: "e = page_entry phys flags \<or> e = block_entry phys flags"
  shows "bit e 54 \<and> (bit e 53 \<longleftrightarrow> bit flags 3 \<or> bit flags 2) \<and> (bit e 7 \<longleftrightarrow> \<not> bit flags 0) \<and> \<not> bit e 6 \<and>
    bit e 10 \<and> (bit e 2 \<longleftrightarrow> \<not> bit flags 3) \<and> \<not> bit e 3 \<and> \<not> bit e 4"
proof -
  have "attrs_of e = attr_bits flags"
    using e page_descriptor(3) [OF assms(1)] pa_ok_masks(3) [OF assms(1)] 
    by (auto simp: attrs_of_def block_entry_bits bit.conj_disj_distrib2 attr_bits_masks)
  then have same: "bit e n = bit (attr_bits flags) n" if "2 \<le> n \<and> n < 12 \<or> 52 \<le> n \<and> n < 64" for n
    using that unfolding attrs_of_def attr_field
    by (auto simp: bit_simps dest!: arg_cong [where f = "\<lambda>x. bit x n"])
  show ?thesis
    unfolding same [of 54, simplified] same [of 53, simplified] same [of 7, simplified]
      same [of 6, simplified] same [of 10, simplified] same [of 2, simplified] same [of 3, simplified]
      same [of 4, simplified]
    by (cases "bit flags 3"; cases "bit flags 2"; cases "bit flags 0") (simp_all add: attr_bits_def bit_simps)
qed

theorem descriptor_permissions_witness:
  "pa_ok 12 0x09000000 \<and> bit (page_entry 0x09000000 (VM_WRITABLE OR VM_DEVICE)) 53 \<and>
   \<not> bit (page_entry 0x09000000 (VM_WRITABLE OR VM_DEVICE)) 7"
proof -
  have pa: "pa_ok 12 0x09000000" by (simp add: pa_ok_def)
  have "bit (VM_WRITABLE OR VM_DEVICE) 3" "bit (VM_WRITABLE OR VM_DEVICE) 0" by (simp_all add: bit_simps)
  then show ?thesis
    using descriptor_permissions [OF pa disjI1 [OF refl], of "VM_WRITABLE OR VM_DEVICE"] pa by blast
qed

text \<open>
  C26. \<open>vmm_map_page\<close> under an existing 2 MB block does not split the block: \<open>get_next_table\<close> checks only
  the valid bit, takes the block descriptor for a table descriptor and the page descriptor is stored
  into the mapped memory itself, at the entry's offset from the start of the block.
\<close>

theorem vmm_map_page_under_block:
  assumes wf: "vmm_wf s" and blk: "block_at s virt"
    and e2: "e2 = rd_pte (ram s) (next_table (rd_pte (ram s) (root_table s, l1_idx virt)), l2_idx virt)"
      "next_table e2 \<noteq> 0"
  shows "vmm_map_page virt phys flags s =
    Some (s\<lparr>ram := st64 (ram s) (next_table e2 + 8 * l3_idx virt) (page_entry phys flags)\<rparr>)"
proof -
  from wf obtain \<rho> where tree: "table_tree \<rho> s" by (auto simp: vmm_wf_def)
  let ?e1 = "rd_pte (ram s) (root_table s, l1_idx virt)"
  have e1: "is_table ?e1" "is_block e2" using blk by (simp_all add: block_at_def e2(1))
  have n1: "next_table ?e1 \<noteq> 0" using table_treeD(4) [OF tree walk_roles(2) [OF tree e1(1)]] .
  have step: "get_next_table t i s = Some (next_table (rd_pte (ram s) (t, i)), s)"
    if "is_valid (rd_pte (ram s) (t, i))" for t i
    using that flag_set_iff(1)
    by (simp only: get_next_table_def is_valid_def rd_pte_def next_table_def fst_conv snd_conv Let_def if_True)
  show ?thesis
    using step [OF is_table_valid(1) [OF e1(1)]] step [OF is_table_valid(2) [OF e1(2) [unfolded e2(1)]]]
      n1 e2(2)
    by (simp add: vmm_map_page_def e2(1) pte_addr_def)
qed

theorem vmm_map_page_under_block_witness:
  "\<exists>s e2. vmm_map_block 0x80000000 0x40200000 VM_WRITABLE demo_vmm = Some s \<and> block_at s 0x80000000 \<and>
     next_table e2 AND 0x0000FFFFFFE00000 = 0x40200000 \<and>
     vmm_map_page 0x80000000 0x40001000 VM_WRITABLE s =
       Some (s\<lparr>ram := st64 (ram s) (next_table e2) (page_entry 0x40001000 VM_WRITABLE)\<rparr>)"
proof -
  from demo_vmm_tree(1) obtain \<rho> where tree: "table_tree \<rho> demo_vmm" by (auto simp: vmm_wf_def)
  have pa: "pa_ok 21 0x40200000" by (simp add: pa_ok_def)
  from map_block_ok [OF tree pa, of "0x80000000" VM_WRITABLE] obtain s \<rho>' where
    s: "vmm_map_block 0x80000000 0x40200000 VM_WRITABLE demo_vmm = Some s" "table_tree \<rho>' s"
      "block_at s 0x80000000" "translate s 0x80000000 = Some (0x40200000, attr_bits VM_WRITABLE)"
    using missing_le(1) [of demo_vmm "0x80000000"] by (auto simp: demo_vmm_def demo_avail split: if_splits)
  define e2 where "e2 = rd_pte (ram s)
    (next_table (rd_pte (ram s) (root_table s, l1_idx 0x80000000)), l2_idx 0x80000000)"
  have "e2 AND 0x0000FFFFFFE00000 = 0x40200000"
    using s(3,4) is_table_valid(3)
    by (auto simp: translate_def walk_def Let_def block_at_def e2_def split: if_splits)
  then have f: "next_table e2 AND 0x0000FFFFFFE00000 = 0x40200000"
    by (simp add: next_table_def and.assoc)
  then have "next_table e2 \<noteq> 0" by auto
  moreover have "vmm_wf s" using s(2) by (auto simp: vmm_wf_def)
  moreover have "l3_idx 0x80000000 = 0" by (simp add: l3_idx_def drop_bit_eq_div)
  ultimately show ?thesis
    using vmm_map_page_under_block [OF _ s(3) e2_def, of "0x40001000" VM_WRITABLE] s(1,3) f by auto
qed

end
