(* ===== verification/Dcache.thy ===== *)
theory Dcache
  imports Prelude
begin

text \<open>
  \<open>dcache_clean_poc\<close> of \<open>src/src/vmm.c\<close>: the cache maintenance instructions that clean a region of memory to the
  point of coherency, in the order in which they are issued. They have no effect on the contents of memory as
  the cores see it, so the result is the list of instructions.
\<close>

section \<open>The instructions\<close>

datatype maintenance = Dsb_sy | Dc_cvac u64 | Isb

text \<open>The loop over the cache lines; \<^term>\<open>None\<close> when it never ends.\<close>

partial_function (option) clean_lines :: "u64 \<Rightarrow> u64 \<Rightarrow> maintenance list option" where
  "clean_lines start stop =
     (if start < stop then do { xs \<leftarrow> clean_lines (start + 64) stop; Some (Dc_cvac start # xs) } else Some [])"

definition dcache_clean_poc :: "u64 \<Rightarrow> u64 \<Rightarrow> maintenance list option" where
  "dcache_clean_poc addr sz = do {
     let start = addr AND NOT (64 - 1);
     let stop = addr + sz;
     xs \<leftarrow> clean_lines start stop;
     Some (Dsb_sy # xs @ [Dsb_sy, Isb])
   }"

section \<open>The lines that are cleaned\<close>

text \<open>The lines of 64 bytes from line \<open>a\<close> up to the address \<open>b\<close>.\<close>

definition lines_between :: "nat \<Rightarrow> nat \<Rightarrow> u64 list" where
  "lines_between a b = map (\<lambda>k. of_nat (64 * k)) [a..<(b + 63) div 64]"

lemma clean_lines_ok:
  assumes "unat start = 64 * a" "unat stop \<le> 2 ^ 64 - 64"
  shows "clean_lines start stop = Some (map Dc_cvac (lines_between a (unat stop)))"
  using assms
proof (induction "(unat stop + 63) div 64 - a" arbitrary: a start)
  case 0
  then have "(unat stop + 63) div 64 \<le> a" by simp
  moreover from this have "\<not> start < stop" using 0 by (simp add: word_less_nat_alt)
  ultimately show ?case by (simp add: clean_lines.simps [of start] lines_between_def)
next
  case (Suc n)
  from Suc.hyps(2) have a: "a < (unat stop + 63) div 64" by simp
  then have less: "64 * a < unat stop" by simp
  then have u: "unat (start + 64) = 64 * Suc a" using Suc.prems unat_add_no_wrap [of start 64] by simp
  have "clean_lines (start + 64) stop = Some (map Dc_cvac (lines_between (Suc a) (unat stop)))"
    by (rule Suc.hyps(1) [OF _ u Suc.prems(2)]) (use Suc.hyps(2) in simp)
  moreover have "start < stop" using less Suc.prems(1) by (simp add: word_less_nat_alt)
  ultimately have "clean_lines start stop = Some (Dc_cvac start # map Dc_cvac (lines_between (Suc a) (unat stop)))"
    by (simp add: clean_lines.simps [of start])
  moreover have "start = of_nat (64 * a)" by (simp only: Suc.prems(1) [symmetric] of_nat_unat_u64)
  moreover have "lines_between a (unat stop) = of_nat (64 * a) # lines_between (Suc a) (unat stop)"
    unfolding lines_between_def using a by (simp only: upt_conv_Cons list.map)
  ultimately show ?case by (simp only: list.map)
qed

lemma line_floor: "unat ((addr :: u64) AND NOT (64 - 1)) = 64 * (unat addr div 64)"
  using unat_and_not_mask [of addr 6] by (simp add: mask_eq_exp_minus_1)

lemma lines_between_mem:
  assumes "b \<le> 2 ^ 64 - 64"
  shows "distinct (lines_between a b)"
    "l \<in> set (lines_between a b) \<longleftrightarrow> 64 dvd unat l \<and> 64 * a \<le> unat l \<and> unat l < b"
proof -
  have u: "unat (of_nat (64 * k) :: u64) = 64 * k" if "k < (b + 63) div 64" for k
    by (rule unat_u64_of_nat) (use that assms in simp)
  show "distinct (lines_between a b)"
    unfolding lines_between_def distinct_map by (auto intro!: inj_onI dest!: arg_cong [where f = unat] simp: u simp del: of_nat_mult)
  show "l \<in> set (lines_between a b) \<longleftrightarrow> 64 dvd unat l \<and> 64 * a \<le> unat l \<and> unat l < b"
  proof
    assume "l \<in> set (lines_between a b)"
    then obtain k where k: "l = of_nat (64 * k)" "a \<le> k" "k < (b + 63) div 64"
      unfolding lines_between_def by auto
    then have "unat l = 64 * k" using u by blast
    then show "64 dvd unat l \<and> 64 * a \<le> unat l \<and> unat l < b" using k(2,3) by simp
  next
    assume l: "64 dvd unat l \<and> 64 * a \<le> unat l \<and> unat l < b"
    then obtain k where k: "unat l = 64 * k" by blast
    from l have "(64 * k + 64) div 64 \<le> (b + 63) div 64" unfolding k by (intro div_le_mono) simp
    then have "a \<le> k" "k < (b + 63) div 64" using l unfolding k by simp_all
    moreover have "l = of_nat (64 * k)" by (simp only: k [symmetric] of_nat_unat_u64)
    ultimately show "l \<in> set (lines_between a b)" unfolding lines_between_def by auto
  qed
qed

text \<open>
  Every line that has a byte of the region is cleaned exactly once, between the two barriers; when the region is
  empty and its address is inside a line, this line is cleaned all the same.
\<close>

theorem dcache_clean_poc_correct:
  assumes "unat addr + unat sz \<le> 2 ^ 64 - 64"
  shows "\<exists>ls. dcache_clean_poc addr sz = Some (Dsb_sy # map Dc_cvac ls @ [Dsb_sy, Isb]) \<and> distinct ls \<and>
    (\<forall>l. l \<in> set ls \<longleftrightarrow> 64 dvd unat l \<and> unat addr < unat l + 64 \<and> unat l < unat addr + unat sz)"
proof -
  have s: "unat (addr + sz) = unat addr + unat sz" using assms unat_add_no_wrap [of addr sz] by simp
  let ?ls = "lines_between (unat addr div 64) (unat addr + unat sz)"
  have "clean_lines (addr AND NOT (64 - 1)) (addr + sz) = Some (map Dc_cvac ?ls)"
    using clean_lines_ok [OF line_floor [of addr], of "addr + sz"] assms unfolding s .
  then have "dcache_clean_poc addr sz = Some (Dsb_sy # map Dc_cvac ?ls @ [Dsb_sy, Isb])"
    unfolding dcache_clean_poc_def Let_def by (simp only: Option.bind.bind_lunit)
  moreover have "64 dvd l \<Longrightarrow> 64 * (unat addr div 64) \<le> l \<longleftrightarrow> unat addr < l + 64" for l by auto
  ultimately show ?thesis using lines_between_mem [OF assms] by (intro exI [of _ ?ls]) auto
qed

text \<open>A region that ends in the last line of the address space is cleaned for ever: the address of the line wraps around.\<close>

theorem dcache_clean_poc_diverges:
  assumes "2 ^ 64 - 64 < unat (addr + sz)"
  shows "dcache_clean_poc addr sz = None"
proof -
  have "False" if "clean_lines start stop = Some xs" "64 dvd unat start" "2 ^ 64 - 64 < unat stop" for start stop xs
  proof -
    have "\<not> (64 dvd unat start \<and> 2 ^ 64 - 64 < unat stop)"
    proof (rule clean_lines.raw_induct [where P = "\<lambda>start stop xs. \<not> (64 dvd unat start \<and> 2 ^ 64 - 64 < unat stop)", OF _ that(1)])
      fix f :: "u64 \<Rightarrow> u64 \<Rightarrow> maintenance list option" and start stop xs
      assume ih: "\<And>start stop xs. f start stop = Some xs \<Longrightarrow> \<not> (64 dvd unat start \<and> 2 ^ 64 - 64 < unat stop)"
        and step: "(if start < stop then do { xs \<leftarrow> f (start + 64) stop; Some (Dc_cvac start # xs) } else Some []) = Some xs"
      show "\<not> (64 dvd unat start \<and> 2 ^ 64 - 64 < unat stop)"
      proof
        assume a: "64 dvd unat start \<and> 2 ^ 64 - 64 < unat stop"
        then obtain k where k: "unat start = 64 * k" by blast
        have "start < stop" using a k unat_u64_lt [of start] by (simp add: word_less_nat_alt)
        with step obtain ys where "f (start + 64) stop = Some ys" by (auto simp: bind_eq_Some_conv)
        moreover have "64 dvd unat (start + 64)" using a by (simp add: unat_word_ariths dvd_mod_iff)
        ultimately show False using ih a by blast
      qed
    qed
    then show False using that(2,3) by blast
  qed
  moreover have "64 dvd unat (addr AND NOT (64 - 1))" by (simp only: line_floor dvd_triv_left)
  ultimately have "clean_lines (addr AND NOT (64 - 1)) (addr + sz) = None"
    using assms by (metis option.exhaust)
  then show ?thesis unfolding dcache_clean_poc_def Let_def by simp
qed

end
