(* ===== verification/Spinlock.thy ===== *)
theory Spinlock
  imports Prelude
begin

text \<open>
  The spin locks of \<open>src/src/pthread.c\<close>: the operations on the lock word, and the acquisition loop as a
  step relation of any number of cores that share one lock. The relation interleaves the atomic
  accesses of \<open>pthread_spin_lock\<close> (the compare-and-exchange, which may fail spuriously, and the
  relaxed load of the inner loop) and \<open>pthread_spin_unlock\<close>.
\<close>

section \<open>Operations on the lock word\<close>

type_synonym spinlock = u32

definition EBUSY :: int where "EBUSY = 10"
definition EINVAL :: int where "EINVAL = 28"
definition EAGAIN :: int where "EAGAIN = 6"

text \<open>\<open>atomic_compare_exchange\<close>: success flag and the new value of the word.\<close>

definition cas :: "spinlock \<Rightarrow> spinlock \<Rightarrow> spinlock \<Rightarrow> bool \<times> spinlock" where
  "cas lock expected desired = (if lock = expected then (True, desired) else (False, lock))"

definition pthread_spin_init :: "spinlock \<Rightarrow> int \<times> spinlock" where
  "pthread_spin_init lock = (0, 0)"

definition pthread_spin_trylock :: "spinlock \<Rightarrow> int \<times> spinlock" where
  "pthread_spin_trylock lock =
     (let (ok, lock') = cas lock 0 1 in if \<not> ok then (EBUSY, lock') else (0, lock'))"

definition pthread_spin_unlock :: "spinlock \<Rightarrow> int \<times> spinlock" where
  "pthread_spin_unlock lock = (0, 0)"

definition pthread_spin_destroy :: "spinlock \<Rightarrow> int" where
  "pthread_spin_destroy lock = (if lock \<noteq> 0 then EBUSY else 0)"

text \<open>
  \<open>pthread_spin_lock\<close> of a caller that runs alone: it returns with the lock taken, or spins for ever
  (\<^term>\<open>None\<close>) on a lock that is already taken. The operations of the other components use it for their
  critical sections, which the step relation below shows to be exclusive.
\<close>

definition pthread_spin_lock :: "spinlock \<Rightarrow> (int \<times> spinlock) option" where
  "pthread_spin_lock lock = (let (ok, lock') = cas lock 0 1 in if ok then Some (0, lock') else None)"

section \<open>Cores that share a lock\<close>

text \<open>Where a core is: outside, before the exchange, in the inner loop, or holding the lock.\<close>

datatype phase = Outside | Exchange | Spinning | Critical

record cores_state =
  lock_word :: spinlock
  phase_of :: "nat \<Rightarrow> phase"

text \<open>One atomic access of one core.\<close>

inductive core_step :: "nat \<Rightarrow> cores_state \<Rightarrow> cores_state \<Rightarrow> bool" for c where
  enter: "phase_of s c = Outside \<Longrightarrow> core_step c s (s\<lparr>phase_of := (phase_of s)(c := Exchange)\<rparr>)"
| exchange: "phase_of s c = Exchange \<Longrightarrow> cas (lock_word s) 0 1 = (True, l) \<Longrightarrow>
    core_step c s (s\<lparr>lock_word := l, phase_of := (phase_of s)(c := Critical)\<rparr>)"
| exchange_fails: "phase_of s c = Exchange \<Longrightarrow>
    core_step c s (s\<lparr>phase_of := (phase_of s)(c := Spinning)\<rparr>)"
| spin: "phase_of s c = Spinning \<Longrightarrow> lock_word s = 1 \<Longrightarrow> core_step c s s"
| retry: "phase_of s c = Spinning \<Longrightarrow> lock_word s \<noteq> 1 \<Longrightarrow>
    core_step c s (s\<lparr>phase_of := (phase_of s)(c := Exchange)\<rparr>)"
| release: "phase_of s c = Critical \<Longrightarrow> pthread_spin_unlock (lock_word s) = (r, l) \<Longrightarrow>
    core_step c s (s\<lparr>lock_word := l, phase_of := (phase_of s)(c := Outside)\<rparr>)"

inductive_cases core_stepE: "core_step c s s'"

text \<open>The states that any schedule of any cores reaches from an initialised lock.\<close>

inductive lock_reach :: "cores_state \<Rightarrow> bool" where
  start: "pthread_spin_init l0 = (r, l) \<Longrightarrow> lock_reach \<lparr>lock_word = l, phase_of = (\<lambda>_. Outside)\<rparr>"
| step: "lock_reach s \<Longrightarrow> core_step c s s' \<Longrightarrow> lock_reach s'"

definition holders :: "cores_state \<Rightarrow> nat set" where
  "holders s = {c. phase_of s c = Critical}"

definition lock_inv :: "cores_state \<Rightarrow> bool" where
  "lock_inv s \<longleftrightarrow> lock_word s = 0 \<and> holders s = {} \<or> lock_word s = 1 \<and> (\<exists>c. holders s = {c})"

lemma cas_True: "cas lock e d = (True, l) \<longleftrightarrow> lock = e \<and> l = d"
  by (auto simp: cas_def)

lemma holders_move:
  "holders (s\<lparr>phase_of := (phase_of s)(c := p)\<rparr>) =
     (if p = Critical then insert c (holders s) else holders s - {c})"
  "holders (s\<lparr>lock_word := l, phase_of := (phase_of s)(c := p)\<rparr>) =
     (if p = Critical then insert c (holders s) else holders s - {c})"
  by (auto simp: holders_def)

lemma not_holder: "phase_of s c \<noteq> Critical \<Longrightarrow> holders s - {c} = holders s"
  by (auto simp: holders_def)

lemma lock_inv_step:
  assumes "core_step c s s'" "lock_inv s"
  shows "lock_inv s'"
  using assms(1)
proof (cases rule: core_step.cases)
  case (exchange l)
  then have "lock_word s = 0" "l = 1" by (simp_all add: cas_True)
  then show ?thesis using assms(2) by (simp add: exchange(1) lock_inv_def holders_move)
next
  case (release r l)
  then have l: "l = 0" and c: "c \<in> holders s" by (simp_all add: pthread_spin_unlock_def holders_def)
  have "holders s = {c}" using assms(2) c by (auto simp: lock_inv_def)
  with l show ?thesis by (simp add: release(1) lock_inv_def holders_move)
qed (use assms(2) in \<open>simp_all add: lock_inv_def holders_move not_holder\<close>)

lemma lock_inv_reach: "lock_reach s \<Longrightarrow> lock_inv s"
proof (induction rule: lock_reach.induct)
  case (start l0 r l)
  then show ?case by (simp add: lock_inv_def holders_def pthread_spin_init_def)
next
  case (step s c s')
  then show ?case using lock_inv_step by blast
qed

section \<open>Properties\<close>

text \<open>
  C27. Mutual exclusion: in every state that any interleaving of any number of cores reaches, at most one
  core holds the lock, and the lock word is 1 exactly while a core holds it.
\<close>

theorem spin_lock_mutual_exclusion:
  assumes "lock_reach s"
  shows "(phase_of s c = Critical \<and> phase_of s d = Critical \<longrightarrow> c = d) \<and>
    (lock_word s = 1 \<longleftrightarrow> (\<exists>c. phase_of s c = Critical)) \<and> (lock_word s = 0 \<or> lock_word s = 1)"
proof -
  have "phase_of s x = Critical \<longleftrightarrow> x \<in> holders s" for x by (simp add: holders_def)
  then show ?thesis using lock_inv_reach [OF assms] by (auto simp: lock_inv_def)
qed

text \<open>A schedule in which core 0 takes the lock while core 1 waits for it.\<close>

definition demo_cores :: cores_state where
  "demo_cores = \<lparr>lock_word = 1, phase_of = (\<lambda>_. Outside)(0 := Critical, 1 := Spinning)\<rparr>"

lemma demo_cores_reach: "lock_reach demo_cores"
proof -
  let ?s0 = "\<lparr>lock_word = 0, phase_of = \<lambda>_. Outside\<rparr>"
  let ?s1 = "?s0\<lparr>phase_of := (phase_of ?s0)(0 := Exchange)\<rparr>"
  let ?s2 = "?s1\<lparr>lock_word := 1, phase_of := (phase_of ?s1)(0 := Critical)\<rparr>"
  let ?s3 = "?s2\<lparr>phase_of := (phase_of ?s2)(1 := Exchange)\<rparr>"
  let ?s4 = "?s3\<lparr>phase_of := (phase_of ?s3)(1 := Spinning)\<rparr>"
  have "lock_reach ?s0" by (rule lock_reach.start [of 0 0]) (simp add: pthread_spin_init_def)
  then have "lock_reach ?s1" by (rule lock_reach.step) (rule core_step.enter, simp)
  then have "lock_reach ?s2"
    by (rule lock_reach.step) (rule core_step.exchange, simp_all add: cas_def)
  then have "lock_reach ?s3" by (rule lock_reach.step) (rule core_step.enter, simp)
  then have "lock_reach ?s4" by (rule lock_reach.step) (rule core_step.exchange_fails, simp)
  moreover have "?s4 = demo_cores" by (auto simp: demo_cores_def)
  ultimately show ?thesis by simp
qed

theorem spin_lock_mutual_exclusion_witness:
  "lock_reach demo_cores \<and> phase_of demo_cores 0 = Critical \<and> phase_of demo_cores 1 \<noteq> Critical \<and>
   lock_word demo_cores = 1"
  using spin_lock_mutual_exclusion [OF demo_cores_reach, of 0 1] demo_cores_reach
  by (simp add: demo_cores_def)

text \<open>
  Progress: in every reachable state a core that wants the lock while it is free can take it in at
  most two of its own steps, and a core that holds it can always release it, which frees the lock for
  the others; so waiting cores are blocked by nothing but the current holder.
\<close>

theorem spin_lock_progress:
  assumes "lock_reach s"
  shows "(lock_word s = 0 \<and> (phase_of s c = Exchange \<or> phase_of s c = Spinning) \<longrightarrow>
      (\<exists>s1 s2. (s1 = s \<or> core_step c s s1) \<and> core_step c s1 s2 \<and> phase_of s2 c = Critical \<and> lock_word s2 = 1))
    \<and> (phase_of s c = Critical \<longrightarrow>
      (\<exists>s'. core_step c s s' \<and> lock_word s' = 0 \<and> (\<forall>d. phase_of s' d \<noteq> Critical)))"
proof (intro conjI impI)
  assume a: "lock_word s = 0 \<and> (phase_of s c = Exchange \<or> phase_of s c = Spinning)"
  define s1 where "s1 = (if phase_of s c = Exchange then s else s\<lparr>phase_of := (phase_of s)(c := Exchange)\<rparr>)"
  have "s1 = s \<or> core_step c s s1" using a core_step.retry [of s c] by (auto simp: s1_def)
  moreover have "core_step c s1 (s1\<lparr>lock_word := 1, phase_of := (phase_of s1)(c := Critical)\<rparr>)"
    using a by (intro core_step.exchange) (auto simp: s1_def cas_def)
  ultimately show "\<exists>s1 s2. (s1 = s \<or> core_step c s s1) \<and> core_step c s1 s2 \<and> phase_of s2 c = Critical \<and>
      lock_word s2 = 1" by fastforce
next
  assume a: "phase_of s c = Critical"
  let ?s = "s\<lparr>lock_word := 0, phase_of := (phase_of s)(c := Outside)\<rparr>"
  have step: "core_step c s ?s" using a by (intro core_step.release) (auto simp: pthread_spin_unlock_def)
  have "lock_reach ?s" using assms step by (rule lock_reach.step)
  from lock_inv_reach [OF this] have "holders ?s = {}" by (simp add: lock_inv_def)
  then have "phase_of ?s d \<noteq> Critical" for d unfolding holders_def by blast
  with step show "\<exists>s'. core_step c s s' \<and> lock_word s' = 0 \<and> (\<forall>d. phase_of s' d \<noteq> Critical)" by fastforce
qed

theorem spin_lock_progress_witness:
  "\<exists>s'. core_step 0 demo_cores s' \<and> lock_word s' = 0 \<and> (\<forall>d. phase_of s' d \<noteq> Critical)"
  using spin_lock_progress [OF demo_cores_reach, of 0] by (simp add: demo_cores_def)

end
