(* ===== verification/Errno.thy ===== *)
theory Errno
  imports Spinlock
begin

text \<open>
  The error numbers of \<open>src/include/errno.h\<close>. The functions of the kernel return them; the variable
  \<open>__errno\<close> of \<open>src/src/errno.c\<close> is neither read nor written by any function.
\<close>

definition error_numbers :: "(string \<times> int) list" where
  "error_numbers =
  [(''E2BIG'', 1), (''EACCES'', 2), (''EADDRINUSE'', 3), (''EADDRNOTAVAIL'', 4), (''EAFNOSUPPORT'', 5), (''EAGAIN'', 6),
    (''EALREADY'', 7), (''EBADF'', 8), (''EBADMSG'', 9), (''EBUSY'', 10), (''ECANCELED'', 11), (''ECHILD'', 12),
    (''ECONNABORTED'', 13), (''ECONNREFUSED'', 14), (''ECONNRESET'', 15), (''EDEADLK'', 16), (''EDESTADDRREQ'', 17),
    (''EDOM'', 18), (''EDQUOT'', 19), (''EEXIST'', 20), (''EFAULT'', 21), (''EFBIG'', 22), (''EHOSTUNREACH'', 23),
    (''EIDRM'', 24), (''EILSEQ'', 25), (''EINPROGRESS'', 26), (''EINTR'', 27), (''EINVAL'', 28), (''EIO'', 29),
    (''EISCONN'', 30), (''EISDIR'', 31), (''ELOOP'', 32), (''EMFILE'', 33), (''EMLINK'', 34), (''EMSGSIZE'', 35),
    (''EMULTIHOP'', 36), (''ENAMETOOLONG'', 37), (''ENETDOWN'', 38), (''ENETRESET'', 39), (''ENETUNREACH'', 40),
    (''ENFILE'', 41), (''ENOBUFS'', 42), (''ENODATA'', 43), (''ENODEV'', 44), (''ENOENT'', 45), (''ENOEXEC'', 46),
    (''ENOLCK'', 47), (''ENOLINK'', 48), (''ENOMEM'', 49), (''ENOMSG'', 50), (''ENOPROTOOPT'', 51), (''ENOSPC'', 52),
    (''ENOSR'', 53), (''ENOSTR'', 54), (''ENOSYS'', 55), (''ENOTCONN'', 56), (''ENOTDIR'', 57), (''ENOTEMPTY'', 58),
    (''ENOTRECOVERABLE'', 59), (''ENOTSOCK'', 60), (''ENOTSUP'', 61), (''ENOTTY'', 62), (''ENXIO'', 63),
    (''EOPNOTSUPP'', 61), (''EOVERFLOW'', 65), (''EOWNERDEAD'', 66), (''EPERM'', 67), (''EPIPE'', 68), (''EPROTO'', 69),
    (''EPROTONOSUPPORT'', 70), (''EPROTOTYPE'', 71), (''ERANGE'', 72), (''EROFS'', 73), (''ESPIPE'', 74), (''ESRCH'', 75),
    (''ESTALE'', 76), (''ETIME'', 77), (''ETIMEDOUT'', 78), (''ETXTBSY'', 79), (''EWOULDBLOCK'', 6), (''EXDEV'', 81)]"

definition errno_static :: int where "errno_static = 0"

text \<open>
  No number is 0, the result of success; each name stands for one number; and but for the two pairs of
  names that mean the same by definition, different names stand for different numbers.
\<close>

lemma error_numbers_positive: "(x, v) \<in> set error_numbers \<Longrightarrow> 0 < v \<and> v \<le> 81"
  by (auto simp: error_numbers_def)

lemma error_numbers_distinct:
  "distinct (map fst error_numbers)"
  "distinct (map snd (filter (\<lambda>(x, v). x \<notin> {''EOPNOTSUPP'', ''EWOULDBLOCK''}) error_numbers))"
  "map_of error_numbers ''EOPNOTSUPP'' = map_of error_numbers ''ENOTSUP''"
  "map_of error_numbers ''EWOULDBLOCK'' = map_of error_numbers ''EAGAIN''"
  by code_simp+

text \<open>The numbers that the functions of \<open>src/src/pthread.c\<close> return.\<close>

lemma error_numbers_used:
  "map_of error_numbers ''EBUSY'' = Some EBUSY" "map_of error_numbers ''EINVAL'' = Some EINVAL"
  "map_of error_numbers ''EAGAIN'' = Some EAGAIN"
  by (simp_all add: error_numbers_def EBUSY_def EINVAL_def EAGAIN_def)

end
