(* ===== verification/Entry.thy ===== *)
theory Entry
  imports Cmem
begin

text \<open>
  The code in assembly around the kernel (\<open>src/src/boot.S\<close>): the start of the first core, the entry of the
  second core, and the trap frame that the exception vectors store and load. An instruction is a function on the
  registers of a core and the memory; a macro or an entry is the sequence of its instructions.
\<close>

section \<open>A core\<close>

record machine =
  xr :: "nat \<Rightarrow> u64"
  vr :: "nat \<Rightarrow> 128 word"
  spr :: u64
  pc :: u64
  pstate :: u64
  sp_el0 :: u64
  elr_el1 :: u64
  spsr_el1 :: u64
  fpsr :: u64
  fpcr :: u64
  c_vbar :: u64
  c_cpacr :: u64
  c_sctlr :: u64
  c_mair :: u64
  c_tcr :: u64
  c_ttbr0 :: u64
  c_ttbr1 :: u64
  irq_masked :: bool
  mmem :: mem

text \<open>Moves, and stores and loads relative to the stack pointer; \<open>w\<close> is the lower half of an \<open>x\<close> register.\<close>

definition set_x :: "nat \<Rightarrow> u64 \<Rightarrow> machine \<Rightarrow> machine" where
  "set_x r v m = m\<lparr>xr := (xr m)(r := v)\<rparr>"

definition st128 :: "mem \<Rightarrow> u64 \<Rightarrow> 128 word \<Rightarrow> mem" where "st128 m a v = st_bytes m a (to_le 16 v)"
definition ld128 :: "mem \<Rightarrow> u64 \<Rightarrow> 128 word" where "ld128 m a = le_word (ld_bytes m a 16)"

definition str_x :: "nat \<Rightarrow> nat \<Rightarrow> machine \<Rightarrow> machine" where
  "str_x r off m = m\<lparr>mmem := st64 (mmem m) (spr m + of_nat off) (xr m r)\<rparr>"

definition str_w :: "nat \<Rightarrow> nat \<Rightarrow> machine \<Rightarrow> machine" where
  "str_w r off m = m\<lparr>mmem := st32 (mmem m) (spr m + of_nat off) (ucast (xr m r))\<rparr>"

definition stp :: "nat \<Rightarrow> nat \<Rightarrow> nat \<Rightarrow> machine \<Rightarrow> machine" where
  "stp r1 r2 off m = str_x r2 (off + 8) (str_x r1 off m)"

definition stp_q :: "nat \<Rightarrow> nat \<Rightarrow> nat \<Rightarrow> machine \<Rightarrow> machine" where
  "stp_q r1 r2 off m = m\<lparr>mmem := st128 (st128 (mmem m) (spr m + of_nat off) (vr m r1)) (spr m + of_nat (off + 16)) (vr m r2)\<rparr>"

definition ldr_x :: "nat \<Rightarrow> nat \<Rightarrow> machine \<Rightarrow> machine" where
  "ldr_x r off m = set_x r (ld64 (mmem m) (spr m + of_nat off)) m"

definition ldr_w :: "nat \<Rightarrow> nat \<Rightarrow> machine \<Rightarrow> machine" where
  "ldr_w r off m = set_x r (ucast (ld32 (mmem m) (spr m + of_nat off))) m"

definition ldp :: "nat \<Rightarrow> nat \<Rightarrow> nat \<Rightarrow> machine \<Rightarrow> machine" where
  "ldp r1 r2 off m = ldr_x r2 (off + 8) (ldr_x r1 off m)"

definition ldp_q :: "nat \<Rightarrow> nat \<Rightarrow> nat \<Rightarrow> machine \<Rightarrow> machine" where
  "ldp_q r1 r2 off m = m\<lparr>vr := (vr m)(r1 := ld128 (mmem m) (spr m + of_nat off), r2 := ld128 (mmem m) (spr m + of_nat (off + 16)))\<rparr>"

definition eret :: "machine \<Rightarrow> machine" where
  "eret m = m\<lparr>pc := elr_el1 m, pstate := spsr_el1 m\<rparr>"

section \<open>The trap frame\<close>

definition save_context :: "machine \<Rightarrow> machine" where
  "save_context m =
  (let m = m\<lparr>spr := spr m - 816\<rparr>; m = stp 0 1 (16 * 0) m; m = stp 2 3 (16 * 1) m;
       m = stp 4 5 (16 * 2) m; m = stp 6 7 (16 * 3) m; m = stp 8 9 (16 * 4) m; m = stp 10 11 (16 * 5) m;
       m = stp 12 13 (16 * 6) m; m = stp 14 15 (16 * 7) m; m = stp 16 17 (16 * 8) m; m = stp 18 19 (16 * 9) m;
       m = stp 20 21 (16 * 10) m; m = stp 22 23 (16 * 11) m; m = stp 24 25 (16 * 12) m; m = stp 26 27 (16 * 13) m;
       m = stp 28 29 (16 * 14) m; m = str_x 30 (16 * 15) m; m = set_x 0 (sp_el0 m) m; m = str_x 0 256 m;
       m = set_x 0 (elr_el1 m) m; m = set_x 1 (spsr_el1 m) m; m = stp 0 1 264 m; m = stp_q 0 1 288 m;
       m = stp_q 2 3 320 m; m = stp_q 4 5 352 m; m = stp_q 6 7 384 m; m = stp_q 8 9 416 m; m = stp_q 10 11 448 m;
       m = stp_q 12 13 480 m; m = stp_q 14 15 512 m; m = stp_q 16 17 544 m; m = stp_q 18 19 576 m;
       m = stp_q 20 21 608 m; m = stp_q 22 23 640 m; m = stp_q 24 25 672 m; m = stp_q 26 27 704 m;
       m = stp_q 28 29 736 m; m = stp_q 30 31 768 m; m = set_x 21 (fpsr m) m; m = set_x 22 (fpcr m) m;
       m = str_w 21 800 m
   in str_w 22 804 m)"

definition restore_context :: "machine \<Rightarrow> machine" where
  "restore_context m =
  (let m = ldr_w 21 800 m; m = ldr_w 22 804 m; m = m\<lparr>fpsr := xr m 21\<rparr>;
       m = m\<lparr>fpcr := xr m 22\<rparr>; m = ldp_q 0 1 288 m; m = ldp_q 2 3 320 m; m = ldp_q 4 5 352 m;
       m = ldp_q 6 7 384 m; m = ldp_q 8 9 416 m; m = ldp_q 10 11 448 m; m = ldp_q 12 13 480 m; m = ldp_q 14 15 512 m;
       m = ldp_q 16 17 544 m; m = ldp_q 18 19 576 m; m = ldp_q 20 21 608 m; m = ldp_q 22 23 640 m;
       m = ldp_q 24 25 672 m; m = ldp_q 26 27 704 m; m = ldp_q 28 29 736 m; m = ldp_q 30 31 768 m; m = ldp 0 1 264 m;
       m = m\<lparr>elr_el1 := xr m 0\<rparr>; m = m\<lparr>spsr_el1 := xr m 1\<rparr>; m = ldr_x 0 256 m;
       m = m\<lparr>sp_el0 := xr m 0\<rparr>; m = ldp 0 1 (16 * 0) m; m = ldp 2 3 (16 * 1) m; m = ldp 4 5 (16 * 2) m;
       m = ldp 6 7 (16 * 3) m; m = ldp 8 9 (16 * 4) m; m = ldp 10 11 (16 * 5) m; m = ldp 12 13 (16 * 6) m;
       m = ldp 14 15 (16 * 7) m; m = ldp 16 17 (16 * 8) m; m = ldp 18 19 (16 * 9) m; m = ldp 20 21 (16 * 10) m;
       m = ldp 22 23 (16 * 11) m; m = ldp 24 25 (16 * 12) m; m = ldp 26 27 (16 * 13) m; m = ldp 28 29 (16 * 14) m;
       m = ldr_x 30 (16 * 15) m; m = m\<lparr>spr := spr m + 816\<rparr>
   in eret m)"

text \<open>\<open>irq_entry\<close> and \<open>sync_entry\<close>, with the handler in C as a function on the core; it gets the frame in \<open>x0\<close>.\<close>

definition exception_entry :: "(machine \<Rightarrow> machine) \<Rightarrow> machine \<Rightarrow> machine" where
  "exception_entry handler m = (let m = save_context m; m = set_x 0 (spr m) m; m = handler m in restore_context m)"

section \<open>The start of the two cores\<close>

text \<open>
  The loop that clears the static variables, eight bytes at a time: \<open>x1\<close> is the address, \<open>x2\<close> counts down, and
  the loop ends when it is exactly zero.
\<close>

partial_function (option) clear_bss :: "machine \<Rightarrow> machine option" where
  "clear_bss m =
     (let m = m\<lparr>mmem := st64 (mmem m) (xr m 1) (xr m 3)\<rparr>; m = set_x 1 (xr m 1 + 8) m; m = set_x 2 (xr m 2 - 8) m
      in if xr m 2 \<noteq> 0 then clear_bss m else Some m)"

text \<open>
  \<open>entry_point\<close>, up to the call of \<open>main\<close>; the arguments are the addresses that the linker gives to the symbols.
\<close>

definition entry_setup :: "u64 \<Rightarrow> u64 \<Rightarrow> u64 \<Rightarrow> u64 \<Rightarrow> u64 \<Rightarrow> machine \<Rightarrow> machine" where
  "entry_setup dtb_at stack_top vector_table bss_start bss_end m =
     (let m = set_x 1 dtb_at m; m = m\<lparr>mmem := st64 (mmem m) (xr m 1) (xr m 0)\<rparr>;
       m = set_x 0 stack_top m; m = m\<lparr>spr := xr m 0\<rparr>;
       m = set_x 0 vector_table m; m = m\<lparr>c_vbar := xr m 0\<rparr>;
       m = set_x 0 (c_cpacr m) m; m = set_x 0 (xr m 0 OR push_bit 20 3) m; m = m\<lparr>c_cpacr := xr m 0\<rparr>;
       m = set_x 0 (c_sctlr m) m; m = set_x 0 (xr m 0 AND NOT 1) m; m = m\<lparr>c_sctlr := xr m 0\<rparr>;
       m = m\<lparr>irq_masked := False\<rparr>;
       m = set_x 1 bss_start m; m = set_x 2 bss_end m
      in set_x 2 (xr m 2 - xr m 1) m)"

definition entry_point :: "u64 \<Rightarrow> u64 \<Rightarrow> u64 \<Rightarrow> u64 \<Rightarrow> u64 \<Rightarrow> u64 \<Rightarrow> u64 \<Rightarrow> machine \<Rightarrow> machine option" where
  "entry_point dtb_at stack_top vector_table bss_start bss_end main_at hang_at m =
     (let m = entry_setup dtb_at stack_top vector_table bss_start bss_end m
      in do {
        m \<leftarrow> (if xr m 2 = 0 then Some m else clear_bss (set_x 3 0 m));
        Some ((set_x 30 hang_at m)\<lparr>pc := main_at\<rparr>)
      })"

text \<open>\<open>secondary_entry\<close>, with the address of the record of the core in \<open>x0\<close>.\<close>

definition secondary_entry :: "machine \<Rightarrow> machine" where
  "secondary_entry m =
     (let m = set_x 1 (ld64 (mmem m) (xr m 0)) m; m = m\<lparr>spr := xr m 1\<rparr>;
       m = set_x 1 (c_cpacr m) m; m = set_x 1 (xr m 1 OR push_bit 20 3) m; m = m\<lparr>c_cpacr := xr m 1\<rparr>;
       m = set_x 1 (ld64 (mmem m) (xr m 0 + 8)) m; m = m\<lparr>c_ttbr0 := xr m 1\<rparr>; m = m\<lparr>c_ttbr1 := xr m 1\<rparr>;
       m = set_x 1 (ld64 (mmem m) (xr m 0 + 24)) m; m = m\<lparr>c_mair := xr m 1\<rparr>;
       m = set_x 1 (ld64 (mmem m) (xr m 0 + 16)) m; m = m\<lparr>c_tcr := xr m 1\<rparr>;
       m = set_x 1 (c_sctlr m) m; m = set_x 1 (xr m 1 OR 1) m; m = set_x 1 (xr m 1 OR push_bit 2 1) m;
       m = set_x 1 (xr m 1 OR push_bit 12 1) m; m = m\<lparr>c_sctlr := xr m 1\<rparr>;
       m = set_x 1 (ld64 (mmem m) (xr m 0 + 32)) m
      in m\<lparr>pc := xr m 1\<rparr>)"

section \<open>Stores into a frame\<close>

text \<open>Stores of byte sequences at ascending offsets from a base.\<close>

primrec put :: "u64 \<Rightarrow> (nat \<times> u8 list) list \<Rightarrow> mem \<Rightarrow> mem" where
  "put b [] m = m"
| "put b (i # is) m = put b is (st_bytes m (b + of_nat (fst i)) (snd i))"

primrec fits :: "nat \<Rightarrow> nat \<Rightarrow> (nat \<times> u8 list) list \<Rightarrow> bool" where
  "fits lo hi [] \<longleftrightarrow> lo \<le> hi"
| "fits lo hi (i # is) \<longleftrightarrow> lo \<le> fst i \<and> fits (fst i + length (snd i)) hi is"

lemma put_append: "put b (xs @ ys) m = put b ys (put b xs m)"
  by (induction xs arbitrary: m) simp_all

lemma fits_le: "fits lo hi is \<Longrightarrow> lo \<le> hi"
  by (induction "is" arbitrary: lo) fastforce+

lemma at_offset:
  assumes "k < 2 ^ 64" "off + n \<le> 2 ^ 64"
  shows "in_block (b + of_nat off) n (b + of_nat k) \<longleftrightarrow> off \<le> k \<and> k < off + n"
proof
  assume "in_block (b + of_nat off) n (b + of_nat k)"
  then obtain j where j: "j < n" "b + of_nat k = b + of_nat off + of_nat j" by (rule in_blockE)
  then have "(of_nat k :: u64) = of_nat (off + j)" by (simp add: add.assoc)
  then have "unat (of_nat k :: u64) = unat (of_nat (off + j) :: u64)" by simp
  moreover have "unat (of_nat k :: u64) = k" using assms(1) by (simp add: unat_u64_of_nat)
  moreover have "unat (of_nat (off + j) :: u64) = off + j" using j(1) assms(2) by (intro unat_u64_of_nat) simp
  ultimately have "k = off + j" by simp
  then show "off \<le> k \<and> k < off + n" using j(1) by simp
next
  assume "off \<le> k \<and> k < off + n"
  then have "k - off < n" "off + (k - off) = k" by linarith+
  then obtain j where j: "k = off + j" "j < n" by metis
  then have "in_block (b + of_nat off) n (b + of_nat off + of_nat j)" using assms(2) by (intro in_block_offset) simp_all
  then show "in_block (b + of_nat off) n (b + of_nat k)" by (simp add: j(1) add.assoc)
qed

lemma put_below:
  assumes "fits lo hi is" "hi \<le> 2 ^ 64" "k < lo"
  shows "put b is m (b + of_nat k) = m (b + of_nat k)"
  using assms
proof (induction "is" arbitrary: lo m)
  case (Cons i "is")
  note le = fits_le [of "fst i + length (snd i)" hi "is"]
  have "k < fst i + length (snd i)" using Cons.prems by simp
  from Cons.IH [OF _ Cons.prems(2) this] Cons.prems(1) have
    "put b (i # is) m (b + of_nat k) = st_bytes m (b + of_nat (fst i)) (snd i) (b + of_nat k)" by simp
  moreover have "\<not> in_block (b + of_nat (fst i)) (length (snd i)) (b + of_nat k)"
    using at_offset [of k "fst i" "length (snd i)" b] Cons.prems le by simp
  ultimately show ?case by (simp add: st_bytes_out)
qed simp

lemma put_read:
  assumes "fits lo hi is" "hi \<le> 2 ^ 64" "i \<in> set is"
  shows "ld_bytes (put b is m) (b + of_nat (fst i)) (length (snd i)) = snd i"
  using assms
proof (induction "is" arbitrary: lo m)
  case (Cons j "is")
  show ?case
  proof (cases "i \<in> set is")
    case True
    then show ?thesis using Cons by auto
  next
    case False
    then have i: "i = j" using Cons.prems(3) by simp
    have f: "fits (fst i + length (snd i)) hi is" using Cons.prems(1) i by simp
    have "put b (j # is) m (b + of_nat (fst i) + of_nat k) = snd i ! k" if k: "k < length (snd i)" for k
    proof -
      have "fst i + k < fst i + length (snd i)" using k by simp
      from put_below [OF f Cons.prems(2) this] have
        "put b (j # is) m (b + of_nat (fst i) + of_nat k) = st_bytes m (b + of_nat (fst i)) (snd i) (b + of_nat (fst i) + of_nat k)"
        by (simp add: i add.assoc)
      moreover have "length (snd i) \<le> 2 ^ 64" using fits_le [OF f] Cons.prems(2) by simp
      ultimately show ?thesis using in_block_offset [OF k] k by (simp add: st_bytes_in unat_of_nat)
    qed
    then show ?thesis by (intro nth_equalityI) simp_all
  qed
qed simp

lemma put_outside:
  assumes "fits lo hi is" "hi \<le> 2 ^ 64" "\<not> in_block b hi x"
  shows "put b is m x = m x"
  using assms
proof (induction "is" arbitrary: lo m)
  case (Cons i "is")
  have f: "fits (fst i + length (snd i)) hi is" using Cons.prems(1) by simp
  have x: "x = b + of_nat (unat (x - b))" by simp
  have "hi \<le> unat (x - b)" using Cons.prems(3) by (simp add: in_block_def)
  then have "\<not> in_block (b + of_nat (fst i)) (length (snd i)) x"
    using at_offset [of "unat (x - b)" "fst i" "length (snd i)" b] fits_le [OF f] Cons.prems(2) unat_u64_lt [of "x - b"] by (simp flip: x)
  then show ?case using Cons.IH [OF f Cons.prems(2,3)] by (simp add: st_bytes_out)
qed simp


section \<open>What is in the frame\<close>

definition frame_items :: "machine \<Rightarrow> (nat \<times> u8 list) list" where
  "frame_items m = map (\<lambda>i. (8 * i, to_le 8 (xr m i))) [0..<31] @
     [(256, to_le 8 (sp_el0 m)), (264, to_le 8 (elr_el1 m)), (272, to_le 8 (spsr_el1 m))] @
     map (\<lambda>i. (288 + 16 * i, to_le 16 (vr m i))) [0..<32] @
     [(800, to_le 4 (ucast (fpsr m) :: u32)), (804, to_le 4 (ucast (fpcr m) :: u32))]"

text \<open>What an instruction does to each part of the core.\<close>

lemmas instruction_defs = set_x_def str_x_def str_w_def stp_def stp_q_def ldr_x_def ldr_w_def ldp_def ldp_q_def
  st64_def st32_def st128_def

lemma instruction_effect [simp]:
  "xr (set_x r v m) = (xr m)(r := v)"
  "mmem (str_x r off m) = st_bytes (mmem m) (spr m + of_nat off) (to_le 8 (xr m r))"
  "mmem (str_w r off m) = st_bytes (mmem m) (spr m + of_nat off) (to_le 4 (ucast (xr m r) :: u32))"
  "mmem (stp r1 r2 off m) = st_bytes (st_bytes (mmem m) (spr m + of_nat off) (to_le 8 (xr m r1))) (spr m + of_nat (off + 8)) (to_le 8 (xr m r2))"
  "mmem (stp_q r1 r2 off m) = st_bytes (st_bytes (mmem m) (spr m + of_nat off) (to_le 16 (vr m r1))) (spr m + of_nat (off + 16)) (to_le 16 (vr m r2))"
  "xr (ldr_x r off m) = (xr m)(r := ld64 (mmem m) (spr m + of_nat off))"
  "xr (ldr_w r off m) = (xr m)(r := ucast (ld32 (mmem m) (spr m + of_nat off)))"
  "xr (ldp r1 r2 off m) = (xr m)(r1 := ld64 (mmem m) (spr m + of_nat off), r2 := ld64 (mmem m) (spr m + of_nat (off + 8)))"
  "vr (ldp_q r1 r2 off m) = (vr m)(r1 := ld128 (mmem m) (spr m + of_nat off), r2 := ld128 (mmem m) (spr m + of_nat (off + 16)))"
  by (simp_all add: instruction_defs)

lemma xr_kept [simp]:
  "xr (str_x r off m) = xr m" "xr (str_w r off m) = xr m" "xr (stp r1 r2 off m) = xr m" "xr (stp_q r1 r2 off m) = xr m"
  "xr (ldp_q r1 r2 off m) = xr m"
  by (simp_all add: instruction_defs)

lemma vr_kept [simp]:
  "vr (set_x r v m) = vr m" "vr (str_x r off m) = vr m" "vr (str_w r off m) = vr m" "vr (stp r1 r2 off m) = vr m"
  "vr (stp_q r1 r2 off m) = vr m" "vr (ldr_x r off m) = vr m" "vr (ldr_w r off m) = vr m" "vr (ldp r1 r2 off m) = vr m"
  by (simp_all add: instruction_defs)

lemma spr_kept [simp]:
  "spr (set_x r v m) = spr m" "spr (str_x r off m) = spr m" "spr (str_w r off m) = spr m" "spr (stp r1 r2 off m) = spr m"
  "spr (stp_q r1 r2 off m) = spr m" "spr (ldr_x r off m) = spr m" "spr (ldr_w r off m) = spr m" "spr (ldp r1 r2 off m) = spr m"
  "spr (ldp_q r1 r2 off m) = spr m"
  by (simp_all add: instruction_defs)

lemma mmem_kept [simp]:
  "mmem (set_x r v m) = mmem m" "mmem (ldr_x r off m) = mmem m" "mmem (ldr_w r off m) = mmem m" "mmem (ldp r1 r2 off m) = mmem m"
  "mmem (ldp_q r1 r2 off m) = mmem m"
  by (simp_all add: instruction_defs)

lemma sp_el0_kept [simp]:
  "sp_el0 (set_x r v m) = sp_el0 m" "sp_el0 (str_x r off m) = sp_el0 m" "sp_el0 (str_w r off m) = sp_el0 m"
  "sp_el0 (stp r1 r2 off m) = sp_el0 m" "sp_el0 (stp_q r1 r2 off m) = sp_el0 m" "sp_el0 (ldr_x r off m) = sp_el0 m"
  "sp_el0 (ldr_w r off m) = sp_el0 m" "sp_el0 (ldp r1 r2 off m) = sp_el0 m" "sp_el0 (ldp_q r1 r2 off m) = sp_el0 m"
  by (simp_all add: instruction_defs)

lemma elr_el1_kept [simp]:
  "elr_el1 (set_x r v m) = elr_el1 m" "elr_el1 (str_x r off m) = elr_el1 m" "elr_el1 (str_w r off m) = elr_el1 m"
  "elr_el1 (stp r1 r2 off m) = elr_el1 m" "elr_el1 (stp_q r1 r2 off m) = elr_el1 m" "elr_el1 (ldr_x r off m) = elr_el1 m"
  "elr_el1 (ldr_w r off m) = elr_el1 m" "elr_el1 (ldp r1 r2 off m) = elr_el1 m" "elr_el1 (ldp_q r1 r2 off m) = elr_el1 m"
  by (simp_all add: instruction_defs)

lemma spsr_el1_kept [simp]:
  "spsr_el1 (set_x r v m) = spsr_el1 m" "spsr_el1 (str_x r off m) = spsr_el1 m" "spsr_el1 (str_w r off m) = spsr_el1 m"
  "spsr_el1 (stp r1 r2 off m) = spsr_el1 m" "spsr_el1 (stp_q r1 r2 off m) = spsr_el1 m" "spsr_el1 (ldr_x r off m) = spsr_el1 m"
  "spsr_el1 (ldr_w r off m) = spsr_el1 m" "spsr_el1 (ldp r1 r2 off m) = spsr_el1 m" "spsr_el1 (ldp_q r1 r2 off m) = spsr_el1 m"
  by (simp_all add: instruction_defs)

lemma fpsr_kept [simp]:
  "fpsr (set_x r v m) = fpsr m" "fpsr (str_x r off m) = fpsr m" "fpsr (str_w r off m) = fpsr m" "fpsr (stp r1 r2 off m) = fpsr m"
  "fpsr (stp_q r1 r2 off m) = fpsr m" "fpsr (ldr_x r off m) = fpsr m" "fpsr (ldr_w r off m) = fpsr m"
  "fpsr (ldp r1 r2 off m) = fpsr m" "fpsr (ldp_q r1 r2 off m) = fpsr m"
  by (simp_all add: instruction_defs)

lemma fpcr_kept [simp]:
  "fpcr (set_x r v m) = fpcr m" "fpcr (str_x r off m) = fpcr m" "fpcr (str_w r off m) = fpcr m" "fpcr (stp r1 r2 off m) = fpcr m"
  "fpcr (stp_q r1 r2 off m) = fpcr m" "fpcr (ldr_x r off m) = fpcr m" "fpcr (ldr_w r off m) = fpcr m"
  "fpcr (ldp r1 r2 off m) = fpcr m" "fpcr (ldp_q r1 r2 off m) = fpcr m"
  by (simp_all add: instruction_defs)

lemma register_numbers:
  "[0..<31] = [0, 1, 2, 3, 4, 5, 6, 7, 8, 9, 10, 11, 12, 13, 14, 15, 16, 17, 18, 19, 20, 21, 22, 23, 24, 25, 26, 27, 28, 29, 30 :: nat]"
  "[0..<32] = [0, 1, 2, 3, 4, 5, 6, 7, 8, 9, 10, 11, 12, 13, 14, 15, 16, 17, 18, 19, 20, 21, 22, 23, 24, 25, 26, 27, 28, 29, 30, 31 :: nat]"
  by code_simp+

lemma frame_fits: "fits 0 816 (frame_items m)"
  by (simp add: frame_items_def register_numbers)

lemma save_memory: "mmem (save_context m) = put (spr m - 816) (frame_items m) (mmem m)"
  unfolding save_context_def Let_def by (simp add: frame_items_def register_numbers)

lemma save_registers: "spr (save_context m) = spr m - 816"
  unfolding save_context_def Let_def by simp

lemma restore_registers:
  "i < 31 \<Longrightarrow> xr (restore_context m) i = ld64 (mmem m) (spr m + of_nat (8 * i))"
  "j < 32 \<Longrightarrow> vr (restore_context m) j = ld128 (mmem m) (spr m + of_nat (288 + 16 * j))"
  "spr (restore_context m) = spr m + 816" "mmem (restore_context m) = mmem m"
  "sp_el0 (restore_context m) = ld64 (mmem m) (spr m + 256)"
  "pc (restore_context m) = ld64 (mmem m) (spr m + 264)" "pstate (restore_context m) = ld64 (mmem m) (spr m + 272)"
  "fpsr (restore_context m) = ucast (ld32 (mmem m) (spr m + 800))" "fpcr (restore_context m) = ucast (ld32 (mmem m) (spr m + 804))"
proof -
  have "\<forall>i \<in> set [0..<31]. xr (restore_context m) i = ld64 (mmem m) (spr m + of_nat (8 * i))"
    unfolding restore_context_def Let_def by (simp add: register_numbers eret_def)
  then show "i < 31 \<Longrightarrow> xr (restore_context m) i = ld64 (mmem m) (spr m + of_nat (8 * i))" by simp
  have "\<forall>j \<in> set [0..<32]. vr (restore_context m) j = ld128 (mmem m) (spr m + of_nat (288 + 16 * j))"
    unfolding restore_context_def Let_def by (simp add: register_numbers eret_def)
  then show "j < 32 \<Longrightarrow> vr (restore_context m) j = ld128 (mmem m) (spr m + of_nat (288 + 16 * j))" by simp
qed (unfold restore_context_def Let_def, simp_all add: eret_def)


lemma fits_member: "fits lo hi is \<Longrightarrow> i \<in> set is \<Longrightarrow> fst i + length (snd i) \<le> hi"
  by (induction "is" arbitrary: lo) (auto dest: fits_le)

text \<open>What \<open>save_context\<close> stored is still there when the handler did not write to the frame.\<close>

lemma frame_read:
  assumes i: "(off, bs) \<in> set (frame_items m)"
    and same: "\<forall>x. in_block (spr m - 816) 816 x \<longrightarrow> m' x = mmem (save_context m) x"
  shows "ld_bytes m' (spr m - 816 + of_nat off) (length bs) = bs"
proof -
  let ?b = "spr m - 816"
  have len: "off + length bs \<le> 816" using fits_member [OF frame_fits i] by simp
  have "m' x = mmem (save_context m) x" if "in_block (?b + of_nat off) (length bs) x" for x
  proof -
    from that obtain k where k: "k < length bs" "x = ?b + of_nat off + of_nat k" by (rule in_blockE)
    then have "x = ?b + of_nat 0 + of_nat (off + k)" by (simp add: add.assoc)
    moreover have "in_block (?b + of_nat 0) 816 (?b + of_nat 0 + of_nat (off + k))" using k(1) len by (intro in_block_offset) simp_all
    ultimately show ?thesis using same by simp
  qed
  then have "ld_bytes m' (?b + of_nat off) (length bs) = ld_bytes (mmem (save_context m)) (?b + of_nat off) (length bs)"
    using len in_block_offset by (intro nth_equalityI) simp_all
  also have "\<dots> = bs" using put_read [OF frame_fits _ i] by (simp add: save_memory)
  finally show ?thesis .
qed

lemma frame_words:
  assumes same: "\<forall>x. in_block (spr m - 816) 816 x \<longrightarrow> m' x = mmem (save_context m) x"
  shows "i < 31 \<Longrightarrow> ld64 m' (spr m - 816 + of_nat (8 * i)) = xr m i"
    "j < 32 \<Longrightarrow> ld128 m' (spr m - 816 + of_nat (288 + 16 * j)) = vr m j"
    "ld64 m' (spr m - 816 + of_nat 256) = sp_el0 m" "ld64 m' (spr m - 816 + of_nat 264) = elr_el1 m"
    "ld64 m' (spr m - 816 + of_nat 272) = spsr_el1 m"
    "ld32 m' (spr m - 816 + of_nat 800) = ucast (fpsr m)" "ld32 m' (spr m - 816 + of_nat 804) = ucast (fpcr m)"
proof -
  have x: "ld64 m' (spr m - 816 + of_nat off) = v" if "(off, to_le 8 v) \<in> set (frame_items m)" for off v
    using frame_read [OF that same] by (simp add: ld64_def le_word_to_le_full)
  have w: "ld32 m' (spr m - 816 + of_nat off) = v" if "(off, to_le 4 v) \<in> set (frame_items m)" for off v
    using frame_read [OF that same] by (simp add: ld32_def le_word_to_le_full)
  have q: "ld128 m' (spr m - 816 + of_nat off) = v" if "(off, to_le 16 v) \<in> set (frame_items m)" for off v
    using frame_read [OF that same] by (simp add: ld128_def le_word_to_le_full)
  show "i < 31 \<Longrightarrow> ld64 m' (spr m - 816 + of_nat (8 * i)) = xr m i" by (rule x) (simp add: frame_items_def)
  show "j < 32 \<Longrightarrow> ld128 m' (spr m - 816 + of_nat (288 + 16 * j)) = vr m j" by (rule q) (simp add: frame_items_def)
  show "ld64 m' (spr m - 816 + of_nat 256) = sp_el0 m" "ld64 m' (spr m - 816 + of_nat 264) = elr_el1 m"
    "ld64 m' (spr m - 816 + of_nat 272) = spsr_el1 m" by (rule x, simp add: frame_items_def)+
  show "ld32 m' (spr m - 816 + of_nat 800) = ucast (fpsr m)" "ld32 m' (spr m - 816 + of_nat 804) = ucast (fpcr m)"
    by (rule w, simp add: frame_items_def)+
qed

section \<open>Clearing the static variables\<close>

lemma clear_bss_fills:
  assumes "unat (xr m 2) = 8 * Suc n" "xr m 3 = 0"
  shows "\<exists>m'. clear_bss m = Some m' \<and> (\<forall>x. mmem m' x = (if in_block (xr m 1) (8 * Suc n) x then 0 else mmem m x)) \<and>
    m' = m\<lparr>mmem := mmem m', xr := xr m'\<rparr>"
  using assms
proof (induction n arbitrary: m)
  case (0 m)
  have "xr m 2 = 8" using 0(1) by (simp add: word_unat_eq_iff)
  have z: "to_le 8 (0 :: u64) = replicate 8 0" by (simp add: numeral_eq_Suc)
  let ?m = "m\<lparr>mmem := st64 (mmem m) (xr m 1) 0, xr := (xr m)(1 := xr m 1 + 8, 2 := 0)\<rparr>"
  have "clear_bss m = Some ?m"
    using \<open>xr m 2 = 8\<close> 0(2) by (subst clear_bss.simps) (simp add: set_x_def)
  moreover have "mmem ?m x = (if in_block (xr m 1) (8 * Suc 0) x then 0 else mmem m x)" for x
    by (simp add: st64_def st_bytes_def z) (simp add: in_block_def)
  moreover have "?m = m\<lparr>mmem := mmem ?m, xr := xr ?m\<rparr>" by simp
  ultimately show ?case by (intro exI [of _ ?m] conjI allI)
next
  case (Suc n m)
  let ?m = "m\<lparr>mmem := st64 (mmem m) (xr m 1) 0, xr := (xr m)(1 := xr m 1 + 8, 2 := xr m 2 - 8)\<rparr>"
  have "8 \<le> xr m 2" using Suc.prems(1) by (simp add: word_le_nat_alt)
  then have u: "unat (xr m 2 - 8) = 8 * Suc n" using Suc.prems(1) by (simp add: unat_sub_no_wrap)
  then have "xr m 2 - 8 \<noteq> 0" by auto
  then have step: "clear_bss m = clear_bss ?m" using Suc.prems(2) by (subst clear_bss.simps) (simp add: set_x_def)
  from Suc.IH [of ?m] u Suc.prems(2) obtain m' where m': "clear_bss ?m = Some m'"
    "\<forall>x. mmem m' x = (if in_block (xr m 1 + 8) (8 * Suc n) x then 0 else mmem ?m x)" "m' = ?m\<lparr>mmem := mmem m', xr := xr m'\<rparr>" by auto
  have mem: "mmem m' x = (if in_block (xr m 1) (8 * Suc (Suc n)) x then 0 else mmem m x)" for x
  proof -
    have z: "to_le 8 (0 :: u64) = replicate 8 0" by (simp add: numeral_eq_Suc)
    have "8 + 8 * Suc n \<le> 2 ^ 64" using Suc.prems(1) unat_u64_lt [of "xr m 2"] by simp
    from in_block_add [OF this, of "xr m 1" x] have
      "in_block (xr m 1) (8 * Suc (Suc n)) x \<longleftrightarrow> in_block (xr m 1) 8 x \<or> in_block (xr m 1 + 8) (8 * Suc n) x" by simp
    moreover have "mmem ?m x = (if in_block (xr m 1) 8 x then 0 else mmem m x)"
      by (simp add: st64_def st_bytes_def z) (simp add: in_block_def)
    ultimately show ?thesis using m'(2) by simp
  qed
  have eq: "m' = m\<lparr>mmem := mmem m', xr := xr m'\<rparr>" by (subst m'(3)) simp
  have "clear_bss m = Some m'" using step m'(1) by simp
  then show ?case by (intro exI [of _ m'] conjI allI mem eq)
qed

lemma clear_bss_count:
  assumes "clear_bss m = Some m'"
  shows "8 dvd unat (xr m 2)"
proof (rule clear_bss.raw_induct [where P = "\<lambda>m m'. 8 dvd unat (xr m 2)", OF _ assms])
  fix loop :: "machine \<Rightarrow> machine option" and m m'
  assume ih: "\<And>m m'. loop m = Some m' \<Longrightarrow> 8 dvd unat (xr m 2)"
    and step: "(let m = m\<lparr>mmem := st64 (mmem m) (xr m 1) (xr m 3)\<rparr>; m = set_x 1 (xr m 1 + 8) m; m = set_x 2 (xr m 2 - 8) m
      in if xr m 2 \<noteq> 0 then loop m else Some m) = Some m'"
  have "8 dvd unat (xr m 2 - 8)"
  proof (cases "xr m 2 - 8 = 0")
    case False
    with step obtain n where "loop n = Some m'" "xr n 2 = xr m 2 - 8" by (auto simp: Let_def set_x_def)
    with ih show ?thesis by metis
  qed simp
  then have "8 dvd unat (xr m 2 - 8) + unat (8 :: u64)" by (intro dvd_add) simp_all
  moreover have "unat (xr m 2) = (unat (xr m 2 - 8) + unat (8 :: u64)) mod 2 ^ 64"
    using unat_word_ariths(1) [of "xr m 2 - 8" 8] by simp
  moreover have "(8 :: nat) dvd 2 ^ 64" by simp
  ultimately show "8 dvd unat (xr m 2)" by (simp only: dvd_mod_iff)
qed

section \<open>The second core\<close>

lemma secondary_entry_value:
  assumes "m' = secondary_entry m"
  shows "pc m' = ld64 (mmem m) (xr m 0 + 32)" "spr m' = ld64 (mmem m) (xr m 0)" "mmem m' = mmem m"
    "c_ttbr0 m' = ld64 (mmem m) (xr m 0 + 8)" "c_ttbr1 m' = ld64 (mmem m) (xr m 0 + 8)"
    "c_tcr m' = ld64 (mmem m) (xr m 0 + 16)" "c_mair m' = ld64 (mmem m) (xr m 0 + 24)" "c_vbar m' = c_vbar m" "irq_masked m' = irq_masked m"
    "c_sctlr m' = c_sctlr m OR (1 OR push_bit 2 1 OR push_bit 12 1)" "c_cpacr m' = c_cpacr m OR push_bit 20 3"
  by (simp_all add: assms secondary_entry_def Let_def set_x_def or.assoc)

section \<open>Properties\<close>

text \<open>
  C20. An exception is transparent to the code that it interrupts. Whatever the handler does to the registers, if it gives the stack back and
  does not write to the trap frame, as a compiled C function does, then after the return all general registers,
  all vector registers, the stack pointers, and the floating-point status and control (whose upper halves are reserved)
  are those at the exception, execution goes on at the interrupted instruction with its status, and the only memory that
  changes outside of the frame is what the handler changes.
\<close>

theorem exception_transparent:
  assumes m1: "m1 = set_x 0 (spr m - 816) (save_context m)"
    and handler: "spr (handler m1) = spr m1" "\<And>x. in_block (spr m - 816) 816 x \<Longrightarrow> mmem (handler m1) x = mmem m1 x"
    and r: "r = exception_entry handler m"
  shows "(\<forall>i < 31. xr r i = xr m i) \<and> (\<forall>j < 32. vr r j = vr m j) \<and> spr r = spr m \<and> sp_el0 r = sp_el0 m \<and>
    pc r = elr_el1 m \<and> pstate r = spsr_el1 m \<and> fpsr r = take_bit 32 (fpsr m) \<and> fpcr r = take_bit 32 (fpcr m) \<and>
    mmem r = mmem (handler m1) \<and> (\<forall>x. \<not> in_block (spr m - 816) 816 x \<longrightarrow> mmem m1 x = mmem m x)"
proof -
  let ?h = "handler m1"
  have r': "r = restore_context ?h" using r m1 by (simp add: exception_entry_def Let_def save_registers)
  have sp: "spr ?h = spr m - 816" using handler(1) m1 by (simp add: set_x_def save_registers)
  have same: "\<forall>x. in_block (spr m - 816) 816 x \<longrightarrow> mmem ?h x = mmem (save_context m) x"
    using handler(2) m1 by (simp add: set_x_def)
  note f = frame_words [where m' = "mmem ?h" and m = m, OF same]
  have half: "ucast (ucast v :: u32) = take_bit 32 v" for v :: u64 by (rule bit_word_eqI) (auto simp: bit_simps)
  have out: "\<forall>x. \<not> in_block (spr m - 816) 816 x \<longrightarrow> mmem m1 x = mmem m x"
    using put_outside [OF frame_fits] m1 by (simp add: set_x_def save_memory)
  have x: "\<forall>i < 31. xr r i = xr m i" using restore_registers(1) [of _ ?h] f(1) by (simp only: r' sp) simp
  have v: "\<forall>j < 32. vr r j = vr m j" using restore_registers(2) [of _ ?h] f(2) by (simp only: r' sp) simp
  have s: "spr r = spr m" "mmem r = mmem ?h" by (simp_all add: r' sp restore_registers(3,4))
  have e: "sp_el0 r = sp_el0 m" "pc r = elr_el1 m" "pstate r = spsr_el1 m"
    using restore_registers(5-7) [of ?h] f(3-5) by (simp_all add: r' sp)
  have d: "fpsr r = take_bit 32 (fpsr m)" "fpcr r = take_bit 32 (fpcr m)"
    using restore_registers(8,9) [of ?h] f(6,7) by (simp_all add: r' sp half)
  show ?thesis by (intro conjI x v s e d out)
qed


definition demo_machine :: machine where
  "demo_machine = \<lparr>xr = (\<lambda>i. of_nat i + 2), vr = (\<lambda>_. 5), spr = 0x40130000, pc = 0x40080200, pstate = 0, sp_el0 = 1, elr_el1 = 0x40101000,
     spsr_el1 = 0x5, fpsr = 0, fpcr = 0, c_vbar = 0, c_cpacr = 0, c_sctlr = 1, c_mair = 0, c_tcr = 0, c_ttbr0 = 0, c_ttbr1 = 0,
     irq_masked = True, mmem = (\<lambda>_. 9)\<rparr>"

theorem exception_transparent_witness:
  "xr (exception_entry (set_x 5 99) demo_machine) 5 = 7 \<and> pc (exception_entry (set_x 5 99) demo_machine) = 0x40101000"
  using exception_transparent [OF refl _ _ refl, of "set_x 5 99" demo_machine] by (simp add: demo_machine_def)

text \<open>
  C21. The start of the first core, for a linker layout as in \<open>linker.ld\<close>: \<open>entry_point\<close> reaches \<open>main\<close> with the boot
  stack, the exception vectors, the floating-point unit enabled, the MMU off and interrupts open; the static variables
  are zero, the address of the device tree is stored, and no other memory changes. The loop depends on a size of the
  static variables that is a multiple of eight: for any other one it never ends.
\<close>

theorem entry_point_correct:
  assumes size: "n = unat (bss_end - bss_start)" and apart: "disjoint_blocks dtb_at 8 bss_start n"
  shows "if 8 dvd n then \<exists>m'. entry_point dtb_at stack_top vectors bss_start bss_end main_at hang_at m = Some m' \<and>
      pc m' = main_at \<and> xr m' 30 = hang_at \<and> spr m' = stack_top \<and> c_vbar m' = vectors \<and> \<not> irq_masked m' \<and>
      (\<forall>i. bit (c_cpacr m') i \<longleftrightarrow> i = 20 \<or> i = 21 \<or> bit (c_cpacr m) i) \<and> (\<forall>i. bit (c_sctlr m') i \<longleftrightarrow> i \<noteq> 0 \<and> bit (c_sctlr m) i) \<and>
      ld64 (mmem m') dtb_at = xr m 0 \<and> (\<forall>x. in_block bss_start n x \<longrightarrow> mmem m' x = 0) \<and>
      (\<forall>x. \<not> in_block bss_start n x \<and> \<not> in_block dtb_at 8 x \<longrightarrow> mmem m' x = mmem m x)
    else entry_point dtb_at stack_top vectors bss_start bss_end main_at hang_at m = None"
proof -
  let ?M = "entry_setup dtb_at stack_top vectors bss_start bss_end m"
  have M: "xr ?M 1 = bss_start" "xr ?M 2 = bss_end - bss_start" "spr ?M = stack_top" "c_vbar ?M = vectors" "\<not> irq_masked ?M"
    "c_cpacr ?M = c_cpacr m OR push_bit 20 3" "c_sctlr ?M = c_sctlr m AND NOT 1" "mmem ?M = st64 (mmem m) dtb_at (xr m 0)"
    by (simp_all add: entry_setup_def Let_def set_x_def)
  have cp: "bit (c_cpacr m OR push_bit 20 3) i \<longleftrightarrow> i = 20 \<or> i = 21 \<or> bit (c_cpacr m) i"
    and sc: "bit (c_sctlr m AND NOT 1) i \<longleftrightarrow> i \<noteq> 0 \<and> bit (c_sctlr m) i" for i
    by (auto simp: bit_simps numeral_eq_Suc less_Suc_eq dest: bit_imp_le_length)
  have ends: ?thesis if c: "8 dvd n" "(if xr ?M 2 = 0 then Some ?M else clear_bss (set_x 3 0 ?M)) = Some m1"
    "\<forall>x. mmem m1 x = (if in_block bss_start n x then 0 else mmem ?M x)" "m1 = (set_x 3 0 ?M)\<lparr>mmem := mmem m1, xr := xr m1\<rparr>" for m1
  proof -
    have f: "spr m1 = stack_top" "c_vbar m1 = vectors" "\<not> irq_masked m1" "c_cpacr m1 = c_cpacr m OR push_bit 20 3"
      "c_sctlr m1 = c_sctlr m AND NOT 1" using M by (subst c(4), simp add: set_x_def)+
    have "mmem m1 x = mmem ?M x" if "in_block dtb_at 8 x" for x using apart that c(3) by (auto simp: disjoint_blocks_def)
    then have "ld_bytes (mmem m1) dtb_at 8 = ld_bytes (mmem ?M) dtb_at 8" using in_block_offset by (intro nth_equalityI) simp_all
    then have d: "ld64 (mmem m1) dtb_at = xr m 0" using ld64_st64_same [of "mmem m" dtb_at] M(8) by (simp add: ld64_def)
    have o: "mmem m1 x = mmem m x" if "\<not> in_block bss_start n x" "\<not> in_block dtb_at 8 x" for x
      using that c(3) M(8) by (simp add: st64_def st_bytes_def)
    have "entry_point dtb_at stack_top vectors bss_start bss_end main_at hang_at m = Some ((set_x 30 hang_at m1)\<lparr>pc := main_at\<rparr>)"
      using c(2) by (simp add: entry_point_def Let_def)
    then show ?thesis using c(1,3) f d o cp sc by (simp add: set_x_def)
  qed
  consider (empty) "n = 0" | (some) k where "n = 8 * Suc k" | (odd) "\<not> 8 dvd n"
  proof (cases "8 dvd n")
    case True
    then obtain k where k: "n = 8 * k" by (rule dvdE)
    show thesis
    proof (cases k)
      case 0
      then show thesis using k empty by simp
    next
      case (Suc l)
      then show thesis using k some by blast
    qed
  qed (rule odd)
  then show ?thesis
  proof cases
    case empty
    then have "bss_end - bss_start = 0" using size by (simp only: unat_eq_0)
    then have "xr ?M 2 = 0" using M(2) by simp
    moreover have "?M = (set_x 3 0 ?M)\<lparr>mmem := mmem ?M, xr := xr ?M\<rparr>" by (simp add: set_x_def)
    moreover have "\<not> in_block bss_start n x" for x using empty by (simp add: in_block_def)
    ultimately show ?thesis using ends [of ?M] empty by simp
  next
    case some
    have u: "unat (xr (set_x 3 0 ?M) 2) = 8 * Suc k" "xr (set_x 3 0 ?M) 3 = 0" using M(2) size some by (simp_all add: set_x_def)
    from clear_bss_fills [OF this] obtain m1 where m1: "clear_bss (set_x 3 0 ?M) = Some m1"
      "\<forall>x. mmem m1 x = (if in_block bss_start n x then 0 else mmem ?M x)" "m1 = (set_x 3 0 ?M)\<lparr>mmem := mmem m1, xr := xr m1\<rparr>"
      using M(1) some by (auto simp: set_x_def)
    have "xr ?M 2 \<noteq> 0" using u by (auto simp: set_x_def)
    then show ?thesis using ends [OF _ _ m1(2,3)] m1(1) some by simp
  next
    case odd
    then have "xr ?M 2 \<noteq> 0" using M(2) size by auto
    moreover have "clear_bss (set_x 3 0 ?M) = None"
    proof (rule ccontr)
      assume "clear_bss (set_x 3 0 ?M) \<noteq> None"
      then obtain m1 where "clear_bss (set_x 3 0 ?M) = Some m1" by blast
      from clear_bss_count [OF this] show False using odd M(2) size by (simp add: set_x_def)
    qed
    ultimately show ?thesis using odd by (simp add: entry_point_def Let_def)
  qed
qed


theorem entry_point_correct_witness:
  "(\<exists>m'. entry_point 0x40108000 0x40114000 0x40100800 0x40110000 0x40110010 0x40101000 0x40100060 demo_machine = Some m' \<and>
     pc m' = 0x40101000 \<and> mmem m' 0x4011000F = 0 \<and> mmem m' 0x40110010 = 9) \<and>
   entry_point 0x40108000 0x40114000 0x40100800 0x40110000 0x4011000C 0x40101000 0x40100060 demo_machine = None"
proof -
  have d: "disjoint_blocks 0x40108000 8 0x40110000 16" "disjoint_blocks 0x40108000 8 0x40110000 12" by (rule disjoint_no_wrap, simp_all)+
  have "in_block 0x40110000 16 0x4011000F" "\<not> in_block 0x40110000 16 0x40110010" "\<not> in_block 0x40108000 8 0x40110010" "\<not> 8 dvd (12 :: nat)"
    by (simp_all add: in_block_def)
  then show ?thesis
    using entry_point_correct [of 16 "0x40110010" "0x40110000" "0x40108000" "0x40114000" "0x40100800" "0x40101000" "0x40100060" demo_machine, OF _ d(1)]
      entry_point_correct [of 12 "0x4011000C" "0x40110000" "0x40108000" "0x40114000" "0x40100800" "0x40101000" "0x40100060" demo_machine, OF _ d(2)]
    by (auto simp: demo_machine_def)
qed

end
