(* ===== verification/Linked_List.thy ===== *)
theory Linked_List
  imports Prelude
begin

text \<open>
  Doubly linked lists as the kernel keeps them in the fields of its objects: the run queues of the
  scheduler (\<open>src/src/pthread.c\<close>) and the slab lists of the heap (\<open>src/src/heap.c\<close>). A segment relates the
  two link functions to the list of its members; the lemmas say what the pointer updates of an
  insertion or removal do to that list. The locale \<open>link_store\<close> states what a store of objects has to
  provide for these updates, and \<open>Runqueue\<close> and \<open>Slab_Lists\<close> interpret it.
\<close>

section \<open>Segments\<close>

text \<open>
  \<open>dseg nx pv p xs q\<close>: the members \<open>xs\<close> are linked in this order; the first points back to \<open>p\<close> and the
  last points on to \<open>q\<close>.
\<close>

fun dseg :: "('a \<Rightarrow> 'a) \<Rightarrow> ('a \<Rightarrow> 'a) \<Rightarrow> 'a \<Rightarrow> 'a list \<Rightarrow> 'a \<Rightarrow> bool" where
  "dseg nx pv p [] q \<longleftrightarrow> True"
| "dseg nx pv p (x # xs) q \<longleftrightarrow> pv x = p \<and> nx x = hd (xs @ [q]) \<and> dseg nx pv x xs q"

definition dll :: "('a \<Rightarrow> 'a) \<Rightarrow> ('a \<Rightarrow> 'a) \<Rightarrow> 'a \<Rightarrow> 'a list \<Rightarrow> bool" where
  "dll nx pv z xs \<longleftrightarrow> dseg nx pv z xs z \<and> distinct xs \<and> z \<notin> set xs"

text \<open>The values of the head and the tail pointer of a list.\<close>

definition head_of :: "'a \<Rightarrow> 'a list \<Rightarrow> 'a" where "head_of z xs = hd (xs @ [z])"
definition tail_of :: "'a \<Rightarrow> 'a list \<Rightarrow> 'a" where "tail_of z xs = last (z # xs)"

lemma head_of_simps [simp]: "head_of z [] = z" "head_of z (x # xs) = x"
  by (simp_all add: head_of_def)

lemma tail_of_simps [simp]: "tail_of z [] = z" "tail_of z (xs @ [x]) = x"
  by (simp_all add: tail_of_def)

lemma head_of_null: "z \<notin> set xs \<Longrightarrow> head_of z xs = z \<longleftrightarrow> xs = []"
  by (cases xs) auto

lemma tail_of_null: "z \<notin> set xs \<Longrightarrow> tail_of z xs = z \<longleftrightarrow> xs = []"
  by (cases xs rule: rev_cases) auto

lemma tail_of_in: "xs \<noteq> [] \<Longrightarrow> tail_of z xs \<in> set xs"
  by (simp add: tail_of_def)

lemma head_of_in: "xs \<noteq> [] \<Longrightarrow> head_of z xs \<in> set xs"
  by (cases xs) simp_all

lemma dseg_append:
  "dseg nx pv p (xs @ ys) q \<longleftrightarrow> dseg nx pv p xs (hd (ys @ [q])) \<and> dseg nx pv (last (p # xs)) ys q"
  by (induction xs arbitrary: p) (auto simp: hd_append)

text \<open>A segment depends only on the links of its members.\<close>

lemma dseg_cong:
  "dseg nx pv p xs q \<Longrightarrow> (\<And>x. x \<in> set xs \<Longrightarrow> nx' x = nx x \<and> pv' x = pv x) \<Longrightarrow> dseg nx' pv' p xs q"
  by (induction xs arbitrary: p) auto

lemma dll_cong:
  "dll nx pv z xs \<Longrightarrow> (\<And>x. x \<in> set xs \<Longrightarrow> nx' x = nx x \<and> pv' x = pv x) \<Longrightarrow> dll nx' pv' z xs"
  by (auto simp: dll_def intro: dseg_cong)

lemma dseg_set_prev:
  assumes "dseg nx pv p xs q" "distinct xs"
  shows "dseg nx (if xs = [] then pv else pv(hd xs := r)) r xs q"
proof (cases xs)
  case (Cons x xs')
  then have "dseg nx (pv(x := r)) x xs' q" using assms by (auto intro: dseg_cong)
  then show ?thesis using Cons assms by simp
qed simp

lemma dseg_set_next:
  assumes "dseg nx pv p xs q" "distinct xs"
  shows "dseg (if xs = [] then nx else nx(last xs := r)) pv p xs r"
proof (cases xs rule: rev_cases)
  case (snoc ys y)
  then have "dseg nx pv p ys y" "pv y = last (p # ys)" using assms by (simp_all add: dseg_append)
  moreover have "dseg (nx(y := r)) pv p ys y"
    using \<open>dseg nx pv p ys y\<close> snoc assms(2) by (auto intro: dseg_cong)
  ultimately show ?thesis using snoc by (simp add: dseg_append)
qed simp

section \<open>Insertion and removal\<close>

lemma dll_empty [simp]: "dll nx pv z []"
  by (simp add: dll_def)

lemma dll_push_back:
  assumes "dll nx pv z xs" "x \<notin> set xs" "x \<noteq> z"
  shows "dll (if xs = [] then nx(x := z) else nx(x := z, tail_of z xs := x)) (pv(x := tail_of z xs)) z (xs @ [x])"
proof (cases "xs = []")
  case True
  then show ?thesis using assms by (simp add: dll_def)
next
  case False
  have d: "dseg nx pv z xs z" "distinct xs" "z \<notin> set xs" using assms(1) by (auto simp: dll_def)
  have t: "tail_of z xs = last xs" "last xs \<in> set xs" using False by (simp_all add: tail_of_def)
  have "dseg (nx(last xs := x)) pv z xs x" using dseg_set_next [OF d(1,2), of x] False by simp
  then have "dseg (nx(x := z, last xs := x)) (pv(x := last xs)) z xs x"
    using assms(2) by (auto intro: dseg_cong)
  then show ?thesis
    using False d t assms(2,3) by (auto simp: dll_def dseg_append)
qed

lemma dll_push_front:
  assumes "dll nx pv z xs" "x \<notin> set xs" "x \<noteq> z"
  shows "dll (nx(x := head_of z xs)) (if xs = [] then pv(x := z) else pv(x := z, head_of z xs := x)) z (x # xs)"
proof (cases "xs = []")
  case True
  then show ?thesis using assms by (simp add: dll_def)
next
  case False
  have d: "dseg nx pv z xs z" "distinct xs" "z \<notin> set xs" using assms(1) by (auto simp: dll_def)
  have h: "head_of z xs = hd xs" "hd xs \<in> set xs" using False by (simp_all add: head_of_def)
  have "dseg nx (pv(hd xs := x)) x xs z" using dseg_set_prev [OF d(1,2), of x] False by simp
  then have "dseg (nx(x := hd xs)) (pv(x := z, hd xs := x)) x xs z"
    using assms(2) by (auto intro: dseg_cong)
  then show ?thesis
    using False d h assms(2,3) by (auto simp: dll_def)
qed

lemma dll_member:
  assumes "dll nx pv z (ys @ x # zs)"
  shows "pv x = tail_of z ys" "nx x = head_of z zs"
  using assms by (simp_all add: dll_def dseg_append tail_of_def head_of_def)

lemma dll_unlink:
  assumes "dll nx pv z (ys @ x # zs)"
  shows "dll (if ys = [] then nx else nx(tail_of z ys := head_of z zs))
             (if zs = [] then pv else pv(head_of z zs := tail_of z ys)) z (ys @ zs)"
proof -
  have d: "dseg nx pv z ys x" "dseg nx pv x zs z" "distinct ys" "distinct zs"
    "set ys \<inter> set zs = {}" "z \<notin> set ys" "z \<notin> set zs"
    using assms by (auto simp: dll_def dseg_append)
  let ?nx = "if ys = [] then nx else nx(tail_of z ys := head_of z zs)"
  let ?pv = "if zs = [] then pv else pv(head_of z zs := tail_of z ys)"
  have "dseg ?nx pv z ys (head_of z zs)"
    using dseg_set_next [OF d(1,3), of "head_of z zs"] by (simp add: tail_of_def split: if_splits)
  then have "dseg ?nx ?pv z ys (head_of z zs)"
    by (rule dseg_cong) (use d(5) head_of_in [of zs z] in auto)
  moreover have "dseg nx ?pv (tail_of z ys) zs z"
    using dseg_set_prev [OF d(2,4), of "tail_of z ys"] by (simp add: head_of_def split: if_splits)
  then have "dseg ?nx ?pv (tail_of z ys) zs z"
    by (rule dseg_cong) (use d(5) tail_of_in [of ys z] in auto)
  ultimately have "dseg ?nx ?pv z (ys @ zs) z" unfolding dseg_append tail_of_def head_of_def by simp
  then show ?thesis using d by (simp add: dll_def)
qed

section \<open>Stores of linked objects\<close>

text \<open>
  Objects with two link fields in some state: a write of a link is seen by reads of that link of that
  object and by no other read.
\<close>

locale link_store =
  fixes valid :: "'s \<Rightarrow> 'a \<Rightarrow> bool"
    and nxt :: "'s \<Rightarrow> 'a \<Rightarrow> 'a"
    and prv :: "'s \<Rightarrow> 'a \<Rightarrow> 'a"
    and set_nxt :: "'a \<Rightarrow> 'a \<Rightarrow> 's \<Rightarrow> 's"
    and set_prv :: "'a \<Rightarrow> 'a \<Rightarrow> 's \<Rightarrow> 's"
  assumes valid_set: "valid (set_nxt p v s) q = valid s q" "valid (set_prv p v s) q = valid s q"
    and nxt_set: "valid s p \<Longrightarrow> valid s q \<Longrightarrow> nxt (set_nxt p v s) q = (if q = p then v else nxt s q)"
      "valid s p \<Longrightarrow> valid s q \<Longrightarrow> nxt (set_prv p v s) q = nxt s q"
    and prv_set: "valid s p \<Longrightarrow> valid s q \<Longrightarrow> prv (set_prv p v s) q = (if q = p then v else prv s q)"
      "valid s p \<Longrightarrow> valid s q \<Longrightarrow> prv (set_nxt p v s) q = prv s q"
begin

text \<open>The list \<open>xs\<close> of valid objects is linked in the state, with \<open>z\<close> as the null pointer.\<close>

definition linked :: "'s \<Rightarrow> 'a \<Rightarrow> 'a list \<Rightarrow> bool" where
  "linked s z xs \<longleftrightarrow> dll (nxt s) (prv s) z xs \<and> (\<forall>x \<in> set xs. valid s x)"

definition append_link :: "'a \<Rightarrow> 'a \<Rightarrow> 'a list \<Rightarrow> 's \<Rightarrow> 's" where
  "append_link z x xs s =
     (let s1 = set_prv x z (set_nxt x z s)
      in if xs = [] then s1 else set_nxt (tail_of z xs) x (set_prv x (tail_of z xs) s1))"

definition push_link :: "'a \<Rightarrow> 'a \<Rightarrow> 'a list \<Rightarrow> 's \<Rightarrow> 's" where
  "push_link z x xs s =
     (let s1 = set_prv x z (set_nxt x (head_of z xs) s)
      in if xs = [] then s1 else set_prv (head_of z xs) x s1)"

definition remove_link :: "'a \<Rightarrow> 'a list \<Rightarrow> 'a list \<Rightarrow> 's \<Rightarrow> 's" where
  "remove_link z ys zs s =
     (let s1 = (if ys = [] then s else set_nxt (tail_of z ys) (head_of z zs) s)
      in if zs = [] then s1 else set_prv (head_of z zs) (tail_of z ys) s1)"

lemma linkedD: "linked s z xs \<Longrightarrow> x \<in> set xs \<Longrightarrow> valid s x"
  by (simp add: linked_def)

lemma linked_tail: "linked s z xs \<Longrightarrow> xs \<noteq> [] \<Longrightarrow> valid s (tail_of z xs)"
  using linkedD tail_of_in by fast

lemma linked_head: "linked s z xs \<Longrightarrow> xs \<noteq> [] \<Longrightarrow> valid s (head_of z xs)"
  using linkedD head_of_in by fast

lemma linked_member:
  assumes "linked s z (ys @ x # zs)"
  shows "prv s x = tail_of z ys" "nxt s x = head_of z zs"
proof -
  have "dll (nxt s) (prv s) z (ys @ x # zs)" using assms by (simp only: linked_def)
  from dll_member [OF this] show "prv s x = tail_of z ys" "nxt s x = head_of z zs" by simp_all
qed

lemma linked_append:
  assumes "linked s z xs" "valid s x" "x \<notin> set xs" "x \<noteq> z"
  shows "linked (append_link z x xs s) z (xs @ [x])"
    "valid (append_link z x xs s) q = valid s q"
    "valid s q \<Longrightarrow> q \<noteq> x \<Longrightarrow> q \<notin> set xs \<Longrightarrow>
      nxt (append_link z x xs s) q = nxt s q \<and> prv (append_link z x xs s) q = prv s q"
proof -
  let ?s = "append_link z x xs s"
  show v: "valid ?s q = valid s q" for q by (simp add: append_link_def valid_set Let_def)
  have l: "xs \<noteq> [] \<Longrightarrow> valid s (tail_of z xs) \<and> tail_of z xs \<in> set xs \<and> tail_of z xs \<noteq> x"
    using linked_tail [OF assms(1)] tail_of_in [of xs z] assms(3) by auto
  have rd: "nxt ?s q = (if xs = [] then (nxt s)(x := z) else (nxt s)(x := z, tail_of z xs := x)) q"
    "prv ?s q = ((prv s)(x := tail_of z xs)) q" if "valid s q" for q
    using that assms(2) l by (auto simp: append_link_def nxt_set prv_set valid_set Let_def)
  have d: "dll (nxt s) (prv s) z xs" using assms(1) by (simp only: linked_def)
  have vs: "valid s q" if "q \<in> set (xs @ [x])" for q using assms(1,2) that by (auto simp: linked_def)
  have "dll (nxt ?s) (prv ?s) z (xs @ [x])"
    by (rule dll_cong [OF dll_push_back [OF d assms(3,4)]]) (use rd [OF vs] in blast)
  then show "linked ?s z (xs @ [x])" using assms(1,2) v by (auto simp: linked_def)
  show "nxt ?s q = nxt s q \<and> prv ?s q = prv s q" if "valid s q" "q \<noteq> x" "q \<notin> set xs"
    using rd [OF that(1)] that(2,3) l by auto
qed

lemma linked_push:
  assumes "linked s z xs" "valid s x" "x \<notin> set xs" "x \<noteq> z"
  shows "linked (push_link z x xs s) z (x # xs)"
    "valid (push_link z x xs s) q = valid s q"
    "valid s q \<Longrightarrow> q \<noteq> x \<Longrightarrow> q \<notin> set xs \<Longrightarrow>
      nxt (push_link z x xs s) q = nxt s q \<and> prv (push_link z x xs s) q = prv s q"
proof -
  let ?s = "push_link z x xs s"
  show v: "valid ?s q = valid s q" for q by (simp add: push_link_def valid_set Let_def)
  have l: "xs \<noteq> [] \<Longrightarrow> valid s (head_of z xs) \<and> head_of z xs \<in> set xs \<and> head_of z xs \<noteq> x"
    using linked_head [OF assms(1)] head_of_in [of xs z] assms(3) by auto
  have rd: "nxt ?s q = ((nxt s)(x := head_of z xs)) q"
    "prv ?s q = (if xs = [] then (prv s)(x := z) else (prv s)(x := z, head_of z xs := x)) q"
    if "valid s q" for q
    using that assms(2) l by (auto simp: push_link_def nxt_set prv_set valid_set Let_def)
  have d: "dll (nxt s) (prv s) z xs" using assms(1) by (simp only: linked_def)
  have vs: "valid s q" if "q \<in> set (x # xs)" for q using assms(1,2) that by (auto simp: linked_def)
  have "dll (nxt ?s) (prv ?s) z (x # xs)"
    by (rule dll_cong [OF dll_push_front [OF d assms(3,4)]]) (use rd [OF vs] in blast)
  then show "linked ?s z (x # xs)" using assms(1,2) v by (auto simp: linked_def)
  show "nxt ?s q = nxt s q \<and> prv ?s q = prv s q" if "valid s q" "q \<noteq> x" "q \<notin> set xs"
    using rd [OF that(1)] that(2,3) l by auto
qed

lemma linked_remove:
  assumes "linked s z (ys @ x # zs)"
  shows "linked (remove_link z ys zs s) z (ys @ zs)"
    "valid (remove_link z ys zs s) q = valid s q"
    "valid s q \<Longrightarrow> q \<notin> set ys \<Longrightarrow> q \<notin> set zs \<Longrightarrow>
      nxt (remove_link z ys zs s) q = nxt s q \<and> prv (remove_link z ys zs s) q = prv s q"
proof -
  let ?s = "remove_link z ys zs s"
  have vs: "valid s q" if "q \<in> set ys \<union> set zs" for q using assms that by (auto simp: linked_def)
  show v: "valid ?s q = valid s q" for q by (simp add: remove_link_def valid_set Let_def)
  have t: "ys \<noteq> [] \<Longrightarrow> valid s (tail_of z ys) \<and> tail_of z ys \<in> set ys"
    "zs \<noteq> [] \<Longrightarrow> valid s (head_of z zs) \<and> head_of z zs \<in> set zs"
    using vs tail_of_in [of ys z] head_of_in [of zs z] by auto
  have rd: "nxt ?s q = (if ys = [] then nxt s else (nxt s)(tail_of z ys := head_of z zs)) q"
    "prv ?s q = (if zs = [] then prv s else (prv s)(head_of z zs := tail_of z ys)) q" if "valid s q" for q
    using that t by (auto simp: remove_link_def nxt_set prv_set valid_set Let_def)
  have d: "dll (nxt s) (prv s) z (ys @ x # zs)" using assms by (simp only: linked_def)
  have "dll (nxt ?s) (prv ?s) z (ys @ zs)"
    by (rule dll_cong [OF dll_unlink [OF d]]) (use rd vs in auto)
  then show "linked ?s z (ys @ zs)" using vs v by (auto simp: linked_def)
  show "nxt ?s q = nxt s q \<and> prv ?s q = prv s q" if "valid s q" "q \<notin> set ys" "q \<notin> set zs"
    using rd [OF that(1)] that(2,3) t by auto
qed

lemma linked_cong:
  assumes "linked s z xs"
    "\<And>x. x \<in> set xs \<Longrightarrow> nxt s' x = nxt s x \<and> prv s' x = prv s x \<and> valid s' x = valid s x"
  shows "linked s' z xs"
  using assms dll_cong by (fastforce simp: linked_def)

end

end
