(* ===== verification/Heap_Pages.thy ===== *)
theory Heap_Pages
  imports Memory Cmem Spinlock
begin

text \<open>
  The page level of the heap (\<open>src/src/heap.c\<close>): the state of the allocator, the table of page records,
  and the first-fit allocator of runs of pages that serves slabs and large blocks.

  The table \<open>page_metadata\<close> lies in the first pages of the heap in the C program; here it is a list of
  \<open>total_pages\<close> records next to the byte memory of the heap (\<^term>\<open>None\<close> is the null pointer before
  \<open>heap_init\<close>), so an access outside it is visible as undefined behaviour.
\<close>

section \<open>State\<close>

definition PAGE_TYPE_FREE :: u8 where "PAGE_TYPE_FREE = 0"
definition PAGE_TYPE_SLAB :: u8 where "PAGE_TYPE_SLAB = 1"
definition PAGE_TYPE_LARGE :: u8 where "PAGE_TYPE_LARGE = 2"

lemmas page_types = PAGE_TYPE_FREE_def PAGE_TYPE_SLAB_def PAGE_TYPE_LARGE_def

record page_info =
  ptype :: u8
  pcount :: u16

record kmem_cache =
  slabs_partial :: u64
  slabs_full :: u64
  slabs_free :: u64
  obj_size :: u64

text \<open>\<open>caches_at\<close> is the address of the static array \<open>caches\<close>, which slab headers point into.\<close>

record heap =
  heap_lock :: spinlock
  heap_start_addr :: u64
  heap_end_addr :: u64
  page_metadata :: "page_info list option"
  total_pages :: u32
  caches :: "kmem_cache list"
  caches_at :: u64
  hmem :: mem

section \<open>Operations on pages\<close>

definition align_up :: "u64 \<Rightarrow> u64 \<Rightarrow> u64" where
  "align_up n align = (n + align - 1) AND NOT (align - 1)"

definition virt_to_page_idx :: "heap \<Rightarrow> u64 \<Rightarrow> u32" where
  "virt_to_page_idx h addr =
     (if addr < heap_start_addr h \<or> heap_end_addr h \<le> addr then u32_invalid
      else ucast ((addr - heap_start_addr h) div 4096))"

definition page_idx_to_virt :: "heap \<Rightarrow> u32 \<Rightarrow> u64" where
  "page_idx_to_virt h idx = heap_start_addr h + ucast idx * 4096"

text \<open>The inner loop of \<open>alloc_pages_backend\<close> marks the pages of the run.\<close>

definition mark_page :: "u32 \<Rightarrow> u64 \<Rightarrow> u8 \<Rightarrow> nat \<Rightarrow> page_info list \<Rightarrow> page_info list option" where
  "mark_page start_idx num_pages ty j md =
     arr_set md (unat (start_idx + of_nat j))
       \<lparr>ptype = ty, pcount = (if j = 0 then ucast num_pages else 0)\<rparr>"

function alloc_scan :: "u64 \<Rightarrow> u8 \<Rightarrow> heap \<Rightarrow> nat \<Rightarrow> u32 \<Rightarrow> u32 \<Rightarrow> (u64 \<times> heap) option" where
  "alloc_scan num_pages ty h i free_run start_idx =
     (if i < unat (total_pages h) then do {
        md \<leftarrow> page_metadata h;
        p \<leftarrow> arr_get md i;
        if ptype p = PAGE_TYPE_FREE then
          let start_idx = (if free_run = 0 then of_nat i else start_idx);
              free_run = free_run + 1
          in if ucast free_run = num_pages then do {
               md \<leftarrow> for_loop 0 (unat num_pages) (mark_page start_idx num_pages ty) md;
               Some (page_idx_to_virt h start_idx, h\<lparr>page_metadata := Some md\<rparr>)
             } else alloc_scan num_pages ty h (Suc i) free_run start_idx
        else alloc_scan num_pages ty h (Suc i) 0 start_idx
      } else Some (0, h))"
  by pat_completeness auto
termination
  by (relation "measure (\<lambda>(n, t, h, i, f, s). unat (total_pages h) - i)") auto

declare alloc_scan.simps [simp del]

definition alloc_pages_backend :: "u64 \<Rightarrow> u8 \<Rightarrow> heap \<Rightarrow> (u64 \<times> heap) option" where
  "alloc_pages_backend num_pages ty h = alloc_scan num_pages ty h 0 0 u32_invalid"

definition free_pages_backend :: "u64 \<Rightarrow> heap \<Rightarrow> heap option" where
  "free_pages_backend ptr h =
     (let idx = virt_to_page_idx h ptr in
      if total_pages h \<le> idx then Some h
      else do {
        md \<leftarrow> page_metadata h;
        p \<leftarrow> arr_get md (unat idx);
        if pcount p = 0 then Some h
        else do {
          md \<leftarrow> for_loop 0 (unat (pcount p))
            (\<lambda>i md. if idx + of_nat i < total_pages h
                    then arr_set md (unat (idx + of_nat i)) \<lparr>ptype = PAGE_TYPE_FREE, pcount = 0\<rparr>
                    else Some md) md;
          Some (h\<lparr>page_metadata := Some md\<rparr>)
        }
      })"

section \<open>Geometry\<close>

text \<open>
  What \<open>heap_init\<close> sets up: page-aligned bounds that do not wrap around and one record per page, for a
  heap of less than 16 TB.
\<close>

definition heap_geometry :: "heap \<Rightarrow> bool" where
  "heap_geometry h \<longleftrightarrow>
     4096 dvd unat (heap_start_addr h) \<and> heap_start_addr h \<noteq> 0 \<and>
     unat (heap_end_addr h) = unat (heap_start_addr h) + unat (total_pages h) * 4096 \<and>
     (\<exists>md. page_metadata h = Some md \<and> length md = unat (total_pages h))"

definition pages :: "heap \<Rightarrow> page_info list" where
  "pages h = (case page_metadata h of None \<Rightarrow> [] | Some md \<Rightarrow> md)"

lemma heap_geometryD:
  assumes "heap_geometry h"
  shows "page_metadata h = Some (pages h)" "length (pages h) = unat (total_pages h)"
    "unat (heap_end_addr h) = unat (heap_start_addr h) + unat (total_pages h) * 4096"
    "4096 dvd unat (heap_start_addr h)" "heap_start_addr h \<noteq> 0"
  using assms by (auto simp: heap_geometry_def pages_def)

lemma pages_update [simp]: "pages (h\<lparr>page_metadata := Some md\<rparr>) = md"
  by (simp add: pages_def)

lemma unat_page_idx_to_virt:
  assumes "heap_geometry h" "idx < total_pages h"
  shows "unat (page_idx_to_virt h idx) = unat (heap_start_addr h) + unat idx * 4096"
    "page_idx_to_virt h idx \<noteq> 0"
proof -
  have lt: "unat (heap_start_addr h) + unat idx * 4096 < 2 ^ 64"
    using heap_geometryD(3) [OF assms(1)] unat_u64_lt [of "heap_end_addr h"] assms(2)
    by (simp add: word_less_nat_alt)
  have "unat (ucast idx * 4096 :: u64) = unat idx * 4096"
    using unat_u32_lt [of idx] by (simp add: unat_word_ariths unsigned_ucast_eq take_bit_eq_mod)
  then show eq: "unat (page_idx_to_virt h idx) = unat (heap_start_addr h) + unat idx * 4096"
    using lt by (simp add: page_idx_to_virt_def unat_add_no_wrap)
  have "unat (heap_start_addr h) \<noteq> 0" using heap_geometryD(5) [OF assms(1)] by (simp add: unat_gt_0)
  then show "page_idx_to_virt h idx \<noteq> 0" using eq by (metis add_is_0 unat_0)
qed

text \<open>Every address of a page leads back to its number.\<close>

lemma virt_to_page_idx_in:
  assumes "heap_geometry h" "idx < total_pages h"
    "unat (heap_start_addr h) + unat idx * 4096 \<le> unat a" "unat a < unat (heap_start_addr h) + (unat idx + 1) * 4096"
  shows "virt_to_page_idx h a = idx"
proof -
  have "\<not> a < heap_start_addr h" "\<not> heap_end_addr h \<le> a"
    using assms heap_geometryD(3) [OF assms(1)] by (auto simp: word_less_nat_alt word_le_nat_alt)
  moreover have "unat (a - heap_start_addr h) div 4096 = unat idx"
  proof -
    have "unat (a - heap_start_addr h) = unat a - unat (heap_start_addr h)"
      using assms(3) by (simp add: unat_sub_no_wrap word_le_nat_alt)
    then show ?thesis using assms(3,4) by (simp add: div_nat_eqI)
  qed
  then have "unat ((a - heap_start_addr h) div 4096) = unat idx" by (simp add: unat_div_distrib)
  then have "ucast ((a - heap_start_addr h) div 4096) = idx"
    using unat_u32_lt [of idx] by (simp add: word_unat_eq_iff unsigned_ucast_eq take_bit_nat_eq_self)
  ultimately show ?thesis by (simp add: virt_to_page_idx_def)
qed

lemma virt_to_page_idx_of_idx:
  assumes "heap_geometry h" "idx < total_pages h"
  shows "virt_to_page_idx h (page_idx_to_virt h idx) = idx"
  using assms unat_page_idx_to_virt(1) [OF assms] by (intro virt_to_page_idx_in) simp_all

section \<open>First fit\<close>

text \<open>The specification: the first run of \<open>n\<close> free pages, and the table with that run marked.\<close>

definition free_page :: "page_info list \<Rightarrow> nat \<Rightarrow> bool" where
  "free_page md k \<longleftrightarrow> k < length md \<and> ptype (md ! k) = PAGE_TYPE_FREE"

definition run_free :: "page_info list \<Rightarrow> nat \<Rightarrow> nat \<Rightarrow> bool" where
  "run_free md n s \<longleftrightarrow> (\<forall>k \<in> {s..<s + n}. free_page md k)"

definition first_run :: "page_info list \<Rightarrow> nat \<Rightarrow> nat option" where
  "first_run md n = find (run_free md n) [0..<length md]"

definition set_run :: "nat \<Rightarrow> nat \<Rightarrow> (nat \<Rightarrow> page_info) \<Rightarrow> page_info list \<Rightarrow> page_info list" where
  "set_run s n f md = map (\<lambda>k. if s \<le> k \<and> k < s + n then f (k - s) else md ! k) [0..<length md]"

definition run_record :: "u64 \<Rightarrow> u8 \<Rightarrow> nat \<Rightarrow> page_info" where
  "run_record num_pages ty j = \<lparr>ptype = ty, pcount = (if j = 0 then ucast num_pages else 0)\<rparr>"

lemma length_set_run [simp]: "length (set_run s n f md) = length md"
  by (simp add: set_run_def)

lemma nth_set_run:
  "k < length md \<Longrightarrow> set_run s n f md ! k = (if s \<le> k \<and> k < s + n then f (k - s) else md ! k)"
  by (simp add: set_run_def)

lemma set_run_0 [simp]: "set_run s 0 f md = md"
  by (rule nth_equalityI) (auto simp: nth_set_run)

lemma set_run_Suc: "set_run s (Suc n) f md = (set_run s n f md)[s + n := f n]"
proof (rule nth_equalityI)
  fix i assume "i < length (set_run s (Suc n) f md)"
  then show "set_run s (Suc n) f md ! i = (set_run s n f md)[s + n := f n] ! i"
    by (cases "i = s + n") (auto simp: nth_set_run)
qed simp

text \<open>A loop that writes the records of a run one by one.\<close>

lemma for_loop_set_run:
  assumes "\<And>j md. j < n \<Longrightarrow> length md = len \<Longrightarrow> body j md = arr_set md (s + j) (f j)" "s + n \<le> len"
    "length md = len"
  shows "for_loop 0 n body md = Some (set_run s n f md)"
proof -
  have "\<exists>md'. for_loop 0 n body md = Some md' \<and> md' = set_run s n f md"
  proof (rule for_loop_total [where P = "\<lambda>j md'. md' = set_run s j f md"])
    fix j md' assume "j < n" "md' = set_run s j f md"
    then show "\<exists>md''. body j md' = Some md'' \<and> md'' = set_run s (Suc j) f md"
      using assms by (auto simp: arr_set_def set_run_Suc)
  qed simp_all
  then show ?thesis by simp
qed

lemma run_free_0 [simp]: "run_free md 0 s"
  by (simp add: run_free_def)

lemma run_free_bound: "run_free md n s \<Longrightarrow> 0 < n \<Longrightarrow> s + n \<le> length md"
proof -
  assume a: "run_free md n s" "0 < n"
  then have "free_page md (s + n - 1)" by (simp add: run_free_def)
  with a(2) show ?thesis by (auto simp: free_page_def)
qed

lemma first_run_Some:
  assumes "run_free md n s" "s < length md" "\<And>r. r < s \<Longrightarrow> \<not> run_free md n r"
  shows "first_run md n = Some s"
  using assms unfolding first_run_def by (auto simp: find_Some_iff intro!: exI [of _ s])

lemma first_run_None:
  assumes "0 < n" "\<And>r. r + n \<le> length md \<Longrightarrow> \<not> run_free md n r"
  shows "first_run md n = None"
proof -
  have "\<not> run_free md n r" if "r < length md" for r
  proof
    assume "run_free md n r"
    then show False using assms(2) run_free_bound [OF _ assms(1)] by blast
  qed
  then show ?thesis by (auto simp: first_run_def find_None_iff)
qed

lemma first_runD:
  assumes "first_run md n = Some s" "0 < n"
  shows "run_free md n s" "s + n \<le> length md" "r < s \<Longrightarrow> \<not> run_free md n r"
proof -
  from assms(1) show r: "run_free md n s" and "r < s \<Longrightarrow> \<not> run_free md n r"
    by (auto simp: first_run_def find_Some_iff)
  show "s + n \<le> length md" by (rule run_free_bound [OF r assms(2)])
qed

definition alloc_result :: "u64 \<Rightarrow> u8 \<Rightarrow> heap \<Rightarrow> u64 \<times> heap" where
  "alloc_result num_pages ty h =
     (case first_run (pages h) (unat num_pages) of
        None \<Rightarrow> (0, h)
      | Some s \<Rightarrow> (page_idx_to_virt h (of_nat s),
          h\<lparr>page_metadata := Some (set_run s (unat num_pages) (run_record num_pages ty) (pages h))\<rparr>))"

text \<open>
  The scan: at page \<open>i\<close> the \<open>r\<close> pages before it are free and are preceded by no other free page, and no
  run of the wanted length ends before \<open>i\<close>.
\<close>

lemma run_free_Suc: "run_free md (Suc r) s \<longleftrightarrow> run_free md r s \<and> free_page md (s + r)"
  by (auto simp: run_free_def less_Suc_eq_le le_less)

lemma alloc_scan_correct:
  assumes geo: "heap_geometry h" and n: "0 < unat num_pages"
    and "i \<le> unat (total_pages h)" "unat free_run = r" "r \<le> i" "r < unat num_pages"
    "run_free (pages h) r (i - r)" "0 < r \<Longrightarrow> unat start_idx = i - r"
    "\<And>s. s + unat num_pages \<le> i \<Longrightarrow> \<not> run_free (pages h) (unat num_pages) s"
    "i = r \<or> \<not> free_page (pages h) (i - r - 1)"
  shows "alloc_scan num_pages ty h i free_run start_idx = Some (alloc_result num_pages ty h)"
  using assms(3-)
proof (induction "unat (total_pages h) - i" arbitrary: i free_run start_idx r)
  case 0
  note md = heap_geometryD [OF geo]
  have "first_run (pages h) (unat num_pages) = None"
    using 0 md(2) by (intro first_run_None n) simp
  then show ?case using 0 by (simp add: alloc_scan.simps [of _ _ _ i] alloc_result_def)
next
  case (Suc k)
  note md = heap_geometryD [OF geo]
  let ?n = "unat num_pages"
  have i: "i < unat (total_pages h)" "i < length (pages h)" using Suc.hyps(2) md(2) by simp_all
  have tp: "unat (total_pages h) < 4294967296" by (rule unat_u32_lt)
  have get: "arr_get (pages h) i = Some (pages h ! i)" using i by (simp add: arr_get_def)
  show ?case
  proof (cases "free_page (pages h) i")
    case False
    then have ne: "ptype (pages h ! i) \<noteq> PAGE_TYPE_FREE" using i by (simp add: free_page_def)
    have none: "\<not> run_free (pages h) ?n s" if "s + ?n \<le> Suc i" for s
    proof (cases "s + ?n \<le> i")
      case True
      then show ?thesis by (rule Suc.prems(7))
    next
      case False
      then have "i \<in> {s..<s + ?n}" using that n by auto
      then show ?thesis using \<open>\<not> free_page (pages h) i\<close> by (auto simp: run_free_def)
    qed
    have "alloc_scan num_pages ty h (Suc i) 0 start_idx = Some (alloc_result num_pages ty h)"
      using Suc.hyps(2) i False n by (intro Suc.hyps(1) [where r = 0]) (simp_all add: none)
    then show ?thesis using i get md(1) ne by (subst alloc_scan.simps) simp
  next
    case True
    then have ty: "ptype (pages h ! i) = PAGE_TYPE_FREE" by (simp add: free_page_def)
    define st where "st = (if free_run = 0 then of_nat i else start_idx)"
    have st: "unat st = i - r"
    proof (cases "r = 0")
      case True
      then have "free_run = 0" using Suc.prems(2) by (simp add: unat_eq_zero)
      then show ?thesis using i(1) tp True by (simp add: st_def unat_u32_of_nat)
    next
      case False
      then have "free_run \<noteq> 0" using Suc.prems(2) by auto
      then show ?thesis using Suc.prems(6) False by (simp add: st_def)
    qed
    have r1: "unat (free_run + 1) = Suc r"
      using Suc.prems(2,3) i(1) tp unat_inc [of free_run] by simp
    have run: "run_free (pages h) (Suc r) (i - r)"
      using Suc.prems(3,5) True by (simp add: run_free_Suc)
    have eq: "ucast (free_run + 1) = num_pages \<longleftrightarrow> Suc r = ?n"
      using i(1) Suc.prems(3) tp
      by (simp add: word_unat_eq_iff unsigned_ucast_eq r1 take_bit_nat_eq_self)
    show ?thesis
    proof (cases "Suc r = ?n")
      case full: True
      have mark: "for_loop 0 ?n (mark_page st num_pages ty) (pages h) =
          Some (set_run (i - r) ?n (run_record num_pages ty) (pages h))"
      proof (rule for_loop_set_run)
        fix j and md' :: "page_info list" assume "j < ?n"
        then have "unat (st + of_nat j) = i - r + j"
          using st full i(1) tp Suc.prems(3) unat_add_no_wrap [of st "of_nat j"]
          by (simp add: unat_u32_of_nat)
        then show "mark_page st num_pages ty j md' = arr_set md' (i - r + j) (run_record num_pages ty j)"
          by (simp add: mark_page_def run_record_def)
      qed (use full i(2) Suc.prems(3) in auto)
      have "first_run (pages h) ?n = Some (i - r)"
        using run full i(2) Suc.prems(3,7) by (intro first_run_Some) simp_all
      moreover have "st = of_nat (i - r)" using st by (metis of_nat_unat_u32)
      ultimately show ?thesis
        using i get md(1) ty full eq mark
        by (subst alloc_scan.simps) (simp add: alloc_result_def st_def [symmetric])
    next
      case more: False
      have none: "\<not> run_free (pages h) ?n s" if "s + ?n \<le> Suc i" for s
      proof (cases "s + ?n \<le> i")
        case True
        then show ?thesis by (rule Suc.prems(7))
      next
        case False
        then have "s + ?n = Suc i" "Suc r < ?n" using that more Suc.prems(4) by simp_all
        then have "i \<noteq> r" "i - r - 1 \<in> {s..<s + ?n}" using Suc.prems(3) by auto
        then show ?thesis using Suc.prems(8) by (auto simp: run_free_def)
      qed
      have "alloc_scan num_pages ty h (Suc i) (free_run + 1) st = Some (alloc_result num_pages ty h)"
        using Suc.hyps(2) Suc.prems(3,4,8) i(1) r1 run st more none
        by (intro Suc.hyps(1) [where r = "Suc r"]) simp_all
      then show ?thesis
        using i get md(1) ty more eq by (subst alloc_scan.simps) (simp add: st_def [symmetric])
    qed
  qed
qed

lemma alloc_pages_first_fit:
  assumes "heap_geometry h" "0 < unat num_pages"
  shows "alloc_pages_backend num_pages ty h = Some (alloc_result num_pages ty h)"
  unfolding alloc_pages_backend_def using assms
  by (intro alloc_scan_correct [where r = 0]) simp_all

lemma alloc_result_cases:
  assumes geo: "heap_geometry h" and n: "0 < unat num_pages"
  obtains (full) "alloc_result num_pages ty h = (0, h)" "first_run (pages h) (unat num_pages) = None"
  | (run) s where "first_run (pages h) (unat num_pages) = Some s"
      "alloc_result num_pages ty h = (page_idx_to_virt h (of_nat s),
         h\<lparr>page_metadata := Some (set_run s (unat num_pages) (run_record num_pages ty) (pages h))\<rparr>)"
      "run_free (pages h) (unat num_pages) s" "s + unat num_pages \<le> unat (total_pages h)"
      "unat (of_nat s :: u32) = s" "of_nat s < total_pages h"
proof (cases "first_run (pages h) (unat num_pages)")
  case None
  then show thesis using full by (simp add: alloc_result_def)
next
  case (Some s)
  note d = first_runD [OF Some n]
  have s: "s + unat num_pages \<le> unat (total_pages h)" using d(2) heap_geometryD(2) [OF geo] by simp
  then have u: "unat (of_nat s :: u32) = s"
    using unat_u32_lt [of "total_pages h"] by (intro unat_u32_of_nat) simp
  then have "of_nat s < total_pages h" using s n by (simp add: word_less_nat_alt)
  with Some d s u show thesis using run by (simp add: alloc_result_def)
qed

lemma heap_geometry_pages:
  assumes "heap_geometry h" "length md = length (pages h)"
  shows "heap_geometry (h\<lparr>page_metadata := Some md\<rparr>)"
  using assms heap_geometryD(2) [OF assms(1)] by (auto simp: heap_geometry_def)

section \<open>Freeing a run\<close>

definition free_record :: "nat \<Rightarrow> page_info" where
  "free_record j = \<lparr>ptype = PAGE_TYPE_FREE, pcount = 0\<rparr>"

lemma free_pages_run:
  assumes geo: "heap_geometry h" and idx: "idx < total_pages h"
    and c: "pcount (pages h ! unat idx) = c" "c \<noteq> 0" "unat idx + unat c \<le> unat (total_pages h)"
  shows "free_pages_backend (page_idx_to_virt h idx) h =
    Some (h\<lparr>page_metadata := Some (set_run (unat idx) (unat c) free_record (pages h))\<rparr>)"
proof -
  note md = heap_geometryD [OF geo]
  have lt: "unat idx < length (pages h)" using idx md(2) by (simp add: word_less_nat_alt)
  have loop: "for_loop 0 (unat c)
      (\<lambda>i md. if idx + of_nat i < total_pages h
        then arr_set md (unat (idx + of_nat i)) \<lparr>ptype = PAGE_TYPE_FREE, pcount = 0\<rparr> else Some md) (pages h) =
      Some (set_run (unat idx) (unat c) free_record (pages h))"
  proof (rule for_loop_set_run)
    fix j and md' :: "page_info list" assume "j < unat c"
    then have "unat (idx + of_nat j) = unat idx + j" "unat idx + j < unat (total_pages h)"
      using c(3) unat_u32_lt [of "total_pages h"] unat_add_no_wrap [of idx "of_nat j"]
      by (simp_all add: unat_u32_of_nat)
    then show "(if idx + of_nat j < total_pages h
        then arr_set md' (unat (idx + of_nat j)) \<lparr>ptype = PAGE_TYPE_FREE, pcount = 0\<rparr> else Some md') =
        arr_set md' (unat idx + j) (free_record j)"
      by (simp add: word_less_nat_alt free_record_def)
  qed (use c(3) md(2) in simp_all)
  show ?thesis
    unfolding free_pages_backend_def virt_to_page_idx_of_idx [OF geo idx] Let_def md(1)
    using idx lt c loop by (simp add: arr_get_def)
qed

section \<open>Properties\<close>

definition demo_heap :: heap where
  "demo_heap = \<lparr>heap_lock = 0, heap_start_addr = 0x50000000, heap_end_addr = 0x50005000,
     page_metadata = Some [\<lparr>ptype = 2, pcount = 1\<rparr>, \<lparr>ptype = 0, pcount = 0\<rparr>, \<lparr>ptype = 1, pcount = 1\<rparr>,
       \<lparr>ptype = 0, pcount = 0\<rparr>, \<lparr>ptype = 0, pcount = 0\<rparr>],
     total_pages = 5, caches = [], caches_at = 0x40080000, hmem = (\<lambda>_. 0)\<rparr>"

lemma demo_heap_geometry: "heap_geometry demo_heap"
  by (simp add: heap_geometry_def demo_heap_def)

lemma demo_heap_free: "free_page (pages demo_heap) k \<longleftrightarrow> k = 1 \<or> k = 3 \<or> k = 4"
proof -
  have p: "pages demo_heap = [\<lparr>ptype = 2, pcount = 1\<rparr>, \<lparr>ptype = 0, pcount = 0\<rparr>, \<lparr>ptype = 1, pcount = 1\<rparr>,
      \<lparr>ptype = 0, pcount = 0\<rparr>, \<lparr>ptype = 0, pcount = 0\<rparr>]" by (simp add: demo_heap_def pages_def)
  have "k < 5 \<Longrightarrow> k \<in> set [0..<5]" by simp
  then consider "k = 0" | "k = 1" | "k = 2" | "k = 3" | "k = 4" | "5 \<le> k"
    by (cases "k < 5") (auto simp: upt_rec)
  then show ?thesis by cases (simp_all add: free_page_def p page_types)
qed

lemma demo_heap_runs: "run_free (pages demo_heap) 2 s \<longleftrightarrow> s = 3"
proof -
  have "{s..<s + 2} = {s, s + 1}" by auto
  then have "run_free (pages demo_heap) 2 s \<longleftrightarrow> free_page (pages demo_heap) s \<and> free_page (pages demo_heap) (s + 1)"
    by (simp add: run_free_def)
  also have "\<dots> \<longleftrightarrow> s = 3" unfolding demo_heap_free by presburger
  finally show ?thesis .
qed

lemma demo_heap_clear: "\<forall>k. free_page (pages demo_heap) k \<longrightarrow> pcount (pages demo_heap ! k) = 0"
  by (auto simp: demo_heap_free) (simp_all add: demo_heap_def pages_def)

text \<open>
  \<open>alloc_pages_backend\<close> is first fit: it never reads or writes outside the page table, and it returns
  the null pointer and changes nothing exactly when no run of the wanted length is free; otherwise it
  returns the page-aligned address of the first such run, inside the heap, all of whose pages were
  free, and marks exactly those pages.
\<close>

theorem alloc_pages_backend_correct:
  assumes "heap_geometry h" "0 < unat num_pages" "ty \<noteq> PAGE_TYPE_FREE"
  shows "\<exists>a h'. alloc_pages_backend num_pages ty h = Some (a, h') \<and> heap_geometry h' \<and>
    (if \<forall>s. \<not> run_free (pages h) (unat num_pages) s then a = 0 \<and> h' = h
     else \<exists>s. run_free (pages h) (unat num_pages) s \<and> (\<forall>r < s. \<not> run_free (pages h) (unat num_pages) r) \<and>
       a \<noteq> 0 \<and> unat a = unat (heap_start_addr h) + s * 4096 \<and>
       unat a + unat num_pages * 4096 \<le> unat (heap_end_addr h) \<and>
       (\<forall>k. free_page (pages h') k \<longleftrightarrow> free_page (pages h) k \<and> \<not> (s \<le> k \<and> k < s + unat num_pages)) \<and>
       (\<forall>k < length (pages h). s \<le> k \<and> k < s + unat num_pages \<or> pages h' ! k = pages h ! k))"
  using assms(1,2)
proof (cases rule: alloc_result_cases [where ty = ty])
  case full
  then have "\<not> run_free (pages h) (unat num_pages) s" for s
    using run_free_bound [OF _ assms(2)] assms(2)
    by (auto simp: first_run_def find_None_iff)
      (metis add_lessD1 atLeastLessThan_iff le_eq_less_or_eq less_add_same_cancel1 order_less_le_trans
        set_upt zero_le)
  then show ?thesis using full alloc_pages_first_fit [OF assms(1,2), of ty] assms(1) by auto
next
  case (run s)
  let ?h = "h\<lparr>page_metadata := Some (set_run s (unat num_pages) (run_record num_pages ty) (pages h))\<rparr>"
  have "heap_geometry ?h" using assms(1) by (rule heap_geometry_pages) simp
  moreover have "free_page (pages ?h) k \<longleftrightarrow> free_page (pages h) k \<and> \<not> (s \<le> k \<and> k < s + unat num_pages)" for k
    using assms(3) by (auto simp: free_page_def nth_set_run run_record_def split: if_splits)
  moreover have "unat (page_idx_to_virt h (of_nat s)) = unat (heap_start_addr h) + s * 4096"
    "page_idx_to_virt h (of_nat s) \<noteq> 0"
    using unat_page_idx_to_virt [OF assms(1) run(6)] run(5) by simp_all
  moreover have "(s + unat num_pages) * 4096 \<le> unat (total_pages h) * 4096" using run(4) by simp
  ultimately show ?thesis
    using alloc_pages_first_fit [OF assms(1,2), of ty] run first_runD(3) [OF run(1) assms(2)]
      heap_geometryD(3) [OF assms(1)]
    by (auto simp: nth_set_run algebra_simps intro!: exI [of _ s])
qed

theorem alloc_pages_backend_correct_witness:
  "\<exists>h'. alloc_pages_backend 2 PAGE_TYPE_LARGE demo_heap = Some (0x50003000, h') \<and> heap_geometry h' \<and>
     free_page (pages h') 1 \<and> \<not> free_page (pages h') 3 \<and> \<not> free_page (pages h') 4"
proof -
  have h: "0 < unat (2 :: u64)" "PAGE_TYPE_LARGE \<noteq> PAGE_TYPE_FREE" by (simp_all add: page_types)
  from alloc_pages_backend_correct [OF demo_heap_geometry h] demo_heap_runs obtain a h' where
    a: "alloc_pages_backend 2 PAGE_TYPE_LARGE demo_heap = Some (a, h')" "heap_geometry h'"
      "unat a = unat (heap_start_addr demo_heap) + 3 * 4096"
      "\<And>k. free_page (pages h') k \<longleftrightarrow> free_page (pages demo_heap) k \<and> \<not> (3 \<le> k \<and> k < 5)"
    by (auto split: if_splits)
  have "a = 0x50003000" using a(3) by (simp add: word_unat_eq_iff demo_heap_def)
  then show ?thesis using a by (auto simp: demo_heap_free)
qed

text \<open>
  Allocating a run and freeing it again gives back the table as it was, for runs of fewer than 65536
  pages (the width of the count field) taken from free pages with a cleared count.
\<close>

theorem alloc_free_pages_roundtrip:
  assumes geo: "heap_geometry h" and n: "0 < unat num_pages" "unat num_pages < 65536"
    and clear: "\<forall>k. free_page (pages h) k \<longrightarrow> pcount (pages h ! k) = 0"
    and run: "run_free (pages h) (unat num_pages) s0"
  shows "\<exists>a h'. alloc_pages_backend num_pages ty h = Some (a, h') \<and> free_pages_backend a h' = Some h"
  using geo n(1)
proof (cases rule: alloc_result_cases [where ty = ty])
  case full
  have "s0 < length (pages h)" using run_free_bound [OF run n(1)] n(1) by simp
  then show ?thesis using full(2) run by (auto simp: first_run_def find_None_iff)
next
  case (run s)
  let ?md = "set_run s (unat num_pages) (run_record num_pages ty) (pages h)"
  let ?h = "h\<lparr>page_metadata := Some ?md\<rparr>"
  let ?c = "ucast num_pages :: u16"
  have geo': "heap_geometry ?h" using geo by (rule heap_geometry_pages) simp
  have c: "unat ?c = unat num_pages" using n(2) by (simp add: unsigned_ucast_eq take_bit_nat_eq_self)
  have s: "s < length (pages h)" using run(4) n(1) heap_geometryD(2) [OF geo] by simp
  have free: "free_pages_backend (page_idx_to_virt ?h (of_nat s)) ?h =
      Some (?h\<lparr>page_metadata := Some (set_run (unat (of_nat s :: u32)) (unat ?c) free_record (pages ?h))\<rparr>)"
  proof (rule free_pages_run [OF geo'])
    show "?c \<noteq> 0" using c n(1) by auto
  qed (use run s c n(1) in \<open>simp_all add: nth_set_run run_record_def\<close>)
  have "set_run s (unat num_pages) free_record ?md = pages h"
  proof (rule nth_equalityI)
    fix k assume "k < length (set_run s (unat num_pages) free_record ?md)"
    then have k: "k < length (pages h)" by simp
    show "set_run s (unat num_pages) free_record ?md ! k = pages h ! k"
    proof (cases "s \<le> k \<and> k < s + unat num_pages")
      case True
      then have "free_page (pages h) k" using run(3) by (simp add: run_free_def)
      then have "ptype (pages h ! k) = PAGE_TYPE_FREE" "pcount (pages h ! k) = 0"
        using clear by (simp_all add: free_page_def)
      then show ?thesis using True k by (simp add: nth_set_run free_record_def)
    next
      case False
      then show ?thesis using k by (auto simp: nth_set_run)
    qed
  qed simp
  moreover have "page_idx_to_virt ?h (of_nat s) = page_idx_to_virt h (of_nat s)"
    by (simp add: page_idx_to_virt_def)
  moreover have "h\<lparr>page_metadata := Some (pages h)\<rparr> = h" using heap_geometryD(1) [OF geo] by simp
  ultimately show ?thesis
    using alloc_pages_first_fit [OF geo n(1), of ty] run(2,5) free c by simp
qed

theorem alloc_free_pages_roundtrip_witness:
  "\<exists>a h'. alloc_pages_backend 2 PAGE_TYPE_LARGE demo_heap = Some (a, h') \<and>
     free_pages_backend a h' = Some demo_heap"
  using alloc_free_pages_roundtrip [OF demo_heap_geometry _ _ demo_heap_clear, of 2 3] demo_heap_runs
  by simp

end
