(* ===== verification/Heap.thy ===== *)
theory Heap
  imports Heap_Pages
begin

text \<open>
  The slab allocator and the allocation interface of \<open>src/src/heap.c\<close>. A slab is one page of the heap: a
  header of 40 bytes (\<open>next\<close>, \<open>prev\<close>, \<open>cache\<close>, \<open>free_list\<close>, \<open>in_use\<close>, \<open>magic\<close>) and objects of the size of its
  cache, the free ones linked through their first word. Headers, links and the contents of blocks
  live in the byte memory \<open>hmem\<close>; an access through a null pointer is undefined (\<^term>\<open>None\<close>).
  Console output is left out.
\<close>

section \<open>Slab headers\<close>

definition SLAB_MAGIC :: u32 where "SLAB_MAGIC = 0x51AB51AB"

definition slab_sizes :: "u64 list" where
  "slab_sizes = [16, 32, 64, 128, 256, 512, 1024, 2048]"

definition NUM_CACHE_SIZES :: nat where
  "NUM_CACHE_SIZES = length slab_sizes"

definition get_next :: "u64 \<Rightarrow> heap \<Rightarrow> u64" where "get_next slab h = ld64 (hmem h) slab"
definition get_prev :: "u64 \<Rightarrow> heap \<Rightarrow> u64" where "get_prev slab h = ld64 (hmem h) (slab + 8)"
definition get_cache :: "u64 \<Rightarrow> heap \<Rightarrow> u64" where "get_cache slab h = ld64 (hmem h) (slab + 16)"
definition get_free_list :: "u64 \<Rightarrow> heap \<Rightarrow> u64" where "get_free_list slab h = ld64 (hmem h) (slab + 24)"
definition get_in_use :: "u64 \<Rightarrow> heap \<Rightarrow> u32" where "get_in_use slab h = ld32 (hmem h) (slab + 32)"
definition get_magic :: "u64 \<Rightarrow> heap \<Rightarrow> u32" where "get_magic slab h = ld32 (hmem h) (slab + 36)"

definition store64 :: "u64 \<Rightarrow> u64 \<Rightarrow> heap \<Rightarrow> heap" where
  "store64 a v h = h\<lparr>hmem := st64 (hmem h) a v\<rparr>"
definition store32 :: "u64 \<Rightarrow> u32 \<Rightarrow> heap \<Rightarrow> heap" where
  "store32 a v h = h\<lparr>hmem := st32 (hmem h) a v\<rparr>"

definition set_next :: "u64 \<Rightarrow> u64 \<Rightarrow> heap \<Rightarrow> heap" where "set_next slab v = store64 slab v"
definition set_prev :: "u64 \<Rightarrow> u64 \<Rightarrow> heap \<Rightarrow> heap" where "set_prev slab v = store64 (slab + 8) v"
definition set_cache :: "u64 \<Rightarrow> u64 \<Rightarrow> heap \<Rightarrow> heap" where "set_cache slab v = store64 (slab + 16) v"
definition set_free_list :: "u64 \<Rightarrow> u64 \<Rightarrow> heap \<Rightarrow> heap" where "set_free_list slab v = store64 (slab + 24) v"
definition set_in_use :: "u64 \<Rightarrow> u32 \<Rightarrow> heap \<Rightarrow> heap" where "set_in_use slab v = store32 (slab + 32) v"
definition set_magic :: "u64 \<Rightarrow> u32 \<Rightarrow> heap \<Rightarrow> heap" where "set_magic slab v = store32 (slab + 36) v"

text \<open>The address \<open>&caches[i]\<close> (records of 32 bytes) and the record a cache pointer leads to.\<close>

definition cache_ptr :: "nat \<Rightarrow> heap \<Rightarrow> u64" where
  "cache_ptr i h = caches_at h + 32 * of_nat i"

definition cache_index :: "u64 \<Rightarrow> heap \<Rightarrow> nat option" where
  "cache_index p h = find (\<lambda>i. cache_ptr i h = p) [0..<length (caches h)]"

definition get_kmem :: "nat \<Rightarrow> heap \<Rightarrow> kmem_cache option" where
  "get_kmem c h = arr_get (caches h) c"

definition upd_kmem :: "nat \<Rightarrow> (kmem_cache \<Rightarrow> kmem_cache) \<Rightarrow> heap \<Rightarrow> heap option" where
  "upd_kmem c f h = do {
     k \<leftarrow> arr_get (caches h) c;
     cs \<leftarrow> arr_set (caches h) c (f k);
     Some (h\<lparr>caches := cs\<rparr>)
   }"

section \<open>Slabs\<close>

text \<open>The loop of \<open>slab_init_page\<close> that links \<open>n\<close> objects from \<open>cur\<close>; its result is the last \<open>cur\<close>.\<close>

primrec link_objects :: "nat \<Rightarrow> u64 \<Rightarrow> u64 \<Rightarrow> heap \<Rightarrow> u64 \<times> heap" where
  "link_objects 0 sz cur h = (cur, h)"
| "link_objects (Suc n) sz cur h = link_objects n sz (cur + sz) (store64 cur (cur + sz) h)"

definition slab_init_page :: "u64 \<Rightarrow> nat \<Rightarrow> heap \<Rightarrow> heap option" where
  "slab_init_page slab c h = do {
     guard (slab \<noteq> 0);
     let h = set_magic slab SLAB_MAGIC h;
     let h = set_cache slab (cache_ptr c h) h;
     let h = set_in_use slab 0 h;
     let h = set_next slab 0 h;
     let h = set_prev slab 0 h;
     let start = align_up (slab + 40) 8;
     let available = 4096 - (start - slab);
     k \<leftarrow> get_kmem c h;
     guard (obj_size k \<noteq> 0);
     let max_objs = available div obj_size k;
     let h = set_free_list slab start h;
     let (cur, h) = link_objects (unat (max_objs - 1)) (obj_size k) start h;
     Some (store64 cur 0 h)
   }"

text \<open>The two list operations on doubly linked slabs that the code repeats inline.\<close>

definition unlink_slab :: "u64 \<Rightarrow> nat \<Rightarrow> ((u64 \<Rightarrow> u64) \<Rightarrow> kmem_cache \<Rightarrow> kmem_cache) \<Rightarrow> heap \<Rightarrow> heap option" where
  "unlink_slab slab c set_head h = do {
     h \<leftarrow> (if get_prev slab h \<noteq> 0 then Some (set_next (get_prev slab h) (get_next slab h) h)
          else upd_kmem c (set_head (\<lambda>_. get_next slab h)) h);
     Some (if get_next slab h \<noteq> 0 then set_prev (get_next slab h) (get_prev slab h) h else h)
   }"

definition push_slab ::
  "u64 \<Rightarrow> nat \<Rightarrow> (kmem_cache \<Rightarrow> u64) \<Rightarrow> ((u64 \<Rightarrow> u64) \<Rightarrow> kmem_cache \<Rightarrow> kmem_cache) \<Rightarrow> heap \<Rightarrow> heap option"
where
  "push_slab slab c head set_head h = do {
     k \<leftarrow> get_kmem c h;
     let h = set_next slab (head k) h;
     let h = set_prev slab 0 h;
     let h = (if head k \<noteq> 0 then set_prev (head k) slab h else h);
     upd_kmem c (set_head (\<lambda>_. slab)) h
   }"

text \<open>
  The first half of \<open>cache_alloc\<close>: the slab to take an object from, at the head of the partial list.
  The result is null when no page is left.
\<close>

definition cache_slab :: "nat \<Rightarrow> heap \<Rightarrow> (u64 \<times> heap) option" where
  "cache_slab c h = do {
     k \<leftarrow> get_kmem c h;
     if slabs_partial k \<noteq> 0 then Some (slabs_partial k, h)
     else do {
       (slab, h) \<leftarrow>
         (if slabs_free k \<noteq> 0 then do {
            let slab = slabs_free k;
            h \<leftarrow> upd_kmem c (slabs_free_update (\<lambda>_. get_next slab h)) h;
            k \<leftarrow> get_kmem c h;
            Some (slab, if slabs_free k \<noteq> 0 then set_prev (slabs_free k) 0 h else h)
          } else do {
            (slab, h) \<leftarrow> alloc_pages_backend 1 PAGE_TYPE_SLAB h;
            if slab = 0 then Some (0, h)
            else do { h \<leftarrow> slab_init_page slab c h; Some (slab, h) }
          });
       if slab = 0 then Some (0, h)
       else do { h \<leftarrow> push_slab slab c slabs_partial slabs_partial_update h; Some (slab, h) }
     }
   }"

definition cache_alloc :: "nat \<Rightarrow> heap \<Rightarrow> (u64 \<times> heap) option" where
  "cache_alloc c h = do {
     (slab, h) \<leftarrow> cache_slab c h;
     if slab = 0 then Some (0, h)
     else do {
       let obj = get_free_list slab h;
       guard (obj \<noteq> 0);
       let h = set_free_list slab (ld64 (hmem h) obj) h;
       let h = set_in_use slab (get_in_use slab h + 1) h;
       if get_free_list slab h = 0 then do {
         h \<leftarrow> unlink_slab slab c slabs_partial_update h;
         h \<leftarrow> push_slab slab c slabs_full slabs_full_update h;
         Some (obj, h)
       } else Some (obj, h)
     }
   }"

definition cache_free :: "nat \<Rightarrow> u64 \<Rightarrow> heap \<Rightarrow> heap option" where
  "cache_free c ptr h =
     (let slab = ptr AND NOT (4096 - 1) in
      if get_magic slab h \<noteq> SLAB_MAGIC then Some h
      else do {
        let was_full = (get_free_list slab h = 0);
        let h = store64 ptr (get_free_list slab h) h;
        let h = set_free_list slab ptr h;
        let h = set_in_use slab (get_in_use slab h - 1) h;
        if get_in_use slab h = 0 then do {
          h \<leftarrow> (if was_full then unlink_slab slab c slabs_full_update h
               else unlink_slab slab c slabs_partial_update h);
          free_pages_backend slab h
        } else if was_full then do {
          h \<leftarrow> unlink_slab slab c slabs_full_update h;
          push_slab slab c slabs_partial slabs_partial_update h
        } else Some h
      })"

section \<open>Initialisation and the allocation interface\<close>

text \<open>
  The table that \<open>heap_init\<close> clears and in which it reserves its own pages lies in the first pages of the heap. Here it
  is the list \<open>page_metadata\<close>, so that the model is right for programs that leave these reserved pages alone (\<open>heap_run\<close>).
\<close>

definition heap_init :: "u64 \<Rightarrow> u64 \<Rightarrow> heap \<Rightarrow> heap option" where
  "heap_init start sz h =
     (let aligned_start = (start + 4096 - 1) AND NOT (4096 - 1);
          diff = aligned_start - start
      in if sz < diff then Some h
         else
           let sz = sz - diff;
               h = h\<lparr>total_pages := ucast (sz div 4096)\<rparr>
           in if total_pages h = 0 then Some h
              else
                let h = h\<lparr>heap_start_addr := aligned_start,
                          heap_end_addr := aligned_start + ucast (total_pages h * 4096)\<rparr>;
                    meta_size = (ucast (total_pages h) :: u64) * 4;
                    meta_pages = (meta_size + 4096 - 1) div 4096
                in if ucast (total_pages h) \<le> meta_pages then Some h
                   else do {
                     let md = replicate (unat (total_pages h)) \<lparr>ptype = 0, pcount = 0\<rparr>;
                     md \<leftarrow> for_loop 0 (unat meta_pages)
                       (\<lambda>i md. arr_set md i \<lparr>ptype = PAGE_TYPE_LARGE, pcount = 1\<rparr>) md;
                     Some (h\<lparr>page_metadata := Some md,
                       caches := map (\<lambda>s. \<lparr>slabs_partial = 0, slabs_full = 0, slabs_free = 0, obj_size = s\<rparr>)
                         slab_sizes,
                       heap_lock := snd (pthread_spin_init (heap_lock h))\<rparr>)
                   })"

text \<open>\<open>pthread_spin_lock(&heap_lock)\<close> and \<open>pthread_spin_unlock(&heap_lock)\<close>.\<close>

definition lock_heap :: "heap \<Rightarrow> heap option" where
  "lock_heap h = do { (r, l) \<leftarrow> pthread_spin_lock (heap_lock h); Some (h\<lparr>heap_lock := l\<rparr>) }"

definition unlock_heap :: "heap \<Rightarrow> heap" where
  "unlock_heap h = h\<lparr>heap_lock := snd (pthread_spin_unlock (heap_lock h))\<rparr>"

definition malloc :: "u64 \<Rightarrow> heap \<Rightarrow> (u64 \<times> heap) option" where
  "malloc sz h =
     (if sz = 0 then Some (0, h)
      else do {
        h \<leftarrow> lock_heap h;
        (ptr, h) \<leftarrow>
          (if sz \<le> 2048 then
             case find (\<lambda>i. sz \<le> obj_size (caches h ! i)) [0..<length (caches h)] of
               Some i \<Rightarrow> cache_alloc i h
             | None \<Rightarrow> Some (0, h)
           else alloc_pages_backend ((sz + 4096 - 1) div 4096) PAGE_TYPE_LARGE h);
        Some (ptr, unlock_heap h)
      })"

definition free :: "u64 \<Rightarrow> heap \<Rightarrow> heap option" where
  "free ptr h =
     (if ptr = 0 then Some h
      else do {
        h \<leftarrow> lock_heap h;
        let idx = virt_to_page_idx h ptr;
        h \<leftarrow> (if idx < total_pages h then do {
                md \<leftarrow> page_metadata h;
                p \<leftarrow> arr_get md (unat idx);
                if ptype p = PAGE_TYPE_SLAB then
                  let slab = ptr AND NOT (4096 - 1) in
                  if get_cache slab h \<noteq> 0 then do {
                    c \<leftarrow> cache_index (get_cache slab h) h;
                    cache_free c ptr h
                  } else Some h
                else if ptype p = PAGE_TYPE_LARGE then free_pages_backend ptr h
                else Some h
              } else Some h);
        Some (unlock_heap h)
      })"

definition calloc :: "u64 \<Rightarrow> u64 \<Rightarrow> heap \<Rightarrow> (u64 \<times> heap) option" where
  "calloc num sz h = do {
     let total = num * sz;
     (ptr, h) \<leftarrow> malloc total h;
     Some (ptr, if ptr \<noteq> 0 then h\<lparr>hmem := memset ptr 0 total (hmem h)\<rparr> else h)
   }"

text \<open>The size that \<open>realloc\<close> finds for a block: zero for an address it does not know.\<close>

definition old_size :: "u64 \<Rightarrow> heap \<Rightarrow> u64 option" where
  "old_size ptr h =
     (let idx = virt_to_page_idx h ptr in
      if idx < total_pages h then do {
        md \<leftarrow> page_metadata h;
        p \<leftarrow> arr_get md (unat idx);
        if ptype p = PAGE_TYPE_SLAB then
          let slab = ptr AND NOT (4096 - 1) in
          if get_cache slab h \<noteq> 0 then do {
            c \<leftarrow> cache_index (get_cache slab h) h;
            k \<leftarrow> get_kmem c h;
            Some (obj_size k)
          } else Some 0
        else if ptype p = PAGE_TYPE_LARGE then Some (ucast (pcount p) * 4096)
        else Some 0
      } else Some 0)"

definition realloc :: "u64 \<Rightarrow> u64 \<Rightarrow> heap \<Rightarrow> (u64 \<times> heap) option" where
  "realloc ptr new_size h =
     (if ptr = 0 then malloc new_size h
      else if new_size = 0 then do { h \<leftarrow> free ptr h; Some (0, h) }
      else do {
        h \<leftarrow> lock_heap h;
        osz \<leftarrow> old_size ptr h;
        let h = unlock_heap h;
        if new_size \<le> osz then Some (ptr, h)
        else do {
          (new_ptr, h) \<leftarrow> malloc new_size h;
          if new_ptr \<noteq> 0 then do {
            h \<leftarrow> free ptr (h\<lparr>hmem := memcpy new_ptr ptr osz (hmem h)\<rparr>);
            Some (new_ptr, h)
          } else Some (new_ptr, h)
        }
      })"

end
