(* ===== verification/Runqueue.thy ===== *)
theory Runqueue
  imports Linked_List Heap
begin

text \<open>
  The state of the scheduler and its run queues (\<open>src/src/pthread.c\<close>): one doubly linked list of tasks
  per priority with head and tail pointers, and the bit mask \<open>active_priorities\<close> of the priorities
  whose list is not empty.

  The task structures are a store from their addresses to records; an address that is not in the
  store is no live task (never allocated, or freed), and an access through it is undefined.
\<close>

section \<open>State\<close>

datatype task_state = TASK_RUNNING | TASK_READY | TASK_EXITED | TASK_BLOCKED | TASK_STOPPED | TASK_SLEEPING

text \<open>The saved registers, and the priorities \<open>IDLE\<close> to \<open>REALTIME\<close> as the numbers of the enumeration.\<close>

record cpu_context =
  x19 :: u64
  x20 :: u64
  x21 :: u64
  x22 :: u64
  x23 :: u64
  x24 :: u64
  x25 :: u64
  x26 :: u64
  x27 :: u64
  x28 :: u64
  fp :: u64
  lr :: u64
  sp :: u64
  qregs :: "128 word list"

definition IDLE :: u32 where "IDLE = 0"
definition NORMAL :: u32 where "NORMAL = 2"
definition COUNT :: nat where "COUNT = 5"

record task =
  t_context :: cpu_context
  t_id :: u64
  t_state :: task_state
  t_priority :: u32
  t_next :: u64
  t_prev :: u64
  t_stack_page :: u64
  t_ret_value :: u64
  t_join_wait_queue :: u64

record cpu_core =
  cpu_id :: u32
  core_task :: u64
  task_to_free :: u64

text \<open>
  \<open>kheap\<close> is the heap the tasks and stacks come from; \<open>idle_flag_at\<close>, \<open>idle_at\<close> and \<open>ret_from_fork_at\<close> are the
  addresses of the variable \<open>idle_flag\<close>, of the function \<open>idle\<close> and of the assembly label
  \<open>ret_from_fork\<close>; \<open>regs\<close> holds the callee-saved registers of each core.
\<close>

record sched =
  tasks :: "u64 \<rightharpoonup> task"
  runqueues :: "u64 list"
  runqueues_tail :: "u64 list"
  cores :: "cpu_core list"
  tid_counter :: u64
  sched_lock :: spinlock
  active_priorities :: u32
  kernel_ttbr1 :: u64
  kheap :: heap
  idle_flag_at :: u64
  idle_at :: u64
  ret_from_fork_at :: u64
  regs :: "nat \<Rightarrow> cpu_context"

definition upd_task :: "u64 \<Rightarrow> (task \<Rightarrow> task) \<Rightarrow> sched \<Rightarrow> sched option" where
  "upd_task p f s = do {
     t \<leftarrow> tasks s p;
     Some (s\<lparr>tasks := (tasks s)(p \<mapsto> f t)\<rparr>)
   }"

section \<open>Operations\<close>

definition sched_enqueue_task :: "u64 \<Rightarrow> sched \<Rightarrow> sched option" where
  "sched_enqueue_task t s = do {
     k \<leftarrow> tasks s t;
     let prio = unat (t_priority k);
     s \<leftarrow> upd_task t (t_next_update (\<lambda>_. 0)) s;
     s \<leftarrow> upd_task t (t_prev_update (\<lambda>_. 0)) s;
     head \<leftarrow> arr_get (runqueues s) prio;
     s \<leftarrow> (if head = 0 then do {
             rq \<leftarrow> arr_set (runqueues s) prio t;
             rt \<leftarrow> arr_set (runqueues_tail s) prio t;
             Some (s\<lparr>runqueues := rq, runqueues_tail := rt\<rparr>)
           } else do {
             tail \<leftarrow> arr_get (runqueues_tail s) prio;
             s \<leftarrow> upd_task t (t_prev_update (\<lambda>_. tail)) s;
             s \<leftarrow> upd_task tail (t_next_update (\<lambda>_. t)) s;
             rt \<leftarrow> arr_set (runqueues_tail s) prio t;
             Some (s\<lparr>runqueues_tail := rt\<rparr>)
           });
     Some (s\<lparr>active_priorities := active_priorities s OR push_bit prio 1\<rparr>)
   }"

definition sched_dequeue_task :: "u64 \<Rightarrow> sched \<Rightarrow> sched option" where
  "sched_dequeue_task t s = do {
     k \<leftarrow> tasks s t;
     let prio = unat (t_priority k);
     head \<leftarrow> arr_get (runqueues s) prio;
     tail \<leftarrow> arr_get (runqueues_tail s) prio;
     s \<leftarrow> (if t_prev k \<noteq> 0 then upd_task (t_prev k) (t_next_update (\<lambda>_. t_next k)) s
          else if head = t then Some (s\<lparr>runqueues := (runqueues s)[prio := t_next k]\<rparr>)
          else Some s);
     k \<leftarrow> tasks s t;
     s \<leftarrow> (if t_next k \<noteq> 0 then upd_task (t_next k) (t_prev_update (\<lambda>_. t_prev k)) s
          else if tail = t then Some (s\<lparr>runqueues_tail := (runqueues_tail s)[prio := t_prev k]\<rparr>)
          else Some s);
     s \<leftarrow> upd_task t (t_next_update (\<lambda>_. 0)) s;
     s \<leftarrow> upd_task t (t_prev_update (\<lambda>_. 0)) s;
     head \<leftarrow> arr_get (runqueues s) prio;
     Some (if head = 0 then s\<lparr>active_priorities := active_priorities s AND NOT (push_bit prio 1)\<rparr> else s)
   }"

definition rotate_queue :: "nat \<Rightarrow> sched \<Rightarrow> sched option" where
  "rotate_queue priority s = do {
     head \<leftarrow> arr_get (runqueues s) priority;
     if head = 0 then Some s
     else do {
       k \<leftarrow> tasks s head;
       if t_next k = 0 then Some s
       else do {
         s \<leftarrow> sched_dequeue_task head s;
         sched_enqueue_task head s
       }
     }
   }"

section \<open>Queues as linked lists\<close>

definition is_task :: "sched \<Rightarrow> u64 \<Rightarrow> bool" where
  "is_task s p \<longleftrightarrow> tasks s p \<noteq> None"

definition task_next :: "sched \<Rightarrow> u64 \<Rightarrow> u64" where
  "task_next s p = (case tasks s p of None \<Rightarrow> 0 | Some k \<Rightarrow> t_next k)"

definition task_prev :: "sched \<Rightarrow> u64 \<Rightarrow> u64" where
  "task_prev s p = (case tasks s p of None \<Rightarrow> 0 | Some k \<Rightarrow> t_prev k)"

definition set_task :: "u64 \<Rightarrow> (task \<Rightarrow> task) \<Rightarrow> sched \<Rightarrow> sched" where
  "set_task p f s = s\<lparr>tasks := (tasks s)(p := map_option f (tasks s p))\<rparr>"

definition set_task_next :: "u64 \<Rightarrow> u64 \<Rightarrow> sched \<Rightarrow> sched" where
  "set_task_next p v = set_task p (t_next_update (\<lambda>_. v))"

definition set_task_prev :: "u64 \<Rightarrow> u64 \<Rightarrow> sched \<Rightarrow> sched" where
  "set_task_prev p v = set_task p (t_prev_update (\<lambda>_. v))"

interpretation tq: link_store is_task task_next task_prev set_task_next set_task_prev
  by unfold_locales
    (auto simp: is_task_def task_next_def task_prev_def set_task_next_def set_task_prev_def set_task_def
      split: option.splits)

lemma upd_task_set: "is_task s p \<Longrightarrow> upd_task p f s = Some (set_task p f s)"
  by (auto simp: upd_task_def set_task_def is_task_def)

lemma set_task_fields [simp]:
  "runqueues (set_task p f s) = runqueues s" "runqueues_tail (set_task p f s) = runqueues_tail s"
  "active_priorities (set_task p f s) = active_priorities s" "is_task (set_task p f s) q = is_task s q"
  "cores (set_task p f s) = cores s" "sched_lock (set_task p f s) = sched_lock s"
  "kheap (set_task p f s) = kheap s" "regs (set_task p f s) = regs s"
  by (auto simp: set_task_def is_task_def)

lemma links_of_other_fields [simp]:
  "task_next (s\<lparr>runqueues := a\<rparr>) = task_next s" "task_next (s\<lparr>runqueues_tail := a\<rparr>) = task_next s"
  "task_next (s\<lparr>active_priorities := b\<rparr>) = task_next s"
  "task_prev (s\<lparr>runqueues := a\<rparr>) = task_prev s" "task_prev (s\<lparr>runqueues_tail := a\<rparr>) = task_prev s"
  "task_prev (s\<lparr>active_priorities := b\<rparr>) = task_prev s"
  "is_task (s\<lparr>runqueues := a\<rparr>) = is_task s" "is_task (s\<lparr>runqueues_tail := a\<rparr>) = is_task s"
  "is_task (s\<lparr>active_priorities := b\<rparr>) = is_task s"
  by (auto simp: task_next_def task_prev_def is_task_def fun_eq_iff)

text \<open>The parts of a task that no queue operation touches.\<close>

definition task_core :: "sched \<Rightarrow> u64 \<Rightarrow> task option" where
  "task_core s p = map_option (\<lambda>k. k\<lparr>t_next := 0, t_prev := 0\<rparr>) (tasks s p)"

definition prio_of :: "sched \<Rightarrow> u64 \<Rightarrow> nat" where
  "prio_of s p = (case tasks s p of None \<Rightarrow> 0 | Some k \<Rightarrow> unat (t_priority k))"

text \<open>
  The abstraction of the run queues: for each priority the list of its tasks, in the order in which
  they will run.
\<close>

definition rq_rep :: "sched \<Rightarrow> (nat \<Rightarrow> u64 list) \<Rightarrow> bool" where
  "rq_rep s q \<longleftrightarrow>
     length (runqueues s) = COUNT \<and> length (runqueues_tail s) = COUNT \<and>
     (\<forall>p < COUNT. tq.linked s 0 (q p) \<and> runqueues s ! p = head_of 0 (q p) \<and>
        runqueues_tail s ! p = tail_of 0 (q p) \<and> (\<forall>t \<in> set (q p). prio_of s t = p)) \<and>
     (\<forall>p \<ge> COUNT. q p = []) \<and> (\<forall>p. bit (active_priorities s) p \<longleftrightarrow> q p \<noteq> [])"

text \<open>What a queue operation leaves alone.\<close>

definition rq_frame :: "sched \<Rightarrow> sched \<Rightarrow> bool" where
  "rq_frame s s' \<longleftrightarrow> task_core s' = task_core s \<and>
     s' = s\<lparr>tasks := tasks s', runqueues := runqueues s', runqueues_tail := runqueues_tail s',
            active_priorities := active_priorities s'\<rparr>"

lemma rq_frame_refl [simp]: "rq_frame s s"
  by (simp add: rq_frame_def)

lemma rq_frame_trans: "rq_frame s s' \<Longrightarrow> rq_frame s' s'' \<Longrightarrow> rq_frame s s''"
  by (cases s; cases s'; cases s'') (simp add: rq_frame_def)

lemma rq_repD:
  assumes "rq_rep s q"
  shows "length (runqueues s) = COUNT" "length (runqueues_tail s) = COUNT"
    "p < COUNT \<Longrightarrow> tq.linked s 0 (q p)" "p < COUNT \<Longrightarrow> runqueues s ! p = head_of 0 (q p)"
    "p < COUNT \<Longrightarrow> runqueues_tail s ! p = tail_of 0 (q p)"
    "p < COUNT \<Longrightarrow> t \<in> set (q p) \<Longrightarrow> prio_of s t = p" "COUNT \<le> p \<Longrightarrow> q p = []"
    "bit (active_priorities s) p \<longleftrightarrow> q p \<noteq> []"
  using assms by (simp_all add: rq_rep_def)

lemma linked_null: "tq.linked s 0 xs \<Longrightarrow> 0 \<notin> set xs" "tq.linked s z xs \<Longrightarrow> distinct xs"
  by (simp_all add: tq.linked_def dll_def)

lemma of_task_core:
  "is_task s p \<longleftrightarrow> task_core s p \<noteq> None"
  "prio_of s p = (case task_core s p of None \<Rightarrow> 0 | Some k \<Rightarrow> unat (t_priority k))"
  by (simp_all add: is_task_def prio_of_def task_core_def split: option.splits)

lemma task_core_cong:
  assumes "task_core s' = task_core s"
  shows "is_task s' p = is_task s p" "prio_of s' p = prio_of s p"
  by (simp_all add: of_task_core assms)

lemma task_core_set_links [simp]:
  "task_core (set_task_next p v s) = task_core s" "task_core (set_task_prev p v s) = task_core s"
  by (auto simp: task_core_def set_task_next_def set_task_prev_def set_task_def fun_eq_iff
      map_option_case split: option.splits)

lemma rq_frame_set_links:
  "rq_frame s (set_task_next p v s)" "rq_frame s (set_task_prev p v s)"
  unfolding rq_frame_def by (simp_all, simp_all add: set_task_next_def set_task_prev_def set_task_def)

lemma task_core_other_fields [simp]:
  "task_core (s\<lparr>runqueues := a\<rparr>) = task_core s" "task_core (s\<lparr>runqueues_tail := a\<rparr>) = task_core s"
  "task_core (s\<lparr>active_priorities := b\<rparr>) = task_core s"
  by (simp_all add: task_core_def fun_eq_iff)

text \<open>The queues of the other priorities keep their links.\<close>

lemma rq_rep_update:
  assumes rep: "rq_rep s q" and p: "p < COUNT"
    and core: "task_core s' = task_core s"
    and rq: "runqueues s' = (runqueues s)[p := head_of 0 xs]"
      "runqueues_tail s' = (runqueues_tail s)[p := tail_of 0 xs]"
    and act: "\<And>r. bit (active_priorities s') r \<longleftrightarrow> (if r = p then xs \<noteq> [] else bit (active_priorities s) r)"
    and new: "tq.linked s' 0 xs" "\<And>t. t \<in> set xs \<Longrightarrow> prio_of s t = p"
    and other: "\<And>t. is_task s t \<Longrightarrow> prio_of s t \<noteq> p \<Longrightarrow>
      task_next s' t = task_next s t \<and> task_prev s' t = task_prev s t"
  shows "rq_rep s' (q(p := xs))"
proof -
  note d = rq_repD [OF rep]
  have keep: "tq.linked s' 0 (q r)" if "r < COUNT" "r \<noteq> p" for r
  proof (rule tq.linked_cong [OF d(3) [OF that(1)]])
    fix t assume t: "t \<in> set (q r)"
    have "is_task s t" using tq.linkedD [OF d(3) [OF that(1)] t] .
    then show "task_next s' t = task_next s t \<and> task_prev s' t = task_prev s t \<and> is_task s' t = is_task s t"
      using other d(6) [OF that(1) t] that(2) task_core_cong(1) [OF core] by simp
  qed
  have prio: "prio_of s' t = prio_of s t" for t by (rule task_core_cong(2) [OF core])
  show ?thesis
    unfolding rq_rep_def
  proof (intro conjI allI impI ballI)
    fix r assume r: "r < COUNT"
    show "tq.linked s' 0 ((q(p := xs)) r)" using keep r new(1) by simp
    show "runqueues s' ! r = head_of 0 ((q(p := xs)) r)" "runqueues_tail s' ! r = tail_of 0 ((q(p := xs)) r)"
      using d(1,2,4,5) r p rq by (simp_all add: nth_list_update)
    fix t assume "t \<in> set ((q(p := xs)) r)"
    then show "prio_of s' t = r" using d(6) r new(2) prio by (simp split: if_splits)
  next
    fix r assume "COUNT \<le> r"
    then show "(q(p := xs)) r = []" using d(7) p by simp
  next
    fix r show "bit (active_priorities s') r \<longleftrightarrow> (q(p := xs)) r \<noteq> []" using act d(8) by simp
  qed (use d(1,2) rq in simp_all)
qed

lemma enqueue_value:
  assumes rep: "rq_rep s q" and t: "is_task s t" "prio_of s t < COUNT" "t \<noteq> 0"
    and fresh: "t \<notin> set (q (prio_of s t))"
  defines "p \<equiv> prio_of s t"
  shows "sched_enqueue_task t s =
    Some ((tq.append_link 0 t (q p) s)\<lparr>runqueues := (runqueues s)[p := head_of 0 (q p @ [t])],
      runqueues_tail := (runqueues_tail s)[p := t],
      active_priorities := active_priorities s OR push_bit p 1\<rparr>)"
proof -
  note d = rq_repD [OF rep]
  obtain k where k: "tasks s t = Some k" "p = unat (t_priority k)"
    using t(1) by (auto simp: is_task_def p_def prio_of_def)
  have p: "p < COUNT" using t(2) by (simp add: p_def)
  note l = d(3) [OF p]
  have h: "head_of 0 (q p) = 0 \<longleftrightarrow> q p = []" using head_of_null linked_null(1) [OF l] by metis
  have get: "arr_get (runqueues s) p = Some (head_of 0 (q p))"
    "arr_get (runqueues_tail s) p = Some (tail_of 0 (q p))" using d(1,2,4,5) p by (simp_all add: arr_get_def)
  have set: "arr_set (runqueues s) p t = Some ((runqueues s)[p := t])"
    "arr_set (runqueues_tail s) p t = Some ((runqueues_tail s)[p := t])"
    using d(1,2) p by (simp_all add: arr_set_def)
  have keep: "(runqueues s)[p := head_of 0 (q p @ [t])] = runqueues s" if "q p \<noteq> []"
    using d(4) [OF p] that by (cases "q p") (simp_all add: list_update_same_conv d(1) p)
  show ?thesis
  proof (cases "q p = []")
    case True
    then show ?thesis
      using k t(1) get set h
      by (simp add: sched_enqueue_task_def upd_task_set tq.append_link_def set_task_next_def
          set_task_prev_def Let_def)
  next
    case False
    have tl: "is_task s (tail_of 0 (q p))" using tq.linked_tail [OF l False] .
    show ?thesis
      using False k t(1) get set h tl keep
      by (simp add: sched_enqueue_task_def upd_task_set tq.append_link_def set_task_next_def
          set_task_prev_def Let_def)
  qed
qed

lemma bit_set_flag: "bit (a OR push_bit p 1 :: u32) r \<longleftrightarrow> bit a r \<or> r = p \<and> r < 32"
  by (auto simp: bit_simps)

lemma bit_clear_flag:
  "bit (a AND NOT (push_bit p 1) :: u32) r \<longleftrightarrow> bit a r \<and> r \<noteq> p"
  "bit (a AND NOT (2 ^ p) :: u32) r \<longleftrightarrow> bit a r \<and> r \<noteq> p"
  by (auto simp: bit_simps dest: bit_imp_le_length)

lemma append_link_core [simp]: "task_core (tq.append_link z x xs s) = task_core s"
  by (simp add: tq.append_link_def Let_def)

lemma remove_link_core [simp]: "task_core (tq.remove_link z ys zs s) = task_core s"
  by (simp add: tq.remove_link_def Let_def)

lemma link_ops_frame: "rq_frame s (tq.append_link z x xs s)" "rq_frame s (tq.remove_link z ys zs s)"
  unfolding tq.append_link_def tq.remove_link_def Let_def
  by (simp_all split: if_splits) (meson rq_frame_set_links rq_frame_trans rq_frame_refl)+

lemma rq_frame_queues:
  "rq_frame s s' \<Longrightarrow> rq_frame s (s'\<lparr>runqueues := a\<rparr>)" "rq_frame s s' \<Longrightarrow> rq_frame s (s'\<lparr>runqueues_tail := a\<rparr>)"
  "rq_frame s s' \<Longrightarrow> rq_frame s (s'\<lparr>active_priorities := b\<rparr>)"
  by (cases s; cases s'; simp add: rq_frame_def task_core_def fun_eq_iff)+

lemma count_lt: "p < COUNT \<Longrightarrow> p < 32"
  by (simp add: COUNT_def)

lemma enqueue_ok:
  assumes rep: "rq_rep s q" and t: "is_task s t" "prio_of s t < COUNT" "t \<noteq> 0"
    and fresh: "t \<notin> set (q (prio_of s t))"
  shows "\<exists>s'. sched_enqueue_task t s = Some s' \<and> rq_frame s s' \<and>
    rq_rep s' (q(prio_of s t := q (prio_of s t) @ [t]))"
proof -
  define p where "p = prio_of s t"
  have p: "p < COUNT" using t(2) by (simp add: p_def)
  note l = rq_repD(3) [OF rep p] and a = tq.linked_append [OF rq_repD(3) [OF rep p] t(1) fresh [folded p_def] t(3)]
  let ?s = "tq.append_link 0 t (q p) s"
  let ?s' = "?s\<lparr>runqueues := (runqueues s)[p := head_of 0 (q p @ [t])],
      runqueues_tail := (runqueues_tail s)[p := t],
      active_priorities := active_priorities s OR push_bit p 1\<rparr>"
  have "rq_rep ?s' (q(p := q p @ [t]))"
  proof (rule rq_rep_update [OF rep p])
    show "tq.linked ?s' 0 (q p @ [t])" using a(1) by (rule tq.linked_cong) simp
    show "prio_of s u = p" if "u \<in> set (q p @ [t])" for u
      using that rq_repD(6) [OF rep p] by (auto simp: p_def)
    show "task_next ?s' u = task_next s u \<and> task_prev ?s' u = task_prev s u"
      if "is_task s u" "prio_of s u \<noteq> p" for u
      using a(3) [OF that(1)] that(2) rq_repD(6) [OF rep p] by (auto simp: p_def)
  qed (use count_lt [OF p] bit_set_flag in auto)
  moreover have "rq_frame s ?s'" by (intro rq_frame_queues link_ops_frame)
  ultimately show ?thesis
    using enqueue_value [OF assms] unfolding p_def by blast
qed

lemma set_task_commute:
  "set_task p f (s\<lparr>runqueues := a\<rparr>) = (set_task p f s)\<lparr>runqueues := a\<rparr>"
  "set_task p f (s\<lparr>runqueues_tail := a\<rparr>) = (set_task p f s)\<lparr>runqueues_tail := a\<rparr>"
  by (simp_all add: set_task_def)

lemma sched_same_field:
  "runqueues s = a \<Longrightarrow> s\<lparr>runqueues := a\<rparr> = s" "runqueues_tail s = a \<Longrightarrow> s\<lparr>runqueues_tail := a\<rparr> = s"
  "active_priorities s = b \<Longrightarrow> s\<lparr>active_priorities := b\<rparr> = s"
  by auto

lemma tasks_set_task: "tasks (set_task p f s) q = (if q = p then map_option f (tasks s p) else tasks s q)"
  by (simp add: set_task_def)

lemma queue_ends:
  assumes rep: "rq_rep s q" and p: "p < COUNT" and q: "q p = ys @ t # zs"
  shows "(runqueues s)[p := head_of 0 (ys @ zs)] = (if ys = [] then (runqueues s)[p := head_of 0 zs] else runqueues s)"
    "(runqueues_tail s)[p := tail_of 0 (ys @ zs)] =
      (if zs = [] then (runqueues_tail s)[p := tail_of 0 ys] else runqueues_tail s)"
    "arr_get (runqueues s) p = Some (head_of 0 (ys @ [t]))" "arr_get (runqueues_tail s) p = Some (tail_of t zs)"
proof -
  note d = rq_repD [OF rep]
  have h: "runqueues s ! p = head_of 0 (ys @ [t])" "runqueues_tail s ! p = tail_of t zs"
    using d(4,5) [OF p] by (simp_all add: q head_of_def tail_of_def hd_append)
  then show "arr_get (runqueues s) p = Some (head_of 0 (ys @ [t]))" "arr_get (runqueues_tail s) p = Some (tail_of t zs)"
    using d(1,2) p by (simp_all add: arr_get_def)
  show "(runqueues s)[p := head_of 0 (ys @ zs)] = (if ys = [] then (runqueues s)[p := head_of 0 zs] else runqueues s)"
    using h(1) d(1) p by (cases ys) (simp_all add: list_update_same_conv)
  show "(runqueues_tail s)[p := tail_of 0 (ys @ zs)] =
      (if zs = [] then (runqueues_tail s)[p := tail_of 0 ys] else runqueues_tail s)"
    using h(2) d(2) p by (cases zs rule: rev_cases) (simp_all add: list_update_same_conv tail_of_def)
qed

lemma dequeue_value:
  assumes rep: "rq_rep s q" and p: "p < COUNT" and q: "q p = ys @ t # zs"
  shows "sched_dequeue_task t s =
    Some ((set_task_prev t 0 (set_task_next t 0 (tq.remove_link 0 ys zs s)))
      \<lparr>runqueues := (runqueues s)[p := head_of 0 (ys @ zs)],
       runqueues_tail := (runqueues_tail s)[p := tail_of 0 (ys @ zs)],
       active_priorities := (if ys @ zs = [] then active_priorities s AND NOT (push_bit p 1)
                             else active_priorities s)\<rparr>)"
proof -
  note d = rq_repD [OF rep]
  note l = d(3) [OF p, unfolded q]
  have vt: "is_task s t" and pr: "prio_of s t = p"
    using tq.linkedD [OF l] d(6) [OF p] q by simp_all
  then obtain k where k: "tasks s t = Some k" "unat (t_priority k) = p"
    by (auto simp: is_task_def prio_of_def)
  have links: "t_prev k = tail_of 0 ys" "t_next k = head_of 0 zs"
    using tq.linked_member [OF l] k(1) by (simp_all add: task_prev_def task_next_def)
  have nz: "0 \<notin> set ys" "0 \<notin> set zs" "t \<notin> set ys" "t \<notin> set zs" "t \<noteq> 0"
    using linked_null [OF l] by auto
  have z: "tail_of 0 ys = 0 \<longleftrightarrow> ys = []" "head_of 0 zs = 0 \<longleftrightarrow> zs = []" "head_of 0 (ys @ zs) = 0 \<longleftrightarrow> ys @ zs = []"
    using tail_of_null [OF nz(1)] head_of_null [OF nz(2)] head_of_null [of 0 "ys @ zs"] nz by auto
  have v: "ys \<noteq> [] \<Longrightarrow> is_task s (tail_of 0 ys) \<and> t \<noteq> tail_of 0 ys"
    "zs \<noteq> [] \<Longrightarrow> is_task s (head_of 0 zs) \<and> t \<noteq> head_of 0 zs"
    using tail_of_in [of ys 0] head_of_in [of zs 0] tq.linkedD [OF l] nz by auto
  note e = queue_ends [OF rep p q]
  have ht: "head_of 0 (ys @ [t]) = t \<longleftrightarrow> ys = []" "tail_of t zs = t \<longleftrightarrow> zs = []"
    using nz by (cases ys, auto) (cases zs rule: rev_cases, auto)
  have get: "arr_get ((runqueues s)[p := v]) p = Some v" for v using d(1) p by (simp add: arr_get_def)
  have hd: "ys \<noteq> [] \<Longrightarrow> head_of 0 (ys @ [t]) \<noteq> 0" using nz(1) by (cases ys) auto
  show ?thesis
    unfolding sched_dequeue_task_def e(1,2) tq.remove_link_def
    using k links z v vt e(3,4) ht get hd
    by (cases "ys = []"; cases "zs = []")
      (simp_all add: upd_task_set tasks_set_task set_task_next_def set_task_prev_def set_task_commute
        Let_def sched_same_field)
qed

lemma dequeue_ok:
  assumes rep: "rq_rep s q" and p: "p < COUNT" and q: "q p = ys @ t # zs"
  shows "\<exists>s'. sched_dequeue_task t s = Some s' \<and> rq_frame s s' \<and> rq_rep s' (q(p := ys @ zs)) \<and>
    task_next s' t = 0 \<and> task_prev s' t = 0"
proof -
  note d = rq_repD [OF rep]
  note l = d(3) [OF p, unfolded q]
  note r = tq.linked_remove [OF l]
  have t: "is_task s t" "t \<notin> set ys" "t \<notin> set zs" using tq.linkedD [OF l] linked_null(2) [OF l] by auto
  let ?r = "tq.remove_link 0 ys zs s"
  let ?u = "set_task_prev t 0 (set_task_next t 0 ?r)"
  let ?s = "?u\<lparr>runqueues := (runqueues s)[p := head_of 0 (ys @ zs)],
       runqueues_tail := (runqueues_tail s)[p := tail_of 0 (ys @ zs)],
       active_priorities := (if ys @ zs = [] then active_priorities s AND NOT (push_bit p 1)
                             else active_priorities s)\<rparr>"
  have vt: "is_task ?r x = is_task s x" for x by (rule r(2))
  have same: "task_next ?u x = task_next ?r x \<and> task_prev ?u x = task_prev ?r x" if "x \<noteq> t" "is_task s x" for x
    using that t(1) vt by (simp add: tq.nxt_set tq.prv_set tq.valid_set)
  have "rq_rep ?s (q(p := ys @ zs))"
  proof (rule rq_rep_update [OF rep p])
    have "tq.linked ?u 0 (ys @ zs)"
    proof (rule tq.linked_cong [OF r(1)])
      fix x assume x: "x \<in> set (ys @ zs)"
      then have "x \<noteq> t" "is_task s x" using t(2,3) tq.linkedD [OF l, of x] by auto
      then show "task_next ?u x = task_next ?r x \<and> task_prev ?u x = task_prev ?r x \<and> is_task ?u x = is_task ?r x"
        using same by (simp add: tq.valid_set)
    qed
    then show "tq.linked ?s 0 (ys @ zs)" by (rule tq.linked_cong) simp
    show "prio_of s x = p" if "x \<in> set (ys @ zs)" for x using that d(6) [OF p] q by auto
    show "task_next ?s x = task_next s x \<and> task_prev ?s x = task_prev s x"
      if "is_task s x" "prio_of s x \<noteq> p" for x
    proof -
      have "x \<notin> set (ys @ t # zs)" using that(2) d(6) [OF p, of x] q by auto
      then show ?thesis using same [of x] r(3) [OF that(1)] that(1) by auto
    qed
    show "bit (active_priorities ?s) r \<longleftrightarrow> (if r = p then ys @ zs \<noteq> [] else bit (active_priorities s) r)" for r
      using d(8) [of p] q by (auto simp: bit_clear_flag)
  qed simp_all
  moreover have "rq_frame s ?s"
    by (intro rq_frame_queues) (meson link_ops_frame rq_frame_set_links rq_frame_trans)
  moreover have "task_next ?s t = 0" "task_prev ?s t = 0"
    using t(1) vt by (simp_all add: tq.nxt_set tq.prv_set tq.valid_set)
  ultimately show ?thesis using dequeue_value [OF rep p q] by blast
qed

text \<open>Taking a task off that is in no queue and has no links changes nothing.\<close>

lemma dequeue_absent:
  assumes rep: "rq_rep s q" and t: "tasks s t = Some k" "t_next k = 0" "t_prev k = 0"
    "unat (t_priority k) < COUNT" "t \<noteq> 0" "t \<notin> set (q (unat (t_priority k)))"
  shows "sched_dequeue_task t s = Some s"
proof -
  define p where "p = unat (t_priority k)"
  note d = rq_repD [OF rep]
  have p: "p < COUNT" and notin: "t \<notin> set (q p)" using t by (simp_all add: p_def)
  have get: "arr_get (runqueues s) p = Some (head_of 0 (q p))"
    "arr_get (runqueues_tail s) p = Some (tail_of 0 (q p))" using d(1,2,4,5) p by (simp_all add: arr_get_def)
  have ne: "head_of 0 (q p) \<noteq> t" "tail_of 0 (q p) \<noteq> t"
    using notin t(5) head_of_in [of "q p" 0] tail_of_in [of "q p" 0] by (cases "q p = []"; auto)+
  have same: "k\<lparr>t_next := 0\<rparr> = k" "k\<lparr>t_prev := 0\<rparr> = k" "k\<lparr>t_next := 0, t_prev := 0\<rparr> = k"
    using t(2,3) by (cases k; simp)+
  have upd: "(tasks s)(t \<mapsto> k) = tasks s" using t(1) by auto
  have act: "active_priorities s AND NOT (push_bit p 1) = active_priorities s" if "head_of 0 (q p) = 0"
  proof (rule bit_word_eqI)
    have "q p = []" using that head_of_null linked_null(1) [OF d(3) [OF p]] by metis
    then have "\<not> bit (active_priorities s) p" using d(8) by simp
    then show "bit (active_priorities s AND NOT (push_bit p 1)) n = bit (active_priorities s) n" for n
      by (auto simp: bit_clear_flag)
  qed
  show ?thesis
    using t(1-3) get ne act unfolding sched_dequeue_task_def upd_task_def
    by (simp add: p_def [symmetric]) (simp only: same upd, simp)
qed

section \<open>Queues by priority, as their clients see them\<close>

text \<open>
  The contract of the run queues: a task goes to the back of the queue of its priority, and can be
  taken out from anywhere; everything else about the tasks is kept.
\<close>

locale priority_queues =
  fixes rep :: "'s \<Rightarrow> (nat \<Rightarrow> 'a list) \<Rightarrow> bool"
    and ok :: "'s \<Rightarrow> 'a \<Rightarrow> bool"
    and prio :: "'s \<Rightarrow> 'a \<Rightarrow> nat"
    and enq :: "'a \<Rightarrow> 's \<Rightarrow> 's option"
    and deq :: "'a \<Rightarrow> 's \<Rightarrow> 's option"
    and keeps :: "'s \<Rightarrow> 's \<Rightarrow> bool"
  assumes keeps_refl: "keeps s s"
    and keeps_trans: "keeps s s' \<Longrightarrow> keeps s' s'' \<Longrightarrow> keeps s s''"
    and keeps_same: "keeps s s' \<Longrightarrow> ok s' t = ok s t" "keeps s s' \<Longrightarrow> prio s' t = prio s t"
    and members: "rep s q \<Longrightarrow> t \<in> set (q p) \<Longrightarrow> ok s t \<and> prio s t = p" "rep s q \<Longrightarrow> distinct (q p)"
    and enq_back: "rep s q \<Longrightarrow> ok s t \<Longrightarrow> t \<notin> set (q (prio s t)) \<Longrightarrow>
      \<exists>s'. enq t s = Some s' \<and> keeps s s' \<and> rep s' (q(prio s t := q (prio s t) @ [t]))"
    and deq_remove: "rep s q \<Longrightarrow> t \<in> set (q p) \<Longrightarrow>
      \<exists>s'. deq t s = Some s' \<and> keeps s s' \<and> rep s' (q(p := remove1 t (q p)))"
begin

text \<open>Taking the head off and putting it back rotates the queue.\<close>

lemma requeue_head:
  assumes "rep s q" "q p = t # xs"
  shows "\<exists>s1 s2. deq t s = Some s1 \<and> enq t s1 = Some s2 \<and> keeps s s2 \<and> rep s2 (q(p := xs @ [t]))"
proof -
  have t: "t \<in> set (q p)" "t \<notin> set xs" using assms members(2) [OF assms(1), of p] by auto
  from deq_remove [OF assms(1) t(1)] obtain s1 where
    s1: "deq t s = Some s1" "keeps s s1" "rep s1 (q(p := xs))" using assms(2) by auto
  have "ok s1 t" "prio s1 t = p" using members(1) [OF assms(1) t(1)] keeps_same [OF s1(2)] by simp_all
  from enq_back [OF s1(3) this(1)] this(2) t(2) obtain s2 where
    "enq t s1 = Some s2" "keeps s1 s2" "rep s2 (q(p := xs @ [t]))" by auto
  with s1 keeps_trans show ?thesis by blast
qed

text \<open>Tasks enqueued one after the other line up in that order.\<close>

primrec enq_all :: "'a list \<Rightarrow> 's \<Rightarrow> 's option" where
  "enq_all [] s = Some s"
| "enq_all (t # ts) s = Option.bind (enq t s) (enq_all ts)"

lemma enq_all_fifo:
  "rep s q \<Longrightarrow> distinct ts \<Longrightarrow> (\<And>t. t \<in> set ts \<Longrightarrow> ok s t \<and> prio s t = p \<and> t \<notin> set (q p)) \<Longrightarrow>
   \<exists>s'. enq_all ts s = Some s' \<and> keeps s s' \<and> rep s' (q(p := q p @ ts))"
proof (induction ts arbitrary: s q)
  case Nil
  then show ?case using keeps_refl by simp
next
  case (Cons t ts)
  from enq_back [of s q t] Cons.prems obtain s1 where
    s1: "enq t s = Some s1" "keeps s s1" "rep s1 (q(p := q p @ [t]))" by auto
  have "\<exists>s'. enq_all ts s1 = Some s' \<and> keeps s1 s' \<and> rep s' ((q(p := q p @ [t]))(p := (q(p := q p @ [t])) p @ ts))"
    using Cons.prems(2,3) keeps_same [OF s1(2)] by (intro Cons.IH [OF s1(3)]) auto
  then obtain s' where "enq_all ts s1 = Some s'" "keeps s1 s'" "rep s' (q(p := q p @ t # ts))"
    by (auto simp only: fun_upd_upd fun_upd_same append_assoc append.simps)
  moreover from this s1(1) have "enq_all (t # ts) s = Some s'" by simp
  ultimately show ?case using keeps_trans [OF s1(2)] by blast
qed

end

text \<open>A task that may be queued: allocated, with a priority the queues have.\<close>

definition queueable :: "sched \<Rightarrow> u64 \<Rightarrow> bool" where
  "queueable s t \<longleftrightarrow> is_task s t \<and> t \<noteq> 0 \<and> prio_of s t < COUNT"

interpretation rq: priority_queues rq_rep queueable prio_of sched_enqueue_task sched_dequeue_task rq_frame
proof unfold_locales
  fix s s' s'' q t p
  show "rq_frame s s' \<Longrightarrow> rq_frame s' s'' \<Longrightarrow> rq_frame s s''" by (rule rq_frame_trans)
  show "queueable s' t = queueable s t" "prio_of s' t = prio_of s t" if "rq_frame s s'"
    using that task_core_cong [of s' s] by (simp_all only: rq_frame_def queueable_def)
  show "queueable s t \<and> prio_of s t = p" if "rq_rep s q" "t \<in> set (q p)"
  proof -
    have p: "p < COUNT" using rq_repD(7) [OF that(1), of p] that(2) by (cases "p < COUNT") auto
    then show ?thesis
      using rq_repD(3,6) [OF that(1) p] that(2) tq.linkedD linked_null(1) by (auto simp: queueable_def)
  qed
  show "distinct (q p)" if "rq_rep s q"
    using rq_repD(3,7) [OF that, of p] linked_null(2) by (cases "p < COUNT") auto
  show "\<exists>s'. sched_enqueue_task t s = Some s' \<and> rq_frame s s' \<and>
      rq_rep s' (q(prio_of s t := q (prio_of s t) @ [t]))"
    if "rq_rep s q" "queueable s t" "t \<notin> set (q (prio_of s t))"
    using enqueue_ok that by (simp add: queueable_def)
  show "\<exists>s'. sched_dequeue_task t s = Some s' \<and> rq_frame s s' \<and> rq_rep s' (q(p := remove1 t (q p)))"
    if "rq_rep s q" "t \<in> set (q p)"
  proof -
    have p: "p < COUNT" using rq_repD(7) [OF that(1), of p] that(2) by (cases "p < COUNT") auto
    from that(2) obtain ys zs where q: "q p = ys @ t # zs" by (auto dest: split_list)
    have "t \<notin> set ys" using linked_null(2) [OF rq_repD(3) [OF that(1) p]] q by simp
    then have "remove1 t (q p) = ys @ zs" by (simp add: q remove1_append)
    then show ?thesis using dequeue_ok [OF that(1) p q] by auto
  qed
qed simp

lemma rotate_queue_ok:
  assumes rep: "rq_rep s q" and p: "p < COUNT"
  shows "\<exists>s'. rotate_queue p s = Some s' \<and> rq_frame s s' \<and> rq_rep s' (q(p := rotate1 (q p)))"
proof -
  note d = rq_repD [OF rep]
  have get: "arr_get (runqueues s) p = Some (head_of 0 (q p))" using d(1,4) p by (simp add: arr_get_def)
  show ?thesis
  proof (cases "q p")
    case Nil
    then have "rotate_queue p s = Some s" "q(p := rotate1 (q p)) = q"
      using get by (auto simp: rotate_queue_def)
    then show ?thesis using rep by (intro exI [of _ s]) simp
  next
    case (Cons t xs)
    have t: "t \<noteq> 0" "is_task s t" using linked_null(1) [OF d(3) [OF p]] tq.linkedD [OF d(3) [OF p]] Cons by auto
    then obtain k where k: "tasks s t = Some k" by (auto simp: is_task_def)
    have "task_next s t = head_of 0 xs"
      using tq.linked_member(2) [of s 0 "[]" t xs] d(3) [OF p] Cons by simp
    then have nx: "t_next k = 0 \<longleftrightarrow> xs = []"
      using head_of_null [of 0 xs] linked_null(1) [OF d(3) [OF p]] Cons k by (simp add: task_next_def)
    show ?thesis
    proof (cases "xs = []")
      case True
      then have "rotate_queue p s = Some s" "q(p := rotate1 (q p)) = q"
        using get Cons k nx t by (auto simp: rotate_queue_def)
      then show ?thesis using rep by (intro exI [of _ s]) simp
    next
      case False
      from rq.requeue_head [OF rep Cons] obtain s1 s2 where
        "sched_dequeue_task t s = Some s1" "sched_enqueue_task t s1 = Some s2" "rq_frame s s2"
        "rq_rep s2 (q(p := xs @ [t]))" by blast
      moreover from this have "rotate_queue p s = Some s2"
        using get Cons k nx t False by (simp add: rotate_queue_def)
      ultimately show ?thesis using Cons by simp
    qed
  qed
qed

section \<open>Properties\<close>

definition demo_context :: cpu_context where
  "demo_context = \<lparr>x19 = 0, x20 = 0, x21 = 0, x22 = 0, x23 = 0, x24 = 0, x25 = 0, x26 = 0, x27 = 0,
     x28 = 0, fp = 0, lr = 0, sp = 0, qregs = []\<rparr>"

definition demo_task :: "u64 \<Rightarrow> task_state \<Rightarrow> u32 \<Rightarrow> u64 \<Rightarrow> u64 \<Rightarrow> task" where
  "demo_task i st pr nx pv = \<lparr>t_context = demo_context, t_id = i, t_state = st, t_priority = pr, t_next = nx,
     t_prev = pv, t_stack_page = 0, t_ret_value = 0, t_join_wait_queue = 0\<rparr>"

text \<open>Two ready tasks of normal priority in the queue and a third one that runs on core 0.\<close>

definition demo_sched :: sched where
  "demo_sched = \<lparr>tasks = [0x1000 \<mapsto> demo_task 1 TASK_READY 2 0x2000 0, 0x2000 \<mapsto> demo_task 2 TASK_READY 2 0 0x1000,
       0x3000 \<mapsto> demo_task 3 TASK_RUNNING 2 0 0],
     runqueues = [0, 0, 0x1000, 0, 0], runqueues_tail = [0, 0, 0x2000, 0, 0],
     cores = [\<lparr>cpu_id = 0, core_task = 0x3000, task_to_free = 0\<rparr>, \<lparr>cpu_id = 1, core_task = 0, task_to_free = 0\<rparr>],
     tid_counter = 4, sched_lock = 0, active_priorities = 4, kernel_ttbr1 = 0, kheap = demo_heap,
     idle_flag_at = 0x40070000, idle_at = 0x40081000, ret_from_fork_at = 0x40082000,
     regs = (\<lambda>_. demo_context)\<rparr>"

definition demo_queues :: "nat \<Rightarrow> u64 list" where
  "demo_queues = (\<lambda>_. [])(2 := [0x1000, 0x2000])"

lemma demo_sched_rep: "rq_rep demo_sched demo_queues"
proof -
  have "tq.linked demo_sched 0 [0x1000, 0x2000]"
    by (simp add: tq.linked_def dll_def task_next_def task_prev_def is_task_def demo_sched_def demo_task_def)
  moreover have "prio_of demo_sched 0x1000 = 2" "prio_of demo_sched 0x2000 = 2"
    by (simp_all add: prio_of_def demo_sched_def demo_task_def)
  moreover have "tq.linked demo_sched 0 []" by (simp add: tq.linked_def)
  moreover have "runqueues demo_sched = [0, 0, 0x1000, 0, 0]" "runqueues_tail demo_sched = [0, 0, 0x2000, 0, 0]"
    "active_priorities demo_sched = push_bit 2 1" by (simp_all add: demo_sched_def)
  moreover have "[0, 0, a, 0, 0] ! p = (if p = 2 then a else 0)" if "p < 5" for p :: nat and a :: u64
    using that by (auto simp: nth_Cons')
  ultimately show ?thesis
    unfolding rq_rep_def COUNT_def demo_queues_def
    by (auto simp: bit_simps tail_of_def simp del: push_bit_of_1)
qed

text \<open>
  \<open>sched_enqueue_task\<close> puts a task that is in no queue at the back of the queue of its priority: the
  head, tail and link pointers represent the old queues with the task appended, the bit of the priority
  is set in the mask of active priorities and represents the queues again, and nothing of any task but
  its links changes.
\<close>

theorem sched_enqueue_task_correct:
  assumes "rq_rep s q" "queueable s t" "t \<notin> set (q (prio_of s t))"
  shows "\<exists>s'. sched_enqueue_task t s = Some s' \<and> rq_rep s' (q(prio_of s t := q (prio_of s t) @ [t])) \<and> rq_frame s s'"
  using rq.enq_back [OF assms] by blast

theorem sched_enqueue_task_correct_witness:
  "\<exists>s'. sched_enqueue_task 0x3000 demo_sched = Some s' \<and>
     rq_rep s' (demo_queues(2 := [0x1000, 0x2000, 0x3000])) \<and> rq_frame demo_sched s'"
proof -
  have p: "prio_of demo_sched 0x3000 = 2" by (simp add: prio_of_def demo_sched_def demo_task_def)
  have "queueable demo_sched 0x3000" using p
    by (simp add: queueable_def COUNT_def is_task_def demo_sched_def)
  then show ?thesis
    using sched_enqueue_task_correct [OF demo_sched_rep, of "0x3000"] p by (simp add: demo_queues_def)
qed

text \<open>
  \<open>sched_dequeue_task\<close> takes a queued task out of its queue, from the front, the middle or the back:
  the pointers represent the queues without it, the others keep their order, the bit of the priority
  stays set exactly while tasks remain, and the task is left without links.
\<close>

theorem sched_dequeue_task_correct:
  assumes "rq_rep s q" "t \<in> set (q (prio_of s t))"
  shows "\<exists>s'. sched_dequeue_task t s = Some s' \<and> rq_rep s' (q(prio_of s t := remove1 t (q (prio_of s t)))) \<and>
    rq_frame s s'"
  using rq.deq_remove [OF assms] by blast

theorem sched_dequeue_task_correct_witness:
  "\<exists>s'. sched_dequeue_task 0x1000 demo_sched = Some s' \<and> rq_rep s' (demo_queues(2 := [0x2000])) \<and>
     rq_frame demo_sched s'"
proof -
  have p: "prio_of demo_sched 0x1000 = 2" by (simp add: prio_of_def demo_sched_def demo_task_def)
  then show ?thesis
    using sched_dequeue_task_correct [OF demo_sched_rep, of "0x1000"] by (simp add: demo_queues_def)
qed

text \<open>The queue after a number of rotations.\<close>

primrec rotate_times :: "nat \<Rightarrow> nat \<Rightarrow> sched \<Rightarrow> sched option" where
  "rotate_times 0 p s = Some s"
| "rotate_times (Suc k) p s = Option.bind (rotate_times k p s) (rotate_queue p)"

text \<open>
  \<open>rotate_queue\<close> is round robin: after \<open>k\<close> calls the queue of the priority is rotated by \<open>k\<close> places, so
  every task of the queue is at its head after a bounded number of calls and no task is lost; the
  queues of the other priorities are untouched.
\<close>

theorem rotate_queue_round_robin:
  assumes "rq_rep s q" "p < COUNT"
  shows "\<exists>s'. rotate_times k p s = Some s' \<and> rq_rep s' (q(p := rotate k (q p))) \<and> rq_frame s s'"
proof (induction k)
  case 0
  then show ?case using assms by simp
next
  case (Suc k)
  then obtain s1 where s1: "rotate_times k p s = Some s1" "rq_rep s1 (q(p := rotate k (q p)))" "rq_frame s s1"
    by blast
  from rotate_queue_ok [OF s1(2) assms(2)] obtain s2 where
    "rotate_queue p s1 = Some s2" "rq_frame s1 s2" "rq_rep s2 (q(p := rotate (Suc k) (q p)))" by auto
  moreover from this s1(1) have "rotate_times (Suc k) p s = Some s2" by simp
  ultimately show ?case using rq_frame_trans [OF s1(3)] by blast
qed

theorem rotate_queue_round_robin_witness:
  "\<exists>s'. rotate_times 3 2 demo_sched = Some s' \<and> rq_rep s' (demo_queues(2 := [0x2000, 0x1000])) \<and>
     rq_frame demo_sched s'"
  using rotate_queue_round_robin [OF demo_sched_rep, of 2 3]
  by (simp add: COUNT_def demo_queues_def numeral_eq_Suc)

end
