(* ===== verification/Sched.thy ===== *)
theory Sched
  imports Runqueue
begin

text \<open>
  Threads and scheduling (\<open>src/src/pthread.c\<close>, \<open>src/src/switch.S\<close>): creation, the scheduling decision and the
  context switch of \<open>sched_yield\<close>, exit, join and the thread attributes.

  An operation takes the index \<open>c\<close> of the \<open>cpu_core_t\<close> that \<open>TPIDR_EL1\<close> of the executing core points to.
  \<open>sched_yield\<close> is modelled up to the point where the task it switches to has released \<open>sched_lock\<close>, which
  both kinds of resumed tasks do first: one that called \<open>sched_yield\<close> before, on its way out, and a new
  one in \<open>ret_from_fork\<close>. A task structure is in the store from \<open>malloc\<close> and \<open>memset\<close> until \<open>free\<close>.
\<close>

section \<open>Cores, locks and task memory\<close>

definition sched_getcpu :: "nat option \<Rightarrow> sched \<Rightarrow> int option" where
  "sched_getcpu core s =
     (case core of
        None \<Rightarrow> Some (- 1)
      | Some c \<Rightarrow> map_option (\<lambda>k. sint (cpu_id k)) (arr_get (cores s) c))"

text \<open>The index \<open>sched_getcpu()\<close> into \<open>cores\<close>; a negative one is out of range.\<close>

definition cpu_index :: "nat \<Rightarrow> sched \<Rightarrow> nat option" where
  "cpu_index c s = do {
     i \<leftarrow> sched_getcpu (Some c) s;
     guard (0 \<le> i);
     Some (nat i)
   }"

definition upd_core :: "nat \<Rightarrow> (cpu_core \<Rightarrow> cpu_core) \<Rightarrow> sched \<Rightarrow> sched option" where
  "upd_core i f s = do {
     k \<leftarrow> arr_get (cores s) i;
     cs \<leftarrow> arr_set (cores s) i (f k);
     Some (s\<lparr>cores := cs\<rparr>)
   }"

definition current_task :: "nat \<Rightarrow> sched \<Rightarrow> u64 option" where
  "current_task c s = map_option core_task (arr_get (cores s) c)"

definition lock_sched :: "sched \<Rightarrow> sched option" where
  "lock_sched s = do { (r, l) \<leftarrow> pthread_spin_lock (sched_lock s); Some (s\<lparr>sched_lock := l\<rparr>) }"

definition unlock_sched :: "sched \<Rightarrow> sched" where
  "unlock_sched s = s\<lparr>sched_lock := snd (pthread_spin_unlock (sched_lock s))\<rparr>"

definition sched_unlock_release :: "sched \<Rightarrow> sched" where
  "sched_unlock_release s = unlock_sched s"

definition heap_malloc :: "u64 \<Rightarrow> sched \<Rightarrow> (u64 \<times> sched) option" where
  "heap_malloc sz s = do { (p, h) \<leftarrow> malloc sz (kheap s); Some (p, s\<lparr>kheap := h\<rparr>) }"

definition heap_free :: "u64 \<Rightarrow> sched \<Rightarrow> sched option" where
  "heap_free p s = do { h \<leftarrow> free p (kheap s); Some (s\<lparr>kheap := h\<rparr>) }"

text \<open>\<open>sizeof(task_t)\<close>, the structure that \<open>memset\<close> clears, and the end of its life.\<close>

definition TASK_SIZE :: u64 where "TASK_SIZE = 304"

definition zero_context :: cpu_context where
  "zero_context = \<lparr>x19 = 0, x20 = 0, x21 = 0, x22 = 0, x23 = 0, x24 = 0, x25 = 0, x26 = 0, x27 = 0,
     x28 = 0, fp = 0, lr = 0, sp = 0, qregs = replicate 8 0\<rparr>"

definition zero_task :: task where
  "zero_task = \<lparr>t_context = zero_context, t_id = 0, t_state = TASK_RUNNING, t_priority = 0, t_next = 0, t_prev = 0,
     t_stack_page = 0, t_ret_value = 0, t_join_wait_queue = 0\<rparr>"

definition clear_task :: "u64 \<Rightarrow> sched \<Rightarrow> sched" where
  "clear_task t s = s\<lparr>tasks := (tasks s)(t \<mapsto> zero_task)\<rparr>"

definition free_task :: "u64 \<Rightarrow> sched \<Rightarrow> sched option" where
  "free_task t s = heap_free t (s\<lparr>tasks := (tasks s)(t := None)\<rparr>)"

section \<open>The scheduling decision\<close>

text \<open>\<open>__builtin_clz\<close> and the highest active priority, limited to the queues there are.\<close>

definition clz :: "u32 \<Rightarrow> nat" where
  "clz x = length (takeWhile (\<lambda>i. \<not> bit x i) (rev [0..<32]))"

definition highest_prio :: "u32 \<Rightarrow> nat" where
  "highest_prio active = (let h = 31 - clz active in if COUNT \<le> h then COUNT - 1 else h)"

text \<open>\<open>cpu_switch_to\<close> stores the callee-saved registers in one task and loads them from another.\<close>

definition cpu_switch_to :: "nat \<Rightarrow> u64 \<Rightarrow> u64 \<Rightarrow> sched \<Rightarrow> sched option" where
  "cpu_switch_to c prev nxt s = do {
     s \<leftarrow> upd_task prev (t_context_update (\<lambda>_. regs s c)) s;
     n \<leftarrow> tasks s nxt;
     Some (s\<lparr>regs := (regs s)(c := t_context n)\<rparr>)
   }"

text \<open>The release of the task that exited on this core before.\<close>

definition sched_reap :: "nat \<Rightarrow> sched \<Rightarrow> sched option" where
  "sched_reap c s = do {
     i \<leftarrow> cpu_index c s;
     core \<leftarrow> arr_get (cores s) i;
     let dead_task = task_to_free core;
     if dead_task \<noteq> 0 then do {
       s \<leftarrow> upd_core i (task_to_free_update (\<lambda>_. 0)) s;
       k \<leftarrow> tasks s dead_task;
       s \<leftarrow> heap_free (t_stack_page k) s;
       free_task dead_task s
     } else Some s
   }"

text \<open>The parts of \<open>sched_yield\<close>: the caller, if it can go on, is put back into its queue;\<close>

definition yield_put_back :: "u64 \<Rightarrow> sched \<Rightarrow> sched option" where
  "yield_put_back prev_task s =
     (if prev_task \<noteq> 0 then do {
        k \<leftarrow> tasks s prev_task;
        if t_state k = TASK_RUNNING \<and> t_priority k \<noteq> IDLE then do {
          s \<leftarrow> upd_task prev_task (t_state_update (\<lambda>_. TASK_READY)) s;
          sched_enqueue_task prev_task s
        } else Some s
      } else Some s)"

text \<open>the next task is the head of the highest active queue, else the one the core has;\<close>

definition yield_choose :: "nat \<Rightarrow> sched \<Rightarrow> u64 option" where
  "yield_choose c s = do {
     next_task \<leftarrow> (if 0 < active_priorities s then arr_get (runqueues s) (highest_prio (active_priorities s))
                  else Some 0);
     if next_task = 0 then do {
       i \<leftarrow> cpu_index c s;
       core \<leftarrow> arr_get (cores s) i;
       Some (core_task core)
     } else Some next_task
   }"

text \<open>it leaves its queue and is marked as running;\<close>

definition yield_take :: "u64 \<Rightarrow> sched \<Rightarrow> sched option" where
  "yield_take next_task s =
     (if next_task \<noteq> 0 then do {
        k \<leftarrow> tasks s next_task;
        s \<leftarrow> (if t_priority k \<noteq> IDLE then sched_dequeue_task next_task s else Some s);
        upd_task next_task (t_state_update (\<lambda>_. TASK_RUNNING)) s
      } else Some s)"

text \<open>and the core changes over to it.\<close>

definition yield_switch :: "nat \<Rightarrow> u64 \<Rightarrow> u64 \<Rightarrow> sched \<Rightarrow> sched option" where
  "yield_switch c prev_task next_task s =
     (if next_task \<noteq> prev_task then do {
        s \<leftarrow> upd_core c (core_task_update (\<lambda>_. next_task)) s;
        cpu_switch_to c prev_task next_task s
      } else Some s)"

definition sched_yield :: "nat \<Rightarrow> sched \<Rightarrow> sched option" where
  "sched_yield c s = do {
     s \<leftarrow> sched_reap c s;
     s \<leftarrow> lock_sched s;
     prev_task \<leftarrow> current_task c s;
     s \<leftarrow> yield_put_back prev_task s;
     next_task \<leftarrow> yield_choose c s;
     s \<leftarrow> yield_take next_task s;
     s \<leftarrow> yield_switch c prev_task next_task s;
     Some (unlock_sched s)
   }"

section \<open>Thread attributes\<close>

record pthread_attr =
  detachstate :: int
  stacksize :: u64
  stackaddr :: u64
  inheritsched :: int
  schedpolicy :: int
  schedparam :: int
  is_initialized :: int

text \<open>
  A pointer to attributes or to an output variable may be null (\<^term>\<open>None\<close>). Setters return the error
  number and the attributes; getters return the error number and what they store.
\<close>

definition attr_ok :: "pthread_attr option \<Rightarrow> bool" where
  "attr_ok a \<longleftrightarrow> (case a of None \<Rightarrow> False | Some r \<Rightarrow> is_initialized r \<noteq> 0)"

definition pthread_attr_init :: "pthread_attr option \<Rightarrow> int \<times> pthread_attr option" where
  "pthread_attr_init a =
     (case a of
        None \<Rightarrow> (EINVAL, None)
      | Some r \<Rightarrow> (0, Some (r\<lparr>detachstate := 0, stacksize := 4096 * 4, stackaddr := 0, schedpolicy := 0,
                               schedparam := 2, is_initialized := 1\<rparr>)))"

definition pthread_attr_destroy :: "pthread_attr option \<Rightarrow> int \<times> pthread_attr option" where
  "pthread_attr_destroy a =
     (case a of None \<Rightarrow> (EINVAL, None) | Some r \<Rightarrow> (0, Some (r\<lparr>is_initialized := 0\<rparr>)))"

definition pthread_attr_setstacksize :: "pthread_attr option \<Rightarrow> u64 \<Rightarrow> int \<times> pthread_attr option" where
  "pthread_attr_setstacksize a sz =
     (if \<not> attr_ok a then (EINVAL, a)
      else if sz < 4096 then (EINVAL, a)
      else (0, map_option (stacksize_update (\<lambda>_. sz)) a))"

definition pthread_attr_getstacksize :: "pthread_attr option \<Rightarrow> bool \<Rightarrow> int \<times> u64 option" where
  "pthread_attr_getstacksize a out =
     (if \<not> attr_ok a \<or> \<not> out then (EINVAL, None) else (0, map_option stacksize a))"

definition pthread_attr_setstack :: "pthread_attr option \<Rightarrow> u64 \<Rightarrow> u64 \<Rightarrow> int \<times> pthread_attr option" where
  "pthread_attr_setstack a addr sz =
     (if \<not> attr_ok a then (EINVAL, a)
      else if sz < 4096 then (EINVAL, a)
      else (0, map_option (\<lambda>r. r\<lparr>stackaddr := addr, stacksize := sz\<rparr>) a))"

definition pthread_attr_getstack :: "pthread_attr option \<Rightarrow> bool \<Rightarrow> bool \<Rightarrow> int \<times> (u64 \<times> u64) option" where
  "pthread_attr_getstack a out_addr out_size =
     (if \<not> attr_ok a \<or> \<not> out_addr \<or> \<not> out_size then (EINVAL, None)
      else (0, map_option (\<lambda>r. (stackaddr r, stacksize r)) a))"

definition pthread_attr_setdetachstate :: "pthread_attr option \<Rightarrow> int \<Rightarrow> int \<times> pthread_attr option" where
  "pthread_attr_setdetachstate a d =
     (if \<not> attr_ok a then (EINVAL, a)
      else if d \<noteq> 0 \<and> d \<noteq> 1 then (EINVAL, a)
      else (0, map_option (detachstate_update (\<lambda>_. d)) a))"

definition pthread_attr_getdetachstate :: "pthread_attr option \<Rightarrow> bool \<Rightarrow> int \<times> int option" where
  "pthread_attr_getdetachstate a out =
     (if \<not> attr_ok a \<or> \<not> out then (EINVAL, None) else (0, map_option detachstate a))"

definition pthread_attr_setschedpolicy :: "pthread_attr option \<Rightarrow> int \<Rightarrow> int \<times> pthread_attr option" where
  "pthread_attr_setschedpolicy a policy =
     (if \<not> attr_ok a then (EINVAL, a) else (0, map_option (schedpolicy_update (\<lambda>_. policy)) a))"

definition pthread_attr_getschedpolicy :: "pthread_attr option \<Rightarrow> bool \<Rightarrow> int \<times> int option" where
  "pthread_attr_getschedpolicy a out =
     (if \<not> attr_ok a \<or> \<not> out then (EINVAL, None) else (0, map_option schedpolicy a))"

definition pthread_attr_setschedparam :: "pthread_attr option \<Rightarrow> int option \<Rightarrow> int \<times> pthread_attr option" where
  "pthread_attr_setschedparam a param =
     (case param of
        None \<Rightarrow> (EINVAL, a)
      | Some p \<Rightarrow>
          if \<not> attr_ok a then (EINVAL, a)
          else if p < 0 \<or> int COUNT \<le> p then (EINVAL, a)
          else (0, map_option (schedparam_update (\<lambda>_. p)) a))"

definition pthread_attr_getschedparam :: "pthread_attr option \<Rightarrow> bool \<Rightarrow> int \<times> int option" where
  "pthread_attr_getschedparam a out =
     (if \<not> attr_ok a \<or> \<not> out then (EINVAL, None) else (0, map_option schedparam a))"

section \<open>Threads\<close>

text \<open>The remainder of C, with the sign of the dividend.\<close>

definition c_rem :: "int \<Rightarrow> int \<Rightarrow> int" where
  "c_rem a b = sgn a * (\<bar>a\<bar> mod \<bar>b\<bar>)"

definition create_stack :: "pthread_attr option \<Rightarrow> u64 \<Rightarrow> sched \<Rightarrow> (u64 \<times> sched) option" where
  "create_stack attr sz s =
     (case attr of
        Some a \<Rightarrow> if is_initialized a \<noteq> 0 \<and> stackaddr a \<noteq> 0 then Some (stackaddr a, s) else heap_malloc sz s
      | None \<Rightarrow> heap_malloc sz s)"

definition stack_size_of :: "pthread_attr option \<Rightarrow> u64" where
  "stack_size_of attr =
     (case attr of Some a \<Rightarrow> if is_initialized a \<noteq> 0 then stacksize a else 4096 * 4 | None \<Rightarrow> 4096 * 4)"

definition create_priority :: "pthread_attr option \<Rightarrow> u64 \<Rightarrow> sched \<Rightarrow> u32" where
  "create_priority attr arg s =
     (if arg = idle_flag_at s then IDLE
      else case attr of
        Some a \<Rightarrow> if is_initialized a \<noteq> 0 then word_of_int (c_rem (schedparam a) 5) else NORMAL
      | None \<Rightarrow> NORMAL)"

text \<open>
  \<open>pthread_create\<close>: the error number, the value stored through \<open>thread\<close> when it succeeds, and the state.
  The stack is chosen twice, as in the code.
\<close>

definition pthread_create ::
  "pthread_attr option \<Rightarrow> u64 \<Rightarrow> u64 \<Rightarrow> sched \<Rightarrow> (int \<times> u64 \<times> sched) option"
where
  "pthread_create attr start_routine arg s = do {
     (t, s) \<leftarrow> heap_malloc TASK_SIZE s;
     if t = 0 then Some (EAGAIN, 0, s)
     else do {
       let s = clear_task t s;
       (stack1, s) \<leftarrow> create_stack attr (stack_size_of attr) s;
       s \<leftarrow> upd_task t (t_stack_page_update (\<lambda>_. stack1)) s;
       if stack1 = 0 then do { s \<leftarrow> free_task t s; Some (EAGAIN, 0, s) }
       else do {
         s \<leftarrow> upd_task t (\<lambda>k. k\<lparr>t_id := tid_counter s, t_state := TASK_READY,
               t_priority := create_priority attr arg s, t_next := 0, t_prev := 0\<rparr>) s;
         let s = s\<lparr>tid_counter := tid_counter s + 1\<rparr>;
         let stack_size = stack_size_of attr;
         (stack2, s) \<leftarrow> create_stack attr stack_size s;
         s \<leftarrow> upd_task t (t_stack_page_update (\<lambda>_. stack2)) s;
         if stack2 = 0 then do { s \<leftarrow> free_task t s; Some (EAGAIN, 0, s) }
         else do {
           s \<leftarrow> upd_task t (t_context_update (\<lambda>x. x\<lparr>sp := (stack2 + stack_size) AND NOT 0xF,
                 lr := ret_from_fork_at s, x20 := arg, x19 := start_routine\<rparr>)) s;
           k \<leftarrow> tasks s t;
           s \<leftarrow> (if t_priority k \<noteq> IDLE then do {
                   s \<leftarrow> lock_sched s;
                   s \<leftarrow> sched_enqueue_task t s;
                   Some (unlock_sched s)
                 } else Some s);
           Some (0, t, s)
         }
       }
     }
   }"

text \<open>The loop of \<open>pthread_exit\<close> over the joining tasks.\<close>

partial_function (option) wake_loop :: "u64 \<Rightarrow> sched \<Rightarrow> sched option" where
  "wake_loop waiting s =
     (if waiting \<noteq> 0 then
        Option.bind (upd_task waiting (t_state_update (\<lambda>_. TASK_READY)) s)
          (\<lambda>s. Option.bind (sched_enqueue_task waiting s) (\<lambda>s. wake_loop waiting s))
      else Some s)"

text \<open>\<open>pthread_exit\<close> up to its call of \<open>sched_yield\<close>, and with it.\<close>

definition exit_task :: "nat \<Rightarrow> u64 \<Rightarrow> sched \<Rightarrow> sched option" where
  "exit_task c value_ptr s = do {
     s \<leftarrow> lock_sched s;
     t \<leftarrow> current_task c s;
     s \<leftarrow> upd_task t (\<lambda>k. k\<lparr>t_ret_value := value_ptr, t_state := TASK_EXITED\<rparr>) s;
     i \<leftarrow> cpu_index c s;
     s \<leftarrow> upd_core i (task_to_free_update (\<lambda>_. t)) s;
     k \<leftarrow> tasks s t;
     s \<leftarrow> wake_loop (t_join_wait_queue k) s;
     s \<leftarrow> upd_task t (t_join_wait_queue_update (\<lambda>_. 0)) s;
     s \<leftarrow> sched_dequeue_task t s;
     Some (unlock_sched s)
   }"

definition pthread_exit :: "nat \<Rightarrow> u64 \<Rightarrow> sched \<Rightarrow> sched option" where
  "pthread_exit c value_ptr s = Option.bind (exit_task c value_ptr s) (sched_yield c)"

text \<open>
  \<open>pthread_join\<close> up to the point where it has an answer or has registered the caller as a waiter, and one
  round of its waiting loop.
\<close>

datatype join_result = Join_Error int | Join_Wait | Join_Done u64

definition pthread_join :: "nat \<Rightarrow> u64 \<Rightarrow> sched \<Rightarrow> (join_result \<times> sched) option" where
  "pthread_join c thread s =
     (if thread = 0 then Some (Join_Error EINVAL, s)
      else do {
        s \<leftarrow> lock_sched s;
        k \<leftarrow> tasks s thread;
        if t_state k \<noteq> TASK_EXITED then do {
          cur \<leftarrow> current_task c s;
          s \<leftarrow> upd_task cur (t_state_update (\<lambda>_. TASK_BLOCKED)) s;
          k \<leftarrow> tasks s thread;
          s \<leftarrow> upd_task cur (t_next_update (\<lambda>_. t_join_wait_queue k)) s;
          s \<leftarrow> upd_task thread (t_join_wait_queue_update (\<lambda>_. cur)) s;
          Some (Join_Wait, unlock_sched s)
        } else Some (Join_Done (t_ret_value k), unlock_sched s)
      })"

definition join_round :: "nat \<Rightarrow> u64 \<Rightarrow> sched \<Rightarrow> (join_result \<times> sched) option" where
  "join_round c thread s = do {
     k \<leftarrow> tasks s thread;
     if t_state k \<noteq> TASK_EXITED then do { s \<leftarrow> sched_yield c s; Some (Join_Wait, s) }
     else Some (Join_Done (t_ret_value k), s)
   }"

section \<open>Initialisation\<close>

text \<open>
  When the creation of the idle thread fails, the code reads its uninitialised handle, which is
  undefined.
\<close>

text \<open>The task for the code that is already running: cleared memory with the fields that the code sets.\<close>

definition adopt_running :: "nat \<Rightarrow> (task \<Rightarrow> task) \<Rightarrow> sched \<Rightarrow> sched option" where
  "adopt_running c f s = do {
     (t, s) \<leftarrow> heap_malloc TASK_SIZE s;
     guard (t \<noteq> 0);
     s \<leftarrow> upd_task t f (clear_task t s);
     upd_core c (core_task_update (\<lambda>_. t)) s
   }"

definition sched_init :: "u64 \<Rightarrow> sched \<Rightarrow> sched option" where
  "sched_init ttbr1 s = do {
     s \<leftarrow> upd_core 0 (\<lambda>k. k\<lparr>cpu_id := 0, core_task := 0\<rparr>) s;
     s \<leftarrow> upd_core 1 (\<lambda>k. k\<lparr>cpu_id := 1, core_task := 0\<rparr>) s;
     let s = s\<lparr>runqueues := replicate COUNT 0, runqueues_tail := replicate COUNT 0, kernel_ttbr1 := ttbr1\<rparr>;
     (r, idle_thread, s) \<leftarrow> pthread_create None (idle_at s) (idle_flag_at s) s;
     guard (r = 0);
     s \<leftarrow> upd_core 0 (core_task_update (\<lambda>_. idle_thread)) s;
     s \<leftarrow> adopt_running 0 (\<lambda>k. k\<lparr>t_id := tid_counter s, t_state := TASK_RUNNING, t_priority := NORMAL\<rparr>) s;
     Some (s\<lparr>tid_counter := tid_counter s + 1\<rparr>)
   }"

definition sched_init_secondary :: "int \<Rightarrow> sched \<Rightarrow> sched option" where
  "sched_init_secondary cpu s =
     (if cpu < 0 \<or> 2 \<le> cpu then Some s
      else do {
        let c = nat cpu;
        s \<leftarrow> upd_core c (cpu_id_update (\<lambda>_. word_of_int cpu)) s;
        (r, idle_core2, s) \<leftarrow> pthread_create None (idle_at s) (idle_flag_at s) s;
        guard (r = 0);
        s \<leftarrow> upd_task idle_core2 (t_priority_update (\<lambda>_. IDLE)) s;
        s \<leftarrow> upd_core c (core_task_update (\<lambda>_. idle_core2)) s;
        adopt_running c (\<lambda>k. k\<lparr>t_priority := IDLE, t_state := TASK_RUNNING\<rparr>) s
      })"

section \<open>The highest active priority\<close>

lemma highest_bit_exists:
  fixes x :: u32
  assumes "x \<noteq> 0"
  obtains j where "bit x j" "j < 32" "\<And>i. j < i \<Longrightarrow> \<not> bit x i"
proof -
  let ?B = "{i. bit x i}"
  have "?B \<subseteq> {..<32}" using bit_imp_le_length [of x] by auto
  then have fin: "finite ?B" by (rule finite_subset) simp
  have ne: "?B \<noteq> {}" using assms by (auto simp: bit_eq_iff [of x 0])
  have top: "bit x (Max ?B)" using Max_in [OF fin ne] by simp
  have none: "\<not> bit x i" if "Max ?B < i" for i
  proof
    assume "bit x i"
    then have "i \<le> Max ?B" by (intro Max_ge fin) simp
    with that show False by simp
  qed
  have "Max ?B < 32" using bit_imp_le_length [OF top] by simp
  from that [OF top this none] show thesis .
qed

lemma clz_highest:
  assumes "bit x j" "j < 32" "\<And>i. j < i \<Longrightarrow> \<not> bit x i"
  shows "31 - clz x = j"
proof -
  have "[0..<32] = [0..<j] @ j # [Suc j..<32]"
    using assms(2) upt_add_eq_append [of 0 j "32 - j"] upt_conv_Cons [of j 32] by simp
  then have "rev [0..<32] = rev [Suc j..<32] @ j # rev [0..<j]" by simp
  moreover have "takeWhile (\<lambda>i. \<not> bit x i) (rev [Suc j..<32] @ j # rev [0..<j]) = rev [Suc j..<32]"
    using assms(1,3) by (subst takeWhile_append2) auto
  ultimately have "clz x = 31 - j" by (simp add: clz_def)
  then show ?thesis using assms(2) by simp
qed

lemma highest_prio_queue:
  assumes rep: "rq_rep s q" and ne: "active_priorities s \<noteq> 0"
  shows "highest_prio (active_priorities s) < COUNT" "q (highest_prio (active_priorities s)) \<noteq> []"
    "highest_prio (active_priorities s) < r \<Longrightarrow> q r = []"
proof -
  from highest_bit_exists [OF ne] obtain j where
    j: "bit (active_priorities s) j" "j < 32" "\<And>i. j < i \<Longrightarrow> \<not> bit (active_priorities s) i" by blast
  have c: "j < COUNT" using rq_repD(7,8) [OF rep, of j] j(1) by (cases "j < COUNT") auto
  have "highest_prio (active_priorities s) = j"
    using clz_highest [OF j] c by (simp add: highest_prio_def)
  then show "highest_prio (active_priorities s) < COUNT" "q (highest_prio (active_priorities s)) \<noteq> []"
    "highest_prio (active_priorities s) < r \<Longrightarrow> q r = []"
    using c j rq_repD(8) [OF rep] by auto
qed

section \<open>One scheduling decision\<close>

lemma rq_rep_cong:
  assumes "rq_rep s q" "runqueues s' = runqueues s" "runqueues_tail s' = runqueues_tail s"
    "active_priorities s' = active_priorities s"
    "\<And>x. task_next s' x = task_next s x \<and> task_prev s' x = task_prev s x \<and> is_task s' x = is_task s x \<and>
      prio_of s' x = prio_of s x"
  shows "rq_rep s' q"
proof -
  have "tq.linked s' 0 (q p)" if "p < COUNT" for p
    by (rule tq.linked_cong [OF rq_repD(3) [OF assms(1) that]]) (use assms(5) in blast)
  moreover have "prio_of s' x = prio_of s x" for x using assms(5) by blast
  ultimately show ?thesis using assms(1) unfolding rq_rep_def assms(2-4) by simp
qed

text \<open>Updates of other fields of a task keep the queues.\<close>

lemma rq_rep_upd_task:
  assumes "rq_rep s q" "upd_task t f s = Some s'"
    "\<And>k. t_next (f k) = t_next k \<and> t_prev (f k) = t_prev k \<and> t_priority (f k) = t_priority k"
  shows "rq_rep s' q"
proof (rule rq_rep_cong [OF assms(1)])
  from assms(2) obtain k where k: "tasks s t = Some k" "s' = s\<lparr>tasks := (tasks s)(t \<mapsto> f k)\<rparr>"
    by (auto simp: upd_task_def split: bind_splits)
  then show "runqueues s' = runqueues s" "runqueues_tail s' = runqueues_tail s"
    "active_priorities s' = active_priorities s" by simp_all
  show "task_next s' x = task_next s x \<and> task_prev s' x = task_prev s x \<and> is_task s' x = is_task s x \<and>
      prio_of s' x = prio_of s x" for x
    using k assms(3) by (simp add: task_next_def task_prev_def is_task_def prio_of_def)
qed

lemma rq_frame_task:
  assumes "rq_frame s s'" "tasks s x = Some k"
  obtains k' where "tasks s' x = Some k'" "t_state k' = t_state k" "t_priority k' = t_priority k"
    "t_context k' = t_context k" "t_stack_page k' = t_stack_page k" "t_join_wait_queue k' = t_join_wait_queue k"
    "t_ret_value k' = t_ret_value k" "t_id k' = t_id k"
proof -
  have "task_core s' x = task_core s x" using assms(1) by (simp add: rq_frame_def)
  then obtain k' where k': "tasks s' x = Some k'" "k'\<lparr>t_next := 0, t_prev := 0\<rparr> = k\<lparr>t_next := 0, t_prev := 0\<rparr>"
    using assms(2) by (auto simp: task_core_def)
  from that [OF k'(1)] k'(2) show thesis by (cases k; cases k') simp
qed

lemma rq_frame_fields:
  assumes "rq_frame s s'"
  shows "cores s' = cores s" "regs s' = regs s" "sched_lock s' = sched_lock s" "kheap s' = kheap s"
    "tid_counter s' = tid_counter s" "idle_flag_at s' = idle_flag_at s" "ret_from_fork_at s' = ret_from_fork_at s"
proof -
  have eq: "s' = s\<lparr>tasks := tasks s', runqueues := runqueues s', runqueues_tail := runqueues_tail s',
      active_priorities := active_priorities s'\<rparr>" using assms by (simp add: rq_frame_def)
  show "cores s' = cores s" "regs s' = regs s" "sched_lock s' = sched_lock s" "kheap s' = kheap s"
    "tid_counter s' = tid_counter s" "idle_flag_at s' = idle_flag_at s" "ret_from_fork_at s' = ret_from_fork_at s"
    by (subst eq, simp)+
qed

text \<open>
  The decision as a function on the queues: a task that can go on is put at the back of its queue, and the
  head of the highest queue that has tasks is taken; when there is none, the caller goes on.
\<close>

definition top_queue :: "(nat \<Rightarrow> u64 list) \<Rightarrow> nat" where
  "top_queue q = last (filter (\<lambda>p. q p \<noteq> []) [0..<COUNT])"

definition requeued :: "nat \<Rightarrow> u64 \<Rightarrow> (nat \<Rightarrow> u64 list) \<Rightarrow> nat \<Rightarrow> u64 list" where
  "requeued p t q = (if p = 0 then q else q(p := q p @ [t]))"

definition pick_next :: "u64 \<Rightarrow> (nat \<Rightarrow> u64 list) \<Rightarrow> u64 \<times> (nat \<Rightarrow> u64 list)" where
  "pick_next t q =
     (if \<forall>p < COUNT. q p = [] then (t, q)
      else (hd (q (top_queue q)), q(top_queue q := tl (q (top_queue q)))))"

lemma top_queue_eq:
  assumes "h < COUNT" "q h \<noteq> []" "\<And>r. h < r \<Longrightarrow> q r = []"
  shows "top_queue q = h"
proof -
  have "[0..<COUNT] = [0..<h] @ h # [Suc h..<COUNT]"
    using assms(1) upt_add_eq_append [of 0 h "COUNT - h"] upt_conv_Cons [of h COUNT] by simp
  moreover have "filter (\<lambda>p. q p \<noteq> []) [Suc h..<COUNT] = []" using assms(3) by (simp add: filter_empty_conv)
  ultimately show ?thesis using assms(2) by (simp add: top_queue_def)
qed

lemma sorted_le_last: "sorted xs \<Longrightarrow> x \<in> set xs \<Longrightarrow> x \<le> last xs"
  by (cases xs rule: rev_cases) (auto simp: sorted_append)

lemma top_queue_props:
  assumes "p < COUNT" "q p \<noteq> []"
  shows "top_queue q < COUNT" "q (top_queue q) \<noteq> []" "r < COUNT \<Longrightarrow> top_queue q < r \<Longrightarrow> q r = []"
proof -
  let ?ps = "filter (\<lambda>p. q p \<noteq> []) [0..<COUNT]"
  have ne: "?ps \<noteq> []" using assms by (auto simp: filter_empty_conv)
  have "last ?ps \<in> set ?ps" using ne by (rule last_in_set)
  then show "top_queue q < COUNT" "q (top_queue q) \<noteq> []" by (auto simp: top_queue_def)
  have "sorted ?ps" by (simp add: sorted_wrt_filter)
  show "q r = []" if "r < COUNT" "top_queue q < r"
  proof (rule ccontr)
    assume "q r \<noteq> []"
    then have "r \<in> set ?ps" using that(1) by simp
    then have "r \<le> last ?ps" by (rule sorted_le_last [OF \<open>sorted ?ps\<close>])
    with that(2) show False by (simp add: top_queue_def)
  qed
qed

lemma active_queue:
  assumes rep: "rq_rep s q"
  shows "active_priorities s = 0 \<longleftrightarrow> (\<forall>p < COUNT. q p = [])"
    and "active_priorities s \<noteq> 0 \<Longrightarrow>
      arr_get (runqueues s) (highest_prio (active_priorities s)) = Some (hd (q (top_queue q)))"
proof -
  have bits: "bit (active_priorities s) p \<longleftrightarrow> q p \<noteq> []" for p by (rule rq_repD(8) [OF rep])
  have high: "q p = []" if "\<not> p < COUNT" for p using rq_repD(7) [OF rep, of p] that by simp
  show "active_priorities s = 0 \<longleftrightarrow> (\<forall>p < COUNT. q p = [])"
  proof
    assume "active_priorities s = 0"
    then show "\<forall>p < COUNT. q p = []" using bits by simp
  next
    assume "\<forall>p < COUNT. q p = []"
    then have "\<not> bit (active_priorities s) p" for p using bits high by blast
    then show "active_priorities s = 0" by (intro bit_eqI) simp
  qed
  show "arr_get (runqueues s) (highest_prio (active_priorities s)) = Some (hd (q (top_queue q)))"
    if "active_priorities s \<noteq> 0"
  proof -
    let ?h = "highest_prio (active_priorities s)"
    note h = highest_prio_queue [OF rep that]
    have "top_queue q = ?h" using h by (intro top_queue_eq) blast+
    then show ?thesis
      using h(1,2) rq_repD(1,4) [OF rep] by (cases "q ?h") (simp_all add: arr_get_def)
  qed
qed

section \<open>The invariant of the scheduler\<close>

definition state_of :: "sched \<Rightarrow> u64 \<Rightarrow> task_state option" where
  "state_of s x = map_option t_state (tasks s x)"

definition context_of :: "sched \<Rightarrow> u64 \<Rightarrow> cpu_context option" where
  "context_of s x = map_option t_context (tasks s x)"

definition running_ok :: "sched \<Rightarrow> (nat \<Rightarrow> u64 list) \<Rightarrow> u64 \<Rightarrow> bool" where
  "running_ok s q t \<longleftrightarrow> state_of s t = Some TASK_RUNNING \<and> prio_of s t < COUNT \<and> (\<forall>p. t \<notin> set (q p))"

text \<open>
  Between calls: the lock is free, the pointers represent the queues, idle tasks are in no queue, queued
  tasks are ready, and every core that has a task runs one of its own that is in no queue.
\<close>

definition sched_inv :: "sched \<Rightarrow> (nat \<Rightarrow> u64 list) \<Rightarrow> bool" where
  "sched_inv s q \<longleftrightarrow>
     rq_rep s q \<and> sched_lock s = 0 \<and> q 0 = [] \<and> (\<forall>p. \<forall>x \<in> set (q p). state_of s x = Some TASK_READY) \<and>
     length (cores s) = 2 \<and> (\<forall>c < 2. cpu_id (cores s ! c) = of_nat c) \<and>
     (\<forall>c < 2. core_task (cores s ! c) \<noteq> 0 \<longrightarrow> running_ok s q (core_task (cores s ! c))) \<and>
     (core_task (cores s ! 0) = core_task (cores s ! 1) \<longrightarrow> core_task (cores s ! 0) = 0)"

lemma sched_invD:
  assumes "sched_inv s q"
  shows "rq_rep s q" "sched_lock s = 0" "q 0 = []" "x \<in> set (q p) \<Longrightarrow> state_of s x = Some TASK_READY"
    "length (cores s) = 2" "c < 2 \<Longrightarrow> cpu_id (cores s ! c) = of_nat c"
    "c < 2 \<Longrightarrow> core_task (cores s ! c) \<noteq> 0 \<Longrightarrow> running_ok s q (core_task (cores s ! c))"
    "c < 2 \<Longrightarrow> d < 2 \<Longrightarrow> c \<noteq> d \<Longrightarrow> core_task (cores s ! c) \<noteq> 0 \<Longrightarrow> core_task (cores s ! d) \<noteq> core_task (cores s ! c)"
  using assms unfolding sched_inv_def by (auto simp: less_2_cases_iff)

text \<open>What the steps of a yield have in common: only states and links of tasks change.\<close>

definition yield_frame :: "sched \<Rightarrow> sched \<Rightarrow> bool" where
  "yield_frame s s' \<longleftrightarrow> cores s' = cores s \<and> regs s' = regs s \<and> kheap s' = kheap s \<and> tid_counter s' = tid_counter s \<and>
     context_of s' = context_of s \<and> prio_of s' = prio_of s \<and> is_task s' = is_task s"

lemma yield_frame_trans: "yield_frame s s' \<Longrightarrow> yield_frame s' s'' \<Longrightarrow> yield_frame s s''"
  by (simp add: yield_frame_def)

lemma rq_frame_states:
  assumes "rq_frame s s'"
  shows "state_of s' = state_of s" "yield_frame s s'"
proof -
  have "state_of s' x = state_of s x \<and> context_of s' x = context_of s x \<and> prio_of s' x = prio_of s x \<and>
      is_task s' x = is_task s x" for x
  proof (cases "tasks s x")
    case None
    then have "task_core s' x = None" using assms by (simp add: rq_frame_def task_core_def)
    with None show ?thesis by (simp add: state_of_def context_of_def prio_of_def is_task_def task_core_def)
  next
    case (Some k)
    from rq_frame_task [OF assms Some] obtain k' where "tasks s' x = Some k'" "t_state k' = t_state k"
      "t_priority k' = t_priority k" "t_context k' = t_context k" .
    with Some show ?thesis by (simp add: state_of_def context_of_def prio_of_def is_task_def)
  qed
  then show "state_of s' = state_of s" "yield_frame s s'"
    using rq_frame_fields [OF assms] by (auto simp: yield_frame_def)
qed

lemma upd_state:
  assumes "is_task s x"
  shows "\<exists>s'. upd_task x (t_state_update (\<lambda>_. v)) s = Some s' \<and> yield_frame s s' \<and> sched_lock s' = sched_lock s \<and>
    state_of s' = (state_of s)(x := Some v) \<and> (rq_rep s q \<longrightarrow> rq_rep s' q)"
proof -
  let ?s = "set_task x (t_state_update (\<lambda>_. v)) s"
  have "yield_frame s ?s" "state_of ?s = (state_of s)(x := Some v)"
    using assms by (auto simp: yield_frame_def set_task_def state_of_def context_of_def prio_of_def is_task_def fun_eq_iff)
  moreover have "rq_rep s q \<longrightarrow> rq_rep ?s q"
    using rq_rep_upd_task [OF _ upd_task_set [OF assms]] by simp
  ultimately show ?thesis using upd_task_set [OF assms] by simp
qed

text \<open>The parts of \<open>sched_yield\<close>, one after the other.\<close>

lemma sched_inv_core:
  assumes inv: "sched_inv s q" and c: "c < 2"
  shows "current_task c s = Some (core_task (cores s ! c))" "cpu_index c s = Some c" "arr_get (cores s) c = Some (cores s ! c)"
proof -
  note d = sched_invD [OF inv]
  show get: "arr_get (cores s) c = Some (cores s ! c)" using d(5) c by (simp add: arr_get_def)
  then show "current_task c s = Some (core_task (cores s ! c))" by (simp add: current_task_def)
  have "sint (of_nat c :: u32) = int c" using c by (auto simp: less_2_cases_iff)
  then show "cpu_index c s = Some c" using get d(6) [OF c] by (simp add: cpu_index_def sched_getcpu_def)
qed

lemma lock_sched_free: "sched_lock s = 0 \<Longrightarrow> lock_sched s = Some (s\<lparr>sched_lock := 1\<rparr>)"
  by (simp add: lock_sched_def pthread_spin_lock_def cas_def)

lemma lock_fields [simp]:
  "state_of (s\<lparr>sched_lock := l\<rparr>) = state_of s" "context_of (s\<lparr>sched_lock := l\<rparr>) = context_of s"
  "prio_of (s\<lparr>sched_lock := l\<rparr>) = prio_of s" "is_task (s\<lparr>sched_lock := l\<rparr>) = is_task s"
  "yield_frame s (s\<lparr>sched_lock := l\<rparr>)"
  by (auto simp: state_of_def context_of_def prio_of_def is_task_def yield_frame_def fun_eq_iff)

lemma rq_rep_lock [simp]: "rq_rep (s\<lparr>sched_lock := l\<rparr>) q = rq_rep s q"
  by (rule iffI; erule rq_rep_cong) (simp_all add: task_next_def task_prev_def is_task_def prio_of_def)

lemma yield_put_back_ok:
  assumes rep: "rq_rep s q" and t: "running_ok s q t" "t \<noteq> 0"
  shows "\<exists>s'. yield_put_back t s = Some s' \<and> rq_rep s' (requeued (prio_of s t) t q) \<and> yield_frame s s' \<and>
     sched_lock s' = sched_lock s \<and>
     state_of s' = (if prio_of s t = 0 then state_of s else (state_of s)(t := Some TASK_READY))"
proof (cases "prio_of s t = 0")
  case True
  obtain k where "tasks s t = Some k" using t(1) by (auto simp: running_ok_def state_of_def)
  with True show ?thesis
    using rep by (simp add: yield_put_back_def requeued_def prio_of_def IDLE_def yield_frame_def unat_eq_0)
next
  case False
  obtain k where k: "tasks s t = Some k" using t(1) by (auto simp: running_ok_def state_of_def)
  have p: "t_priority k \<noteq> IDLE" "t_state k = TASK_RUNNING" "is_task s t"
    using k t(1) False by (auto simp: prio_of_def IDLE_def running_ok_def state_of_def is_task_def)
  from upd_state [OF p(3), of TASK_READY q] rep obtain s1 where
    s1: "upd_task t (t_state_update (\<lambda>_. TASK_READY)) s = Some s1" "yield_frame s s1" "sched_lock s1 = sched_lock s"
      "state_of s1 = (state_of s)(t := Some TASK_READY)" "rq_rep s1 q" by blast
  have pr: "prio_of s1 t = prio_of s t" "is_task s1 t" using s1(2) p(3) by (simp_all add: yield_frame_def)
  have "queueable s1 t" "t \<notin> set (q (prio_of s1 t))" using pr t by (simp_all add: queueable_def running_ok_def)
  from rq.enq_back [OF s1(5) this] obtain s2 where
    s2: "sched_enqueue_task t s1 = Some s2" "rq_frame s1 s2" "rq_rep s2 (q(prio_of s t := q (prio_of s t) @ [t]))"
    unfolding pr by blast
  then show ?thesis
    using False p k t(2) s1 rq_frame_states [OF s2(2)] rq_frame_fields(3) [OF s2(2)] yield_frame_trans
    by (auto simp: requeued_def yield_put_back_def)
qed

lemma yield_take_ok:
  assumes rep: "rq_rep s q" and idle: "q 0 = []" and n: "n \<in> set (q p)"
  shows "\<exists>s'. yield_take n s = Some s' \<and> rq_rep s' (q(p := remove1 n (q p))) \<and>
     yield_frame s s' \<and> sched_lock s' = sched_lock s \<and> state_of s' = (state_of s)(n := Some TASK_RUNNING)"
proof -
  have m: "queueable s n" "prio_of s n = p" using rq.members(1) [OF rep n] by auto
  have "p \<noteq> 0" using idle n by (cases "p = 0") auto
  moreover obtain k where k: "tasks s n = Some k" using m(1) by (auto simp: queueable_def is_task_def)
  ultimately have ni: "t_priority k \<noteq> IDLE" "n \<noteq> 0" using m by (auto simp: prio_of_def IDLE_def queueable_def)
  from rq.deq_remove [OF rep n] obtain s1 where
    s1: "sched_dequeue_task n s = Some s1" "rq_frame s s1" "rq_rep s1 (q(p := remove1 n (q p)))" by blast
  have "is_task s1 n" using rq.keeps_same(1) [OF s1(2), of n] m(1) by (simp add: queueable_def)
  from upd_state [OF this, of TASK_RUNNING "q(p := remove1 n (q p))"] s1(3) obtain s2 where
    s2: "upd_task n (t_state_update (\<lambda>_. TASK_RUNNING)) s1 = Some s2" "yield_frame s1 s2"
      "sched_lock s2 = sched_lock s1" "state_of s2 = (state_of s1)(n := Some TASK_RUNNING)"
      "rq_rep s2 (q(p := remove1 n (q p)))" by blast
  then show ?thesis
    using ni k s1 rq_frame_states [OF s1(2)] rq_frame_fields(3) [OF s1(2)] yield_frame_trans
    by (auto simp: yield_take_def)
qed

lemma yield_switch_ok:
  assumes c: "c < length (cores s)" and p: "is_task s t" and n: "is_task s n" and ne: "n \<noteq> t"
  shows "\<exists>s'. yield_switch c t n s = Some s' \<and>
     cores s' = (cores s)[c := (cores s ! c)\<lparr>core_task := n\<rparr>] \<and> context_of s' = (context_of s)(t := Some (regs s c)) \<and>
     regs s' = (regs s)(c := the (context_of s n)) \<and> state_of s' = state_of s \<and> prio_of s' = prio_of s \<and>
     is_task s' = is_task s \<and> sched_lock s' = sched_lock s \<and> kheap s' = kheap s \<and> (rq_rep s q \<longrightarrow> rq_rep s' q)"
proof -
  obtain kt kn where k: "tasks s t = Some kt" "tasks s n = Some kn" using p n by (auto simp: is_task_def)
  let ?s = "s\<lparr>tasks := (tasks s)(t \<mapsto> kt\<lparr>t_context := regs s c\<rparr>), cores := (cores s)[c := (cores s ! c)\<lparr>core_task := n\<rparr>],
     regs := (regs s)(c := t_context kn)\<rparr>"
  have "yield_switch c t n s = Some ?s"
    using c k ne by (simp add: yield_switch_def upd_core_def cpu_switch_to_def upd_task_def array_facts)
  moreover have "context_of ?s = (context_of s)(t := Some (regs s c))" "state_of ?s = state_of s" "prio_of ?s = prio_of s"
    "is_task ?s = is_task s" "the (context_of s n) = t_context kn"
    using k by (auto simp: context_of_def state_of_def prio_of_def is_task_def fun_eq_iff)
  moreover have "rq_rep ?s q" if "rq_rep s q"
    by (rule rq_rep_cong [OF that]) (use k in \<open>simp_all add: task_next_def task_prev_def is_task_def prio_of_def\<close>)
  ultimately show ?thesis by (intro exI [of _ ?s]) simp
qed

lemma yield_choose_ok:
  assumes rep: "rq_rep s q" and c: "cpu_index c s = Some c" "c < length (cores s)"
  shows "yield_choose c s = Some (fst (pick_next (core_task (cores s ! c)) q))"
proof (cases "active_priorities s = 0")
  case True
  then show ?thesis
    using active_queue(1) [OF rep] c by (simp add: yield_choose_def pick_next_def arr_get_in)
next
  case False
  then have ne: "\<not> (\<forall>p < COUNT. q p = [])" using active_queue(1) [OF rep] by simp
  then obtain p where "p < COUNT" "q p \<noteq> []" by blast
  then have "top_queue q < COUNT" "q (top_queue q) \<noteq> []" by (rule top_queue_props)+
  then have "hd (q (top_queue q)) \<noteq> 0" using linked_null(1) [OF rq_repD(3) [OF rep]] by (metis hd_in_set)
  moreover have "fst (pick_next (core_task (cores s ! c)) q) = hd (q (top_queue q))"
    using ne by (simp only: pick_next_def if_False fst_conv)
  moreover have "0 < active_priorities s" using False by (simp add: word_neq_0_conv)
  ultimately show ?thesis using active_queue(2) [OF rep False] by (simp add: yield_choose_def)
qed

text \<open>
  A yield as a whole. \<open>yielded\<close> says what it leaves behind: the queues after the decision, the chosen task
  running on the core with its registers, and the registers of the caller in its context when it had to
  give way.
\<close>

definition yielded :: "nat \<Rightarrow> u64 \<Rightarrow> u64 \<Rightarrow> (nat \<Rightarrow> u64 list) \<Rightarrow> sched \<Rightarrow> sched \<Rightarrow> bool" where
  "yielded c t n q' s s' \<longleftrightarrow>
     sched_inv s' q' \<and> cores s' = (cores s)[c := (cores s ! c)\<lparr>core_task := n\<rparr>] \<and>
     state_of s' n = Some TASK_RUNNING \<and> (n \<noteq> t \<longrightarrow> state_of s' t = Some (if prio_of s t = 0 then TASK_RUNNING else TASK_READY)) \<and>
     context_of s' = (if n = t then context_of s else (context_of s)(t := Some (regs s c))) \<and>
     regs s' = (if n = t then regs s else (regs s)(c := the (context_of s n))) \<and>
     prio_of s' = prio_of s \<and> is_task s' = is_task s \<and> kheap s' = kheap s"

lemma pick_next_members:
  assumes "pick_next t q = (n, q')" "\<not> (\<forall>p < COUNT. q p = [])"
  shows "n \<in> set (q (top_queue q))" "q' = q(top_queue q := remove1 n (q (top_queue q)))"
    "n = hd (q (top_queue q))"
proof -
  from assms(2) obtain p where "p < COUNT" "q p \<noteq> []" by blast
  then have ne: "q (top_queue q) \<noteq> []" by (rule top_queue_props(2))
  have *: "n = hd (q (top_queue q))" "q' = q(top_queue q := tl (q (top_queue q)))"
    using assms by (auto simp: pick_next_def split: if_splits)
  then show "n = hd (q (top_queue q))" "n \<in> set (q (top_queue q))"
    "q' = q(top_queue q := remove1 n (q (top_queue q)))"
    using ne by (cases "q (top_queue q)"; simp)+
qed

lemma inv_after_yield:
  assumes inv: "sched_inv s q" and c: "c < 2" and t: "t = core_task (cores s ! c)" "t \<noteq> 0"
    and s': "rq_rep s' q'" "sched_lock s' = 0" "cores s' = (cores s)[c := (cores s ! c)\<lparr>core_task := n\<rparr>]"
      "prio_of s' = prio_of s"
    and n: "n \<noteq> 0" "prio_of s n < COUNT" "\<And>p. n \<notin> set (q' p)" "n = t \<or> (\<exists>p. n \<in> set (q p))"
    and q': "\<And>p x. x \<in> set (q' p) \<Longrightarrow> x \<in> set (q p) \<or> x = t" "q' 0 = []"
    and st: "\<And>x. x \<noteq> n \<Longrightarrow> x \<noteq> t \<Longrightarrow> state_of s' x = state_of s x" "state_of s' n = Some TASK_RUNNING"
      "\<And>p. t \<in> set (q' p) \<Longrightarrow> state_of s' t = Some TASK_READY"
  shows "sched_inv s' q'"
proof -
  note d = sched_invD [OF inv]
  have len: "length (cores s') = 2" using s'(3) d(5) by simp
  have other: "cores s' ! i = cores s ! i" "core_task (cores s ! i) \<noteq> t" if "i < 2" "i \<noteq> c" for i
    using s'(3) d(8) [OF c that(1)] that t by auto
  have mine: "cores s' ! c = (cores s ! c)\<lparr>core_task := n\<rparr>" using s'(3) d(5) c by simp
  have run: "running_ok s' q' (core_task (cores s' ! i)) \<and> (i \<noteq> c \<longrightarrow> core_task (cores s ! i) \<noteq> n)"
    if i: "i < 2" "core_task (cores s' ! i) \<noteq> 0" for i
  proof (cases "i = c")
    case True
    then show ?thesis using mine n st s'(4) by (simp add: running_ok_def)
  next
    case False
    note o = other [OF i(1) False]
    let ?u = "core_task (cores s ! i)"
    have r: "running_ok s q ?u" using d(7) [OF i(1)] i(2) o by simp
    have "?u \<noteq> n" using r n(4) o(2) by (auto simp: running_ok_def)
    moreover have "?u \<notin> set (q' p)" for p using q'(1) r o(2) by (auto simp: running_ok_def)
    ultimately show ?thesis using r o st s'(4) by (simp add: running_ok_def)
  qed
  have "core_task (cores s' ! 0) \<noteq> core_task (cores s' ! 1)" if nz: "core_task (cores s' ! 0) \<noteq> 0"
  proof (cases "c = 0")
    case True
    then show ?thesis using run [of 1] other [of 1] mine n(1) by (cases "core_task (cores s ! 1) = 0") auto
  next
    case False
    then have "c = 1" using c by simp
    then show ?thesis using run [of 0] other [of 0] mine nz by auto
  qed
  moreover have "state_of s' x = Some TASK_READY" if "x \<in> set (q' p)" for x p
  proof (cases "x = t")
    case True
    then show ?thesis using st(3) that by blast
  next
    case False
    then have "x \<noteq> n" "x \<in> set (q p)" using n(3) q'(1) [OF that] that by blast+
    then show ?thesis using st(1) [OF _ False] d(4) by simp
  qed
  moreover have "cpu_id (cores s' ! i) = of_nat i" if "i < 2" for i
    using other(1) [OF that] mine d(6) [OF that] by (cases "i = c") auto
  ultimately show ?thesis unfolding sched_inv_def using s'(1,2) q'(2) len run by blast
qed

lemma yield_take_picked:
  assumes rep: "rq_rep s (requeued (prio_of s t) t q)" and q0: "q 0 = []"
    and t: "is_task s t" "t \<noteq> 0" "prio_of s t < COUNT"
    and pick: "pick_next t (requeued (prio_of s t) t q) = (n, q')"
  shows "\<exists>s'. yield_take n s = Some s' \<and> rq_rep s' q' \<and> yield_frame s s' \<and> sched_lock s' = sched_lock s \<and>
    state_of s' = (state_of s)(n := Some TASK_RUNNING)"
proof (cases "\<forall>p < COUNT. requeued (prio_of s t) t q p = []")
  case True
  then have "requeued (prio_of s t) t q (prio_of s t) = []" using t(3) by blast
  then have p: "prio_of s t = 0" by (simp add: requeued_def split: if_splits)
  have n: "n = t" "q' = requeued (prio_of s t) t q" using pick True by (auto simp: pick_next_def)
  from upd_state [OF t(1), of TASK_RUNNING q'] rep n obtain s' where
    s': "upd_task t (t_state_update (\<lambda>_. TASK_RUNNING)) s = Some s'" "yield_frame s s'" "sched_lock s' = sched_lock s"
      "state_of s' = (state_of s)(t := Some TASK_RUNNING)" "rq_rep s' q'" by blast
  have "yield_take n s = Some s'"
    using s'(1) p t n by (auto simp: yield_take_def is_task_def prio_of_def IDLE_def unat_eq_0)
  then show ?thesis using s' n by blast
next
  case False
  have "requeued (prio_of s t) t q 0 = []" using q0 by (simp add: requeued_def)
  from yield_take_ok [OF rep this] pick_next_members [OF pick False] show ?thesis by simp
qed

lemma picked_members:
  assumes rep: "rq_rep s (requeued p t q)" and q0: "q 0 = []" and p: "p < COUNT"
    and notin: "\<And>r. t \<notin> set (q r)" and t: "prio_of s t = p" "t \<noteq> 0"
    and pick: "pick_next t (requeued p t q) = (n, q')"
  shows "n \<noteq> 0" "prio_of s n < COUNT" "n \<notin> set (q' r)" "n = t \<or> (\<exists>r. n \<in> set (q r))"
    "x \<in> set (q' r) \<Longrightarrow> x \<in> set (q r) \<or> x = t" "q' 0 = []" "t \<in> set (q' r) \<Longrightarrow> p \<noteq> 0"
proof -
  have sub: "x \<in> set (q r) \<or> x = t" if "x \<in> set (requeued p t q r)" for x r
    using that by (auto simp: requeued_def split: if_splits)
  have z: "requeued p t q 0 = []" using q0 by (simp add: requeued_def)
  have tp: "p \<noteq> 0" if "t \<in> set (requeued p t q r)" for r
    using that notin by (auto simp: requeued_def split: if_splits)
  have "n \<noteq> 0 \<and> prio_of s n < COUNT \<and> (\<forall>r. n \<notin> set (q' r)) \<and> (n = t \<or> (\<exists>r. n \<in> set (q r))) \<and>
      (\<forall>r. set (q' r) \<subseteq> set (requeued p t q r))"
  proof (cases "\<forall>p' < COUNT. requeued p t q p' = []")
    case True
    then have n: "n = t" "q' = requeued p t q" using pick by (auto simp: pick_next_def)
    have "requeued p t q p = []" using True p by blast
    then have "p = 0" by (simp add: requeued_def split: if_splits)
    then show ?thesis using n t p notin by (simp add: requeued_def)
  next
    case False
    let ?h = "top_queue (requeued p t q)"
    note n = pick_next_members [OF pick False]
    have m: "queueable s n" "prio_of s n = ?h" "distinct (requeued p t q ?h)"
      using rq.members [OF rep] n(1) by auto
    have "n \<notin> set (requeued p t q r)" if "r \<noteq> ?h" for r using rq.members(1) [OF rep, of n r] m(2) that by auto
    moreover have "n \<notin> set (remove1 n (requeued p t q ?h))" using m(3) by simp
    ultimately have "n \<notin> set (q' r)" for r using n(2) by simp
    moreover have "set (q' r) \<subseteq> set (requeued p t q r)" for r
      using n(2) set_remove1_subset [of n "requeued p t q ?h"] by auto
    ultimately show ?thesis using m(1) sub [OF n(1)] by (auto simp: queueable_def)
  qed
  then show "n \<noteq> 0" "prio_of s n < COUNT" "n \<notin> set (q' r)" "n = t \<or> (\<exists>r. n \<in> set (q r))"
    "x \<in> set (q' r) \<Longrightarrow> x \<in> set (q r) \<or> x = t" "t \<in> set (q' r) \<Longrightarrow> p \<noteq> 0" "q' 0 = []"
    using sub tp z by (blast, blast, blast, blast, blast, blast, metis empty_set subset_empty set_empty)
qed

lemma yield_switch_any:
  assumes c: "c < length (cores s)" "core_task (cores s ! c) = t" and p: "is_task s t" and n: "is_task s n"
    and rep: "rq_rep s q"
  shows "\<exists>s'. yield_switch c t n s = Some s' \<and>
     cores s' = (cores s)[c := (cores s ! c)\<lparr>core_task := n\<rparr>] \<and>
     context_of s' = (if n = t then context_of s else (context_of s)(t := Some (regs s c))) \<and>
     regs s' = (if n = t then regs s else (regs s)(c := the (context_of s n))) \<and> state_of s' = state_of s \<and>
     prio_of s' = prio_of s \<and> is_task s' = is_task s \<and> sched_lock s' = sched_lock s \<and> kheap s' = kheap s \<and> rq_rep s' q"
proof (cases "n = t")
  case True
  have "(cores s ! c)\<lparr>core_task := n\<rparr> = cores s ! c" using True c(2) by (cases "cores s ! c") simp
  then show ?thesis using True rep by (simp add: yield_switch_def)
next
  case False
  then show ?thesis using yield_switch_ok [OF c(1) p n False, of q] rep by auto
qed

lemma sched_yield_ok:
  assumes inv: "sched_inv s q" and c: "c < 2" and t: "t = core_task (cores s ! c)" "t \<noteq> 0"
    and reap: "task_to_free (cores s ! c) = 0"
    and pick: "pick_next t (requeued (prio_of s t) t q) = (n, q')"
  shows "\<exists>s'. sched_yield c s = Some s' \<and> yielded c t n q' s s'"
proof -
  note d = sched_invD [OF inv]
  note core = sched_inv_core [OF inv c]
  let ?q = "requeued (prio_of s t) t q"
  let ?l = "s\<lparr>sched_lock := 1\<rparr>"
  have run: "running_ok s q t" using d(7) [OF c] t by simp
  have tt: "is_task s t" "prio_of s t < COUNT" "\<And>r. t \<notin> set (q r)"
    using run by (auto simp: running_ok_def state_of_def is_task_def)
  have "running_ok ?l q t" using run by (simp add: running_ok_def)
  from yield_put_back_ok [OF _ this t(2)] d(1) obtain s1 where
    s1: "yield_put_back t ?l = Some s1" "rq_rep s1 ?q" "yield_frame ?l s1" "sched_lock s1 = 1"
      "state_of s1 = (if prio_of s t = 0 then state_of s else (state_of s)(t := Some TASK_READY))" by auto
  have f1: "prio_of s1 = prio_of s" "is_task s1 = is_task s" "context_of s1 = context_of s" "regs s1 = regs s"
    "kheap s1 = kheap s" "cores s1 = cores s" using s1(3) by (simp_all add: yield_frame_def)
  have cs: "cpu_index c s1 = Some c" "c < length (cores s1)"
    using core(2) f1(6) d(5) c by (simp_all add: cpu_index_def sched_getcpu_def)
  have choose: "yield_choose c s1 = Some n" using yield_choose_ok [OF s1(2) cs] f1(6) t(1) pick by simp
  from yield_take_picked [of s1 t q n q'] s1(2) d(3) tt t(2) pick f1 obtain s2 where
    s2: "yield_take n s1 = Some s2" "rq_rep s2 q'" "yield_frame s1 s2" "sched_lock s2 = 1"
      "state_of s2 = (state_of s1)(n := Some TASK_RUNNING)" using s1(4) by auto
  have f2: "prio_of s2 = prio_of s" "is_task s2 = is_task s" "context_of s2 = context_of s" "regs s2 = regs s"
    "kheap s2 = kheap s" "cores s2 = cores s" using s2(3) f1 by (simp_all add: yield_frame_def)
  have isn: "is_task s2 n" using s2(5) by (metis fun_upd_same is_task_def map_option_eq_Some option.discI state_of_def)
  have "c < length (cores s2)" "core_task (cores s2 ! c) = t" "is_task s2 t" using f2 d(5) c t tt by simp_all
  from yield_switch_any [OF this isn s2(2)] obtain s3 where
    s3: "yield_switch c t n s2 = Some s3" "cores s3 = (cores s)[c := (cores s ! c)\<lparr>core_task := n\<rparr>]"
     "context_of s3 = (if n = t then context_of s else (context_of s)(t := Some (regs s c)))"
     "regs s3 = (if n = t then regs s else (regs s)(c := the (context_of s n)))" "state_of s3 = state_of s2"
     "prio_of s3 = prio_of s" "is_task s3 = is_task s" "sched_lock s3 = 1" "kheap s3 = kheap s" "rq_rep s3 q'"
    unfolding f2 s2(4) by blast
  have un: "unlock_sched s3 = s3\<lparr>sched_lock := 0\<rparr>" by (simp add: unlock_sched_def pthread_spin_unlock_def)
  have yield: "sched_yield c s = Some (unlock_sched s3)"
    using core reap t lock_sched_free [OF d(2)] s1(1) choose s2(1) s3(1)
    by (simp add: sched_yield_def sched_reap_def current_task_def)
  note pm = picked_members [OF s1(2) d(3) tt(2,3) _ t(2) pick, unfolded f1, OF refl]
  have "sched_inv (unlock_sched s3) q'"
    by (rule inv_after_yield [OF inv c t, where n = n])
      (use s3 un pm s2(5) s1(5) in \<open>simp_all split: if_splits\<close>)
  then show ?thesis using yield s3 un s2(5) s1(5) run by (simp add: yielded_def running_ok_def)
qed

section \<open>Properties\<close>

lemma pick_round_robin:
  assumes "0 < p" "p < COUNT" "\<And>r. p < r \<Longrightarrow> q r = []"
  shows "pick_next t (requeued p t q) = (hd (q p @ [t]), q(p := tl (q p @ [t])))"
proof -
  have "top_queue (requeued p t q) = p" using assms by (intro top_queue_eq) (auto simp: requeued_def)
  moreover have "\<not> (\<forall>r < COUNT. requeued p t q r = [])" using assms by (auto simp: requeued_def)
  ultimately have "pick_next t (requeued p t q) =
      (hd (requeued p t q p), (requeued p t q)(p := tl (requeued p t q p)))"
    by (simp only: pick_next_def if_False)
  then show ?thesis using assms(1) by (simp add: requeued_def)
qed

lemma top_priority:
  assumes rep: "rq_rep s q" and t: "prio_of s t = p" "p < COUNT"
    and pick: "pick_next t (requeued p t q) = (n, q')" and x: "x \<in> set (q' r)"
  shows "prio_of s x \<le> prio_of s n"
proof -
  have mem: "prio_of s x = r \<and> r < COUNT" if "x \<in> set (requeued p t q r)" for x r
    using that t rq.members(1) [OF rep, of x r] by (auto simp: requeued_def queueable_def split: if_splits)
  have ne: "\<not> (\<forall>p' < COUNT. requeued p t q p' = [])"
  proof
    assume e: "\<forall>p' < COUNT. requeued p t q p' = []"
    then have "q' = requeued p t q" using pick by (auto simp: pick_next_def)
    then have "x \<in> set (requeued p t q r)" using x by simp
    then show False using e mem [of x r] by simp
  qed
  let ?h = "top_queue (requeued p t q)"
  note n = pick_next_members [OF pick ne]
  have "x \<in> set (requeued p t q r)"
    using x n(2) set_remove1_subset [of n "requeued p t q ?h"] by (auto split: if_splits)
  then have xr: "prio_of s x = r" "r < COUNT" using mem [of x r] by simp_all
  have "prio_of s n = ?h" using mem [OF n(1)] by simp
  moreover have "r \<le> ?h"
  proof (rule ccontr)
    assume "\<not> r \<le> ?h"
    then have lt: "?h < r" by simp
    obtain p' where p': "p' < COUNT" "requeued p t q p' \<noteq> []" using ne by blast
    have "requeued p t q r = []" by (rule top_queue_props(3) [OF p' xr(2) lt])
    with \<open>x \<in> set (requeued p t q r)\<close> show False by simp
  qed
  ultimately show ?thesis using xr by simp
qed

text \<open>The example of the run queues keeps the invariant.\<close>

lemma demo_sched_inv: "sched_inv demo_sched demo_queues"
proof -
  have "state_of demo_sched x = Some TASK_READY" if "x \<in> set (demo_queues p)" for x p
    using that by (auto simp: demo_queues_def state_of_def demo_sched_def demo_task_def split: if_splits)
  moreover have "running_ok demo_sched demo_queues 0x3000"
    by (simp add: running_ok_def state_of_def prio_of_def demo_sched_def demo_task_def demo_queues_def COUNT_def)
  moreover have "cores demo_sched = [\<lparr>cpu_id = 0, core_task = 0x3000, task_to_free = 0\<rparr>,
      \<lparr>cpu_id = 1, core_task = 0, task_to_free = 0\<rparr>]" "sched_lock demo_sched = 0" by (simp_all add: demo_sched_def)
  moreover have "demo_queues 0 = []" by (simp add: demo_queues_def)
  ultimately show ?thesis unfolding sched_inv_def using demo_sched_rep by (auto simp: less_2_cases_iff)
qed

lemma demo_core: "core_task (cores demo_sched ! 0) = 0x3000" "task_to_free (cores demo_sched ! 0) = 0"
  "prio_of demo_sched 0x3000 = 2"
  by (simp_all add: demo_sched_def prio_of_def demo_task_def)

text \<open>
  C9. A yield is a strict-priority decision and keeps the invariant of the scheduler. The running task, unless
  it is an idle task, goes to the back of the queue of its priority; then the head of the highest queue
  that is not empty runs, so that no task that waits afterwards has a higher priority than the one that
  runs, and when no task waits the caller goes on. The registers of the caller are saved in its context
  and those of the next task loaded exactly when the task changes; the lock is free again; priorities,
  other contexts, the other core and the heap are untouched.
\<close>

theorem sched_yield_correct:
  assumes "sched_inv s q" "c < 2" "core_task (cores s ! c) = t" "t \<noteq> 0" "task_to_free (cores s ! c) = 0"
    "pick_next t (requeued (prio_of s t) t q) = (n, q')"
  shows "\<exists>s'. sched_yield c s = Some s' \<and> sched_inv s' q' \<and>
     cores s' = (cores s)[c := (cores s ! c)\<lparr>core_task := n\<rparr>] \<and> state_of s' n = Some TASK_RUNNING \<and>
     (n \<noteq> t \<longrightarrow> state_of s' t = Some (if prio_of s t = 0 then TASK_RUNNING else TASK_READY)) \<and>
     (\<forall>r x. x \<in> set (q' r) \<longrightarrow> prio_of s' x \<le> prio_of s' n) \<and>
     context_of s' = (if n = t then context_of s else (context_of s)(t := Some (regs s c))) \<and>
     regs s' = (if n = t then regs s else (regs s)(c := the (context_of s n))) \<and>
     prio_of s' = prio_of s \<and> kheap s' = kheap s"
proof -
  from sched_yield_ok [OF assms(1,2) assms(3) [symmetric] assms(4-6)] obtain s' where
    s': "sched_yield c s = Some s'" "yielded c t n q' s s'" by blast
  have "running_ok s q t" using sched_invD(7) [OF assms(1,2)] assms(3,4) by simp
  then have "prio_of s t < COUNT" by (simp add: running_ok_def)
  then have "prio_of s x \<le> prio_of s n" if "x \<in> set (q' r)" for x r
    using top_priority [OF sched_invD(1) [OF assms(1)] refl _ assms(6) that] by simp
  then show ?thesis using s' by (simp add: yielded_def)
qed

theorem sched_yield_correct_witness:
  "\<exists>s'. sched_yield 0 demo_sched = Some s' \<and> sched_inv s' (demo_queues(2 := [0x2000, 0x3000])) \<and>
     core_task (cores s' ! 0) = 0x1000 \<and> state_of s' 0x3000 = Some TASK_READY"
proof -
  have "pick_next 0x3000 (requeued (prio_of demo_sched 0x3000) 0x3000 demo_queues) =
      (0x1000, demo_queues(2 := [0x2000, 0x3000]))"
    unfolding demo_core(3) by (subst pick_round_robin) (auto simp: demo_queues_def COUNT_def)
  from sched_yield_correct [OF demo_sched_inv _ demo_core(1) _ demo_core(2) this] obtain s' where
    "sched_yield 0 demo_sched = Some s'" "sched_inv s' (demo_queues(2 := [0x2000, 0x3000]))"
    "cores s' = (cores demo_sched)[0 := (cores demo_sched ! 0)\<lparr>core_task := 0x1000\<rparr>]"
    "state_of s' 0x3000 = Some TASK_READY" by (auto simp: demo_core(3))
  then show ?thesis by (simp add: demo_sched_def)
qed

primrec yield_times :: "nat \<Rightarrow> nat \<Rightarrow> sched \<Rightarrow> sched option" where
  "yield_times 0 c s = Some s"
| "yield_times (Suc k) c s = Option.bind (yield_times k c s) (sched_yield c)"

text \<open>
  C10. Among tasks of the highest priority that is active, yields are round robin: after \<open>k\<close> yields the
  running task followed by its queue is the original sequence rotated by \<open>k\<close> places, so each of the \<open>m\<close>
  tasks runs once in any \<open>m\<close> consecutive yields, and the queues of lower priority have not moved.
\<close>

theorem sched_yield_round_robin:
  assumes "sched_inv s q" "c < 2" "core_task (cores s ! c) = t" "t \<noteq> 0" "task_to_free (cores s ! c) = 0"
    "prio_of s t = p" "0 < p" "\<forall>r. p < r \<longrightarrow> q r = []"
  shows "\<exists>s' q'. yield_times k c s = Some s' \<and> sched_inv s' q' \<and>
     core_task (cores s' ! c) # q' p = rotate k (t # q p) \<and> (\<forall>r. r \<noteq> p \<longrightarrow> q' r = q r)"
proof -
  have "\<exists>s' q'. yield_times k c s = Some s' \<and> sched_inv s' q' \<and>
     core_task (cores s' ! c) # q' p = rotate k (t # q p) \<and> (\<forall>r. r \<noteq> p \<longrightarrow> q' r = q r) \<and>
     task_to_free (cores s' ! c) = 0 \<and> prio_of s' = prio_of s"
  proof (induction k)
    case 0
    then show ?case using assms by auto
  next
    case (Suc k)
    then obtain s1 q1 where s1: "yield_times k c s = Some s1" "sched_inv s1 q1"
      "core_task (cores s1 ! c) # q1 p = rotate k (t # q p)" "\<And>r. r \<noteq> p \<Longrightarrow> q1 r = q r"
      "task_to_free (cores s1 ! c) = 0" "prio_of s1 = prio_of s" by blast
    let ?u = "core_task (cores s1 ! c)"
    have run: "running_ok s q t" using sched_invD(7) [OF assms(1,2)] assms(3,4) by simp
    have p: "p < COUNT" using run assms(6) by (simp add: running_ok_def)
    have "?u \<in> set (t # q p)" using s1(3) by (metis list.set_intros(1) set_rotate)
    then have u: "prio_of s1 ?u = p" "?u \<noteq> 0"
      using s1(6) assms(4,6) rq.members(1) [OF sched_invD(1) [OF assms(1)]] by (auto simp: queueable_def)
    have "pick_next ?u (requeued p ?u q1) = (hd (q1 p @ [?u]), q1(p := tl (q1 p @ [?u])))"
      using assms(7,8) p s1(4) by (intro pick_round_robin) auto
    from sched_yield_ok [OF s1(2) assms(2) refl u(2) s1(5)] this u(1) obtain s2 where
      s2: "sched_yield c s1 = Some s2" "yielded c ?u (hd (q1 p @ [?u])) (q1(p := tl (q1 p @ [?u]))) s1 s2" by auto
    have "core_task (cores s2 ! c) = hd (q1 p @ [?u])" "task_to_free (cores s2 ! c) = 0" "prio_of s2 = prio_of s"
      using s2(2) assms(2) sched_invD(5) [OF s1(2)] s1(5,6) by (simp_all add: yielded_def)
    moreover have "hd (q1 p @ [?u]) # tl (q1 p @ [?u]) = rotate1 (?u # q1 p)" by (cases "q1 p") simp_all
    then have "hd (q1 p @ [?u]) # (q1(p := tl (q1 p @ [?u]))) p = rotate (Suc k) (t # q p)"
      using s1(3) by (simp only: rotate_Suc fun_upd_same)
    moreover have "yield_times (Suc k) c s = Some s2" using s1(1) s2(1) by simp
    moreover have "\<forall>r. r \<noteq> p \<longrightarrow> (q1(p := tl (q1 p @ [?u]))) r = q r" using s1(4) by simp
    moreover have "sched_inv s2 (q1(p := tl (q1 p @ [?u])))" using s2(2) unfolding yielded_def by blast
    ultimately show ?case by metis
  qed
  then show ?thesis by blast
qed

theorem sched_yield_round_robin_witness:
  "\<exists>s' q'. yield_times 2 0 demo_sched = Some s' \<and> sched_inv s' q' \<and>
     core_task (cores s' ! 0) # q' 2 = [0x2000, 0x3000, 0x1000] \<and> (\<forall>r. r \<noteq> 2 \<longrightarrow> q' r = demo_queues r)"
proof -
  have "\<forall>r. 2 < r \<longrightarrow> demo_queues r = []" "demo_queues 2 = [0x1000, 0x2000]"
    "rotate 2 [0x3000, 0x1000, 0x2000 :: u64] = [0x2000, 0x3000, 0x1000]"
    by (simp_all add: demo_queues_def numeral_eq_Suc)
  then show ?thesis
    using sched_yield_round_robin [OF demo_sched_inv _ demo_core(1) _ demo_core(2,3), of 2] by simp
qed

text \<open>The choice of a stack as an operation of the heap, and the task that a creation sets up.\<close>

definition stack_alloc :: "pthread_attr option \<Rightarrow> heap \<Rightarrow> (u64 \<times> heap) option" where
  "stack_alloc attr h =
     (case attr of
        Some a \<Rightarrow> if is_initialized a \<noteq> 0 \<and> stackaddr a \<noteq> 0 then Some (stackaddr a, h) else malloc (stack_size_of attr) h
      | None \<Rightarrow> malloc (stack_size_of attr) h)"

definition new_task :: "pthread_attr option \<Rightarrow> u64 \<Rightarrow> u64 \<Rightarrow> u64 \<Rightarrow> sched \<Rightarrow> task" where
  "new_task attr start_routine arg stack s =
     zero_task\<lparr>t_stack_page := stack, t_id := tid_counter s, t_state := TASK_READY,
       t_priority := create_priority attr arg s,
       t_context := zero_context\<lparr>sp := (stack + stack_size_of attr) AND NOT 0xF, lr := ret_from_fork_at s,
         x20 := arg, x19 := start_routine\<rparr>\<rparr>"

lemma create_stack_alloc:
  "create_stack attr (stack_size_of attr) s =
     map_option (\<lambda>(p, h). (p, s\<lparr>kheap := h\<rparr>)) (stack_alloc attr (kheap s))"
  by (auto simp: create_stack_def stack_alloc_def heap_malloc_def split: option.splits bind_splits)

lemma create_priority_cong [simp]:
  "create_priority attr arg (s\<lparr>kheap := h\<rparr>) = create_priority attr arg s"
  "create_priority attr arg (s\<lparr>tasks := m\<rparr>) = create_priority attr arg s"
  by (simp_all add: create_priority_def split: option.splits)

lemma create_priority_bound:
  assumes "\<forall>a. attr = Some a \<longrightarrow> is_initialized a \<noteq> 0 \<longrightarrow> 0 \<le> schedparam a"
  shows "unat (create_priority attr arg s) < COUNT"
proof -
  have "unat (word_of_int (c_rem p 5) :: u32) < 5" if "0 \<le> p" for p
  proof -
    have "c_rem p 5 = p mod 5" using that by (cases "p = 0") (simp_all add: c_rem_def)
    moreover have "0 \<le> p mod 5" "p mod 5 < 5" by simp_all
    ultimately show ?thesis by (simp add: unat_eq_nat_uint uint_word_of_int_eq take_bit_int_eq_self)
  qed
  then show ?thesis
    using assms by (auto simp: create_priority_def COUNT_def IDLE_def NORMAL_def split: option.splits)
qed

lemma pthread_create_value:
  assumes "malloc TASK_SIZE (kheap s) = Some (t, h1)" "t \<noteq> 0" "stack_alloc attr h1 = Some (st1, h2)" "st1 \<noteq> 0"
    "stack_alloc attr h2 = Some (st2, h3)" "st2 \<noteq> 0"
  shows "pthread_create attr start_routine arg s =
    (let s1 = s\<lparr>tid_counter := tid_counter s + 1, kheap := h3,
               tasks := (tasks s)(t \<mapsto> new_task attr start_routine arg st2 s)\<rparr> in
     if create_priority attr arg s \<noteq> IDLE then do {
       s2 \<leftarrow> lock_sched s1;
       s3 \<leftarrow> sched_enqueue_task t s2;
       Some (0, t, unlock_sched s3)
     } else Some (0, t, s1))"
  using assms
  by (simp add: pthread_create_def heap_malloc_def create_stack_alloc clear_task_def upd_task_def new_task_def
      zero_task_def Let_def)

text \<open>A new task in the store does not disturb the queues, and can be queued at its back.\<close>

lemma sched_inv_fresh:
  assumes inv: "sched_inv s q" and t: "tasks s t = None"
    and s': "tasks s' = (tasks s)(t \<mapsto> k)" "runqueues s' = runqueues s" "runqueues_tail s' = runqueues_tail s"
      "active_priorities s' = active_priorities s" "cores s' = cores s" "sched_lock s' = sched_lock s"
  shows "sched_inv s' q" "\<And>p. t \<notin> set (q p)"
proof -
  note d = sched_invD [OF inv]
  have member: "tasks s x \<noteq> None" if "x \<in> set (q p)" for x p
    using rq.members(1) [OF d(1) that] by (simp add: queueable_def is_task_def)
  then show "t \<notin> set (q p)" for p using t by blast
  have old: "tasks s' x = tasks s x" if "tasks s x \<noteq> None" for x using that t s'(1) by auto
  have same: "task_next s' x = task_next s x" "task_prev s' x = task_prev s x" "is_task s' x = is_task s x"
    "prio_of s' x = prio_of s x" "state_of s' x = state_of s x" if "tasks s x \<noteq> None" for x
    using old [OF that] by (simp_all add: task_next_def task_prev_def is_task_def prio_of_def state_of_def)
  have "tq.linked s' 0 (q p)" if "p < COUNT" for p
    by (rule tq.linked_cong [OF rq_repD(3) [OF d(1) that]]) (use same member in blast)
  then have rep: "rq_rep s' q"
    using d(1) same(4) member unfolding rq_rep_def s' by simp
  have run: "running_ok s' q x" if "running_ok s q x" for x
    using that same(4,5) [of x] by (auto simp: running_ok_def state_of_def)
  show "sched_inv s' q"
    using inv rep run same(5) member unfolding sched_inv_def s' by simp
qed

lemma sched_inv_enqueue:
  assumes inv: "sched_inv s q" and t: "state_of s t = Some TASK_READY" "prio_of s t = p" "p \<noteq> 0" "p < COUNT" "t \<noteq> 0"
    "\<And>p. t \<notin> set (q p)"
  shows "\<exists>s2 s3. lock_sched s = Some s2 \<and> sched_enqueue_task t s2 = Some s3 \<and> sched_inv (unlock_sched s3) (q(p := q p @ [t])) \<and>
    rq_frame s (unlock_sched s3)"
proof -
  note d = sched_invD [OF inv]
  let ?l = "s\<lparr>sched_lock := 1\<rparr>"
  have tk: "is_task s t" using t(1) by (auto simp: state_of_def is_task_def)
  then have "queueable ?l t" "t \<notin> set (q (prio_of ?l t))" "rq_rep ?l q" using t d(1) by (simp_all add: queueable_def)
  from rq.enq_back [OF this(3,1,2)] t(2) obtain s3 where
    s3: "sched_enqueue_task t ?l = Some s3" "rq_frame ?l s3" "rq_rep s3 (q(p := q p @ [t]))" by auto
  have un: "unlock_sched s3 = s3\<lparr>sched_lock := 0\<rparr>" by (simp add: unlock_sched_def pthread_spin_unlock_def)
  have st: "state_of s3 = state_of s" "prio_of s3 = prio_of s" "cores s3 = cores s"
    using rq_frame_states [OF s3(2)] by (simp_all add: yield_frame_def)
  have run: "running_ok (unlock_sched s3) (q(p := q p @ [t])) x" if "running_ok s q x" for x
    using that st t(1) un by (auto simp: running_ok_def)
  have "sched_inv (unlock_sched s3) (q(p := q p @ [t]))"
    using inv s3(3) st run t(1,3) unfolding sched_inv_def by (simp add: un)
  moreover have "rq_frame s (unlock_sched s3)"
  proof -
    have "task_core (s\<lparr>sched_lock := l\<rparr>) = task_core s" for l and s :: sched by (simp add: task_core_def fun_eq_iff)
    then have "task_core (unlock_sched s3) = task_core s" using s3(2) by (simp add: un rq_frame_def)
    moreover have "s3 = ?l\<lparr>tasks := tasks s3, runqueues := runqueues s3, runqueues_tail := runqueues_tail s3,
        active_priorities := active_priorities s3\<rparr>" using s3(2) by (simp add: rq_frame_def)
    then have "unlock_sched s3 = s\<lparr>tasks := tasks s3, runqueues := runqueues s3, runqueues_tail := runqueues_tail s3,
        active_priorities := active_priorities s3\<rparr>" using d(2) unfolding un by (cases s; cases s3) simp
    ultimately show ?thesis unfolding rq_frame_def by (cases "unlock_sched s3") simp
  qed
  ultimately show ?thesis using lock_sched_free [OF d(2)] s3(1) by blast
qed

text \<open>
  A heap for the examples, with a slab of 512-byte objects in its third page that has two objects left,
  and thread attributes that bring their own stack.
\<close>

definition demo_slab_heap :: heap where
  "demo_slab_heap = demo_heap\<lparr>
     caches := map (\<lambda>s. \<lparr>slabs_partial = (if s = 512 then 0x50002000 else 0), slabs_full = 0, slabs_free = 0, obj_size = s\<rparr>)
       slab_sizes,
     hmem := st64 (st64 (\<lambda>_. 0) 0x50002018 0x50002228) 0x50002228 0x50002428\<rparr>"

definition demo_attr :: pthread_attr where
  "demo_attr = \<lparr>detachstate = 0, stacksize = 0x4000, stackaddr = 0x60000000, inheritsched = 0, schedpolicy = 0,
     schedparam = 3, is_initialized = 1\<rparr>"

lemma demo_malloc: "\<exists>h. malloc TASK_SIZE demo_slab_heap = Some (0x50002228, h)"
proof -
  have "disjoint_blocks 0x50002228 8 0x50002018 8" by (rule disjoint_no_wrap) simp_all
  moreover have "disjoint_blocks 0x50002020 4 0x50002018 8" by (rule disjoint_no_wrap) simp_all
  ultimately show ?thesis
    by (simp add: malloc_def TASK_SIZE_def demo_slab_heap_def demo_heap_def slab_sizes_def lock_heap_def
        pthread_spin_lock_def cas_def upt_rec cache_alloc_def cache_slab_def get_kmem_def arr_get_def
        get_free_list_def set_free_list_def set_in_use_def store64_def store32_def
        ld64_st64_same ld_st_disjoint)
qed

lemma sched_inv_heap:
  assumes inv: "sched_inv s q"
  shows "sched_inv (s\<lparr>tid_counter := n, kheap := h\<rparr>) q"
proof -
  have "rq_rep (s\<lparr>tid_counter := n, kheap := h\<rparr>) q"
    by (rule rq_rep_cong [OF sched_invD(1) [OF inv]]) (simp_all add: task_next_def task_prev_def is_task_def prio_of_def)
  moreover have "state_of (s\<lparr>tid_counter := n, kheap := h\<rparr>) = state_of s"
    "running_ok (s\<lparr>tid_counter := n, kheap := h\<rparr>) = running_ok s"
    by (auto simp: state_of_def running_ok_def prio_of_def fun_eq_iff)
  ultimately show ?thesis using inv unfolding sched_inv_def by simp
qed

lemma pthread_create_ok:
  assumes inv: "sched_inv s q"
    and mem: "malloc TASK_SIZE (kheap s) = Some (t, h1)" "t \<noteq> 0" "tasks s t = None"
      "stack_alloc attr h1 = Some (st1, h2)" "st1 \<noteq> 0" "stack_alloc attr h2 = Some (st2, h3)" "st2 \<noteq> 0"
    and attr: "\<forall>a. attr = Some a \<longrightarrow> is_initialized a \<noteq> 0 \<longrightarrow> 0 \<le> schedparam a"
    and p_def: "p = unat (create_priority attr arg s)"
  shows "\<exists>s'. pthread_create attr start_routine arg s = Some (0, t, s') \<and>
     sched_inv s' (if p = 0 then q else q(p := q p @ [t])) \<and> kheap s' = h3 \<and> cores s' = cores s \<and> tid_counter s' = tid_counter s + 1 \<and>
     task_core s' t = Some (new_task attr start_routine arg st2 s) \<and> (\<forall>x. x \<noteq> t \<longrightarrow> task_core s' x = task_core s x)"
proof -
  let ?k = "new_task attr start_routine arg st2 s"
  let ?s = "s\<lparr>tid_counter := tid_counter s + 1, kheap := h3, tasks := (tasks s)(t \<mapsto> ?k)\<rparr>"
  have result: "pthread_create attr start_routine arg s =
      (if create_priority attr arg s \<noteq> IDLE then do {
         s2 \<leftarrow> lock_sched ?s; s3 \<leftarrow> sched_enqueue_task t s2; Some (0, t, unlock_sched s3)
       } else Some (0, t, ?s))"
    using pthread_create_value [OF mem(1,2,4-7)] by (simp only: Let_def)
  have inv1: "sched_inv ?s q" "\<And>p. t \<notin> set (q p)"
    using sched_inv_fresh [OF inv mem(3), where s' = ?s and k = ?k] by simp_all
  have k: "t_state ?k = TASK_READY" "t_priority ?k = create_priority attr arg s" "t_next ?k = 0" "t_prev ?k = 0"
    by (simp_all add: new_task_def zero_task_def)
  then have "?k\<lparr>t_next := 0, t_prev := 0\<rparr> = ?k" by (cases ?k) simp
  then have tc: "task_core ?s t = Some ?k" "x \<noteq> t \<Longrightarrow> task_core ?s x = task_core s x" for x
    by (simp_all add: task_core_def)
  show ?thesis
  proof (cases "p = 0")
    case True
    then have "create_priority attr arg s = IDLE" by (simp add: p_def IDLE_def unat_eq_0)
    then show ?thesis using result inv1(1) tc True by simp
  next
    case False
    then have ni: "create_priority attr arg s \<noteq> IDLE" by (auto simp: p_def IDLE_def)
    have "state_of ?s t = Some TASK_READY" "prio_of ?s t = p" using k by (simp_all add: state_of_def prio_of_def p_def)
    from sched_inv_enqueue [OF inv1(1) this False _ mem(2) inv1(2)] create_priority_bound [OF attr] obtain s2 s3 where
      s3: "lock_sched ?s = Some s2" "sched_enqueue_task t s2 = Some s3"
        "sched_inv (unlock_sched s3) (q(p := q p @ [t]))" "rq_frame ?s (unlock_sched s3)"
      unfolding p_def by blast
    have "kheap (unlock_sched s3) = h3" "cores (unlock_sched s3) = cores s" "tid_counter (unlock_sched s3) = tid_counter s + 1"
      "task_core (unlock_sched s3) = task_core ?s"
      using rq_frame_fields(1,4,5) [OF s3(4)] s3(4) by (simp_all add: rq_frame_def)
    then show ?thesis using result ni s3 tc False by simp
  qed
qed

text \<open>
  C11. \<open>pthread_create\<close>, when the memory for the task and its stack is there: it returns 0 and the address of
  a new task that is ready, has the next id, the priority of the attributes (idle for the idle thread) and
  a context that starts at \<open>ret_from_fork\<close> with the start routine, its argument and a stack pointer that is
  aligned to 16 bytes; unless it is idle it is at the back of the queue of its priority. The invariant of
  the scheduler holds again, both cores go on with their tasks and nothing of the other tasks changes but links.
\<close>

theorem pthread_create_correct:
  assumes inv: "sched_inv s q"
    and mem: "malloc TASK_SIZE (kheap s) = Some (t, h1)" "t \<noteq> 0" "tasks s t = None"
      "stack_alloc attr h1 = Some (st1, h2)" "st1 \<noteq> 0" "stack_alloc attr h2 = Some (st2, h3)" "st2 \<noteq> 0"
    and attr: "\<forall>a. attr = Some a \<longrightarrow> is_initialized a \<noteq> 0 \<longrightarrow> 0 \<le> schedparam a"
    and p_def: "p = unat (create_priority attr arg s)"
  shows "\<exists>s'. pthread_create attr start_routine arg s = Some (0, t, s') \<and>
     sched_inv s' (if p = 0 then q else q(p := q p @ [t])) \<and> kheap s' = h3 \<and> cores s' = cores s \<and> tid_counter s' = tid_counter s + 1 \<and>
     task_core s' t = Some (new_task attr start_routine arg st2 s) \<and> (\<forall>x. x \<noteq> t \<longrightarrow> task_core s' x = task_core s x)"
  by (rule pthread_create_ok [OF assms])

theorem pthread_create_correct_witness:
  "\<exists>s'. pthread_create (Some demo_attr) 0x40083000 7 (demo_sched\<lparr>kheap := demo_slab_heap\<rparr>) = Some (0, 0x50002228, s') \<and>
     sched_inv s' (demo_queues(3 := [0x50002228])) \<and> tid_counter s' = 5"
proof -
  let ?s = "demo_sched\<lparr>kheap := demo_slab_heap\<rparr>"
  obtain h where h: "malloc TASK_SIZE (kheap ?s) = Some (0x50002228, h)" using demo_malloc by auto
  have inv: "sched_inv ?s demo_queues"
  proof -
    have "rq_rep ?s demo_queues"
      by (rule rq_rep_cong [OF demo_sched_rep]) (simp_all add: task_next_def task_prev_def is_task_def prio_of_def)
    moreover have "state_of ?s = state_of demo_sched" "running_ok ?s = running_ok demo_sched"
      by (auto simp: state_of_def running_ok_def prio_of_def fun_eq_iff)
    ultimately show ?thesis using demo_sched_inv unfolding sched_inv_def by simp
  qed
  have st: "stack_alloc (Some demo_attr) g = Some (0x60000000, g)" for g by (simp add: stack_alloc_def demo_attr_def)
  have "c_rem 3 5 = 3" by (simp add: c_rem_def)
  then have p: "create_priority (Some demo_attr) 7 ?s = 3"
    by (simp add: create_priority_def demo_attr_def demo_sched_def)
  have "tasks ?s 0x50002228 = None" "0x50002228 \<noteq> (0 :: u64)" "0x60000000 \<noteq> (0 :: u64)"
    "\<forall>a. Some demo_attr = Some a \<longrightarrow> is_initialized a \<noteq> 0 \<longrightarrow> 0 \<le> schedparam a"
    by (simp_all add: demo_sched_def demo_attr_def)
  from pthread_create_correct [OF inv h this(2,1) st this(3) st this(3,4), of 3 7 "0x40083000"] p
  show ?thesis by (auto simp: demo_queues_def demo_sched_def)
qed

text \<open>
  \<open>pthread_create\<close> without memory, on each of its three failing allocations: it returns \<open>EAGAIN\<close>, gives the
  task structure back when it had one, and leaves tasks, queues and the invariant as they were. (After the
  third one the stack of the first allocation is not given back.)
\<close>

theorem pthread_create_no_memory:
  assumes inv: "sched_inv s q" and mem: "malloc TASK_SIZE (kheap s) = Some (t, h1)" "tasks s t = None"
    and none: "t = 0 \<and> h' = h1 \<or>
      t \<noteq> 0 \<and> stack_alloc attr h1 = Some (0, h2) \<and> free t h2 = Some h' \<or>
      t \<noteq> 0 \<and> stack_alloc attr h1 = Some (st1, h2) \<and> st1 \<noteq> 0 \<and> stack_alloc attr h2 = Some (0, h3) \<and> free t h3 = Some h'"
  shows "\<exists>s'. pthread_create attr start_routine arg s = Some (EAGAIN, 0, s') \<and> sched_inv s' q \<and> tasks s' = tasks s \<and>
    cores s' = cores s \<and> kheap s' = h'"
proof -
  have same: "(tasks s)(t := None) = tasks s" using mem(2) by auto
  have "\<exists>n. pthread_create attr start_routine arg s = Some (EAGAIN, 0, s\<lparr>tid_counter := n, kheap := h'\<rparr>)"
    using none mem same
    by (elim disjE conjE)
      (auto simp: pthread_create_def heap_malloc_def heap_free_def free_task_def create_stack_alloc clear_task_def
        upd_task_def Let_def intro: exI [of _ "tid_counter s"] exI [of _ "tid_counter s + 1"])
  moreover have "sched_inv (s\<lparr>tid_counter := n, kheap := h'\<rparr>) q" for n by (rule sched_inv_heap [OF inv])
  ultimately show ?thesis by auto
qed

theorem pthread_create_no_memory_witness:
  "\<exists>s'. pthread_create None 0x40083000 7 demo_sched = Some (EAGAIN, 0, s') \<and> sched_inv s' demo_queues \<and>
     tasks s' = tasks demo_sched \<and> kheap s' = demo_heap"
proof -
  have "malloc TASK_SIZE (kheap demo_sched) = Some (0, demo_heap)"
    by (simp add: malloc_def TASK_SIZE_def demo_sched_def demo_heap_def lock_heap_def unlock_heap_def
        pthread_spin_lock_def pthread_spin_unlock_def cas_def)
  moreover have "tasks demo_sched 0 = None" by (simp add: demo_sched_def)
  ultimately show ?thesis using pthread_create_no_memory [OF demo_sched_inv, of 0 demo_heap demo_heap] by fastforce
qed

section \<open>Exit\<close>

lemma wake_loop_returns:
  assumes "wake_loop w s = Some s'"
  shows "w = 0"
proof (rule wake_loop.raw_induct [where P = "\<lambda>w s s'. w = 0", OF _ assms])
  fix loop :: "u64 \<Rightarrow> sched \<Rightarrow> sched option" and w s s'
  assume ih: "\<And>w s s'. loop w s = Some s' \<Longrightarrow> w = 0"
    and step: "(if w \<noteq> 0 then Option.bind (upd_task w (t_state_update (\<lambda>_. TASK_READY)) s)
      (\<lambda>s. Option.bind (sched_enqueue_task w s) (\<lambda>s. loop w s)) else Some s) = Some s'"
  show "w = 0"
  proof (rule ccontr)
    assume "w \<noteq> 0"
    with step obtain s1 where "loop w s1 = Some s'" by (auto split: bind_splits)
    with ih \<open>w \<noteq> 0\<close> show False by blast
  qed
qed

text \<open>The iterations of the loop of \<open>pthread_exit\<close> as such.\<close>

primrec wake_steps :: "nat \<Rightarrow> u64 \<Rightarrow> sched \<Rightarrow> sched option" where
  "wake_steps 0 w s = Some s"
| "wake_steps (Suc n) w s = do {
     s \<leftarrow> upd_task w (t_state_update (\<lambda>_. TASK_READY)) s;
     s \<leftarrow> sched_enqueue_task w s;
     wake_steps n w s
   }"

lemma wake_steps_defined:
  assumes "is_task s w" "prio_of s w < COUNT" "length (runqueues s) = COUNT" "length (runqueues_tail s) = COUNT"
    "runqueues s ! prio_of s w \<noteq> 0 \<Longrightarrow> is_task s (runqueues_tail s ! prio_of s w)" "w \<noteq> 0"
  shows "\<exists>s'. wake_steps n w s = Some s'"
  using assms
proof (induction n arbitrary: s)
  case (Suc n)
  let ?p = "prio_of s w"
  define s1 where "s1 = set_task w (t_state_update (\<lambda>_. TASK_READY)) s"
  have s1: "upd_task w (t_state_update (\<lambda>_. TASK_READY)) s = Some s1" using upd_task_set [OF Suc.prems(1)] by (simp add: s1_def)
  have "prio_of s1 = prio_of s" by (auto simp: s1_def set_task_def prio_of_def fun_eq_iff split: option.splits)
  then have f1: "is_task s1 w" "prio_of s1 w = ?p" "runqueues s1 = runqueues s" "runqueues_tail s1 = runqueues_tail s"
    "is_task s1 = is_task s" using Suc.prems(1) by (simp_all add: s1_def fun_eq_iff)
  obtain k where k: "tasks s1 w = Some k" "unat (t_priority k) = ?p" using f1(1,2) by (auto simp: is_task_def prio_of_def)
  define s2 where "s2 = set_task w (t_prev_update (\<lambda>_. 0)) (set_task w (t_next_update (\<lambda>_. 0)) s1)"
  define tl where "tl = runqueues_tail s ! ?p"
  define s3 where "s3 = (if runqueues s ! ?p = 0
    then s2\<lparr>runqueues := (runqueues s)[?p := w], runqueues_tail := (runqueues_tail s)[?p := w]\<rparr>
    else (set_task tl (t_next_update (\<lambda>_. w)) (set_task w (t_prev_update (\<lambda>_. tl)) s2))\<lparr>runqueues_tail := (runqueues_tail s)[?p := w]\<rparr>)"
  define s4 where "s4 = s3\<lparr>active_priorities := active_priorities s3 OR push_bit ?p 1\<rparr>"
  have "sched_enqueue_task w s1 = Some s4"
    using k f1 Suc.prems
    by (simp add: sched_enqueue_task_def upd_task_set s4_def s3_def s2_def tl_def arr_get_def arr_set_def Let_def)
  moreover have "\<exists>s'. wake_steps n w s4 = Some s'"
  proof (rule Suc.IH)
    have pr: "prio_of (set_task x f s) = prio_of s" if "\<And>k. t_priority (f k) = t_priority k" for x f and s :: sched
      using that by (auto simp: set_task_def prio_of_def fun_eq_iff split: option.splits)
    have "prio_of (s\<lparr>runqueues := a\<rparr>) = prio_of s" "prio_of (s\<lparr>runqueues_tail := a\<rparr>) = prio_of s"
      "prio_of (s\<lparr>active_priorities := b\<rparr>) = prio_of s" for a b and s :: sched
      by (auto simp: prio_of_def fun_eq_iff)
    then have p4: "prio_of s4 w = ?p" using f1(2) by (simp add: s4_def s3_def s2_def pr)
    have t4: "is_task s4 x = is_task s x" for x using f1(5) by (simp add: s4_def s3_def s2_def)
    have "runqueues_tail s4 ! ?p = w" using Suc.prems(2,4) by (simp add: s4_def s3_def)
    then show "is_task s4 (runqueues_tail s4 ! prio_of s4 w)" if "runqueues s4 ! prio_of s4 w \<noteq> 0"
      using p4 t4 Suc.prems(1) by simp
    show "is_task s4 w" "prio_of s4 w < COUNT" "length (runqueues s4) = COUNT" "length (runqueues_tail s4) = COUNT" "w \<noteq> 0"
      using t4 p4 Suc.prems f1 by (simp_all add: s4_def s3_def s2_def)
  qed
  ultimately show ?case using s1 by simp
qed simp

text \<open>The state in which \<open>pthread_exit\<close> looks at the tasks that wait for the exiting one.\<close>

definition exiting :: "nat \<Rightarrow> u64 \<Rightarrow> u64 \<Rightarrow> task \<Rightarrow> sched \<Rightarrow> sched" where
  "exiting c v t k s = s\<lparr>sched_lock := 1, tasks := (tasks s)(t \<mapsto> k\<lparr>t_ret_value := v, t_state := TASK_EXITED\<rparr>),
     cores := (cores s)[c := (cores s ! c)\<lparr>task_to_free := t\<rparr>]\<rparr>"

lemma exit_task_value:
  assumes inv: "sched_inv s q" and c: "c < 2" and t: "core_task (cores s ! c) = t" "tasks s t = Some k"
  shows "exit_task c v s = do {
     s \<leftarrow> wake_loop (t_join_wait_queue k) (exiting c v t k s);
     s \<leftarrow> upd_task t (t_join_wait_queue_update (\<lambda>_. 0)) s;
     s \<leftarrow> sched_dequeue_task t s;
     Some (unlock_sched s)
   }"
proof -
  note core = sched_inv_core [OF inv c]
  have "sint (cpu_id (cores s ! c)) = int c" using core(2,3) by (simp add: cpu_index_def sched_getcpu_def guard_def split: if_splits)
  then show ?thesis
    using core t lock_sched_free [OF sched_invD(2) [OF inv]] sched_invD(5) [OF inv] c
    by (simp add: exit_task_def current_task_def upd_task_def cpu_index_def sched_getcpu_def upd_core_def array_facts exiting_def)
qed

lemma rq_rep_exiting:
  assumes "rq_rep s q" "tasks s t = Some k"
  shows "rq_rep (exiting c v t k s) q"
  by (rule rq_rep_cong [OF assms(1)])
    (use assms(2) in \<open>simp_all add: exiting_def task_next_def task_prev_def is_task_def prio_of_def\<close>)

text \<open>
  A task that exits while another one waits for it in \<open>pthread_join\<close> never gets to the end of
  \<open>pthread_exit\<close>: the loop over the waiting tasks does not advance its pointer, so every iteration is followed
  by another one (any number of iterations runs without a fault) and no result is ever reached.
\<close>

theorem pthread_exit_joiner_diverges:
  assumes inv: "sched_inv s q" and c: "c < 2" and t: "core_task (cores s ! c) = t" "tasks s t = Some k"
    and w: "t_join_wait_queue k = w" "w \<noteq> 0" "is_task s w" "prio_of s w < COUNT"
  shows "pthread_exit c v s = None \<and> (\<forall>n. \<exists>s'. wake_steps n w (exiting c v t k s) = Some s')"
proof (intro conjI allI)
  have "wake_loop w s' = None" for s' using wake_loop_returns [of w s'] w(2) by (cases "wake_loop w s'") auto
  then show "pthread_exit c v s = None" using exit_task_value [OF inv c t, of v] w(1) by (simp add: pthread_exit_def)
  fix n
  let ?e = "exiting c v t k s"
  have pr: "is_task ?e = is_task s" "prio_of ?e = prio_of s"
    using t(2) by (auto simp: exiting_def is_task_def prio_of_def fun_eq_iff)
  note r = rq_repD [OF rq_rep_exiting [OF sched_invD(1) [OF inv] t(2), of c v]]
  show "\<exists>s'. wake_steps n w ?e = Some s'"
  proof (rule wake_steps_defined)
    show "is_task ?e (runqueues_tail ?e ! prio_of ?e w)" if nz: "runqueues ?e ! prio_of ?e w \<noteq> 0"
    proof -
      have p: "prio_of ?e w < COUNT" using w(4) pr by simp
      have "q (prio_of ?e w) \<noteq> []" using nz r(4) [OF p] by auto
      then show ?thesis using tq.linked_tail [OF r(3) [OF p]] r(5) [OF p] by simp
    qed
  qed (use w pr r(1,2) in simp_all)
qed

theorem pthread_exit_joiner_diverges_witness:
  "pthread_exit 0 9 (demo_sched\<lparr>tasks := (tasks demo_sched)(0x3000 \<mapsto> (demo_task 3 TASK_RUNNING 2 0 0)\<lparr>t_join_wait_queue := 0x4000\<rparr>,
       0x4000 \<mapsto> demo_task 4 TASK_BLOCKED 2 0 0)\<rparr>) = None"
proof -
  let ?k = "(demo_task 3 TASK_RUNNING 2 0 0)\<lparr>t_join_wait_queue := 0x4000\<rparr>"
  let ?base = "demo_sched\<lparr>tasks := (tasks demo_sched)(0x4000 \<mapsto> demo_task 4 TASK_BLOCKED 2 0 0)\<rparr>"
  let ?s = "demo_sched\<lparr>tasks := (tasks demo_sched)(0x3000 \<mapsto> ?k, 0x4000 \<mapsto> demo_task 4 TASK_BLOCKED 2 0 0)\<rparr>"
  have inv0: "sched_inv ?base demo_queues"
    by (rule sched_inv_fresh(1) [OF demo_sched_inv, where t = "0x4000" and k = "demo_task 4 TASK_BLOCKED 2 0 0"])
      (simp_all add: demo_sched_def)
  have "rq_rep ?s demo_queues"
    by (rule rq_rep_cong [OF sched_invD(1) [OF inv0]])
      (simp_all add: task_next_def task_prev_def is_task_def prio_of_def demo_sched_def demo_task_def)
  moreover have "state_of ?s = state_of ?base" "running_ok ?s = running_ok ?base"
    by (auto simp: state_of_def running_ok_def prio_of_def demo_sched_def demo_task_def fun_eq_iff)
  ultimately have inv: "sched_inv ?s demo_queues" using inv0 unfolding sched_inv_def by simp
  have "core_task (cores ?s ! 0) = 0x3000" "tasks ?s 0x3000 = Some ?k" "t_join_wait_queue ?k = 0x4000"
    "is_task ?s 0x4000" "prio_of ?s 0x4000 < COUNT"
    by (simp_all add: demo_sched_def is_task_def prio_of_def demo_task_def COUNT_def)
  from pthread_exit_joiner_diverges [OF inv _ this(1-3) _ this(4,5), of 9] show ?thesis by simp
qed

text \<open>
  C30. A task that exits with nobody waiting for it is marked as exited with its result and handed over for
  release, and then the yield at the end of \<open>pthread_exit\<close>, which runs on the stack and as the current task
  of the exiting thread, releases its stack and its task structure and goes on to use the structure as the
  caller: the access is to freed memory.
\<close>

theorem pthread_exit_use_after_free:
  assumes inv: "sched_inv s q" and c: "c < 2" and t: "core_task (cores s ! c) = t" "t \<noteq> 0" "tasks s t = Some k"
    and alone: "t_join_wait_queue k = 0" "t_next k = 0" "t_prev k = 0"
    and heap: "free (t_stack_page k) (kheap s) = Some h1" "free t h1 = Some h2"
  shows "\<exists>s1 s2. exit_task c v s = Some s1 \<and> state_of s1 t = Some TASK_EXITED \<and>
     map_option t_ret_value (tasks s1 t) = Some v \<and> sched_reap c s1 = Some s2 \<and> kheap s2 = h2 \<and>
     current_task c s2 = Some t \<and> tasks s2 t = None \<and> sched_yield c s1 = None \<and> pthread_exit c v s = None"
proof -
  let ?e = "exiting c v t k s"
  let ?k = "k\<lparr>t_ret_value := v, t_state := TASK_EXITED, t_join_wait_queue := 0\<rparr>"
  have run: "running_ok s q t" using sched_invD(7) [OF inv c] t by simp
  have k: "?k\<lparr>t_join_wait_queue := 0\<rparr> = ?k" "k\<lparr>t_ret_value := v, t_state := TASK_EXITED\<rparr> = ?k"
    using alone(1) by (cases k; simp)+
  have e: "tasks ?e t = Some ?k" using k(2) by (simp add: exiting_def)
  have upd: "upd_task t (t_join_wait_queue_update (\<lambda>_. 0)) ?e = Some ?e"
  proof -
    have "(tasks ?e)(t \<mapsto> ?k) = tasks ?e" using e by auto
    then show ?thesis using e k(1) by (simp add: upd_task_def)
  qed
  have deq: "sched_dequeue_task t ?e = Some ?e"
    by (rule dequeue_absent [OF rq_rep_exiting [OF sched_invD(1) [OF inv] t(3)] e])
      (use alone t run in \<open>simp_all add: running_ok_def prio_of_def\<close>)
  define s1 where "s1 = unlock_sched ?e"
  have s1: "s1 = ?e\<lparr>sched_lock := 0\<rparr>" by (simp add: s1_def unlock_sched_def pthread_spin_unlock_def)
  have exit1: "exit_task c v s = Some s1"
    using exit_task_value [OF inv c t(1,3), of v] alone(1) upd deq by (simp add: s1_def wake_loop.simps)
  have len: "length (cores s) = 2" and id: "cpu_id (cores s ! c) = of_nat c" using sched_invD(5,6) [OF inv] c by auto
  have sint: "sint (of_nat c :: u32) = int c" using c by (auto simp: less_2_cases_iff)
  have core: "cpu_index c s1 = Some c" "arr_get (cores s1) c = Some ((cores s ! c)\<lparr>task_to_free := t\<rparr>)"
    using len id c sint by (simp_all add: s1 exiting_def cpu_index_def sched_getcpu_def arr_get_def)
  define s2 where "s2 = s1\<lparr>cores := (cores s1)[c := (cores s ! c)\<lparr>task_to_free := 0\<rparr>], tasks := (tasks s1)(t := None), kheap := h2\<rparr>"
  have reap: "sched_reap c s1 = Some s2"
    using core t heap e len c
    by (simp add: sched_reap_def upd_core_def s1 s2_def arr_set_def heap_free_def free_task_def exiting_def)
  have s2: "kheap s2 = h2" "current_task c s2 = Some t" "tasks s2 t = None"
    using len c t by (simp_all add: s2_def s1 exiting_def current_task_def arr_get_def)
  have lock: "lock_sched s2 = Some (s2\<lparr>sched_lock := 1\<rparr>)" by (rule lock_sched_free) (simp add: s2_def s1)
  have cur: "current_task c (s2\<lparr>sched_lock := 1\<rparr>) = Some t" using s2(2) by (simp add: current_task_def)
  have "sched_yield c s1 = None"
    using reap lock cur s2(3) t(2) by (simp add: sched_yield_def yield_put_back_def)
  moreover from this have "pthread_exit c v s = None" using exit1 by (simp add: pthread_exit_def)
  moreover have "state_of s1 t = Some TASK_EXITED" "map_option t_ret_value (tasks s1 t) = Some v"
    using e by (simp_all add: s1 state_of_def)
  ultimately show ?thesis using exit1 reap s2 by blast
qed

theorem pthread_exit_use_after_free_witness:
  "\<exists>s1 s2. exit_task 0 9 demo_sched = Some s1 \<and> sched_reap 0 s1 = Some s2 \<and> current_task 0 s2 = Some 0x3000 \<and>
     tasks s2 0x3000 = None \<and> sched_yield 0 s1 = None"
proof -
  let ?k = "demo_task 3 TASK_RUNNING 2 0 0"
  have "tasks demo_sched 0x3000 = Some ?k" "t_join_wait_queue ?k = 0" "t_next ?k = 0" "t_prev ?k = 0"
    by (simp_all add: demo_sched_def demo_task_def)
  moreover have "free (t_stack_page ?k) (kheap demo_sched) = Some demo_heap" by (simp add: demo_task_def free_def demo_sched_def)
  moreover have "free 0x3000 demo_heap = Some demo_heap"
    by (simp add: free_def lock_heap_def pthread_spin_lock_def cas_def virt_to_page_idx_def demo_heap_def
        unlock_heap_def pthread_spin_unlock_def)
  ultimately show ?thesis
    using pthread_exit_use_after_free [OF demo_sched_inv _ demo_core(1), of ?k demo_heap demo_heap 9] by auto
qed

text \<open>
  No exit succeeds: whatever the state is, it fails, loops, or yields as a task that has just been released.
\<close>

lemma upd_task_cores: "upd_task p f s = Some s' \<Longrightarrow> cores s' = cores s"
  by (auto simp: upd_task_def bind_eq_Some_conv)

lemma dequeue_cores:
  assumes "sched_dequeue_task t s = Some s'"
  shows "cores s' = cores s"
proof -
  from assms obtain k k' :: task and hd :: u64 and head tail s1 s2 s3 s4 where
    "(if t_prev k \<noteq> 0 then upd_task (t_prev k) (t_next_update (\<lambda>_. t_next k)) s
      else if head = t then Some (s\<lparr>runqueues := (runqueues s)[unat (t_priority k) := t_next k]\<rparr>) else Some s) = Some s1"
    "(if t_next k' \<noteq> 0 then upd_task (t_next k') (t_prev_update (\<lambda>_. t_prev k')) s1
      else if tail = t then Some (s1\<lparr>runqueues_tail := (runqueues_tail s1)[unat (t_priority k) := t_prev k']\<rparr>) else Some s1) = Some s2"
    "upd_task t (t_next_update (\<lambda>_. 0)) s2 = Some s3" "upd_task t (t_prev_update (\<lambda>_. 0)) s3 = Some s4"
    "(if hd = 0 then s4\<lparr>active_priorities := active_priorities s4 AND NOT (push_bit (unat (t_priority k)) 1)\<rparr> else s4) = s'"
    unfolding sched_dequeue_task_def Let_def bind_eq_Some_conv option.inject by blast
  then show ?thesis by (fastforce dest: upd_task_cores split: if_splits)
qed

lemma cpu_index_cong: "cores s' = cores s \<Longrightarrow> cpu_index c s' = cpu_index c s"
  by (simp add: cpu_index_def sched_getcpu_def)

lemma exit_task_hands_over:
  assumes c: "c < length (cores s)" "cpu_index c s = Some c" and run: "exit_task c v s = Some s'"
  shows "cores s' = (cores s)[c := (cores s ! c)\<lparr>task_to_free := core_task (cores s ! c)\<rparr>]"
proof -
  from run obtain k :: task and a t b i d e g h where st: "lock_sched s = Some a" "current_task c a = Some t"
    "upd_task t (\<lambda>k. k\<lparr>t_ret_value := v, t_state := TASK_EXITED\<rparr>) a = Some b" "cpu_index c b = Some i"
    "upd_core i (task_to_free_update (\<lambda>_. t)) b = Some d" "wake_loop (t_join_wait_queue k) d = Some e"
    "upd_task t (t_join_wait_queue_update (\<lambda>_. 0)) e = Some g" "sched_dequeue_task t g = Some h" "unlock_sched h = s'"
    unfolding exit_task_def bind_eq_Some_conv option.inject by blast
  have a: "cores a = cores s" using st(1) by (auto simp: lock_sched_def bind_eq_Some_conv)
  then have t: "t = core_task (cores s ! c)" using st(2) c(1) by (simp add: current_task_def array_facts)
  have b: "cores b = cores s" using upd_task_cores [OF st(3)] a by simp
  then have "i = c" using st(4) c(2) cpu_index_cong [OF b] by simp
  then have "cores d = (cores s)[c := (cores s ! c)\<lparr>task_to_free := t\<rparr>]" using st(5) b c(1) by (auto simp: upd_core_def array_facts)
  moreover have "e = d" using st(6) wake_loop_returns [OF st(6)] by (simp add: wake_loop.simps)
  moreover have "cores s' = cores e"
    using upd_task_cores [OF st(7)] dequeue_cores [OF st(8)] st(9) by (auto simp: unlock_sched_def)
  ultimately show ?thesis using t by simp
qed

lemma yield_of_released:
  assumes c: "c < length (cores s)" "cpu_index c s = Some c" and t: "core_task (cores s ! c) = t" "task_to_free (cores s ! c) = t" "t \<noteq> 0"
  shows "sched_yield c s = None"
proof (rule ccontr)
  assume "sched_yield c s \<noteq> None"
  then obtain a b p d where st: "sched_reap c s = Some a" "lock_sched a = Some b" "current_task c b = Some p" "yield_put_back p b = Some d"
    unfolding sched_yield_def bind_eq_Some_conv not_None_eq by blast
  from st(1) c t obtain e f where r: "upd_core c (task_to_free_update (\<lambda>_. 0)) s = Some e" "free_task t f = Some a" "cores f = cores e"
    by (auto simp: sched_reap_def array_facts bind_eq_Some_conv heap_free_def)
  have "cores e = (cores s)[c := (cores s ! c)\<lparr>task_to_free := 0\<rparr>]" using r(1) c(1) by (auto simp: upd_core_def array_facts)
  moreover have "cores a = cores f" "tasks a t = None" using r(2) by (auto simp: free_task_def heap_free_def bind_eq_Some_conv)
  moreover have "cores b = cores a" "tasks b = tasks a" using st(2) by (auto simp: lock_sched_def bind_eq_Some_conv)
  ultimately have "current_task c b = Some t" "tasks b t = None" using r(3) c(1) t(1) by (simp_all add: current_task_def array_facts)
  then show False using st(3,4) t(3) by (simp add: yield_put_back_def)
qed

lemma pthread_exit_none:
  assumes c: "c < length (cores s)" "cpu_index c s = Some c" "core_task (cores s ! c) \<noteq> 0"
  shows "pthread_exit c v s = None"
proof (cases "exit_task c v s")
  case None
  then show ?thesis by (simp add: pthread_exit_def)
next
  case (Some s')
  note e = exit_task_hands_over [OF c(1,2) Some]
  have i: "cpu_id (cores s' ! c) = cpu_id (cores s ! c)" "length (cores s') = length (cores s)" using e c(1) by simp_all
  then have "cpu_index c s' = Some c" using c(1,2) by (simp add: cpu_index_def sched_getcpu_def array_facts)
  then have "sched_yield c s' = None" using e c(1,3) by (intro yield_of_released [OF _ _ _ refl]) simp_all
  then show ?thesis using Some by (simp add: pthread_exit_def)
qed

section \<open>Join\<close>

text \<open>
  \<open>pthread_join\<close>: a null handle is \<open>EINVAL\<close> and changes nothing; for a thread that has exited the result
  is its return value and the state is as before; otherwise the caller is blocked and becomes the first of
  the tasks that wait for the thread, followed by those that waited before, and the lock is released.
\<close>

theorem pthread_join_correct:
  assumes inv: "sched_inv s q" and c: "c < 2" and cur: "core_task (cores s ! c) = cur" "tasks s cur = Some m"
    and th: "thread \<noteq> 0 \<Longrightarrow> tasks s thread = Some k" "thread \<noteq> cur"
  shows "if thread = 0 then pthread_join c thread s = Some (Join_Error EINVAL, s)
    else if t_state k = TASK_EXITED then pthread_join c thread s = Some (Join_Done (t_ret_value k), s)
    else \<exists>s'. pthread_join c thread s = Some (Join_Wait, s') \<and> sched_lock s' = 0 \<and>
       s' = s\<lparr>tasks := (tasks s)(cur \<mapsto> m\<lparr>t_state := TASK_BLOCKED, t_next := t_join_wait_queue k\<rparr>,
                                thread \<mapsto> k\<lparr>t_join_wait_queue := cur\<rparr>)\<rparr>"
proof -
  have l: "lock_sched s = Some (s\<lparr>sched_lock := 1\<rparr>)" "s\<lparr>sched_lock := 0\<rparr> = s"
    using lock_sched_free sched_invD(2) [OF inv] by auto
  have "current_task c (s\<lparr>sched_lock := 1\<rparr>) = Some cur"
    using sched_inv_core(1) [OF inv c] cur(1) by (simp add: current_task_def)
  then show ?thesis
    using l cur(2) th sched_invD(2) [OF inv]
    by (auto simp: pthread_join_def unlock_sched_def pthread_spin_unlock_def upd_task_def intro: sym)
qed

theorem pthread_join_correct_witness:
  "\<exists>s'. pthread_join 0 0x1000 demo_sched = Some (Join_Wait, s') \<and> state_of s' 0x3000 = Some TASK_BLOCKED \<and>
     map_option t_join_wait_queue (tasks s' 0x1000) = Some 0x3000"
proof -
  let ?m = "demo_task 3 TASK_RUNNING 2 0 0" and ?k = "demo_task 1 TASK_READY 2 0x2000 0"
  have "tasks demo_sched 0x3000 = Some ?m" "tasks demo_sched 0x1000 = Some ?k" "t_state ?k = TASK_READY"
    by (simp_all add: demo_sched_def demo_task_def)
  then show ?thesis
    using pthread_join_correct [OF demo_sched_inv _ demo_core(1), of ?m "0x1000" ?k] by (auto simp: state_of_def)
qed

section \<open>Attributes\<close>

definition attr_valid :: "pthread_attr \<Rightarrow> bool" where
  "attr_valid a \<longleftrightarrow> (is_initialized a \<noteq> 0 \<longrightarrow>
     (detachstate a = 0 \<or> detachstate a = 1) \<and> 4096 \<le> stacksize a \<and> 0 \<le> schedparam a \<and> schedparam a < int COUNT)"

text \<open>Attributes as a program can make them: initialised memory, then any calls with any arguments.\<close>

inductive attr_reach :: "pthread_attr \<Rightarrow> bool" where
  init: "pthread_attr_init (Some r) = (e, Some a) \<Longrightarrow> attr_reach a"
| destroy: "attr_reach r \<Longrightarrow> pthread_attr_destroy (Some r) = (e, Some a) \<Longrightarrow> attr_reach a"
| stacksize: "attr_reach r \<Longrightarrow> pthread_attr_setstacksize (Some r) sz = (e, Some a) \<Longrightarrow> attr_reach a"
| stack: "attr_reach r \<Longrightarrow> pthread_attr_setstack (Some r) addr sz = (e, Some a) \<Longrightarrow> attr_reach a"
| detachstate: "attr_reach r \<Longrightarrow> pthread_attr_setdetachstate (Some r) d = (e, Some a) \<Longrightarrow> attr_reach a"
| schedpolicy: "attr_reach r \<Longrightarrow> pthread_attr_setschedpolicy (Some r) d = (e, Some a) \<Longrightarrow> attr_reach a"
| schedparam: "attr_reach r \<Longrightarrow> pthread_attr_setschedparam (Some r) p = (e, Some a) \<Longrightarrow> attr_reach a"

lemmas attr_setters = pthread_attr_init_def pthread_attr_destroy_def pthread_attr_setstacksize_def
  pthread_attr_setstack_def pthread_attr_setdetachstate_def pthread_attr_setschedpolicy_def
  pthread_attr_setschedparam_def

lemmas attr_getters = pthread_attr_getstacksize_def pthread_attr_getstack_def pthread_attr_getdetachstate_def
  pthread_attr_getschedpolicy_def pthread_attr_getschedparam_def

lemma attr_reach_valid: "attr_reach a \<Longrightarrow> attr_valid a"
  by (induction rule: attr_reach.induct)
    (auto simp: attr_setters attr_valid_def attr_ok_def COUNT_def split: if_splits option.splits)

text \<open>
  C31. The fields of initialised attributes stay in their types whatever calls are made on them: the detach
  state is 0 or 1, the stack has at least a page and the scheduling parameter is a priority, so that
  \<open>pthread_create\<close> takes exactly that priority and always indexes an existing run queue.
\<close>

theorem pthread_attr_typed:
  assumes "attr_reach a"
  shows "attr_valid a \<and> unat (create_priority (Some a) arg s) < COUNT \<and> 4096 \<le> stack_size_of (Some a) \<and>
    (is_initialized a \<noteq> 0 \<and> arg \<noteq> idle_flag_at s \<longrightarrow> unat (create_priority (Some a) arg s) = nat (schedparam a))"
proof -
  have v: "attr_valid a" using assms by (rule attr_reach_valid)
  have "unat (create_priority (Some a) arg s) = nat (schedparam a)" if i: "is_initialized a \<noteq> 0" "arg \<noteq> idle_flag_at s"
  proof -
    have p: "0 \<le> schedparam a" "schedparam a < 5" using v i by (simp_all add: attr_valid_def COUNT_def)
    then have "c_rem (schedparam a) 5 = schedparam a" by (cases "schedparam a = 0") (simp_all add: c_rem_def)
    then show ?thesis
      using i p by (simp add: create_priority_def unat_eq_nat_uint uint_word_of_int_eq take_bit_int_eq_self)
  qed
  moreover have "unat (create_priority (Some a) arg s) < COUNT"
    using v by (intro create_priority_bound) (simp add: attr_valid_def)
  moreover have "4096 \<le> stack_size_of (Some a)" using v by (simp add: stack_size_of_def attr_valid_def)
  ultimately show ?thesis using v by simp
qed

theorem pthread_attr_typed_witness:
  "unat (create_priority (Some (demo_attr\<lparr>stackaddr := 0, schedparam := 4\<rparr>)) 7 demo_sched) = 4"
proof -
  have "attr_reach (demo_attr\<lparr>stackaddr := 0, schedparam := 2\<rparr>)"
    by (rule attr_reach.init [where r = demo_attr]) (simp add: pthread_attr_init_def demo_attr_def)
  then have "attr_reach (demo_attr\<lparr>stackaddr := 0, schedparam := 4\<rparr>)"
    by (rule attr_reach.schedparam [where p = "Some 4"])
      (simp add: pthread_attr_setschedparam_def attr_ok_def demo_attr_def COUNT_def)
  from pthread_attr_typed [OF this, of 7 demo_sched] show ?thesis by (simp add: demo_attr_def demo_sched_def)
qed

text \<open>
  Each attribute that is set to a value in its range is read back by its getter, with result 0 both times;
  a value outside the range is refused with \<open>EINVAL\<close> and the attributes are unchanged.
\<close>

theorem pthread_attr_roundtrip:
  assumes "is_initialized r \<noteq> 0"
  shows "(let (e, a) = pthread_attr_setstacksize (Some r) sz in
       if 4096 \<le> sz then e = 0 \<and> pthread_attr_getstacksize a True = (0, Some sz) else e = EINVAL \<and> a = Some r) \<and>
     (let (e, a) = pthread_attr_setstack (Some r) addr sz in
       if 4096 \<le> sz then e = 0 \<and> pthread_attr_getstack a True True = (0, Some (addr, sz)) else e = EINVAL \<and> a = Some r) \<and>
     (let (e, a) = pthread_attr_setdetachstate (Some r) d in
       if d = 0 \<or> d = 1 then e = 0 \<and> pthread_attr_getdetachstate a True = (0, Some d) else e = EINVAL \<and> a = Some r) \<and>
     (let (e, a) = pthread_attr_setschedpolicy (Some r) d in
       e = 0 \<and> pthread_attr_getschedpolicy a True = (0, Some d)) \<and>
     (let (e, a) = pthread_attr_setschedparam (Some r) (Some d) in
       if 0 \<le> d \<and> d < int COUNT then e = 0 \<and> pthread_attr_getschedparam a True = (0, Some d)
       else e = EINVAL \<and> a = Some r)"
  using assms by (auto simp: attr_setters attr_getters attr_ok_def Let_def)

theorem pthread_attr_roundtrip_witness:
  "pthread_attr_getstacksize (snd (pthread_attr_setstacksize (Some demo_attr) 0x8000)) True = (0, Some 0x8000)"
proof -
  have "is_initialized demo_attr \<noteq> 0" by (simp add: demo_attr_def)
  from pthread_attr_roundtrip [OF this, of "0x8000"] show ?thesis by (simp add: Let_def split_def)
qed

end
