(* ===== verification/Sched_Init.thy ===== *)
theory Sched_Init
  imports Sched
begin

text \<open>
  The state that \<open>sched_init\<close> of \<open>src/src/pthread.c\<close> leaves behind: the invariant of the scheduler holds, with
  empty queues and the boot code as the running task of core 0. The loop of the idle thread.
\<close>

section \<open>The state after initialisation\<close>

definition main_task :: "sched \<Rightarrow> task" where
  "main_task s = zero_task\<lparr>t_id := tid_counter s + 1, t_state := TASK_RUNNING, t_priority := NORMAL\<rparr>"

definition started :: "u64 \<Rightarrow> u64 \<Rightarrow> u64 \<Rightarrow> u64 \<Rightarrow> heap \<Rightarrow> sched \<Rightarrow> sched" where
  "started ttbr1 t st m h s =
     s\<lparr>tasks := (tasks s)(t \<mapsto> new_task None (idle_at s) (idle_flag_at s) st s, m \<mapsto> main_task s),
       runqueues := replicate COUNT 0, runqueues_tail := replicate COUNT 0,
       cores := [\<lparr>cpu_id = 0, core_task = m, task_to_free = task_to_free (cores s ! 0)\<rparr>,
                 \<lparr>cpu_id = 1, core_task = 0, task_to_free = task_to_free (cores s ! 1)\<rparr>],
       tid_counter := tid_counter s + 2, kernel_ttbr1 := ttbr1, kheap := h\<rparr>"

lemma two_cores: "length xs = 2 \<Longrightarrow> xs = [xs ! 0, xs ! 1]"
  by (rule nth_equalityI) (auto simp: less_2_cases_iff)

lemma sched_init_value:
  assumes "length (cores s) = 2"
    and mem: "malloc TASK_SIZE (kheap s) = Some (t, h1)" "t \<noteq> 0" "malloc (4096 * 4) h1 = Some (st1, h2)" "st1 \<noteq> 0"
      "malloc (4096 * 4) h2 = Some (st2, h3)" "st2 \<noteq> 0" "malloc TASK_SIZE h3 = Some (m, h4)" "m \<noteq> 0" "m \<noteq> t"
  shows "sched_init ttbr1 s = Some (started ttbr1 t st2 m h4 s)"
proof -
  define a b where "a = cores s ! 0" and "b = cores s ! 1"
  have cs: "cores s = [a, b]" using two_cores [OF assms(1)] by (simp add: a_def b_def)
  let ?s = "s\<lparr>cores := [a\<lparr>cpu_id := 0, core_task := 0\<rparr>, b\<lparr>cpu_id := 1, core_task := 0\<rparr>],
     runqueues := replicate COUNT 0, runqueues_tail := replicate COUNT 0, kernel_ttbr1 := ttbr1\<rparr>"
  have st: "stack_alloc None h = malloc (4096 * 4) h" for h by (simp add: stack_alloc_def stack_size_of_def)
  have "malloc TASK_SIZE (kheap ?s) = Some (t, h1)" using mem(1) by simp
  from pthread_create_value [OF this mem(2), of None st1 h2 st2 h3 "idle_at s" "idle_flag_at s"] mem(3-6)
  have create: "pthread_create None (idle_at s) (idle_flag_at s) ?s = Some (0, t,
     ?s\<lparr>tid_counter := tid_counter s + 1, kheap := h3,
        tasks := (tasks s)(t \<mapsto> new_task None (idle_at s) (idle_flag_at s) st2 s)\<rparr>)"
    unfolding st by (simp add: create_priority_def new_task_def)
  show ?thesis
    using mem(7-9) create
    by (simp add: sched_init_def upd_core_def cs arr_get_def arr_set_def adopt_running_def heap_malloc_def clear_task_def
        upd_task_def started_def main_task_def)
qed

lemma rq_rep_empty:
  assumes "runqueues s = replicate COUNT 0" "runqueues_tail s = replicate COUNT 0" "active_priorities s = 0"
  shows "rq_rep s (\<lambda>_. [])"
  using assms by (simp add: rq_rep_def tq.linked_def)

lemma sched_init_ok:
  assumes "length (cores s) = 2" "sched_lock s = 0" "active_priorities s = 0"
    and mem: "malloc TASK_SIZE (kheap s) = Some (t, h1)" "t \<noteq> 0" "malloc (4096 * 4) h1 = Some (st1, h2)" "st1 \<noteq> 0"
      "malloc (4096 * 4) h2 = Some (st2, h3)" "st2 \<noteq> 0" "malloc TASK_SIZE h3 = Some (m, h4)" "m \<noteq> 0" "m \<noteq> t"
  shows "\<exists>s'. sched_init ttbr1 s = Some s' \<and> sched_inv s' (\<lambda>_. []) \<and>
     core_task (cores s' ! 0) = m \<and> core_task (cores s' ! 1) = 0 \<and> tasks s' m = Some (main_task s) \<and>
     state_of s' t = Some TASK_READY \<and> prio_of s' t = unat IDLE \<and> tid_counter s' = tid_counter s + 2 \<and>
     kernel_ttbr1 s' = ttbr1 \<and> kheap s' = h4"
proof -
  let ?s = "started ttbr1 t st2 m h4 s"
  have t: "tasks ?s m = Some (main_task s)" "tasks ?s t = Some (new_task None (idle_at s) (idle_flag_at s) st2 s)"
    using mem(9) by (simp_all add: started_def)
  have "rq_rep ?s (\<lambda>_. [])" using assms(3) by (intro rq_rep_empty) (simp_all add: started_def)
  moreover have "running_ok ?s (\<lambda>_. []) m"
    using t(1) by (simp add: running_ok_def state_of_def prio_of_def main_task_def NORMAL_def COUNT_def)
  ultimately have "sched_inv ?s (\<lambda>_. [])"
    using assms(2) mem(8) by (auto simp: sched_inv_def started_def less_2_cases_iff)
  moreover have "state_of ?s t = Some TASK_READY" "prio_of ?s t = unat IDLE"
    using t(2) by (simp_all add: state_of_def prio_of_def new_task_def create_priority_def)
  ultimately show ?thesis
    using sched_init_value [OF assms(1) mem] t(1) by (simp add: started_def)
qed

section \<open>The idle thread\<close>

text \<open>
  When no thread waits, \<open>sched_yield\<close> of a task with priority \<open>IDLE\<close> comes back at once, and the state is what it was.
\<close>

lemma sched_yield_alone:
  assumes inv: "sched_inv s (\<lambda>_. [])" and c: "c < 2" and t: "core_task (cores s ! c) = t" "t \<noteq> 0" "prio_of s t = 0"
    and reap: "task_to_free (cores s ! c) = 0"
  shows "sched_yield c s = Some s"
proof -
  note d = sched_invD [OF inv] and core = sched_inv_core [OF inv c]
  let ?l = "s\<lparr>sched_lock := 1\<rparr>"
  have "running_ok s (\<lambda>_. []) t" using d(7) [OF c] t by simp
  then obtain k where k: "tasks s t = Some k" "t_state k = TASK_RUNNING" by (auto simp: running_ok_def state_of_def)
  then have p: "t_priority k = IDLE" using t(3) by (simp add: prio_of_def IDLE_def unat_eq_0)
  have "\<not> bit (active_priorities s) i" for i using d(1) by (simp add: rq_rep_def)
  then have "active_priorities s = 0" by (simp add: bit_eq_iff)
  moreover have "cpu_index c ?l = Some c" using core(2) by (simp add: cpu_index_def sched_getcpu_def)
  ultimately have "yield_choose c ?l = Some t" using core(3) t(1) by (simp add: yield_choose_def)
  moreover have "yield_put_back t ?l = Some ?l" using k p t(2) by (simp add: yield_put_back_def)
  moreover have "yield_take t ?l = Some ?l"
  proof -
    have "k\<lparr>t_state := TASK_RUNNING\<rparr> = k" using k(2) by (cases k) simp
    moreover have "(tasks s)(t \<mapsto> k) = tasks s" using k(1) by auto
    ultimately show ?thesis using k(1) p t(2) by (simp add: yield_take_def upd_task_def)
  qed
  moreover have "unlock_sched ?l = s" using d(2) by (simp add: unlock_sched_def pthread_spin_unlock_def)
  ultimately show ?thesis using core reap t(1) lock_sched_free [OF d(2)]
    by (simp add: sched_yield_def sched_reap_def current_task_def yield_switch_def)
qed

text \<open>
  \<open>n\<close> rounds of the loop of \<open>idle\<close> on core \<open>c\<close>, by the idle thread \<open>me\<close>: once the core has switched to another
  thread, \<open>sched_yield\<close> has not come back, and the loop goes on only when a core switches to \<open>me\<close> again.
\<close>

primrec idle :: "nat \<Rightarrow> nat \<Rightarrow> u64 \<Rightarrow> sched \<Rightarrow> sched option" where
  "idle 0 c me s = Some s"
| "idle (Suc n) c me s =
     (if core_task (cores s ! c) = me then do { s \<leftarrow> sched_yield c s; idle n c me s } else Some s)"

lemma idle_waits:
  assumes "sched_inv s (\<lambda>_. [])" "c < 2" "core_task (cores s ! c) = t" "t \<noteq> 0" "prio_of s t = 0" "task_to_free (cores s ! c) = 0"
  shows "idle n c t s = Some s"
  using sched_yield_alone [OF assms] by (induction n) simp_all

section \<open>Properties\<close>

text \<open>
  \<open>sched_init\<close>, given memory for the idle thread and for the record of the boot code, establishes the invariant
  of the scheduler from cleared static variables: all queues are empty and the lock is free, core 0 runs the
  boot code as a new task of normal priority, and core 1 has no task. The idle thread exists, ready and with
  the lowest priority, but no queue and no core refers to it: the assignment of the boot task overwrites the
  only reference.
\<close>

theorem sched_init_correct:
  assumes "length (cores s) = 2" "sched_lock s = 0" "active_priorities s = 0"
    and mem: "malloc TASK_SIZE (kheap s) = Some (t, h1)" "t \<noteq> 0" "malloc (4096 * 4) h1 = Some (st1, h2)" "st1 \<noteq> 0"
      "malloc (4096 * 4) h2 = Some (st2, h3)" "st2 \<noteq> 0" "malloc TASK_SIZE h3 = Some (m, h4)" "m \<noteq> 0" "m \<noteq> t"
  shows "\<exists>s'. sched_init ttbr1 s = Some s' \<and> sched_inv s' (\<lambda>_. []) \<and>
     core_task (cores s' ! 0) = m \<and> core_task (cores s' ! 1) = 0 \<and> tasks s' m = Some (main_task s) \<and>
     state_of s' t = Some TASK_READY \<and> prio_of s' t = unat IDLE \<and> tid_counter s' = tid_counter s + 2 \<and>
     kernel_ttbr1 s' = ttbr1 \<and> kheap s' = h4"
  by (rule sched_init_ok [OF assms])

text \<open>A heap of eleven pages with a slab of 512-byte objects that has three of them left.\<close>

definition demo_init_mem :: mem where
  "demo_init_mem = st64 (st64 (st64 (\<lambda>_. 0) 0x50002018 0x50002228) 0x50002228 0x50002428) 0x50002428 0x50002628"

definition demo_init_heap :: "page_info list \<Rightarrow> mem \<Rightarrow> heap" where
  "demo_init_heap md mm = \<lparr>heap_lock = 0, heap_start_addr = 0x50000000, heap_end_addr = 0x5000B000,
     page_metadata = Some ([\<lparr>ptype = 2, pcount = 1\<rparr>, \<lparr>ptype = 2, pcount = 1\<rparr>, \<lparr>ptype = 1, pcount = 1\<rparr>] @ md),
     total_pages = 11,
     caches = map (\<lambda>s. \<lparr>slabs_partial = (if s = 512 then 0x50002000 else 0), slabs_full = 0, slabs_free = 0, obj_size = s\<rparr>)
       slab_sizes,
     caches_at = 0x40080000, hmem = mm\<rparr>"

definition run4 :: "page_info list" where
  "run4 = [\<lparr>ptype = 2, pcount = 4\<rparr>, \<lparr>ptype = 2, pcount = 0\<rparr>, \<lparr>ptype = 2, pcount = 0\<rparr>, \<lparr>ptype = 2, pcount = 0\<rparr>]"

definition free4 :: "page_info list" where "free4 = [\<lparr>ptype = 0, pcount = 0\<rparr>, \<lparr>ptype = 0, pcount = 0\<rparr>, \<lparr>ptype = 0, pcount = 0\<rparr>, \<lparr>ptype = 0, pcount = 0\<rparr>]"

lemma demo_object_malloc:
  assumes "ld64 mm 0x50002018 = p" "ld64 mm p = q" "p \<noteq> 0" "q \<noteq> 0"
  shows "malloc TASK_SIZE (demo_init_heap md mm) =
    Some (p, demo_init_heap md (st32 (st64 mm 0x50002018 q) 0x50002020 (ld32 mm 0x50002020 + 1)))"
proof -
  have "disjoint_blocks 0x50002018 8 0x50002020 4" "disjoint_blocks 0x50002020 4 0x50002018 8"
    by (rule disjoint_no_wrap, simp_all)+
  then show ?thesis
    using assms
    by (simp add: malloc_def TASK_SIZE_def demo_init_heap_def slab_sizes_def lock_heap_def unlock_heap_def
        pthread_spin_lock_def pthread_spin_unlock_def cas_def upt_rec cache_alloc_def cache_slab_def get_kmem_def arr_get_def
        get_free_list_def get_in_use_def set_free_list_def set_in_use_def store64_def store32_def
        ld64_st64_same ld_st_disjoint)
qed

lemma large_malloc:
  assumes "heap_geometry h" "heap_lock h = 0" "first_run (pages h) 4 = Some k"
  shows "malloc (4096 * 4) h = Some (page_idx_to_virt h (of_nat k),
    h\<lparr>page_metadata := Some (set_run k 4 (run_record 4 PAGE_TYPE_LARGE) (pages h))\<rparr>)"
proof -
  let ?l = "h\<lparr>heap_lock := 1\<rparr>"
  have "heap_geometry ?l" "pages ?l = pages h" "page_idx_to_virt ?l = page_idx_to_virt h"
    using assms(1) by (simp_all add: heap_geometry_def pages_def page_idx_to_virt_def fun_eq_iff)
  then show ?thesis
    using alloc_pages_first_fit [of ?l 4 PAGE_TYPE_LARGE] assms(2,3)
    by (simp add: malloc_def lock_heap_def unlock_heap_def pthread_spin_lock_def pthread_spin_unlock_def cas_def alloc_result_def)
qed

lemma demo_first_run:
  "first_run (pages (demo_init_heap (free4 @ free4) mm)) 4 = Some 3"
  "first_run (pages (demo_init_heap (run4 @ free4) mm)) 4 = Some 7"
proof -
  note defs = pages_def demo_init_heap_def free4_def run4_def run_free_def free_page_def page_types numeral_eq_Suc
  show "first_run (pages (demo_init_heap (free4 @ free4) mm)) 4 = Some 3"
    by (rule first_run_Some) (auto simp: defs less_Suc_eq atLeastLessThan_upt)
  show "first_run (pages (demo_init_heap (run4 @ free4) mm)) 4 = Some 7"
    by (rule first_run_Some) (auto simp: defs less_Suc_eq atLeastLessThan_upt)
qed

lemma demo_stack_malloc:
  "malloc (4096 * 4) (demo_init_heap (free4 @ free4) mm) = Some (0x50003000, demo_init_heap (run4 @ free4) mm)"
  "malloc (4096 * 4) (demo_init_heap (run4 @ free4) mm) = Some (0x50007000, demo_init_heap (run4 @ run4) mm)"
proof -
  have g: "heap_geometry (demo_init_heap md mm)" if "length md = 8" for md
    using that by (simp add: heap_geometry_def demo_init_heap_def)
  have l: "length (free4 @ free4) = 8" "length (run4 @ free4) = 8" by (simp_all add: free4_def run4_def)
  have s: "set_run 3 4 (run_record 4 PAGE_TYPE_LARGE) (pages (demo_init_heap (free4 @ free4) mm)) =
      pages (demo_init_heap (run4 @ free4) mm)"
    "set_run 7 4 (run_record 4 PAGE_TYPE_LARGE) (pages (demo_init_heap (run4 @ free4) mm)) =
      pages (demo_init_heap (run4 @ run4) mm)"
    by (simp_all add: set_run_def run_record_def pages_def demo_init_heap_def free4_def run4_def page_types upt_rec)
  show "malloc (4096 * 4) (demo_init_heap (free4 @ free4) mm) = Some (0x50003000, demo_init_heap (run4 @ free4) mm)"
    using large_malloc [OF g [OF l(1)] _ demo_first_run(1)] unfolding s(1)
    by (simp add: page_idx_to_virt_def) (simp add: demo_init_heap_def pages_def)
  show "malloc (4096 * 4) (demo_init_heap (run4 @ free4) mm) = Some (0x50007000, demo_init_heap (run4 @ run4) mm)"
    using large_malloc [OF g [OF l(2)] _ demo_first_run(2)] unfolding s(2)
    by (simp add: page_idx_to_virt_def) (simp add: demo_init_heap_def pages_def)
qed

lemma demo_init_objects:
  "ld64 demo_init_mem 0x50002018 = 0x50002228" "ld64 demo_init_mem 0x50002228 = 0x50002428"
  "ld64 demo_init_mem 0x50002428 = 0x50002628"
  unfolding demo_init_mem_def by (simp_all add: words64.rd_wr aligned8_def)

theorem sched_init_correct_witness:
  "\<exists>s'. sched_init 0x40500000 (demo_sched\<lparr>tasks := Map.empty, active_priorities := 0,
       kheap := demo_init_heap (free4 @ free4) demo_init_mem\<rparr>) = Some s' \<and> sched_inv s' (\<lambda>_. []) \<and>
     core_task (cores s' ! 0) = 0x50002428 \<and> state_of s' 0x50002228 = Some TASK_READY \<and> tid_counter s' = 6"
proof -
  let ?s = "demo_sched\<lparr>tasks := Map.empty, active_priorities := 0, kheap := demo_init_heap (free4 @ free4) demo_init_mem\<rparr>"
  let ?m1 = "st32 (st64 demo_init_mem 0x50002018 0x50002428) 0x50002020 (ld32 demo_init_mem 0x50002020 + 1)"
  have d: "disjoint_blocks 0x50002020 4 0x50002018 8" "disjoint_blocks 0x50002020 4 0x50002428 8"
    by (rule disjoint_no_wrap, simp_all)+
  have "ld64 ?m1 0x50002018 = 0x50002428" "ld64 ?m1 0x50002428 = 0x50002628"
    using d by (simp_all add: ld_st_disjoint words64.rd_wr aligned8_def demo_init_objects)
  from demo_object_malloc [OF this] demo_object_malloc [OF demo_init_objects(1,2)] obtain h4 where
    m: "malloc TASK_SIZE (kheap ?s) = Some (0x50002228, demo_init_heap (free4 @ free4) ?m1)"
      "malloc TASK_SIZE (demo_init_heap (run4 @ run4) ?m1) = Some (0x50002428, h4)" by auto
  have s: "length (cores ?s) = 2" "sched_lock ?s = 0" "active_priorities ?s = 0" "tid_counter ?s = 4" by (simp_all add: demo_sched_def)
  from sched_init_correct [OF s(1-3) m(1) _ demo_stack_malloc(1) _ demo_stack_malloc(2) _ m(2)] s(4) show ?thesis
    by auto
qed

end
