(* ===== verification/Cstring.thy ===== *)
theory Cstring
  imports Cmem
begin

text \<open>
  The string functions of \<open>src/src/string.c\<close> over the byte memory. Strings are zero-terminated; a loop that
  looks for the terminator does not end when there is none, which is the value \<^term>\<open>None\<close>. A \<open>char\<close> is an
  unsigned byte, as on AArch64. Loops bounded by a count run on that count.
\<close>

section \<open>The operations\<close>

text \<open>\<open>while (*d) d++;\<close> and \<open>while ((*d++ = *s++) != '\0');\<close>, which leaves \<open>d\<close> behind the terminator.\<close>

partial_function (option) skip_string :: "mem \<Rightarrow> u64 \<Rightarrow> u64 option" where
  "skip_string m d = (if m d \<noteq> 0 then skip_string m (d + 1) else Some d)"

partial_function (option) copy_string :: "mem \<Rightarrow> u64 \<Rightarrow> u64 \<Rightarrow> (u64 \<times> mem) option" where
  "copy_string m d s =
     (let m' = m(d := m s) in
      if m s \<noteq> 0 then copy_string m' (d + 1) (s + 1) else Some (d + 1, m'))"

definition stpcpy :: "u64 \<Rightarrow> u64 \<Rightarrow> mem \<Rightarrow> (u64 \<times> mem) option" where
  "stpcpy s1 s2 m = do { (d, m) \<leftarrow> copy_string m s1 s2; Some (d - 1, m) }"

text \<open>The copying loop of \<open>stpncpy\<close>: the rest of the count, the place reached and the memory.\<close>

primrec stpncpy_copy :: "nat \<Rightarrow> mem \<Rightarrow> u64 \<Rightarrow> u64 \<Rightarrow> nat \<times> u64 \<times> mem" where
  "stpncpy_copy 0 m d s = (0, d, m)"
| "stpncpy_copy (Suc k) m d s =
     (if m s \<noteq> 0 then stpncpy_copy k (m(d := m s)) (d + 1) (s + 1) else (Suc k, d, m))"

definition stpncpy :: "u64 \<Rightarrow> u64 \<Rightarrow> u64 \<Rightarrow> mem \<Rightarrow> u64 \<times> mem" where
  "stpncpy s1 s2 n m =
     (let (k, d, m) = stpncpy_copy (unat n) m s1 s2 in (s1 + n, memset_tail 0 k m d))"

definition strcat :: "u64 \<Rightarrow> u64 \<Rightarrow> mem \<Rightarrow> (u64 \<times> mem) option" where
  "strcat s1 s2 m = do {
     d \<leftarrow> skip_string m s1;
     (_, m) \<leftarrow> copy_string m d s2;
     Some (s1, m)
   }"

text \<open>
  \<open>strlcat\<close>, whose counter is an \<open>int\<close> that must not overflow; it returns no value.
\<close>

partial_function (option) strlcat_skip :: "mem \<Rightarrow> u64 \<Rightarrow> int \<Rightarrow> u64 \<Rightarrow> (u64 \<times> int) option" where
  "strlcat_skip m d i n =
     (if m d \<noteq> 0 then
        Option.bind (guard (i < 2147483647))
          (\<lambda>_. if i < uint n then strlcat_skip m (d + 1) (i + 1) n else Some (d, i + 1))
      else Some (d, i))"

partial_function (option) strlcat_copy :: "mem \<Rightarrow> u64 \<Rightarrow> u64 \<Rightarrow> int \<Rightarrow> u64 \<Rightarrow> mem option" where
  "strlcat_copy m d s i n =
     (let m' = m(d := m s) in
      if m s \<noteq> 0 then
        Option.bind (guard (i < 2147483647))
          (\<lambda>_. if i < uint n then strlcat_copy m' (d + 1) (s + 1) (i + 1) n else Some m')
      else Some m')"

definition strlcat :: "u64 \<Rightarrow> u64 \<Rightarrow> u64 \<Rightarrow> mem \<Rightarrow> mem option" where
  "strlcat destination source n m = do {
     (d, i) \<leftarrow> strlcat_skip m destination 0 n;
     strlcat_copy m d source i n
   }"

text \<open>Searching: null is 0.\<close>

partial_function (option) strchr_loop :: "mem \<Rightarrow> u64 \<Rightarrow> u8 \<Rightarrow> u64 option" where
  "strchr_loop m s c = (if m s = c then Some s else if m s = 0 then Some 0 else strchr_loop m (s + 1) c)"

definition strchr :: "u64 \<Rightarrow> u32 \<Rightarrow> mem \<Rightarrow> u64 option" where
  "strchr s c m = strchr_loop m s (ucast c)"

partial_function (option) strrchr_loop :: "mem \<Rightarrow> u64 \<Rightarrow> u8 \<Rightarrow> u64 \<Rightarrow> u64 option" where
  "strrchr_loop m p c found =
     (let found = (if m p = c then p else found) in if m p = 0 then Some found else strrchr_loop m (p + 1) c found)"

definition strrchr :: "u64 \<Rightarrow> u32 \<Rightarrow> mem \<Rightarrow> u64 option" where
  "strrchr str c m = strrchr_loop m str (ucast c) 0"

text \<open>Comparing: a null pointer counts as the empty string.\<close>

definition string_byte :: "mem \<Rightarrow> u64 \<Rightarrow> u64 \<Rightarrow> u8" where
  "string_byte m s i = (if s = 0 then 0 else m (s + i))"

partial_function (option) strcmp_loop :: "mem \<Rightarrow> u64 \<Rightarrow> u64 \<Rightarrow> u64 \<Rightarrow> int option" where
  "strcmp_loop m s1 s2 i =
     (let a = string_byte m s1 i; b = string_byte m s2 i in
      if a \<noteq> 0 \<and> a = b then strcmp_loop m s1 s2 (i + 1) else Some (uint a - uint b))"

definition strcmp :: "u64 \<Rightarrow> u64 \<Rightarrow> mem \<Rightarrow> int option" where
  "strcmp s1 s2 m = strcmp_loop m s1 s2 0"

primrec strncmp_loop :: "nat \<Rightarrow> mem \<Rightarrow> u64 \<Rightarrow> u64 \<Rightarrow> u64 \<Rightarrow> int" where
  "strncmp_loop 0 m s1 s2 i = 0"
| "strncmp_loop (Suc k) m s1 s2 i =
     (let a = string_byte m s1 i; b = string_byte m s2 i in
      if a \<noteq> b then uint a - uint b else if a = 0 then 0 else strncmp_loop k m s1 s2 (i + 1))"

definition strncmp :: "u64 \<Rightarrow> u64 \<Rightarrow> u64 \<Rightarrow> mem \<Rightarrow> int" where
  "strncmp s1 s2 n m = strncmp_loop (unat n) m s1 s2 0"

partial_function (option) strcspn_inner :: "mem \<Rightarrow> u64 \<Rightarrow> u8 \<Rightarrow> bool option" where
  "strcspn_inner m r c = (if m r \<noteq> 0 then if c = m r then Some True else strcspn_inner m (r + 1) c else Some False)"

partial_function (option) strcspn_loop :: "mem \<Rightarrow> u64 \<Rightarrow> u64 \<Rightarrow> u64 option" where
  "strcspn_loop m s reject =
     (if m s \<noteq> 0 then
        Option.bind (strcspn_inner m reject (m s)) (\<lambda>hit. if hit then Some s else strcspn_loop m (s + 1) reject)
      else Some s)"

definition strcspn :: "u64 \<Rightarrow> u64 \<Rightarrow> mem \<Rightarrow> u64 option" where
  "strcspn str reject m = do { s \<leftarrow> strcspn_loop m str reject; Some (s - str) }"

definition strcpy :: "u64 \<Rightarrow> u64 \<Rightarrow> mem \<Rightarrow> (u64 \<times> mem) option" where
  "strcpy dest src m = do { (_, m) \<leftarrow> copy_string m dest src; Some (dest, m) }"

text \<open>Lengths.\<close>

partial_function (option) strlen_loop :: "mem \<Rightarrow> u64 \<Rightarrow> u64 \<Rightarrow> u64 option" where
  "strlen_loop m s ret = (if m (s + ret) \<noteq> 0 then strlen_loop m s (ret + 1) else Some ret)"

definition strlen :: "u64 \<Rightarrow> mem \<Rightarrow> u64 option" where
  "strlen s m = strlen_loop m s 0"

partial_function (option) strnlen_loop :: "mem \<Rightarrow> u64 \<Rightarrow> u64 \<Rightarrow> u64 \<Rightarrow> u64 option" where
  "strnlen_loop m s maxlen ret =
     (if m (s + ret) \<noteq> 0 \<and> ret \<le> maxlen then strnlen_loop m s maxlen (ret + 1) else Some ret)"

definition strnlen :: "u64 \<Rightarrow> u64 \<Rightarrow> mem \<Rightarrow> u64 option" where
  "strnlen s maxlen m = strnlen_loop m s maxlen 0"

text \<open>\<open>while (n && (*d++ = *src++)) n--;\<close> in \<open>strncat\<close> and \<open>strncpy\<close>.\<close>

primrec copy_bounded :: "nat \<Rightarrow> mem \<Rightarrow> u64 \<Rightarrow> u64 \<Rightarrow> nat \<times> u64 \<times> mem" where
  "copy_bounded 0 m d s = (0, d, m)"
| "copy_bounded (Suc k) m d s =
     (if m s \<noteq> 0 then copy_bounded k (m(d := m s)) (d + 1) (s + 1) else (Suc k, d + 1, m(d := 0)))"

definition strncat :: "u64 \<Rightarrow> u64 \<Rightarrow> u64 \<Rightarrow> mem \<Rightarrow> (u64 \<times> mem) option" where
  "strncat dest src n m = do {
     l \<leftarrow> strlen dest m;
     let (k, d, m) = copy_bounded (unat n) m (dest + l) src;
     Some (dest, if k \<noteq> 0 then m(d := 0) else m)
   }"

definition strncpy :: "u64 \<Rightarrow> u64 \<Rightarrow> u64 \<Rightarrow> mem \<Rightarrow> u64 \<times> mem" where
  "strncpy dest src n m =
     (let (k, d, m) = copy_bounded (unat n) m dest src in (dest, memset_tail 0 (k - 1) m d))"

text \<open>
  \<open>strtok_r\<close>: the token, the pointer saved for the next call and the memory. The two loops pass over
  delimiters and over other characters.
\<close>

partial_function (option) skip_delim :: "bool \<Rightarrow> mem \<Rightarrow> u64 \<Rightarrow> u64 \<Rightarrow> u64 option" where
  "skip_delim want m str delim =
     (if m str \<noteq> 0 then
        Option.bind (strchr delim (ucast (m str)) m)
          (\<lambda>p. if (p \<noteq> 0) = want then skip_delim want m (str + 1) delim else Some str)
      else Some str)"

definition strtok_r :: "u64 \<Rightarrow> u64 \<Rightarrow> u64 \<Rightarrow> mem \<Rightarrow> (u64 \<times> u64 \<times> mem) option" where
  "strtok_r str delim saveptr m =
     (let str = (if str = 0 then saveptr else str) in
      if str = 0 then Some (0, saveptr, m)
      else do {
        str \<leftarrow> skip_delim True m str delim;
        if m str = 0 then Some (0, saveptr, m)
        else do {
          let start = str;
          str \<leftarrow> skip_delim False m str delim;
          Some (if m str \<noteq> 0 then (start, str + 1, m(str := 0)) else (start, str, m))
        }
      })"

section \<open>Strings in memory\<close>

text \<open>The bytes \<open>xs\<close>, none of them zero, lie at \<open>a\<close> and are followed by the terminator.\<close>

primrec cstr :: "mem \<Rightarrow> u64 \<Rightarrow> u8 list \<Rightarrow> bool" where
  "cstr m a [] \<longleftrightarrow> m a = 0"
| "cstr m a (x # xs) \<longleftrightarrow> m a = x \<and> x \<noteq> 0 \<and> cstr m (a + 1) xs"

lemma cstr_append: "cstr m a (xs @ ys) \<longleftrightarrow>
  (\<forall>k < length xs. m (a + of_nat k) = xs ! k) \<and> 0 \<notin> set xs \<and> cstr m (a + of_nat (length xs)) ys"
proof (induction xs arbitrary: a)
  case (Cons x xs)
  have "(\<forall>k < length (x # xs). m (a + of_nat k) = (x # xs) ! k) \<longleftrightarrow>
      m a = x \<and> (\<forall>k < length xs. m (a + 1 + of_nat k) = xs ! k)"
    by (auto simp: less_Suc_eq_0_disj add.assoc)
  then show ?case using Cons by (auto simp: add.assoc)
qed simp

lemma cstr_iff: "cstr m a xs \<longleftrightarrow>
  (\<forall>k < length xs. m (a + of_nat k) = xs ! k) \<and> 0 \<notin> set xs \<and> m (a + of_nat (length xs)) = 0"
  using cstr_append [of m a xs "[]"] by simp

lemma cstr_cong: "cstr m a xs \<Longrightarrow> (\<And>x. in_block a (length xs + 1) x \<Longrightarrow> m' x = m x) \<Longrightarrow> length xs < 2 ^ 64 \<Longrightarrow> cstr m' a xs"
  unfolding cstr_iff using in_block_offset [of _ "length xs + 1" a] by auto

text \<open>A string has one reading.\<close>

lemma cstr_unique: "cstr m a xs \<Longrightarrow> cstr m a ys \<Longrightarrow> xs = ys"
proof (induction xs arbitrary: a ys)
  case Nil
  then show ?case by (cases ys) auto
next
  case (Cons x xs)
  then show ?case by (cases ys) auto
qed

lemma skip_string_cstr: "cstr m a xs \<Longrightarrow> skip_string m a = Some (a + of_nat (length xs))"
  by (induction xs arbitrary: a) (simp_all add: skip_string.simps add.assoc)

lemma strlen_loop_cstr: "cstr m (s + r) xs \<Longrightarrow> strlen_loop m s r = Some (r + of_nat (length xs))"
proof (induction xs arbitrary: r)
  case (Cons x xs)
  then show ?case using Cons.IH [of "r + 1"] by (simp add: strlen_loop.simps [of m s r] add.assoc)
qed (simp add: strlen_loop.simps)

lemma strlen_cstr: "cstr m s xs \<Longrightarrow> strlen s m = Some (of_nat (length xs))"
  using strlen_loop_cstr [of m s 0 xs] by (simp add: strlen_def)

text \<open>Copying a string with its terminator copies the block.\<close>

lemma copy_string_cstr:
  "cstr m s xs \<Longrightarrow> length xs < 2 ^ 64 \<Longrightarrow> disjoint_blocks d (length xs + 1) s (length xs + 1) \<Longrightarrow>
   copy_string m d s = Some (d + of_nat (length xs) + 1, copied m d s (length xs + 1))"
proof (induction xs arbitrary: m d s)
  case Nil
  then show ?case using copied_one [of m d s] by (simp add: copy_string.simps [of m d s] Let_def)
next
  case (Cons x xs)
  let ?n = "length xs + 1"
  have sub: "disjoint_blocks d 1 (s + of_nat 1) ?n" "disjoint_blocks (d + of_nat 1) ?n (s + of_nat 1) ?n"
    using disjoint_blocks_sub [of d 1 ?n s] Cons.prems(2,3) by simp_all
  have "s + 1 + of_nat k \<noteq> d" if "k < ?n" for k
    using sub(1) in_block_offset [of k ?n "s + 1"] that Cons.prems(2) by (auto simp: disjoint_blocks_def)
  moreover have "cstr m (s + 1) xs" using Cons.prems(1) by simp
  ultimately have str: "cstr (m(d := m s)) (s + 1) xs" by (auto simp: cstr_iff)
  have "copy_string (m(d := m s)) (d + 1) (s + 1) =
      Some (d + 1 + of_nat (length xs) + 1, copied (m(d := m s)) (d + 1) (s + 1) ?n)"
    by (rule Cons.IH [OF str]) (use Cons.prems(2) sub(2) in simp_all)
  moreover have "copy_string m d s = copy_string (m(d := m s)) (d + 1) (s + 1)"
    using Cons.prems(1) by (subst copy_string.simps) (simp add: Let_def)
  moreover have "copied (m(d := m s)) (d + 1) (s + 1) ?n = copied m d s (length (x # xs) + 1)"
    using copied_add [of 1 ?n d s m] sub(1) Cons.prems(2) by (simp add: copied_one)
  ultimately show ?case by (simp add: add.assoc add.commute)
qed

lemma cstr_copied:
  assumes "cstr m s xs" "length xs < 2 ^ 64"
  shows "cstr (copied m d s (length xs + 1)) d xs"
  using assms in_block_offset [of _ "length xs + 1" d] unfolding cstr_iff by (auto simp: copied_def)

section \<open>Searching and comparing\<close>

lemma strchr_loop_cstr:
  "cstr m s xs \<Longrightarrow> c \<noteq> 0 \<Longrightarrow>
   strchr_loop m s c = Some (if c \<in> set xs then s + of_nat (length (takeWhile (\<lambda>x. x \<noteq> c) xs)) else 0)"
proof (induction xs arbitrary: s)
  case (Cons x xs)
  then show ?case using Cons.IH [of "s + 1"] by (auto simp: strchr_loop.simps [of m s c] add.assoc)
qed (simp add: strchr_loop.simps)

lemma strchr_found:
  assumes "cstr m s xs" "c \<noteq> 0" "s \<noteq> 0" "unat s + length xs < 2 ^ 64"
  shows "\<exists>p. strchr s (ucast c) m = Some p \<and> (p \<noteq> 0 \<longleftrightarrow> c \<in> set xs)"
proof -
  let ?k = "length (takeWhile (\<lambda>x. x \<noteq> c) xs)"
  have "?k \<le> length xs" by (rule length_takeWhile_le)
  then have "unat (s + of_nat ?k) = unat s + ?k"
    using assms(4) by (simp add: unat_word_ariths unat_of_nat)
  moreover have "unat s \<noteq> 0" using assms(3) by (simp add: unat_eq_0)
  ultimately have "s + of_nat ?k \<noteq> 0" by (metis add_is_0 unat_0)
  moreover have "ucast (ucast c :: u32) = c" by (rule bit_word_eqI) (simp add: bit_simps)
  ultimately show ?thesis
    using strchr_loop_cstr [OF assms(1,2)] by (auto simp: strchr_def)
qed

lemma strrchr_loop_cstr:
  "cstr m s xs \<Longrightarrow> c \<noteq> 0 \<Longrightarrow> strrchr_loop m s c p =
     Some (if c \<in> set xs then s + of_nat (length xs - 1 - length (takeWhile (\<lambda>x. x \<noteq> c) (rev xs))) else p)"
proof (induction xs arbitrary: s p)
  case (Cons x xs)
  show ?case
  proof (cases "c \<in> set xs")
    case True
    let ?k = "length (takeWhile (\<lambda>x. x \<noteq> c) (rev xs))"
    have "takeWhile (\<lambda>x. x \<noteq> c) (rev (x # xs)) = takeWhile (\<lambda>x. x \<noteq> c) (rev xs)"
      using True by (simp add: takeWhile_append1 [of c])
    moreover have "?k < length xs"
    proof -
      have "takeWhile (\<lambda>x. x \<noteq> c) (rev xs) \<noteq> rev xs" using True by (auto simp: takeWhile_eq_all_conv)
      then show ?thesis
        using takeWhile_dropWhile_id [of "\<lambda>x. x \<noteq> c" "rev xs"] length_takeWhile_le [of "\<lambda>x. x \<noteq> c" "rev xs"]
        by (metis append_self_conv append_eq_conv_conj le_neq_implies_less length_rev)
    qed
    ultimately show ?thesis
      using Cons.IH [of "s + 1"] Cons.prems True
      by (simp add: strrchr_loop.simps [of m s c p] Let_def add.assoc of_nat_diff)
  next
    case False
    then have "takeWhile (\<lambda>x. x \<noteq> c) (rev xs) = rev xs" by (auto simp: takeWhile_eq_all_conv)
    then have "takeWhile (\<lambda>x. x \<noteq> c) (rev (x # xs)) = (if x = c then rev xs else rev (x # xs))"
      by (simp add: takeWhile_append)
    then have "length (x # xs) - 1 - length (takeWhile (\<lambda>x. x \<noteq> c) (rev (x # xs))) = 0" by simp
    then show ?thesis
      using Cons.IH [of "s + 1"] Cons.prems False by (auto simp: strrchr_loop.simps [of m s c p] Let_def)
  qed
qed (simp add: strrchr_loop.simps Let_def)

lemma strcspn_inner_cstr: "cstr m r ys \<Longrightarrow> strcspn_inner m r c = Some (c \<in> set ys)"
  by (induction ys arbitrary: r) (auto simp: strcspn_inner.simps)

lemma strcspn_loop_cstr:
  "cstr m s xs \<Longrightarrow> cstr m r ys \<Longrightarrow>
   strcspn_loop m s r = Some (s + of_nat (length (takeWhile (\<lambda>x. x \<notin> set ys) xs)))"
proof (induction xs arbitrary: s)
  case (Cons x xs)
  then show ?case
    using Cons.IH [of "s + 1"] strcspn_inner_cstr [of m r ys x] by (simp add: strcspn_loop.simps [of m s] add.assoc)
qed (simp add: strcspn_loop.simps)

text \<open>The reference order: the difference at the first place where the strings, with their ends, differ.\<close>

lemma strcmp_loop_cstr:
  "cstr (string_byte m s1) i xs \<Longrightarrow> cstr (string_byte m s2) i ys \<Longrightarrow>
   strcmp_loop m s1 s2 i = Some (first_diff (xs @ [0]) (ys @ [0]))"
proof (induction xs arbitrary: i ys)
  case Nil
  then show ?case by (cases ys) (simp_all add: strcmp_loop.simps [of m s1 s2 i] Let_def)
next
  case (Cons x xs)
  then show ?case using Cons.IH [of "i + 1"] by (cases ys) (auto simp: strcmp_loop.simps [of m s1 s2 i] Let_def)
qed

lemma first_diff_ends:
  "0 \<notin> set xs \<Longrightarrow> 0 \<notin> set ys \<Longrightarrow> first_diff (xs @ [0]) (ys @ [0]) = 0 \<longleftrightarrow> xs = ys"
  "0 \<notin> set xs \<Longrightarrow> 0 \<notin> set ys \<Longrightarrow> first_diff (xs @ [0]) (ys @ [0]) < 0 \<longleftrightarrow> (xs, ys) \<in> lexord {(x, y). x < y}"
proof (induction xs arbitrary: ys)
  case Nil
  {
    case 1
    then show ?case by (cases ys) (auto simp: word_uint_eq_iff)
  next
    case 2
    then show ?case by (cases ys) (auto simp: word_less_def word_neq_0_conv)
  }
next
  case (Cons x xs)
  {
    case 1
    then show ?case using Cons.IH(1) by (cases ys) (auto simp: word_uint_eq_iff)
  next
    case 2
    then show ?case using Cons.IH(2) by (cases ys) (auto simp: word_less_def)
  }
qed

definition string_arg :: "mem \<Rightarrow> u64 \<Rightarrow> u8 list \<Rightarrow> bool" where
  "string_arg m s xs \<longleftrightarrow> (if s = 0 then xs = [] else cstr m s xs)"

lemma string_arg_bytes: "string_arg m s xs \<Longrightarrow> cstr (string_byte m s) 0 xs"
  by (auto simp: string_arg_def cstr_iff string_byte_def split: if_splits)

section \<open>Bounded lengths and tokens\<close>

lemma strnlen_loop_cstr:
  assumes "unat maxlen + 1 < 2 ^ 64"
  shows "cstr m (s + r) xs \<Longrightarrow> unat r \<le> unat maxlen + 1 \<Longrightarrow>
    strnlen_loop m s maxlen r = Some (of_nat (min (unat r + length xs) (unat maxlen + 1)))"
proof (induction xs arbitrary: r)
  case Nil
  then show ?case by (simp add: strnlen_loop.simps [of m s] min_absorb1)
next
  case (Cons x xs)
  show ?case
  proof (cases "r \<le> maxlen")
    case True
    then have "unat (r + 1) = unat r + 1"
      using assms unat_inc [of r] by (simp add: word_le_nat_alt)
    then show ?thesis
      using Cons.IH [of "r + 1"] Cons.prems True
      by (simp add: strnlen_loop.simps [of m s maxlen r] word_le_nat_alt add.assoc)
  next
    case False
    then have "unat r = unat maxlen + 1" using Cons.prems(2) by (simp add: word_le_nat_alt)
    then have "min (unat r + length (x # xs)) (unat maxlen + 1) = unat r" by simp
    then have "of_nat (min (unat r + length (x # xs)) (unat maxlen + 1)) = (of_nat (unat r) :: u64)"
      by (rule arg_cong)
    moreover have "(of_nat (unat r) :: u64) = r" by simp
    ultimately have "of_nat (min (unat r + length (x # xs)) (unat maxlen + 1)) = r" by (rule trans)
    then show ?thesis using False by (simp add: strnlen_loop.simps [of m s maxlen r])
  qed
qed

lemma skip_delim_cstr:
  assumes "cstr m delim ds" "delim \<noteq> 0" "unat delim + length ds < 2 ^ 64"
  shows "cstr m s xs \<Longrightarrow>
    skip_delim want m s delim = Some (s + of_nat (length (takeWhile (\<lambda>x. (x \<in> set ds) = want) xs)))"
proof (induction xs arbitrary: s)
  case (Cons x xs)
  then obtain p where "strchr delim (ucast x) m = Some p" "p \<noteq> 0 \<longleftrightarrow> x \<in> set ds"
    using strchr_found [OF assms(1) _ assms(2,3), of x] by auto
  then show ?case
    using Cons.prems Cons.IH [of "s + 1"] by (simp add: skip_delim.simps [of want m s] add.assoc)
qed (simp add: skip_delim.simps)

lemma of_nat_neq: "j < 2 ^ 64 \<Longrightarrow> k < 2 ^ 64 \<Longrightarrow> j \<noteq> k \<Longrightarrow> (a :: u64) + of_nat j \<noteq> a + of_nat k"
proof
  assume j: "j < 2 ^ 64" "k < 2 ^ 64" "j \<noteq> k" and "a + of_nat j = a + of_nat k"
  then have "(of_nat j :: u64) = of_nat k" by simp
  then have "unat (of_nat j :: u64) = unat (of_nat k :: u64)" by simp
  then show False using j by (simp add: unat_of_nat)
qed

text \<open>Cutting a string by writing a terminator into it.\<close>

lemma cstr_cut:
  assumes "cstr m a (xs @ y # ys)" "length (xs @ y # ys) < 2 ^ 64"
  shows "cstr (m(a + of_nat (length xs) := 0)) a xs" "cstr (m(a + of_nat (length xs) := 0)) (a + of_nat (length xs) + 1) ys"
proof -
  have x: "\<forall>k < length xs. m (a + of_nat k) = xs ! k" "0 \<notin> set xs" "cstr m (a + of_nat (length xs) + 1) ys"
    using assms(1) unfolding cstr_append by auto
  have "a + of_nat k \<noteq> a + of_nat (length xs)" if "k < length xs" for k
    using that assms(2) by (intro of_nat_neq) simp_all
  then show "cstr (m(a + of_nat (length xs) := 0)) a xs" using x(1,2) unfolding cstr_iff by simp
  have "a + of_nat (length xs) + 1 + of_nat k \<noteq> a + of_nat (length xs)" if "k < length ys + 1" for k
    using of_nat_neq [of "length xs + 1 + k" "length xs" a] that assms(2) by (simp add: add.assoc)
  then show "cstr (m(a + of_nat (length xs) := 0)) (a + of_nat (length xs) + 1) ys"
    using x(3) unfolding cstr_iff by auto
qed

section \<open>Properties\<close>

lemma strcpy_ok:
  assumes "cstr m s xs" "length xs < 2 ^ 64" "disjoint_blocks d (length xs + 1) s (length xs + 1)"
  shows "\<exists>m'. strcpy d s m = Some (d, m') \<and> cstr m' d xs \<and> (\<forall>x. \<not> in_block d (length xs + 1) x \<longrightarrow> m' x = m x)"
  using copy_string_cstr [OF assms] cstr_copied [OF assms(1,2)] copied_out by (simp add: strcpy_def)

text \<open>
  \<open>strcat\<close> appends: with room for both strings at the target and a source that does not overlap it, the
  call returns the target, which then holds the concatenation with its terminator, and no byte changes
  outside the part of the target behind its old contents.
\<close>

theorem strcat_correct:
  assumes "cstr m d xs" "cstr m s ys" "length xs + length ys < 2 ^ 64 - 1"
    "disjoint_blocks d (length xs + length ys + 1) s (length ys + 1)"
  shows "\<exists>m'. strcat d s m = Some (d, m') \<and> cstr m' d (xs @ ys) \<and>
    (\<forall>x. \<not> in_block (d + of_nat (length xs)) (length ys + 1) x \<longrightarrow> m' x = m x)"
proof -
  let ?e = "d + of_nat (length xs)" and ?n = "length ys + 1"
  have sum: "length xs + ?n \<le> 2 ^ 64" "length ys < 2 ^ 64" using assms(3) by simp_all
  have dis: "disjoint_blocks ?e ?n s ?n"
    using assms(4) in_block_add [OF sum(1), of d] by (auto simp: disjoint_blocks_def)
  have "strcat d s m = Some (d, copied m ?e s ?n)"
    using skip_string_cstr [OF assms(1)] copy_string_cstr [OF assms(2) sum(2) dis] by (simp add: strcat_def)
  moreover have "cstr (copied m ?e s ?n) ?e ys" by (rule cstr_copied [OF assms(2) sum(2)])
  moreover have "copied m ?e s ?n (d + of_nat k) = m (d + of_nat k)" if "k < length xs" for k
  proof (rule copied_out)
    have "d + of_nat k \<noteq> ?e + of_nat j" if "j < ?n" for j
      using of_nat_neq [of k "length xs + j" d] \<open>k < length xs\<close> that sum by (simp add: add.assoc)
    then show "\<not> in_block ?e ?n (d + of_nat k)" by (meson in_blockE)
  qed
  ultimately show ?thesis using assms(1) copied_out [of ?e ?n] unfolding cstr_append cstr_iff [of m d xs] by auto
qed

definition demo_strings :: mem where
  "demo_strings = (\<lambda>_. 0)(0x100 := 97, 0x101 := 98, 0x200 := 99, 0x201 := 44, 0x202 := 100, 0x300 := 44)"

lemma demo_strings: "cstr demo_strings 0x100 [97, 98]" "cstr demo_strings 0x200 [99, 44, 100]" "cstr demo_strings 0x300 [44]"
  by (simp_all add: demo_strings_def)

theorem strcat_correct_witness:
  "\<exists>m'. strcat 0x100 0x200 demo_strings = Some (0x100, m') \<and> cstr m' 0x100 [97, 98, 99, 44, 100]"
proof -
  have "disjoint_blocks 0x100 (length [97, 98 :: u8] + length [99, 44, 100 :: u8] + 1) 0x200 (length [99, 44, 100 :: u8] + 1)"
    by (rule disjoint_no_wrap) simp_all
  from strcat_correct [OF demo_strings(1,2) _ this] show ?thesis by auto
qed

text \<open>
  C32. \<open>strcmp\<close> is total on strings, null pointers counting as empty ones: it returns zero exactly for equal
  strings and a negative number exactly when the first precedes the second in the lexicographic order of
  unsigned characters.
\<close>

theorem strcmp_correct:
  assumes "string_arg m s1 xs" "string_arg m s2 ys"
  shows "\<exists>r. strcmp s1 s2 m = Some r \<and> (r = 0 \<longleftrightarrow> xs = ys) \<and> (r < 0 \<longleftrightarrow> (xs, ys) \<in> lexord {(x, y). x < y})"
proof -
  note c = string_arg_bytes [OF assms(1)] string_arg_bytes [OF assms(2)]
  have "0 \<notin> set xs" "0 \<notin> set ys" using c by (auto simp: cstr_iff)
  then show ?thesis using strcmp_loop_cstr [OF c] first_diff_ends by (simp add: strcmp_def)
qed

theorem strcmp_correct_witness: "\<exists>r. strcmp 0x100 0x200 demo_strings = Some r \<and> r < 0"
proof -
  have "string_arg demo_strings 0x100 [97, 98]" "string_arg demo_strings 0x200 [99, 44, 100]"
    using demo_strings by (simp_all add: string_arg_def)
  from strcmp_correct [OF this] show ?thesis by auto
qed

text \<open>
  \<open>strnlen\<close> stops after the bound, not at it: for a string longer than \<open>maxlen\<close> it reads the byte behind
  the bound and returns \<open>maxlen + 1\<close>, and otherwise the length.
\<close>

theorem strnlen_bound:
  assumes "cstr m s xs" "unat maxlen + 1 < 2 ^ 64"
  shows "strnlen s maxlen m = Some (of_nat (min (length xs) (unat maxlen + 1)))"
  using strnlen_loop_cstr [OF assms(2), of m s 0 xs] assms(1) by (simp add: strnlen_def)

theorem strnlen_bound_witness: "strnlen 0x100 1 demo_strings = Some 2"
  using strnlen_bound [OF demo_strings(1), of 1] by simp

text \<open>
  C33. \<open>strtok_r\<close>: leading delimiters are passed over; without a token the result is null and nothing changes;
  otherwise it is the start of the longest run of other characters, terminated in place, the saved
  pointer is the string behind the delimiter that ended the token, and no byte outside the string changes.
\<close>

theorem strtok_r_correct:
  assumes p: "p = (if str = 0 then saveptr else str)" "p \<noteq> 0" "cstr m p xs" "length xs < 2 ^ 64"
    and ds: "cstr m delim ds" "delim \<noteq> 0" "unat delim + length ds < 2 ^ 64"
    and r: "r = dropWhile (\<lambda>x. x \<in> set ds) xs"
  shows "if r = [] then strtok_r str delim saveptr m = Some (0, saveptr, m)
    else \<exists>next_str m'. strtok_r str delim saveptr m = Some (p + of_nat (length xs - length r), next_str, m') \<and>
       cstr m' (p + of_nat (length xs - length r)) (takeWhile (\<lambda>x. x \<notin> set ds) r) \<and>
       cstr m' next_str (tl (dropWhile (\<lambda>x. x \<notin> set ds) r)) \<and> (\<forall>x. \<not> in_block p (length xs) x \<longrightarrow> m' x = m x)"
proof -
  define k where "k = takeWhile (\<lambda>x. x \<in> set ds) xs"
  have xs: "xs = k @ r" using r by (simp add: k_def)
  have start: "skip_delim True m p delim = Some (p + of_nat (length k))"
    using skip_delim_cstr [OF ds p(3), of True] by (simp add: k_def)
  let ?st = "p + of_nat (length k)"
  have cr: "cstr m ?st r" using p(3) unfolding xs cstr_append by simp
  show ?thesis
  proof (cases "r = []")
    case True
    then show ?thesis using start cr p by (simp add: strtok_r_def Let_def)
  next
    case False
    define tok rest where "tok = takeWhile (\<lambda>x. x \<notin> set ds) r" and "rest = dropWhile (\<lambda>x. x \<notin> set ds) r"
    have r2: "r = tok @ rest" by (simp add: tok_def rest_def)
    have nz: "m ?st \<noteq> 0" using cr False by (cases r) auto
    have stop: "skip_delim False m ?st delim = Some (?st + of_nat (length tok))"
      using skip_delim_cstr [OF ds cr, of False] by (simp add: tok_def)
    let ?q = "?st + of_nat (length tok)"
    have len: "length xs - length r = length k" by (simp add: xs)
    show ?thesis
    proof (cases rest)
      case Nil
      then have "m ?q = 0" using cr r2 by (simp add: cstr_iff)
      moreover from this have "cstr m ?q (tl rest)" using Nil by simp
      moreover have "cstr m ?st tok" using cr r2 Nil by simp
      ultimately show ?thesis
        using False start nz stop p len by (simp add: strtok_r_def Let_def tok_def [symmetric] rest_def [symmetric])
    next
      case (Cons y ys)
      have c: "cstr m ?st (tok @ y # ys)" using cr r2 Cons by simp
      have l: "length (tok @ y # ys) < 2 ^ 64" using p(4) xs r2 Cons by simp
      have qnz: "m ?q \<noteq> 0" using c unfolding cstr_append by auto
      have inb: "in_block p (length xs) ?q"
        using in_block_offset [of "length k + length tok" "length xs" p] p(4) xs r2 Cons by (simp add: add.assoc)
      have "strtok_r str delim saveptr m = Some (?st, ?q + 1, m(?q := 0))"
        using False start nz stop p qnz by (simp add: strtok_r_def Let_def)
      moreover have "(m(?q := 0)) x = m x" if "\<not> in_block p (length xs) x" for x using inb that by auto
      ultimately show ?thesis
        using False cstr_cut [OF c l] Cons unfolding len tok_def [symmetric] rest_def [symmetric] by auto
    qed
  qed
qed

theorem strtok_r_correct_witness:
  "\<exists>n m'. strtok_r 0x200 0x300 0 demo_strings = Some (0x200, n, m') \<and> cstr m' 0x200 [99] \<and> cstr m' n [100]"
  using strtok_r_correct [OF _ _ demo_strings(2) _ demo_strings(3) _ _ refl, of "0x200" 0] by auto

end
