(* ===== verification/Stdio.thy ===== *)
theory Stdio
  imports Cstring Spinlock
begin

text \<open>
  The console of \<open>src/src/stdio.c\<close> and \<open>atoi\<close> of \<open>src/src/stdlib.c\<close>. The UART is a device: the values that
  its flag register has at successive polls and the characters that it delivers are given by two
  functions of the number of the access, and the bytes written to its data register are the output
  \<open>tx\<close>. Waiting for a flag that never clears, like any endless loop, is the value \<^term>\<open>None\<close>, as is signed
  overflow. Variable arguments are the list of their 64-bit slots; a missing one is undefined.
\<close>

section \<open>The device\<close>

record console =
  uart_fr :: "nat \<Rightarrow> u32"
  uart_dr :: "nat \<Rightarrow> u8"
  polls :: nat
  reads :: nat
  tx :: "u8 list"
  print_lock :: spinlock
  read_lock :: spinlock
  mmu_enabled :: bool
  cmem :: mem

partial_function (option) wait_flag :: "nat \<Rightarrow> console \<Rightarrow> console option" where
  "wait_flag b c =
     (let c' = c\<lparr>polls := polls c + 1\<rparr> in if bit (uart_fr c (polls c)) b then wait_flag b c' else Some c')"

definition putchar :: "int \<Rightarrow> console \<Rightarrow> (int \<times> console) option" where
  "putchar ch c =
     (if 127 < ch then Some (- 1, c)
      else do {
        c \<leftarrow> wait_flag 5 c;
        Some (ch, c\<lparr>tx := tx c @ [word_of_int ch]\<rparr>)
      })"

definition getchar :: "console \<Rightarrow> (int \<times> console) option" where
  "getchar c = do {
     c \<leftarrow> wait_flag 4 c;
     let ch = uint (uart_dr c (reads c) AND 0xFF);
     (_, c) \<leftarrow> putchar ch (c\<lparr>reads := reads c + 1\<rparr>);
     Some (ch, c)
   }"

text \<open>\<open>gets\<close>, with the index of its loop.\<close>

partial_function (option) gets_loop :: "u64 \<Rightarrow> u32 \<Rightarrow> console \<Rightarrow> (u32 \<times> console) option" where
  "gets_loop str i c =
     Option.bind (getchar c)
       (\<lambda>(ch, c). if ch \<noteq> 10 \<and> ch \<noteq> 13
          then gets_loop str (i + 1) (c\<lparr>cmem := (cmem c)(str + ucast i := word_of_int ch)\<rparr>)
          else Some (i, c))"

definition gets :: "u64 \<Rightarrow> console \<Rightarrow> (u64 \<times> console) option" where
  "gets str c = do {
     (i, c) \<leftarrow> gets_loop str 0 c;
     if i = 0 then Some (0, c) else Some (str, c\<lparr>cmem := (cmem c)(str + ucast i := 0)\<rparr>)
   }"

partial_function (option) puts_loop :: "u64 \<Rightarrow> int \<Rightarrow> console \<Rightarrow> (int \<times> console) option" where
  "puts_loop str ret c =
     (if cmem c str \<noteq> 0 then
        Option.bind (putchar (uint (cmem c str)) c) (\<lambda>(_, c). puts_loop (str + 1) (ret + 1) c)
      else Some (ret, c))"

text \<open>\<open>__puts\<close> and \<open>puts\<close>.\<close>

definition puts_raw :: "u64 \<Rightarrow> console \<Rightarrow> (int \<times> console) option" where
  "puts_raw str c = puts_loop str 0 c"

definition puts :: "u64 \<Rightarrow> console \<Rightarrow> (int \<times> console) option" where
  "puts str c = do {
     (ret, c) \<leftarrow> puts_loop str 0 c;
     (_, c) \<leftarrow> putchar 10 c;
     Some (ret + 1, c)
   }"

section \<open>Numbers\<close>

text \<open>
  The digit loop \<open>buffer[i++] = '0' + num % 10; num /= 10;\<close> with a buffer of the given size, whose cells
  below \<open>i\<close> are the list. The argument is not negative.
\<close>

function digit_loop :: "nat \<Rightarrow> int \<Rightarrow> u8 list \<Rightarrow> u8 list option" where
  "digit_loop sz num buffer =
     (if 0 < num then do {
        guard (length buffer < sz);
        digit_loop sz (num div 10) (buffer @ [word_of_int (48 + num mod 10)])
      } else Some buffer)"
  by pat_completeness auto
termination
  by (relation "measure (\<lambda>(sz, num, buffer). nat num)") auto

declare digit_loop.simps [simp del]

text \<open>\<open>while (i > 0) putchar(buffer[--i]);\<close> over the cells in reverse order.\<close>

primrec put_all :: "u8 list \<Rightarrow> console \<Rightarrow> console option" where
  "put_all [] c = Some c"
| "put_all (x # xs) c = do { (_, c) \<leftarrow> putchar (uint x) c; put_all xs c }"

text \<open>\<open>printd\<close> and \<open>printld\<close> differ in the range of the argument and the size of the buffer.\<close>

definition print_signed :: "nat \<Rightarrow> nat \<Rightarrow> int \<Rightarrow> console \<Rightarrow> (int \<times> console) option" where
  "print_signed width sz num c =
     (if num = 0 then do { (_, c) \<leftarrow> putchar 48 c; Some (1, c) }
      else do {
        (ret, num, c) \<leftarrow>
          (if num < 0 then do {
             (_, c) \<leftarrow> putchar 45 c;
             guard (num \<noteq> - (2 ^ (width - 1)));
             Some (1, - num, c)
           } else Some (0, num, c));
        buffer \<leftarrow> digit_loop sz num [];
        c \<leftarrow> put_all (rev buffer) c;
        Some (ret + int (length buffer), c)
      })"

definition printd :: "int \<Rightarrow> console \<Rightarrow> (int \<times> console) option" where
  "printd num = print_signed 32 12 num"

definition printld :: "int \<Rightarrow> console \<Rightarrow> (int \<times> console) option" where
  "printld num = print_signed 64 20 num"

definition printlu :: "u64 \<Rightarrow> console \<Rightarrow> (int \<times> console) option" where
  "printlu num c =
     (if num = 0 then do { (_, c) \<leftarrow> putchar 48 c; Some (1, c) }
      else do {
        buffer \<leftarrow> digit_loop 20 (uint num) [];
        c \<leftarrow> put_all (rev buffer) c;
        Some (int (length buffer), c)
      })"

text \<open>
  Hexadecimal: a \<open>do\<close> loop over the signed number, with the remainder and the quotient of C, whose digit
  may be negative; then the buffer is terminated, reversed in place and printed as a string.
\<close>

definition hex_char :: "bool \<Rightarrow> int \<Rightarrow> u8" where
  "hex_char uppercase digit =
     (let a = (if uppercase then 65 else 97) in word_of_int (if digit < 10 then 48 + digit else a + digit - 10))"

definition c_mod16 :: "int \<Rightarrow> int" where "c_mod16 n = sgn n * (\<bar>n\<bar> mod 16)"
definition c_div16 :: "int \<Rightarrow> int" where "c_div16 n = sgn n * (\<bar>n\<bar> div 16)"

function hex_loop :: "nat \<Rightarrow> nat \<Rightarrow> bool \<Rightarrow> int \<Rightarrow> u8 list \<Rightarrow> u8 list option" where
  "hex_loop sz limit uppercase num buf = do {
     guard (length buf < sz);
     let buf = buf @ [hex_char uppercase (c_mod16 num)];
     if 0 < c_div16 num \<and> length buf < limit then hex_loop sz limit uppercase (c_div16 num) buf else Some buf
   }"
  by pat_completeness auto
termination
  by (relation "measure (\<lambda>(sz, limit, u, num, buf). limit - length buf)") auto

declare hex_loop.simps [simp del]

definition print_hex :: "nat \<Rightarrow> nat \<Rightarrow> int \<Rightarrow> bool \<Rightarrow> console \<Rightarrow> (int \<times> console) option" where
  "print_hex sz limit num uppercase c = do {
     buf \<leftarrow> hex_loop sz limit uppercase num [];
     guard (length buf < sz);
     c \<leftarrow> put_all (takeWhile (\<lambda>x. x \<noteq> 0) (rev buf)) c;
     Some (int (length buf) - 1, c)
   }"

definition printlx :: "int \<Rightarrow> bool \<Rightarrow> console \<Rightarrow> (int \<times> console) option" where
  "printlx num uppercase = print_hex 20 31 num uppercase"

definition printx :: "int \<Rightarrow> bool \<Rightarrow> console \<Rightarrow> (int \<times> console) option" where
  "printx num uppercase = print_hex 16 15 num uppercase"

section \<open>Formatted output\<close>

text \<open>The next argument, and the conversion of a slot to \<open>int\<close> and \<open>long\<close>.\<close>

definition va_arg :: "u64 list \<Rightarrow> (u64 \<times> u64 list) option" where
  "va_arg ap = (case ap of [] \<Rightarrow> None | x # xs \<Rightarrow> Some (x, xs))"

definition as_int :: "u64 \<Rightarrow> int" where "as_int x = sint (ucast x :: u32)"
definition as_long :: "u64 \<Rightarrow> int" where "as_long x = sint x"

text \<open>
  One conversion of \<open>printf\<close>: the number of format characters it consumes, what it adds to the return value,
  the remaining arguments and the console. \<open>c1\<close> and \<open>c2\<close> are the characters behind the percent sign.
\<close>

definition convert :: "u8 \<Rightarrow> u8 \<Rightarrow> u64 list \<Rightarrow> console \<Rightarrow> (u64 \<times> int \<times> u64 list \<times> console) option" where
  "convert c1 c2 ap c =
     (if c1 = 108 then
        if c2 = 120 then do { (x, ap) \<leftarrow> va_arg ap; (r, c) \<leftarrow> printlx (as_long x) False c; Some (3, r, ap, c) }
        else if c2 = 88 then do { (x, ap) \<leftarrow> va_arg ap; (r, c) \<leftarrow> printlx (as_long x) True c; Some (3, r, ap, c) }
        else if c2 = 100 then do { (x, ap) \<leftarrow> va_arg ap; (r, c) \<leftarrow> printld (as_long x) c; Some (3, r, ap, c) }
        else if c2 = 117 then do { (x, ap) \<leftarrow> va_arg ap; (r, c) \<leftarrow> printlu x c; Some (3, r, ap, c) }
        else Some (0, 0, ap, c)
      else if c1 = 100 then do { (x, ap) \<leftarrow> va_arg ap; (r, c) \<leftarrow> printd (as_int x) c; Some (2, r, ap, c) }
      else if c1 = 115 then do { (x, ap) \<leftarrow> va_arg ap; (r, c) \<leftarrow> puts_raw x c; Some (2, r, ap, c) }
      else if c1 = 120 then do { (x, ap) \<leftarrow> va_arg ap; (r, c) \<leftarrow> printx (as_int x) False c; Some (2, r, ap, c) }
      else if c1 = 88 then do { (x, ap) \<leftarrow> va_arg ap; (r, c) \<leftarrow> printx (as_int x) True c; Some (2, r, ap, c) }
      else Some (1, 0, ap, c))"

partial_function (option) printf_loop :: "u64 \<Rightarrow> int \<Rightarrow> u64 list \<Rightarrow> console \<Rightarrow> (int \<times> console) option" where
  "printf_loop p ret ap c =
     (if cmem c p \<noteq> 0 then
        if cmem c p = 37 then
          Option.bind (convert (cmem c (p + 1)) (cmem c (p + 2)) ap c)
            (\<lambda>(k, r, ap, c). printf_loop (p + k) (ret + r) ap c)
        else
          Option.bind (putchar (uint (cmem c p)) c) (\<lambda>(_, c). printf_loop (p + 1) (ret + 1) ap c)
      else Some (ret, c))"

definition printf :: "u64 \<Rightarrow> u64 list \<Rightarrow> console \<Rightarrow> (int \<times> console) option" where
  "printf fmt ap c = do {
     c \<leftarrow> (if mmu_enabled c then do { (_, l) \<leftarrow> pthread_spin_lock (print_lock c); Some (c\<lparr>print_lock := l\<rparr>) }
          else Some c);
     (ret, c) \<leftarrow> printf_loop fmt 0 ap c;
     Some (ret, if mmu_enabled c then c\<lparr>print_lock := snd (pthread_spin_unlock (print_lock c))\<rparr> else c)
   }"

section \<open>Input of numbers\<close>

text \<open>\<open>atoi\<close>: blanks, a sign, digits. The number is an \<open>int\<close> that must not overflow.\<close>

definition is_digit :: "u8 \<Rightarrow> bool" where "is_digit x \<longleftrightarrow> 48 \<le> x \<and> x \<le> 57"

definition int_range :: "int \<Rightarrow> bool" where "int_range n \<longleftrightarrow> - (2 ^ 31) \<le> n \<and> n < 2 ^ 31"

partial_function (option) skip_blanks :: "mem \<Rightarrow> u64 \<Rightarrow> u64 option" where
  "skip_blanks m str = (if m str = 32 \<or> m str = 9 then skip_blanks m (str + 1) else Some str)"

partial_function (option) atoi_loop :: "mem \<Rightarrow> u64 \<Rightarrow> int \<Rightarrow> int option" where
  "atoi_loop m str ret =
     (if is_digit (m str) then
        Option.bind (guard (int_range (ret * 10) \<and> int_range (ret * 10 + (uint (m str) - 48))))
          (\<lambda>_. atoi_loop m (str + 1) (ret * 10 + (uint (m str) - 48)))
      else Some ret)"

definition atoi :: "u64 \<Rightarrow> mem \<Rightarrow> int option" where
  "atoi str m =
     (if str = 0 then Some 0
      else do {
        str \<leftarrow> skip_blanks m str;
        let is_negative = (m str = 45);
        let str = (if is_negative then str + 1 else str);
        if \<not> is_digit (m str) then Some 0
        else do {
          ret \<leftarrow> atoi_loop m str 0;
          if is_negative then do { guard (int_range (ret * -1)); Some (ret * -1) } else Some ret
        }
      })"

text \<open>\<open>scand\<close>, with the address of its buffer on the stack, and \<open>scanf\<close>.\<close>

definition scand :: "u64 \<Rightarrow> console \<Rightarrow> (int \<times> console) option" where
  "scand buf c = do {
     (_, c) \<leftarrow> gets buf c;
     n \<leftarrow> atoi buf (cmem c);
     Some (n, c)
   }"

partial_function (option) scanf_loop :: "u64 \<Rightarrow> u64 \<Rightarrow> int \<Rightarrow> u64 list \<Rightarrow> console \<Rightarrow> (int \<times> console) option" where
  "scanf_loop buf p ret ap c =
     (if cmem c p \<noteq> 0 then
        if cmem c p = 37 then
          if cmem c (p + 1) = 100 then
            Option.bind (va_arg ap) (\<lambda>(num, ap). Option.bind (scand buf c)
              (\<lambda>(n, c). scanf_loop buf (p + 2) (ret + 1) ap (c\<lparr>cmem := st32 (cmem c) num (word_of_int n)\<rparr>)))
          else scanf_loop buf p ret ap c
        else scanf_loop buf (p + 1) ret ap c
      else Some (ret, c))"

definition scanf :: "u64 \<Rightarrow> u64 \<Rightarrow> u64 list \<Rightarrow> console \<Rightarrow> (int \<times> console) option" where
  "scanf buf format ap c = do {
     c \<leftarrow> (if mmu_enabled c then do { (_, l) \<leftarrow> pthread_spin_lock (read_lock c); Some (c\<lparr>read_lock := l\<rparr>) }
          else Some c);
     (ret, c) \<leftarrow> scanf_loop buf format 0 ap c;
     Some (ret, if mmu_enabled c then c\<lparr>read_lock := snd (pthread_spin_unlock (read_lock c))\<rparr> else c)
   }"

section \<open>Output\<close>

text \<open>The device takes every character in the end.\<close>

definition tx_ready :: "console \<Rightarrow> bool" where
  "tx_ready c \<longleftrightarrow> (\<forall>n. \<exists>k \<ge> n. \<not> bit (uart_fr c k) 5)"

definition emits :: "console \<Rightarrow> u8 list \<Rightarrow> console \<Rightarrow> bool" where
  "emits c xs c' \<longleftrightarrow> (\<exists>n. c' = c\<lparr>polls := n, tx := tx c @ xs\<rparr>)"

lemma emits_refl: "emits c [] c"
  by (auto simp: emits_def intro: exI [of _ "polls c"])

lemma emits_trans: "emits c xs c' \<Longrightarrow> emits c' ys c'' \<Longrightarrow> emits c (xs @ ys) c''"
  by (auto simp: emits_def)

lemma emits_fields:
  assumes "emits c xs c'"
  shows "tx c' = tx c @ xs" "cmem c' = cmem c" "tx_ready c' = tx_ready c" "mmu_enabled c' = mmu_enabled c"
    "print_lock c' = print_lock c" "read_lock c' = read_lock c" "reads c' = reads c"
  using assms by (auto simp: emits_def tx_ready_def)

lemma wait_flag_ok:
  assumes "\<not> bit (uart_fr c k) b" "polls c \<le> k"
  shows "\<exists>n. wait_flag b c = Some (c\<lparr>polls := n\<rparr>)"
  using assms
proof (induction "k - polls c" arbitrary: c)
  case 0
  then have "polls c = k" by simp
  then show ?case using 0 by (auto simp: wait_flag.simps [of b c] Let_def)
next
  case (Suc d)
  let ?c = "c\<lparr>polls := polls c + 1\<rparr>"
  have "\<exists>n. wait_flag b ?c = Some (?c\<lparr>polls := n\<rparr>)" using Suc.hyps(2) Suc.prems by (intro Suc.hyps(1)) simp_all
  then show ?case by (auto simp: wait_flag.simps [of b c] Let_def)
qed

lemma putchar_ok:
  assumes "tx_ready c" "ch \<le> 127"
  shows "\<exists>c'. putchar ch c = Some (ch, c') \<and> emits c [word_of_int ch] c'"
proof -
  from assms(1) obtain k where "k \<ge> polls c" "\<not> bit (uart_fr c k) 5" by (auto simp: tx_ready_def)
  from wait_flag_ok [OF this(2,1)] show ?thesis using assms(2) by (auto simp: putchar_def emits_def)
qed

text \<open>Printable text: what \<open>putchar\<close> does not refuse.\<close>

definition ascii :: "u8 list \<Rightarrow> bool" where
  "ascii xs \<longleftrightarrow> (\<forall>x \<in> set xs. x \<le> 127)"

lemma putchar_byte:
  assumes "tx_ready c" "x \<le> 127"
  shows "\<exists>c'. putchar (uint x) c = Some (uint x, c') \<and> emits c [x] c'"
proof -
  have "uint x \<le> 127" using assms(2) by (simp add: word_le_def)
  from putchar_ok [OF assms(1) this] show ?thesis by simp
qed

lemma put_all_ok: "tx_ready c \<Longrightarrow> ascii xs \<Longrightarrow> \<exists>c'. put_all xs c = Some c' \<and> emits c xs c'"
proof (induction xs arbitrary: c)
  case Nil
  then show ?case by (simp add: emits_refl)
next
  case (Cons x xs)
  from putchar_byte [of c x] Cons.prems obtain c1 where
    c1: "putchar (uint x) c = Some (uint x, c1)" "emits c [x] c1" by (auto simp: ascii_def)
  from Cons.IH [of c1] Cons.prems emits_fields(3) [OF c1(2)] obtain c2 where
    "put_all xs c1 = Some c2" "emits c1 xs c2" by (auto simp: ascii_def)
  then show ?case using c1 emits_trans [OF c1(2)] by auto
qed

lemma puts_loop_ok:
  "tx_ready c \<Longrightarrow> cstr (cmem c) str xs \<Longrightarrow> ascii xs \<Longrightarrow>
   \<exists>c'. puts_loop str r c = Some (r + int (length xs), c') \<and> emits c xs c'"
proof (induction xs arbitrary: c str r)
  case Nil
  then show ?case by (simp add: puts_loop.simps [of str r c] emits_refl)
next
  case (Cons x xs)
  from putchar_byte [of c x] Cons.prems obtain c1 where
    c1: "putchar (uint x) c = Some (uint x, c1)" "emits c [x] c1" by (auto simp: ascii_def)
  from Cons.IH [of c1 "str + 1" "r + 1"] Cons.prems emits_fields(2,3) [OF c1(2)] obtain c2 where
    "puts_loop (str + 1) (r + 1) c1 = Some (r + 1 + int (length xs), c2)" "emits c1 xs c2" by (auto simp: ascii_def)
  then show ?case
    using c1 emits_trans [OF c1(2)] Cons.prems(2) by (auto simp: puts_loop.simps [of str r c])
qed

section \<open>Decimal and hexadecimal texts\<close>

text \<open>The reference: the digits of a number in base 10, most significant first.\<close>

fun dec :: "nat \<Rightarrow> u8 list" where
  "dec n = (if n < 10 then [of_nat (48 + n)] else dec (n div 10) @ [of_nat (48 + n mod 10)])"

declare dec.simps [simp del]

definition dec_text :: "int \<Rightarrow> u8 list" where
  "dec_text n = (if n < 0 then 45 # dec (nat (- n)) else dec (nat n))"

lemma digit_byte: "d < 10 \<Longrightarrow> is_digit (of_nat (48 + d) :: u8) \<and> (of_nat (48 + d) :: u8) \<le> 127 \<and> uint (of_nat (48 + d) :: u8) = 48 + int d"
proof -
  assume "d < 10"
  have "uint (of_nat k :: u8) = int k" if "k < 256" for k
    using that by (simp add: unsigned_of_nat take_bit_eq_mod)
  from this [of "48 + d"] have "uint (of_nat (48 + d) :: u8) = 48 + int d" using \<open>d < 10\<close> by simp
  then show ?thesis using \<open>d < 10\<close> by (simp add: is_digit_def word_le_def)
qed

lemma dec_digits: "x \<in> set (dec n) \<Longrightarrow> is_digit x \<and> x \<le> 127"
proof (induction n rule: dec.induct)
  case (1 n)
  then show ?case
    using digit_byte [of n] digit_byte [of "n mod 10"] by (auto simp: dec.simps [of n] split: if_splits)
qed

lemma dec_length: "n < 10 ^ k \<Longrightarrow> 0 < k \<Longrightarrow> length (dec n) \<le> k"
proof (induction n arbitrary: k rule: dec.induct)
  case (1 n)
  show ?case
  proof (cases "n < 10")
    case True
    then show ?thesis using 1 by (simp add: dec.simps [of n])
  next
    case False
    then obtain j where j: "k = Suc j" "0 < j" using 1 by (cases k; cases "k - 1") auto
    have "n div 10 < 10 ^ j" using "1.prems"(1) j by (simp add: less_mult_imp_div_less mult.commute)
    then show ?thesis using "1.IH" [OF False, of j] j False by (simp add: dec.simps [of n])
  qed
qed

lemma digit_loop_dec:
  "0 < n \<Longrightarrow> length buf + length (dec n) \<le> sz \<Longrightarrow> digit_loop sz (int n) buf = Some (buf @ rev (dec n))"
proof (induction n arbitrary: buf rule: dec.induct)
  case (1 n)
  have ch: "word_of_int (48 + int n mod 10) = (of_nat (48 + n mod 10) :: u8)"
  proof -
    have "int n mod 10 = int (n mod 10)" by (simp add: zmod_int)
    then show ?thesis by simp
  qed
  show ?case
  proof (cases "n < 10")
    case True
    then have "int n div 10 = 0" by simp
    then show ?thesis
      using 1(2,3) True ch by (simp add: digit_loop.simps [of _ "int n"] digit_loop.simps [of _ 0] dec.simps [of n])
  next
    case False
    have len: "length (buf @ [of_nat (48 + n mod 10)]) + length (dec (n div 10)) \<le> sz"
      using "1.prems"(2) False by (simp add: dec.simps [of n])
    have "digit_loop sz (int (n div 10)) (buf @ [of_nat (48 + n mod 10)]) =
        Some ((buf @ [of_nat (48 + n mod 10)]) @ rev (dec (n div 10)))"
      using False by (intro "1.IH" len) auto
    moreover have "length buf < sz" using len by simp
    ultimately show ?thesis
      using "1.prems"(1) False ch by (subst digit_loop.simps) (simp add: zdiv_int dec.simps [of n])
  qed
qed

lemma dec_ascii: "ascii (dec n)"
  using dec_digits by (auto simp: ascii_def)

lemma print_signed_ok:
  assumes c: "tx_ready c" and n: "\<bar>n\<bar> < 10 ^ sz" "0 < sz" "n \<noteq> - (2 ^ (width - 1))"
  shows "\<exists>c'. print_signed width sz n c = Some (int (length (dec_text n)), c') \<and> emits c (dec_text n) c'"
proof (cases "n = 0")
  case True
  have "dec_text 0 = [48]" by (simp add: dec_text_def dec.simps [of 0])
  then show ?thesis using putchar_ok [OF c, of 48] True by (auto simp: print_signed_def)
next
  case False
  define k where "k = nat \<bar>n\<bar>"
  have k: "0 < k" "int k = \<bar>n\<bar>" using False by (simp_all add: k_def)
  have "int k < 10 ^ sz" using n(1) k by simp
  then have "k < 10 ^ sz" by (metis of_nat_less_iff of_nat_numeral of_nat_power)
  then have "length (dec k) \<le> sz" using n(2) by (rule dec_length)
  then have digits: "digit_loop sz \<bar>n\<bar> [] = Some (rev (dec k))" using digit_loop_dec [OF k(1), of "[]" sz] k(2) by simp
  show ?thesis
  proof (cases "n < 0")
    case True
    from putchar_ok [OF c, of 45] obtain c1 where c1: "putchar 45 c = Some (45, c1)" "emits c [45] c1" by auto
    from put_all_ok [of c1 "dec k"] dec_ascii emits_fields(3) [OF c1(2)] c obtain c2 where
      c2: "put_all (dec k) c1 = Some c2" "emits c1 (dec k) c2" by auto
    have "dec_text n = 45 # dec k" using True by (simp add: dec_text_def k_def)
    then show ?thesis
      using True False digits c1 c2 n(3) emits_trans [OF c1(2) c2(2)] by (simp add: print_signed_def)
  next
    case pos: False
    from put_all_ok [OF c dec_ascii] obtain c2 where
      c2: "put_all (dec k) c = Some c2" "emits c (dec k) c2" by blast
    have "dec_text n = dec k" using pos by (simp add: dec_text_def k_def)
    then show ?thesis using pos False digits c2 by (simp add: print_signed_def)
  qed
qed

lemma printlu_ok:
  assumes c: "tx_ready c"
  shows "\<exists>c'. printlu x c = Some (int (length (dec (unat x))), c') \<and> emits c (dec (unat x)) c'"
proof (cases "x = 0")
  case True
  have "dec 0 = [48]" by (simp add: dec.simps [of 0])
  then show ?thesis using putchar_ok [OF c, of 48] True by (auto simp: printlu_def)
next
  case False
  have "unat x < 10 ^ 20" using unat_u64_lt [of x] by simp
  then have "length (dec (unat x)) \<le> 20" by (rule dec_length) simp
  moreover have "0 < unat x" using False by (simp add: unat_gt_0)
  ultimately have "digit_loop 20 (int (unat x)) [] = Some (rev (dec (unat x)))" using digit_loop_dec [of "unat x" "[]" 20] by simp
  then show ?thesis using False put_all_ok [OF c dec_ascii, of "unat x"] by (auto simp: printlu_def)
qed

fun hex :: "bool \<Rightarrow> nat \<Rightarrow> u8 list" where
  "hex u n = (if n < 16 then [hex_char u (int n)] else hex u (n div 16) @ [hex_char u (int (n mod 16))])"

declare hex.simps [simp del]

lemma hex_char_byte: "0 \<le> d \<Longrightarrow> d < 16 \<Longrightarrow> hex_char u d \<le> 127 \<and> hex_char u d \<noteq> 0"
proof -
  assume "0 \<le> d" "d < 16"
  then have "d \<in> set [0..15]" by simp
  then show ?thesis by (auto simp: hex_char_def upto_rec2)
qed

lemma hex_chars: "x \<in> set (hex u n) \<Longrightarrow> x \<le> 127 \<and> x \<noteq> 0"
proof (induction u n rule: hex.induct)
  case (1 u n)
  then show ?case
    using hex_char_byte [of "int n" u] hex_char_byte [of "int (n mod 16)" u] by (auto simp: hex.simps [of u n] split: if_splits)
qed

lemma hex_length: "n < 16 ^ k \<Longrightarrow> 0 < k \<Longrightarrow> length (hex u n) \<le> k"
proof (induction u n arbitrary: k rule: hex.induct)
  case (1 u n)
  show ?case
  proof (cases "n < 16")
    case True
    then show ?thesis using 1 by (simp add: hex.simps [of u n])
  next
    case False
    then obtain j where j: "k = Suc j" "0 < j" using 1 by (cases k; cases "k - 1") auto
    have "n div 16 < 16 ^ j" using "1.prems"(1) j by (simp add: less_mult_imp_div_less mult.commute)
    then show ?thesis using "1.IH" [OF False, of j] j False by (simp add: hex.simps [of u n])
  qed
qed

lemma c_divmod_nat: "c_mod16 (int n) = int (n mod 16)" "c_div16 (int n) = int (n div 16)"
  by (cases "n = 0"; simp add: c_mod16_def c_div16_def zmod_int zdiv_int)+

lemma hex_loop_hex:
  "length buf + length (hex u n) \<le> sz \<Longrightarrow> length buf + length (hex u n) \<le> limit \<Longrightarrow>
   hex_loop sz limit u (int n) buf = Some (buf @ rev (hex u n))"
proof (induction u n arbitrary: buf rule: hex.induct)
  case (1 u n)
  show ?case
  proof (cases "n < 16")
    case True
    then show ?thesis
      using "1.prems" by (subst hex_loop.simps) (simp add: c_divmod_nat hex.simps [of u n])
  next
    case False
    then have d: "0 < n div 16" "0 < length (hex u (n div 16))" by (auto simp: hex.simps [of u "n div 16"])
    have "hex_loop sz limit u (int (n div 16)) (buf @ [hex_char u (int (n mod 16))]) =
        Some ((buf @ [hex_char u (int (n mod 16))]) @ rev (hex u (n div 16)))"
      using "1.prems" False by (intro "1.IH") (simp_all add: hex.simps [of u n])
    moreover have "length (hex u n) = length (hex u (n div 16)) + 1" using False by (simp add: hex.simps [of u n])
    then have "Suc (length buf) < limit" "length buf < sz" using "1.prems" d(2) by linarith+
    ultimately show ?thesis
      using False d(1) by (subst hex_loop.simps) (simp add: c_divmod_nat hex.simps [of u n] Let_def)
  qed
qed

lemma print_hex_ok:
  assumes c: "tx_ready c" and n: "n < 16 ^ k" "0 < k" "k < sz" "k \<le> limit"
  shows "\<exists>c'. print_hex sz limit (int n) u c = Some (int (length (hex u n)) - 1, c') \<and> emits c (hex u n) c'"
proof -
  have l: "length (hex u n) \<le> k" using n(1,2) by (rule hex_length)
  then have "hex_loop sz limit u (int n) [] = Some (rev (hex u n))"
    using hex_loop_hex [of "[]" u n sz limit] n by simp
  moreover have tw: "takeWhile (\<lambda>x. x \<noteq> 0) (hex u n) = hex u n" using hex_chars by (auto simp: takeWhile_eq_all_conv)
  moreover have "ascii (hex u n)" using hex_chars by (auto simp: ascii_def)
  moreover from \<open>ascii (hex u n)\<close> obtain c' where "put_all (hex u n) c = Some c'" "emits c (hex u n) c'" using put_all_ok [OF c] by blast
  ultimately show ?thesis using l n(3) by (simp add: print_hex_def tw)
qed

text \<open>A negative number gives one character, made from the remainder of its last hexadecimal digit.\<close>

lemma print_hex_negative:
  assumes c: "tx_ready c" and n: "n < 0" and b: "1 < sz" "0 < limit"
  shows "\<exists>c'. print_hex sz limit n u c = Some (0, c') \<and> emits c [word_of_int (48 + c_mod16 n)] c'"
proof -
  have m: "c_div16 n \<le> 0" "c_mod16 n = - ((- n) mod 16)" using n by (simp_all add: c_div16_def c_mod16_def)
  define r where "r = (- n) mod 16"
  have "0 \<le> r" "r < 16" by (simp_all add: r_def)
  then have "r \<in> set [0..15]" by simp
  then have "word_of_int (48 - r) \<le> (127 :: u8)" "word_of_int (48 - r) \<noteq> (0 :: u8)" by (auto simp: upto_rec2)
  then have a: "hex_char u (c_mod16 n) = word_of_int (48 + c_mod16 n)" "hex_char u (c_mod16 n) \<le> 127" "hex_char u (c_mod16 n) \<noteq> 0"
    using m(2) \<open>0 \<le> r\<close> by (simp_all add: hex_char_def Let_def r_def)
  have "hex_loop sz limit u n [] = Some [hex_char u (c_mod16 n)]"
    using m(1) b by (subst hex_loop.simps) simp
  moreover have "ascii [hex_char u (c_mod16 n)]" using a(2) by (simp add: ascii_def)
  ultimately show ?thesis
    using put_all_ok [OF c, of "[hex_char u (c_mod16 n)]"] a(1,3) b by (auto simp: print_hex_def simp del: put_all.simps)
qed

text \<open>The text of a signed number in hexadecimal, as the code prints it.\<close>

definition hex_text :: "bool \<Rightarrow> int \<Rightarrow> u8 list" where
  "hex_text u n = (if n < 0 then [word_of_int (48 + c_mod16 n)] else hex u (nat n))"

lemma print_hex_text:
  assumes c: "tx_ready c" and n: "n < 2 ^ (4 * k)" "0 < k" "k < sz" "k \<le> limit"
  shows "\<exists>c'. print_hex sz limit n u c = Some (int (length (hex_text u n)) - 1, c') \<and> emits c (hex_text u n) c'"
proof (cases "n < 0")
  case True
  have "1 < sz" "0 < limit" using n(2-4) by linarith+
  with print_hex_negative [OF c True, of sz limit u] True show ?thesis by (simp add: hex_text_def)
next
  case False
  have "(16 :: int) ^ k = 2 ^ (4 * k)" by (simp add: power_mult)
  then have "n < int (16 ^ k)" using n(1) by simp
  then have "nat n < 16 ^ k" using False by linarith
  from print_hex_ok [OF c this n(2-4), of u] False show ?thesis by (simp add: hex_text_def)
qed

section \<open>Formats\<close>

text \<open>
  A format as a sequence of items, each with its argument: the characters of the format, the arguments,
  the text that is printed and what it adds to the return value.
\<close>

datatype item = Lit u8 | Dec u64 | Str u64 "u8 list" | Hex bool u64 | Long_Dec u64 | Long_Uns u64 | Long_Hex bool u64

fun item_format :: "item \<Rightarrow> u8 list" where
  "item_format (Lit x) = [x]"
| "item_format (Dec _) = [37, 100]"
| "item_format (Str _ _) = [37, 115]"
| "item_format (Hex u _) = [37, if u then 88 else 120]"
| "item_format (Long_Dec _) = [37, 108, 100]"
| "item_format (Long_Uns _) = [37, 108, 117]"
| "item_format (Long_Hex u _) = [37, 108, if u then 88 else 120]"

fun item_args :: "item \<Rightarrow> u64 list" where
  "item_args (Lit _) = []"
| "item_args (Dec x) = [x]"
| "item_args (Str x _) = [x]"
| "item_args (Hex _ x) = [x]"
| "item_args (Long_Dec x) = [x]"
| "item_args (Long_Uns x) = [x]"
| "item_args (Long_Hex _ x) = [x]"

fun item_text :: "item \<Rightarrow> u8 list" where
  "item_text (Lit x) = [x]"
| "item_text (Dec x) = dec_text (as_int x)"
| "item_text (Str _ xs) = xs"
| "item_text (Hex u x) = hex_text u (as_int x)"
| "item_text (Long_Dec x) = dec_text (as_long x)"
| "item_text (Long_Uns x) = dec (unat x)"
| "item_text (Long_Hex u x) = hex_text u (as_long x)"

fun item_count :: "item \<Rightarrow> int" where
  "item_count (Hex u x) = int (length (item_text (Hex u x))) - 1"
| "item_count (Long_Hex u x) = int (length (item_text (Long_Hex u x))) - 1"
| "item_count it = int (length (item_text it))"

text \<open>
  The items that can be printed: literal characters other than NUL and the percent sign, strings that are in memory,
  and all numbers but the most negative ones in decimal, whose negation overflows.
\<close>

fun item_ok :: "mem \<Rightarrow> item \<Rightarrow> bool" where
  "item_ok m (Lit x) \<longleftrightarrow> x \<noteq> 0 \<and> x \<noteq> 37 \<and> x \<le> 127"
| "item_ok m (Dec x) \<longleftrightarrow> as_int x \<noteq> - (2 ^ 31)"
| "item_ok m (Str x xs) \<longleftrightarrow> cstr m x xs \<and> ascii xs"
| "item_ok m (Hex u x) \<longleftrightarrow> True"
| "item_ok m (Long_Dec x) \<longleftrightarrow> as_long x \<noteq> - (2 ^ 63)"
| "item_ok m (Long_Uns x) \<longleftrightarrow> True"
| "item_ok m (Long_Hex u x) \<longleftrightarrow> True"

fun item_overflows :: "item \<Rightarrow> bool" where
  "item_overflows (Dec x) \<longleftrightarrow> as_int x = - (2 ^ 31)"
| "item_overflows (Long_Dec x) \<longleftrightarrow> as_long x = - (2 ^ 63)"
| "item_overflows _ \<longleftrightarrow> False"

lemma as_int_range: "- (2 ^ 31) \<le> as_int x" "as_int x < 2 ^ 31"
  using sint_ge [of "ucast x :: u32"] sint_lt [of "ucast x :: u32"] by (simp_all add: as_int_def)

lemma as_long_range: "- (2 ^ 63) \<le> as_long x" "as_long x < 2 ^ 63"
  using sint_ge [of x] sint_lt [of x] by (simp_all add: as_long_def)

text \<open>One conversion prints its item.\<close>

lemma convert_item:
  assumes c: "tx_ready c" and ok: "item_ok (cmem c) it" and fmt: "item_format it = 37 # c1 # rest"
    and c2: "rest = [] \<or> rest = [c2]"
  shows "\<exists>c'. convert c1 c2 (item_args it @ ap) c = Some (of_nat (length (item_format it)), item_count it, ap, c') \<and>
    emits c (item_text it) c'"
proof (cases it)
  case (Dec x)
  have "\<bar>as_int x\<bar> < 10 ^ 12" using as_int_range [of x] by simp
  then show ?thesis
    using print_signed_ok [OF c, of "as_int x" 12 32] Dec fmt ok
    by (auto simp: convert_def va_arg_def printd_def)
next
  case (Str x xs)
  then show ?thesis
    using puts_loop_ok [OF c, of x xs 0] fmt ok by (auto simp: convert_def va_arg_def puts_raw_def)
next
  case (Hex u x)
  have "as_int x < 2 ^ (4 * 8)" using as_int_range [of x] by simp
  from print_hex_text [OF c this, of 16 15 u] show ?thesis
    using Hex fmt by (auto simp: convert_def va_arg_def printx_def split: if_splits)
next
  case (Long_Dec x)
  have "\<bar>as_long x\<bar> < 10 ^ 20" using as_long_range [of x] by simp
  then show ?thesis
    using print_signed_ok [OF c, of "as_long x" 20 64] Long_Dec fmt ok c2
    by (auto simp: convert_def va_arg_def printld_def)
next
  case (Long_Uns x)
  then show ?thesis using printlu_ok [OF c, of x] fmt c2 by (auto simp: convert_def va_arg_def)
next
  case (Long_Hex u x)
  have "as_long x < 2 ^ (4 * 16)" using as_long_range [of x] by simp
  from print_hex_text [OF c this, of 20 31 u] show ?thesis
    using Long_Hex fmt c2 by (auto simp: convert_def va_arg_def printlx_def split: if_splits)
qed (use fmt ok in simp)

lemma printf_item:
  assumes c: "tx_ready c" and ok: "item_ok (cmem c) it" and fmt: "cstr (cmem c) p (item_format it @ fs)"
  shows "\<exists>c'. printf_loop p ret (item_args it @ ap) c =
      printf_loop (p + of_nat (length (item_format it))) (ret + item_count it) ap c' \<and> emits c (item_text it) c'"
proof (cases "\<exists>x. it = Lit x")
  case True
  then obtain x where x: "it = Lit x" ..
  from putchar_byte [OF c, of x] ok x obtain c' where "putchar (uint x) c = Some (uint x, c')" "emits c [x] c'" by auto
  then show ?thesis using x fmt ok by (auto simp: printf_loop.simps [of p])
next
  case False
  then obtain c1 rest where f: "item_format it = 37 # c1 # rest" "length rest \<le> 1" by (cases it) auto
  let ?c1 = "cmem c (p + 1)" and ?c2 = "cmem c (p + 2)"
  have m: "cmem c p = 37" "?c1 = c1" using fmt f(1) by simp_all
  have r: "rest = [] \<or> rest = [?c2]" using fmt f by (cases rest) (auto simp: add.assoc)
  from convert_item [OF c ok f(1) r, of ap] obtain c' where
    "convert c1 ?c2 (item_args it @ ap) c = Some (of_nat (length (item_format it)), item_count it, ap, c')"
    "emits c (item_text it) c'" by blast
  then show ?thesis using m by (subst printf_loop.simps) auto
qed

lemma printf_items:
  "tx_ready c \<Longrightarrow> \<forall>it \<in> set items. item_ok (cmem c) it \<Longrightarrow> cstr (cmem c) p (concat (map item_format items) @ fs) \<Longrightarrow>
   \<exists>c'. printf_loop p ret (concat (map item_args items) @ ap) c =
      printf_loop (p + of_nat (length (concat (map item_format items)))) (ret + sum_list (map item_count items)) ap c' \<and>
      emits c (concat (map item_text items)) c'"
proof (induction items arbitrary: c p ret)
  case Nil
  then show ?case using emits_refl by auto
next
  case (Cons it items)
  let ?rest = "concat (map item_format items) @ fs"
  have str: "cstr (cmem c) p (item_format it @ ?rest)" using Cons.prems(3) by simp
  from printf_item [OF Cons.prems(1) _ str, of ret "concat (map item_args items) @ ap"] Cons.prems(2) obtain c1 where
    c1: "printf_loop p ret (item_args it @ concat (map item_args items) @ ap) c =
      printf_loop (p + of_nat (length (item_format it))) (ret + item_count it) (concat (map item_args items) @ ap) c1"
      "emits c (item_text it) c1" by auto
  have "cstr (cmem c1) (p + of_nat (length (item_format it))) ?rest"
    using str emits_fields(2) [OF c1(2)] unfolding cstr_append by simp
  moreover have "tx_ready c1" "\<forall>it \<in> set items. item_ok (cmem c1) it"
    using emits_fields [OF c1(2)] Cons.prems(1,2) by simp_all
  ultimately obtain c2 where
    "printf_loop (p + of_nat (length (item_format it))) (ret + item_count it) (concat (map item_args items) @ ap) c1 =
      printf_loop (p + of_nat (length (item_format it)) + of_nat (length (concat (map item_format items))))
        (ret + item_count it + sum_list (map item_count items)) ap c2" "emits c1 (concat (map item_text items)) c2"
    using Cons.IH [of c1 "p + of_nat (length (item_format it))" "ret + item_count it"] by blast
  then show ?case using c1 emits_trans [OF c1(2)] by (auto simp: add.assoc)
qed

text \<open>At a conversion \<open>%l\<close> with a letter that it does not know, the loop of \<open>printf\<close> stays for ever.\<close>

lemma printf_loop_stuck:
  assumes "printf_loop p ret ap c = Some y"
  shows "\<not> (cmem c p = 37 \<and> cmem c (p + 1) = 108 \<and> cmem c (p + 2) \<notin> {120, 88, 100, 117})"
proof (rule printf_loop.raw_induct [where P = "\<lambda>p ret ap c y.
    \<not> (cmem c p = 37 \<and> cmem c (p + 1) = 108 \<and> cmem c (p + 2) \<notin> {120, 88, 100, 117})", OF _ assms])
  fix loop :: "u64 \<Rightarrow> int \<Rightarrow> u64 list \<Rightarrow> console \<Rightarrow> (int \<times> console) option" and p ret ap c y
  assume ih: "\<And>p ret ap c y. loop p ret ap c = Some y \<Longrightarrow>
      \<not> (cmem c p = 37 \<and> cmem c (p + 1) = 108 \<and> cmem c (p + 2) \<notin> {120, 88, 100, 117})"
    and step: "(if cmem c p \<noteq> 0 then
        if cmem c p = 37 then Option.bind (convert (cmem c (p + 1)) (cmem c (p + 2)) ap c)
            (\<lambda>(k, r, ap, c). loop (p + k) (ret + r) ap c)
        else Option.bind (putchar (uint (cmem c p)) c) (\<lambda>(_, c). loop (p + 1) (ret + 1) ap c)
      else Some (ret, c)) = Some y"
  show "\<not> (cmem c p = 37 \<and> cmem c (p + 1) = 108 \<and> cmem c (p + 2) \<notin> {120, 88, 100, 117})"
  proof
    assume s: "cmem c p = 37 \<and> cmem c (p + 1) = 108 \<and> cmem c (p + 2) \<notin> {120, 88, 100, 117}"
    then have "convert (cmem c (p + 1)) (cmem c (p + 2)) ap c = Some (0, 0, ap, c)" by (simp add: convert_def)
    then have "loop p ret ap c = Some y" using step s by simp
    then show False using ih s by blast
  qed
qed

section \<open>Reading numbers\<close>

definition digits_value :: "int \<Rightarrow> u8 list \<Rightarrow> int" where
  "digits_value n xs = foldl (\<lambda>n x. n * 10 + (uint x - 48)) n xs"

lemma dec_value: "digits_value 0 (dec n) = int n"
proof (induction n rule: dec.induct)
  case (1 n)
  then show ?case
    using digit_byte [of n] digit_byte [of "n mod 10"] by (auto simp: dec.simps [of n] digits_value_def zdiv_int zmod_int)
qed

lemma digits_value_mono: "0 \<le> n \<Longrightarrow> (\<And>x. x \<in> set xs \<Longrightarrow> is_digit x) \<Longrightarrow> n \<le> digits_value n xs"
proof (induction xs arbitrary: n)
  case (Cons x xs)
  have x: "48 \<le> uint x" using Cons.prems(2) [of x] by (simp add: is_digit_def word_le_def)
  have "n * 10 + (uint x - 48) \<le> digits_value (n * 10 + (uint x - 48)) xs"
    using Cons.prems x by (intro Cons.IH) simp_all
  then show ?case using Cons.prems(1) x by (simp add: digits_value_def)
qed (simp add: digits_value_def)

lemma atoi_loop_ok:
  "cstr m s xs \<Longrightarrow> (\<And>x. x \<in> set xs \<Longrightarrow> is_digit x) \<Longrightarrow> 0 \<le> n \<Longrightarrow> digits_value n xs < 2 ^ 31 \<Longrightarrow>
   atoi_loop m s n = Some (digits_value n xs)"
proof (induction xs arbitrary: s n)
  case Nil
  then show ?case by (simp add: atoi_loop.simps [of m s] is_digit_def digits_value_def)
next
  case (Cons x xs)
  let ?n = "n * 10 + (uint x - 48)"
  have x: "48 \<le> uint x" "is_digit x" using Cons.prems(2) [of x] by (simp_all add: is_digit_def word_le_def)
  have v: "digits_value ?n xs = digits_value n (x # xs)" by (simp add: digits_value_def)
  have "?n \<le> digits_value ?n xs" using Cons.prems x by (intro digits_value_mono) simp_all
  then have "?n < 2 ^ 31" using Cons.prems(4) v by simp
  then have "int_range (n * 10)" "int_range ?n" using Cons.prems(3) x by (simp_all add: int_range_def)
  moreover have "atoi_loop m (s + 1) ?n = Some (digits_value ?n xs)"
    using Cons.prems x v by (intro Cons.IH) simp_all
  ultimately show ?case using Cons.prems(1) x v by (subst atoi_loop.simps) simp
qed

lemma dec_hd: "dec n \<noteq> []" "is_digit (hd (dec n))"
proof -
  show "dec n \<noteq> []" by (simp add: dec.simps [of n])
  then show "is_digit (hd (dec n))" using dec_digits [of "hd (dec n)" n] by simp
qed

lemma printf_ok:
  assumes "tx_ready c" "print_lock c = 0" "\<forall>it \<in> set items. item_ok (cmem c) it"
    "cstr (cmem c) fmt (concat (map item_format items))"
  shows "\<exists>c'. printf fmt (concat (map item_args items)) c = Some (sum_list (map item_count items), c') \<and>
    emits c (concat (map item_text items)) c'"
proof -
  define l where "l = (if mmu_enabled c then c\<lparr>print_lock := 1\<rparr> else c)"
  have l: "tx_ready l" "cmem l = cmem c" "tx l = tx c" "mmu_enabled l = mmu_enabled c"
    using assms(1) by (simp_all add: l_def tx_ready_def)
  have start: "printf fmt ap c = do { (ret, c) \<leftarrow> printf_loop fmt 0 ap l;
      Some (ret, if mmu_enabled c then c\<lparr>print_lock := snd (pthread_spin_unlock (print_lock c))\<rparr> else c) }" for ap
    using assms(2) by (simp add: printf_def l_def pthread_spin_lock_def cas_def)
  from printf_items [OF l(1), of items fmt "[]" 0 "[]"] assms(3,4) l(2) obtain c1 where
    c1: "printf_loop fmt 0 (concat (map item_args items)) l =
      printf_loop (fmt + of_nat (length (concat (map item_format items)))) (sum_list (map item_count items)) [] c1"
      "emits l (concat (map item_text items)) c1" by auto
  have "cmem c1 (fmt + of_nat (length (concat (map item_format items)))) = 0"
    using assms(4) emits_fields(2) [OF c1(2)] l(2) unfolding cstr_iff by simp
  then have "printf_loop fmt 0 (concat (map item_args items)) l = Some (sum_list (map item_count items), c1)"
    unfolding c1(1) by (subst printf_loop.simps) simp
  moreover obtain n where n: "c1 = l\<lparr>polls := n, tx := tx l @ concat (map item_text items)\<rparr>"
    using c1(2) by (auto simp: emits_def)
  have "(if mmu_enabled c1 then c1\<lparr>print_lock := snd (pthread_spin_unlock (print_lock c1))\<rparr> else c1) =
      c\<lparr>polls := n, tx := tx c @ concat (map item_text items)\<rparr>"
    using assms(2) by (simp add: n l_def pthread_spin_unlock_def)
  ultimately show ?thesis using start by (auto simp: emits_def)
qed

text \<open>A format whose items are followed by one that overflows.\<close>

lemma overflow_item:
  assumes "item_overflows it" "cstr m p (item_format it @ fs)" "cmem c = m"
  shows "printf_loop p ret (item_args it @ ap) c = None"
proof (cases it)
  case (Dec x)
  then have "m p = 37" "m (p + 1) = 100" "as_int x = - (2 ^ 31)" using assms(1,2) by simp_all
  then show ?thesis using Dec assms(3)
    by (subst printf_loop.simps) (simp add: convert_def va_arg_def printd_def print_signed_def)
next
  case (Long_Dec x)
  then have "m p = 37" "m (p + 1) = 108" "m (p + 2) = 100" "as_long x = - (2 ^ 63)" using assms(1,2) by (simp_all add: add.assoc)
  then show ?thesis using Long_Dec assms(3)
    by (subst printf_loop.simps) (simp add: convert_def va_arg_def printld_def print_signed_def)
qed (use assms(1) in simp_all)

lemma printf_overflow:
  assumes "tx_ready c" "\<forall>it \<in> set items. item_ok (cmem c) it \<or> item_overflows it" "\<exists>it \<in> set items. item_overflows it"
    "cstr (cmem c) fmt (concat (map item_format items))"
  shows "printf fmt (concat (map item_args items)) c = None"
proof -
  from split_list_first_prop [OF assms(3)] obtain xs it ys where
    i: "items = xs @ it # ys" "item_overflows it" "\<forall>x \<in> set xs. \<not> item_overflows x" by blast
  have ok: "\<forall>x \<in> set xs. item_ok (cmem c) x" using assms(2) i(1,3) by auto
  have str: "cstr (cmem c) fmt (concat (map item_format xs) @ item_format it @ concat (map item_format ys))"
    using assms(4) i(1) by simp
  have stuck: "printf_loop fmt 0 (concat (map item_args items)) l = None" if l: "tx_ready l" "cmem l = cmem c" for l
  proof -
    let ?p = "fmt + of_nat (length (concat (map item_format xs)))"
    from printf_items [OF l(1) _ str [folded l(2)], of 0 "item_args it @ concat (map item_args ys)"] ok l(2) obtain c1 where
      c1: "printf_loop fmt 0 (concat (map item_args xs) @ item_args it @ concat (map item_args ys)) l =
        printf_loop ?p (0 + sum_list (map item_count xs)) (item_args it @ concat (map item_args ys)) c1"
        "emits l (concat (map item_text xs)) c1" by auto
    have "cstr (cmem c) ?p (item_format it @ concat (map item_format ys))"
      using str unfolding cstr_append [of _ _ "concat _"] by simp
    from overflow_item [OF i(2) this] emits_fields(2) [OF c1(2)] l(2) c1(1) show ?thesis by (simp add: i(1))
  qed
  have "tx_ready (c\<lparr>print_lock := l\<rparr>)" for l using assms(1) by (simp add: tx_ready_def)
  then show ?thesis using stuck assms(1) by (auto simp: printf_def bind_eq_None_conv split: if_splits)
qed

text \<open>A conversion with \<open>l\<close> and an unknown letter is never left.\<close>

lemma printf_hangs:
  assumes "tx_ready c" "\<forall>it \<in> set items. item_ok (cmem c) it"
    "cstr (cmem c) fmt (concat (map item_format items) @ 37 # 108 # x # fs)" "x \<notin> {120, 88, 100, 117}"
  shows "printf fmt (concat (map item_args items) @ ap) c = None"
proof -
  have stuck: "printf_loop fmt 0 (concat (map item_args items) @ ap) l = None" if l: "tx_ready l" "cmem l = cmem c" for l
  proof -
    let ?p = "fmt + of_nat (length (concat (map item_format items)))"
    from printf_items [OF l(1), of items fmt "37 # 108 # x # fs" 0 ap] assms(2,3) l(2) obtain c1 where
      c1: "printf_loop fmt 0 (concat (map item_args items) @ ap) l = printf_loop ?p (0 + sum_list (map item_count items)) ap c1"
        "emits l (concat (map item_text items)) c1" by metis
    have at: "cstr (cmem c1) ?p (37 # 108 # x # fs)"
      using assms(3) emits_fields(2) [OF c1(2)] l(2) unfolding cstr_append [of _ _ "concat _"] by simp
    then have "cmem c1 ?p = 37 \<and> cmem c1 (?p + 1) = 108 \<and> cmem c1 (?p + 2) \<notin> {120, 88, 100, 117}"
      using assms(4) by (simp add: add.assoc)
    then have "printf_loop ?p (0 + sum_list (map item_count items)) ap c1 = None"
      using printf_loop_stuck by (cases "printf_loop ?p (0 + sum_list (map item_count items)) ap c1") blast+
    then show ?thesis using c1(1) by simp
  qed
  have "tx_ready (c\<lparr>print_lock := l\<rparr>)" for l using assms(1) by (simp add: tx_ready_def)
  then show ?thesis using stuck assms(1) by (auto simp: printf_def bind_eq_None_conv split: if_splits)
qed

section \<open>Properties\<close>

text \<open>A console whose device is always ready, with the format \<open>n=%d\<close> at 0x400 and \<open>%llx\<close> at 0x500.\<close>

definition demo_console :: console where
  "demo_console = \<lparr>uart_fr = (\<lambda>_. 0), uart_dr = (\<lambda>_. 0), polls = 0, reads = 0, tx = [], print_lock = 0, read_lock = 0,
     mmu_enabled = True,
     cmem = (\<lambda>_. 0)(0x400 := 110, 0x401 := 61, 0x402 := 37, 0x403 := 100,
       0x500 := 37, 0x501 := 108, 0x502 := 108, 0x503 := 120, 0x600 := 45, 0x601 := 52, 0x602 := 50)\<rparr>"

lemma demo_console_ready: "tx_ready demo_console"
  by (auto simp: tx_ready_def demo_console_def)

text \<open>
  The decimal printers never write outside their buffers of 12 and 20 characters and print exactly the
  decimal text of their argument, with a sign where it is negative, and return its length: \<open>printd\<close> and
  \<open>printld\<close> for every number but the smallest, \<open>printlu\<close> for every number.
\<close>

theorem print_decimal_bounds:
  assumes "tx_ready c"
  shows "(- (2 ^ 31) < n \<and> n < 2 ^ 31 \<longrightarrow>
       (\<exists>c'. printd n c = Some (int (length (dec_text n)), c') \<and> emits c (dec_text n) c')) \<and>
     (- (2 ^ 63) < n \<and> n < 2 ^ 63 \<longrightarrow>
       (\<exists>c'. printld n c = Some (int (length (dec_text n)), c') \<and> emits c (dec_text n) c')) \<and>
     (\<exists>c'. printlu x c = Some (int (length (dec (unat x))), c') \<and> emits c (dec (unat x)) c')"
  using print_signed_ok [OF assms, of n 12 32] print_signed_ok [OF assms, of n 20 64] printlu_ok [OF assms, of x]
  by (auto simp: printd_def printld_def)

theorem print_decimal_bounds_witness:
  "\<exists>c'. printd (- 42) demo_console = Some (3, c') \<and> tx c' = [45, 52, 50]"
proof -
  have "dec_text (- 42) = [45, 52, 50]" by (simp add: dec_text_def dec.simps [of 42] dec.simps [of 4])
  then show ?thesis
    using print_decimal_bounds [OF demo_console_ready, of "- 42" 0] emits_fields(1) [of demo_console]
    by (fastforce simp: demo_console_def)
qed

text \<open>
  C34. \<open>printf\<close> prints a format of literal characters and the conversions \<open>%d\<close>, \<open>%s\<close>, \<open>%x\<close>, \<open>%X\<close>, \<open>%ld\<close>, \<open>%lu\<close>, \<open>%lx\<close> and
  \<open>%lX\<close>, with any arguments, as the concatenation of its items, in order and each with its own argument. Decimal numbers
  and strings are printed as meant, and so are hexadecimal numbers with a clear sign bit; one with the sign bit set is printed as
  a single character, made from the remainder of the negative number by 16 (\<open>hex_text\<close>). It returns
  the sum of the lengths, less one for every hexadecimal number; the memory is unchanged and the lock is free again. When
  the most negative number is among the arguments of \<open>%d\<close> or \<open>%ld\<close>, the call is undefined, because its negation overflows.
\<close>

theorem printf_correct:
  assumes "tx_ready c" "print_lock c = 0" "\<forall>it \<in> set items. item_ok (cmem c) it \<or> item_overflows it"
    "cstr (cmem c) fmt (concat (map item_format items))"
  shows "if \<exists>it \<in> set items. item_overflows it then printf fmt (concat (map item_args items)) c = None
    else \<exists>c'. printf fmt (concat (map item_args items)) c = Some (sum_list (map item_count items), c') \<and>
      tx c' = tx c @ concat (map item_text items) \<and> cmem c' = cmem c \<and> print_lock c' = 0"
proof (cases "\<exists>it \<in> set items. item_overflows it")
  case True
  from printf_overflow [OF assms(1,3) this assms(4)] True show ?thesis by simp
next
  case False
  then have "\<forall>it \<in> set items. item_ok (cmem c) it" using assms(3) by blast
  from printf_ok [OF assms(1,2) this assms(4)] emits_fields(1,2,5) [of c] assms(2) False show ?thesis by metis
qed

theorem printf_correct_witness:
  "\<exists>c'. printf 0x400 [7] demo_console = Some (3, c') \<and> tx c' = [110, 61, 55]"
proof -
  let ?items = "[Lit 110, Lit 61, Dec 7]"
  have "as_int 7 = 7" "dec_text 7 = [55]" by (simp_all add: as_int_def dec_text_def dec.simps [of 7])
  moreover have "cstr (cmem demo_console) 0x400 (concat (map item_format ?items))" "print_lock demo_console = 0"
    "\<forall>it \<in> set ?items. item_ok (cmem demo_console) it \<or> item_overflows it" "tx demo_console = []"
    "\<not> (\<exists>it \<in> set ?items. item_overflows it)"
    by (simp_all add: demo_console_def as_int_def)
  ultimately show ?thesis using printf_correct [OF demo_console_ready, of ?items "0x400"] by auto
qed

text \<open>
  C35. A conversion \<open>%l\<close> followed by any other letter than \<open>x\<close>, \<open>X\<close>, \<open>d\<close> or \<open>u\<close>, such as \<open>%llx\<close>, stops the system: the
  items before it are printed, and then the conversion consumes no character, so that \<open>printf\<close>, which
  holds its lock, repeats it for ever and does not return.
\<close>

theorem printf_unknown_long_diverges:
  assumes "tx_ready c" "print_lock c = 0" "\<forall>it \<in> set items. item_ok (cmem c) it"
    "cstr (cmem c) fmt (concat (map item_format items) @ 37 # 108 # x # fs)" "x \<notin> {120, 88, 100, 117}"
  shows "printf fmt (concat (map item_args items) @ ap) c = None \<and> (\<forall>ap c'. convert 108 x ap c' = Some (0, 0, ap, c'))"
  using printf_hangs [OF assms(1,3-5), of ap] assms(5) by (simp add: convert_def)

theorem printf_unknown_long_diverges_witness: "printf 0x500 [0x1234] demo_console = None"
proof -
  have "print_lock demo_console = 0" "cstr (cmem demo_console) 0x500 (concat (map item_format []) @ 37 # 108 # 108 # [120])"
    by (simp_all add: demo_console_def)
  from printf_unknown_long_diverges [OF demo_console_ready this(1) _ this(2), of "[0x1234]"] show ?thesis by simp
qed

text \<open>
  \<open>atoi\<close> reads back what \<open>printd\<close> prints: for every \<open>int\<close> but the smallest, a string with its decimal text is
  converted to the number, without overflow on the way.
\<close>

theorem atoi_print_roundtrip:
  assumes "- (2 ^ 31) < n" "n < 2 ^ 31" "s \<noteq> 0" "cstr m s (dec_text n)"
  shows "atoi s m = Some n"
proof -
  define k where "k = nat \<bar>n\<bar>"
  have k: "int k = \<bar>n\<bar>" by (simp add: k_def)
  have digits: "atoi_loop m a 0 = Some \<bar>n\<bar>" "is_digit (m a)" if "cstr m a (dec k)" for a
  proof -
    have "digits_value 0 (dec k) = \<bar>n\<bar>" using dec_value k by simp
    then show "atoi_loop m a 0 = Some \<bar>n\<bar>"
      using atoi_loop_ok [OF that, of 0] dec_digits assms(1,2) by auto
    show "is_digit (m a)" using that dec_hd [of k] by (cases "dec k") auto
  qed
  have blank: "skip_blanks m s = Some s" if "is_digit (m s) \<or> m s = 45"
    using that by (auto simp: skip_blanks.simps [of m s] is_digit_def)
  have sign: "is_digit (m s) \<Longrightarrow> m s \<noteq> 45" by (auto simp: is_digit_def)
  show ?thesis
  proof (cases "n < 0")
    case True
    then have c: "m s = 45" "cstr m (s + 1) (dec k)" using assms(4) by (simp_all add: dec_text_def k_def)
    have "int_range n" using assms(1,2) by (simp add: int_range_def)
    then show ?thesis using True assms(3) c digits [OF c(2)] blank by (simp add: atoi_def)
  next
    case False
    then have c: "cstr m s (dec k)" using assms(4) by (simp add: dec_text_def k_def)
    show ?thesis using False assms(3) digits [OF c] blank sign by (simp add: atoi_def)
  qed
qed

theorem atoi_print_roundtrip_witness: "atoi 0x600 (cmem demo_console) = Some (- 42)"
proof -
  have "dec_text (- 42) = [45, 52, 50]" by (simp add: dec_text_def dec.simps [of 42] dec.simps [of 4])
  then have "cstr (cmem demo_console) 0x600 (dec_text (- 42))" by (simp add: demo_console_def)
  from atoi_print_roundtrip [OF _ _ _ this] show ?thesis by simp
qed

end
