(* ===== verification/Gic.thy ===== *)
theory Gic
  imports Prelude
begin

text \<open>
  The interrupt controller of \<open>src/src/gic.c\<close>. Its registers are a device: what they read is a function of
  the number of the access and the address, and the writes are a list in the order of the code.
\<close>

section \<open>Registers\<close>

definition GIC_DIST_BASE :: u64 where "GIC_DIST_BASE = 0x08000000"
definition GIC_CPU_BASE :: u64 where "GIC_CPU_BASE = GIC_DIST_BASE + 0x10000"

definition GICD_CTLR :: u64 where "GICD_CTLR = GIC_DIST_BASE + 0x000"
definition GICD_ISENABLER :: u64 where "GICD_ISENABLER = GIC_DIST_BASE + 0x100"
definition GICD_ITARGETS :: u64 where "GICD_ITARGETS = GIC_DIST_BASE + 0x800"

definition GICC_CTLR :: u64 where "GICC_CTLR = GIC_CPU_BASE + 0x0000"
definition GICC_PMR :: u64 where "GICC_PMR = GIC_CPU_BASE + 0x0004"
definition GICC_IAR :: u64 where "GICC_IAR = GIC_CPU_BASE + 0x000C"
definition GICC_EOIR :: u64 where "GICC_EOIR = GIC_CPU_BASE + 0x0010"

record gic =
  gic_regs :: "nat \<Rightarrow> u64 \<Rightarrow> u32"
  gic_reads :: nat
  gic_writes :: "(u64 \<times> u32) list"

definition read32 :: "u64 \<Rightarrow> gic \<Rightarrow> u32 \<times> gic" where
  "read32 a s = (gic_regs s (gic_reads s) a, s\<lparr>gic_reads := gic_reads s + 1\<rparr>)"

definition write32 :: "u64 \<Rightarrow> u32 \<Rightarrow> gic \<Rightarrow> gic" where
  "write32 a v s = s\<lparr>gic_writes := gic_writes s @ [(a, v)]\<rparr>"

section \<open>Operations\<close>

definition gic_init :: "gic \<Rightarrow> gic" where
  "gic_init s =
     (let s = write32 GICD_CTLR 0 s;
          s = write32 GICC_CTLR 1 s;
          s = write32 GICC_PMR 0xFF s
      in write32 GICD_CTLR 1 s)"

text \<open>The shift \<open>1 << (id % 32)\<close> is one of type \<open>int\<close>: by 31 places it is undefined.\<close>

definition gic_enable_irq :: "u64 \<Rightarrow> gic \<Rightarrow> gic option" where
  "gic_enable_irq irq s = do {
     let reg = GICD_ISENABLER + (irq div 32) * 4;
     guard (irq mod 32 < 31);
     let b = (push_bit (unat (irq mod 32)) 1 :: u64);
     let (val, s) = read32 reg s;
     let s = write32 reg (ucast ((ucast val :: u64) OR b)) s;
     Some (if 32 \<le> irq then
       let target_reg = GICD_ITARGETS + (irq div 4) * 4;
           target_shift = (irq mod 4) * 8;
           (target_val, s) = read32 target_reg s;
           target_val = (ucast target_val :: u64) OR push_bit (unat target_shift) 1
       in write32 target_reg (ucast target_val) s
     else s)
   }"

definition gic_aoi :: "gic \<Rightarrow> u64 \<times> gic" where
  "gic_aoi s = (let (v, s) = read32 GICC_IAR s in (ucast v, s))"

definition gic_eoi :: "u64 \<Rightarrow> gic \<Rightarrow> gic" where
  "gic_eoi irq s = write32 GICC_EOIR (ucast irq) s"

lemma gic_enable_irq_some: "irq mod 32 \<noteq> 31 \<Longrightarrow> \<exists>s'. gic_enable_irq irq s = Some s'"
proof -
  assume "irq mod 32 \<noteq> 31"
  moreover have "irq mod 32 < 32" by (rule word_mod_less_divisor) simp
  ultimately have "irq mod 32 < 31" by (simp add: word_less_nat_alt word_unat_eq_iff)
  then show ?thesis by (simp add: gic_enable_irq_def split_def Let_def)
qed

section \<open>Setting one bit\<close>

lemma bit_set_one:
  assumes "n < 32"
  shows "bit (ucast ((ucast (v :: u32) :: u64) OR push_bit n 1) :: u32) k \<longleftrightarrow> bit v k \<or> k = n"
  using assms by (cases "k < 32") (auto simp: bit_simps dest: bit_imp_le_length)

section \<open>Properties\<close>

text \<open>
  \<open>gic_enable_irq\<close>, for an interrupt whose number is not 31 modulo 32: in the enable register of the interrupt
  its bit is added to the bits that were read, and, for an interrupt that is not private to a core, the bit
  of core 0 is added to the byte of the interrupt in its target register; no other bit changes and no other
  register is written.
\<close>

theorem gic_enable_irq_correct:
  assumes "irq mod 32 \<noteq> 31"
  shows "\<exists>s' en tg. gic_enable_irq irq s = Some s' \<and>
     gic_writes s' = gic_writes s @ (GICD_ISENABLER + 4 * (irq div 32), en) #
       (if 32 \<le> irq then [(GICD_ITARGETS + 4 * (irq div 4), tg)] else []) \<and>
     (\<forall>k. bit en k \<longleftrightarrow> bit (gic_regs s (gic_reads s) (GICD_ISENABLER + 4 * (irq div 32))) k \<or> k = unat irq mod 32) \<and>
     (\<forall>k. bit tg k \<longleftrightarrow> bit (gic_regs s (gic_reads s + 1) (GICD_ITARGETS + 4 * (irq div 4))) k \<or> k = 8 * (unat irq mod 4))"
proof -
  let ?a = "GICD_ISENABLER + 4 * (irq div 32)" and ?t = "GICD_ITARGETS + 4 * (irq div 4)"
  let ?en = "ucast ((ucast (gic_regs s (gic_reads s) ?a) :: u64) OR push_bit (unat (irq mod 32)) 1) :: u32"
  let ?tg = "ucast ((ucast (gic_regs s (gic_reads s + 1) ?t) :: u64) OR push_bit (unat ((irq mod 4) * 8)) 1) :: u32"
  have m: "unat (irq mod 32) = unat irq mod 32" "unat (irq mod 4) = unat irq mod 4" by (simp_all add: unat_mod_distrib)
  have "unat irq mod 4 < 4" by simp
  then have t: "unat ((irq mod 4) * 8) = 8 * (unat irq mod 4)"
    using unat_mult_no_wrap [of "irq mod 4" 8] m(2) by (simp add: mult.commute)
  have "unat (irq mod 32) \<noteq> unat (31 :: u64)" using assms by (simp only: word_unat_eq_iff [symmetric] not_False_eq_True)
  then have "unat irq mod 32 \<noteq> 31" using m(1) by simp
  then have "unat irq mod 32 < 31" using mod_less_divisor [of 32 "unat irq"] by linarith
  then have g: "irq mod 32 < 31" using m(1) by (simp add: word_less_nat_alt)
  have "gic_enable_irq irq s = Some (s\<lparr>gic_reads := gic_reads s + (if 32 \<le> irq then 2 else 1),
      gic_writes := gic_writes s @ (?a, ?en) # (if 32 \<le> irq then [(?t, ?tg)] else [])\<rparr>)"
    using g by (simp add: gic_enable_irq_def read32_def write32_def Let_def mult.commute)
  moreover have "\<forall>k. bit ?en k \<longleftrightarrow> bit (gic_regs s (gic_reads s) ?a) k \<or> k = unat irq mod 32"
    unfolding m by (intro allI bit_set_one) simp
  moreover have "\<forall>k. bit ?tg k \<longleftrightarrow> bit (gic_regs s (gic_reads s + 1) ?t) k \<or> k = 8 * (unat irq mod 4)"
    unfolding t using \<open>unat irq mod 4 < 4\<close> by (intro allI bit_set_one) linarith
  ultimately show ?thesis by auto
qed

text \<open>The interrupt of the network device.\<close>

theorem gic_enable_irq_correct_witness:
  "\<exists>s' en tg. gic_enable_irq 48 \<lparr>gic_regs = (\<lambda>_ _. 5), gic_reads = 0, gic_writes = []\<rparr> = Some s' \<and>
     gic_writes s' = [(0x08000104, en), (0x08000830, tg)] \<and> bit en 16 \<and> bit en 2 \<and> bit tg 0 \<and> \<not> bit tg 8"
proof -
  let ?s = "\<lparr>gic_regs = (\<lambda>_ _. 5), gic_reads = 0, gic_writes = []\<rparr> :: gic"
  obtain s' en tg where "gic_enable_irq 48 ?s = Some s'" "gic_writes s' = [(0x08000104, en), (0x08000830, tg)]"
    "\<forall>k. bit en k \<longleftrightarrow> bit (5 :: u32) k \<or> k = 16" "\<forall>k. bit tg k \<longleftrightarrow> bit (5 :: u32) k \<or> k = 0"
    using gic_enable_irq_correct [of 48 ?s] by (auto simp: GICD_ISENABLER_def GICD_ITARGETS_def GIC_DIST_BASE_def)
  then show ?thesis by (simp add: bit_numeral_rec)
qed

end
