(* ===== verification/Net_Checksum.thy ===== *)
theory Net_Checksum
  imports Cmem
begin

text \<open>
  Byte order and the Internet checksum of \<open>src/src/net.c\<close>: the sum of the 16-bit words of a block in one's
  complement arithmetic, over the byte memory.
\<close>

section \<open>The operations\<close>

definition ntohs :: "u16 \<Rightarrow> u16" where
  "ntohs netshort = drop_bit 8 netshort OR push_bit 8 netshort"

text \<open>The loop over the \<open>length / 2\<close> pairs of bytes, and the loop that folds the carries.\<close>

primrec sum_pairs :: "nat \<Rightarrow> mem \<Rightarrow> u64 \<Rightarrow> u32 \<Rightarrow> u32" where
  "sum_pairs 0 m a acc = acc"
| "sum_pairs (Suc n) m a acc = sum_pairs n m (a + 2) (acc + (push_bit 8 (ucast (m a)) OR ucast (m (a + 1))))"

lemma fold_decreases:
  fixes acc :: u32
  assumes "drop_bit 16 acc \<noteq> 0"
  shows "unat ((acc AND 0xFFFF) + drop_bit 16 acc) = unat acc mod 65536 + unat acc div 65536"
    "unat ((acc AND 0xFFFF) + drop_bit 16 acc) < unat acc"
proof -
  have u: "unat (acc AND 0xFFFF) = unat acc mod 65536"
  proof -
    have "acc AND 0xFFFF = take_bit 16 acc" by (simp add: take_bit_eq_mask mask_eq_exp_minus_1)
    then show ?thesis using unsigned_take_bit_eq [of 16 acc, where ?'a = nat] by (simp add: take_bit_eq_mod)
  qed
  have d: "unat (drop_bit 16 acc) = unat acc div 65536" by (simp add: drop_bit_eq_div unat_div_distrib)
  have "unat acc < 4294967296" by (rule unat_u32_lt)
  then have "unat acc div 65536 < 65536" by (simp add: less_mult_imp_div_less)
  then show e: "unat ((acc AND 0xFFFF) + drop_bit 16 acc) = unat acc mod 65536 + unat acc div 65536"
    using unat_add_no_wrap [of "acc AND 0xFFFF" "drop_bit 16 acc"] u d mod_less_divisor [of 65536 "unat acc"] by simp
  have "unat acc div 65536 \<noteq> 0" using assms d by (metis unat_eq_0)
  then show "unat ((acc AND 0xFFFF) + drop_bit 16 acc) < unat acc"
    unfolding e using div_mult_mod_eq [of "unat acc" 65536] by linarith
qed

function fold_carries :: "u32 \<Rightarrow> u32" where
  "fold_carries acc = (if drop_bit 16 acc \<noteq> 0 then fold_carries ((acc AND 0xFFFF) + drop_bit 16 acc) else acc)"
  by pat_completeness auto
termination
  by (relation "measure unat") (simp_all only: in_measure wf_measure fold_decreases(2) not_False_eq_True)

declare fold_carries.simps [simp del]

definition calculate_checksum :: "mem \<Rightarrow> u64 \<Rightarrow> u32 \<Rightarrow> u16" where
  "calculate_checksum m data len =
     (let acc = sum_pairs (unat (len div 2)) m data 0;
          acc = (if len mod 2 \<noteq> 0 then acc + push_bit 8 (ucast (m (data + ucast (len - 1)))) else acc)
      in ucast (NOT (fold_carries acc)))"

section \<open>Byte order\<close>

lemma bytes_disjoint:
  "16 \<le> LENGTH('a::len) \<Longrightarrow>
   unat (ucast (x :: u8) OR push_bit 8 (ucast (y :: u8)) :: 'a word) = unat x + 256 * unat y"
proof -
  assume l: "16 \<le> LENGTH('a)"
  let ?y = "push_bit 8 (ucast y) :: 'a word"
  have "ucast x AND ?y = 0"
    by (rule bit_word_eqI) (auto simp: bit_simps dest: bit_imp_le_length)
  then have "ucast x OR ?y = ucast x + ?y" by (simp add: disjunctive_add_eq_or)
  moreover have p: "(2 :: nat) ^ 16 \<le> 2 ^ LENGTH('a)" using l by (rule power_increasing) simp
  have ux: "unat (ucast x :: 'a word) = unat x" "unat (ucast y :: 'a word) = unat y"
    using unat_u8_lt [of x] unat_u8_lt [of y] p by (simp_all add: unsigned_ucast_eq take_bit_nat_eq_self)
  moreover have "unat ?y = 256 * unat y"
  proof -
    have "unat (256 :: 'a word) = 256" using p unsigned_of_nat [of 256, where ?'a = nat and ?'b = 'a]
      by (simp add: take_bit_nat_eq_self)
    then show ?thesis
      using ux(2) unat_u8_lt [of y] p unat_mult_no_wrap [of "256 :: 'a word" "ucast y"]
      by (simp add: push_bit_eq_mult mult.commute)
  qed
  ultimately show ?thesis
    using unat_add_no_wrap [of "ucast x :: 'a word" ?y] unat_u8_lt [of x] unat_u8_lt [of y] p by simp
qed

lemma ntohs_ntohs: "ntohs (ntohs x) = x"
proof (rule bit_word_eqI)
  fix n assume "n < LENGTH(16)"
  then have "n < 8 \<or> n = 8 + (n - 8)" by arith
  then show "bit (ntohs (ntohs x)) n \<longleftrightarrow> bit x n"
    using \<open>n < LENGTH(16)\<close> by (auto simp: ntohs_def bit_simps dest: bit_imp_le_length)
qed

text \<open>A 16-bit field in network order is its two bytes, the high one first.\<close>

lemma ntohs_bytes: "ntohs (ucast (x :: u8) OR push_bit 8 (ucast (y :: u8))) = ucast y OR push_bit 8 (ucast x)"
proof (rule bit_word_eqI)
  fix n assume "n < LENGTH(16)"
  then show "bit (ntohs (ucast x OR push_bit 8 (ucast y))) n \<longleftrightarrow> bit (ucast y OR push_bit 8 (ucast x) :: u16) n"
    by (auto simp: ntohs_def bit_simps dest: bit_imp_le_length)
qed

lemma ld16_bytes: "ld16 m a = ucast (m a) OR push_bit 8 (ucast (m (a + 1)))"
  by (simp add: ld16_def ld_bytes_Suc numeral_2_eq_2)

lemma ld16_be: "unat (ntohs (ld16 m a)) = 256 * unat (m a) + unat (m (a + 1))"
  unfolding ld16_bytes ntohs_bytes by (simp add: bytes_disjoint)

lemma st16_be: "st16 m a (ntohs v) a = ucast (drop_bit 8 v)" "st16 m a (ntohs v) (a + 1) = ucast v"
  "x \<noteq> a \<Longrightarrow> x \<noteq> a + 1 \<Longrightarrow> st16 m a (ntohs v) x = m x"
proof -
  have l: "to_le 2 (ntohs v) = [ucast (drop_bit 8 v), ucast v]"
  proof -
    have "ucast (ntohs v) = (ucast (drop_bit 8 v) :: u8)" "ucast (drop_bit 8 (ntohs v)) = (ucast v :: u8)"
      by (rule bit_word_eqI; auto simp: ntohs_def bit_simps dest: bit_imp_le_length)+
    then show ?thesis by (simp add: numeral_2_eq_2)
  qed
  have "in_block a (Suc (Suc 0)) x \<longleftrightarrow> x = a \<or> x = a + 1" for x using in_block_add [of 1 1 a x] by simp
  then show "st16 m a (ntohs v) a = ucast (drop_bit 8 v)" "st16 m a (ntohs v) (a + 1) = ucast v"
    "x \<noteq> a \<Longrightarrow> x \<noteq> a + 1 \<Longrightarrow> st16 m a (ntohs v) x = m x"
    by (simp_all add: st16_def st_bytes_def l)
qed

section \<open>The checksum\<close>

text \<open>
  The reference: the sum of the big-endian words of a byte string, an odd byte at the end being a high
  one, and the value of a sum in one's complement arithmetic of 16 bits, where zero is only the empty sum.
\<close>

fun be_sum :: "u8 list \<Rightarrow> nat" where
  "be_sum [] = 0"
| "be_sum [x] = 256 * unat x"
| "be_sum (x # y # xs) = 256 * unat x + unat y + be_sum xs"

definition ones_sum :: "nat \<Rightarrow> nat" where
  "ones_sum n = (if n = 0 then 0 else (n - 1) mod 65535 + 1)"

lemma be_sum_bound: "be_sum xs \<le> 65535 * ((length xs + 1) div 2)"
proof (induction xs rule: be_sum.induct)
  case (2 x)
  then show ?case using unat_u8_lt [of x] by simp
next
  case (3 x y xs)
  then show ?case using unat_u8_lt [of x] unat_u8_lt [of y] by simp
qed simp

lemma be_sum_append_even: "even (length xs) \<Longrightarrow> be_sum (xs @ ys) = be_sum xs + be_sum ys"
  by (induction xs rule: be_sum.induct) simp_all

lemma ones_sum_le: "ones_sum n \<le> 65535"
proof -
  have "(n - 1) mod 65535 < 65535" by simp
  moreover have "ones_sum n = 0 \<or> ones_sum n = (n - 1) mod 65535 + 1" by (simp add: ones_sum_def)
  ultimately show ?thesis by linarith
qed

lemma ones_sum_small: "n < 65536 \<Longrightarrow> ones_sum n = n"
  by (simp add: ones_sum_def)

lemma ones_sum_fold: "ones_sum (n mod 65536 + n div 65536) = ones_sum n"
proof (cases "n = 0")
  case False
  have "n mod 65536 + n div 65536 \<noteq> 0" using False by (metis add_is_0 div_mult_mod_eq mult_zero_left)
  moreover from this have "n - 1 = (n mod 65536 + n div 65536 - 1) + 65535 * (n div 65536)"
    using div_mult_mod_eq [of n 65536] by linarith
  ultimately show ?thesis using False by (simp add: ones_sum_def)
qed (simp add: ones_sum_def)

text \<open>Two's sums that agree modulo 65535, both not zero, have the same value.\<close>

lemma ones_sum_complement: "ones_sum (n + (65535 - ones_sum n)) = 65535"
proof (cases "n = 0")
  case False
  define k r where "k = (n - 1) div 65535" and "r = (n - 1) mod 65535"
  have "n - 1 = k * 65535 + r" "r < 65535" by (simp_all add: k_def r_def)
  moreover have "ones_sum n = r + 1" using False by (simp add: ones_sum_def r_def)
  ultimately have "n + (65535 - ones_sum n) = 65535 * (k + 1)" using False by simp
  moreover have "(65535 * (k + 1) - 1) mod 65535 = 65534" for k :: nat
  proof -
    have "65535 * (k + 1) - 1 = 65534 + 65535 * k" by simp
    then show ?thesis by (simp only: mod_mult_self2) simp
  qed
  ultimately show ?thesis by (simp add: ones_sum_def)
qed (simp add: ones_sum_def)

lemma unat_fold_carries: "unat (fold_carries acc) = ones_sum (unat acc)"
proof (induction acc rule: fold_carries.induct)
  case (1 acc)
  show ?case
  proof (cases "drop_bit 16 acc = 0")
    case True
    have "unat (drop_bit 16 acc) = unat acc div 65536" by (simp add: drop_bit_eq_div unat_div_distrib)
    then have "unat acc div 65536 = 0" using True by simp
    then have "unat acc < 65536" by (simp add: div_eq_0_iff)
    then show ?thesis using True by (simp add: fold_carries.simps [of acc] ones_sum_small)
  next
    case False
    then show ?thesis
      using 1 fold_decreases(1) [OF False] ones_sum_fold by (simp add: fold_carries.simps [of acc])
  qed
qed

lemma unat_be_pair: "unat (push_bit 8 (ucast (x :: u8)) OR ucast (y :: u8) :: u32) = 256 * unat x + unat y"
  using bytes_disjoint [of y x, where ?'a = 32] by (simp add: or.commute)

lemma sum_pairs_be_sum:
  "unat acc + be_sum (ld_bytes m a (2 * n)) < 2 ^ 32 \<Longrightarrow>
   unat (sum_pairs n m a acc) = unat acc + be_sum (ld_bytes m a (2 * n))"
proof (induction n arbitrary: a acc)
  case (Suc n)
  let ?w = "push_bit 8 (ucast (m a)) OR ucast (m (a + 1)) :: u32"
  have l: "ld_bytes m a (Suc (Suc (2 * n))) = m a # m (a + 1) # ld_bytes m (a + 2) (2 * n)"
    by (simp add: ld_bytes_Suc add.assoc)
  have "unat (acc + ?w) = unat acc + unat ?w"
    using Suc.prems unat_be_pair [of "m a" "m (a + 1)"] by (intro unat_add_no_wrap) (simp add: l)
  then show ?case
    using Suc.IH [of "acc + ?w" "a + 2"] Suc.prems unat_be_pair [of "m a" "m (a + 1)"] by (simp add: l)
qed simp

lemma unat_ucast_not: "unat w < 65536 \<Longrightarrow> unat (ucast (NOT (w :: u32)) :: u16) = 65535 - unat w"
proof -
  assume w: "unat w < 65536"
  have "ucast (NOT w) = (NOT (ucast w) :: u16)" by (rule bit_word_eqI) (simp add: bit_simps)
  also have "\<dots> = - 1 - ucast w" by (simp add: not_eq_complement)
  finally have "unat (ucast (NOT w) :: u16) = unat (- 1 - ucast w :: u16)" by simp
  also have "\<dots> = unat (- 1 :: u16) - unat (ucast w :: u16)" by (rule unat_sub_no_wrap) simp
  also have "unat (- 1 :: u16) = 65535" by (simp add: unsigned_minus_1_eq_mask mask_eq_exp_minus_1)
  also have "unat (ucast w :: u16) = unat w" using w by (simp add: unsigned_ucast_eq take_bit_nat_eq_self)
  finally show ?thesis .
qed

lemma ucast_of_unat: "unat (w :: u32) = k \<Longrightarrow> ucast w = (of_nat k :: u64)"
  by auto

lemma calculate_checksum_spec:
  assumes "unat len \<le> 131070"
  shows "unat (calculate_checksum m a len) = 65535 - ones_sum (be_sum (ld_bytes m a (unat len)))"
proof -
  let ?n = "unat len div 2"
  have half: "unat (len div 2) = ?n" by (simp add: unat_div_distrib)
  have bound: "be_sum (ld_bytes m a k) \<le> 65535 * 65535" if "k \<le> 131070" for k
  proof -
    have "(k + 1) div 2 \<le> 65535" using that by simp
    then show ?thesis using be_sum_bound [of "ld_bytes m a k"] by (metis length_ld_bytes le_trans mult_le_mono2)
  qed
  have s1: "unat (sum_pairs ?n m a 0) = be_sum (ld_bytes m a (2 * ?n))"
  proof -
    have "2 * ?n \<le> 131070" using assms by linarith
    from bound [OF this] have "be_sum (ld_bytes m a (2 * ?n)) < 2 ^ 32" by (rule le_less_trans) simp
    then show ?thesis using sum_pairs_be_sum [of 0 m a ?n] by (simp only: unsigned_0 add_0)
  qed
  have odd: "len mod 2 \<noteq> 0 \<longleftrightarrow> unat len mod 2 = 1"
  proof -
    have "unat (len mod 2) = unat len mod 2" by (simp add: unat_mod_distrib)
    moreover have "len mod 2 = 0 \<longleftrightarrow> unat (len mod 2) = 0" by (simp only: unat_eq_0)
    ultimately show ?thesis by presburger
  qed
  define acc where "acc = (if len mod 2 \<noteq> 0 then sum_pairs ?n m a 0 + push_bit 8 (ucast (m (a + ucast (len - 1))))
    else sum_pairs ?n m a 0)"
  have "unat acc = be_sum (ld_bytes m a (unat len))"
  proof (cases "unat len mod 2 = 1")
    case False
    then have "2 * ?n = unat len" by presburger
    then show ?thesis using s1 odd False by (simp add: acc_def)
  next
    case True
    then have len: "unat len = 2 * ?n + 1" by presburger
    let ?x = "m (a + of_nat (2 * ?n))"
    have "unat (len - 1) = 2 * ?n" using len unat_dec [of len] by (cases "len = 0") simp_all
    then have "ucast (len - 1) = (of_nat (2 * ?n) :: u64)" by (rule ucast_of_unat)
    moreover have "ld_bytes m a (2 * k + 1) = ld_bytes m a (2 * k) @ [m (a + of_nat (2 * k))]" for k
      by (simp add: ld_bytes_def)
    from this [of ?n] have "ld_bytes m a (unat len) = ld_bytes m a (2 * ?n) @ [?x]" by (simp only: len [symmetric])
    then have b: "be_sum (ld_bytes m a (unat len)) = be_sum (ld_bytes m a (2 * ?n)) + 256 * unat ?x"
      by (simp add: be_sum_append_even)
    moreover have x: "unat (push_bit 8 (ucast ?x) :: u32) = 256 * unat ?x" using unat_be_pair [of ?x 0] by simp
    ultimately show ?thesis
      using s1 odd True bound [OF assms] unat_add_no_wrap [of "sum_pairs ?n m a 0" "push_bit 8 (ucast ?x)"]
      by (simp add: acc_def)
  qed
  then have f: "unat (fold_carries acc) = ones_sum (be_sum (ld_bytes m a (unat len)))"
    using unat_fold_carries [of acc] by (simp only:)
  have "unat (fold_carries acc) < 65536"
    unfolding f using ones_sum_le [of "be_sum (ld_bytes m a (unat len))"] by linarith
  from unat_ucast_not [OF this] f
  have "unat (ucast (NOT (fold_carries acc)) :: u16) = 65535 - ones_sum (be_sum (ld_bytes m a (unat len)))"
    by (simp only:)
  moreover have "calculate_checksum m a len = ucast (NOT (fold_carries acc))"
    unfolding calculate_checksum_def acc_def half Let_def ..
  ultimately show ?thesis by (simp only:)
qed

text \<open>A word that is filled into a zero field at an even place adds to the sum.\<close>

lemma be_sum_insert:
  "2 * k + 1 < length xs \<Longrightarrow> xs ! (2 * k) = 0 \<Longrightarrow> xs ! (2 * k + 1) = 0 \<Longrightarrow>
   be_sum (xs[2 * k := x, 2 * k + 1 := y]) = be_sum xs + 256 * unat x + unat y"
proof (induction k arbitrary: xs)
  case 0
  then obtain zs where "xs = 0 # 0 # zs" by (cases xs; cases "tl xs") auto
  then show ?case by simp
next
  case (Suc k)
  then obtain a b zs where xs: "xs = a # b # zs" by (cases xs; cases "tl xs") auto
  then show ?case using Suc.IH [of zs] Suc.prems by simp
qed

text \<open>
  The checksum of the Internet protocols as it is defined: the big-endian words of the block, an odd byte at the end being a high
  one, are added one after another with an end-around carry, and the sum is complemented.
\<close>

fun be_words :: "u8 list \<Rightarrow> nat list" where
  "be_words [] = []"
| "be_words [x] = [256 * unat x]"
| "be_words (x # y # xs) = (256 * unat x + unat y) # be_words xs"

definition ones_add :: "nat \<Rightarrow> nat \<Rightarrow> nat" where
  "ones_add x y = (if x + y < 65536 then x + y else x + y - 65535)"

definition internet_checksum :: "u8 list \<Rightarrow> nat" where
  "internet_checksum xs = 65535 - foldl ones_add 0 (be_words xs)"

lemma ones_add_sum:
  assumes "w \<le> 65535"
  shows "ones_add (ones_sum a) w = ones_sum (a + w)"
proof (cases "a = 0")
  case True
  then show ?thesis using assms by (simp add: ones_add_def ones_sum_small)
next
  case False
  define r where "r = (a - 1) mod 65535"
  have r: "r < 65535" "ones_sum a = r + 1" using False by (simp_all add: r_def ones_sum_def)
  have "a + w - 1 = (a - 1) + w" using False by simp
  then have "(a + w - 1) mod 65535 = (r + w) mod 65535" by (simp only: r_def mod_add_left_eq)
  also have "\<dots> = (if r + w < 65535 then r + w else r + w - 65535)" using r(1) assms by (simp add: mod_if)
  finally have m: "ones_sum (a + w) = (if r + w < 65535 then r + w else r + w - 65535) + 1"
    using False by (simp only: ones_sum_def) simp
  show ?thesis unfolding m r(2) ones_add_def by (cases "r + w < 65535") simp_all
qed

lemma ones_add_words: "foldl ones_add (ones_sum a) (be_words xs) = ones_sum (a + be_sum xs)"
proof (induction xs arbitrary: a rule: be_sum.induct)
  case (2 x)
  then show ?case using unat_u8_lt [of x] by (simp add: ones_add_sum)
next
  case (3 x y xs)
  have "256 * unat x + unat y \<le> 65535" using unat_u8_lt [of x] unat_u8_lt [of y] by simp
  then show ?case using "3.IH" [of "a + (256 * unat x + unat y)"] by (simp add: ones_add_sum add.assoc)
qed simp

lemma internet_checksum_sum: "internet_checksum xs = 65535 - ones_sum (be_sum xs)"
  using ones_add_words [of 0 xs] by (simp add: internet_checksum_def) (simp add: ones_sum_def)

text \<open>A block verifies when the checksum is in a field that was zero.\<close>

lemma checksum_verifies:
  assumes "unat len \<le> 131070" "2 * k + 1 < unat len" "m (a + of_nat (2 * k)) = 0" "m (a + of_nat (2 * k + 1)) = 0"
  shows "calculate_checksum (st16 m (a + of_nat (2 * k)) (ntohs (calculate_checksum m a len))) a len = 0"
proof -
  let ?c = "calculate_checksum m a len" and ?n = "unat len"
  let ?m = "st16 m (a + of_nat (2 * k)) (ntohs ?c)"
  let ?xs = "ld_bytes m a ?n"
  have small: "?n < 2 ^ 64" using unat_u32_lt [of len] by simp
  have place: "a + of_nat j = a + of_nat i \<longleftrightarrow> j = i" if "j < ?n" "i < ?n" for i j
  proof -
    have "unat (of_nat j :: u64) = j" "unat (of_nat i :: u64) = i" using that small by (simp_all add: unat_of_nat)
    then show ?thesis by (metis add_left_cancel)
  qed
  have "ld_bytes ?m a ?n = ?xs[2 * k := ucast (drop_bit 8 ?c), 2 * k + 1 := ucast ?c]"
  proof (rule nth_equalityI)
    fix j assume j: "j < length (ld_bytes ?m a ?n)"
    then have j: "j < ?n" by simp
    have next_at: "a + of_nat (2 * k) + 1 = a + of_nat (2 * k + 1)" by (simp add: add.assoc add.commute)
    consider "j = 2 * k" | "j = 2 * k + 1" | "j \<noteq> 2 * k" "j \<noteq> 2 * k + 1" by blast
    then show "ld_bytes ?m a ?n ! j = ?xs[2 * k := ucast (drop_bit 8 ?c), 2 * k + 1 := ucast ?c] ! j"
    proof cases
      case 1
      then show ?thesis using j st16_be(1) by simp
    next
      case 2
      then show ?thesis using j st16_be(2) [of m "a + of_nat (2 * k)" ?c] unfolding next_at by simp
    next
      case 3
      have "a + of_nat j \<noteq> a + of_nat (2 * k)" "a + of_nat j \<noteq> a + of_nat (2 * k + 1)"
        using place [OF j, of "2 * k"] place [OF j, of "2 * k + 1"] assms(2) 3 by simp_all
      then have "?m (a + of_nat j) = m (a + of_nat j)" by (intro st16_be(3)) (simp_all only: next_at not_False_eq_True)
      then show ?thesis using 3 j by simp
    qed
  qed simp
  moreover have "be_sum (?xs[2 * k := ucast (drop_bit 8 ?c), 2 * k + 1 := ucast ?c]) =
      be_sum ?xs + 256 * unat (ucast (drop_bit 8 ?c) :: u8) + unat (ucast ?c :: u8)"
    using assms(2-4) by (intro be_sum_insert) (simp_all only: length_ld_bytes nth_ld_bytes)
  moreover have "256 * unat (ucast (drop_bit 8 ?c) :: u8) + unat (ucast ?c :: u8) = unat ?c"
  proof -
    have "ucast (ucast ?c :: u8) OR push_bit 8 (ucast (ucast (drop_bit 8 ?c) :: u8)) = ?c"
      by (rule bit_word_eqI) (auto simp: bit_simps)
    then show ?thesis using bytes_disjoint [of "ucast ?c" "ucast (drop_bit 8 ?c)", where ?'a = 16] by simp
  qed
  moreover have "unat ?c = 65535 - ones_sum (be_sum ?xs)" by (rule calculate_checksum_spec [OF assms(1)])
  ultimately have "be_sum (ld_bytes ?m a ?n) = be_sum ?xs + (65535 - ones_sum (be_sum ?xs))" by simp
  then have "unat (calculate_checksum ?m a len) = 0"
    using calculate_checksum_spec [OF assms(1), of ?m a] ones_sum_complement by simp
  then show ?thesis by (simp only: unat_eq_0)
qed

section \<open>Properties\<close>

text \<open>
  C36. \<open>calculate_checksum\<close> is the checksum of the Internet protocols: for a block of up to 131070 bytes (65535 words) it is the
  complement of the end-around-carry sum of the big-endian words of the block. It verifies: when the checksum field,
  at an even offset, is zero, storing \<open>htons\<close> of the computed checksum there makes the checksum of the whole block zero, which
  is the test a receiver makes.
\<close>

theorem calculate_checksum_correct:
  assumes "unat len \<le> 131070"
  shows "unat (calculate_checksum m a len) = internet_checksum (ld_bytes m a (unat len)) \<and>
    (\<forall>k. 2 * k + 1 < unat len \<and> m (a + of_nat (2 * k)) = 0 \<and> m (a + of_nat (2 * k + 1)) = 0 \<longrightarrow>
       calculate_checksum (st16 m (a + of_nat (2 * k)) (ntohs (calculate_checksum m a len))) a len = 0)"
  using calculate_checksum_spec [OF assms, of m a] checksum_verifies [OF assms, of _ m a]
  by (simp only: internet_checksum_sum) blast

text \<open>The nine bytes 7 7 0 0 7 7 7 7 7, with the checksum field at offset 2.\<close>

theorem calculate_checksum_correct_witness:
  "calculate_checksum ((\<lambda>_. 7)(0x1002 := 0, 0x1003 := 0)) 0x1000 9 = 0xE3EA \<and>
   calculate_checksum (st16 ((\<lambda>_. 7)(0x1002 := 0, 0x1003 := 0)) 0x1002
     (ntohs (calculate_checksum ((\<lambda>_. 7)(0x1002 := 0, 0x1003 := 0)) 0x1000 9))) 0x1000 9 = 0"
proof -
  let ?m = "(\<lambda>_. 7)(0x1002 := 0, 0x1003 := 0) :: mem"
  have "[0..<9] = [0, 1, 2, 3, 4, 5, 6, 7, 8 :: nat]" by code_simp
  then have "ld_bytes ?m 0x1000 9 = [7, 7, 0, 0, 7, 7, 7, 7, 7]" by (simp add: ld_bytes_def)
  then have v: "internet_checksum (ld_bytes ?m 0x1000 9) = 0xE3EA" by (simp add: internet_checksum_def ones_add_def)
  have len: "unat (9 :: u32) \<le> 131070" by simp
  note c = calculate_checksum_correct [OF len, of ?m "0x1000"]
  have "unat (calculate_checksum ?m 0x1000 9) = unat (0xE3EA :: u16)" using c v by simp
  then have "calculate_checksum ?m 0x1000 9 = 0xE3EA" by (simp only: word_unat_eq_iff)
  moreover have "calculate_checksum (st16 ?m 0x1002 (ntohs (calculate_checksum ?m 0x1000 9))) 0x1000 9 = 0"
    using spec [OF conjunct2 [OF c], of 1] by simp
  ultimately show ?thesis by blast
qed

end
