(* ===== verification/Net.thy ===== *)
theory Net
  imports Net_Checksum Pmm
begin

text \<open>
  The network driver and protocols of \<open>src/src/net.c\<close>: virtqueues in memory shared with the device,
  sending and receiving of frames, ARP replies and ICMP echo replies.

  The device is seen through its registers: a read returns what the device answers to that access
  (a function of the number of the access and the offset), writes are recorded in order. What the device
  does to the shared memory happens between the operations, not during one. Arrays on the stack are byte
  lists, and \<open>memcpy\<close>, \<open>memset\<close> and \<open>memcmp\<close> on short fields are reads and writes of byte blocks. The
  division by a queue size of zero is undefined. Console output is left out.
\<close>

section \<open>State\<close>

record virtq =
  desc :: u64
  avail :: u64
  used :: u64
  qsize :: u32
  last_used_idx :: u16

record net =
  rxq :: virtq
  txq :: virtq
  net_mac :: "u8 list"
  tx_desc_idx :: u16
  frames :: pmm
  nmem :: mem
  dev_read :: "nat \<Rightarrow> u64 \<Rightarrow> u32"
  dev_reads :: nat
  dev_writes :: "(u64 \<times> u32) list"

definition my_ip :: "u8 list" where "my_ip = [10, 0, 2, 15]"

definition STATUS_ACKNOWLEDGE :: u32 where "STATUS_ACKNOWLEDGE = 1"
definition STATUS_DRIVER :: u32 where "STATUS_DRIVER = 2"
definition STATUS_FEATURES_OK :: u32 where "STATUS_FEATURES_OK = 8"
definition STATUS_DRIVER_OK :: u32 where "STATUS_DRIVER_OK = 4"
definition STATUS_FAILED :: u32 where "STATUS_FAILED = 128"

definition VIRTQ_DESC_F_WRITE :: u16 where "VIRTQ_DESC_F_WRITE = 2"

definition read32 :: "u64 \<Rightarrow> net \<Rightarrow> u32 \<times> net" where
  "read32 off s = (dev_read s (dev_reads s) off, s\<lparr>dev_reads := dev_reads s + 1\<rparr>)"

definition write32 :: "u64 \<Rightarrow> u32 \<Rightarrow> net \<Rightarrow> net" where
  "write32 off v s = s\<lparr>dev_writes := dev_writes s @ [(off, v)]\<rparr>"

text \<open>Descriptors (16 bytes), the ring of available heads and the ring of used elements (8 bytes).\<close>

definition desc_at :: "virtq \<Rightarrow> u32 \<Rightarrow> u64" where "desc_at q i = desc q + 16 * ucast i"
definition avail_idx_at :: "virtq \<Rightarrow> u64" where "avail_idx_at q = avail q + 2"
definition avail_ring_at :: "virtq \<Rightarrow> u32 \<Rightarrow> u64" where "avail_ring_at q i = avail q + 4 + 2 * ucast i"
definition used_idx_at :: "virtq \<Rightarrow> u64" where "used_idx_at q = used q + 2"
definition used_ring_at :: "virtq \<Rightarrow> u32 \<Rightarrow> u64" where "used_ring_at q i = used q + 4 + 8 * ucast i"

definition set_desc :: "virtq \<Rightarrow> u32 \<Rightarrow> u64 \<Rightarrow> u32 \<Rightarrow> u16 \<Rightarrow> mem \<Rightarrow> mem" where
  "set_desc q i addr len flags m =
     (let a = desc_at q i in
      st16 (st16 (st32 (st64 m a addr) (a + 8) len) (a + 12) flags) (a + 14) 0)"

section \<open>Queues\<close>

definition net_alloc :: "net \<Rightarrow> (u64 \<times> net) option" where
  "net_alloc s = do { (a, p) \<leftarrow> pmm_alloc_frame (frames s); Some (a, s\<lparr>frames := p\<rparr>) }"

text \<open>
  \<open>virtio_init_queue\<close>, returning the queue it sets up: the last of four frames is the base of the
  descriptors, the next one the ring of available heads, the last of three the ring of used elements. Clearing
  the rings writes through null pointers when the frames have run out, and is then undefined.
\<close>

definition virtio_init_queue :: "u32 \<Rightarrow> virtq \<Rightarrow> net \<Rightarrow> (virtq \<times> net) option" where
  "virtio_init_queue queue_index q s =
     (let s = write32 0x30 queue_index s;
          (n, s) = read32 0x34 s
      in if n = 0 then Some (q, s)
         else do {
           (_, s) \<leftarrow> net_alloc s;
           (_, s) \<leftarrow> net_alloc s;
           (_, s) \<leftarrow> net_alloc s;
           (desc_phys, s) \<leftarrow> net_alloc s;
           (avail_phys, s) \<leftarrow> net_alloc s;
           (_, s) \<leftarrow> net_alloc s;
           (_, s) \<leftarrow> net_alloc s;
           (used_phys, s) \<leftarrow> net_alloc s;
           guard (desc_phys \<noteq> 0 \<and> avail_phys \<noteq> 0 \<and> used_phys \<noteq> 0);
           let m = memset desc_phys 0 (4 * 4096) (nmem s);
           let m = memset avail_phys 0 4096 m;
           let m = memset used_phys 0 (3 * 4096) m;
           let s = s\<lparr>nmem := m\<rparr>;
           let s = write32 0x80 (ucast desc_phys) s;
           let s = write32 0x84 (ucast (drop_bit 32 desc_phys)) s;
           let s = write32 0x90 (ucast avail_phys) s;
           let s = write32 0x94 (ucast (drop_bit 32 avail_phys)) s;
           let s = write32 0xA0 (ucast used_phys) s;
           let s = write32 0xA4 (ucast (drop_bit 32 used_phys)) s;
           let s = write32 0x38 n s;
           let s = write32 0x44 1 s;
           Some (\<lparr>desc = desc_phys, avail = avail_phys, used = used_phys, qsize = n, last_used_idx = 0\<rparr>, s)
         })"

text \<open>The loop of \<open>net_rx_fill\<close>, which stops when no frame is left.\<close>

function rx_fill_loop :: "nat \<Rightarrow> net \<Rightarrow> net option" where
  "rx_fill_loop i s =
     (if i < unat (qsize (rxq s)) then do {
        (phys, s') \<leftarrow> net_alloc s;
        if phys = 0 then Some s'
        else do {
          let m = set_desc (rxq s) (of_nat i) phys 4096 VIRTQ_DESC_F_WRITE (nmem s');
          let m = st16 m (avail_ring_at (rxq s) (of_nat i mod qsize (rxq s))) (of_nat i);
          rx_fill_loop (Suc i) (s\<lparr>frames := frames s', nmem := m\<rparr>)
        }
      } else Some s)"
  by pat_completeness auto
termination
  by (relation "measure (\<lambda>(i, s). unat (qsize (rxq s)) - i)") auto

declare rx_fill_loop.simps [simp del]

text \<open>
  \<open>net_rx_fill\<close>. When \<open>virtio_init_queue\<close> found the queue unavailable, \<open>rxq\<close> is all zero: the loop has no
  round, and the index is written through the null pointer \<open>avail\<close>.
\<close>

definition net_rx_fill :: "net \<Rightarrow> net option" where
  "net_rx_fill s = do {
     s \<leftarrow> rx_fill_loop 0 s;
     guard (avail (rxq s) \<noteq> 0);
     let s = s\<lparr>nmem := st16 (nmem s) (avail_idx_at (rxq s)) (ucast (qsize (rxq s)))\<rparr>;
     Some (write32 0x50 0 s)
   }"

text \<open>The feature negotiation of \<open>net_init\<close>, up to the question whether the device accepts.\<close>

definition net_negotiate :: "net \<Rightarrow> bool \<times> net" where
  "net_negotiate s =
     (let s = write32 0x70 0 s;
          s = write32 0x70 STATUS_ACKNOWLEDGE s;
          s = write32 0x70 (STATUS_ACKNOWLEDGE OR STATUS_DRIVER) s;
          s = write32 0x14 0 s;
          (f, s) = read32 0x10 s;
          s = write32 0x24 0 s;
          s = write32 0x20 (f AND 0) s;
          s = write32 0x14 1 s;
          (f, s) = read32 0x10 s;
          s = write32 0x24 1 s;
          s = write32 0x20 (f AND 1) s;
          s = write32 0x70 (STATUS_ACKNOWLEDGE OR STATUS_DRIVER OR STATUS_FEATURES_OK) s;
          (st, s) = read32 0x70 s
      in if st AND STATUS_FEATURES_OK = 0 then (False, write32 0x70 STATUS_FAILED s) else (True, s))"

text \<open>\<open>net_init\<close>; the address comes from the configuration space of the device, one byte per access.\<close>

primrec read_mac :: "nat \<Rightarrow> net \<Rightarrow> u8 list \<times> net" where
  "read_mac 0 s = ([], s)"
| "read_mac (Suc n) s =
     (let (xs, s) = read_mac n s; (b, s) = read32 (0x100 + of_nat n) s in (xs @ [ucast b], s))"

definition net_init :: "net \<Rightarrow> net option" where
  "net_init s =
     (let (accepted, s) = net_negotiate s in
      if \<not> accepted then Some s
      else do {
        (q, s) \<leftarrow> virtio_init_queue 0 (rxq s) s;
        let s = s\<lparr>rxq := q\<rparr>;
        (q, s) \<leftarrow> virtio_init_queue 1 (txq s) s;
        let s = s\<lparr>txq := q\<rparr>;
        s \<leftarrow> net_rx_fill s;
        let (mac, s) = read_mac 6 s;
        let s = s\<lparr>net_mac := mac\<rparr>;
        Some (write32 0x70 (STATUS_ACKNOWLEDGE OR STATUS_DRIVER OR STATUS_FEATURES_OK OR STATUS_DRIVER_OK) s)
      })"

section \<open>Sending\<close>

text \<open>The header of ten zero bytes, the frame, one descriptor, one ring entry and a notification.\<close>

definition net_send :: "u8 list \<Rightarrow> net \<Rightarrow> net option" where
  "net_send mac_frame s = do {
     (phys, s) \<leftarrow> net_alloc s;
     if phys = 0 then Some s
     else do {
       let m = memset phys 0 10 (nmem s);
       let m = st_bytes m (phys + 10) mac_frame;
       guard (qsize (txq s) \<noteq> 0);
       let head = (ucast (ucast (tx_desc_idx s) mod qsize (txq s)) :: u16);
       let m = set_desc (txq s) (ucast head) phys (10 + of_nat (length mac_frame)) 0 m;
       let av = ld16 m (avail_idx_at (txq s));
       let m = st16 m (avail_ring_at (txq s) (ucast av mod qsize (txq s))) head;
       let m = st16 m (avail_idx_at (txq s)) (av + 1);
       let s = write32 0x50 1 (s\<lparr>nmem := m\<rparr>);
       Some (s\<lparr>tx_desc_idx := tx_desc_idx s + 1\<rparr>)
     }
   }"

section \<open>Protocols\<close>

text \<open>The two bytes of a field that the code stores with \<open>ntohs\<close>, on a little-endian machine.\<close>

definition be16 :: "u16 \<Rightarrow> u8 list" where
  "be16 v = to_le 2 (ntohs v)"

definition eth_header :: "u8 list \<Rightarrow> u8 list \<Rightarrow> u16 \<Rightarrow> u8 list" where
  "eth_header dst src ethertype = dst @ src @ be16 ethertype"

definition arp_body :: "u16 \<Rightarrow> u8 list \<Rightarrow> u8 list \<Rightarrow> u8 list \<Rightarrow> u8 list \<Rightarrow> u8 list" where
  "arp_body opcode sender_mac sender_ip target_mac target_ip =
     be16 1 @ be16 0x0800 @ [6, 4] @ be16 opcode @ sender_mac @ sender_ip @ target_mac @ target_ip"

definition arp_handle :: "u64 \<Rightarrow> u32 \<Rightarrow> u64 \<Rightarrow> net \<Rightarrow> net option" where
  "arp_handle payload len src_mac s =
     (if len < 28 then Some s
      else
        let m = nmem s; opcode = ntohs (ld16 m (payload + 6)) in
        if opcode = 1 \<and> ld_bytes m (payload + 24) 4 = my_ip then
          net_send (eth_header (ld_bytes m src_mac 6) (net_mac s) 0x0806 @
            arp_body 2 (net_mac s) my_ip (ld_bytes m (payload + 8) 6) (ld_bytes m (payload + 14) 4)) s
        else Some s)"

text \<open>
  The answer to an echo request is made in place: type and checksum, then the addresses; the frame is
  the packet with a new Ethernet header, as long as the packet says it is.
\<close>

definition icmp_reply :: "u64 \<Rightarrow> mem \<Rightarrow> mem" where
  "icmp_reply ip m =
     (let icmp = ip + 20;
          m = m(icmp := 0);
          m = st16 m (icmp + 2) 0;
          icmp_len = ucast (ntohs (ld16 m (ip + 2))) - ucast (m ip AND 0x0F) * 4 :: u32;
          m = st16 m (icmp + 2) (ntohs (calculate_checksum m icmp icmp_len));
          temp_ip = ld_bytes m (ip + 12) 4;
          m = st_bytes m (ip + 12) my_ip
      in st_bytes m (ip + 16) temp_ip)"

definition ipv4_handle :: "u64 \<Rightarrow> u32 \<Rightarrow> u64 \<Rightarrow> net \<Rightarrow> net option" where
  "ipv4_handle payload len src_mac s =
     (if len < 20 then Some s
      else if ld_bytes (nmem s) (payload + 16) 4 \<noteq> my_ip then Some s
      else if nmem s (payload + 9) = 1 \<and> nmem s (payload + 20) = 8 then
        let m = icmp_reply payload (nmem s);
            n = unat (ntohs (ld16 m (payload + 2)))
        in net_send (eth_header (ld_bytes m src_mac 6) (net_mac s) 0x0800 @ ld_bytes m payload n) (s\<lparr>nmem := m\<rparr>)
      else Some s)"

definition ethernet_handle_packet :: "u64 \<Rightarrow> u32 \<Rightarrow> net \<Rightarrow> net option" where
  "ethernet_handle_packet packet len s =
     (if len < 14 then Some s
      else
        let ty = ntohs (ld16 (nmem s) (packet + 12)) in
        if ty = 0x0806 then arp_handle (packet + 14) (len - 14) (packet + 6) s
        else if ty = 0x0800 then ipv4_handle (packet + 14) (len - 14) (packet + 6) s
        else Some s)"

section \<open>Receiving and releasing\<close>

text \<open>One round of the loop of \<open>net_poll_rx\<close>: the next used element is handled and its buffer given back.\<close>

definition rx_round :: "net \<Rightarrow> net option" where
  "rx_round s = do {
     let q = rxq s;
     guard (qsize q \<noteq> 0);
     let used_ring_idx = ucast (last_used_idx q) mod qsize q;
     let desc_id = ld32 (nmem s) (used_ring_at q used_ring_idx);
     let total_len = ld32 (nmem s) (used_ring_at q used_ring_idx + 4);
     let hdr = ld64 (nmem s) (desc_at q desc_id);
     let packet_len = total_len - 10;
     s \<leftarrow> (if 0 < packet_len then ethernet_handle_packet (hdr + 10) packet_len s else Some s);
     let m = memset hdr 0 10 (nmem s);
     let av = ld16 m (avail_idx_at q);
     let m = st16 m (avail_ring_at q (ucast av mod qsize q)) (ucast desc_id);
     let m = st16 m (avail_idx_at q) (av + 1);
     Some (s\<lparr>nmem := m, rxq := (rxq s)\<lparr>last_used_idx := last_used_idx (rxq s) + 1\<rparr>\<rparr>)
   }"

partial_function (option) rx_loop :: "bool \<Rightarrow> net \<Rightarrow> (bool \<times> net) option" where
  "rx_loop received s =
     (if last_used_idx (rxq s) \<noteq> ld16 (nmem s) (used_idx_at (rxq s))
      then Option.bind (rx_round s) (rx_loop True) else Some (received, s))"

definition net_poll_rx :: "net \<Rightarrow> net option" where
  "net_poll_rx s = do {
     (received, s) \<leftarrow> rx_loop False s;
     Some (if received then write32 0x50 0 s else s)
   }"

definition tx_round :: "net \<Rightarrow> net option" where
  "tx_round s = do {
     let q = txq s;
     guard (qsize q \<noteq> 0);
     let desc_id = ld32 (nmem s) (used_ring_at q (ucast (last_used_idx q) mod qsize q));
     p \<leftarrow> pmm_free_frame (ld64 (nmem s) (desc_at q desc_id)) (frames s);
     Some (s\<lparr>frames := p, txq := q\<lparr>last_used_idx := last_used_idx q + 1\<rparr>\<rparr>)
   }"

partial_function (option) net_cleanup_tx :: "net \<Rightarrow> net option" where
  "net_cleanup_tx s =
     (if last_used_idx (txq s) \<noteq> ld16 (nmem s) (used_idx_at (txq s))
      then Option.bind (tx_round s) net_cleanup_tx else Some s)"

definition arp_request_gateway :: "net \<Rightarrow> net option" where
  "arp_request_gateway s =
     net_send (eth_header (replicate 6 0xFF) (net_mac s) 0x0806 @
       arp_body 1 (net_mac s) my_ip (replicate 6 0) [10, 0, 2, 2]) s"

definition virtio_net_handle_irq :: "net \<Rightarrow> net option" where
  "virtio_net_handle_irq s =
     (let (status, s) = read32 0x60 s;
          s = write32 0x64 status s
      in if bit status 0 then do { s \<leftarrow> net_poll_rx s; net_cleanup_tx s } else Some s)"

section \<open>Releasing transmitted frames\<close>

primrec free_all :: "u64 list \<Rightarrow> pmm \<Rightarrow> pmm option" where
  "free_all [] p = Some p"
| "free_all (a # as) p = Option.bind (pmm_free_frame a p) (free_all as)"

text \<open>The buffers of \<open>n\<close> used elements of the transmit queue from position \<open>i\<close> of the ring on.\<close>

primrec tx_done :: "nat \<Rightarrow> u16 \<Rightarrow> virtq \<Rightarrow> mem \<Rightarrow> u64 list" where
  "tx_done 0 i q m = []"
| "tx_done (Suc n) i q m =
     ld64 m (desc_at q (ld32 m (used_ring_at q (ucast i mod qsize q)))) # tx_done n (i + 1) q m"

lemma tx_done_last [simp]: "tx_done n i (q\<lparr>last_used_idx := j\<rparr>) m = tx_done n i q m"
  by (induction n arbitrary: i) (simp_all add: desc_at_def used_ring_at_def)

lemma cleanup_tx_ok:
  "qsize (txq s) \<noteq> 0 \<Longrightarrow> n = unat (ld16 (nmem s) (used_idx_at (txq s)) - last_used_idx (txq s)) \<Longrightarrow>
   net_cleanup_tx s =
     map_option (\<lambda>p. s\<lparr>frames := p, txq := (txq s)\<lparr>last_used_idx := ld16 (nmem s) (used_idx_at (txq s))\<rparr>\<rparr>)
       (free_all (tx_done n (last_used_idx (txq s)) (txq s) (nmem s)) (frames s))"
proof (induction n arbitrary: s)
  case 0
  then have e: "ld16 (nmem s) (used_idx_at (txq s)) = last_used_idx (txq s)" by (simp add: unat_eq_0)
  then show ?case by (simp add: net_cleanup_tx.simps [of s])
next
  case (Suc n)
  let ?q = "txq s"
  let ?u = "ld16 (nmem s) (used_idx_at ?q)" and ?l = "last_used_idx ?q"
  have ne: "?u - ?l \<noteq> 0" using Suc.prems(2) by (metis Suc_neq_Zero unat_0)
  then have n: "n = unat (?u - (?l + 1))" using Suc.prems(2) unat_dec [of "?u - ?l"] by (simp add: diff_diff_eq)
  let ?a = "ld64 (nmem s) (desc_at ?q (ld32 (nmem s) (used_ring_at ?q (ucast ?l mod qsize ?q))))"
  have round: "tx_round s = map_option (\<lambda>p. s\<lparr>frames := p, txq := ?q\<lparr>last_used_idx := ?l + 1\<rparr>\<rparr>) (pmm_free_frame ?a (frames s))"
    using Suc.prems(1) by (auto simp: tx_round_def Let_def split: bind_splits)
  have start: "net_cleanup_tx s = Option.bind (tx_round s) net_cleanup_tx"
    using ne by (subst net_cleanup_tx.simps) simp
  show ?case
  proof (cases "pmm_free_frame ?a (frames s)")
    case None
    then show ?thesis using start round by simp
  next
    case (Some p)
    let ?s = "s\<lparr>frames := p, txq := ?q\<lparr>last_used_idx := ?l + 1\<rparr>\<rparr>"
    have "net_cleanup_tx s = net_cleanup_tx ?s" using start round Some by simp
    also have "\<dots> = map_option (\<lambda>p. ?s\<lparr>frames := p, txq := (txq ?s)\<lparr>last_used_idx := ld16 (nmem ?s) (used_idx_at (txq ?s))\<rparr>\<rparr>)
       (free_all (tx_done n (last_used_idx (txq ?s)) (txq ?s) (nmem ?s)) (frames ?s))"
      using Suc.prems(1) n by (intro Suc.IH) (simp_all add: used_idx_at_def)
    finally show ?thesis using Some by (simp add: used_idx_at_def)
  qed
qed

section \<open>Echo replies\<close>

lemma in_block_offset_iff:
  assumes "k < 2 ^ 64" "i + n \<le> 2 ^ 64" "0 < n"
  shows "in_block (a + of_nat i) n (a + of_nat k) \<longleftrightarrow> i \<le> k \<and> k < i + n"
proof (cases "i \<le> k")
  case True
  have "a + of_nat k - (a + of_nat i) = of_nat (k - i)" using True by (simp add: of_nat_diff)
  moreover have "unat (of_nat (k - i) :: u64) = k - i" using assms(1) by (intro unat_u64_of_nat) simp
  ultimately have "unat (a + of_nat k - (a + of_nat i)) = k - i" by (simp only:)
  then show ?thesis unfolding in_block_def using True assms(3) by auto
next
  case False
  then have "(of_nat k :: u64) - of_nat i = - of_nat (i - k)" by (simp add: of_nat_diff)
  moreover have "unat (- of_nat (i - k) :: u64) = 2 ^ 64 - (i - k)"
  proof -
    have "i - k < 2 ^ 64" "0 < i - k" using False assms(2,3) by simp_all
    then have "unat (of_nat (i - k) :: u64) = i - k" by (intro unat_u64_of_nat) simp
    then show ?thesis using \<open>0 < i - k\<close> unat_sub_if_size [of 0 "of_nat (i - k) :: u64"]
      by (simp add: word_size del: of_nat_diff)
  qed
  ultimately show ?thesis using False assms by (simp add: in_block_def)
qed

lemma ld_bytes_append: "ld_bytes m a (i + j) = ld_bytes m a i @ ld_bytes m (a + of_nat i) j"
  by (rule nth_equalityI) (auto simp: nth_append add.assoc simp flip: of_nat_add)

lemma st_bytes_offset:
  assumes "k < 2 ^ 64" "i + length bs \<le> 2 ^ 64" "bs \<noteq> []"
  shows "st_bytes m (a + of_nat i) bs (a + of_nat k) = (if i \<le> k \<and> k < i + length bs then bs ! (k - i) else m (a + of_nat k))"
proof -
  have "unat (of_nat k - of_nat i :: u64) = k - i" if "i \<le> k"
    using that assms(1) by (simp add: of_nat_diff [symmetric] unat_of_nat del: of_nat_diff)
  then show ?thesis using in_block_offset_iff [OF assms(1,2), of a] assms(3) by (auto simp: st_bytes_def)
qed

lemma st16_offset:
  assumes k: "k < 2 ^ 64" and i: "i + 2 \<le> 2 ^ 64"
  shows "st16 m (a + of_nat i) (ntohs v) (a + of_nat k) =
    (if k = i then ucast (drop_bit 8 v) else if k = i + 1 then ucast v else m (a + of_nat k))"
proof -
  have neq: "a + of_nat k \<noteq> a + of_nat j" if "j < 2 ^ 64" "k \<noteq> j" for j
    using in_block_offset_iff [of k j 1 a] that k by auto
  have e: "a + of_nat i + 1 = a + of_nat (i + 1)" by (simp add: add.assoc add.commute)
  consider "k = i" | "k = i + 1" | "k \<noteq> i" "k \<noteq> i + 1" by blast
  then show ?thesis
  proof cases
    case 1
    then show ?thesis using st16_be(1) [of m "a + of_nat i" v] by simp
  next
    case 2
    then show ?thesis using st16_be(2) [of m "a + of_nat i" v] unfolding e by simp
  next
    case 3
    then show ?thesis
      using st16_be(3) [of "a + of_nat k" "a + of_nat i" m v] neq [of i] neq [of "i + 1"] i unfolding e by simp
  qed
qed

text \<open>Blocks with the same bytes have the same checksum.\<close>

lemma checksum_cong:
  assumes "unat len \<le> 131070" "be_sum (ld_bytes m' a (unat len)) = be_sum (ld_bytes m b (unat len))"
  shows "calculate_checksum m' a len = calculate_checksum m b len"
  using calculate_checksum_spec [OF assms(1), of m' a] calculate_checksum_spec [OF assms(1), of m b] assms(2)
  by (simp add: word_unat_eq_iff)

text \<open>The packet after the answer has been made in place, byte by byte.\<close>

lemma icmp_reply_bytes:
  fixes ip :: u64 and m :: mem
  assumes ihl: "m ip AND 0x0F = 5" and n: "n = unat (ntohs (ld16 m (ip + 2)))" "28 \<le> n"
  obtains c :: u16 where
    "\<And>k. k < 2 ^ 64 \<Longrightarrow> icmp_reply ip m (ip + of_nat k) =
       (if 16 \<le> k \<and> k < 20 then m (ip + of_nat (k - 4)) else if 12 \<le> k \<and> k < 16 then my_ip ! (k - 12)
        else if k = 20 then 0 else if k = 22 then ucast (drop_bit 8 c) else if k = 23 then ucast c
        else m (ip + of_nat k))"
    "calculate_checksum (icmp_reply ip m) (ip + 20) (of_nat (n - 20)) = 0"
proof -
  define m1 where "m1 = m(ip + of_nat 20 := 0)"
  define m2 where "m2 = st16 m1 (ip + of_nat 22) (ntohs 0)"
  define len :: u32 where "len = of_nat (n - 20)"
  define c where "c = calculate_checksum m2 (ip + of_nat 20) len"
  define m3 where "m3 = st16 m2 (ip + of_nat 22) (ntohs c)"
  define m4 where "m4 = st_bytes m3 (ip + of_nat 12) my_ip"
  have n16: "n < 65536" using n(1) unat_u16_lt by simp
  then have ulen: "unat len = n - 20" unfolding len_def by (intro unat_u32_of_nat) simp
  have neq: "ip + of_nat k \<noteq> ip + of_nat j" if "k < 2 ^ 64" "j < 2 ^ 64" "k \<noteq> j" for k j
    using in_block_offset_iff [of k j 1 ip] that by auto
  have b1: "m1 (ip + of_nat k) = (if k = 20 then 0 else m (ip + of_nat k))" if "k < 2 ^ 64" for k
    using neq [OF that, of 20] by (simp add: m1_def)
  have st16: "st16 x (ip + of_nat 22) (ntohs v) (ip + of_nat k) =
      (if k = 22 then ucast (drop_bit 8 v) else if k = 23 then ucast v else x (ip + of_nat k))" if "k < 2 ^ 64" for x v k
    using st16_offset [OF that, of 22] by simp
  have b2: "m2 (ip + of_nat k) = (if k = 20 \<or> k = 22 \<or> k = 23 then 0 else m (ip + of_nat k))" if "k < 2 ^ 64" for k
    using st16 [OF that, of m1 0] b1 [OF that] unfolding m2_def by (auto simp del: of_nat_numeral)
  have b3: "m3 (ip + of_nat k) = (if k = 20 then 0 else if k = 22 then ucast (drop_bit 8 c) else if k = 23 then ucast c
      else m (ip + of_nat k))" if "k < 2 ^ 64" for k
    using st16 [OF that, of m2 c] b2 [OF that] unfolding m3_def by (auto simp del: of_nat_numeral)
  have b4: "m4 (ip + of_nat k) = (if 12 \<le> k \<and> k < 16 then my_ip ! (k - 12) else m3 (ip + of_nat k))" if "k < 2 ^ 64" for k
    using st_bytes_offset [OF that, of 12 my_ip m3 ip] by (simp add: m4_def my_ip_def)
  have hdr: "ld16 m2 (ip + 2) = ld16 m (ip + 2)" "m2 ip = m ip"
    using b2 [of 0] b2 [of 2] b2 [of 3] by (simp_all add: ld16_bytes add.assoc)
  have icmp_len: "ucast (ntohs (ld16 m2 (ip + 2))) - ucast (m2 ip AND 0x0F) * 4 = len"
  proof -
    have "ucast (ntohs (ld16 m (ip + 2))) = (of_nat n :: u32)" using n(1) of_nat_unat [where ?'a = "32 word"] by simp
    then show ?thesis using hdr ihl n(2) by (simp add: len_def of_nat_diff)
  qed
  have zero: "ntohs 0 = 0" by (simp add: ntohs_def)
  have reply: "icmp_reply ip m = st_bytes m4 (ip + of_nat 16) (ld_bytes m3 (ip + of_nat 12) 4)"
    using icmp_len by (simp add: icmp_reply_def Let_def m4_def m3_def c_def m2_def m1_def zero add.assoc)
  have bytes: "icmp_reply ip m (ip + of_nat k) =
       (if 16 \<le> k \<and> k < 20 then m (ip + of_nat (k - 4)) else if 12 \<le> k \<and> k < 16 then my_ip ! (k - 12)
        else if k = 20 then 0 else if k = 22 then ucast (drop_bit 8 c) else if k = 23 then ucast c
        else m (ip + of_nat k))" if k: "k < 2 ^ 64" for k
  proof -
    have "ld_bytes m3 (ip + of_nat 12) 4 ! (k - 16) = m (ip + of_nat (k - 4))" if "16 \<le> k" "k < 20"
    proof -
      define j where "j = k - 4"
      have j: "j < 16" "k - 16 = j - 12" "12 \<le> j" using that by (simp_all add: j_def)
      then have "ld_bytes m3 (ip + of_nat 12) 4 ! (k - 16) = m3 (ip + of_nat j)" by (simp add: of_nat_diff)
      then show ?thesis using b3 [of j] j unfolding j_def [symmetric] by simp
    qed
    moreover define old where "old = ld_bytes m3 (ip + of_nat 12) 4"
    have len4: "length old = 4" by (simp add: old_def)
    then have "old \<noteq> []" by auto
    then have "icmp_reply ip m (ip + of_nat k) = (if 16 \<le> k \<and> k < 20 then old ! (k - 16) else m4 (ip + of_nat k))"
      using st_bytes_offset [OF k, of 16 old m4 ip] unfolding reply old_def [symmetric] by (simp add: len4)
    ultimately show ?thesis unfolding old_def [symmetric] b4 [OF k] b3 [OF k] by (simp split: if_split)
  qed
  have "calculate_checksum m3 (ip + of_nat 20) len = 0"
    using checksum_verifies [of len 1 m2 "ip + of_nat 20"] b2 [of 22] b2 [of 23] n(2) n16 ulen
    by (simp add: m3_def c_def add.assoc)
  moreover have "ld_bytes (icmp_reply ip m) (ip + of_nat 20) (unat len) = ld_bytes m3 (ip + of_nat 20) (unat len)"
  proof (rule nth_equalityI)
    fix j assume "j < length (ld_bytes (icmp_reply ip m) (ip + of_nat 20) (unat len))"
    then have j: "j < unat len" "20 + j < 2 ^ 64" using ulen n16 by simp_all
    have at: "ip + of_nat 20 + of_nat j = ip + of_nat (20 + j)" by simp
    have "icmp_reply ip m (ip + of_nat (20 + j)) = m3 (ip + of_nat (20 + j))"
      unfolding bytes [OF j(2)] b3 [OF j(2)] by simp
    then show "ld_bytes (icmp_reply ip m) (ip + of_nat 20) (unat len) ! j = ld_bytes m3 (ip + of_nat 20) (unat len) ! j"
      unfolding nth_ld_bytes [OF j(1)] at .
  qed simp
  ultimately have "calculate_checksum (icmp_reply ip m) (ip + of_nat 20) len = 0"
    using checksum_cong [of len "icmp_reply ip m" "ip + of_nat 20" m3 "ip + of_nat 20"] ulen n16 by simp
  with bytes show thesis using that [of c] by (simp add: len_def)
qed

text \<open>The header with its addresses exchanged has the same sum.\<close>

lemma icmp_reply_header:
  assumes bytes: "\<And>k. k < 2 ^ 64 \<Longrightarrow> m' (ip + of_nat k) =
       (if 16 \<le> k \<and> k < 20 then m (ip + of_nat (k - 4)) else if 12 \<le> k \<and> k < 16 then my_ip ! (k - 12)
        else if k = 20 then 0 else if k = 22 then ucast (drop_bit 8 c) else if k = 23 then ucast c
        else m (ip + of_nat k))"
    and dst: "ld_bytes m (ip + 16) 4 = my_ip"
  shows "ld_bytes m' (ip + 12) 4 = my_ip" "ld_bytes m' (ip + 16) 4 = ld_bytes m (ip + 12) 4"
    "ld_bytes m' ip 12 = ld_bytes m ip 12" "calculate_checksum m' ip 20 = calculate_checksum m ip 20"
proof -
  have at: "ld_bytes x (ip + of_nat i) n ! j = x (ip + of_nat (i + j))" if "j < n" for x i j n
    using that by (simp add: add.assoc)
  have "ld_bytes m' (ip + of_nat 12) 4 = my_ip"
  proof (rule nth_equalityI)
    fix j assume "j < length (ld_bytes m' (ip + of_nat 12) 4)"
    then have j: "j < 4" by simp
    then show "ld_bytes m' (ip + of_nat 12) 4 ! j = my_ip ! j" unfolding at [OF j] using bytes [of "12 + j"] by simp
  qed (simp add: my_ip_def)
  then show src: "ld_bytes m' (ip + 12) 4 = my_ip" by simp
  have "ld_bytes m' (ip + of_nat 16) 4 = ld_bytes m (ip + of_nat 12) 4"
  proof (rule nth_equalityI)
    fix j assume "j < length (ld_bytes m' (ip + of_nat 16) 4)"
    then have j: "j < 4" by simp
    have "16 + j - 4 = 12 + j" by simp
    then show "ld_bytes m' (ip + of_nat 16) 4 ! j = ld_bytes m (ip + of_nat 12) 4 ! j"
      unfolding at [OF j] using bytes [of "16 + j"] j by (simp del: of_nat_add)
  qed simp
  then show new: "ld_bytes m' (ip + 16) 4 = ld_bytes m (ip + 12) 4" by simp
  show first: "ld_bytes m' ip 12 = ld_bytes m ip 12"
  proof (rule nth_equalityI)
    fix j assume "j < length (ld_bytes m' ip 12)"
    then have j: "j < 12" by simp
    then show "ld_bytes m' ip 12 ! j = ld_bytes m ip 12 ! j" using bytes [of j] by simp
  qed simp
  have split: "ld_bytes x ip 20 = ld_bytes x ip 12 @ ld_bytes x (ip + 12) 4 @ ld_bytes x (ip + 16) 4" for x
    using ld_bytes_append [of x ip 12 8] ld_bytes_append [of x "ip + 12" 4 4] by (simp add: add.assoc)
  have "even (length my_ip)" by (simp add: my_ip_def)
  then have "be_sum (ld_bytes m' ip 20) = be_sum (ld_bytes m ip 20)"
    unfolding split by (simp add: be_sum_append_even src new first dst)
  then show "calculate_checksum m' ip 20 = calculate_checksum m ip 20"
    using checksum_cong [of 20 m' ip m ip] by simp
qed

section \<open>The transmit queue\<close>

lemma st_bytes_append:
  "length xs + length ys \<le> 2 ^ 64 \<Longrightarrow>
   st_bytes (st_bytes m a xs) (a + of_nat (length xs)) ys = st_bytes m a (xs @ ys)"
proof (rule ext)
  fix x assume l: "length xs + length ys \<le> 2 ^ 64"
  define k where "k = unat (x - a)"
  have k: "x = a + of_nat k" "k < 2 ^ 64" using unat_u64_lt [of "x - a"] by (simp_all add: k_def)
  show "st_bytes (st_bytes m a xs) (a + of_nat (length xs)) ys x = st_bytes m a (xs @ ys) x"
  proof (cases "xs = [] \<or> ys = []")
    case True
    then show ?thesis by (auto simp: st_bytes_def in_block_def)
  next
    case False
    then show ?thesis
      using st_bytes_offset [OF k(2), of "length xs" ys "st_bytes m a xs" a] st_bytes_offset [OF k(2), of 0 xs m a]
        st_bytes_offset [OF k(2), of 0 "xs @ ys" m a] l
      unfolding k(1) by (auto simp: nth_append)
  qed
qed

definition desc_bytes :: "u64 \<Rightarrow> u32 \<Rightarrow> u16 \<Rightarrow> u8 list" where
  "desc_bytes addr len flags = to_le 8 addr @ to_le 4 len @ to_le 2 flags @ to_le 2 (0 :: u16)"

lemma set_desc_bytes: "set_desc q i addr len flags m = st_bytes m (desc_at q i) (desc_bytes addr len flags)"
proof -
  let ?a = "desc_at q i"
  have "st_bytes m ?a (desc_bytes addr len flags) =
      st_bytes (st_bytes (st_bytes (st_bytes m ?a (to_le 8 addr)) (?a + of_nat 8) (to_le 4 len)) (?a + of_nat 8 + of_nat 4)
        (to_le 2 flags)) (?a + of_nat 8 + of_nat 4 + of_nat 2) (to_le 2 (0 :: u16))"
    unfolding desc_bytes_def
    using st_bytes_append [of "to_le 8 addr" "to_le 4 len @ to_le 2 flags @ to_le 2 (0 :: u16)" m ?a, symmetric]
      st_bytes_append [of "to_le 4 len" "to_le 2 flags @ to_le 2 (0 :: u16)" "st_bytes m ?a (to_le 8 addr)" "?a + of_nat 8", symmetric]
      st_bytes_append [of "to_le 2 flags" "to_le 2 (0 :: u16)"
        "st_bytes (st_bytes m ?a (to_le 8 addr)) (?a + of_nat 8) (to_le 4 len)" "?a + of_nat 8 + of_nat 4", symmetric]
    by simp
  then show ?thesis by (simp add: set_desc_def Let_def st16_def st32_def st64_def add.commute)
qed

lemma disjoint_offsets:
  assumes "i + n \<le> j \<or> j + k \<le> i" "i + n \<le> 2 ^ 64" "j + k \<le> 2 ^ 64" "0 < n" "0 < k"
  shows "disjoint_blocks (a + of_nat i) n (a + of_nat j) k"
  unfolding disjoint_blocks_def
proof (intro allI notI, elim conjE)
  fix x assume x: "in_block (a + of_nat i) n x" "in_block (a + of_nat j) k x"
  define d where "d = unat (x - a)"
  have d: "x = a + of_nat d" "d < 2 ^ 64" using unat_u64_lt [of "x - a"] by (simp_all add: d_def)
  show False
    using x in_block_offset_iff [OF d(2) assms(2,4), of a] in_block_offset_iff [OF d(2) assms(3,5), of a] assms(1)
    unfolding d(1) by auto
qed

lemma in_block_sub:
  assumes "in_block (a + of_nat i) n x" "i + n \<le> N" "N \<le> 2 ^ 64"
  shows "in_block a N x"
proof -
  have "in_block a (i + n) x" using assms in_block_add [of i n a x] by simp
  then show ?thesis using assms(2) by (simp add: in_block_def)
qed

text \<open>
  A transmit queue whose rings do not overlap each other nor, for frames of \<open>len\<close> bytes, any of the buffers
  that may still be allocated.
\<close>

definition queue_bytes :: "virtq \<Rightarrow> (u64 \<times> nat) list" where
  "queue_bytes q = [(desc q, 16 * unat (qsize q)), (avail q, 4 + 2 * unat (qsize q))]"

definition tx_queue_ok :: "nat \<Rightarrow> net \<Rightarrow> bool" where
  "tx_queue_ok len s \<longleftrightarrow> qsize (txq s) \<noteq> 0 \<and> unat (qsize (txq s)) \<le> 32768 \<and>
     disjoint_blocks (desc (txq s)) (16 * unat (qsize (txq s))) (avail (txq s)) (4 + 2 * unat (qsize (txq s))) \<and>
     (\<forall>a \<in> avail_frames (frames s). \<forall>(b, n) \<in> set (queue_bytes (txq s)). disjoint_blocks a (10 + len) b n)"

lemma slot_blocks:
  assumes i: "i < qsize q" and q: "unat (qsize q) \<le> 32768"
  shows "in_block (desc_at q i) 16 x \<Longrightarrow> in_block (desc q) (16 * unat (qsize q)) x"
    "in_block (avail_ring_at q i) 2 x \<Longrightarrow> in_block (avail q) (4 + 2 * unat (qsize q)) x"
    "in_block (avail_idx_at q) 2 x \<Longrightarrow> in_block (avail q) (4 + 2 * unat (qsize q)) x"
    "disjoint_blocks (avail_idx_at q) 2 (avail_ring_at q i) 2"
proof -
  have u: "unat i < unat (qsize q)" using i by (simp add: word_less_nat_alt)
  have d: "desc_at q i = desc q + of_nat (16 * unat i)" by (simp add: desc_at_def)
  have r: "avail_ring_at q i = avail q + of_nat (4 + 2 * unat i)" by (simp add: avail_ring_at_def add.assoc)
  have x: "avail_idx_at q = avail q + of_nat 2" by (simp add: avail_idx_at_def)
  show "in_block (desc_at q i) 16 x \<Longrightarrow> in_block (desc q) (16 * unat (qsize q)) x"
    unfolding d by (erule in_block_sub) (use u q in simp_all)
  show "in_block (avail_ring_at q i) 2 x \<Longrightarrow> in_block (avail q) (4 + 2 * unat (qsize q)) x"
    unfolding r by (erule in_block_sub) (use u q in simp_all)
  show "in_block (avail_idx_at q) 2 x \<Longrightarrow> in_block (avail q) (4 + 2 * unat (qsize q)) x"
    unfolding x by (erule in_block_sub) (use u q in simp_all)
  show "disjoint_blocks (avail_idx_at q) 2 (avail_ring_at q i) 2"
    unfolding r x by (rule disjoint_offsets) (use u q in simp_all)
qed

lemma disjoint_within:
  assumes "disjoint_blocks a n b k" "\<And>x. in_block a' n' x \<Longrightarrow> in_block a n x" "\<And>x. in_block b' k' x \<Longrightarrow> in_block b k x"
  shows "disjoint_blocks a' n' b' k'"
  using assms unfolding disjoint_blocks_def by blast

lemma u16_u32:
  fixes w :: u32
  assumes "unat w < 65536"
  shows "ucast (ucast w :: u16) = w"
proof -
  have "unat (ucast w :: u16) = unat w" using assms by (simp add: unsigned_ucast_eq take_bit_nat_eq_self)
  then have "unat (ucast (ucast w :: u16) :: u32) = unat w"
    using assms unsigned_ucast_eq [of "ucast w :: u16", where ?'a = nat and ?'c = 32]
    by (simp only: take_bit_nat_eq_self) (simp add: take_bit_nat_eq_self)
  then show ?thesis by (simp only: word_unat_eq_iff)
qed

lemma ring_head:
  assumes "unat (qsize q) \<le> 32768" "qsize q \<noteq> 0"
  shows "i mod qsize q < qsize q" "ucast (ucast (i mod qsize q) :: u16) = i mod qsize q"
proof -
  have "0 < qsize q" using assms(2) by (simp add: word_neq_0_conv)
  then show lt: "i mod qsize q < qsize q" by (simp add: word_mod_less_divisor)
  then have "unat (i mod qsize q) < 65536" using assms(1) by (simp add: word_less_nat_alt)
  then show "ucast (ucast (i mod qsize q) :: u16) = i mod qsize q"
    by (rule u16_u32)
qed

text \<open>The memory that \<open>net_send\<close> leaves: four blocks that do not overlap.\<close>

lemma send_memory:
  assumes B: "disjoint_blocks a (length bs) d 16" "disjoint_blocks a (length bs) r 2" "disjoint_blocks a (length bs) x 2"
    and D: "disjoint_blocks d 16 r 2" "disjoint_blocks d 16 x 2" and R: "disjoint_blocks x 2 r 2"
    and len: "length bs \<le> 2 ^ 64" "length ds = 16"
    and m1_def: "m1 = st_bytes (st_bytes m a bs) d ds" and m2_def: "m2 = st16 (st16 m1 r h) x (ld16 m1 x + 1)"
  shows "ld16 m1 x = ld16 m x" "ld_bytes m2 a (length bs) = bs" "ld_bytes m2 d 16 = ds" "ld16 m2 r = h"
    "ld16 m2 x = ld16 m x + 1"
proof -
  have two: "ld16 m x = le_word (ld_bytes m x 2)" "length (to_le 2 (v :: u16)) = 2" for m x v by (simp_all add: ld16_def)
  have keep: "ld_bytes (st16 m y v) b n = ld_bytes m b n" if "disjoint_blocks b n y 2" "n \<le> 2 ^ 64" for m y v b n
    using ld_st_bytes_disjoint [of y "to_le 2 v" b n m] that by (simp add: st16_def disjoint_blocks_sym)
  show x: "ld16 m1 x = ld16 m x"
    unfolding m1_def two using ld_st_bytes_disjoint [of d ds x 2] ld_st_bytes_disjoint [of a bs x 2] B D len by simp
  have "ld_bytes m1 a (length bs) = bs"
    unfolding m1_def using ld_st_bytes_disjoint [of d ds a "length bs"] ld_st_bytes [of bs m a] B(1) len
    by (simp add: disjoint_blocks_sym)
  then show "ld_bytes m2 a (length bs) = bs" unfolding m2_def using keep B len(1) by simp
  have "ld_bytes m1 d 16 = ds" unfolding m1_def using ld_st_bytes [of ds "st_bytes m a bs" d] len by simp
  then show "ld_bytes m2 d 16 = ds" unfolding m2_def using keep D by simp
  show "ld16 m2 r = h"
    unfolding m2_def two(1) using keep [of r 2 x] R ld16_st16_same [of m1 r h] by (simp add: disjoint_blocks_sym ld16_def)
  show "ld16 m2 x = ld16 m x + 1" unfolding m2_def x [symmetric] by (rule ld16_st16_same)
qed

section \<open>The memory of a queue\<close>

text \<open>Taking the top of the free stack, and addresses of frames relative to an earlier one.\<close>

lemma net_alloc_top:
  assumes "pmm_inv (frames s)" "free_frames (frames s) = xs @ [i]"
  shows "\<exists>p. net_alloc s = Some (index_to_phys i, s\<lparr>frames := p\<rparr>) \<and> pmm_inv p \<and> free_frames p = xs"
proof -
  have "free_frames (frames s) \<noteq> []" using assms(2) by simp
  from pmm_alloc_frame_nonempty [OF assms(1) this] assms(2) show ?thesis by (auto simp: net_alloc_def)
qed

lemma index_to_phys_add:
  assumes "k + j < 2 ^ 32"
  shows "index_to_phys (of_nat (k + j)) = index_to_phys (of_nat k) + of_nat (j * 4096)"
proof -
  have u: "unat (of_nat (k + j) :: u32) = k + j" "unat (of_nat k :: u32) = k"
    using assms by (auto intro!: unat_u32_of_nat simp del: of_nat_add)
  have j: "unat (of_nat (j * 4096) :: u64) = j * 4096"
    by (rule unat_u64_of_nat) (use assms in simp)
  have "unat (index_to_phys (of_nat k) + of_nat (j * 4096)) = unat (index_to_phys (of_nat k)) + unat (of_nat (j * 4096) :: u64)"
    by (rule unat_add_no_wrap) (use assms in \<open>simp only: unat_index_to_phys u j; simp\<close>)
  then show ?thesis by (simp only: word_unat_eq_iff unat_index_to_phys u j distrib_right add.assoc)
qed

text \<open>The three areas that are cleared, next to each other from the lowest one up.\<close>

lemma filled_three:
  assumes "i + j + k \<le> 2 ^ 64"
  shows "filled (filled (filled m (a + of_nat (i + j)) v k) (a + of_nat i) v j) a v i = filled m a v (i + j + k)"
proof -
  have "in_block a (i + j + k) x \<longleftrightarrow> in_block a i x \<or> in_block (a + of_nat i) j x \<or> in_block (a + of_nat (i + j)) k x" for x
    using in_block_add [of "i + j" k a x] in_block_add [of i j a x] assms by auto
  then show ?thesis by (auto simp: filled_def fun_eq_iff)
qed

definition queue_registers :: "u32 \<Rightarrow> u32 \<Rightarrow> u64 \<Rightarrow> u64 \<Rightarrow> u64 \<Rightarrow> (u64 \<times> u32) list" where
  "queue_registers i n d a u = [(0x30, i), (0x80, ucast d), (0x84, ucast (drop_bit 32 d)), (0x90, ucast a),
     (0x94, ucast (drop_bit 32 a)), (0xA0, ucast u), (0xA4, ucast (drop_bit 32 u)), (0x38, n), (0x44, 1)]"

section \<open>Properties\<close>

text \<open>
  C25. An ICMP echo request to the address of the system, in a packet without IP options whose length field
  covers the header, is answered: the frame that is sent is addressed to the sender's hardware address and
  carries the packet with the addresses exchanged, the type of an echo reply, an ICMP checksum that
  verifies and an IP header whose own checksum is as good as it was; identifier, sequence number and data
  are those of the request, and no other byte of memory was changed in making it.
\<close>

theorem icmp_echo_reply:
  assumes "20 \<le> len" "ld_bytes (nmem s) (ip + 16) 4 = my_ip" "nmem s (ip + 9) = 1" "nmem s (ip + 20) = 8"
    "nmem s ip AND 0x0F = 5" "n = unat (ntohs (ld16 (nmem s) (ip + 2)))" "28 \<le> n"
  shows "\<exists>m'. ipv4_handle ip len src_mac s =
       net_send (eth_header (ld_bytes m' src_mac 6) (net_mac s) 0x0800 @ ld_bytes m' ip n) (s\<lparr>nmem := m'\<rparr>) \<and>
     ld_bytes m' (ip + 12) 4 = my_ip \<and> ld_bytes m' (ip + 16) 4 = ld_bytes (nmem s) (ip + 12) 4 \<and> m' (ip + 20) = 0 \<and>
     calculate_checksum m' (ip + 20) (of_nat (n - 20)) = 0 \<and>
     calculate_checksum m' ip 20 = calculate_checksum (nmem s) ip 20 \<and>
     (\<forall>x. \<not> in_block (ip + 12) 12 x \<or> x = ip + 21 \<longrightarrow> m' x = nmem s x)"
proof -
  let ?m = "icmp_reply ip (nmem s)"
  obtain c :: u16 where c: "\<And>k. k < 2 ^ 64 \<Longrightarrow> ?m (ip + of_nat k) =
       (if 16 \<le> k \<and> k < 20 then nmem s (ip + of_nat (k - 4)) else if 12 \<le> k \<and> k < 16 then my_ip ! (k - 12)
        else if k = 20 then 0 else if k = 22 then ucast (drop_bit 8 c) else if k = 23 then ucast c
        else nmem s (ip + of_nat k))" "calculate_checksum ?m (ip + 20) (of_nat (n - 20)) = 0"
    by (rule icmp_reply_bytes [OF assms(5-7)]) blast
  have other: "?m x = nmem s x" if "\<not> in_block (ip + 12) 12 x \<or> x = ip + 21" for x
  proof -
    define k where "k = unat (x - ip)"
    have k: "x = ip + of_nat k" "k < 2 ^ 64" using unat_u64_lt [of "x - ip"] by (simp_all add: k_def)
    have "\<not> (12 \<le> k \<and> k < 24) \<or> k = 21"
    proof (cases "x = ip + 21")
      case True
      then show ?thesis by (simp add: k_def)
    next
      case False
      then show ?thesis using that in_block_offset_iff [of k 12 12 ip] k by auto
    qed
    then show ?thesis using c(1) [OF k(2)] k(1) by auto
  qed
  have "ld16 ?m (ip + 2) = ld16 (nmem s) (ip + 2)"
    using c(1) [of 2] c(1) [of 3] by (simp add: ld16_bytes add.assoc)
  then have "ipv4_handle ip len src_mac s =
      net_send (eth_header (ld_bytes ?m src_mac 6) (net_mac s) 0x0800 @ ld_bytes ?m ip n) (s\<lparr>nmem := ?m\<rparr>)"
    using assms by (auto simp: ipv4_handle_def Let_def not_less)
  moreover have "?m (ip + 20) = 0" using c(1) [of 20] by simp
  ultimately show ?thesis using icmp_reply_header [OF c(1) assms(2)] c(2) other by blast
qed

text \<open>
  C23. \<open>net_send\<close>: when no frame of memory is left the packet is dropped and nothing changes. Otherwise one free
  frame is taken and holds the ten zero bytes of the header and then the packet; the next descriptor, modulo
  the size of the queue, describes exactly these bytes for reading; the ring of available heads has its number
  in the next place and the index of the ring is one higher; the device is notified of the transmit queue.
\<close>

theorem net_send_correct:
  assumes inv: "pmm_inv (frames s)" and q: "tx_queue_ok (length fr) s" and len: "10 + length fr < 2 ^ 32"
  shows "if avail_frames (frames s) = {} then net_send fr s = Some s
    else \<exists>phys s'. net_send fr s = Some s' \<and> phys \<in> avail_frames (frames s) \<and> pmm_inv (frames s') \<and>
      avail_frames (frames s') = avail_frames (frames s) - {phys} \<and>
      ld_bytes (nmem s') phys (10 + length fr) = replicate 10 0 @ fr \<and>
      ld_bytes (nmem s') (desc_at (txq s) (ucast (tx_desc_idx s) mod qsize (txq s))) 16 = desc_bytes phys (of_nat (10 + length fr)) 0 \<and>
      ld16 (nmem s') (avail_ring_at (txq s) (ucast (ld16 (nmem s) (avail_idx_at (txq s))) mod qsize (txq s))) =
        ucast (ucast (tx_desc_idx s) mod qsize (txq s)) \<and>
      ld16 (nmem s') (avail_idx_at (txq s)) = ld16 (nmem s) (avail_idx_at (txq s)) + 1 \<and>
      tx_desc_idx s' = tx_desc_idx s + 1 \<and> txq s' = txq s \<and> dev_writes s' = dev_writes s @ [(0x50, 1)]"
proof (cases "avail_frames (frames s) = {}")
  case True
  then show ?thesis using pmm_frames.alloc_empty [OF inv] by (simp add: net_send_def net_alloc_def)
next
  case False
  from pmm_frames.alloc_take [OF inv False] obtain phys p where
    p: "pmm_alloc_frame (frames s) = Some (phys, p)" "pmm_inv p" "phys \<in> avail_frames (frames s)"
      "avail_frames p = avail_frames (frames s) - {phys}" by blast
  have nz: "phys \<noteq> 0" using pmm_frames.avail_frame [OF inv p(3)] by simp
  let ?q = "txq s"
  let ?h = "ucast (tx_desc_idx s) mod qsize ?q"
  let ?av = "ld16 (nmem s) (avail_idx_at ?q)"
  let ?r = "ucast ?av mod qsize ?q"
  let ?bs = "replicate 10 0 @ fr" and ?ds = "desc_bytes phys (of_nat (10 + length fr)) 0"
  have qz: "qsize ?q \<noteq> 0" "unat (qsize ?q) \<le> 32768" using q by (simp_all add: tx_queue_ok_def)
  have apart: "disjoint_blocks phys (length ?bs) (desc ?q) (16 * unat (qsize ?q))"
    "disjoint_blocks phys (length ?bs) (avail ?q) (4 + 2 * unat (qsize ?q))"
    "disjoint_blocks (desc ?q) (16 * unat (qsize ?q)) (avail ?q) (4 + 2 * unat (qsize ?q))"
    using q p(3) by (auto simp: tx_queue_ok_def queue_bytes_def)
  note h = ring_head [OF qz(2,1), of "ucast (tx_desc_idx s)"] and r = ring_head(1) [OF qz(2,1), of "ucast ?av"]
  note sb = slot_blocks [OF h(1) qz(2)] slot_blocks [OF r qz(2)]
  have ds: "length ?ds = 16" by (simp add: desc_bytes_def)
  have bs: "length ?bs \<le> 2 ^ 64" "length ?bs = 10 + length fr" using len by simp_all
  define m1 where "m1 = st_bytes (st_bytes (nmem s) phys ?bs) (desc_at ?q ?h) ?ds"
  define m2 where "m2 = st16 (st16 m1 (avail_ring_at ?q ?r) (ucast ?h)) (avail_idx_at ?q) (ld16 m1 (avail_idx_at ?q) + 1)"
  note mem = send_memory [of phys ?bs "desc_at ?q ?h" "avail_ring_at ?q ?r" "avail_idx_at ?q" ?ds,
      OF disjoint_within [OF apart(1) _ sb(1)] disjoint_within [OF apart(2) _ sb(6)] disjoint_within [OF apart(2) _ sb(3)]
        disjoint_within [OF apart(3) sb(1) sb(6)] disjoint_within [OF apart(3) sb(1) sb(3)] sb(8) bs(1) ds m1_def m2_def]
  have buffer: "st_bytes (memset phys 0 10 (nmem s)) (phys + 10) fr = st_bytes (nmem s) phys ?bs"
    using st_bytes_append [of "replicate 10 0" fr "nmem s" phys] len
    by (simp add: memset_filled st_bytes_replicate)
  let ?s = "s\<lparr>frames := p, nmem := m2, dev_writes := dev_writes s @ [(0x50, 1)], tx_desc_idx := tx_desc_idx s + 1\<rparr>"
  have len32: "(10 :: u32) + of_nat (length fr) = of_nat (10 + length fr)" by simp
  have "net_send fr s = Some ?s"
    unfolding net_send_def net_alloc_def
    using p(1) nz qz(1) h(2) mem(1) buffer
    by (simp add: Let_def set_desc_bytes write32_def m1_def [symmetric] m2_def len32 del: of_nat_add)
  moreover have "ld_bytes m2 phys (10 + length fr) = ?bs" using mem(2) bs(2) by (simp only:)
  ultimately show ?thesis using False p(2-4) mem(3-5) by auto
qed

text \<open>
  C24. \<open>net_cleanup_tx\<close> terminates for any position of the 16-bit ring indices, also where they wrap around: it
  releases the buffers of exactly the elements that the device has marked as used since the last call, in
  ring order, ends with the indices equal and changes nothing else; it fails only if a release does.
\<close>

theorem net_cleanup_tx_correct:
  assumes "qsize (txq s) \<noteq> 0"
  shows "net_cleanup_tx s =
    map_option (\<lambda>p. s\<lparr>frames := p, txq := (txq s)\<lparr>last_used_idx := ld16 (nmem s) (used_idx_at (txq s))\<rparr>\<rparr>)
      (free_all (tx_done (unat (ld16 (nmem s) (used_idx_at (txq s)) - last_used_idx (txq s)))
        (last_used_idx (txq s)) (txq s) (nmem s)) (frames s))"
  using cleanup_tx_ok [OF assms refl] .

text \<open>
  A small network state: a queue of four descriptors in the first two frames, two free frames, and an echo
  request at address 0x1000.
\<close>

definition demo_net :: net where
  "demo_net = \<lparr>rxq = \<lparr>desc = 0, avail = 0, used = 0, qsize = 0, last_used_idx = 0\<rparr>,
     txq = \<lparr>desc = 0x40000000, avail = 0x40001000, used = 0x40001800, qsize = 4, last_used_idx = 0\<rparr>,
     net_mac = [2, 0, 0, 0, 0, 1], tx_desc_idx = 5, frames = demo_pmm,
     nmem = (\<lambda>_. 0)(0x1000 := 0x45, 0x1003 := 28, 0x1009 := 1, 0x100C := 10, 0x100F := 2,
       0x1010 := 10, 0x1012 := 2, 0x1013 := 15, 0x1014 := 8),
     dev_read = (\<lambda>_ _. 0), dev_reads = 0, dev_writes = []\<rparr>"

lemma demo_net_frames: "avail_frames (frames demo_net) = {0x40003000, 0x40002000}"
  by (simp add: demo_net_def avail_frames_def demo_pmm_free index_to_phys_def PHY_RAM_BASE_def)

theorem icmp_echo_reply_witness:
  "\<exists>m'. ipv4_handle 0x1000 28 0x900 demo_net =
       net_send (eth_header (ld_bytes m' 0x900 6) (net_mac demo_net) 0x0800 @ ld_bytes m' 0x1000 28) (demo_net\<lparr>nmem := m'\<rparr>) \<and>
     ld_bytes m' 0x1010 4 = [10, 0, 0, 2] \<and> m' 0x1014 = 0 \<and> calculate_checksum m' 0x1014 8 = 0"
proof -
  have len: "unat (ntohs (ld16 (nmem demo_net) (0x1000 + 2))) = 28"
    unfolding ld16_be by (simp add: demo_net_def)
  have ip: "ld_bytes (nmem demo_net) (0x1000 + 16) 4 = my_ip" "ld_bytes (nmem demo_net) (0x1000 + 12) 4 = [10, 0, 0, 2]"
    by (simp_all add: ld_bytes_def upt_rec demo_net_def my_ip_def)
  have "nmem demo_net (0x1000 + 9) = 1" "nmem demo_net (0x1000 + 20) = 8" "nmem demo_net 0x1000 AND 0x0F = 5"
    "(20 :: u32) \<le> 28" by (simp_all add: demo_net_def)
  from icmp_echo_reply [OF this(4) ip(1) this(1-3) len [symmetric], of "0x900"] ip(2) show ?thesis by auto
qed

theorem net_send_correct_witness:
  "\<exists>phys s'. net_send [1, 2, 3] demo_net = Some s' \<and> phys \<in> {0x40003000, 0x40002000} \<and>
     ld_bytes (nmem s') phys 13 = replicate 10 0 @ [1, 2, 3] \<and> ld16 (nmem s') 0x40001002 = 1 \<and> tx_desc_idx s' = 6"
proof -
  have inv: "pmm_inv (frames demo_net)" using demo_pmm_inv by (simp add: demo_net_def)
  have fields: "desc (txq demo_net) = 0x40000000" "avail (txq demo_net) = 0x40001000" "qsize (txq demo_net) = 4"
    "tx_desc_idx demo_net = 5" by (simp_all add: demo_net_def)
  have "disjoint_blocks 0x40000000 64 0x40001000 12" "disjoint_blocks 0x40003000 13 0x40000000 64"
    "disjoint_blocks 0x40003000 13 0x40001000 12" "disjoint_blocks 0x40002000 13 0x40000000 64"
    "disjoint_blocks 0x40002000 13 0x40001000 12" by (rule disjoint_no_wrap; simp)+
  then have ok: "tx_queue_ok (length [1, 2, 3 :: u8]) demo_net"
    unfolding tx_queue_ok_def demo_net_frames queue_bytes_def fields by simp
  have idx: "ld16 (nmem demo_net) (avail_idx_at (txq demo_net)) = 0"
    by (simp add: ld16_bytes demo_net_def avail_idx_at_def)
  show ?thesis using net_send_correct [OF inv ok] fields idx unfolding demo_net_frames
    by (auto simp: avail_idx_at_def)
qed

text \<open>The index of the device has wrapped around to 0 and the driver is at 65535: one buffer is released.\<close>

definition demo_done :: net where
  "demo_done = demo_net\<lparr>txq := (txq demo_net)\<lparr>last_used_idx := 65535\<rparr>,
     nmem := (\<lambda>_. 0)(0x40000001 := 0x10, 0x40000003 := 0x40)\<rparr>"

lemma demo_done_queue:
  "qsize (txq demo_done) = 4" "last_used_idx (txq demo_done) = 65535" "frames demo_done = demo_pmm"
  "dev_writes demo_done = []" "ld16 (nmem demo_done) (used_idx_at (txq demo_done)) = 0"
  "last_used_idx (rxq demo_done) = ld16 (nmem demo_done) (used_idx_at (rxq demo_done))"
  "tx_done (Suc 0) 65535 (txq demo_done) (nmem demo_done) = [0x40001000]"
proof -
  have q: "desc (txq demo_done) = 0x40000000" "used (txq demo_done) = 0x40001800" "qsize (txq demo_done) = 4"
    "nmem demo_done = (\<lambda>_. 0)(0x40000001 := 0x10, 0x40000003 := 0x40)" "last_used_idx (rxq demo_done) = 0" "used (rxq demo_done) = 0"
    by (simp_all add: demo_done_def demo_net_def)
  show "qsize (txq demo_done) = 4" "last_used_idx (txq demo_done) = 65535" "frames demo_done = demo_pmm" "dev_writes demo_done = []"
    by (simp_all add: demo_done_def demo_net_def)
  show "ld16 (nmem demo_done) (used_idx_at (txq demo_done)) = 0"
    "last_used_idx (rxq demo_done) = ld16 (nmem demo_done) (used_idx_at (rxq demo_done))"
    unfolding used_idx_at_def q by (simp_all add: ld16_bytes)
  have "ld64 (nmem demo_done) 0x40000000 = 0x40001000" "ld32 (nmem demo_done) 0x4000181C = 0"
    unfolding q by (simp_all add: ld64_def ld32_def ld_bytes_def upt_rec)
  then show "tx_done (Suc 0) 65535 (txq demo_done) (nmem demo_done) = [0x40001000]"
    by (simp add: used_ring_at_def desc_at_def q(1-3))
qed

lemma demo_done_release: "\<exists>p. free_all [0x40001000] demo_pmm = Some p \<and> stack_top p = 3"
  by (simp add: pmm_free_frame_def phys_to_index_def PHY_RAM_BASE_def demo_pmm_def pmm_push_frame_def arr_get_def arr_set_def
      word_le_nat_alt)

theorem net_cleanup_tx_correct_witness:
  "\<exists>s'. net_cleanup_tx demo_done = Some s' \<and> last_used_idx (txq s') = 0 \<and> stack_top (frames s') = 3"
  using net_cleanup_tx_correct [of demo_done] demo_done_queue demo_done_release by auto

lemma virtio_init_queue_ok:
  assumes inv: "pmm_inv (frames s)" and free: "free_frames (frames s) = pre @ map of_nat [k..<k + 8]" and k: "k + 8 \<le> 2 ^ 32"
    and n: "dev_read s (dev_reads s) 0x34 = n" "n \<noteq> 0"
  shows "\<exists>p. virtio_init_queue qi q s = Some (\<lparr>desc = index_to_phys (of_nat (k + 4)), avail = index_to_phys (of_nat (k + 3)),
       used = index_to_phys (of_nat k), qsize = n, last_used_idx = 0\<rparr>,
       s\<lparr>frames := p, nmem := filled (nmem s) (index_to_phys (of_nat k)) 0 (8 * 4096), dev_reads := dev_reads s + 1,
         dev_writes := dev_writes s @ queue_registers qi n (index_to_phys (of_nat (k + 4))) (index_to_phys (of_nat (k + 3)))
           (index_to_phys (of_nat k))\<rparr>) \<and>
     pmm_inv p \<and> free_frames p = pre"
proof -
  let ?s = "s\<lparr>dev_writes := dev_writes s @ [(0x30, qi)], dev_reads := dev_reads s + 1\<rparr>"
  let ?i = "\<lambda>j. of_nat (k + j) :: u32"
  have f8: "map of_nat [k..<k + 8] = [?i 0, ?i 1, ?i 2, ?i 3, ?i 4, ?i 5, ?i 6, ?i 7]" by (simp add: upt_rec)
  have f: "free_frames (frames ?s) = (pre @ [?i 0, ?i 1, ?i 2, ?i 3, ?i 4, ?i 5, ?i 6]) @ [?i 7]" using free f8 by simp
  have "pmm_inv (frames ?s)" using inv by simp
  from net_alloc_top [OF this f] obtain p7 where p7: "net_alloc ?s = Some (index_to_phys (?i 7), ?s\<lparr>frames := p7\<rparr>)"
    "pmm_inv p7" "free_frames p7 = (pre @ [?i 0, ?i 1, ?i 2, ?i 3, ?i 4, ?i 5]) @ [?i 6]" by auto
  from net_alloc_top [of "?s\<lparr>frames := p7\<rparr>"] p7(2,3) obtain p6 where p6:
    "net_alloc (?s\<lparr>frames := p7\<rparr>) = Some (index_to_phys (?i 6), ?s\<lparr>frames := p6\<rparr>)"
    "pmm_inv p6" "free_frames p6 = (pre @ [?i 0, ?i 1, ?i 2, ?i 3, ?i 4]) @ [?i 5]" by auto
  from net_alloc_top [of "?s\<lparr>frames := p6\<rparr>"] p6(2,3) obtain p5 where p5:
    "net_alloc (?s\<lparr>frames := p6\<rparr>) = Some (index_to_phys (?i 5), ?s\<lparr>frames := p5\<rparr>)"
    "pmm_inv p5" "free_frames p5 = (pre @ [?i 0, ?i 1, ?i 2, ?i 3]) @ [?i 4]" by auto
  from net_alloc_top [of "?s\<lparr>frames := p5\<rparr>"] p5(2,3) obtain p4 where p4:
    "net_alloc (?s\<lparr>frames := p5\<rparr>) = Some (index_to_phys (?i 4), ?s\<lparr>frames := p4\<rparr>)"
    "pmm_inv p4" "free_frames p4 = (pre @ [?i 0, ?i 1, ?i 2]) @ [?i 3]" by auto
  from net_alloc_top [of "?s\<lparr>frames := p4\<rparr>"] p4(2,3) obtain p3 where p3:
    "net_alloc (?s\<lparr>frames := p4\<rparr>) = Some (index_to_phys (?i 3), ?s\<lparr>frames := p3\<rparr>)"
    "pmm_inv p3" "free_frames p3 = (pre @ [?i 0, ?i 1]) @ [?i 2]" by auto
  from net_alloc_top [of "?s\<lparr>frames := p3\<rparr>"] p3(2,3) obtain p2 where p2:
    "net_alloc (?s\<lparr>frames := p3\<rparr>) = Some (index_to_phys (?i 2), ?s\<lparr>frames := p2\<rparr>)"
    "pmm_inv p2" "free_frames p2 = (pre @ [?i 0]) @ [?i 1]" by auto
  from net_alloc_top [of "?s\<lparr>frames := p2\<rparr>"] p2(2,3) obtain p1 where p1:
    "net_alloc (?s\<lparr>frames := p2\<rparr>) = Some (index_to_phys (?i 1), ?s\<lparr>frames := p1\<rparr>)"
    "pmm_inv p1" "free_frames p1 = pre @ [?i 0]" by auto
  from net_alloc_top [of "?s\<lparr>frames := p1\<rparr>"] p1(2,3) obtain p0 where p0:
    "net_alloc (?s\<lparr>frames := p1\<rparr>) = Some (index_to_phys (?i 0), ?s\<lparr>frames := p0\<rparr>)"
    "pmm_inv p0" "free_frames p0 = pre" by auto
  let ?b = "index_to_phys (of_nat k)"
  have at: "index_to_phys (?i 4) = ?b + of_nat (3 * 4096 + 4096)" "index_to_phys (?i 3) = ?b + of_nat (3 * 4096)"
    using index_to_phys_add [of k 4] index_to_phys_add [of k 3] k by simp_all
  have m: "memset ?b 0 (3 * 4096) (memset (index_to_phys (?i 3)) 0 4096 (memset (index_to_phys (?i 4)) 0 (4 * 4096) (nmem s))) =
      filled (nmem s) ?b 0 (8 * 4096)"
    using filled_three [of "3 * 4096" 4096 "4 * 4096" "nmem s" ?b 0] unfolding memset_filled at by simp
  show ?thesis
    using n p7(1) p6(1) p5(1) p4(1) p3(1) p2(1) p1(1) p0 m
    by (intro exI [of _ p0]) (simp add: virtio_init_queue_def read32_def write32_def Let_def queue_registers_def)
qed

text \<open>
  \<open>virtio_init_queue\<close>, when the eight frames on top of the free stack lie one below the other, as they do
  after \<open>pmm_init\<close>: it takes exactly these frames, and the areas it hands to the device, of four pages for
  the descriptors, one for the available ring and three for the used ring, are these frames and do not
  overlap; all of their bytes are cleared and no other byte of memory is. The addresses of the areas are
  written to the registers of the device before the queue is marked as ready.
\<close>

theorem virtio_init_queue_frames:
  assumes inv: "pmm_inv (frames s)" and free: "free_frames (frames s) = pre @ map of_nat [k..<k + 8]" and k: "k + 8 \<le> 2 ^ 32"
    and n: "dev_read s (dev_reads s) 0x34 = n" "n \<noteq> 0"
  shows "\<exists>s'. virtio_init_queue qi q s = Some (\<lparr>desc = index_to_phys (of_nat (k + 4)), avail = index_to_phys (of_nat (k + 3)),
       used = index_to_phys (of_nat k), qsize = n, last_used_idx = 0\<rparr>, s') \<and>
     pmm_inv (frames s') \<and> free_frames (frames s') = pre \<and>
     (\<forall>x. nmem s' x = (if in_block (index_to_phys (of_nat k)) (8 * 4096) x then 0 else nmem s x)) \<and>
     dev_writes s' = dev_writes s @ queue_registers qi n (index_to_phys (of_nat (k + 4))) (index_to_phys (of_nat (k + 3)))
       (index_to_phys (of_nat k))"
proof -
  from virtio_init_queue_ok [OF assms, of qi q] obtain p where p: "virtio_init_queue qi q s = Some (\<lparr>desc = index_to_phys (of_nat (k + 4)),
      avail = index_to_phys (of_nat (k + 3)), used = index_to_phys (of_nat k), qsize = n, last_used_idx = 0\<rparr>,
      s\<lparr>frames := p, nmem := filled (nmem s) (index_to_phys (of_nat k)) 0 (8 * 4096), dev_reads := dev_reads s + 1,
        dev_writes := dev_writes s @ queue_registers qi n (index_to_phys (of_nat (k + 4))) (index_to_phys (of_nat (k + 3)))
          (index_to_phys (of_nat k))\<rparr>)" "pmm_inv p" "free_frames p = pre" by blast
  show ?thesis unfolding p(1) using p(2,3) by (auto simp: filled_def)
qed

text \<open>Nine frames, the first of them in use, and a device whose queue has 128 entries.\<close>

definition demo_boot_net :: net where
  "demo_boot_net = demo_net\<lparr>frames := \<lparr>frame_stack = Some [1, 2, 3, 4, 5, 6, 7, 8, 0], stack_top = 8, stack_capacity = 9,
       used_frames = 1, phy_ram_size = 0x9000, phy_ram_end = 0x40009000, total_frames = 9,
       ref_counts = Some [1, 0, 0, 0, 0, 0, 0, 0, 0]\<rparr>, dev_read := (\<lambda>_ _. 128)\<rparr>"

lemma demo_boot_net_inv: "pmm_inv (frames demo_boot_net)"
  by (simp add: pmm_inv_def demo_boot_net_def ram_geometry_def PHY_RAM_BASE_def pmm_arrays_def
      free_frames_def ref_of_def)

theorem virtio_init_queue_frames_witness:
  "\<exists>s'. virtio_init_queue 1 (rxq demo_net) demo_boot_net = Some (\<lparr>desc = 0x40005000, avail = 0x40004000, used = 0x40001000,
       qsize = 128, last_used_idx = 0\<rparr>, s') \<and> pmm_inv (frames s') \<and> free_frames (frames s') = [] \<and>
     nmem s' 0x40008FFF = 0 \<and> nmem s' 0x1014 = 8"
proof -
  have f: "free_frames (frames demo_boot_net) = [] @ map of_nat [1..<1 + 8]"
    by (simp add: demo_boot_net_def free_frames_def upt_rec)
  have a: "index_to_phys 5 = 0x40005000" "index_to_phys 4 = 0x40004000" "index_to_phys 1 = 0x40001000"
    by (simp_all add: index_to_phys_def PHY_RAM_BASE_def)
  have b: "in_block 0x40001000 32768 0x40008FFF" "\<not> in_block 0x40001000 32768 0x1014" "nmem demo_boot_net 0x1014 = 8"
    by (simp_all add: in_block_def demo_boot_net_def demo_net_def)
  have d: "dev_read demo_boot_net (dev_reads demo_boot_net) 0x34 = 128" "(128 :: u32) \<noteq> 0"
    by (simp_all add: demo_boot_net_def)
  obtain s' where s': "virtio_init_queue 1 (rxq demo_net) demo_boot_net = Some (\<lparr>desc = 0x40005000, avail = 0x40004000,
       used = 0x40001000, qsize = 128, last_used_idx = 0\<rparr>, s')" "pmm_inv (frames s')" "free_frames (frames s') = []"
    "\<forall>x. nmem s' x = (if in_block 0x40001000 32768 x then 0 else nmem demo_boot_net x)"
    using virtio_init_queue_frames [OF demo_boot_net_inv f _ d, of 1 "rxq demo_net"] by (auto simp: a)
  then show ?thesis using b by auto
qed

end
