(* ===== verification/Boot.thy ===== *)
theory Boot
  imports Vmm Sched_Init Stdio Gic Net
begin

text \<open>
  The start of the system, \<open>src/src/main.c\<close>: the order in which \<open>main\<close> initialises the components, with the
  state of all of them. The allocator of frames belongs to the memory manager until the network driver
  takes it over, and the memory is handed from one component to the next. What the linker and the
  hypervisor provide are arguments: the addresses of string literals (\<open>lit\<close>), of \<open>_kernel_end\<close> and of the
  entry points, and the old contents of the two arrays of the frame allocator. Console messages other than
  the greeting are left out, as in the components.
\<close>

section \<open>The state of the kernel\<close>

record kernel =
  con :: console
  mm :: vmm
  ic :: gic
  sc :: sched
  nt :: net
  psci_calls :: "(u64 \<times> u64 \<times> u64 \<times> u64) list"

definition PSCI_CPU_ON_64 :: u64 where "PSCI_CPU_ON_64 = 0xC4000003"

text \<open>The hypervisor call that starts a core: recorded, its answer is not used.\<close>

definition psci_cpu_on :: "u64 \<Rightarrow> u64 \<Rightarrow> u64 \<Rightarrow> kernel \<Rightarrow> kernel" where
  "psci_cpu_on target_cpu entry_point context_id k =
     k\<lparr>psci_calls := psci_calls k @ [(PSCI_CPU_ON_64, target_cpu, entry_point, context_id)]\<rparr>"

text \<open>The first two steps of \<open>main\<close>: the frame allocator and the address space.\<close>

definition main_memory :: "(nat \<Rightarrow> u32) \<Rightarrow> (nat \<Rightarrow> u8) \<Rightarrow> u64 \<Rightarrow> vmm \<Rightarrow> vmm option" where
  "main_memory raw_stack raw_refs kernel_end s = do {
     p \<leftarrow> pmm_init raw_stack raw_refs kernel_end (2 * 1024 * 1024 * 1024) (vmm.frames s);
     init_vmm kernel_end (s\<lparr>vmm.frames := p\<rparr>)
   }"

text \<open>The data that the second core starts from, in memory of the heap.\<close>

definition boot_data :: "u64 \<Rightarrow> vmm \<Rightarrow> heap \<Rightarrow> (u64 \<times> heap) option" where
  "boot_data core_entry_at s h = do {
     (data, h) \<leftarrow> malloc 40 h;
     (core1_stack, h) \<leftarrow> malloc (4096 * 4) h;
     guard (data \<noteq> 0);
     let m = st64 (hmem h) data (core1_stack + 4096 * 4);
     let m = st64 m (data + 8) (ttbr1_el1 s);
     let m = st64 m (data + 16) (tcr_el1 s);
     let m = st64 m (data + 24) (mair_el1 s);
     let m = st64 m (data + 32) core_entry_at;
     Some (data, h\<lparr>hmem := m\<rparr>)
   }"

text \<open>\<open>main\<close> up to its call of \<open>sched_yield\<close>.\<close>

definition main_init ::
  "(string \<Rightarrow> u64) \<Rightarrow> (nat \<Rightarrow> u32) \<Rightarrow> (nat \<Rightarrow> u8) \<Rightarrow> u64 \<Rightarrow> u64 \<Rightarrow> u64 \<Rightarrow> kernel \<Rightarrow> kernel option"
where
  "main_init lit raw_stack raw_refs kernel_end core_entry_at secondary_entry k = do {
     (_, c) \<leftarrow> puts (lit ''Press Ctrl + A + X to exit\<newline>'') (con k);
     v \<leftarrow> main_memory raw_stack raw_refs kernel_end (mm k);
     let g = gic_init (ic k);
     let c = c\<lparr>mmu_enabled := True\<rparr>;
     h \<leftarrow> heap_init 0x50000000 (8 * 1024 * 1024) ((kheap (sc k))\<lparr>hmem := ram v\<rparr>);
     s \<leftarrow> sched_init (ttbr1_el1 v) ((sc k)\<lparr>kheap := h\<rparr>);
     g \<leftarrow> gic_enable_irq 48 g;
     (data, h) \<leftarrow> boot_data core_entry_at v (kheap s);
     let k = psci_cpu_on 1 secondary_entry data k;
     n \<leftarrow> net_init ((nt k)\<lparr>net.frames := vmm.frames v, nmem := hmem h\<rparr>);
     Some (k\<lparr>con := c, mm := v\<lparr>vmm.frames := net.frames n, ram := nmem n\<rparr>, ic := g,
       sc := s\<lparr>kheap := h\<lparr>hmem := nmem n\<rparr>\<rparr>, nt := n\<rparr>)
   }"

text \<open>
  The whole of \<open>main\<close> on core 0. \<open>sched_yield\<close> comes back to it when the scheduler chooses its task again;
  then the task ends.
\<close>

definition main ::
  "(string \<Rightarrow> u64) \<Rightarrow> (nat \<Rightarrow> u32) \<Rightarrow> (nat \<Rightarrow> u8) \<Rightarrow> u64 \<Rightarrow> u64 \<Rightarrow> u64 \<Rightarrow> kernel \<Rightarrow> kernel option"
where
  "main lit raw_stack raw_refs kernel_end core_entry_at secondary_entry k = do {
     k \<leftarrow> main_init lit raw_stack raw_refs kernel_end core_entry_at secondary_entry k;
     s \<leftarrow> sched_yield 0 (sc k);
     Some (k\<lparr>sc := s\<rparr>)
   }"

definition main_end :: "kernel \<Rightarrow> kernel option" where
  "main_end k = map_option (\<lambda>s. k\<lparr>sc := s\<rparr>) (pthread_exit 0 0 (sc k))"

text \<open>
  The second core: its initialisation and \<open>n\<close> rounds of its loop. The loop is run by the task \<open>me\<close> that
  \<open>sched_init_secondary\<close> makes for it. When a round switches to another thread, the core goes on with that thread:
  \<open>sched_yield\<close> comes back into the loop only if a core switches to \<open>me\<close> again, so the rounds end there.
\<close>

primrec core_rounds :: "nat \<Rightarrow> u64 \<Rightarrow> kernel \<Rightarrow> kernel option" where
  "core_rounds 0 me k = Some k"
| "core_rounds (Suc n) me k =
     (if core_task (cores (sc k) ! 1) = me
      then do { s \<leftarrow> sched_yield 1 (sc k); core_rounds n me (k\<lparr>sc := s\<rparr>) }
      else Some k)"

definition core_entry :: "(string \<Rightarrow> u64) \<Rightarrow> nat \<Rightarrow> kernel \<Rightarrow> kernel option" where
  "core_entry lit n k = do {
     (_, c) \<leftarrow> printf (lit ''[SMP] Core 1 online!\<newline>'') [] (con k);
     s \<leftarrow> sched_init_secondary 1 (sc k);
     core_rounds n (core_task (cores s ! 1)) (k\<lparr>con := c, sc := s\<rparr>)
   }"

section \<open>Frames are taken from the top of the stack\<close>

definition pops :: "pmm \<Rightarrow> pmm \<Rightarrow> bool" where
  "pops p p' \<longleftrightarrow> (\<exists>zs. free_frames p = free_frames p' @ zs)"

lemma pops_refl [simp]: "pops p p"
  by (simp add: pops_def)

lemma pops_trans [trans]: "pops p p' \<Longrightarrow> pops p' p'' \<Longrightarrow> pops p p''"
  by (auto simp: pops_def)

lemma pops_alloc:
  assumes "pmm_alloc_frame p = Some (a, p')"
  shows "pops p p'"
proof (cases "stack_top p = 0")
  case True
  then show ?thesis using assms by (simp add: pmm_alloc_frame_def)
next
  case False
  then obtain fs where fs: "frame_stack p = Some fs" "frame_stack p' = Some fs" "stack_top p' = stack_top p - 1"
    using assms by (auto simp: pmm_alloc_frame_def Let_def bind_eq_Some_conv)
  have "unat (stack_top p) = Suc (unat (stack_top p - 1))" using False by (simp add: unat_minus_one unat_gt_0)
  then have "take (unat (stack_top p)) fs = take (unat (stack_top p - 1)) fs @ take 1 (drop (unat (stack_top p - 1)) fs)"
    using take_add [of "unat (stack_top p - 1)" 1 fs] by simp
  then show ?thesis using fs by (auto simp: pops_def free_frames_def)
qed

lemma pops_next_table: "get_next_table t i s = Some (a, s') \<Longrightarrow> pops (vmm.frames s) (vmm.frames s')"
  by (auto simp: get_next_table_def Let_def bind_eq_Some_conv split: if_splits dest: pops_alloc)

lemma pops_map_page: "vmm_map_page v p f s = Some s' \<Longrightarrow> pops (vmm.frames s) (vmm.frames s')"
  by (auto simp: vmm_map_page_def bind_eq_Some_conv split: if_splits dest!: pops_next_table intro: pops_trans)

lemma pops_map_block: "vmm_map_block v p f s = Some s' \<Longrightarrow> pops (vmm.frames s) (vmm.frames s')"
  by (auto simp: vmm_map_block_def bind_eq_Some_conv split: if_splits dest!: pops_next_table intro: pops_trans)

lemma pops_region_loop:
  assumes "map_region_loop v p sz f mapped s = Some s'"
  shows "pops (vmm.frames s) (vmm.frames s')"
proof (rule map_region_loop.raw_induct [where P = "\<lambda>v p sz f mapped s s'. pops (vmm.frames s) (vmm.frames s')", OF _ assms])
  fix loop v p sz f mapped s s'
  assume ih: "\<And>v p sz f mapped s s'. loop v p sz f mapped s = Some s' \<Longrightarrow> pops (vmm.frames s) (vmm.frames s')"
    and step: "(if mapped < sz then
        if (v + mapped) mod BLOCK_SIZE = 0 \<and> (p + mapped) mod BLOCK_SIZE = 0 \<and> BLOCK_SIZE \<le> sz - mapped
        then Option.bind (vmm_map_block (v + mapped) (p + mapped) f s) (loop v p sz f (mapped + BLOCK_SIZE))
        else Option.bind (vmm_map_page (v + mapped) (p + mapped) f s) (loop v p sz f (mapped + PAGE_SIZE))
      else Some s) = Some s'"
  show "pops (vmm.frames s) (vmm.frames s')"
    using step by (auto simp: bind_eq_Some_conv split: if_splits dest!: ih pops_map_page pops_map_block intro: pops_trans)
qed

lemma pops_region: "vmm_map_region v p sz f s = Some s' \<Longrightarrow> pops (vmm.frames s) (vmm.frames s')"
  unfolding vmm_map_region_def by (rule pops_region_loop)

lemma pops_init_vmm: "init_vmm e s = Some s' \<Longrightarrow> pops (vmm.frames s) (vmm.frames s')"
  by (auto simp: init_vmm_def Let_def bind_eq_Some_conv dest!: pops_region pops_alloc)
    ((rule pops_trans, assumption)+, simp)

section \<open>The memory after the start\<close>

lemma sorted_unreserved:
  assumes "n \<le> 4294967296"
  shows "sorted_wrt (\<lambda>i j. unat i < unat j) (unreserved rend n)"
proof -
  have "sorted_wrt (\<lambda>i j. unat i < unat j) (map (of_nat :: nat \<Rightarrow> u32) [0..<n])"
    unfolding sorted_wrt_map using assms
    by (intro sorted_wrt_mono_rel [OF _ sorted_wrt_upt]) (auto simp: unat_u32_of_nat)
  then show ?thesis unfolding unreserved_def by (rule sorted_wrt_filter)
qed

text \<open>The frames that remain when the stack was only popped: those at the bottom, with the lowest numbers.\<close>

lemma pops_keeps_low:
  assumes "pops p p'" "sorted_wrt (\<lambda>i j. unat i < unat j) (free_frames p)" "i \<in> set (free_frames p)"
    "unat i < length (free_frames p')"
  shows "i \<in> set (free_frames p')"
proof (rule ccontr)
  assume no: "i \<notin> set (free_frames p')"
  obtain zs where zs: "free_frames p = free_frames p' @ zs" using assms(1) by (auto simp: pops_def)
  then have less: "unat x < unat i" if "x \<in> set (free_frames p')" for x
    using assms(2,3) no that by (auto simp: sorted_wrt_append)
  have "sorted_wrt (<) (map unat (free_frames p'))" using assms(2) zs by (simp add: sorted_wrt_append sorted_wrt_map)
  then have "distinct (map unat (free_frames p'))" by (simp add: strict_sorted_iff)
  then have "length (free_frames p') = card (unat ` set (free_frames p'))"
    by (metis distinct_card length_map set_map)
  also have "\<dots> \<le> card {..<unat i}" using less by (intro card_mono) auto
  finally show False using assms(4) by simp
qed

text \<open>The free frames are consecutive from the end of the reserved memory on.\<close>

lemma unreserved_suffix:
  assumes "n \<le> 4294967296"
  shows "\<exists>a \<le> n. unreserved rend n = map of_nat [a..<n]"
  using assms
proof (induction n)
  case 0
  then show ?case by (simp add: unreserved_def)
next
  case (Suc n)
  then obtain a where a: "a \<le> n" "unreserved rend n = map of_nat [a..<n]" by auto
  show ?case
  proof (cases "rend \<le> index_to_phys (of_nat n)")
    case True
    then have "unreserved rend (Suc n) = map of_nat [a..<Suc n]" using a by (simp add: unreserved_Suc)
    then show ?thesis using a(1) by (intro exI [of _ a]) simp
  next
    case False
    have "a = n"
    proof (rule ccontr)
      assume "a \<noteq> n"
      then have "a < n" using a(1) by simp
      then have "of_nat a \<in> set (unreserved rend n)" unfolding a(2) by simp
      then have "rend \<le> index_to_phys (of_nat a)" by (simp add: unreserved_def)
      moreover have "unat (of_nat a :: u32) = a" "unat (of_nat n :: u32) = n"
        using \<open>a < n\<close> Suc.prems by (simp_all add: unat_u32_of_nat)
      ultimately show False using False \<open>a < n\<close> by (simp add: word_le_nat_alt unat_index_to_phys)
    qed
    then have "unreserved rend (Suc n) = map of_nat [Suc n..<Suc n]" using a(2) False by (simp add: unreserved_Suc)
    then show ?thesis by blast
  qed
qed

lemma main_memory_ok:
  assumes ker: "0x40000000 \<le> unat kernel_end" "unat kernel_end \<le> 0x4FD80000" and s: "vmm.frames s = pmm_static"
  shows "\<exists>s'. main_memory raw_stack raw_refs kernel_end s = Some s' \<and> vmm_wf s' \<and> paging_enabled s' \<and>
    (\<forall>va. unat va < 2 ^ 39 \<longrightarrow> translate s' va = boot_map 0x80000000 va) \<and> pmm_inv (vmm.frames s') \<and>
    avail_frames (vmm.frames s') \<subseteq> {a. (unat kernel_end + 4095) div 4096 * 4096 + 0x280000 \<le> unat a \<and> unat a < 0xC0000000} \<and>
    (\<forall>a. 4096 dvd unat a \<and> 0x50000000 \<le> unat a \<and> unat a < 0x50800000 \<longrightarrow> a \<in> avail_frames (vmm.frames s')) \<and>
    (\<exists>a e. free_frames (vmm.frames s') = map of_nat [a..<e] \<and> e \<le> 524288 \<and> a + 452090 \<le> e) \<and>
    ttbr1_el1 s' = root_table s' \<and> mair_el1 s' = 0xFF00 \<and> tcr_el1 s' = 0x280190019"
proof -
  have r: "(0x80000000 :: u64) < 0x80000000000" "unat kernel_end < 2 ^ 60" using ker(2) by simp_all
  have ceil: "(unat kernel_end + 4095) div 4096 * 4096 \<le> 0x4FD80000" "0x40000000 \<le> (unat kernel_end + 4095) div 4096 * 4096"
  proof -
    have "(unat kernel_end + 4095) div 4096 \<le> (0x4FD80000 + 4095) div 4096" using ker(2) by (intro div_le_mono) simp
    then show "(unat kernel_end + 4095) div 4096 * 4096 \<le> 0x4FD80000" by simp
    have "(0x40000000 + 4095) div 4096 \<le> (unat kernel_end + 4095) div 4096" using ker(1) by (intro div_le_mono) simp
    then show "0x40000000 \<le> (unat kernel_end + 4095) div 4096 * 4096" by simp
  qed
  have fits: "arrays_in_ram kernel_end 0x80000000"
    using ceil by (simp add: arrays_in_ram_def PHY_RAM_BASE_def)
  let ?R = "(unat kernel_end + 4095) div 4096 * 4096 + 5 * (unat (0x80000000 :: u64) div 4096)"
  from card_avail_init [OF r fits, of raw_stack raw_refs] obtain p where
    p: "pmm_init raw_stack raw_refs kernel_end 0x80000000 pmm_static = Some p" "pmm_inv p" "phy_ram_size p = 0x80000000"
      "unat (0x80000000 :: u64) div 4096 \<le> card (avail_frames p) + (?R - 0x40000000 + 4095) div 4096"
      "avail_frames p = index_to_phys ` {i. unat i < unat (0x80000000 :: u64) div 4096 \<and> ?R \<le> unat (index_to_phys i)}"
    by blast
  have free: "free_frames p = unreserved (pmm_reserved_end kernel_end (total_frames p)) (unat (total_frames p))"
    using pmm_init_ok [OF r(1) fits, of raw_stack raw_refs] p(1) by auto
  have n: "unat (total_frames p) = 524288" using unat_total_frames(1) [OF pmm_invD(1) [OF p(2)]] p(3) by simp
  from ceil(1) have "(?R - 0x40000000 + 4095) div 4096 \<le> (0x10000000 + 4095) div 4096" by (intro div_le_mono) simp
  then have big: "458751 \<le> card (avail_frames p)" using p(4) by simp
  let ?s = "s\<lparr>vmm.frames := p\<rparr>"
  have "pmm_inv (vmm.frames ?s)" "boot_frames (unat (phy_ram_size (vmm.frames ?s))) < card (avail_frames (vmm.frames ?s))"
    "unat kernel_end \<le> 0x40000000 + unat (phy_ram_size (vmm.frames ?s))"
    "unat (phy_ram_size (vmm.frames ?s)) \<le> 2 ^ 38" using p(2,3) big ker(2) by (simp_all add: boot_frames_def)
  from init_vmm_ok [OF this(1,2) ker(1) this(3,4)] p(3) obtain s' where
    s': "init_vmm kernel_end ?s = Some s'" "vmm_wf s'" "paging_enabled s'" "pmm_inv (vmm.frames s')"
      "\<forall>va. unat va < 2 ^ 39 \<longrightarrow> translate s' va = boot_map 0x80000000 va"
      "avail_frames (vmm.frames s') \<subseteq> avail_frames p"
      "card (avail_frames p) \<le> card (avail_frames (vmm.frames s')) + boot_frames 0x80000000 + 1"
      "ttbr1_el1 s' = root_table s'" "mair_el1 s' = 0xFF00" "tcr_el1 s' = 0x280190019" by auto
  have tr: "unat va < 2 ^ 39 \<Longrightarrow> translate s' va = boot_map 0x80000000 va" for va
    using s'(5) by simp
  have "pops p (vmm.frames s')" using pops_init_vmm [OF s'(1)] by simp
  have long: "452090 \<le> length (free_frames (vmm.frames s'))"
  proof -
    have "card (avail_frames (vmm.frames s')) \<le> length (free_frames (vmm.frames s'))"
      unfolding avail_frames_def by (rule order_trans [OF card_image_le card_length]) simp
    then show ?thesis using s'(7) big by (simp add: boot_frames_def)
  qed
  have heap: "a \<in> avail_frames (vmm.frames s')" if a: "4096 dvd unat a" "0x50000000 \<le> unat a" "unat a < 0x50800000" for a
  proof -
    define k where "k = (unat a - 0x40000000) div 4096"
    have k: "k < 67584" "65536 \<le> k" using a(2,3) by (simp_all add: k_def less_mult_imp_div_less less_eq_div_iff_mult_less_eq)
    have u: "unat (of_nat k :: u32) = k" using k by (intro unat_u32_of_nat) simp
    have "4096 dvd unat a - 0x40000000" using a(1) by (intro dvd_diff_nat) simp_all
    then have "0x40000000 + k * 4096 = unat a" using a(2) by (simp add: k_def)
    then have idx: "index_to_phys (of_nat k) = a" by (simp add: word_unat_eq_iff unat_index_to_phys u)
    have "of_nat k \<in> set (free_frames p)"
      unfolding free set_unreserved [OF order_less_imp_le [OF unat_u32_lt]]
      using n k u ceil by (simp add: word_le_nat_alt unat_pmm_reserved_end [OF r(2)] unat_index_to_phys)
    moreover have "sorted_wrt (\<lambda>i j. unat i < unat j) (free_frames p)" unfolding free n by (rule sorted_unreserved) simp
    ultimately have "of_nat k \<in> set (free_frames (vmm.frames s'))"
      using pops_keeps_low [OF \<open>pops p (vmm.frames s')\<close>] u k(1) long by simp
    then show ?thesis using idx by (force simp: avail_frames_def)
  qed
  have low: "avail_frames (vmm.frames s') \<subseteq> {a. (unat kernel_end + 4095) div 4096 * 4096 + 0x280000 \<le> unat a \<and> unat a < 0xC0000000}"
    using s'(6) unfolding p(5) by (auto simp: unat_index_to_phys)
  have "main_memory raw_stack raw_refs kernel_end s = Some s'"
    using p(1) s'(1) by (simp add: main_memory_def s)
  moreover have "\<exists>a e. free_frames (vmm.frames s') = map of_nat [a..<e] \<and> e \<le> 524288 \<and> a + 452090 \<le> e"
  proof -
    from unreserved_suffix [of 524288] obtain a where a: "free_frames p = map of_nat [a..<524288]" unfolding free n by auto
    let ?l = "length (free_frames (vmm.frames s'))"
    obtain zs where zs: "free_frames p = free_frames (vmm.frames s') @ zs" using \<open>pops p (vmm.frames s')\<close> by (auto simp: pops_def)
    then have "a + ?l \<le> 524288" using a long by (auto dest: arg_cong [where f = length])
    moreover have "free_frames (vmm.frames s') = take ?l (free_frames p)" using zs by simp
    then have "free_frames (vmm.frames s') = map of_nat [a..<a + ?l]" using calculation by (simp add: a take_map)
    ultimately show ?thesis using long by (intro exI [of _ a] exI [of _ "a + ?l"]) simp
  qed
  ultimately show ?thesis using s'(2-4,8-10) tr low heap by blast
qed

lemma heap_init_ok:
  "\<exists>h'. heap_init 0x50000000 (8 * 1024 * 1024) h = Some h' \<and> heap_geometry h' \<and> heap_start_addr h' = 0x50000000 \<and>
     heap_end_addr h' = 0x50800000 \<and> heap_lock h' = 0 \<and>
     (\<forall>k. free_page (pages h') k \<longleftrightarrow> 2 \<le> k \<and> k < 2048)"
proof -
  let ?md = "replicate 2048 \<lparr>ptype = 0, pcount = 0\<rparr>"
  let ?r = "\<lparr>ptype = PAGE_TYPE_LARGE, pcount = 1\<rparr>"
  have "for_loop 0 2 (\<lambda>i md. arr_set md i ?r) ?md = Some (set_run 0 2 (\<lambda>_. ?r) ?md)"
    by (rule for_loop_set_run [where len = 2048]) simp_all
  then have run: "heap_init 0x50000000 (8 * 1024 * 1024) h = Some (h\<lparr>total_pages := 2048, heap_start_addr := 0x50000000,
      heap_end_addr := 0x50800000, page_metadata := Some (set_run 0 2 (\<lambda>_. ?r) ?md),
      caches := map (\<lambda>s. \<lparr>slabs_partial = 0, slabs_full = 0, slabs_free = 0, obj_size = s\<rparr>) slab_sizes, heap_lock := 0\<rparr>)"
    by (simp add: heap_init_def Let_def pthread_spin_init_def)
  have "free_page (set_run 0 2 (\<lambda>_. ?r) ?md) k \<longleftrightarrow> 2 \<le> k \<and> k < 2048" for k
    by (auto simp: free_page_def nth_set_run page_types split: if_splits)
  then show ?thesis unfolding run by (simp add: heap_geometry_def pages_def)
qed

section \<open>Properties\<close>

text \<open>
  After the first two steps of \<open>main\<close>, for a kernel image that ends in the 253 MB above the start of the RAM,
  the MMU is on with exactly the identity map of the 2 GB of RAM and of the device windows, on well-formed
  tables, and the frames that are left lie in the RAM above the kernel image and the arrays of the allocator.
\<close>

theorem boot_memory_correct:
  assumes "0x40000000 \<le> unat kernel_end" "unat kernel_end \<le> 0x4FD80000" "vmm.frames s = pmm_static"
  shows "\<exists>s'. main_memory raw_stack raw_refs kernel_end s = Some s' \<and> vmm_wf s' \<and> paging_enabled s' \<and>
    (\<forall>va. unat va < 2 ^ 39 \<longrightarrow> translate s' va = boot_map 0x80000000 va) \<and> pmm_inv (vmm.frames s') \<and>
    avail_frames (vmm.frames s') \<subseteq> {a. (unat kernel_end + 4095) div 4096 * 4096 + 0x280000 \<le> unat a \<and> unat a < 0xC0000000}"
  using main_memory_ok [OF assms] by blast

theorem boot_memory_correct_witness:
  "\<exists>s'. main_memory (\<lambda>_. 0) (\<lambda>_. 0) 0x40100000 (demo_vmm\<lparr>vmm.frames := pmm_static\<rparr>) = Some s' \<and> paging_enabled s' \<and>
     translate s' 0x40080000 = Some (0x40080000, attr_bits VM_WRITABLE) \<and> translate s' 0 = None"
proof -
  obtain s' where s': "main_memory (\<lambda>_. 0) (\<lambda>_. 0) 0x40100000 (demo_vmm\<lparr>vmm.frames := pmm_static\<rparr>) = Some s'"
    "paging_enabled s'" "\<forall>va. unat va < 2 ^ 39 \<longrightarrow> translate s' va = boot_map 0x80000000 va"
    using boot_memory_correct [of "0x40100000" "demo_vmm\<lparr>vmm.frames := pmm_static\<rparr>" "\<lambda>_. 0" "\<lambda>_. 0"] by auto
  have "translate s' 0x40080000 = Some (0x40080000, attr_bits VM_WRITABLE)" "translate s' 0 = None"
    using s'(3) [rule_format, of "0x40080000"] s'(3) [rule_format, of 0] by (simp_all add: boot_map_def page_ceil_def)
  with s' show ?thesis by blast
qed

text \<open>
  C37. The region of the heap is not taken from the frame allocator: when \<open>main\<close> gives the 8 MB at 0x50000000 to
  the heap, every one of its frames is still available in the frame allocator, so that \<open>pmm_alloc_frame\<close> can
  hand out memory that belongs to blocks of the heap.
\<close>

theorem boot_heap_not_reserved:
  assumes "0x40000000 \<le> unat kernel_end" "unat kernel_end \<le> 0x4FD80000" "vmm.frames s = pmm_static"
  shows "\<exists>s' h'. main_memory raw_stack raw_refs kernel_end s = Some s' \<and>
    heap_init 0x50000000 (8 * 1024 * 1024) h = Some h' \<and> heap_geometry h' \<and> free_page (pages h') 2 \<and>
    heap_start_addr h' = 0x50000000 \<and> heap_end_addr h' = 0x50800000 \<and>
    (\<forall>a. 4096 dvd unat a \<and> heap_start_addr h' \<le> a \<and> a < heap_end_addr h' \<longrightarrow> a \<in> avail_frames (vmm.frames s'))"
  using main_memory_ok [OF assms, of raw_stack raw_refs] heap_init_ok [of h] by (auto simp: word_le_nat_alt word_less_nat_alt)

theorem boot_heap_not_reserved_witness:
  "\<exists>s' h'. main_memory (\<lambda>_. 0) (\<lambda>_. 0) 0x40100000 (demo_vmm\<lparr>vmm.frames := pmm_static\<rparr>) = Some s' \<and>
    heap_init 0x50000000 (8 * 1024 * 1024) demo_heap = Some h' \<and> free_page (pages h') 2 \<and>
    0x50002000 \<in> avail_frames (vmm.frames s')"
proof -
  have "4096 dvd unat (0x50002000 :: u64)" by simp
  then show ?thesis
    using boot_heap_not_reserved [of "0x40100000" "demo_vmm\<lparr>vmm.frames := pmm_static\<rparr>" "\<lambda>_. 0" "\<lambda>_. 0" demo_heap] by auto
qed

end
