(* ===== verification/Slab_Lists.thy ===== *)
theory Slab_Lists
  imports Heap Linked_List
begin

text \<open>
  The doubly linked lists of slabs of \<open>src/src/heap.c\<close>: the headers in the memory of the heap are a store of
  linked objects in the sense of \<open>Linked_List\<close>, and the pointer updates that the code repeats inline
  (\<open>unlink_slab\<close>, \<open>push_slab\<close>) remove a slab from a list and put one at its front. Both write only the two
  link fields of slabs.
\<close>

section \<open>Pages and their fields\<close>

definition slab_page :: "u64 \<Rightarrow> bool" where
  "slab_page p \<longleftrightarrow> 4096 dvd unat p \<and> p \<noteq> 0"

lemma slab_pageE:
  assumes "slab_page p"
  obtains k where "unat p = 4096 * k" "0 < k" "unat p + 4096 \<le> 2 ^ 64"
proof -
  from assms obtain k where k: "unat p = 4096 * k" by (auto simp: slab_page_def)
  have "0 < k" using k assms by (cases k) (auto simp: slab_page_def unat_eq_0)
  moreover have "unat p + 4096 \<le> 2 ^ 64" using k unat_u64_lt [of p] by simp
  ultimately show thesis using k that by blast
qed

lemma slab_page_offset:
  assumes "slab_page p" "k < 4096"
  shows "unat (p + of_nat k) = unat p + k"
proof -
  have "unat p + 4096 \<le> 2 ^ 64" using assms(1) by (rule slab_pageE)
  moreover have "unat (of_nat k :: u64) = k" using assms(2) by (intro unat_u64_of_nat) simp
  ultimately show ?thesis using assms(2) by (subst unat_add_no_wrap) simp_all
qed

text \<open>Two addresses in pages, by page and offset.\<close>

lemma page_offset_eq:
  assumes "slab_page p" "slab_page q" "i < 4096" "j < 4096"
  shows "p + of_nat i = q + of_nat j \<longleftrightarrow> p = q \<and> i = j"
proof
  assume e: "p + of_nat i = q + of_nat j"
  have "unat p + i = unat q + j" using e slab_page_offset [OF assms(1,3)] slab_page_offset [OF assms(2,4)] by simp
  moreover from assms(1,2) obtain k l where "unat p = 4096 * k" "unat q = 4096 * l" by (metis slab_pageE)
  ultimately have "4096 * k + i = 4096 * l + j" "unat p = 4096 * k" "unat q = 4096 * l" by simp_all
  moreover from this(1) have "k = l"
    using assms(3,4) by (metis add.commute div_mult_self1 div_less add_0 mult.commute zero_neq_numeral)
  ultimately show "p = q \<and> i = j" by (simp add: word_unat_eq_iff)
qed simp

lemma in_page_block:
  assumes "slab_page p" "i + n \<le> 4096" "0 < n"
  shows "in_block (p + of_nat i) n x \<longleftrightarrow> unat p + i \<le> unat x \<and> unat x < unat p + i + n"
proof -
  have "unat p + 4096 \<le> 2 ^ 64" using assms(1) by (rule slab_pageE)
  then show ?thesis
    using assms slab_page_offset [OF assms(1), of i] by (subst in_block_no_wrap) simp_all
qed

lemma blocks_of_pages:
  assumes "slab_page p" "slab_page q" "i + n \<le> 4096" "j + k \<le> 4096" "0 < n" "0 < k"
    "p \<noteq> q \<or> i + n \<le> j \<or> j + k \<le> i"
  shows "disjoint_blocks (p + of_nat i) n (q + of_nat j) k"
proof -
  from assms(1,2) obtain a b where ab: "unat p = 4096 * a" "unat q = 4096 * b" by (metis slab_pageE)
  have ne: "p \<noteq> q \<Longrightarrow> a \<noteq> b" using ab by (auto simp: word_unat_eq_iff)
  show ?thesis
    unfolding disjoint_blocks_def in_page_block [OF assms(1,3,5)] in_page_block [OF assms(2,4,6)] ab
  proof (intro allI notI)
    fix x assume x: "(4096 * a + i \<le> unat x \<and> unat x < 4096 * a + i + n) \<and> 4096 * b + j \<le> unat x \<and> unat x < 4096 * b + j + k"
    have "a = b"
    proof (rule ccontr)
      assume "a \<noteq> b"
      then consider "a + 1 \<le> b" | "b + 1 \<le> a" by linarith
      then show False using x assms(3,4) by cases linarith+
    qed
    then show False using x assms(7) ne by auto
  qed
qed

section \<open>Headers as a store of links\<close>

lemma slab_aligned:
  assumes "slab_page p" "8 dvd k" "k < 4096"
  shows "aligned8 (p + of_nat k)"
proof -
  from assms(1) obtain a where "unat p = 4096 * a" by (rule slab_pageE)
  then have "8 dvd unat p" by (simp add: dvd_mult2)
  then show ?thesis using assms(2) slab_page_offset [OF assms(1,3)] by (simp add: aligned8_def)
qed

lemma link_cells:
  assumes "slab_page p"
  shows "aligned8 p" "aligned8 (p + 8)"
  using slab_aligned [OF assms, of 0] slab_aligned [OF assms, of 8] by simp_all

lemma link_cells_eq:
  assumes "slab_page p" "slab_page q"
  shows "p + 8 = q + 8 \<longleftrightarrow> p = q" "p + 8 \<noteq> q" "q \<noteq> p + 8"
  using page_offset_eq [OF assms, of 8 0] by auto

lemmas slab_fields = get_next_def get_prev_def get_cache_def get_free_list_def get_in_use_def get_magic_def
  set_next_def set_prev_def set_cache_def set_free_list_def set_in_use_def set_magic_def store64_def store32_def

interpretation sl: link_store "\<lambda>h p. slab_page p" "\<lambda>h p. get_next p h" "\<lambda>h p. get_prev p h" set_next set_prev
  by unfold_locales (auto simp: slab_fields words64.rd_wr link_cells link_cells_eq)

section \<open>Writes of links only\<close>

text \<open>Nothing changes but the link fields of the slabs in a set.\<close>

definition only_links :: "u64 set \<Rightarrow> heap \<Rightarrow> heap \<Rightarrow> bool" where
  "only_links S h h' \<longleftrightarrow> h' = h\<lparr>hmem := hmem h'\<rparr> \<and> (\<forall>x. (\<forall>q \<in> S. \<not> in_block q 16 x) \<longrightarrow> hmem h' x = hmem h x)"

lemma only_links_refl [simp]: "only_links S h h"
  by (simp add: only_links_def)

lemma only_links_trans: "only_links S h h' \<Longrightarrow> only_links S h' h'' \<Longrightarrow> only_links S h h''"
  by (cases h; cases h'; cases h'') (simp add: only_links_def)

lemma only_links_mono: "only_links S h h' \<Longrightarrow> S \<subseteq> T \<Longrightarrow> only_links T h h'"
  unfolding only_links_def by blast

lemma only_links_fields:
  assumes "only_links S h h'"
  shows "caches h' = caches h" "caches_at h' = caches_at h" "page_metadata h' = page_metadata h" "heap_lock h' = heap_lock h"
    "heap_start_addr h' = heap_start_addr h" "heap_end_addr h' = heap_end_addr h" "total_pages h' = total_pages h"
proof -
  have "h' = h\<lparr>hmem := hmem h'\<rparr>" using assms by (simp only: only_links_def)
  then show "caches h' = caches h" "caches_at h' = caches_at h" "page_metadata h' = page_metadata h" "heap_lock h' = heap_lock h"
    "heap_start_addr h' = heap_start_addr h" "heap_end_addr h' = heap_end_addr h" "total_pages h' = total_pages h"
    by (cases h, cases h', simp)+
qed

lemma only_links_set:
  assumes "q \<in> S" "slab_page q"
  shows "only_links S h (set_next q v h)" "only_links S h (set_prev q v h)"
proof -
  have "in_block q 16 x" if "in_block q 8 x \<or> in_block (q + 8) 8 x" for x
    using that in_page_block [OF assms(2), of 0 8 x] in_page_block [OF assms(2), of 8 8 x] in_page_block [OF assms(2), of 0 16 x]
    by auto
  then show "only_links S h (set_next q v h)" "only_links S h (set_prev q v h)"
    using assms(1) by (auto simp: only_links_def slab_fields st64_def st_bytes_def)
qed

lemma sl_members: "sl.linked h 0 xs \<Longrightarrow> x \<in> set xs \<Longrightarrow> slab_page x"
  using sl.linkedD by fast

lemma slab_page_not_0 [simp]: "\<not> slab_page 0"
  by (simp add: slab_page_def)

lemma remove_link_only:
  assumes "sl.linked h 0 (ys @ p # zs)"
  shows "only_links (set ys \<union> set zs) h (sl.remove_link 0 ys zs h)"
proof -
  have v: "slab_page q" if "q \<in> set ys \<union> set zs" for q using sl_members [OF assms] that by auto
  have t: "tail_of 0 ys \<in> set ys \<union> set zs" if "ys \<noteq> []" using tail_of_in [OF that, of 0] by simp
  have hd: "head_of 0 zs \<in> set ys \<union> set zs" if "zs \<noteq> []" using head_of_in [OF that, of 0] by simp
  let ?s = "if ys = [] then h else set_next (tail_of 0 ys) (head_of 0 zs) h"
  have one: "only_links (set ys \<union> set zs) h ?s" using only_links_set(1) [OF t v [OF t]] by simp
  have two: "only_links (set ys \<union> set zs) ?s (set_prev (head_of 0 zs) (tail_of 0 ys) ?s)" if "zs \<noteq> []"
    using only_links_set(2) [OF hd v [OF hd]] that by blast
  show ?thesis
    unfolding sl.remove_link_def Let_def using one only_links_trans [OF one two] by (cases "zs = []") simp_all
qed

lemma push_link_only:
  assumes "sl.linked h 0 xs" "slab_page p"
  shows "only_links (insert p (set xs)) h (sl.push_link 0 p xs h)"
proof -
  have hd: "head_of 0 xs \<in> insert p (set xs)" "slab_page (head_of 0 xs)" if "xs \<noteq> []"
    using head_of_in [OF that, of 0] sl_members [OF assms(1)] by auto
  have "only_links (insert p (set xs)) h (set_prev p 0 (set_next p (head_of 0 xs) h))"
    using only_links_set [OF _ assms(2), of "insert p (set xs)"] by (blast intro: only_links_trans)
  then show ?thesis
    using only_links_set(2) [OF hd] by (auto simp: sl.push_link_def Let_def intro: only_links_trans)
qed

section \<open>The updates of the code\<close>

lemma null_ends:
  assumes "sl.linked h 0 xs"
  shows "tail_of 0 xs = 0 \<longleftrightarrow> xs = []" "head_of 0 xs = 0 \<longleftrightarrow> xs = []"
proof -
  have "0 \<notin> set xs" using sl_members [OF assms, of 0] by auto
  then show "tail_of 0 xs = 0 \<longleftrightarrow> xs = []" "head_of 0 xs = 0 \<longleftrightarrow> xs = []"
    by (simp_all add: tail_of_null head_of_null)
qed

lemma unlink_slab_ok:
  assumes l: "sl.linked h 0 (ys @ p # zs)" and c: "c < length (caches h)"
  shows "unlink_slab p c sh h = Some ((sl.remove_link 0 ys zs h)
    \<lparr>caches := if ys = [] then (caches h)[c := sh (\<lambda>_. head_of 0 zs) (caches h ! c)] else caches h\<rparr>)"
proof -
  have v: "slab_page q" if "q \<in> set (ys @ p # zs)" for q using sl_members [OF l that] .
  have d: "distinct (ys @ p # zs)" using l by (simp add: sl.linked_def dll_def)
  note m = sl.linked_member [OF l]
  have z: "0 \<notin> set ys" "0 \<notin> set zs" using v [of 0] by auto
  have e: "tail_of 0 ys = 0 \<longleftrightarrow> ys = []" "head_of 0 zs = 0 \<longleftrightarrow> zs = []"
    using z by (simp_all add: tail_of_null head_of_null)
  show ?thesis
  proof (cases "ys = []")
    case True
    then have m0: "get_prev p h = 0" "get_next p h = head_of 0 zs" using m by simp_all
    show ?thesis
      using True c e(2)
      by (simp add: unlink_slab_def m0 upd_kmem_def arr_get_def arr_set_def sl.remove_link_def Let_def)
        (simp add: slab_fields m0 [unfolded slab_fields])
  next
    case False
    let ?t = "tail_of 0 ys"
    let ?h = "set_next ?t (head_of 0 zs) h"
    have t: "?t \<in> set ys" using tail_of_in [OF False] .
    then have "slab_page ?t" "slab_page p" "p \<noteq> ?t" using v d by auto
    then have "get_next p ?h = head_of 0 zs" "get_prev p ?h = ?t"
      using sl.nxt_set(1) [of ?t p "head_of 0 zs" h] sl.prv_set(2) [of ?t p "head_of 0 zs" h] m by simp_all
    moreover have "caches ?h = caches h" by (simp add: slab_fields)
    moreover have "(h1 :: heap)\<lparr>caches := caches h\<rparr> = h1" if "caches h1 = caches h" for h1 using that by (cases h1) simp
    ultimately show ?thesis
      using False e m by (simp add: unlink_slab_def sl.remove_link_def Let_def) (simp add: slab_fields)
  qed
qed

lemma push_slab_ok:
  assumes l: "sl.linked h 0 xs" and c: "c < length (caches h)" and hd: "head (caches h ! c) = head_of 0 xs"
  shows "push_slab p c head sh h = Some ((sl.push_link 0 p xs h)\<lparr>caches := (caches h)[c := sh (\<lambda>_. p) (caches h ! c)]\<rparr>)"
  using null_ends(2) [OF l] c
  by (auto simp: push_slab_def get_kmem_def arr_get_def hd upd_kmem_def arr_set_def sl.push_link_def Let_def slab_fields)

end
