(* ===== verification/Slabs.thy ===== *)
theory Slabs
  imports Slab_Lists
begin

text \<open>
  One slab of \<open>src/src/heap.c\<close>: a page whose header leads to a chain of free objects. \<open>slab_body\<close> relates
  the bytes of the page to the list of the free objects; the lemmas say what \<open>slab_init_page\<close> and the steps
  of \<open>cache_alloc\<close> and \<open>cache_free\<close> on a single slab do to that list.
\<close>

section \<open>Objects\<close>

definition size_ok :: "nat \<Rightarrow> bool" where
  "size_ok sz \<longleftrightarrow> 8 dvd sz \<and> 8 \<le> sz \<and> sz \<le> 4056"

definition max_objs :: "nat \<Rightarrow> nat" where "max_objs sz = 4056 div sz"

definition slab_object :: "u64 \<Rightarrow> nat \<Rightarrow> nat \<Rightarrow> u64" where
  "slab_object p sz k = p + of_nat (40 + k * sz)"

definition slab_objects :: "u64 \<Rightarrow> nat \<Rightarrow> u64 set" where
  "slab_objects p sz = slab_object p sz ` {..<max_objs sz}"

lemma object_offset:
  assumes "size_ok sz" "k < max_objs sz"
  shows "40 + k * sz + sz \<le> 4096" "8 dvd 40 + k * sz" "40 + k * sz < 4096" "0 < sz" "8 \<le> sz"
proof -
  have sz: "8 dvd sz" "8 \<le> sz" using assms(1) by (simp_all add: size_ok_def)
  have "Suc k \<le> 4056 div sz" using assms(2) by (simp add: max_objs_def)
  then have "Suc k * sz \<le> 4056 div sz * sz" by (rule mult_le_mono1)
  also have "\<dots> \<le> 4056" by simp
  finally show "40 + k * sz + sz \<le> 4096" by simp
  then show "40 + k * sz < 4096" "0 < sz" "8 \<le> sz" using sz(2) by simp_all
  show "8 dvd 40 + k * sz" using sz(1) by (intro dvd_add) simp_all
qed

lemma max_objs_pos: "size_ok sz \<Longrightarrow> 0 < max_objs sz" "size_ok sz \<Longrightarrow> max_objs sz < 512"
proof -
  assume s: "size_ok sz"
  then show "0 < max_objs sz" by (simp add: max_objs_def size_ok_def div_greater_zero_iff)
  have "4056 div sz \<le> 4056 div 8" using s by (intro div_le_mono2) (simp_all add: size_ok_def)
  then show "max_objs sz < 512" by (simp add: max_objs_def)
qed

lemma unat_slab_object:
  assumes "slab_page p" "size_ok sz" "k < max_objs sz"
  shows "unat (slab_object p sz k) = unat p + 40 + k * sz"
  unfolding slab_object_def using slab_page_offset [OF assms(1) object_offset(3) [OF assms(2,3)]] by simp

lemma slab_object_inj:
  assumes "slab_page p" "slab_page q" "size_ok sz" "j < max_objs sz" "k < max_objs sz"
  shows "slab_object p sz j = slab_object q sz k \<longleftrightarrow> p = q \<and> j = k"
  unfolding slab_object_def
  using page_offset_eq [OF assms(1,2) object_offset(3) [OF assms(3,4)] object_offset(3) [OF assms(3,5)]]
    object_offset(4) [OF assms(3,4)] by auto

lemma card_slab_objects:
  assumes "slab_page p" "size_ok sz"
  shows "card (slab_objects p sz) = max_objs sz"
  unfolding slab_objects_def using slab_object_inj [OF assms(1,1,2)] by (subst card_image) (auto simp: inj_on_def)

text \<open>Everything that is used about the address of an object.\<close>

lemma slab_objectE:
  assumes "x \<in> slab_objects p sz" "slab_page p" "size_ok sz"
  obtains i where "x = p + of_nat i" "40 \<le> i" "i + sz \<le> 4096" "8 dvd i" "8 \<le> sz"
proof -
  from assms(1) obtain k where k: "k < max_objs sz" "x = slab_object p sz k" by (auto simp: slab_objects_def)
  show thesis
    using that [of "40 + k * sz"] object_offset [OF assms(3) k(1)] k(2) by (simp add: slab_object_def)
qed

lemma object_aligned:
  assumes "x \<in> slab_objects p sz" "slab_page p" "size_ok sz"
  shows "aligned8 x" "x \<noteq> 0"
proof -
  from assms obtain i where i: "x = p + of_nat i" "40 \<le> i" "i + sz \<le> 4096" "8 dvd i" "8 \<le> sz" by (rule slab_objectE)
  then have "i < 4096" by simp
  with i assms(2) show "aligned8 x" using slab_aligned by simp
  have "unat x = unat p + i" using i(1) slab_page_offset [OF assms(2) \<open>i < 4096\<close>] by simp
  then show "x \<noteq> 0" using i(2) by auto
qed

lemma object_page:
  assumes "x \<in> slab_objects p sz" "slab_page p" "size_ok sz"
  shows "x AND NOT (4096 - 1) = p"
proof -
  from assms obtain i where i: "x = p + of_nat i" "40 \<le> i" "i + sz \<le> 4096" "8 \<le> sz" by (rule slab_objectE)
  then have "unat x = unat p + i" "i < 4096" using slab_page_offset [OF assms(2), of i] by simp_all
  moreover from assms(2) obtain a where "unat p = 4096 * a" by (rule slab_pageE)
  ultimately have "unat x div 4096 * 4096 = unat p" by simp
  then show ?thesis using unat_page_floor [of x] by (simp add: word_unat_eq_iff)
qed

lemma object_one_page:
  assumes "x \<in> slab_objects p sz" "x \<in> slab_objects q sz'" "slab_page p" "slab_page q" "size_ok sz" "size_ok sz'"
  shows "p = q"
  using object_page [OF assms(1,3,5)] object_page [OF assms(2,4,6)] by simp

text \<open>Different objects do not overlap.\<close>

lemma objects_disjoint:
  assumes "x \<in> slab_objects p sz" "y \<in> slab_objects q sz" "slab_page p" "slab_page q" "size_ok sz" "x \<noteq> y"
  shows "disjoint_blocks x sz y sz"
proof -
  from assms(1,2) obtain j k where jk: "j < max_objs sz" "k < max_objs sz" "x = slab_object p sz j" "y = slab_object q sz k"
    by (auto simp: slab_objects_def)
  have "p \<noteq> q \<or> j \<noteq> k" using assms(6) jk(3,4) by auto
  moreover have "40 + j * sz + sz \<le> 40 + k * sz \<or> 40 + k * sz + sz \<le> 40 + j * sz" if "j \<noteq> k"
  proof (cases "j < k")
    case True
    then have "Suc j * sz \<le> k * sz" by (intro mult_le_mono1) simp
    then show ?thesis by simp
  next
    case False
    then have "Suc k * sz \<le> j * sz" using that by (intro mult_le_mono1) simp
    then show ?thesis by simp
  qed
  ultimately show ?thesis
    unfolding jk slab_object_def
    using object_offset [OF assms(5) jk(1)] object_offset [OF assms(5) jk(2)] assms(3,4)
    by (intro blocks_of_pages) auto
qed

section \<open>The chain of free objects\<close>

primrec chain :: "mem \<Rightarrow> u64 \<Rightarrow> u64 list \<Rightarrow> bool" where
  "chain m a [] \<longleftrightarrow> a = 0"
| "chain m a (x # xs) \<longleftrightarrow> a = x \<and> x \<noteq> 0 \<and> chain m (ld64 m x) xs"

lemma chain_cong: "(\<And>x. x \<in> set xs \<Longrightarrow> ld64 m' x = ld64 m x) \<Longrightarrow> chain m' a xs \<longleftrightarrow> chain m a xs"
  by (induction xs arbitrary: a) auto

lemma chain_null: "chain m a xs \<Longrightarrow> a = 0 \<longleftrightarrow> xs = []"
  by (cases xs) auto

lemma chain_unique: "chain m a xs \<Longrightarrow> chain m a ys \<Longrightarrow> xs = ys"
proof (induction xs arbitrary: a ys)
  case Nil
  then show ?case by (cases ys) auto
next
  case (Cons x xs)
  then show ?case by (cases ys) auto
qed

lemma ld_bytes_cong:
  assumes "n \<le> 2 ^ 64" "\<And>x. in_block a n x \<Longrightarrow> m' x = m x"
  shows "ld_bytes m' a n = ld_bytes m a n"
proof (rule nth_equalityI)
  fix k assume "k < length (ld_bytes m' a n)"
  then have k: "k < n" by simp
  then show "ld_bytes m' a n ! k = ld_bytes m a n ! k" using assms(2) [OF in_block_offset [OF k assms(1)]] by simp
qed simp

lemma ld64_cong: "(\<And>x. in_block a 8 x \<Longrightarrow> m' x = m x) \<Longrightarrow> ld64 m' a = ld64 m a"
  using ld_bytes_cong [of 8 a m' m] by (simp add: ld64_def)

lemma ld32_cong: "(\<And>x. in_block a 4 x \<Longrightarrow> m' x = m x) \<Longrightarrow> ld32 m' a = ld32 m a"
  using ld_bytes_cong [of 4 a m' m] by (simp add: ld32_def)

section \<open>The body of a slab\<close>

definition slab_body :: "nat \<Rightarrow> nat \<Rightarrow> heap \<Rightarrow> u64 \<Rightarrow> u64 list \<Rightarrow> bool" where
  "slab_body c sz h p xs \<longleftrightarrow>
     get_magic p h = SLAB_MAGIC \<and> get_cache p h = cache_ptr c h \<and> chain (hmem h) (get_free_list p h) xs \<and>
     distinct xs \<and> set xs \<subseteq> slab_objects p sz \<and> unat (get_in_use p h) + length xs = max_objs sz"

text \<open>It depends only on the part of the page behind the links.\<close>

lemma slab_body_cong:
  assumes p: "slab_page p" "size_ok sz" and same: "\<And>x. in_block (p + 16) 4080 x \<Longrightarrow> hmem h' x = hmem h x"
    and at: "caches_at h' = caches_at h" and b: "slab_body c sz h p xs"
  shows "slab_body c sz h' p xs"
proof -
  have within: "in_block (p + 16) 4080 x" if "in_block (p + of_nat i) n x" "16 \<le> i" "i + n \<le> 4096" "0 < n" for i n x
    using that in_page_block [OF p(1), of i n x] in_page_block [OF p(1), of 16 4080 x] by auto
  have l64: "ld64 (hmem h') (p + of_nat i) = ld64 (hmem h) (p + of_nat i)" if "16 \<le> i" "i + 8 \<le> 4096" for i
    by (rule ld64_cong) (rule same, rule within, use that in auto)
  have l32: "ld32 (hmem h') (p + of_nat i) = ld32 (hmem h) (p + of_nat i)" if "16 \<le> i" "i + 4 \<le> 4096" for i
    by (rule ld32_cong) (rule same, rule within, use that in auto)
  have "ld64 (hmem h') x = ld64 (hmem h) x" if "x \<in> slab_objects p sz" for x
  proof -
    from that p obtain i where i: "x = p + of_nat i" "40 \<le> i" "i + sz \<le> 4096" "8 dvd i" "8 \<le> sz" by (rule slab_objectE)
    then show ?thesis using l64 [of i] by simp
  qed
  then have "chain (hmem h') a xs \<longleftrightarrow> chain (hmem h) a xs" for a
    using b by (intro chain_cong) (auto simp: slab_body_def)
  then show ?thesis
    using b l64 [of 16] l64 [of 24] l32 [of 32] l32 [of 36] at
    by (simp add: slab_body_def get_magic_def get_cache_def get_free_list_def get_in_use_def cache_ptr_def)
qed

text \<open>Nothing changes but the free list and the counter in the header, or but one page.\<close>

definition only_within :: "u64 \<Rightarrow> nat \<Rightarrow> heap \<Rightarrow> heap \<Rightarrow> bool" where
  "only_within a n h h' \<longleftrightarrow> h' = h\<lparr>hmem := hmem h'\<rparr> \<and> (\<forall>x. \<not> in_block a n x \<longrightarrow> hmem h' x = hmem h x)"

lemma header_disjoint:
  assumes "slab_page p"
  shows "disjoint_blocks (p + 24) 8 (p + 32) 4" "disjoint_blocks (p + 32) 4 (p + 24) 8"
    "disjoint_blocks (p + 24) 8 (p + 36) 4" "disjoint_blocks (p + 32) 4 (p + 36) 4"
    "disjoint_blocks (p + 24) 8 (p + 16) 8" "disjoint_blocks (p + 32) 4 (p + 16) 8"
  using blocks_of_pages [OF assms assms, of 24 8 32 4] blocks_of_pages [OF assms assms, of 32 4 24 8]
    blocks_of_pages [OF assms assms, of 24 8 36 4] blocks_of_pages [OF assms assms, of 32 4 36 4]
    blocks_of_pages [OF assms assms, of 24 8 16 8] blocks_of_pages [OF assms assms, of 32 4 16 8] by simp_all

lemma object_header_disjoint:
  assumes "x \<in> slab_objects p sz" "slab_page p" "size_ok sz"
  shows "disjoint_blocks (p + 24) 8 x 8" "disjoint_blocks (p + 32) 4 x 8" "disjoint_blocks x 8 (p + 32) 4"
    "disjoint_blocks x 8 (p + 24) 8" "disjoint_blocks x 8 (p + 36) 4" "disjoint_blocks x 8 (p + 16) 8"
proof -
  from assms obtain i where i: "x = p + of_nat i" "40 \<le> i" "i + sz \<le> 4096" "8 dvd i" "8 \<le> sz" by (rule slab_objectE)
  note b = blocks_of_pages [OF assms(2) assms(2)]
  show "disjoint_blocks (p + 24) 8 x 8" "disjoint_blocks (p + 32) 4 x 8" "disjoint_blocks x 8 (p + 32) 4"
    "disjoint_blocks x 8 (p + 24) 8" "disjoint_blocks x 8 (p + 36) 4" "disjoint_blocks x 8 (p + 16) 8"
    using i b [of 24 8 i 8] b [of 32 4 i 8] b [of i 8 32 4] b [of i 8 24 8] b [of i 8 36 4] b [of i 8 16 8] by simp_all
qed

lemma header_write:
  assumes "slab_page p" and h': "h' = set_in_use p v (set_free_list p w h)"
  shows "get_free_list p h' = w" "get_in_use p h' = v" "get_magic p h' = get_magic p h" "get_cache p h' = get_cache p h"
    "cache_ptr c h' = cache_ptr c h" "only_within (p + 24) 12 h h'"
    "x \<in> slab_objects p sz \<Longrightarrow> size_ok sz \<Longrightarrow> ld64 (hmem h') x = ld64 (hmem h) x"
proof -
  note d = header_disjoint [OF assms(1)]
  show "get_free_list p h' = w" "get_in_use p h' = v" "get_magic p h' = get_magic p h" "get_cache p h' = get_cache p h"
    "cache_ptr c h' = cache_ptr c h"
    unfolding h' using d by (simp_all add: slab_fields cache_ptr_def ld_st_disjoint ld64_st64_same ld32_st32_same)
  have "in_block (p + 24) 12 x" if "in_block (p + 24) 8 x \<or> in_block (p + 32) 4 x" for x
    using that in_page_block [OF assms(1), of 24 8 x] in_page_block [OF assms(1), of 32 4 x] in_page_block [OF assms(1), of 24 12 x]
    by auto
  then show "only_within (p + 24) 12 h h'"
    unfolding h' by (auto simp: only_within_def slab_fields st64_def st32_def st_bytes_def)
  show "ld64 (hmem h') x = ld64 (hmem h) x" if "x \<in> slab_objects p sz" "size_ok sz"
    unfolding h' using object_header_disjoint [OF that(1) assms(1) that(2)] by (simp add: slab_fields ld_st_disjoint)
qed

lemma slab_take:
  assumes p: "slab_page p" "size_ok sz" and b: "slab_body c sz h p (x # xs)"
    and h': "h' = set_in_use p (get_in_use p (set_free_list p (ld64 (hmem h) x) h) + 1) (set_free_list p (ld64 (hmem h) x) h)"
  shows "slab_body c sz h' p xs" "get_free_list p h = x" "get_free_list p h' = 0 \<longleftrightarrow> xs = []" "only_within (p + 24) 12 h h'"
proof -
  note w = header_write [OF p(1) h']
  have f: "get_free_list p h = x" "chain (hmem h) (ld64 (hmem h) x) xs" "distinct (x # xs)" "set (x # xs) \<subseteq> slab_objects p sz"
    "unat (get_in_use p h) + length (x # xs) = max_objs sz" using b by (auto simp: slab_body_def)
  have "chain (hmem h') (get_free_list p h') xs"
    using f(2,4) w(1) w(7) [OF _ p(2)] chain_cong [of xs "hmem h'" "hmem h"] by auto
  moreover have "unat (get_in_use p h' ) = unat (get_in_use p h) + 1"
  proof -
    have "get_in_use p (set_free_list p (ld64 (hmem h) x) h) = get_in_use p h"
      using header_disjoint [OF p(1)] by (simp add: slab_fields ld_st_disjoint)
    moreover have "unat (get_in_use p h) + 1 < 2 ^ LENGTH(32)" using f(5) max_objs_pos(2) [OF p(2)] by simp
    ultimately show ?thesis using w(2) unat_inc [of "get_in_use p h"] by simp
  qed
  ultimately show "slab_body c sz h' p xs"
    using b f(3-5) w(3-5) by (auto simp: slab_body_def)
  show "get_free_list p h = x" "only_within (p + 24) 12 h h'" by (rule f(1), rule w(6))
  show "get_free_list p h' = 0 \<longleftrightarrow> xs = []" unfolding w(1) using chain_null [OF f(2)] .
qed

text \<open>Writing the link of an object.\<close>

lemma object_write:
  assumes p: "slab_page p" "size_ok sz" and x: "x \<in> slab_objects p sz"
  shows "get_free_list p (store64 x v h) = get_free_list p h" "get_in_use p (store64 x v h) = get_in_use p h"
    "get_magic p (store64 x v h) = get_magic p h" "get_cache p (store64 x v h) = get_cache p h"
    "cache_ptr c (store64 x v h) = cache_ptr c h" "ld64 (hmem (store64 x v h)) x = v"
    "y \<in> slab_objects q sz \<Longrightarrow> slab_page q \<Longrightarrow> y \<noteq> x \<Longrightarrow> ld64 (hmem (store64 x v h)) y = ld64 (hmem h) y"
proof -
  note d = object_header_disjoint [OF x p]
  show "get_free_list p (store64 x v h) = get_free_list p h" "get_in_use p (store64 x v h) = get_in_use p h"
    "get_magic p (store64 x v h) = get_magic p h" "get_cache p (store64 x v h) = get_cache p h"
    "cache_ptr c (store64 x v h) = cache_ptr c h" "ld64 (hmem (store64 x v h)) x = v"
    using d by (simp_all add: slab_fields ld_st_disjoint ld64_st64_same cache_ptr_def)
  show "ld64 (hmem (store64 x v h)) y = ld64 (hmem h) y" if "y \<in> slab_objects q sz" "slab_page q" "y \<noteq> x"
    using object_aligned(1) [OF x p] object_aligned(1) [OF that(1,2) p(2)] that(3)
    by (simp add: store64_def words64.rd_wr)
qed

lemma slab_put:
  assumes p: "slab_page p" "size_ok sz" and b: "slab_body c sz h p xs"
    and x: "x \<in> slab_objects p sz" "x \<notin> set xs"
    and h1: "h1 = store64 x (get_free_list p h) h"
    and h': "h' = set_in_use p (get_in_use p (set_free_list p x h1) - 1) (set_free_list p x h1)"
  shows "slab_body c sz h' p (x # xs)" "get_in_use p h' = 0 \<longleftrightarrow> length xs + 1 = max_objs sz"
    "get_free_list p h = 0 \<longleftrightarrow> xs = []"
    "h' = h\<lparr>hmem := hmem h'\<rparr>" "\<not> in_block (p + 24) 12 a \<Longrightarrow> \<not> in_block x 8 a \<Longrightarrow> hmem h' a = hmem h a"
proof -
  note o = object_write [OF p x(1)]
  note w = header_write [OF p(1) h']
  have f: "chain (hmem h) (get_free_list p h) xs" "distinct xs" "set xs \<subseteq> slab_objects p sz"
    "unat (get_in_use p h) + length xs = max_objs sz" using b by (auto simp: slab_body_def)
  have fin: "finite (slab_objects p sz)" by (simp add: slab_objects_def)
  have "card (insert x (set xs)) \<le> card (slab_objects p sz)" using f(3) x(1) by (intro card_mono fin) auto
  then have room: "length xs + 1 \<le> max_objs sz"
    using f(2) x(2) card_slab_objects [OF p] by (simp add: distinct_card)
  then have "unat (get_in_use p h) \<noteq> 0" using f(4) by simp
  then have nz: "get_in_use p h \<noteq> 0" by auto
  have "get_in_use p (set_free_list p x h1) = get_in_use p h"
    using header_disjoint [OF p(1)] o(2) by (simp add: h1 slab_fields ld_st_disjoint)
  then have u: "unat (get_in_use p h') = unat (get_in_use p h) - 1" using w(2) unat_dec [OF nz] by simp
  have ld: "ld64 (hmem h') y = ld64 (hmem h) y" if "y \<in> set xs" for y
    using w(7) [of y sz] o(7) [of y p] that f(3) x(2) p h1 by (metis subsetD)
  have "chain (hmem h') (get_free_list p h) xs" using f(1) chain_cong [of xs "hmem h'" "hmem h"] ld by auto
  moreover have "ld64 (hmem h') x = get_free_list p h" using w(7) [OF x(1) p(2)] o(6) h1 by simp
  ultimately have "chain (hmem h') (get_free_list p h') (x # xs)"
    using w(1) object_aligned(2) [OF x(1) p] by simp
  moreover have "unat (get_in_use p h') + length (x # xs) = max_objs sz" using u f(4) room by simp
  ultimately show "slab_body c sz h' p (x # xs)"
    using b w(3-5) o(3-5) h1 f(2,3) x by (simp add: slab_body_def)
  have "get_in_use p h' = 0 \<longleftrightarrow> unat (get_in_use p h') = 0" by (simp add: unat_eq_zero)
  then show "get_in_use p h' = 0 \<longleftrightarrow> length xs + 1 = max_objs sz" using u f(4) room by auto
  show "get_free_list p h = 0 \<longleftrightarrow> xs = []" using chain_null [OF f(1)] .
  show "h' = h\<lparr>hmem := hmem h'\<rparr>" by (simp add: h' h1 slab_fields)
  show "hmem h' a = hmem h a" if "\<not> in_block (p + 24) 12 a" "\<not> in_block x 8 a"
    using w(6) that by (simp add: only_within_def h1 store64_def st64_def st_bytes_def)
qed

section \<open>A new slab\<close>

lemma page_store:
  assumes "slab_page p" "\<not> in_block p 4096 x"
  shows "i + 8 \<le> 4096 \<Longrightarrow> hmem (store64 (p + of_nat i) v h) x = hmem h x"
    "i + 4 \<le> 4096 \<Longrightarrow> hmem (store32 (p + of_nat i) w h) x = hmem h x"
  using assms in_page_block [OF assms(1), of 0 4096 x] in_page_block [OF assms(1), of i 8 x] in_page_block [OF assms(1), of i 4 x]
  by (auto simp: store64_def store32_def st64_def st32_def st_bytes_def)

lemma object_store:
  assumes "slab_page p" "size_ok sz" "y \<in> slab_objects p sz" "\<not> in_block p 4096 x"
  shows "hmem (store64 y v h) x = hmem h x"
proof -
  from assms(3,1,2) obtain i where "y = p + of_nat i" "i + sz \<le> 4096" "8 \<le> sz" by (rule slab_objectE)
  then show ?thesis using page_store(1) [OF assms(1,4), of i] by simp
qed

lemma slab_object_Suc: "slab_object p sz k + of_nat sz = slab_object p sz (Suc k)"
  by (simp add: slab_object_def)

lemma slab_object_in: "k < max_objs sz \<Longrightarrow> slab_object p sz k \<in> slab_objects p sz"
  by (simp add: slab_objects_def)

text \<open>What the loop of \<open>slab_init_page\<close> has done after \<open>n\<close> rounds.\<close>

definition linked_up :: "u64 \<Rightarrow> nat \<Rightarrow> nat \<Rightarrow> nat \<Rightarrow> heap \<Rightarrow> heap \<Rightarrow> bool" where
  "linked_up p sz k n h h' \<longleftrightarrow> h' = h\<lparr>hmem := hmem h'\<rparr> \<and>
     get_free_list p h' = get_free_list p h \<and> get_in_use p h' = get_in_use p h \<and> get_magic p h' = get_magic p h \<and>
     get_cache p h' = get_cache p h \<and> (\<forall>x. \<not> in_block p 4096 x \<longrightarrow> hmem h' x = hmem h x) \<and>
     (\<forall>i < k. ld64 (hmem h') (slab_object p sz i) = ld64 (hmem h) (slab_object p sz i)) \<and>
     (\<forall>i < n. ld64 (hmem h') (slab_object p sz (k + i)) = slab_object p sz (Suc (k + i)))"

lemma link_objects_ok:
  assumes p: "slab_page p" "size_ok sz"
  shows "k + n < max_objs sz \<Longrightarrow> \<exists>h'. link_objects n (of_nat sz) (slab_object p sz k) h = (slab_object p sz (k + n), h') \<and>
    linked_up p sz k n h h'"
proof (induction n arbitrary: k h)
  case 0
  then show ?case by (simp add: linked_up_def)
next
  case (Suc n)
  let ?x = "slab_object p sz k"
  let ?h = "store64 ?x (slab_object p sz (Suc k)) h"
  have k: "k < max_objs sz" using Suc.prems by simp
  note o = object_write [OF p slab_object_in [OF k], where v = "slab_object p sz (Suc k)" and h = h]
  obtain h' where h': "link_objects n (of_nat sz) (slab_object p sz (Suc k)) ?h = (slab_object p sz (Suc k + n), h')"
    "linked_up p sz (Suc k) n ?h h'" using Suc.IH [of "Suc k" ?h] Suc.prems by auto
  note u = h'(2) [unfolded linked_up_def]
  have "ld64 (hmem h') (slab_object p sz i) = ld64 (hmem h) (slab_object p sz i)" if "i < k" for i
    using u that o(7) [OF slab_object_in [of i] p(1)] slab_object_inj [OF p(1,1,2), of i k] k by simp
  moreover have "ld64 (hmem h') (slab_object p sz (k + i)) = slab_object p sz (Suc (k + i))" if "i < Suc n" for i
    using u o(6) that by (cases i) simp_all
  moreover have "hmem h' x = hmem h x" if "\<not> in_block p 4096 x" for x
    using u that object_store [OF p slab_object_in [OF k] that] by simp
  moreover have "h' = h\<lparr>hmem := hmem h'\<rparr>" using u by (cases h; cases h') (simp add: store64_def)
  ultimately have "linked_up p sz k (Suc n) h h'" using u o(1-4) by (simp add: linked_up_def)
  then show ?case using h'(1) by (simp add: slab_object_Suc)
qed

lemma chain_objects:
  assumes "0 \<notin> slab_objects p sz" "k < max_objs sz" "ld64 m (slab_object p sz (max_objs sz - 1)) = 0"
    "\<And>i. k \<le> i \<Longrightarrow> Suc i < max_objs sz \<Longrightarrow> ld64 m (slab_object p sz i) = slab_object p sz (Suc i)"
  shows "chain m (slab_object p sz k) (map (slab_object p sz) [k..<max_objs sz])"
  using assms(2,4)
proof (induction "max_objs sz - k" arbitrary: k)
  case (Suc d)
  have ne: "slab_object p sz k \<noteq> 0" using slab_object_in [OF Suc.prems(1), of p] assms(1) by auto
  show ?case
  proof (cases "Suc k = max_objs sz")
    case True
    then have "k = max_objs sz - 1" by simp
    then show ?thesis using ne True assms(3) Suc.prems(1) by (simp add: upt_conv_Cons)
  next
    case False
    then have "Suc k < max_objs sz" using Suc.prems(1) by simp
    then have "chain m (slab_object p sz (Suc k)) (map (slab_object p sz) [Suc k..<max_objs sz])"
      using Suc by (intro Suc.hyps(1)) auto
    then show ?thesis using ne Suc.prems \<open>Suc k < max_objs sz\<close> by (simp add: upt_conv_Cons)
  qed
qed simp

lemma align_header:
  assumes "slab_page p"
  shows "align_up (p + 40) 8 = p + 40"
proof -
  from assms obtain a where a: "unat p = 4096 * a" by (rule slab_pageE)
  have "unat (p + 47) = 4096 * a + 47" using slab_page_offset [OF assms, of 47] a by simp
  moreover have "(4096 * a + 47) div 8 * 8 = 4096 * a + 40"
    using div_mult_self3 [of 8 "512 * a + 5" 7] by (simp add: algebra_simps)
  moreover have "unat ((p + 47) AND NOT (mask 3)) = unat (p + 47) div 2 ^ 3 * 2 ^ 3" by (rule unat_and_not_mask)
  moreover have "2 ^ 3 = (8 :: nat)" by simp
  ultimately have "unat ((p + 47) AND NOT (mask 3)) = 4096 * a + 40" by (simp only:)
  moreover have "unat (p + 40) = 4096 * a + 40" using slab_page_offset [OF assms, of 40] a by simp
  ultimately have "(p + 47) AND NOT (mask 3) = p + 40" by (simp only: word_unat_eq_iff)
  moreover have "mask 3 = (7 :: u64)" "8 - 1 = (7 :: u64)" "p + 40 + 8 - 1 = p + 47" by (simp_all add: mask_eq_exp_minus_1)
  ultimately show ?thesis by (simp only: align_up_def)
qed

text \<open>The assignments to the header, for any order and values: fields keep what the other ones write.\<close>

lemma header_fields:
  assumes "slab_page p"
  shows "get_free_list p (set_free_list p v h) = v" "get_in_use p (set_free_list p v h) = get_in_use p h"
    "get_magic p (set_free_list p v h) = get_magic p h" "get_cache p (set_free_list p v h) = get_cache p h"
    "get_in_use p (set_in_use p w h) = w" "get_magic p (set_in_use p w h) = get_magic p h"
    "get_cache p (set_in_use p w h) = get_cache p h" "get_magic p (set_magic p w h) = w"
    "get_cache p (set_cache p v h) = v" "get_magic p (set_cache p v h) = get_magic p h"
    "get_in_use p (set_next p v h) = get_in_use p h" "get_magic p (set_next p v h) = get_magic p h"
    "get_cache p (set_next p v h) = get_cache p h" "get_in_use p (set_prev p v h) = get_in_use p h"
    "get_magic p (set_prev p v h) = get_magic p h" "get_cache p (set_prev p v h) = get_cache p h"
proof -
  note b = blocks_of_pages [OF assms assms]
  show "get_free_list p (set_free_list p v h) = v" "get_in_use p (set_free_list p v h) = get_in_use p h"
    "get_magic p (set_free_list p v h) = get_magic p h" "get_cache p (set_free_list p v h) = get_cache p h"
    "get_in_use p (set_in_use p w h) = w" "get_magic p (set_in_use p w h) = get_magic p h"
    "get_cache p (set_in_use p w h) = get_cache p h" "get_magic p (set_magic p w h) = w"
    using header_disjoint [OF assms] b [of 32 4 36 4]
    by (simp_all add: slab_fields ld_st_disjoint ld64_st64_same ld32_st32_same)
  show "get_cache p (set_cache p v h) = v" "get_magic p (set_cache p v h) = get_magic p h"
    "get_in_use p (set_next p v h) = get_in_use p h" "get_magic p (set_next p v h) = get_magic p h"
    "get_cache p (set_next p v h) = get_cache p h" "get_in_use p (set_prev p v h) = get_in_use p h"
    "get_magic p (set_prev p v h) = get_magic p h" "get_cache p (set_prev p v h) = get_cache p h"
    using b [of 16 8 36 4] b [of 0 8 32 4] b [of 0 8 36 4] b [of 0 8 16 8] b [of 8 8 32 4] b [of 8 8 36 4] b [of 8 8 16 8]
    by (simp_all add: slab_fields ld_st_disjoint ld64_st64_same)
qed

lemma slab_init_ok:
  assumes p: "slab_page p" "size_ok sz" and c: "c < length (caches h)" "obj_size (caches h ! c) = of_nat sz"
  shows "\<exists>h'. slab_init_page p c h = Some h' \<and> slab_body c sz h' p (map (slab_object p sz) [0..<max_objs sz]) \<and>
    h' = h\<lparr>hmem := hmem h'\<rparr> \<and> (\<forall>x. \<not> in_block p 4096 x \<longrightarrow> hmem h' x = hmem h x)"
proof -
  define g where "g = set_prev p 0 (set_next p 0 (set_in_use p 0 (set_cache p (cache_ptr c h) (set_magic p SLAB_MAGIC h))))"
  define g1 where "g1 = set_free_list p (p + 40) g"
  let ?n = "max_objs sz"
  note s = max_objs_pos [OF p(2)]
  have nz: "p \<noteq> 0" using p(1) by (simp add: slab_page_def)
  have ck: "cache_ptr c (set_magic p SLAB_MAGIC h) = cache_ptr c h" by (simp add: cache_ptr_def slab_fields)
  have gk: "get_kmem c g = Some (caches h ! c)" using c(1) by (simp add: g_def get_kmem_def arr_get_def slab_fields)
  have szu: "unat (of_nat sz :: u64) = sz" using p(2) by (intro unat_u64_of_nat) (simp add: size_ok_def)
  have sz0: "(of_nat sz :: u64) \<noteq> 0" using szu p(2) by (auto simp: size_ok_def)
  have cnt: "unat ((4056 :: u64) div of_nat sz - 1) = ?n - 1"
  proof -
    have "unat ((4056 :: u64) div of_nat sz) = ?n" by (simp add: unat_div_distrib szu max_objs_def)
    moreover from this have "(4056 :: u64) div of_nat sz \<noteq> 0" using s(1) by auto
    ultimately show ?thesis using unat_dec [of "(4056 :: u64) div of_nat sz"] by simp
  qed
  have st: "p + 40 = slab_object p sz 0" by (simp add: slab_object_def)
  obtain g2 where g2: "link_objects (?n - 1) (of_nat sz) (slab_object p sz 0) g1 = (slab_object p sz (?n - 1), g2)"
    "linked_up p sz 0 (?n - 1) g1 g2" using link_objects_ok [OF p, of 0 "?n - 1" g1] s(1) by auto
  define h' where "h' = store64 (slab_object p sz (?n - 1)) 0 g2"
  have run: "slab_init_page p c h = Some h'"
    unfolding slab_init_page_def Let_def align_header [OF p(1)] ck
    using nz gk sz0 cnt g2(1) st [symmetric] by (simp add: g_def [symmetric] g1_def [symmetric] h'_def c(2))
  have l: "slab_object p sz (?n - 1) \<in> slab_objects p sz" using s(1) by (intro slab_object_in) simp
  note o = object_write [OF p l, where v = 0 and h = g2, folded h'_def]
  note u = g2(2) [unfolded linked_up_def]
  have f: "get_free_list p h' = slab_object p sz 0" "get_in_use p h' = 0" "get_magic p h' = SLAB_MAGIC"
    "get_cache p h' = cache_ptr c h"
    using o(1-4) u by (simp_all add: g1_def g_def header_fields [OF p(1)] st)
  have rec: "h' = h\<lparr>hmem := hmem h'\<rparr>" using u by (cases h; cases h'; cases g2) (simp add: h'_def g1_def g_def slab_fields)
  have "get_cache p h' = cache_ptr c h'" using f(4) rec by (cases h; cases h') (simp add: cache_ptr_def)
  moreover have "chain (hmem h') (slab_object p sz 0) (map (slab_object p sz) [0..<?n])"
  proof (rule chain_objects)
    show "0 \<notin> slab_objects p sz" using object_aligned(2) [OF _ p] by auto
    show "0 < ?n" "ld64 (hmem h') (slab_object p sz (?n - 1)) = 0" using s(1) o(6) by simp_all
    show "ld64 (hmem h') (slab_object p sz i) = slab_object p sz (Suc i)" if "Suc i < ?n" for i
      using that u o(7) [OF slab_object_in p(1), of i] slab_object_inj [OF p(1,1,2), of i "?n - 1"] by simp
  qed
  moreover have "distinct (map (slab_object p sz) [0..<?n])"
    using slab_object_inj [OF p(1,1,2)] by (auto simp: distinct_map inj_on_def)
  moreover have "set (map (slab_object p sz) [0..<?n]) \<subseteq> slab_objects p sz" by (auto simp: slab_objects_def)
  ultimately have "slab_body c sz h' p (map (slab_object p sz) [0..<?n])" using f by (simp add: slab_body_def)
  moreover have "hmem h' x = hmem h x" if "\<not> in_block p 4096 x" for x
  proof -
    note w = page_store [OF p(1) that]
    have "hmem g1 x = hmem h x"
      using w(1) [of 0] w(1) [of 8] w(1) [of 16] w(1) [of 24] w(2) [of 32] w(2) [of 36]
      by (simp add: g1_def g_def set_free_list_def set_prev_def set_next_def set_in_use_def set_cache_def set_magic_def)
    then show ?thesis using object_store [OF p l that, of 0 g2] u that by (simp add: h'_def)
  qed
  ultimately show ?thesis using run rec by blast
qed

end
