(* ===== verification/Slab_Cache.thy ===== *)
theory Slab_Cache
  imports Slabs
begin

text \<open>
  One cache of slabs of \<open>src/src/heap.c\<close>: its two lists of slabs, partial and full, and the free objects of
  every slab. \<open>cache_ok\<close> is the invariant of a cache; the lemmas say what \<open>cache_alloc\<close> and \<open>cache_free\<close> do to
  the lists and to the free objects, and which bytes of the memory they write.
\<close>

section \<open>Areas of the memory\<close>

definition page_of :: "u64 \<Rightarrow> u64" where
  "page_of x = x AND NOT (4096 - 1)"

lemma in_page:
  assumes "slab_page q" "in_block (q + of_nat i) n x" "i + n \<le> 4096" "0 < n"
  shows "page_of x = q"
proof -
  have "unat q + i \<le> unat x" "unat x < unat q + i + n" using assms in_page_block [OF assms(1,3,4), of x] by simp_all
  moreover from assms(1) obtain a where a: "unat q = 4096 * a" by (rule slab_pageE)
  ultimately have "unat x div 4096 = a" using assms(3) by (intro div_nat_eqI) simp_all
  then have "unat (x AND NOT 4095) = unat q" using unat_page_floor [of x] a by simp
  then show ?thesis by (simp add: page_of_def word_unat_eq_iff)
qed

lemma in_whole_page: "slab_page q \<Longrightarrow> in_block q 4096 x \<longleftrightarrow> page_of x = q"
proof
  assume q: "slab_page q"
  show "page_of x = q" if "in_block q 4096 x" using in_page [OF q, of 0 4096 x] that by simp
  show "in_block q 4096 x" if "page_of x = q"
  proof -
    have "unat q = unat x div 4096 * 4096" using unat_page_floor [of x] that by (auto simp: page_of_def)
    then have "unat q \<le> unat x" "unat x < unat q + 4096" using div_mult_mod_eq [of "unat x" 4096] by linarith+
    then show ?thesis using in_page_block [OF q, of 0 4096 x] by simp
  qed
qed

lemma object_in_page:
  assumes "x \<in> slab_objects p sz" "slab_page p" "size_ok sz" "in_block x sz y"
  shows "page_of y = p" "\<not> in_block p 40 y"
proof -
  from assms(1-3) obtain i where i: "x = p + of_nat i" "40 \<le> i" "i + sz \<le> 4096" "8 \<le> sz" by (rule slab_objectE)
  then show "page_of y = p" using in_page [OF assms(2), of i sz y] assms(4) by simp
  show "\<not> in_block p 40 y" using in_page_block [OF assms(2), of i sz y] in_page_block [OF assms(2), of 0 40 y] i assms(4) by simp
qed

definition link_area :: "u64 set \<Rightarrow> u64 set" where "link_area S = {x. \<exists>q \<in> S. in_block q 16 x}"
definition header_area :: "u64 set \<Rightarrow> u64 set" where "header_area S = {x. \<exists>q \<in> S. in_block q 40 x}"

lemma area_mono: "S \<subseteq> T \<Longrightarrow> link_area S \<subseteq> link_area T" "S \<subseteq> T \<Longrightarrow> header_area S \<subseteq> header_area T" "link_area S \<subseteq> header_area S"
proof -
  have "in_block q 16 x \<Longrightarrow> in_block q 40 x" for q x by (simp add: in_block_def)
  then show "link_area S \<subseteq> header_area S" by (auto simp: link_area_def header_area_def)
qed (auto simp: link_area_def header_area_def)

lemma area_page:
  assumes "\<forall>q \<in> S. slab_page q"
  shows "x \<in> link_area S \<Longrightarrow> page_of x \<in> S" "x \<in> header_area S \<Longrightarrow> page_of x \<in> S"
  using assms in_page [where i = 0] by (force simp: link_area_def header_area_def)+

text \<open>A step of cache \<open>c\<close> that writes only bytes in an area.\<close>

definition within :: "nat \<Rightarrow> u64 set \<Rightarrow> heap \<Rightarrow> heap \<Rightarrow> bool" where
  "within c A h h' \<longleftrightarrow> h' = h\<lparr>hmem := hmem h', caches := (caches h)[c := caches h' ! c]\<rparr> \<and>
     (\<forall>x. x \<notin> A \<longrightarrow> hmem h' x = hmem h x)"

lemma withinD:
  assumes "within c A h h'"
  shows "caches h' = (caches h)[c := caches h' ! c]" "caches_at h' = caches_at h" "page_metadata h' = page_metadata h"
    "heap_lock h' = heap_lock h" "heap_start_addr h' = heap_start_addr h" "heap_end_addr h' = heap_end_addr h"
    "total_pages h' = total_pages h" "pages h' = pages h" "length (caches h') = length (caches h)"
    "i \<noteq> c \<Longrightarrow> caches h' ! i = caches h ! i" "x \<notin> A \<Longrightarrow> hmem h' x = hmem h x"
proof -
  have e: "h' = h\<lparr>hmem := hmem h', caches := (caches h)[c := caches h' ! c]\<rparr>" using assms by (simp only: within_def)
  show c: "caches h' = (caches h)[c := caches h' ! c]" and p: "page_metadata h' = page_metadata h"
    and "caches_at h' = caches_at h" "heap_lock h' = heap_lock h" "heap_start_addr h' = heap_start_addr h"
    "heap_end_addr h' = heap_end_addr h" "total_pages h' = total_pages h"
    by (subst e, simp)+
  show "pages h' = pages h" by (simp add: pages_def p)
  show "length (caches h') = length (caches h)" by (subst c) simp
  show "caches h' ! i = caches h ! i" if "i \<noteq> c" using that by (subst c) simp
  show "hmem h' x = hmem h x" if "x \<notin> A" using assms that by (simp add: within_def)
qed

lemma withinI:
  assumes "h' = h\<lparr>hmem := hmem h', caches := caches h'\<rparr>" "caches h' = (caches h)[c := k]" "\<And>x. x \<notin> A \<Longrightarrow> hmem h' x = hmem h x"
  shows "within c A h h'"
proof (cases "c < length (caches h)")
  case True
  then have "caches h' ! c = k" using assms(2) by simp
  then show ?thesis using assms by (simp add: within_def)
next
  case False
  then have "caches h' = caches h" using assms(2) by (simp add: list_update_beyond)
  then show ?thesis using assms False by (simp add: within_def list_update_beyond)
qed

lemma within_refl [simp]: "within c A h h"
  by (simp add: within_def)

lemma within_trans: "within c A h h' \<Longrightarrow> within c A h' h'' \<Longrightarrow> within c A h h''"
proof (rule withinI [where k = "caches h'' ! c"])
  assume w: "within c A h h'" "within c A h' h''"
  show "caches h'' = (caches h)[c := caches h'' ! c]" 
    using trans [OF withinD(1) [OF w(2)] arg_cong [where f = "\<lambda>xs. xs[c := caches h'' ! c]", OF withinD(1) [OF w(1)]]]
    unfolding list_update_overwrite .
  have "h'' = h\<lparr>hmem := hmem h'', caches := caches h''\<rparr>" if "caches_at h'' = caches_at h" "page_metadata h'' = page_metadata h"
    "heap_lock h'' = heap_lock h" "heap_start_addr h'' = heap_start_addr h" "heap_end_addr h'' = heap_end_addr h"
    "total_pages h'' = total_pages h" using that by (cases h; cases h'') simp
  then show "h'' = h\<lparr>hmem := hmem h'', caches := caches h''\<rparr>" using withinD(2-7) [OF w(1)] withinD(2-7) [OF w(2)] by simp
  show "hmem h'' x = hmem h x" if "x \<notin> A" for x using withinD(11) [OF w(1) that] withinD(11) [OF w(2) that] by simp
qed

lemma within_mono: "within c A h h' \<Longrightarrow> A \<subseteq> B \<Longrightarrow> within c B h h'"
  unfolding within_def by blast

lemma only_links_within:
  assumes "only_links S h h'"
  shows "within c (link_area S) h (h'\<lparr>caches := (caches h)[c := k]\<rparr>)" "within c (link_area S) h h'"
proof -
  have m: "hmem h' x = hmem h x" if "x \<notin> link_area S" for x using assms that by (auto simp: only_links_def link_area_def)
  have e: "h' = h\<lparr>hmem := hmem h'\<rparr>" using assms by (simp only: only_links_def)
  then have "caches h' = caches h" "h' = h\<lparr>hmem := hmem h', caches := caches h'\<rparr>" by (cases h, cases h', simp)+
  then show "within c (link_area S) h h'" using m by (intro withinI [where k = "caches h ! c"]) simp_all
  show "within c (link_area S) h (h'\<lparr>caches := (caches h)[c := k]\<rparr>)"
    by (rule withinI [where k = k]) (use e m in \<open>cases h, cases h', simp_all\<close>)
qed

section \<open>What a step keeps\<close>

lemma slab_body_within:
  assumes w: "within c' A h h'" and p: "slab_page p" "size_ok sz" "slab_body c sz h p xs"
    and off: "\<And>x. x \<in> A \<Longrightarrow> page_of x = p \<Longrightarrow> in_block p 16 x"
  shows "slab_body c sz h' p xs"
proof (rule slab_body_cong [OF p(1,2) _ withinD(2) [OF w] p(3)])
  fix x assume x: "in_block (p + 16) 4080 x"
  have "page_of x = p" using in_page [OF p(1), of 16 4080 x] x by simp
  moreover have "\<not> in_block p 16 x"
    using x in_page_block [OF p(1), of 16 4080 x] in_page_block [OF p(1), of 0 16 x] by simp
  ultimately show "hmem h' x = hmem h x" using off withinD(11) [OF w] by blast
qed

lemma links_cong:
  assumes "\<And>x. in_block q 16 x \<Longrightarrow> hmem h' x = hmem h x" "slab_page q"
  shows "get_next q h' = get_next q h \<and> get_prev q h' = get_prev q h"
proof -
  have "in_block q 16 x" if "in_block q 8 x \<or> in_block (q + 8) 8 x" for x
    using that in_page_block [OF assms(2), of 0 8 x] in_page_block [OF assms(2), of 8 8 x] in_page_block [OF assms(2), of 0 16 x]
    by auto
  then show ?thesis using assms(1) by (auto simp: get_next_def get_prev_def intro!: ld64_cong)
qed

lemma linked_same:
  assumes l: "sl.linked h 0 xs" and off: "\<And>q x. q \<in> set xs \<Longrightarrow> in_block q 16 x \<Longrightarrow> hmem h' x = hmem h x"
  shows "sl.linked h' 0 xs"
  by (rule sl.linked_cong [OF l]) (use links_cong off sl_members [OF l] in blast)

lemma linked_within:
  assumes w: "within c A h h'" and l: "sl.linked h 0 xs" and off: "\<And>x. x \<in> A \<Longrightarrow> page_of x \<in> set xs \<Longrightarrow> \<not> in_block (page_of x) 16 x"
  shows "sl.linked h' 0 xs"
proof (rule linked_same [OF l])
  fix q x assume "q \<in> set xs" "in_block q 16 x"
  moreover from this have "page_of x = q" using in_page [OF sl_members [OF l], of q 0 16 x] by simp
  ultimately show "hmem h' x = hmem h x" using off withinD(11) [OF w] by blast
qed

text \<open>Taking a slab out of a list, and putting one at its front.\<close>

lemma unlink_step:
  assumes l: "sl.linked h 0 (ys @ p # zs)" and c: "c < length (caches h)"
    and cur: "sh (\<lambda>_. head_of 0 (ys @ p # zs)) (caches h ! c) = caches h ! c"
  shows "\<exists>h'. unlink_slab p c sh h = Some h' \<and> sl.linked h' 0 (ys @ zs) \<and> within c (link_area (set ys \<union> set zs)) h h' \<and>
    caches h' ! c = sh (\<lambda>_. head_of 0 (ys @ zs)) (caches h ! c)"
proof -
  let ?r = "sl.remove_link 0 ys zs h"
  let ?k = "if ys = [] then sh (\<lambda>_. head_of 0 zs) (caches h ! c) else caches h ! c"
  let ?h = "?r\<lparr>caches := (caches h)[c := ?k]\<rparr>"
  have "unlink_slab p c sh h = Some ?h" using unlink_slab_ok [OF l c, of sh] by (simp cong: if_cong)
  moreover have "sl.linked ?h 0 (ys @ zs)" by (rule linked_same [OF sl.linked_remove(1) [OF l]]) simp
  moreover have "within c (link_area (set ys \<union> set zs)) h ?h" by (rule only_links_within [OF remove_link_only [OF l]])
  moreover have "?k = sh (\<lambda>_. head_of 0 (ys @ zs)) (caches h ! c)" using cur by (cases ys) simp_all
  then have "caches ?h ! c = sh (\<lambda>_. head_of 0 (ys @ zs)) (caches h ! c)" using c by simp
  ultimately show ?thesis by blast
qed

lemma push_step:
  assumes l: "sl.linked h 0 xs" and p: "slab_page p" "p \<notin> set xs" and c: "c < length (caches h)"
    and hd: "head (caches h ! c) = head_of 0 xs"
  shows "\<exists>h'. push_slab p c head sh h = Some h' \<and> sl.linked h' 0 (p # xs) \<and> within c (link_area (insert p (set xs))) h h' \<and>
    caches h' ! c = sh (\<lambda>_. p) (caches h ! c)"
proof -
  let ?h = "(sl.push_link 0 p xs h)\<lparr>caches := (caches h)[c := sh (\<lambda>_. p) (caches h ! c)]\<rparr>"
  have "p \<noteq> 0" using p(1) by auto
  then have "sl.linked ?h 0 (p # xs)" using linked_same [OF sl.linked_push(1) [OF l p], of ?h] by simp
  moreover have "within c (link_area (insert p (set xs))) h ?h" by (rule only_links_within [OF push_link_only [OF l p(1)]])
  moreover have "caches ?h ! c = sh (\<lambda>_. p) (caches h ! c)" using c by simp
  moreover have "push_slab p c head sh h = Some ?h"
    by (rule push_slab_ok [OF l c, where head = head, OF hd])
  ultimately show ?thesis by blast
qed

lemma link_area_page:
  assumes "\<forall>q \<in> S. slab_page q" "x \<in> link_area S"
  shows "page_of x \<in> S" "in_block (page_of x) 16 x"
proof -
  from assms(2) obtain q where q: "q \<in> S" "in_block q 16 x" by (auto simp: link_area_def)
  then have "page_of x = q" using in_page [of q 0 16 x] assms(1) by simp
  then show "page_of x \<in> S" "in_block (page_of x) 16 x" using q by simp_all
qed

lemma body_links:
  assumes "within c' (link_area S) h h'" "\<forall>q \<in> S. slab_page q" "slab_page p" "size_ok sz" "slab_body c sz h p xs"
  shows "slab_body c sz h' p xs"
  using slab_body_within [OF assms(1,3-5)] link_area_page [OF assms(2)] by blast

lemma linked_links:
  assumes "within c' (link_area S) h h'" "\<forall>q \<in> S. slab_page q" "sl.linked h 0 xs" "S \<inter> set xs = {}"
  shows "sl.linked h' 0 xs"
  using linked_within [OF assms(1,3)] link_area_page [OF assms(2)] assms(4) by blast

lemma move_slab:
  fixes sh sh2 :: "(u64 \<Rightarrow> u64) \<Rightarrow> kmem_cache \<Rightarrow> kmem_cache"
  assumes l: "sl.linked h 0 (ys @ p # zs)" and x: "sl.linked h 0 xs" and d: "set (ys @ p # zs) \<inter> set xs = {}"
    and c: "c < length (caches h)" and k: "caches h ! c = k"
    and cur: "sh (\<lambda>_. head_of 0 (ys @ p # zs)) k = k" and hd: "head (sh (\<lambda>_. head_of 0 (ys @ zs)) k) = head_of 0 xs"
  shows "\<exists>h1 h'. unlink_slab p c sh h = Some h1 \<and> push_slab p c head sh2 h1 = Some h' \<and>
    sl.linked h' 0 (ys @ zs) \<and> sl.linked h' 0 (p # xs) \<and>
    within c (link_area (set (ys @ p # zs) \<union> set xs)) h h' \<and>
    caches h' ! c = sh2 (\<lambda>_. p) (sh (\<lambda>_. head_of 0 (ys @ zs)) k)"
proof -
  let ?S = "set (ys @ p # zs) \<union> set xs"
  have v: "\<forall>q \<in> ?S. slab_page q" using sl_members [OF l] sl_members [OF x] by blast
  have dis: "distinct (ys @ p # zs)" using l by (simp add: sl.linked_def dll_def)
  from unlink_step [OF l c, of sh] cur k obtain h1 where h1: "unlink_slab p c sh h = Some h1" "sl.linked h1 0 (ys @ zs)"
    "within c (link_area (set ys \<union> set zs)) h h1" "caches h1 ! c = sh (\<lambda>_. head_of 0 (ys @ zs)) k" by auto
  have x1: "sl.linked h1 0 xs" by (rule linked_links [OF h1(3) _ x]) (use v d in auto)
  have c1: "c < length (caches h1)" using c withinD(9) [OF h1(3)] by simp
  have p: "slab_page p" "p \<notin> set xs" using v d by auto
  from push_step [OF x1 p c1, of head sh2] hd h1(4) obtain h' where h': "push_slab p c head sh2 h1 = Some h'"
    "sl.linked h' 0 (p # xs)" "within c (link_area (insert p (set xs))) h1 h'" "caches h' ! c = sh2 (\<lambda>_. p) (caches h1 ! c)" by auto
  have "sl.linked h' 0 (ys @ zs)" by (rule linked_links [OF h'(3) _ h1(2)]) (use v d dis in auto)
  moreover have "within c (link_area ?S) h h'"
    by (rule within_trans [OF within_mono [OF h1(3)] within_mono [OF h'(3)]]) (auto intro!: area_mono)
  ultimately show ?thesis using h1(1,4) h' by auto
qed

section \<open>The invariant of a cache\<close>

text \<open>
  The partial slabs \<open>ps\<close>, the full slabs \<open>fs\<close> and the free objects \<open>F p\<close> of every slab \<open>p\<close>. The code never puts a
  slab on the third list, \<open>slabs_free\<close>.
\<close>

definition cache_ok :: "nat \<Rightarrow> nat \<Rightarrow> heap \<Rightarrow> u64 list \<Rightarrow> u64 list \<Rightarrow> (u64 \<Rightarrow> u64 list) \<Rightarrow> bool" where
  "cache_ok c sz h ps fs F \<longleftrightarrow> c < length (caches h) \<and> size_ok sz \<and>
     caches h ! c = \<lparr>slabs_partial = head_of 0 ps, slabs_full = head_of 0 fs, slabs_free = 0, obj_size = of_nat sz\<rparr> \<and>
     sl.linked h 0 ps \<and> sl.linked h 0 fs \<and> set ps \<inter> set fs = {} \<and>
     (\<forall>p \<in> set ps. F p \<noteq> []) \<and> (\<forall>p \<in> set fs. F p = []) \<and>
     (\<forall>p \<in> set ps \<union> set fs. slab_body c sz h p (F p))"

lemma cache_okD:
  assumes "cache_ok c sz h ps fs F"
  shows "c < length (caches h)" "size_ok sz"
    "caches h ! c = \<lparr>slabs_partial = head_of 0 ps, slabs_full = head_of 0 fs, slabs_free = 0, obj_size = of_nat sz\<rparr>"
    "sl.linked h 0 ps" "sl.linked h 0 fs" "set ps \<inter> set fs = {}" "\<forall>p \<in> set ps. F p \<noteq> []" "\<forall>p \<in> set fs. F p = []"
    "\<forall>p \<in> set ps \<union> set fs. slab_body c sz h p (F p)" "\<forall>p \<in> set ps \<union> set fs. slab_page p" "distinct ps" "distinct fs"
proof -
  note a = assms [unfolded cache_ok_def]
  show "c < length (caches h)" "size_ok sz"
    "caches h ! c = \<lparr>slabs_partial = head_of 0 ps, slabs_full = head_of 0 fs, slabs_free = 0, obj_size = of_nat sz\<rparr>"
    and l: "sl.linked h 0 ps" "sl.linked h 0 fs" and "set ps \<inter> set fs = {}" "\<forall>p \<in> set ps. F p \<noteq> []" "\<forall>p \<in> set fs. F p = []"
    "\<forall>p \<in> set ps \<union> set fs. slab_body c sz h p (F p)"
    using a by blast+
  show "\<forall>p \<in> set ps \<union> set fs. slab_page p" using sl_members [OF l(1)] sl_members [OF l(2)] by blast
  show "distinct ps" "distinct fs" using l by (simp_all add: sl.linked_def dll_def)
qed

text \<open>A step elsewhere leaves a cache alone.\<close>

lemma cache_ok_frame:
  assumes i: "cache_ok c sz h ps fs F" and k: "caches h' ! c = caches h ! c" "length (caches h') = length (caches h)"
    "caches_at h' = caches_at h" and m: "\<And>x. page_of x \<in> set ps \<union> set fs \<Longrightarrow> hmem h' x = hmem h x"
    and F: "\<forall>p \<in> set ps \<union> set fs. F' p = F p"
  shows "cache_ok c sz h' ps fs F'"
proof -
  note d = cache_okD [OF i]
  have "sl.linked h' 0 ps"
  proof (rule linked_same [OF d(4)])
    show "hmem h' x = hmem h x" if "q \<in> set ps" "in_block q 16 x" for q x using in_page [of q 0 16 x] that d(10) m by simp
  qed
  moreover have "sl.linked h' 0 fs"
  proof (rule linked_same [OF d(5)])
    show "hmem h' x = hmem h x" if "q \<in> set fs" "in_block q 16 x" for q x using in_page [of q 0 16 x] that d(10) m by simp
  qed
  moreover have "slab_body c sz h' p (F' p)" if p: "p \<in> set ps \<union> set fs" for p
  proof -
    have s: "slab_page p" "slab_body c sz h p (F p)" using d(9,10) p by blast+
    have "slab_body c sz h' p (F p)"
    proof (rule slab_body_cong [OF s(1) d(2) _ k(3) s(2)])
      show "hmem h' x = hmem h x" if "in_block (p + 16) 4080 x" for x using in_page [OF s(1), of 16 4080 x] that p m by simp
    qed
    then show ?thesis using F p by simp
  qed
  ultimately show ?thesis using d k F by (simp add: cache_ok_def)
qed

section \<open>Taking an object\<close>

lemma only_within_step:
  assumes "only_within (p + of_nat i) n h h'" "slab_page p" "i + n \<le> 40" "16 \<le> i" "0 < n"
  shows "within c (header_area {p}) h h'" "\<And>x. hmem h' x \<noteq> hmem h x \<Longrightarrow> page_of x = p \<and> \<not> in_block p 16 x"
proof -
  have e: "h' = h\<lparr>hmem := hmem h'\<rparr>" and m: "\<And>x. \<not> in_block (p + of_nat i) n x \<Longrightarrow> hmem h' x = hmem h x"
    using assms(1) unfolding only_within_def by blast+
  have "in_block p 40 x" if "in_block (p + of_nat i) n x" for x
    using that assms(2,3,5) in_page_block [OF assms(2), of i n x] in_page_block [OF assms(2), of 0 40 x] by simp
  then have a: "hmem h' x = hmem h x" if "x \<notin> header_area {p}" for x using that m by (auto simp: header_area_def)
  have "caches h' = caches h" "h' = h\<lparr>hmem := hmem h', caches := caches h'\<rparr>" using e by (cases h, cases h', simp)+
  then show "within c (header_area {p}) h h'" by (intro withinI [where k = "caches h ! c"]) (use a in simp_all)
  show "page_of x = p \<and> \<not> in_block p 16 x" if "hmem h' x \<noteq> hmem h x" for x
  proof -
    have b: "in_block (p + of_nat i) n x" using m that by blast
    then show ?thesis
      using in_page [OF assms(2) b] in_page_block [OF assms(2), of i n x] in_page_block [OF assms(2), of 0 16 x] assms(3-5) by simp
  qed
qed

text \<open>A step that writes inside one slab, behind its links: the lists and the other slabs stay.\<close>

lemma cache_ok_inside:
  assumes i: "cache_ok c sz h ps fs F" and p: "p \<in> set ps \<union> set fs" and w: "within c A h h'" and k: "caches h' ! c = caches h ! c"
    and m: "\<And>x. hmem h' x \<noteq> hmem h x \<Longrightarrow> page_of x = p \<and> \<not> in_block p 16 x" and b: "slab_body c sz h' p xs"
  shows "sl.linked h' 0 ps" "sl.linked h' 0 fs" "\<forall>q \<in> set ps \<union> set fs. slab_body c sz h' q ((F(p := xs)) q)"
    "caches h' ! c = \<lparr>slabs_partial = head_of 0 ps, slabs_full = head_of 0 fs, slabs_free = 0, obj_size = of_nat sz\<rparr>"
    "c < length (caches h')"
proof -
  note d = cache_okD [OF i]
  have same: "hmem h' x = hmem h x" if "q \<in> set ps \<union> set fs" "in_block q 16 x" for q x
    using in_page [of q 0 16 x] that d(10) m [of x] by auto
  show "sl.linked h' 0 ps" "sl.linked h' 0 fs" using linked_same [OF d(4)] linked_same [OF d(5)] same by blast+
  show "\<forall>q \<in> set ps \<union> set fs. slab_body c sz h' q ((F(p := xs)) q)"
  proof
    fix q assume q: "q \<in> set ps \<union> set fs"
    then have s: "slab_page q" "slab_body c sz h q (F q)" using d(9,10) by blast+
    have "slab_body c sz h' q (F q)" if "q \<noteq> p"
    proof (rule slab_body_cong [OF s(1) d(2) _ withinD(2) [OF w] s(2)])
      show "hmem h' x = hmem h x" if "in_block (q + 16) 4080 x" for x
        using in_page [OF s(1), of 16 4080 x] that m [of x] \<open>q \<noteq> p\<close> by auto
    qed
    then show "slab_body c sz h' q ((F(p := xs)) q)" using b by simp
  qed
  show "caches h' ! c = \<lparr>slabs_partial = head_of 0 ps, slabs_full = head_of 0 fs, slabs_free = 0, obj_size = of_nat sz\<rparr>"
    "c < length (caches h')" using d(1,3) k withinD(9) [OF w] by simp_all
qed

lemma cache_take:
  assumes i: "cache_ok c sz h (p # ps) fs F" and x: "F p = x # xs" and s: "cache_slab c h0 = Some (p, h)"
  shows "\<exists>h'. cache_alloc c h0 = Some (x, h') \<and> within c (header_area (set (p # ps) \<union> set fs)) h h' \<and>
    (if xs = [] then cache_ok c sz h' ps (p # fs) (F(p := [])) else cache_ok c sz h' (p # ps) fs (F(p := xs)))"
proof -
  note d = cache_okD [OF i]
  let ?S = "set (p # ps) \<union> set fs"
  have p: "slab_page p" "p \<noteq> 0" and b: "slab_body c sz h p (x # xs)" using d(9,10) x by (auto simp: slab_page_def)
  define h2 where "h2 = set_in_use p (get_in_use p (set_free_list p (ld64 (hmem h) x) h) + 1) (set_free_list p (ld64 (hmem h) x) h)"
  note t = slab_take [OF p(1) d(2) b h2_def]
  have x0: "x \<noteq> 0" using object_aligned(2) [OF _ p(1) d(2), of x] b by (auto simp: slab_body_def)
  have "only_within (p + of_nat 24) 12 h h2" using t(4) by simp
  note o = only_within_step [OF this p(1)]
  have w2: "within c (header_area {p}) h h2" and m2: "\<And>y. hmem h2 y \<noteq> hmem h y \<Longrightarrow> page_of y = p \<and> \<not> in_block p 16 y"
    using o by simp_all
  have k2: "caches h2 ! c = caches h ! c" by (simp add: h2_def slab_fields)
  note n = cache_ok_inside [OF i _ w2 k2 m2 t(1), simplified]
  have run: "cache_alloc c h0 = (if xs = [] then do {
         h \<leftarrow> unlink_slab p c slabs_partial_update h2;
         h \<leftarrow> push_slab p c slabs_full slabs_full_update h;
         Some (x, h)
       } else Some (x, h2))"
    unfolding cache_alloc_def s using p(2) x0 t(2,3) by (simp add: Let_def h2_def)
  have n3: "\<forall>q \<in> ?S. slab_body c sz h2 q ((F(p := xs)) q)" using n(3) by simp
  have mono: "header_area {p} \<subseteq> header_area ?S" "link_area ?S \<subseteq> header_area ?S" using area_mono by auto
  show ?thesis
  proof (cases "xs = []")
    case False
    then have "cache_ok c sz h2 (p # ps) fs (F(p := xs))"
      using False d(2,6-8) n(1,2,4,5) n3 by (auto simp: cache_ok_def)
    then show ?thesis using False run within_mono [OF w2 mono(1)] by auto
  next
    case True
    from move_slab [of h2 "[]" p ps fs c _ slabs_partial_update slabs_full slabs_full_update] n(1,2,4,5) d(6)
    obtain h3 h' where h': "unlink_slab p c slabs_partial_update h2 = Some h3"
      "push_slab p c slabs_full slabs_full_update h3 = Some h'" "sl.linked h' 0 ps" "sl.linked h' 0 (p # fs)"
      "within c (link_area ?S) h2 h'"
      "caches h' ! c = \<lparr>slabs_partial = head_of 0 ps, slabs_full = p, slabs_free = 0, obj_size = of_nat sz\<rparr>"
      by auto
    have "\<forall>q \<in> ?S. slab_body c sz h' q ((F(p := [])) q)"
    proof
      fix q assume q: "q \<in> ?S"
      then have "slab_page q" using d(10) by blast
      moreover have "slab_body c sz h2 q ((F(p := [])) q)" 
        using n3 [unfolded True] q by (rule bspec)
      ultimately show "slab_body c sz h' q ((F(p := [])) q)" by (intro body_links [OF h'(5) d(10) _ d(2)])
    qed
    moreover have "p \<notin> set ps" using d(11) by simp
    ultimately have "cache_ok c sz h' ps (p # fs) (F(p := []))"
      using d(2,6-8) n(5) h'(3,4,6) withinD(9) [OF h'(5)] by (auto simp: cache_ok_def)
    moreover have "within c (header_area ?S) h h'"
      by (rule within_trans [OF within_mono [OF w2 mono(1)] within_mono [OF h'(5) mono(2)]])
    ultimately show ?thesis using True run h'(1,2) by auto
  qed
qed

section \<open>A new slab\<close>

abbreviation all_objects :: "u64 \<Rightarrow> nat \<Rightarrow> u64 list" where
  "all_objects p sz \<equiv> map (slab_object p sz) [0..<max_objs sz]"

lemma all_objects: "size_ok sz \<Longrightarrow> all_objects p sz \<noteq> []" "set (all_objects p sz) = slab_objects p sz"
  "length (all_objects p sz) = max_objs sz"
  using max_objs_pos by (auto simp: slab_objects_def)

lemma cache_ok_pages: "cache_ok c sz h ps fs F \<Longrightarrow> cache_ok c sz (h\<lparr>page_metadata := md\<rparr>) ps fs F"
  by (erule cache_ok_frame) simp_all

lemma new_slab:
  assumes i: "cache_ok c sz h [] fs F" and p: "slab_page p" "p \<notin> set fs"
  shows "\<exists>h1 h'. slab_init_page p c h = Some h1 \<and> push_slab p c slabs_partial slabs_partial_update h1 = Some h' \<and>
    cache_ok c sz h' [p] fs (F(p := all_objects p sz)) \<and> within c {x. page_of x = p} h h'"
proof -
  note d = cache_okD [OF i]
  from slab_init_ok [OF p(1) d(2,1)] d(3) obtain h1 where h1: "slab_init_page p c h = Some h1"
    "slab_body c sz h1 p (all_objects p sz)" "h1 = h\<lparr>hmem := hmem h1\<rparr>"
    "\<And>x. \<not> in_block p 4096 x \<Longrightarrow> hmem h1 x = hmem h x" by auto
  have e: "caches h1 = caches h" "h1 = h\<lparr>hmem := hmem h1, caches := caches h1\<rparr>" using h1(3) by (cases h, cases h1, simp)+
  have w1: "within c {x. page_of x = p} h h1"
    by (rule withinI [where k = "caches h ! c"]) (use e h1(4) in_whole_page [OF p(1)] in simp_all)
  have i1: "cache_ok c sz h1 [] fs (F(p := all_objects p sz))"
  proof (rule cache_ok_frame [OF i])
    show "hmem h1 x = hmem h x" if "page_of x \<in> set [] \<union> set fs" for x
    proof (rule withinD(11) [OF w1])
      show "x \<notin> {x. page_of x = p}" using that p(2) by auto
    qed
  qed (use e(1) withinD(2) [OF w1] p(2) in auto)
  note d1 = cache_okD [OF i1]
  from push_step [OF d1(4) p(1) _ d1(1), of slabs_partial slabs_partial_update] d1(3) obtain h' where
    h': "push_slab p c slabs_partial slabs_partial_update h1 = Some h'" "sl.linked h' 0 [p]" "within c (link_area {p}) h1 h'"
      "caches h' ! c = \<lparr>slabs_partial = p, slabs_full = head_of 0 fs, slabs_free = 0, obj_size = of_nat sz\<rparr>" by auto
  have v: "\<forall>q \<in> {p}. slab_page q" using p(1) by simp
  have "slab_body c sz h' q ((F(p := all_objects p sz)) q)" if "q \<in> insert p (set fs)" for q
  proof (rule body_links [OF h'(3) v _ d(2)])
    show "slab_page q" using that p(1) d(10) by auto
    show "slab_body c sz h1 q ((F(p := all_objects p sz)) q)" using that h1(2) bspec [OF d1(9), of q] by (cases "q = p") simp_all
  qed
  moreover have "sl.linked h' 0 fs" by (rule linked_links [OF h'(3) v d1(5)]) (use p(2) in simp)
  ultimately have "cache_ok c sz h' [p] fs (F(p := all_objects p sz))"
    using d1(1,2,8) h'(2,4) withinD(9) [OF h'(3)] all_objects(1) [OF d(2)] p(2) by (auto simp: cache_ok_def)
  moreover have "link_area {p} \<subseteq> {x. page_of x = p}" using link_area_page(1) [OF v] by auto
  ultimately show ?thesis using h1(1) h'(1) within_trans [OF w1 within_mono [OF h'(3)]] by blast
qed

text \<open>The slab that \<open>cache_alloc\<close> works on.\<close>

lemma cache_slab_partial: "cache_ok c sz h (p # ps) fs F \<Longrightarrow> cache_slab c h = Some (p, h)"
proof -
  assume i: "cache_ok c sz h (p # ps) fs F"
  note d = cache_okD [OF i]
  have "p \<noteq> 0" using d(10) by (auto simp: slab_page_def)
  then show ?thesis using d(1,3) by (simp add: cache_slab_def get_kmem_def arr_get_def)
qed

lemma cache_slab_none:
  assumes "cache_ok c sz h [] fs F" "alloc_pages_backend 1 PAGE_TYPE_SLAB h = Some (0, h)"
  shows "cache_alloc c h = Some (0, h)"
  using cache_okD(1,3) [OF assms(1)] assms(2) by (simp add: cache_alloc_def cache_slab_def get_kmem_def arr_get_def)

lemma cache_slab_new:
  assumes i: "cache_ok c sz h [] fs F" and p: "slab_page p" "p \<notin> set fs"
    and a: "alloc_pages_backend 1 PAGE_TYPE_SLAB h = Some (p, h\<lparr>page_metadata := md\<rparr>)"
  shows "\<exists>h'. cache_slab c h = Some (p, h') \<and> cache_ok c sz h' [p] fs (F(p := all_objects p sz)) \<and>
    within c {x. page_of x = p} (h\<lparr>page_metadata := md\<rparr>) h'"
proof -
  let ?h = "h\<lparr>page_metadata := md\<rparr>"
  from new_slab [OF cache_ok_pages [OF i, of md] p] obtain h1 h' where
    h': "slab_init_page p c ?h = Some h1" "push_slab p c slabs_partial slabs_partial_update h1 = Some h'"
      "cache_ok c sz h' [p] fs (F(p := all_objects p sz))" "within c {x. page_of x = p} ?h h'" by blast
  have "p \<noteq> 0" using p(1) by (auto simp: slab_page_def)
  then have "cache_slab c h = Some (p, h')"
    using cache_okD(1,3) [OF i] a h'(1,2) by (simp add: cache_slab_def get_kmem_def arr_get_def)
  then show ?thesis using h'(3,4) by blast
qed

section \<open>Giving an object back\<close>

lemma unlink_either:
  assumes c: "c < length (caches h)"
    and k: "caches h ! c = \<lparr>slabs_partial = head_of 0 ps, slabs_full = head_of 0 fs, slabs_free = 0, obj_size = s\<rparr>"
    and l: "sl.linked h 0 ps" "sl.linked h 0 fs" and d: "set ps \<inter> set fs = {}" and p: "p \<in> set ps \<union> set fs"
  shows "\<exists>h' ps' fs'. unlink_slab p c (if p \<in> set fs then slabs_full_update else slabs_partial_update) h = Some h' \<and>
    sl.linked h' 0 ps' \<and> sl.linked h' 0 fs' \<and> set ps' = set ps - {p} \<and> set fs' = set fs - {p} \<and>
    within c (link_area (set ps \<union> set fs)) h h' \<and>
    caches h' ! c = \<lparr>slabs_partial = head_of 0 ps', slabs_full = head_of 0 fs', slabs_free = 0, obj_size = s\<rparr>"
proof -
  have v: "\<forall>q \<in> set ps \<union> set fs. slab_page q" using sl_members [OF l(1)] sl_members [OF l(2)] by blast
  show ?thesis
  proof (cases "p \<in> set fs")
    case True
    then obtain ys zs where e: "fs = ys @ p # zs" by (meson split_list)
    from unlink_step [of h ys p zs c slabs_full_update] l(2) c k e obtain h' where
      h': "unlink_slab p c slabs_full_update h = Some h'" "sl.linked h' 0 (ys @ zs)" "within c (link_area (set ys \<union> set zs)) h h'"
        "caches h' ! c = \<lparr>slabs_partial = head_of 0 ps, slabs_full = head_of 0 (ys @ zs), slabs_free = 0, obj_size = s\<rparr>"
      by auto
    have "distinct (ys @ p # zs)" using l(2) e by (simp add: sl.linked_def dll_def)
    then have "set (ys @ zs) = set fs - {p}" "set ps = set ps - {p}" using e d by auto
    moreover have "sl.linked h' 0 ps" by (rule linked_links [OF h'(3) _ l(1)]) (use v d e in auto)
    moreover have "within c (link_area (set ps \<union> set fs)) h h'"
      by (rule within_mono [OF h'(3)]) (use e in \<open>auto intro!: area_mono\<close>)
    ultimately show ?thesis using True h'(1,2,4) by (intro exI [of _ h'] exI [of _ ps] exI [of _ "ys @ zs"]) simp
  next
    case False
    then have "p \<in> set ps" using p by simp
    then obtain ys zs where e: "ps = ys @ p # zs" by (meson split_list)
    from unlink_step [of h ys p zs c slabs_partial_update] l(1) c k e obtain h' where
      h': "unlink_slab p c slabs_partial_update h = Some h'" "sl.linked h' 0 (ys @ zs)" "within c (link_area (set ys \<union> set zs)) h h'"
        "caches h' ! c = \<lparr>slabs_partial = head_of 0 (ys @ zs), slabs_full = head_of 0 fs, slabs_free = 0, obj_size = s\<rparr>"
      by auto
    have "distinct (ys @ p # zs)" using l(1) e by (simp add: sl.linked_def dll_def)
    then have "set (ys @ zs) = set ps - {p}" "set fs = set fs - {p}" using e False by auto
    moreover have "sl.linked h' 0 fs" by (rule linked_links [OF h'(3) _ l(2)]) (use v d e in auto)
    moreover have "within c (link_area (set ps \<union> set fs)) h h'"
      by (rule within_mono [OF h'(3)]) (use e in \<open>auto intro!: area_mono\<close>)
    ultimately show ?thesis using False h'(1,2,4) by (intro exI [of _ h'] exI [of _ "ys @ zs"] exI [of _ fs]) simp
  qed
qed

text \<open>The first part of \<open>cache_free\<close>: the object becomes the first free one of its slab.\<close>

definition give_back :: "u64 \<Rightarrow> u64 \<Rightarrow> heap \<Rightarrow> heap" where
  "give_back p x h =
     (let h1 = set_free_list p x (store64 x (get_free_list p h) h) in set_in_use p (get_in_use p h1 - 1) h1)"

definition object_area :: "u64 \<Rightarrow> u64 set" where "object_area x = {y. in_block x 8 y}"

lemma cache_give_back:
  assumes i: "cache_ok c sz h ps fs F" and p: "p \<in> set ps \<union> set fs" and x: "x \<in> slab_objects p sz" "x \<notin> set (F p)"
    and h': "h' = give_back p x h"
  shows "sl.linked h' 0 ps" "sl.linked h' 0 fs" "\<forall>q \<in> set ps \<union> set fs. slab_body c sz h' q ((F(p := x # F p)) q)"
    "caches h' ! c = \<lparr>slabs_partial = head_of 0 ps, slabs_full = head_of 0 fs, slabs_free = 0, obj_size = of_nat sz\<rparr>"
    "c < length (caches h')" "within c (header_area {p} \<union> object_area x) h h'"
    "get_in_use p h' = 0 \<longleftrightarrow> length (F p) + 1 = max_objs sz" "get_free_list p h = 0 \<longleftrightarrow> p \<in> set fs"
    "get_magic p h = SLAB_MAGIC" "x AND NOT (4096 - 1) = p"
proof -
  note d = cache_okD [OF i]
  have s: "slab_page p" "slab_body c sz h p (F p)" using d(9,10) p by blast+
  note t = slab_put [OF s(1) d(2) s(2) x refl h' [unfolded give_back_def Let_def]]
  have near: "page_of y = p \<and> \<not> in_block p 16 y \<and> y \<in> header_area {p} \<union> object_area x" if "hmem h' y \<noteq> hmem h y" for y
  proof (cases "in_block x 8 y")
    case True
    then have "in_block x sz y" using d(2) by (simp add: in_block_def size_ok_def)
    from object_in_page [OF x(1) s(1) d(2) this] True show ?thesis by (auto simp: object_area_def in_block_def)
  next
    case False
    then have "in_block (p + 24) 12 y" using t(5) that by blast
    then show ?thesis
      using in_page [OF s(1), of 24 12 y] in_page_block [OF s(1), of 24 12 y] in_page_block [OF s(1), of 0 16 y]
        in_page_block [OF s(1), of 0 40 y] by (simp add: header_area_def)
  qed
  have e: "caches h' = caches h" "h' = h\<lparr>hmem := hmem h', caches := caches h'\<rparr>" using t(4) by (cases h, cases h', simp)+
  show w: "within c (header_area {p} \<union> object_area x) h h'"
  proof (rule withinI [where k = "caches h ! c", OF e(2)])
    show "hmem h' y = hmem h y" if "y \<notin> header_area {p} \<union> object_area x" for y using near that by blast
  qed (simp add: e(1))
  have k: "caches h' ! c = caches h ! c" using e(1) by simp
  have m: "page_of y = p \<and> \<not> in_block p 16 y" if "hmem h' y \<noteq> hmem h y" for y using near [OF that] by blast
  from cache_ok_inside [OF i p w k m t(1)]
  show "sl.linked h' 0 ps" "sl.linked h' 0 fs" "\<forall>q \<in> set ps \<union> set fs. slab_body c sz h' q ((F(p := x # F p)) q)"
    "caches h' ! c = \<lparr>slabs_partial = head_of 0 ps, slabs_full = head_of 0 fs, slabs_free = 0, obj_size = of_nat sz\<rparr>"
    "c < length (caches h')" by simp_all
  show "get_in_use p h' = 0 \<longleftrightarrow> length (F p) + 1 = max_objs sz" by (rule t(2))
  show "get_free_list p h = 0 \<longleftrightarrow> p \<in> set fs" using t(3) d(6-8) p by auto
  show "get_magic p h = SLAB_MAGIC" using s(2) by (simp add: slab_body_def)
  show "x AND NOT (4096 - 1) = p" by (rule object_page [OF x(1) s(1) d(2)])
qed

lemma cache_free_unfold:
  assumes i: "cache_ok c sz h ps fs F" and p: "p \<in> set ps \<union> set fs" and x: "x \<in> slab_objects p sz" "x \<notin> set (F p)"
  shows "cache_free c x h =
    (if length (F p) + 1 = max_objs sz then
       unlink_slab p c (if p \<in> set fs then slabs_full_update else slabs_partial_update) (give_back p x h) \<bind> free_pages_backend p
     else if p \<in> set fs then unlink_slab p c slabs_full_update (give_back p x h) \<bind> push_slab p c slabs_partial slabs_partial_update
     else Some (give_back p x h))"
proof -
  note g = cache_give_back(7-10) [OF assms refl]
  show ?thesis
    unfolding cache_free_def g(4) Let_def using g(1-3) by (simp add: give_back_def Let_def cong: if_cong)
qed

text \<open>
  Freeing an object: either its slab keeps a used object and the free object joins the free ones of the slab, or
  the slab leaves the cache and its page is free again.
\<close>

lemma cache_free_keeps_slab:
  assumes i: "cache_ok c sz h ps fs F" and p: "p \<in> set ps \<union> set fs" and x: "x \<in> slab_objects p sz" "x \<notin> set (F p)"
    and n: "length (F p) + 1 \<noteq> max_objs sz"
  shows "\<exists>h' ps' fs'. cache_free c x h = Some h' \<and> cache_ok c sz h' ps' fs' (F(p := x # F p)) \<and>
    set ps' = insert p (set ps) \<and> set fs' = set fs - {p} \<and> within c (header_area (set ps \<union> set fs) \<union> object_area x) h h'"
proof -
  note d = cache_okD [OF i]
  let ?h = "give_back p x h" and ?A = "header_area (set ps \<union> set fs) \<union> object_area x"
  note g = cache_give_back [OF i p x refl]
  have "header_area {p} \<subseteq> header_area (set ps \<union> set fs)" by (rule area_mono(2)) (use p in simp)
  then have w: "within c ?A h ?h" by (intro within_mono [OF g(6)]) auto
  show ?thesis
  proof (cases "p \<in> set fs")
    case False
    then have "cache_ok c sz ?h ps fs (F(p := x # F p))"
      using d(2,6-8) g(1-5) by (simp add: cache_ok_def) (use False in blast)
    moreover have "insert p (set ps) = set ps" "set fs - {p} = set fs" using False p by auto
    ultimately show ?thesis using False n cache_free_unfold [OF i p x] w by auto
  next
    case True
    from unlink_either [OF g(5,4,1,2) d(6) p] True obtain h3 ps' fs' where
      u: "unlink_slab p c slabs_full_update ?h = Some h3" "sl.linked h3 0 ps'" "sl.linked h3 0 fs'"
        "set ps' = set ps - {p}" "set fs' = set fs - {p}" "within c (link_area (set ps \<union> set fs)) ?h h3"
        "caches h3 ! c = \<lparr>slabs_partial = head_of 0 ps', slabs_full = head_of 0 fs', slabs_free = 0, obj_size = of_nat sz\<rparr>"
      by auto
    have v: "slab_page p" "p \<notin> set ps'" using d(10) p u(4) by auto
    have c3: "c < length (caches h3)" using g(5) withinD(9) [OF u(6)] by simp
    from push_step [OF u(2) v c3, of slabs_partial slabs_partial_update] u(7) obtain h' where
      h': "push_slab p c slabs_partial slabs_partial_update h3 = Some h'" "sl.linked h' 0 (p # ps')"
        "within c (link_area (insert p (set ps'))) h3 h'"
        "caches h' ! c = \<lparr>slabs_partial = p, slabs_full = head_of 0 fs', slabs_free = 0, obj_size = of_nat sz\<rparr>"
      by auto
    have sub: "insert p (set ps') \<subseteq> set ps \<union> set fs" using p u(4) by auto
    have w': "within c (link_area (set ps \<union> set fs)) h3 h'" by (rule within_mono [OF h'(3) area_mono(1) [OF sub]])
    have bq: "slab_body c sz h' q ((F(p := x # F p)) q)" if q: "q \<in> set ps \<union> set fs" for q
    proof -
      have "slab_page q" using d(10) q by blast
      then show ?thesis
        using body_links [OF w' d(10) _ d(2)] body_links [OF u(6) d(10) _ d(2)] bspec [OF g(3) q] by blast
    qed
    have "set (p # ps') \<union> set fs' \<subseteq> set ps \<union> set fs" using sub u(4,5) by auto
    then have b: "\<forall>q \<in> set (p # ps') \<union> set fs'. slab_body c sz h' q ((F(p := x # F p)) q)" using bq by blast
    have f': "sl.linked h' 0 fs'" by (rule linked_links [OF h'(3) _ u(3)]) (use sub d(6,10) u(4,5) in auto)
    have "cache_ok c sz h' (p # ps') fs' (F(p := x # F p))"
      using b f' h'(2,4) c3 withinD(9) [OF h'(3)] d(2,6-8) u(4,5) by (simp add: cache_ok_def) auto
    moreover have "within c ?A h h'"
      by (rule within_trans [OF w within_trans [OF within_mono [OF u(6)] within_mono [OF w']]]) (use area_mono(3) in blast)+
    moreover have "set (p # ps') = insert p (set ps)" using u(4) by auto
    moreover have "cache_free c x h = Some h'" using True n cache_free_unfold [OF i p x] u(1) h'(1) by simp
    ultimately show ?thesis using u(5) by (intro exI [of _ h'] exI [of _ "p # ps'"] exI [of _ fs']) simp
  qed
qed

lemma cache_free_frees_page:
  assumes i: "cache_ok c sz h ps fs F" and p: "p \<in> set ps \<union> set fs" and x: "x \<in> slab_objects p sz" "x \<notin> set (F p)"
    and n: "length (F p) + 1 = max_objs sz"
  shows "\<exists>h' ps' fs'. cache_free c x h = free_pages_backend p h' \<and> cache_ok c sz h' ps' fs' F \<and>
    set ps' = set ps - {p} \<and> set fs' = set fs - {p} \<and> within c (header_area (set ps \<union> set fs) \<union> object_area x) h h'"
proof -
  note d = cache_okD [OF i]
  let ?h = "give_back p x h" and ?A = "header_area (set ps \<union> set fs) \<union> object_area x"
  note g = cache_give_back [OF i p x refl]
  have "header_area {p} \<subseteq> header_area (set ps \<union> set fs)" by (rule area_mono(2)) (use p in simp)
  then have w: "within c ?A h ?h" by (intro within_mono [OF g(6)]) auto
  from unlink_either [OF g(5,4,1,2) d(6) p] obtain h' ps' fs' where
    u: "unlink_slab p c (if p \<in> set fs then slabs_full_update else slabs_partial_update) ?h = Some h'"
      "sl.linked h' 0 ps'" "sl.linked h' 0 fs'"
      "set ps' = set ps - {p}" "set fs' = set fs - {p}" "within c (link_area (set ps \<union> set fs)) ?h h'"
      "caches h' ! c = \<lparr>slabs_partial = head_of 0 ps', slabs_full = head_of 0 fs', slabs_free = 0, obj_size = of_nat sz\<rparr>"
    by blast
  have "slab_body c sz h' q (F q)" if q: "q \<in> set ps' \<union> set fs'" for q
  proof -
    have "slab_page q" "q \<in> set ps \<union> set fs" "q \<noteq> p" using d(10) q u(4,5) by auto
    then show ?thesis using body_links [OF u(6) d(10) _ d(2)] bspec [OF g(3), of q] by simp
  qed
  then have "cache_ok c sz h' ps' fs' F"
    using u(2-5,7) g(5) withinD(9) [OF u(6)] d(2,6-8) by (simp add: cache_ok_def) auto
  moreover have "within c ?A h h'"
    by (rule within_trans [OF w within_mono [OF u(6)]]) (use area_mono(3) in blast)
  ultimately show ?thesis using cache_free_unfold [OF i p x] n u(1,4,5) by auto
qed

end
