(* ===== verification/Malloc.thy ===== *)
theory Malloc
  imports Slab_Cache
begin

text \<open>
  The heap of \<open>src/src/heap.c\<close> as a whole. \<open>heap_ok\<close> is its invariant: the page table, the eight caches and
  their slabs agree. Its abstraction is the set of live blocks, each an address and a number of usable
  bytes; \<open>malloc\<close>, \<open>free\<close>, \<open>calloc\<close> and \<open>realloc\<close> are specified by what they do to this set and to the bytes
  in the blocks.
\<close>

section \<open>Pages of the heap\<close>

definition pg :: "heap \<Rightarrow> nat \<Rightarrow> u64" where
  "pg h i = page_idx_to_virt h (of_nat i)"

lemma pg_page:
  assumes geo: "heap_geometry h" and i: "i < length (pages h)"
  shows "unat (pg h i) = unat (heap_start_addr h) + 4096 * i" "slab_page (pg h i)" "of_nat i < total_pages h"
    "unat (of_nat i :: u32) = i" "page_of x = pg h i \<Longrightarrow> virt_to_page_idx h x = of_nat i"
    "j < length (pages h) \<Longrightarrow> pg h i = pg h j \<longleftrightarrow> i = j"
proof -
  have u: "unat (of_nat k :: u32) = k" if "k < length (pages h)" for k
    using that heap_geometryD(2) [OF geo] unat_u32_lt [of "total_pages h"] by (intro unat_u32_of_nat) simp
  then have lt: "of_nat k < total_pages h" if "k < length (pages h)" for k
    using that heap_geometryD(2) [OF geo] by (simp add: word_less_nat_alt)
  have a: "unat (pg h k) = unat (heap_start_addr h) + 4096 * k" if "k < length (pages h)" for k
    using unat_page_idx_to_virt(1) [OF geo lt [OF that]] u [OF that] by (simp add: pg_def)
  show "unat (pg h i) = unat (heap_start_addr h) + 4096 * i" "of_nat i < total_pages h" "unat (of_nat i :: u32) = i"
    using a [OF i] lt [OF i] u [OF i] .
  show "slab_page (pg h i)"
    using a [OF i] heap_geometryD(4) [OF geo] unat_page_idx_to_virt(2) [OF geo lt [OF i]] by (simp add: slab_page_def pg_def)
  show "pg h i = pg h j \<longleftrightarrow> i = j" if "j < length (pages h)"
  proof
    assume "pg h i = pg h j"
    then have "unat (pg h i) = unat (pg h j)" by (rule arg_cong)
    then show "i = j" unfolding a [OF i] a [OF that] by simp
  qed simp
  show "virt_to_page_idx h x = of_nat i" if "page_of x = pg h i"
  proof (rule virt_to_page_idx_in [OF geo lt [OF i]])
    have "unat (pg h i) = unat x div 4096 * 4096" using unat_page_floor [of x] that by (auto simp: page_of_def)
    then have "unat (pg h i) \<le> unat x" "unat x < unat (pg h i) + 4096" using div_mult_mod_eq [of "unat x" 4096] by linarith+
    then show "unat (heap_start_addr h) + unat (of_nat i :: u32) * 4096 \<le> unat x"
      "unat x < unat (heap_start_addr h) + (unat (of_nat i :: u32) + 1) * 4096"
      unfolding a [OF i] u [OF i] by (simp_all add: algebra_simps)
  qed
qed

definition slab_rec :: page_info where "slab_rec = \<lparr>ptype = PAGE_TYPE_SLAB, pcount = 1\<rparr>"
definition tail_rec :: page_info where "tail_rec = \<lparr>ptype = PAGE_TYPE_LARGE, pcount = 0\<rparr>"

text \<open>A run of large pages: its first record holds the length, the others hold zero.\<close>

definition large_run :: "page_info list \<Rightarrow> nat \<Rightarrow> nat \<Rightarrow> bool" where
  "large_run md i n \<longleftrightarrow> i < length md \<and> ptype (md ! i) = PAGE_TYPE_LARGE \<and> unat (pcount (md ! i)) = n \<and> 0 < n"

definition pages_ok :: "page_info list \<Rightarrow> bool" where
  "pages_ok md \<longleftrightarrow> (\<forall>i n. large_run md i n \<longrightarrow> i + n \<le> length md \<and> (\<forall>j. i < j \<and> j < i + n \<longrightarrow> md ! j = tail_rec))"

lemma pages_okD:
  "pages_ok md \<Longrightarrow> large_run md i n \<Longrightarrow> i + n \<le> length md"
  "pages_ok md \<Longrightarrow> large_run md i n \<Longrightarrow> i < j \<Longrightarrow> j < i + n \<Longrightarrow> md ! j = tail_rec"
  by (auto simp: pages_ok_def)

lemma run_type:
  "pages_ok md \<Longrightarrow> large_run md i n \<Longrightarrow> i \<le> j \<Longrightarrow> j < i + n \<Longrightarrow> ptype (md ! j) = PAGE_TYPE_LARGE"
proof -
  assume a: "pages_ok md" "large_run md i n" "i \<le> j" "j < i + n"
  show ?thesis
  proof (cases "i = j")
    case True
    then show ?thesis using a(2) by (simp add: large_run_def)
  next
    case False
    then show ?thesis using pages_okD(2) [OF a(1,2), of j] a(3,4) by (simp add: tail_rec_def)
  qed
qed

text \<open>Runs do not meet.\<close>

lemma runs_apart:
  assumes "pages_ok md" "large_run md i n" "large_run md i' n'" "i \<le> j" "j < i + n" "i' \<le> j" "j < i' + n'"
  shows "i = i' \<and> n = n'"
proof -
  have "\<not> i < i'"
  proof
    assume "i < i'"
    then have "md ! i' = tail_rec" using pages_okD(2) [OF assms(1,2), of i'] assms by simp
    then show False using assms(3) by (auto simp: large_run_def tail_rec_def)
  qed
  moreover have "\<not> i' < i"
  proof
    assume "i' < i"
    then have "md ! i = tail_rec" using pages_okD(2) [OF assms(1,3), of i] assms by simp
    then show False using assms(2) by (auto simp: large_run_def tail_rec_def)
  qed
  ultimately have "i = i'" by simp
  then show ?thesis using assms(2,3) by (simp add: large_run_def)
qed

text \<open>Writing the records of pages that belong to no run keeps the runs.\<close>

lemma large_run_set:
  assumes "pages_ok md" "s + n \<le> length md" "\<And>j. s \<le> j \<Longrightarrow> j < s + n \<Longrightarrow> ptype (md ! j) \<noteq> PAGE_TYPE_LARGE"
    and f: "\<And>j. j < n \<Longrightarrow> \<not> (ptype (f j) = PAGE_TYPE_LARGE \<and> pcount (f j) \<noteq> 0)"
  shows "large_run (set_run s n f md) i k \<longleftrightarrow> large_run md i k" "pages_ok (set_run s n f md)"
proof -
  show l: "large_run (set_run s n f md) i k \<longleftrightarrow> large_run md i k" for i k
  proof (cases "i < length md \<and> s \<le> i \<and> i < s + n")
    case True
    then show ?thesis using assms(3) [of i] f [of "i - s"] by (auto simp: large_run_def nth_set_run)
  next
    case False
    then show ?thesis by (auto simp: large_run_def nth_set_run)
  qed
  show "pages_ok (set_run s n f md)"
    unfolding pages_ok_def
  proof (intro allI impI conjI)
    fix i k assume "large_run (set_run s n f md) i k"
    then have r: "large_run md i k" using l by simp
    then show "i + k \<le> length (set_run s n f md)" using pages_okD(1) [OF assms(1)] by simp
    fix j assume j: "i < j \<and> j < i + k"
    then have "j < length md" "md ! j = tail_rec" using pages_okD [OF assms(1) r] by fastforce+
    moreover from this have "\<not> (s \<le> j \<and> j < s + n)" using assms(3) [of j] by (auto simp: tail_rec_def)
    ultimately show "set_run s n f md ! j = tail_rec" by (auto simp: nth_set_run)
  qed
qed

section \<open>The invariant of the heap\<close>

text \<open>The sizes of the caches, and where the slabs are: the ghost state of the invariant.\<close>

definition csize :: "nat \<Rightarrow> nat" where "csize c = 2 ^ (c + 4)"

record layout =
  partials :: "nat \<Rightarrow> u64 list"
  fulls :: "nat \<Rightarrow> u64 list"
  frees :: "u64 \<Rightarrow> u64 list"

definition slabs_of :: "layout \<Rightarrow> nat \<Rightarrow> u64 set" where
  "slabs_of L c = set (partials L c) \<union> set (fulls L c)"

definition slab_record :: "heap \<Rightarrow> u64 \<Rightarrow> bool" where
  "slab_record h p \<longleftrightarrow> (\<exists>i < length (pages h). p = pg h i \<and> pages h ! i = slab_rec)"

definition caches_addr_ok :: "heap \<Rightarrow> bool" where
  "caches_addr_ok h \<longleftrightarrow> caches_at h \<noteq> 0 \<and> unat (caches_at h) + 256 \<le> 2 ^ 64"

definition cache_part :: "heap \<Rightarrow> layout \<Rightarrow> nat \<Rightarrow> bool" where
  "cache_part h L c \<longleftrightarrow> cache_ok c (csize c) h (partials L c) (fulls L c) (frees L) \<and>
     (\<forall>p \<in> set (partials L c). length (frees L p) < max_objs (csize c)) \<and> (\<forall>p \<in> slabs_of L c. slab_record h p)"

definition heap_ok :: "heap \<Rightarrow> layout \<Rightarrow> bool" where
  "heap_ok h L \<longleftrightarrow> heap_geometry h \<and> unat (total_pages h) < 65536 \<and> length (caches h) = 8 \<and> caches_addr_ok h \<and>
     pages_ok (pages h) \<and> (\<forall>c < 8. cache_part h L c) \<and> (\<forall>c < 8. \<forall>d < 8. c \<noteq> d \<longrightarrow> slabs_of L c \<inter> slabs_of L d = {})"

lemma heap_okD:
  assumes "heap_ok h L"
  shows "heap_geometry h" "length (pages h) < 65536" "length (caches h) = 8" "caches_addr_ok h" "pages_ok (pages h)"
    "c < 8 \<Longrightarrow> cache_part h L c" "c < 8 \<Longrightarrow> d < 8 \<Longrightarrow> p \<in> slabs_of L c \<Longrightarrow> p \<in> slabs_of L d \<Longrightarrow> c = d"
proof -
  note a = assms [unfolded heap_ok_def]
  show g: "heap_geometry h" using a by blast
  show "length (pages h) < 65536" using a heap_geometryD(2) [OF g] by simp
  show "length (caches h) = 8" "caches_addr_ok h" "pages_ok (pages h)" "c < 8 \<Longrightarrow> cache_part h L c" using a by blast+
  show "c < 8 \<Longrightarrow> d < 8 \<Longrightarrow> p \<in> slabs_of L c \<Longrightarrow> p \<in> slabs_of L d \<Longrightarrow> c = d" using a by blast
qed

lemma cache_numbers: "c < 8 \<Longrightarrow> c = 0 \<or> c = 1 \<or> c = 2 \<or> c = 3 \<or> c = 4 \<or> c = 5 \<or> c = 6 \<or> (c :: nat) = 7"
  by presburger

lemma csize_ok: "c < 8 \<Longrightarrow> size_ok (csize c)"
  by (drule cache_numbers, elim disjE) (simp_all add: csize_def size_ok_def)

lemma cache_partD:
  assumes "heap_ok h L" "c < 8"
  shows "cache_ok c (csize c) h (partials L c) (fulls L c) (frees L)"
    "\<forall>p \<in> set (partials L c). length (frees L p) < max_objs (csize c)" "\<forall>p \<in> slabs_of L c. slab_record h p"
    "\<forall>p \<in> slabs_of L c. slab_page p"
proof -
  show i: "cache_ok c (csize c) h (partials L c) (fulls L c) (frees L)"
    and "\<forall>p \<in> set (partials L c). length (frees L p) < max_objs (csize c)" "\<forall>p \<in> slabs_of L c. slab_record h p"
    using heap_okD(6) [OF assms] unfolding cache_part_def by blast+
  show "\<forall>p \<in> slabs_of L c. slab_page p" using cache_okD(10) [OF i] by (simp only: slabs_of_def)
qed

section \<open>Live blocks\<close>

definition used :: "layout \<Rightarrow> nat \<Rightarrow> u64 \<Rightarrow> u64 set" where
  "used L c p = slab_objects p (csize c) - set (frees L p)"

definition slab_blocks :: "layout \<Rightarrow> (u64 \<times> nat) set" where
  "slab_blocks L = {(x, csize c) | x c. c < 8 \<and> (\<exists>p \<in> slabs_of L c. x \<in> used L c p)}"

definition large_blocks :: "heap \<Rightarrow> (u64 \<times> nat) set" where
  "large_blocks h = {(pg h i, n * 4096) | i n. large_run (pages h) i n}"

definition blocks :: "heap \<Rightarrow> layout \<Rightarrow> (u64 \<times> nat) set" where
  "blocks h L = slab_blocks L \<union> large_blocks h"

text \<open>The page of a byte of a block.\<close>

lemma slab_blockE:
  assumes "(b, k) \<in> slab_blocks L" "heap_ok h L"
  obtains c p where "c < 8" "k = csize c" "p \<in> slabs_of L c" "b \<in> slab_objects p (csize c)" "b \<notin> set (frees L p)"
    "slab_page p" "slab_record h p" "aligned8 b" "b \<noteq> 0" "\<forall>x. in_block b k x \<longrightarrow> page_of x = p \<and> \<not> in_block p 40 x"
proof -
  from assms(1) obtain c p where c: "c < 8" "k = csize c" "p \<in> slabs_of L c" "b \<in> used L c p"
    by (auto simp: slab_blocks_def)
  note d = cache_partD [OF assms(2) c(1)]
  have s: "slab_page p" "slab_record h p" using d(3,4) c(3) by blast+
  have b: "b \<in> slab_objects p (csize c)" "b \<notin> set (frees L p)" using c(4) by (auto simp: used_def)
  show thesis
    using that [OF c(1-3) b s object_aligned [OF b(1) s(1) csize_ok [OF c(1)]]]
      object_in_page [OF b(1) s(1) csize_ok [OF c(1)]] c(2) by blast
qed

lemma large_blockE:
  assumes "(b, k) \<in> large_blocks h" "heap_ok h L"
  obtains i n where "large_run (pages h) i n" "b = pg h i" "k = n * 4096" "aligned8 b" "b \<noteq> 0"
    "\<forall>x. in_block b k x \<longrightarrow> (\<exists>j. i \<le> j \<and> j < i + n \<and> j < length (pages h) \<and> page_of x = pg h j)"
proof -
  from assms(1) obtain i n where r: "large_run (pages h) i n" "b = pg h i" "k = n * 4096" by (auto simp: large_blocks_def)
  note g = heap_okD(1,5) [OF assms(2)]
  have i: "i < length (pages h)" "i + n \<le> length (pages h)" using r(1) pages_okD(1) [OF g(2) r(1)] by (simp_all add: large_run_def)
  note p = pg_page [OF g(1) i(1)]
  have end': "unat (pg h i) + n * 4096 \<le> unat (heap_end_addr h)"
    using p(1) i(2) heap_geometryD(2,3) [OF g(1)] by simp
  have blk: "\<exists>j. i \<le> j \<and> j < i + n \<and> j < length (pages h) \<and> page_of x = pg h j" if x: "in_block b k x" for x
  proof -
    have "unat (pg h i) \<le> unat x" "unat x < unat (pg h i) + n * 4096"
      using x r(2,3) end' unat_u64_lt [of "heap_end_addr h"] in_block_no_wrap [of "pg h i" "n * 4096" x] by simp_all
    then obtain d where d: "unat x = unat (pg h i) + d" "d < n * 4096" by (metis add_less_cancel_left le_iff_add)
    let ?j = "i + d div 4096"
    have j: "?j < i + n" using d(2) by (simp add: less_mult_imp_div_less)
    then have jl: "?j < length (pages h)" using i(2) by simp
    note pj = pg_page(1,2) [OF g(1) jl]
    have "unat (pg h ?j) + d mod 4096 = unat x" unfolding pj(1) d(1) p(1) using div_mult_mod_eq [of d 4096] by simp
    then have "in_block (pg h ?j) 4096 x"
      using in_page_block [OF pj(2), of 0 4096 x] mod_less_divisor [of 4096 d] by simp
    then have "page_of x = pg h ?j" using in_whole_page [OF pj(2)] by simp
    then show ?thesis using j jl by (intro exI [of _ ?j]) simp
  qed
  have "aligned8 b" "b \<noteq> 0" using link_cells(1) [OF p(2)] p(2) r(2) by (auto simp: slab_page_def)
  then show thesis using that r blk by blast
qed

text \<open>Live blocks are aligned, have different addresses and do not overlap.\<close>

lemma page_rec_unique:
  assumes "heap_geometry h" "slab_record h p" "p = pg h j" "j < length (pages h)"
  shows "pages h ! j = slab_rec"
  using assms pg_page(6) [OF assms(1)] by (auto simp: slab_record_def)

lemma slab_not_large:
  assumes i: "heap_ok h L" and s: "(a, n) \<in> slab_blocks L" "in_block a n x" and l: "(b, k) \<in> large_blocks h" "in_block b k x"
  shows False
proof -
  note g = heap_okD(1,5) [OF i]
  obtain p where p: "slab_record h p" "page_of x = p" by (rule slab_blockE [OF s(1) i]) (use s(2) in blast)
  from l(1) i obtain r m where r: "large_run (pages h) r m" and
    rj: "\<forall>x. in_block b k x \<longrightarrow> (\<exists>j. r \<le> j \<and> j < r + m \<and> j < length (pages h) \<and> page_of x = pg h j)" by (rule large_blockE)
  from rj l(2) obtain j where j: "r \<le> j" "j < r + m" "j < length (pages h)" "page_of x = pg h j" by blast
  have "pages h ! j = slab_rec" by (rule page_rec_unique [OF g(1) p(1) _ j(3)]) (use p(2) j(4) in simp)
  then show False using run_type [OF g(2) r j(1,2)] by (simp add: slab_rec_def page_types)
qed

lemma blocks_apart:
  assumes i: "heap_ok h L" and b: "(a, n) \<in> blocks h L" "(b, k) \<in> blocks h L" and x: "in_block a n x" "in_block b k x"
  shows "a = b \<and> n = k"
proof -
  note g = heap_okD(1,5) [OF i] and mixed = slab_not_large [OF i]
  from b consider "(a, n) \<in> slab_blocks L" "(b, k) \<in> slab_blocks L" | "(a, n) \<in> slab_blocks L" "(b, k) \<in> large_blocks h"
    | "(a, n) \<in> large_blocks h" "(b, k) \<in> slab_blocks L" | "(a, n) \<in> large_blocks h" "(b, k) \<in> large_blocks h"
    by (auto simp: blocks_def)
  then show ?thesis
  proof cases
    case 1
    obtain c p where c: "c < 8" "n = csize c" "p \<in> slabs_of L c" "a \<in> slab_objects p (csize c)" "slab_page p"
      "page_of x = p" by (rule slab_blockE [OF 1(1) i]) (use x(1) in blast)
    obtain d q where d: "d < 8" "k = csize d" "q \<in> slabs_of L d" "b \<in> slab_objects q (csize d)" "slab_page q"
      "page_of x = q" by (rule slab_blockE [OF 1(2) i]) (use x(2) in blast)
    have e: "p = q" "c = d" using c(6) d(6) heap_okD(7) [OF i c(1) d(1) c(3)] d(3) by simp_all
    have "a = b"
    proof (rule ccontr)
      assume "a \<noteq> b"
      then have "disjoint_blocks a n b k"
        using objects_disjoint [of a p "csize c" b q] c d e csize_ok [OF c(1)] by simp
      then show False using x by (auto simp: disjoint_blocks_def)
    qed
    then show ?thesis using c(2) d(2) e by simp
  next
    case 2
    then show ?thesis using mixed x by blast
  next
    case 3
    then show ?thesis using mixed x by blast
  next
    case 4
    from 4(1) i obtain r m where r: "large_run (pages h) r m" "a = pg h r" "n = m * 4096" and
      rj: "\<forall>x. in_block a n x \<longrightarrow> (\<exists>j. r \<le> j \<and> j < r + m \<and> j < length (pages h) \<and> page_of x = pg h j)" by (rule large_blockE)
    from 4(2) i obtain r' m' where r': "large_run (pages h) r' m'" "b = pg h r'" "k = m' * 4096" and
      rj': "\<forall>x. in_block b k x \<longrightarrow> (\<exists>j. r' \<le> j \<and> j < r' + m' \<and> j < length (pages h) \<and> page_of x = pg h j)" by (rule large_blockE)
    from rj x(1) obtain j where j: "r \<le> j" "j < r + m" "j < length (pages h)" "page_of x = pg h j" by blast
    from rj' x(2) obtain j' where j': "r' \<le> j'" "j' < r' + m'" "j' < length (pages h)" "page_of x = pg h j'" by blast
    have "j = j'" using pg_page(6) [OF g(1) j(3) j'(3)] j(4) j'(4) by simp
    then have "r = r' \<and> m = m'" using runs_apart [OF g(2) r(1) r'(1) j(1,2)] j'(1,2) by simp
    then show ?thesis using r r' by simp
  qed
qed

lemma block_byte:
  assumes i: "heap_ok h L" and b: "(b, k) \<in> blocks h L" "in_block b k y"
  shows "c < 8 \<Longrightarrow> y \<notin> header_area (slabs_of L c)"
    "\<exists>j < length (pages h). page_of y = pg h j \<and> ptype (pages h ! j) \<noteq> PAGE_TYPE_FREE"
proof -
  note g = heap_okD(1,5) [OF i]
  have "(\<exists>j < length (pages h). page_of y = pg h j \<and> ptype (pages h ! j) \<noteq> PAGE_TYPE_FREE) \<and>
    (\<forall>q. slab_record h q \<longrightarrow> slab_page q \<longrightarrow> \<not> in_block q 40 y)"
  proof (cases "(b, k) \<in> slab_blocks L")
    case True
    obtain p where p: "slab_record h p" "page_of y = p" "\<not> in_block p 40 y" by (rule slab_blockE [OF True i]) (use b(2) in blast)
    from p(1) obtain j where j: "j < length (pages h)" "p = pg h j" "pages h ! j = slab_rec" by (auto simp: slab_record_def)
    have "\<not> in_block q 40 y" if "slab_page q" for q using in_page [OF that, of 0 40 y] p(2,3) by auto
    then show ?thesis using j p(2) by (auto simp: slab_rec_def page_types intro!: exI [of _ j])
  next
    case False
    then have "(b, k) \<in> large_blocks h" using b(1) by (simp add: blocks_def)
    then obtain r m where r: "large_run (pages h) r m" and
      rj: "\<forall>x. in_block b k x \<longrightarrow> (\<exists>j. r \<le> j \<and> j < r + m \<and> j < length (pages h) \<and> page_of x = pg h j)"
      using i by (rule large_blockE)
    from rj b(2) obtain j where j: "r \<le> j" "j < r + m" "j < length (pages h)" "page_of y = pg h j" by blast
    have t: "ptype (pages h ! j) = PAGE_TYPE_LARGE" by (rule run_type [OF g(2) r j(1,2)])
    have "\<not> in_block q 40 y" if "slab_record h q" "slab_page q" for q
    proof
      assume "in_block q 40 y"
      then have "q = pg h j" using in_page [OF that(2), of 0 40 y] j(4) by simp
      then show False using page_rec_unique [OF g(1) that(1) _ j(3)] t by (simp add: slab_rec_def page_types)
    qed
    then show ?thesis using j t by (auto simp: page_types intro!: exI [of _ j])
  qed
  note n = this
  then show "\<exists>j < length (pages h). page_of y = pg h j \<and> ptype (pages h ! j) \<noteq> PAGE_TYPE_FREE" by blast
  show "y \<notin> header_area (slabs_of L c)" if "c < 8" using conjunct2 [OF n] cache_partD(3,4) [OF i that] by (auto simp: header_area_def)
qed

section \<open>Steps of one cache in the heap\<close>

definition same_heap :: "heap \<Rightarrow> heap \<Rightarrow> bool" where
  "same_heap h h' \<longleftrightarrow> heap_start_addr h' = heap_start_addr h \<and> heap_end_addr h' = heap_end_addr h \<and>
     total_pages h' = total_pages h \<and> caches_at h' = caches_at h \<and> length (caches h') = length (caches h) \<and>
     (\<exists>md. page_metadata h' = Some md \<and> length md = length (pages h))"

lemma same_heapD:
  assumes "same_heap h h'" "heap_geometry h"
  shows "heap_geometry h'" "length (pages h') = length (pages h)" "pg h' i = pg h i"
  using assms heap_geometryD(2) [OF assms(2)]
  by (auto simp: same_heap_def heap_geometry_def pages_def pg_def page_idx_to_virt_def)

lemma heap_ok_step:
  assumes i: "heap_ok h L" and c: "c < 8" and s: "same_heap h h'"
    and k: "\<And>d. d \<noteq> c \<Longrightarrow> caches h' ! d = caches h ! d"
    and m: "\<And>x. page_of x \<notin> S \<Longrightarrow> hmem h' x = hmem h x"
    and S: "\<And>d. d < 8 \<Longrightarrow> d \<noteq> c \<Longrightarrow> S \<inter> slabs_of L d = {}" "slabs_of L' c \<subseteq> S"
    and L': "\<And>d. d \<noteq> c \<Longrightarrow> partials L' d = partials L d \<and> fulls L' d = fulls L d" "\<And>p. p \<notin> S \<Longrightarrow> frees L' p = frees L p"
    and new: "cache_part h' L' c" and ok: "pages_ok (pages h')"
    and rec: "\<And>d p. d < 8 \<Longrightarrow> d \<noteq> c \<Longrightarrow> p \<in> slabs_of L d \<Longrightarrow> slab_record h' p"
  shows "heap_ok h' L'"
proof -
  note o = heap_okD [OF i] and g = same_heapD [OF s heap_okD(1) [OF i]]
  have sl: "slabs_of L' d = slabs_of L d" if "d \<noteq> c" for d using L'(1) [OF that] by (simp add: slabs_of_def)
  have part: "cache_part h' L' d" if d: "d < 8" for d
  proof (cases "d = c")
    case False
    note p = cache_partD [OF i d]
    have fr: "frees L' p = frees L p" if "p \<in> set (partials L d) \<union> set (fulls L d)" for p
      using S(1) [OF d False] that by (intro L'(2)) (auto simp: slabs_of_def)
    have "cache_ok d (csize d) h' (partials L d) (fulls L d) (frees L')"
    proof (rule cache_ok_frame [OF p(1)])
      show "hmem h' x = hmem h x" if "page_of x \<in> set (partials L d) \<union> set (fulls L d)" for x
        using S(1) [OF d False] that by (intro m) (auto simp: slabs_of_def)
    qed (use k [OF False] s fr in \<open>auto simp: same_heap_def\<close>)
    then show ?thesis
      using L'(1) [OF False] p(2) fr rec [OF d False] sl [OF False] by (simp add: cache_part_def)
  qed (use new in simp)
  have "slabs_of L' d \<inter> slabs_of L' e = {}" if "d < 8" "e < 8" "d \<noteq> e" for d e
  proof -
    have "slabs_of L d \<inter> slabs_of L e = {}" using i that by (simp add: heap_ok_def)
    moreover have "slabs_of L' c \<inter> slabs_of L f = {}" if "f < 8" "f \<noteq> c" for f using S(1) [OF that] S(2) by blast
    ultimately show ?thesis using that sl by (cases "d = c"; cases "e = c") (auto simp: Int_commute)
  qed
  then show ?thesis
    using part g(1) ok o(2-4) s heap_geometryD(2) [OF o(1)] by (simp add: heap_ok_def same_heap_def caches_addr_ok_def)
qed

text \<open>The bytes of all blocks of a set are the same in two states.\<close>

definition kept :: "(u64 \<times> nat) set \<Rightarrow> heap \<Rightarrow> heap \<Rightarrow> bool" where
  "kept B h h' \<longleftrightarrow> (\<forall>(b, k) \<in> B. \<forall>x. in_block b k x \<longrightarrow> hmem h' x = hmem h x)"

text \<open>A step that changes memory in the pages of the heap only.\<close>

definition confined :: "heap \<Rightarrow> heap \<Rightarrow> bool" where
  "confined h h' \<longleftrightarrow> heap_start_addr h' = heap_start_addr h \<and> length (pages h') = length (pages h) \<and>
     (\<forall>x. (\<forall>i < length (pages h). page_of x \<noteq> pg h i) \<longrightarrow> hmem h' x = hmem h x)"

lemma confined_refl [simp]: "confined h h"
  by (simp add: confined_def)

lemma confined_pg: "confined h h' \<Longrightarrow> pg h' i = pg h i"
  by (simp add: confined_def pg_def page_idx_to_virt_def)

lemma confined_trans: "confined h h1 \<Longrightarrow> confined h1 h' \<Longrightarrow> confined h h'"
  using confined_pg [of h h1] by (simp add: confined_def)

lemma confined_slabs:
  assumes "heap_start_addr h' = heap_start_addr h" "pages h' = pages h" "\<And>q. q \<in> S \<Longrightarrow> slab_record h q"
    "\<And>x. page_of x \<notin> S \<Longrightarrow> hmem h' x = hmem h x"
  shows "confined h h'"
  unfolding confined_def
proof (intro conjI allI impI)
  fix x assume "\<forall>i < length (pages h). page_of x \<noteq> pg h i"
  then have "\<not> slab_record h (page_of x)" by (auto simp: slab_record_def)
  then show "hmem h' x = hmem h x" using assms(3,4) by blast
qed (use assms(1,2) in simp_all)

text \<open>The pages that an operation takes: none, or the first free run of length \<open>n\<close>.\<close>

definition took_pages :: "nat \<Rightarrow> heap \<Rightarrow> heap \<Rightarrow> bool" where
  "took_pages n h h' \<longleftrightarrow> confined h h' \<and> (pages h' = pages h \<or>
     (\<exists>s f. first_run (pages h) n = Some s \<and> (\<forall>j < n. ptype (f j) \<noteq> PAGE_TYPE_FREE) \<and> pages h' = set_run s n f (pages h)))"

lemma take_lists:
  assumes i: "cache_ok c sz h (p # ps) fs F" and s: "cache_slab c h0 = Some (p, h)"
  shows "\<exists>x xs h' ps' fs'. F p = x # xs \<and> cache_alloc c h0 = Some (x, h') \<and>
    within c (header_area (insert p (set ps \<union> set fs))) h h' \<and> cache_ok c sz h' ps' fs' (F(p := xs)) \<and>
    set ps' \<union> set fs' = insert p (set ps \<union> set fs) \<and> set ps' \<subseteq> insert p (set ps) \<and> length xs < max_objs sz \<and>
    x \<in> slab_objects p sz \<and> x \<notin> set xs \<and> set xs \<subseteq> slab_objects p sz"
proof -
  note d = cache_okD [OF i]
  obtain x xs where x: "F p = x # xs" using d(7) by (cases "F p") auto
  have b: "slab_body c sz h p (x # xs)" using d(9) x by auto
  from cache_take [OF i x s] obtain h' where h': "cache_alloc c h0 = Some (x, h')"
    "within c (header_area (set (p # ps) \<union> set fs)) h h'"
    "if xs = [] then cache_ok c sz h' ps (p # fs) (F(p := [])) else cache_ok c sz h' (p # ps) fs (F(p := xs))" by blast
  have "length xs < max_objs sz" "x \<in> slab_objects p sz" "x \<notin> set xs" "set xs \<subseteq> slab_objects p sz" using b by (auto simp: slab_body_def)
  moreover have "\<exists>ps' fs'. cache_ok c sz h' ps' fs' (F(p := xs)) \<and> set ps' \<union> set fs' = insert p (set ps \<union> set fs) \<and>
      set ps' \<subseteq> insert p (set ps)"
  proof (cases "xs = []")
    case True
    then show ?thesis using h'(3) by (intro exI [of _ ps] exI [of _ "p # fs"]) auto
  next
    case False
    then show ?thesis using h'(3) by (intro exI [of _ "p # ps"] exI [of _ fs]) auto
  qed
  ultimately show ?thesis using x h'(1,2) by auto
qed

lemma not_block:
  assumes i: "heap_ok h L" and c: "c < 8" and p: "slab_page p" "x \<in> slab_objects p (csize c)"
    and new: "p \<in> slabs_of L c \<and> x \<in> set (frees L p) \<or> (\<exists>s. p = pg h s \<and> free_page (pages h) s)"
  shows "(x, csize c) \<notin> blocks h L"
proof
  note g = heap_okD(1) [OF i]
  have n: "0 < csize c" by (simp add: csize_def)
  then have x: "in_block x (csize c) x" by (simp add: in_block_def)
  have px: "page_of x = p" using object_in_page(1) [OF p(2,1) csize_ok [OF c] x] .
  assume b: "(x, csize c) \<in> blocks h L"
  from block_byte(2) [OF i b x] obtain j where j: "j < length (pages h)" "p = pg h j" "ptype (pages h ! j) \<noteq> PAGE_TYPE_FREE"
    using px by auto
  have "\<not> (p = pg h s \<and> free_page (pages h) s)" for s
    using pg_page(6) [OF g j(1), of s] j by (auto simp: free_page_def)
  then have new: "p \<in> slabs_of L c" "x \<in> set (frees L p)" using new by blast+
  show False
  proof (cases "(x, csize c) \<in> slab_blocks L")
    case True
    obtain q where "x \<notin> set (frees L q)" "page_of x = q" by (rule slab_blockE [OF True i]) (use x in blast)
    then show False using px new(2) by simp
  next
    case False
    then have "(x, csize c) \<in> large_blocks h" using b by (simp add: blocks_def)
    then obtain r m where r: "large_run (pages h) r m" and
      rj: "\<forall>y. in_block x (csize c) y \<longrightarrow> (\<exists>j. r \<le> j \<and> j < r + m \<and> j < length (pages h) \<and> page_of y = pg h j)"
      using i by (rule large_blockE)
    from rj x px obtain l where l: "r \<le> l" "l < r + m" "l < length (pages h)" "p = pg h l" by auto
    have "slab_record h p" using cache_partD(3) [OF i c] new(1) by blast
    from page_rec_unique [OF g this l(4,3)] run_type [OF heap_okD(5) [OF i] r l(1,2)] show False
      by (simp add: slab_rec_def page_types)
  qed
qed

lemma slab_blocks_take:
  assumes c: "c < 8" and sl: "slabs_of L' c = insert p (slabs_of L c)" "\<And>d. d \<noteq> c \<Longrightarrow> slabs_of L' d = slabs_of L d"
    and fr: "\<And>q. q \<noteq> p \<Longrightarrow> frees L' q = frees L q" and one: "\<And>d. d < 8 \<Longrightarrow> d \<noteq> c \<Longrightarrow> p \<notin> slabs_of L d"
    and u: "used L' c p = insert x (if p \<in> slabs_of L c then used L c p else {})"
  shows "slab_blocks L' = insert (x, csize c) (slab_blocks L)"
proof -
  have e: "used L' d q = used L d q" if "q \<noteq> p" for d q using fr [OF that] by (simp add: used_def)
  have o: "q \<noteq> p" if "d < 8" "d \<noteq> c" "q \<in> slabs_of L d" for d q using one that by blast
  have eq: "(\<exists>q \<in> slabs_of L' d. y \<in> used L' d q) \<longleftrightarrow> y = x \<and> d = c \<or> (\<exists>q \<in> slabs_of L d. y \<in> used L d q)" if d: "d < 8" for d y
  proof (cases "d = c")
    case True
    let ?R = "slabs_of L c - {p}"
    have "(\<exists>q \<in> slabs_of L' c. y \<in> used L' c q) \<longleftrightarrow> y \<in> used L' c p \<or> (\<exists>q \<in> ?R. y \<in> used L' c q)" using sl(1) by auto
    also have "(\<exists>q \<in> ?R. y \<in> used L' c q) \<longleftrightarrow> (\<exists>q \<in> ?R. y \<in> used L c q)" by (rule bex_cong) (simp_all add: e)
    finally have l: "(\<exists>q \<in> slabs_of L' c. y \<in> used L' c q) \<longleftrightarrow> y \<in> used L' c p \<or> (\<exists>q \<in> ?R. y \<in> used L c q)" .
    have "(\<exists>q \<in> slabs_of L c. y \<in> used L c q) \<longleftrightarrow> p \<in> slabs_of L c \<and> y \<in> used L c p \<or> (\<exists>q \<in> ?R. y \<in> used L c q)" by auto
    then show ?thesis using l u True by (cases "p \<in> slabs_of L c") auto
  next
    case False
    then show ?thesis using sl(2) [OF False] e o [OF d False] by auto
  qed
  have mem: "(y, n) \<in> slab_blocks M \<longleftrightarrow> (\<exists>d < 8. n = csize d \<and> (\<exists>q \<in> slabs_of M d. y \<in> used M d q))" for M y n
    by (auto simp: slab_blocks_def)
  have "(y, n) \<in> slab_blocks L' \<longleftrightarrow> (y, n) = (x, csize c) \<or> (y, n) \<in> slab_blocks L" for y n
    unfolding mem using c eq by (simp cong: conj_cong) blast
  then show ?thesis by (auto simp del: split_paired_All)
qed

lemma kept_trans: "kept B h h1 \<Longrightarrow> kept B h1 h' \<Longrightarrow> kept B h h'"
  by (fastforce simp: kept_def)

text \<open>
  \<open>cache_alloc\<close> once its slab \<open>p\<close> is ready in the state \<open>h1\<close>: a slab of the cache, or one in a page that was free.
\<close>

lemma take_heap:
  assumes i: "heap_ok h L" and c: "c < 8" and j: "cache_ok c (csize c) h1 (p # ps) fs F" and cs: "cache_slab c h = Some (p, h1)"
    and h1: "same_heap h h1" "heap_lock h1 = heap_lock h" "\<And>d. d \<noteq> c \<Longrightarrow> caches h1 ! d = caches h ! d" "kept (blocks h L) h h1"
      "\<And>x. page_of x \<noteq> p \<Longrightarrow> hmem h1 x = hmem h x"
    and pgs: "pages_ok (pages h1)" "large_blocks h1 = large_blocks h" "slab_record h1 p" "\<And>q. slab_record h q \<Longrightarrow> slab_record h1 q"
    and ls: "insert p (set ps \<union> set fs) = insert p (slabs_of L c)" "set ps \<subseteq> set (partials L c)" "\<And>q. q \<noteq> p \<Longrightarrow> F q = frees L q"
      "\<And>d. d < 8 \<Longrightarrow> d \<noteq> c \<Longrightarrow> p \<notin> slabs_of L d"
    and u: "slab_objects p (csize c) - set (F p) = (if p \<in> slabs_of L c then used L c p else {})"
    and new: "p \<in> slabs_of L c \<and> F p = frees L p \<or> (\<exists>s. p = pg h s \<and> free_page (pages h) s)"
    and tp: "took_pages 1 h h1"
  shows "\<exists>x h' L'. cache_alloc c h = Some (x, h') \<and> heap_ok h' L' \<and> took_pages 1 h h' \<and> same_heap h h' \<and> heap_lock h' = heap_lock h \<and> x \<noteq> 0 \<and>
    (x, csize c) \<notin> blocks h L \<and> blocks h' L' = insert (x, csize c) (blocks h L) \<and> kept (blocks h L) h h'"
proof -
  note g = heap_okD(1) [OF i]
  let ?S = "insert p (slabs_of L c)"
  from take_lists [OF j cs] ls(1) obtain x xs h' ps' fs' where t: "F p = x # xs" "cache_alloc c h = Some (x, h')"
    "within c (header_area ?S) h1 h'" "cache_ok c (csize c) h' ps' fs' (F(p := xs))" "set ps' \<union> set fs' = ?S"
    "set ps' \<subseteq> insert p (set ps)" "length xs < max_objs (csize c)" "x \<in> slab_objects p (csize c)" "x \<notin> set xs"
    "set xs \<subseteq> slab_objects p (csize c)" by auto
  define L' where "L' = L\<lparr>partials := (partials L)(c := ps'), fulls := (fulls L)(c := fs'), frees := F(p := xs)\<rparr>"
  note w = withinD [OF t(3)]
  have p: "slab_page p" using cache_okD(10) [OF j] by simp
  have v: "\<forall>q \<in> ?S. slab_page q" using p cache_partD(4) [OF i c] by auto
  have sl: "slabs_of L' c = ?S" "d \<noteq> c \<Longrightarrow> slabs_of L' d = slabs_of L d" for d using t(5) by (simp_all add: L'_def slabs_of_def)
  have s: "same_heap h h'" using h1(1) w(2,3,5-7,9) by (simp add: same_heap_def)
  have rec: "slab_record h' q" if "slab_record h1 q" for q using that w(5,8) by (simp add: slab_record_def pg_def page_idx_to_virt_def)
  have ok: "heap_ok h' L'"
  proof (rule heap_ok_step [OF i c s, where S = ?S])
    show "caches h' ! d = caches h ! d" if "d \<noteq> c" for d using h1(3) [OF that] w(10) [OF that] by simp
    show "hmem h' y = hmem h y" if "page_of y \<notin> ?S" for y
      using h1(5) [of y] w(11) [of y] area_page(2) [OF v] that by auto
    show "?S \<inter> slabs_of L d = {}" if "d < 8" "d \<noteq> c" for d
      using ls(4) [OF that] heap_okD(7) [OF i that(1) c] that(2) by blast
    show "slabs_of L' c \<subseteq> ?S" by (simp add: sl)
    show "partials L' d = partials L d \<and> fulls L' d = fulls L d" if "d \<noteq> c" for d using that by (simp add: L'_def)
    show "frees L' q = frees L q" if "q \<notin> ?S" for q using that ls(3) by (simp add: L'_def)
    show "cache_part h' L' c"
    proof -
      have "length (frees L' q) < max_objs (csize c)" if "q \<in> set ps'" for q
      proof (cases "q = p")
        case False
        then have "q \<in> set (partials L c)" "frees L' q = frees L q" using that t(6) ls(2,3) by (auto simp: L'_def)
        then show ?thesis using cache_partD(2) [OF i c] by simp
      qed (use t(7) in \<open>simp add: L'_def\<close>)
      moreover have "slab_record h' q" if "q \<in> ?S" for q using that rec pgs(3,4) cache_partD(3) [OF i c] by auto
      ultimately show ?thesis using t(4) sl(1) by (simp add: cache_part_def L'_def)
    qed
    show "pages_ok (pages h')" using pgs(1) w(8) by simp
    show "slab_record h' q" if "d < 8" "q \<in> slabs_of L d" for d q using rec pgs(4) cache_partD(3) [OF i that(1)] that(2) by blast
  qed
  have "slab_blocks L' = insert (x, csize c) (slab_blocks L)"
  proof (rule slab_blocks_take [OF c, where p = p])
    have "used L' c p = insert x (slab_objects p (csize c) - set (F p))" using t(1,8,9) by (auto simp: used_def L'_def)
    then show "used L' c p = insert x (if p \<in> slabs_of L c then used L c p else {})" using u by simp
    show "frees L' q = frees L q" if "q \<noteq> p" for q using that ls(3) by (simp add: L'_def)
  qed (use sl ls(4) in auto)
  moreover have "large_blocks h' = large_blocks h"
    using pgs(2) w(5,8) by (simp add: large_blocks_def pg_def page_idx_to_virt_def)
  ultimately have b: "blocks h' L' = insert (x, csize c) (blocks h L)" by (simp add: blocks_def)
  have "x \<in> set (F p)" using t(1) by simp
  then have "p \<in> slabs_of L c \<and> x \<in> set (frees L p) \<or> (\<exists>s. p = pg h s \<and> free_page (pages h) s)" using new by auto
  then have fresh: "(x, csize c) \<notin> blocks h L" by (rule not_block [OF i c p t(8)])
  have "kept (blocks h L) h1 h'"
    unfolding kept_def
  proof clarify
    fix b k y assume y: "(b, k) \<in> blocks h L" "in_block b k y"
    have "y \<notin> header_area (slabs_of L c)" by (rule block_byte(1) [OF i y c])
    moreover have "y \<notin> header_area {p}" if np: "p \<notin> slabs_of L c"
    proof
      assume "y \<in> header_area {p}"
      then have "page_of y = p" using area_page(2) [of "{p}" y] p by simp
      moreover obtain s where "p = pg h s" "free_page (pages h) s" using new np by blast
      ultimately show False using block_byte(2) [OF i y] pg_page(6) [OF g] by (auto simp: free_page_def)
    qed
    ultimately have "y \<notin> header_area ?S" by (cases "p \<in> slabs_of L c") (auto simp: header_area_def)
    then show "hmem h' y = hmem h1 y" by (rule w(11))
  qed
  then have "kept (blocks h L) h h'" using h1(4) by (rule kept_trans [rotated])
  moreover have "x \<noteq> 0" using object_aligned(2) [OF t(8) p csize_ok [OF c]] .
  moreover have "took_pages 1 h h'"
  proof -
    have "slab_record h1 q" if "q \<in> ?S" for q using that pgs(3,4) cache_partD(3) [OF i c] by auto
    moreover have "hmem h' y = hmem h1 y" if "page_of y \<notin> ?S" for y using w(11) [of y] area_page(2) [OF v] that by auto
    ultimately have "confined h1 h'" using w(5,8) by (intro confined_slabs [of h' h1 ?S])
    then show ?thesis using tp w(8) confined_trans [of h h1 h'] by (simp add: took_pages_def)
  qed
  ultimately show ?thesis using t(2) ok s b fresh h1(2) w(4) by (intro exI [of _ x] exI [of _ h'] exI [of _ L']) simp
qed

text \<open>Pages for a slab or for a large block.\<close>

lemma alloc_none:
  assumes "heap_geometry h" "0 < unat n" "first_run (pages h) (unat n) = None"
  shows "\<not> run_free (pages h) (unat n) s"
proof
  assume r: "run_free (pages h) (unat n) s"
  have "s < length (pages h)" using run_free_bound [OF r assms(2)] assms(2) by simp
  then show False using assms(3) r by (auto simp: first_run_def find_None_iff)
qed

lemma large_blocks_set:
  assumes "pages_ok (pages h)" "s + n \<le> length (pages h)" "\<And>j. s \<le> j \<Longrightarrow> j < s + n \<Longrightarrow> ptype (pages h ! j) \<noteq> PAGE_TYPE_LARGE"
    and "\<And>j. j < n \<Longrightarrow> \<not> (ptype (f j) = PAGE_TYPE_LARGE \<and> pcount (f j) \<noteq> 0)"
  shows "large_blocks (h\<lparr>page_metadata := Some (set_run s n f (pages h))\<rparr>) = large_blocks h"
  using large_run_set(1) [OF assms] by (simp add: large_blocks_def pg_def page_idx_to_virt_def)

lemma same_heap_pages:
  assumes "length md = length (pages h)"
  shows "same_heap h (h\<lparr>page_metadata := Some md\<rparr>)"
  using assms by (simp add: same_heap_def)

lemma slab_page_fresh:
  assumes i: "heap_ok h L" and s: "free_page (pages h) s"
  shows "d < 8 \<Longrightarrow> pg h s \<notin> slabs_of L d" "(b, k) \<in> blocks h L \<Longrightarrow> in_block b k y \<Longrightarrow> page_of y \<noteq> pg h s"
proof -
  note g = heap_okD(1) [OF i]
  have sl: "s < length (pages h)" "ptype (pages h ! s) = PAGE_TYPE_FREE" using s by (simp_all add: free_page_def)
  show "pg h s \<notin> slabs_of L d" if "d < 8"
  proof
    assume "pg h s \<in> slabs_of L d"
    then have "slab_record h (pg h s)" using cache_partD(3) [OF i that] by blast
    from page_rec_unique [OF g this refl sl(1)] sl(2) show False by (simp add: slab_rec_def page_types)
  qed
  show "page_of y \<noteq> pg h s" if "(b, k) \<in> blocks h L" "in_block b k y"
    using block_byte(2) [OF i that] pg_page(6) [OF g sl(1)] sl(2) by auto
qed

definition took :: "nat \<Rightarrow> heap \<Rightarrow> layout \<Rightarrow> bool" where
  "took c h L \<longleftrightarrow> (\<exists>x h' L'. cache_alloc c h = Some (x, h') \<and> heap_ok h' L' \<and> took_pages 1 h h' \<and> same_heap h h' \<and> heap_lock h' = heap_lock h \<and> x \<noteq> 0 \<and>
    (x, csize c) \<notin> blocks h L \<and> blocks h' L' = insert (x, csize c) (blocks h L) \<and> kept (blocks h L) h h')"

lemma cache_alloc_partial:
  assumes i: "heap_ok h L" and c: "c < 8" and l: "partials L c = p # ps"
  shows "took c h L"
  unfolding took_def
proof (rule take_heap [OF i c])
  note g = heap_okD(1,5) [OF i] and j = cache_partD [OF i c]
  have m: "p \<in> slabs_of L c" using l by (simp add: slabs_of_def)
  show "cache_ok c (csize c) h (p # ps) (fulls L c) (frees L)" using j(1) l by simp
  then show "cache_slab c h = Some (p, h)" by (rule cache_slab_partial)
  show "same_heap h h" using heap_geometryD(1) [OF g(1)] by (simp add: same_heap_def)
  show "slab_record h p" using m j(3) by blast
  show "insert p (set ps \<union> set (fulls L c)) = insert p (slabs_of L c)" "set ps \<subseteq> set (partials L c)" using l by (auto simp: slabs_of_def)
  show "p \<notin> slabs_of L d" if "d < 8" "d \<noteq> c" for d using heap_okD(7) [OF i that(1) c] m that(2) by blast
  show "slab_objects p (csize c) - set (frees L p) = (if p \<in> slabs_of L c then used L c p else {})" using m by (simp add: used_def)
  show "p \<in> slabs_of L c \<and> frees L p = frees L p \<or> (\<exists>s. p = pg h s \<and> free_page (pages h) s)" using m by simp
  show "pages_ok (pages h)" by (rule g(2))
  show "took_pages 1 h h" by (simp add: took_pages_def)
qed (simp_all add: kept_def)

lemma cache_alloc_new:
  assumes i: "heap_ok h L" and c: "c < 8" and l: "partials L c = []" and s: "free_page (pages h) s" and fr: "first_run (pages h) 1 = Some s"
    and a: "alloc_pages_backend 1 PAGE_TYPE_SLAB h = Some (pg h s, h\<lparr>page_metadata := Some (set_run s 1 (\<lambda>_. slab_rec) (pages h))\<rparr>)"
  shows "took c h L"
proof -
  note g = heap_okD(1,5) [OF i] and j = cache_partD [OF i c] and f = slab_page_fresh [OF i s]
  let ?md = "set_run s 1 (\<lambda>_. slab_rec) (pages h)" and ?p = "pg h s"
  let ?h = "h\<lparr>page_metadata := Some ?md\<rparr>"
  have sl: "s < length (pages h)" "ptype (pages h ! s) = PAGE_TYPE_FREE" using s by (simp_all add: free_page_def)
  have p: "slab_page ?p" by (rule pg_page(2) [OF g(1) sl(1)])
  have nf: "?p \<notin> set (fulls L c)" using f(1) [OF c] by (simp add: slabs_of_def)
  have j0: "cache_ok c (csize c) h [] (fulls L c) (frees L)" using j(1) l by simp
  from cache_slab_new [OF j0 p nf a] obtain h1 where h1: "cache_slab c h = Some (?p, h1)"
    "cache_ok c (csize c) h1 [?p] (fulls L c) ((frees L)(?p := all_objects ?p (csize c)))" "within c {x. page_of x = ?p} ?h h1" by blast
  note w = withinD [OF h1(3)]
  have pgs: "pages h1 = ?md" "pg h1 k = pg h k" for k using w(5,8) by (simp_all add: pg_def page_idx_to_virt_def)
  have run: "s + 1 \<le> length (pages h)" "\<And>j. s \<le> j \<Longrightarrow> j < s + 1 \<Longrightarrow> ptype (pages h ! j) \<noteq> PAGE_TYPE_LARGE"
    "\<not> (ptype slab_rec = PAGE_TYPE_LARGE \<and> pcount slab_rec \<noteq> 0)" using sl by (auto simp: slab_rec_def page_types le_less_Suc_eq)
  have rec: "slab_record h1 q" if "slab_record h q" for q
  proof -
    from that obtain k where k: "k < length (pages h)" "q = pg h k" "pages h ! k = slab_rec" by (auto simp: slab_record_def)
    then show ?thesis using pgs by (auto simp: slab_record_def nth_set_run intro!: exI [of _ k])
  qed
  have out: "hmem h1 y = hmem h y" if "page_of y \<noteq> ?p" for y using w(11) [of y] that by simp
  show ?thesis
    unfolding took_def
  proof (rule take_heap [OF i c h1(2,1)])
    show "same_heap h h1" using w(2,3,5-7,9) by (simp add: same_heap_def)
    show "heap_lock h1 = heap_lock h" using w(4) by simp
    show "caches h1 ! d = caches h ! d" if "d \<noteq> c" for d using w(10) [OF that] by simp
    show "kept (blocks h L) h h1" using out f(2) by (auto simp: kept_def)
    have "confined h h1" using out sl(1) w(5) pgs(1) by (simp add: confined_def)
    then show "took_pages 1 h h1"
      unfolding took_pages_def using fr pgs(1) by (intro conjI disjI2 exI [of _ s] exI [of _ "\<lambda>_. slab_rec"]) (simp_all add: slab_rec_def page_types)
    show "pages_ok (pages h1)" unfolding pgs by (rule large_run_set(2) [OF g(2) run])
    show "large_blocks h1 = large_blocks h" using large_run_set(1) [OF g(2) run] pgs by (simp add: large_blocks_def)
    show "slab_record h1 ?p" using pgs sl by (auto simp: slab_record_def nth_set_run intro!: exI [of _ s])
    show "insert ?p (set [] \<union> set (fulls L c)) = insert ?p (slabs_of L c)" using l by (simp add: slabs_of_def)
    show "slab_objects ?p (csize c) - set (((frees L)(?p := all_objects ?p (csize c))) ?p) = (if ?p \<in> slabs_of L c then used L c ?p else {})"
      using f(1) [OF c] all_objects(2) [of ?p "csize c"] by simp
    show "?p \<in> slabs_of L c \<and> ((frees L)(?p := all_objects ?p (csize c))) ?p = frees L ?p \<or> (\<exists>r. ?p = pg h r \<and> free_page (pages h) r)"
      using s by blast
  qed (use f(1) rec out in auto)
qed

lemma cache_alloc_heap:
  assumes i: "heap_ok h L" and c: "c < 8"
  shows "\<exists>x h' L'. cache_alloc c h = Some (x, h') \<and> heap_ok h' L' \<and> took_pages 1 h h' \<and> same_heap h h' \<and> heap_lock h' = heap_lock h \<and> kept (blocks h L) h h' \<and>
    (x = 0 \<and> blocks h' L' = blocks h L \<and> (\<forall>s. \<not> run_free (pages h) 1 s) \<or>
     x \<noteq> 0 \<and> (x, csize c) \<notin> blocks h L \<and> blocks h' L' = insert (x, csize c) (blocks h L))"
proof -
  note g = heap_okD(1) [OF i]
  have one: "0 < unat (1 :: u64)" by simp
  have took: ?thesis if "took c h L" using that unfolding took_def by blast
  show ?thesis
  proof (cases "partials L c")
    case (Cons p ps)
    then show ?thesis by (intro took cache_alloc_partial [OF i c])
  next
    case Nil
    from g one show ?thesis
    proof (cases rule: alloc_result_cases [where ty = PAGE_TYPE_SLAB])
      case full
      have "cache_ok c (csize c) h [] (fulls L c) (frees L)" using cache_partD(1) [OF i c] Nil by simp
      moreover have "alloc_pages_backend 1 PAGE_TYPE_SLAB h = Some (0, h)"
        using alloc_pages_first_fit [OF g one, of PAGE_TYPE_SLAB] full(1) by simp
      ultimately have "cache_alloc c h = Some (0, h)" by (rule cache_slab_none)
      moreover have "\<not> run_free (pages h) 1 s" for s using alloc_none [OF g one full(2)] by simp
      moreover have "same_heap h h" using heap_geometryD(1) [OF g] by (simp add: same_heap_def)
      ultimately show ?thesis using i by (intro exI [of _ 0] exI [of _ h] exI [of _ L]) (simp add: kept_def took_pages_def)
    next
      case (run s)
      have "run_record 1 PAGE_TYPE_SLAB 0 = slab_rec" by (simp add: run_record_def slab_rec_def)
      then have "set_run s 1 (run_record 1 PAGE_TYPE_SLAB) (pages h) = set_run s 1 (\<lambda>_. slab_rec) (pages h)" by (auto simp: set_run_def)
      moreover have "page_idx_to_virt h (of_nat s) = pg h s" by (simp add: pg_def)
      moreover have "unat (1 :: u64) = 1" by simp
      ultimately have "alloc_pages_backend 1 PAGE_TYPE_SLAB h =
          Some (pg h s, h\<lparr>page_metadata := Some (set_run s 1 (\<lambda>_. slab_rec) (pages h))\<rparr>)"
        using alloc_pages_first_fit [OF g one, of PAGE_TYPE_SLAB] run(2) by simp
      moreover have "free_page (pages h) s" using run(3) by (simp add: run_free_def)
      moreover have "first_run (pages h) 1 = Some s" using run(1) by simp
      ultimately show ?thesis by (intro took cache_alloc_new [OF i c Nil])
    qed
  qed
qed

section \<open>malloc\<close>

lemma obj_size_caches:
  assumes "heap_ok h L" "c < 8"
  shows "unat (obj_size (caches h ! c)) = csize c"
proof -
  have "csize c < 2 ^ 64" using csize_ok [OF assms(2)] by (simp add: size_ok_def)
  then show ?thesis using cache_okD(3) [OF cache_partD(1) [OF assms]] by (simp add: unat_u64_of_nat)
qed

lemma find_cache:
  assumes i: "heap_ok h L" and n: "unat sz \<le> 2048"
  shows "\<exists>c. find (\<lambda>i. sz \<le> obj_size (caches h ! i)) [0..<length (caches h)] = Some c \<and> c < 8 \<and> unat sz \<le> csize c \<and>
    (\<forall>d < c. csize d < unat sz)"
proof -
  have le: "sz \<le> obj_size (caches h ! c) \<longleftrightarrow> unat sz \<le> csize c" if "c < 8" for c
    using obj_size_caches [OF i that] by (simp add: word_le_nat_alt)
  have "find (\<lambda>i. sz \<le> obj_size (caches h ! i)) [0..<8] \<noteq> None"
  proof -
    have "sz \<le> obj_size (caches h ! 7)" using le [of 7] n by (simp add: csize_def)
    then show ?thesis by (auto simp: find_None_iff intro!: exI [of _ 7])
  qed
  then obtain c where c: "find (\<lambda>i. sz \<le> obj_size (caches h ! i)) [0..<8] = Some c" by auto
  then have "c < 8" "sz \<le> obj_size (caches h ! c)" "\<forall>d < c. \<not> sz \<le> obj_size (caches h ! d)"
    by (auto simp: find_Some_iff)
  then show ?thesis using c le heap_okD(3) [OF i] by (auto simp: not_le)
qed

lemma heap_ok_pages:
  assumes i: "heap_ok h L" and md: "length md = length (pages h)" "pages_ok md"
    and rec: "\<And>j. j < length (pages h) \<Longrightarrow> pages h ! j = slab_rec \<Longrightarrow> (\<exists>c < 8. pg h j \<in> slabs_of L c) \<Longrightarrow> md ! j = slab_rec"
  shows "heap_ok (h\<lparr>page_metadata := Some md\<rparr>) L"
proof -
  let ?h = "h\<lparr>page_metadata := Some md\<rparr>"
  note o = heap_okD [OF i]
  have "cache_part ?h L c" if c: "c < 8" for c
  proof -
    note p = cache_partD [OF i c]
    have "slab_record ?h q" if q: "q \<in> slabs_of L c" for q
    proof -
      obtain j where j: "j < length (pages h)" "q = pg h j" "pages h ! j = slab_rec" using p(3) q by (auto simp: slab_record_def)
      have "md ! j = slab_rec" using rec [OF j(1,3)] q c j(2) by blast
      then show ?thesis using md(1) j by (auto simp: slab_record_def pg_def page_idx_to_virt_def intro!: exI [of _ j])
    qed
    then show ?thesis using cache_ok_pages [OF p(1), of "Some md"] p(2) by (simp add: cache_part_def)
  qed
  moreover have "heap_geometry ?h" using o(1) md(1) by (rule heap_geometry_pages)
  ultimately show ?thesis using i md(2) by (simp add: heap_ok_def caches_addr_ok_def)
qed

lemma large_run_new:
  assumes ok: "pages_ok md" and n: "0 < n" "s + n \<le> length md" and free: "run_free md n s"
    and f: "ptype (f 0) = PAGE_TYPE_LARGE" "unat (pcount (f 0)) = n" "\<And>j. 0 < j \<Longrightarrow> f j = tail_rec"
  shows "large_run (set_run s n f md) i k \<longleftrightarrow> large_run md i k \<or> i = s \<and> k = n" "pages_ok (set_run s n f md)"
proof -
  have fr: "ptype (md ! j) = PAGE_TYPE_FREE" if "s \<le> j" "j < s + n" for j using free that by (auto simp: run_free_def free_page_def)
  show l: "large_run (set_run s n f md) i k \<longleftrightarrow> large_run md i k \<or> i = s \<and> k = n" for i k
  proof (cases "s \<le> i \<and> i < s + n")
    case True
    then have "\<not> large_run md i k" using fr [of i] by (auto simp: large_run_def page_types)
    moreover have "i < length md" using True n by simp
    ultimately show ?thesis using True n f(1,2) f(3) [of "i - s"] by (cases "i = s") (auto simp: large_run_def nth_set_run tail_rec_def)
  next
    case False
    then have "i \<noteq> s" using n(1) by auto
    then show ?thesis using False by (auto simp: large_run_def nth_set_run)
  qed
  show "pages_ok (set_run s n f md)"
    unfolding pages_ok_def
  proof (intro allI impI conjI)
    fix i k assume "large_run (set_run s n f md) i k"
    then have r: "large_run md i k \<or> i = s \<and> k = n" using l by simp
    then show "i + k \<le> length (set_run s n f md)" using pages_okD(1) [OF ok] n(2) by auto
    fix j assume j: "i < j \<and> j < i + k"
    show "set_run s n f md ! j = tail_rec"
    proof (cases "i = s \<and> k = n")
      case True
      then show ?thesis using j n(2) f(3) [of "j - s"] by (simp add: nth_set_run)
    next
      case False
      then have m: "large_run md i k" using r by blast
      have "j < length md" "md ! j = tail_rec" using pages_okD [OF ok m] j by fastforce+
      moreover from this have "\<not> (s \<le> j \<and> j < s + n)" using fr [of j] by (auto simp: tail_rec_def page_types)
      ultimately show ?thesis by (auto simp: nth_set_run)
    qed
  qed
qed

lemma alloc_large_heap:
  assumes i: "heap_ok h L" and n: "0 < unat n"
  shows "\<exists>a h'. alloc_pages_backend n PAGE_TYPE_LARGE h = Some (a, h') \<and> heap_ok h' L \<and> took_pages (unat n) h h' \<and> heap_lock h' = heap_lock h \<and> kept (blocks h L) h h' \<and>
    (a = 0 \<and> blocks h' L = blocks h L \<and> (\<forall>s. \<not> run_free (pages h) (unat n) s) \<or>
     a \<noteq> 0 \<and> (a, unat n * 4096) \<notin> blocks h L \<and> blocks h' L = insert (a, unat n * 4096) (blocks h L))"
proof -
  note g = heap_okD(1,2,5) [OF i]
  note ff = alloc_pages_first_fit [OF g(1) n, of PAGE_TYPE_LARGE]
  from g(1) n show ?thesis
  proof (cases rule: alloc_result_cases [where ty = PAGE_TYPE_LARGE])
    case full
    then show ?thesis using ff i alloc_none [OF g(1) n full(2)] by (intro exI [of _ 0] exI [of _ h]) (simp add: kept_def took_pages_def)
  next
    case (run s)
    let ?f = "run_record n PAGE_TYPE_LARGE" and ?n = "unat n"
    let ?md = "set_run s ?n ?f (pages h)"
    let ?h = "h\<lparr>page_metadata := Some ?md\<rparr>"
    have len: "s + ?n \<le> length (pages h)" using run(4) heap_geometryD(2) [OF g(1)] by simp
    have s: "s < length (pages h)" "free_page (pages h) s" using len n run(3) by (simp_all add: run_free_def)
    have "?n < 65536" using len g(2) by simp
    then have "unat (ucast n :: u16) = ?n" by (simp add: unsigned_ucast_eq take_bit_nat_eq_self)
    then have f: "ptype (?f 0) = PAGE_TYPE_LARGE" "unat (pcount (?f 0)) = ?n" "?f j = tail_rec" if "0 < j" for j
      using that by (simp_all add: run_record_def tail_rec_def)
    have f': "ptype (?f 0) = PAGE_TYPE_LARGE" "unat (pcount (?f 0)) = ?n" using f(1,2) [of 1] by simp_all
    note lr = large_run_new [where f = ?f, OF g(3) n len run(3) f' f(3)]
    have a: "page_idx_to_virt h (of_nat s) = pg h s" by (simp add: pg_def)
    have ok: "heap_ok ?h L"
    proof (rule heap_ok_pages [OF i])
      show "?md ! j = slab_rec" if "j < length (pages h)" "pages h ! j = slab_rec" for j
      proof -
        have "\<not> free_page (pages h) j" using that(2) by (simp add: free_page_def slab_rec_def page_types)
        then show ?thesis using that run(3) by (auto simp: nth_set_run run_free_def)
      qed
    qed (use lr(2) in simp_all)
    have "large_blocks ?h = insert (pg h s, ?n * 4096) (large_blocks h)"
      using lr(1) by (auto simp: large_blocks_def pg_def page_idx_to_virt_def)
    then have b: "blocks ?h L = insert (pg h s, ?n * 4096) (blocks h L)" by (simp add: blocks_def)
    have "(pg h s, ?n * 4096) \<notin> blocks h L"
    proof
      assume "(pg h s, ?n * 4096) \<in> blocks h L"
      moreover have "in_block (pg h s) (?n * 4096) (pg h s)" using n by (simp add: in_block_def)
      ultimately have "page_of (pg h s) \<noteq> pg h s" by (rule slab_page_fresh(2) [OF i s(2)])
      then show False using in_page [OF pg_page(2) [OF g(1) s(1)], of 0 1 "pg h s"] by (simp add: in_block_def)
    qed
    moreover have "pg h s \<noteq> 0" using pg_page(2) [OF g(1) s(1)] by (auto simp: slab_page_def)
    moreover have "took_pages ?n h ?h"
      unfolding took_pages_def using run(1)
      by (intro conjI disjI2 exI [of _ s] exI [of _ ?f]) (simp_all add: run_record_def page_types confined_def)
    ultimately show ?thesis using ff run(2) a ok b by (intro exI [of _ "pg h s"] exI [of _ ?h]) (simp add: kept_def)
  qed
qed

text \<open>A request whose rounding wraps around asks for no page, and gets none.\<close>

lemma alloc_scan_zero:
  assumes geo: "heap_geometry h" and t: "unat (total_pages h) < 65536"
  shows "i \<le> unat (total_pages h) \<Longrightarrow> unat free_run \<le> i \<Longrightarrow> alloc_scan 0 ty h i free_run start_idx = Some (0, h)"
proof (induction "unat (total_pages h) - i" arbitrary: i free_run start_idx)
  case 0
  then show ?case by (subst alloc_scan.simps) simp
next
  case (Suc k)
  note md = heap_geometryD [OF geo]
  have i: "i < unat (total_pages h)" "i < length (pages h)" using Suc.hyps(2) md(2) by simp_all
  have u: "unat (free_run + 1) = unat free_run + 1" using Suc.prems(2) i(1) t by (intro unat_inc) simp
  then have "unat (ucast (free_run + 1) :: u64) \<noteq> 0" by simp
  then have ne: "ucast (free_run + 1) \<noteq> (0 :: u64)" by (metis unat_0)
  have "alloc_scan 0 ty h (Suc i) (free_run + 1) st = Some (0, h)" for st
    using Suc.hyps(2) Suc.prems(2) i(1) u by (intro Suc.hyps(1)) simp_all
  moreover have "alloc_scan 0 ty h (Suc i) 0 st = Some (0, h)" for st
    using Suc.hyps(2) i(1) by (intro Suc.hyps(1)) simp_all
  ultimately show ?case using i md(1) ne by (subst alloc_scan.simps) (simp add: arr_get_def)
qed

lemma alloc_zero_pages:
  assumes "heap_ok h L"
  shows "alloc_pages_backend 0 ty h = Some (0, h)"
  unfolding alloc_pages_backend_def
  using heap_okD(1,2) [OF assms] heap_geometryD(2) [of h] by (intro alloc_scan_zero) simp_all

text \<open>The usable size of a block: the next size of a cache, or whole pages.\<close>

definition capacity :: "nat \<Rightarrow> nat" where
  "capacity n = (case find (\<lambda>k. n \<le> k) [16, 32, 64, 128, 256, 512, 1024, 2048] of
     Some k \<Rightarrow> k | None \<Rightarrow> (n + 4095) div 4096 * 4096)"

lemma csizes: "[16, 32, 64, 128, 256, 512, 1024, 2048] = map csize [0..<8]"
  by (simp add: csize_def upt_rec)

lemma capacity_slab:
  assumes "c < 8" "n \<le> csize c" "\<forall>d < c. csize d < n"
  shows "capacity n = csize c"
proof -
  have "find (\<lambda>k. n \<le> k) (map csize [0..<8]) = Some (csize c)"
    using assms by (auto simp: find_Some_iff not_le intro!: exI [of _ c])
  then show ?thesis by (simp add: capacity_def csizes)
qed

lemma capacity_large: "2048 < n \<Longrightarrow> capacity n = (n + 4095) div 4096 * 4096"
  by (simp add: capacity_def)

lemma capacity_ge: "n \<le> capacity n"
proof (cases "n \<le> 2048")
  case True
  then show ?thesis by (auto simp: capacity_def)
next
  case False
  then show ?thesis using capacity_large [of n] by simp
qed

definition heap_inv :: "heap \<Rightarrow> layout \<Rightarrow> bool" where
  "heap_inv h L \<longleftrightarrow> heap_ok h L \<and> heap_lock h = 0"

lemma heap_ok_lock: "heap_ok h L \<Longrightarrow> heap_ok (h\<lparr>heap_lock := l\<rparr>) L"
proof -
  assume i: "heap_ok h L"
  have "cache_part (h\<lparr>heap_lock := l\<rparr>) L c" if "c < 8" for c
  proof -
    have "cache_ok c (csize c) (h\<lparr>heap_lock := l\<rparr>) (partials L c) (fulls L c) (frees L)"
      by (rule cache_ok_frame [OF cache_partD(1) [OF i that]]) simp_all
    then show ?thesis
      using cache_partD(2,3) [OF i that] by (simp add: cache_part_def slab_record_def pages_def pg_def page_idx_to_virt_def)
  qed
  then show ?thesis
    using i by (simp add: heap_ok_def heap_geometry_def caches_addr_ok_def pages_def)
qed

lemma blocks_lock [simp]: "blocks (h\<lparr>heap_lock := l\<rparr>) L = blocks h L" "pages (h\<lparr>heap_lock := l\<rparr>) = pages h"
  by (simp_all add: blocks_def large_blocks_def pages_def pg_def page_idx_to_virt_def)

lemma kept_lock [simp]: "kept B (h\<lparr>heap_lock := l\<rparr>) h' = kept B h h'" "kept B h (h'\<lparr>heap_lock := l\<rparr>) = kept B h h'"
  by (simp_all add: kept_def)

lemma took_pages_lock [simp]:
  "took_pages n (h\<lparr>heap_lock := l\<rparr>) h' = took_pages n h h'" "took_pages n h (h'\<lparr>heap_lock := l\<rparr>) = took_pages n h h'"
  by (simp_all add: took_pages_def confined_def pg_def page_idx_to_virt_def)

lemma lock_heap_ok: "heap_inv h L \<Longrightarrow> lock_heap h = Some (h\<lparr>heap_lock := 1\<rparr>) \<and> heap_ok (h\<lparr>heap_lock := 1\<rparr>) L"
  by (simp add: heap_inv_def lock_heap_def pthread_spin_lock_def cas_def heap_ok_lock)

lemma unlock_heap_eq: "unlock_heap h = h\<lparr>heap_lock := 0\<rparr>"
  by (simp add: unlock_heap_def pthread_spin_unlock_def)

lemma unlock_heap_ok: "heap_ok h L \<Longrightarrow> heap_inv (h\<lparr>heap_lock := 0\<rparr>) L"
  by (simp add: heap_inv_def heap_ok_lock)

lemma pages_needed:
  "unat ((sz + 4096 - 1) div 4096 :: u64) = (if unat sz + 4095 < 2 ^ 64 then (unat sz + 4095) div 4096 else 0)"
proof -
  have e: "sz + 4096 - 1 = sz + 4095" by simp
  show ?thesis
  proof (cases "unat sz + 4095 < 2 ^ 64")
    case True
    then have "unat (sz + 4095) = unat sz + 4095" using unat_add_no_wrap [of sz "4095 :: u64"] by simp
    then show ?thesis using True unfolding e by (simp add: unat_div_distrib)
  next
    case False
    then have "unat (sz + 4095) = unat sz + 4095 - 2 ^ 64"
      using unat_u64_lt [of sz] by (simp add: unat_word_ariths mod_if)
    then have "unat (sz + 4095) < 4096" using unat_u64_lt [of sz] by simp
    then show ?thesis using False unfolding e by (simp add: unat_div_distrib)
  qed
qed

lemma malloc_ok:
  assumes inv: "heap_inv h L" and sz: "sz \<noteq> 0"
  shows "\<exists>a h' L'. malloc sz h = Some (a, h') \<and> heap_inv h' L' \<and> took_pages ((unat sz + 4095) div 4096) h h' \<and> kept (blocks h L) h h' \<and>
    (a = 0 \<and> blocks h' L' = blocks h L \<and> (\<forall>s. \<not> run_free (pages h) ((unat sz + 4095) div 4096) s) \<or>
     a \<noteq> 0 \<and> (a, capacity (unat sz)) \<notin> blocks h L \<and> blocks h' L' = insert (a, capacity (unat sz)) (blocks h L))"
proof -
  let ?h = "h\<lparr>heap_lock := 1\<rparr>"
  from lock_heap_ok [OF inv] have lk: "lock_heap h = Some ?h" and i: "heap_ok ?h L" by simp_all
  show ?thesis
  proof (cases "sz \<le> 2048")
    case True
    then have le: "unat sz \<le> 2048" by (simp add: word_le_nat_alt)
    from find_cache [OF i le] obtain c where c: "find (\<lambda>i. sz \<le> obj_size (caches ?h ! i)) [0..<length (caches ?h)] = Some c"
      "c < 8" "unat sz \<le> csize c" "\<forall>d < c. csize d < unat sz" by blast
    have cap: "capacity (unat sz) = csize c" by (rule capacity_slab [OF c(2-4)])
    have "0 < unat sz" using sz by (simp add: unat_gt_0)
    then have one: "(unat sz + 4095) div 4096 = 1" using le by simp
    from cache_alloc_heap [OF i c(2)] obtain x h' L' where x: "cache_alloc c ?h = Some (x, h')" "heap_ok h' L'" "kept (blocks h L) h h'"
      "took_pages 1 h h'" "x = 0 \<and> blocks h' L' = blocks h L \<and> (\<forall>s. \<not> run_free (pages h) 1 s) \<or>
       x \<noteq> 0 \<and> (x, csize c) \<notin> blocks h L \<and> blocks h' L' = insert (x, csize c) (blocks h L)" by auto
    have "malloc sz h = Some (x, unlock_heap h')" using sz lk c(1) True x(1) by (simp add: malloc_def)
    then show ?thesis using x unlock_heap_ok [OF x(2)] unfolding cap one
      by (intro exI [of _ x] exI [of _ "unlock_heap h'"] exI [of _ L']) (simp add: unlock_heap_eq)
  next
    case False
    let ?n = "(sz + 4096 - 1) div 4096"
    have gt: "2048 < unat sz" using False by (simp add: word_le_nat_alt)
    show ?thesis
    proof (cases "unat sz + 4095 < 2 ^ 64")
      case True
      then have n: "unat ?n = (unat sz + 4095) div 4096" by (simp only: pages_needed if_True)
      then have "0 < unat ?n" using gt by (simp add: div_greater_zero_iff)
      from alloc_large_heap [OF i this] obtain a h' where x: "alloc_pages_backend ?n PAGE_TYPE_LARGE ?h = Some (a, h')" "heap_ok h' L"
        "kept (blocks h L) h h'" "took_pages (unat ?n) h h'"
        "a = 0 \<and> blocks h' L = blocks h L \<and> (\<forall>s. \<not> run_free (pages h) (unat ?n) s) \<or>
         a \<noteq> 0 \<and> (a, unat ?n * 4096) \<notin> blocks h L \<and> blocks h' L = insert (a, unat ?n * 4096) (blocks h L)" by auto
      have "malloc sz h = Some (a, unlock_heap h')" using sz lk False x(1) by (simp add: malloc_def)
      then show ?thesis using x unlock_heap_ok [OF x(2)] unfolding n capacity_large [OF gt]
        by (intro exI [of _ a] exI [of _ "unlock_heap h'"] exI [of _ L]) (simp add: unlock_heap_eq)
    next
      case False': False
      then have "unat ?n = 0" by (simp only: pages_needed if_False)
      then have "?n = 0" by (simp only: unat_eq_zero)
      then have "malloc sz h = Some (0, unlock_heap ?h)" using sz lk False alloc_zero_pages [OF i] by (simp add: malloc_def)
      moreover have "\<not> run_free (pages h) ((unat sz + 4095) div 4096) s" for s
      proof
        assume r: "run_free (pages h) ((unat sz + 4095) div 4096) s"
        have "2 ^ 52 \<le> (unat sz + 4095) div 4096" using False' by simp
        then show False using run_free_bound [OF r] heap_okD(2) [OF i] by simp
      qed
      ultimately show ?thesis using unlock_heap_ok [OF i]
        by (intro exI [of _ 0] exI [of _ "unlock_heap ?h"] exI [of _ L]) (simp add: unlock_heap_eq kept_def took_pages_def confined_def)
    qed
  qed
qed

end
