(* ===== verification/Heap_Spec.thy ===== *)
theory Heap_Spec
  imports Malloc
begin

text \<open>
  \<open>free\<close>, \<open>calloc\<close>, \<open>realloc\<close> and \<open>heap_init\<close> of \<open>src/src/heap.c\<close> against the invariant of \<open>Malloc\<close>: what
  they do to the set of live blocks and to the bytes in the blocks.
\<close>

section \<open>Freeing pages\<close>

lemma large_run_free:
  assumes ok: "pages_ok md" and r: "large_run md s n"
  shows "large_run (set_run s n free_record md) i k \<longleftrightarrow> large_run md i k \<and> i \<noteq> s" "pages_ok (set_run s n free_record md)"
proof -
  show l: "large_run (set_run s n free_record md) i k \<longleftrightarrow> large_run md i k \<and> i \<noteq> s" for i k
  proof (cases "s \<le> i \<and> i < s + n")
    case True
    have "\<not> large_run md i k \<or> i = s"
    proof (cases "i = s")
      case False
      then have "md ! i = tail_rec" using True pages_okD(2) [OF ok r, of i] by simp
      then show ?thesis by (auto simp: large_run_def tail_rec_def)
    qed simp
    then show ?thesis using True by (auto simp: large_run_def nth_set_run free_record_def page_types)
  next
    case False
    moreover have "0 < n" using r by (simp add: large_run_def)
    ultimately show ?thesis by (auto simp: large_run_def nth_set_run)
  qed
  show "pages_ok (set_run s n free_record md)"
    unfolding pages_ok_def
  proof (intro allI impI conjI)
    fix i k assume "large_run (set_run s n free_record md) i k"
    then have m: "large_run md i k" "i \<noteq> s" using l by simp_all
    then show "i + k \<le> length (set_run s n free_record md)" using pages_okD(1) [OF ok] by simp
    fix j assume j: "i < j \<and> j < i + k"
    then have "j < length md" "md ! j = tail_rec" using pages_okD [OF ok m(1)] by fastforce+
    moreover have "\<not> (s \<le> j \<and> j < s + n)" using runs_apart [OF ok m(1) r, of j] m(2) j by auto
    ultimately show "set_run s n free_record md ! j = tail_rec" by (auto simp: nth_set_run)
  qed
qed

lemma heap_freed_run:
  assumes i: "heap_ok h L" and r: "large_run (pages h) s n"
  shows "\<exists>h'. free_pages_backend (pg h s) h = Some h' \<and> heap_ok h' L \<and> blocks h' L = blocks h L - {(pg h s, n * 4096)} \<and> hmem h' = hmem h"
proof -
  note g = heap_okD(1,5) [OF i]
  let ?md = "set_run s n free_record (pages h)"
  let ?h = "h\<lparr>page_metadata := Some ?md\<rparr>"
  have s: "s < length (pages h)" "unat (pcount (pages h ! s)) = n" "0 < n" using r by (simp_all add: large_run_def)
  note p = pg_page [OF g(1) s(1)]
  have "pcount (pages h ! s) \<noteq> 0" using s(2,3) by auto
  then have run: "free_pages_backend (pg h s) h = Some ?h"
    using free_pages_run [OF g(1) p(3) refl] p(4) s pages_okD(1) [OF g(2) r] heap_geometryD(2) [OF g(1)] by (simp add: pg_def)
  have "heap_ok ?h L"
  proof (rule heap_ok_pages [OF i])
    show "?md ! j = slab_rec" if "j < length (pages h)" "pages h ! j = slab_rec" for j
      using that run_type [OF g(2) r, of j] by (auto simp: nth_set_run slab_rec_def page_types)
  qed (use large_run_free(2) [OF g(2) r] in simp_all)
  moreover have "blocks ?h L = blocks h L - {(pg h s, n * 4096)}"
  proof -
    have e: "large_blocks ?h = {(pg h k, m * 4096) | k m. large_run (pages h) k m \<and> k \<noteq> s}"
      using large_run_free(1) [OF g(2) r] by (simp add: large_blocks_def pg_def page_idx_to_virt_def)
    have inj: "pg h k \<noteq> pg h s" if "large_run (pages h) k m" "k \<noteq> s" for k m
      using pg_page(6) [OF g(1) s(1), of k] that by (auto simp: large_run_def)
    have "large_blocks ?h = large_blocks h - {(pg h s, n * 4096)}"
    proof (intro set_eqI iffI)
      fix z assume "z \<in> large_blocks ?h"
      then obtain k m where "large_run (pages h) k m" "k \<noteq> s" "z = (pg h k, m * 4096)" unfolding e by blast
      then show "z \<in> large_blocks h - {(pg h s, n * 4096)}" using inj by (auto simp: large_blocks_def)
    next
      fix z assume z: "z \<in> large_blocks h - {(pg h s, n * 4096)}"
      then obtain k m where k: "large_run (pages h) k m" "z = (pg h k, m * 4096)" by (auto simp: large_blocks_def)
      have "k \<noteq> s" using k z r by (auto simp: large_run_def)
      then show "z \<in> large_blocks ?h" using k unfolding e by blast
    qed
    moreover have "(pg h s, n * 4096) \<notin> slab_blocks L"
    proof
      assume b: "(pg h s, n * 4096) \<in> slab_blocks L"
      have x: "in_block (pg h s) (n * 4096) (pg h s)" using s(3) by (simp add: in_block_def)
      have "(pg h s, n * 4096) \<in> large_blocks h" using r by (auto simp: large_blocks_def)
      then show False using slab_not_large [OF i b x _ x] by blast
    qed
    ultimately show ?thesis by (auto simp: blocks_def)
  qed
  ultimately show ?thesis using run by (intro exI [of _ ?h]) simp
qed

section \<open>Freeing an object of a slab\<close>

lemma cache_index_ok:
  assumes i: "heap_ok h L" and c: "c < 8"
  shows "cache_index (cache_ptr c h) h = Some c" "cache_ptr c h \<noteq> 0"
proof -
  note a = heap_okD(3,4) [OF i]
  have u: "unat (cache_ptr d h) = unat (caches_at h) + 32 * d" if "d < 8" for d
  proof -
    have "unat (32 * of_nat d :: u64) = 32 * d"
    proof -
      have "(32 * of_nat d :: u64) = of_nat (32 * d)" by simp
      then show ?thesis using that unat_u64_of_nat [of "32 * d"] by (simp only:)
    qed
    then show ?thesis
      using a(2) that unat_add_no_wrap [of "caches_at h" "32 * of_nat d"] by (simp add: cache_ptr_def caches_addr_ok_def)
  qed
  have eq: "cache_ptr d h = cache_ptr c h \<longleftrightarrow> d = c" if "d < 8" for d
  proof
    assume "cache_ptr d h = cache_ptr c h"
    then have "unat (cache_ptr d h) = unat (cache_ptr c h)" by (rule arg_cong)
    then show "d = c" unfolding u [OF that] u [OF c] by simp
  qed simp
  show "cache_index (cache_ptr c h) h = Some c"
    unfolding cache_index_def a(1) using c eq by (auto simp: find_Some_iff intro!: exI [of _ c])
  have "unat (caches_at h) \<noteq> 0" using a(2) by (simp add: caches_addr_ok_def unat_eq_zero)
  then show "cache_ptr c h \<noteq> 0" using u [OF c] by auto
qed

lemma slab_blocks_put:
  assumes c: "c < 8" and pg: "slab_page p" "\<forall>q \<in> slabs_of L c. slab_page q" "a \<in> slab_objects p (csize c)"
    and sl: "slabs_of L c = insert p (slabs_of L' c)" "\<And>d. d \<noteq> c \<Longrightarrow> slabs_of L' d = slabs_of L d"
    and fr: "\<And>q. q \<noteq> p \<Longrightarrow> frees L' q = frees L q" and one: "\<And>d. d < 8 \<Longrightarrow> d \<noteq> c \<Longrightarrow> p \<notin> slabs_of L d"
    and u: "used L c p = insert a (if p \<in> slabs_of L' c then used L' c p else {})" "p \<in> slabs_of L' c \<Longrightarrow> a \<notin> used L' c p"
  shows "slab_blocks L' = slab_blocks L - {(a, csize c)}"
proof -
  have "slab_blocks L = insert (a, csize c) (slab_blocks L')"
    by (rule slab_blocks_take [OF c sl(1) _ _ _ u(1)]) (use sl(2) fr one in auto)
  moreover have "(a, csize c) \<notin> slab_blocks L'"
  proof
    assume "(a, csize c) \<in> slab_blocks L'"
    then obtain d q where d: "csize c = csize d" "q \<in> slabs_of L' d" "a \<in> used L' d q" by (auto simp: slab_blocks_def)
    have "d = c" using d(1) by (simp add: csize_def)
    then have q: "q \<in> slabs_of L' c" "a \<in> slab_objects q (csize c)" using d by (simp_all add: used_def)
    have "q = p" by (rule object_one_page [OF q(2) pg(3) _ pg(1) csize_ok [OF c] csize_ok [OF c]]) (use pg(2) sl(1) q(1) in auto)
    then show False using u(2) q(1) d(3) \<open>d = c\<close> by simp
  qed
  ultimately show ?thesis by auto
qed

lemma keptI: "(\<And>b k y. (b, k) \<in> B \<Longrightarrow> in_block b k y \<Longrightarrow> hmem h' y = hmem h y) \<Longrightarrow> kept B h h'"
  by (auto simp: kept_def)

lemma keptD: "kept B h h' \<Longrightarrow> (b, k) \<in> B \<Longrightarrow> in_block b k x \<Longrightarrow> hmem h' x = hmem h x"
  by (auto simp: kept_def)

lemma put_kept:
  assumes i: "heap_ok h L" and c: "c < 8" and a: "(a, csize c) \<in> blocks h L"
    and w: "within c (header_area (slabs_of L c) \<union> object_area a) h h'"
  shows "kept (blocks h L - {(a, csize c)}) h h'"
proof (rule keptI)
  fix b k y assume "(b, k) \<in> blocks h L - {(a, csize c)}" "in_block b k y"
  then have y: "(b, k) \<in> blocks h L" "(b, k) \<noteq> (a, csize c)" "in_block b k y" by blast+
  have "8 \<le> csize c" using csize_ok [OF c] by (simp add: size_ok_def)
  then have "\<not> in_block a 8 y" using blocks_apart [OF i y(1) a y(3)] y(2) by (auto simp: in_block_def)
  moreover have "y \<notin> header_area (slabs_of L c)" by (rule block_byte(1) [OF i y(1,3) c])
  ultimately show "hmem h' y = hmem h y" by (intro withinD(11) [OF w]) (simp add: object_area_def)
qed

text \<open>What both cases of \<open>cache_free\<close> start from.\<close>

definition live_object :: "heap \<Rightarrow> layout \<Rightarrow> nat \<Rightarrow> u64 \<Rightarrow> u64 \<Rightarrow> bool" where
  "live_object h L c p a \<longleftrightarrow> heap_ok h L \<and> c < 8 \<and> p \<in> slabs_of L c \<and> a \<in> slab_objects p (csize c) \<and> a \<notin> set (frees L p)"

lemma live_objectD:
  assumes "live_object h L c p a"
  shows "heap_ok h L" "c < 8" "p \<in> set (partials L c) \<union> set (fulls L c)" "a \<in> slab_objects p (csize c)" "a \<notin> set (frees L p)"
    "slab_page p" "slab_record h p" "\<forall>q \<in> slabs_of L c. slab_page q" "slab_body c (csize c) h p (frees L p)"
    "(a, csize c) \<in> blocks h L" "d < 8 \<Longrightarrow> d \<noteq> c \<Longrightarrow> p \<notin> slabs_of L d" "p \<in> slabs_of L c"
proof -
  show i: "heap_ok h L" and c: "c < 8" and p: "p \<in> slabs_of L c" and a: "a \<in> slab_objects p (csize c)" "a \<notin> set (frees L p)"
    using assms by (simp_all add: live_object_def)
  note j = cache_partD [OF i c]
  show pp: "p \<in> set (partials L c) \<union> set (fulls L c)" using p by (simp add: slabs_of_def)
  show "slab_page p" "slab_record h p" "\<forall>q \<in> slabs_of L c. slab_page q" using j(3,4) p by blast+
  show "slab_body c (csize c) h p (frees L p)" using cache_okD(9) [OF j(1)] pp by blast
  show "(a, csize c) \<in> blocks h L" using c p a by (auto simp: blocks_def slab_blocks_def used_def)
  show "d < 8 \<Longrightarrow> d \<noteq> c \<Longrightarrow> p \<notin> slabs_of L d" using heap_okD(7) [OF i _ c _ p] by blast
qed

lemma live_not_large:
  assumes "live_object h L c p a"
  shows "(a, csize c) \<notin> large_blocks h"
proof
  note d = live_objectD [OF assms]
  assume b: "(a, csize c) \<in> large_blocks h"
  have x: "in_block a (csize c) a" by (simp add: in_block_def csize_def)
  have "(a, csize c) \<in> slab_blocks L" using d(2,4,5,12) by (auto simp: slab_blocks_def used_def)
  then show False using slab_not_large [OF d(1) _ x b x] by blast
qed

lemma object_area_page:
  assumes "live_object h L c p a" "x \<in> header_area (slabs_of L c) \<union> object_area a"
  shows "page_of x \<in> slabs_of L c"
proof -
  note d = live_objectD [OF assms(1)]
  have "in_block a (csize c) x" if "in_block a 8 x" using that csize_ok [OF d(2)] by (simp add: in_block_def size_ok_def)
  then have "page_of x = p" if "x \<in> object_area a" using object_in_page(1) [OF d(4,6) csize_ok [OF d(2)]] that by (simp add: object_area_def)
  then show ?thesis using assms(2) area_page(2) [OF d(8)] d(12) by blast
qed

lemma within_same_heap:
  assumes "within c A h h'" "heap_geometry h"
  shows "same_heap h h'" "slab_record h' q = slab_record h q" "large_blocks h' = large_blocks h" "pages h' = pages h"
  using withinD(2-9) [OF assms(1)] heap_geometryD(1) [OF assms(2)]
  by (simp_all add: same_heap_def slab_record_def large_blocks_def pg_def page_idx_to_virt_def)

lemma cache_free_keep:
  assumes l: "live_object h L c p a" and n: "length (frees L p) + 1 \<noteq> max_objs (csize c)"
  shows "\<exists>h' L'. cache_free c a h = Some h' \<and> heap_ok h' L' \<and> heap_lock h' = heap_lock h \<and>
    blocks h' L' = blocks h L - {(a, csize c)} \<and> kept (blocks h L - {(a, csize c)}) h h'"
proof -
  note d = live_objectD [OF l]
  note j = cache_partD [OF d(1,2)] and g = heap_okD(1,5) [OF d(1)]
  from cache_free_keeps_slab [OF j(1) d(3-5) n] obtain h' ps' fs' where
    h': "cache_free c a h = Some h'" "cache_ok c (csize c) h' ps' fs' ((frees L)(p := a # frees L p))"
      "set ps' = insert p (set (partials L c))" "set fs' = set (fulls L c) - {p}"
      "within c (header_area (slabs_of L c) \<union> object_area a) h h'" by (auto simp: slabs_of_def)
  define L' where "L' = L\<lparr>partials := (partials L)(c := ps'), fulls := (fulls L)(c := fs'), frees := (frees L)(p := a # frees L p)\<rparr>"
  note w = withinD [OF h'(5)] and s = within_same_heap [OF h'(5) g(1)]
  have sl: "slabs_of L' c = slabs_of L c" "e \<noteq> c \<Longrightarrow> slabs_of L' e = slabs_of L e" for e
    using h'(3,4) d(3) by (auto simp: L'_def slabs_of_def)
  have b: "slab_body c (csize c) h' p (a # frees L p)" using cache_okD(9) [OF h'(2)] h'(3) by auto
  have ok: "heap_ok h' L'"
  proof (rule heap_ok_step [OF d(1,2) s(1), where S = "slabs_of L c"])
    show "hmem h' x = hmem h x" if "page_of x \<notin> slabs_of L c" for x using w(11) object_area_page [OF l] that by blast
    show "slabs_of L c \<inter> slabs_of L e = {}" if "e < 8" "e \<noteq> c" for e using heap_okD(7) [OF d(1) that(1) d(2)] that(2) by blast
    show "cache_part h' L' c"
    proof -
      have "length (frees L' q) < max_objs (csize c)" if "q \<in> set ps'" for q
      proof (cases "q = p")
        case True
        then show ?thesis using b n by (simp add: L'_def slab_body_def)
      next
        case False
        then show ?thesis using that h'(3) j(2) by (simp add: L'_def)
      qed
      then show ?thesis using h'(2) j(3) sl(1) s(2) by (simp add: cache_part_def L'_def)
    qed
    show "slab_record h' q" if "e < 8" "q \<in> slabs_of L e" for e q using cache_partD(3) [OF d(1) that(1)] that(2) s(2) by blast
  qed (use w(10) sl g(2) s(4) d(12) in \<open>auto simp: L'_def\<close>)
  have "slab_blocks L' = slab_blocks L - {(a, csize c)}"
  proof (rule slab_blocks_put [OF d(2,6,8,4)])
    show "used L c p = insert a (if p \<in> slabs_of L' c then used L' c p else {})" "a \<notin> used L' c p"
      using d(4,5,12) sl(1) by (auto simp: used_def L'_def)
  qed (use sl d(11,12) in \<open>auto simp: L'_def\<close>)
  moreover have "(a, csize c) \<notin> large_blocks h" by (rule live_not_large [OF l])
  ultimately have "blocks h' L' = blocks h L - {(a, csize c)}" using s(3) by (auto simp: blocks_def)
  then show ?thesis using h'(1) ok w(4) put_kept [OF d(1,2,10) h'(5)] by blast
qed

lemma cache_free_last:
  assumes l: "live_object h L c p a" and n: "length (frees L p) + 1 = max_objs (csize c)"
  shows "\<exists>h' L'. cache_free c a h = Some h' \<and> heap_ok h' L' \<and> heap_lock h' = heap_lock h \<and>
    blocks h' L' = blocks h L - {(a, csize c)} \<and> kept (blocks h L - {(a, csize c)}) h h'"
proof -
  note d = live_objectD [OF l]
  note j = cache_partD [OF d(1,2)] and g = heap_okD(1,5) [OF d(1)]
  from cache_free_frees_page [OF j(1) d(3-5) n] obtain h1 ps' fs' where
    h1: "cache_free c a h = free_pages_backend p h1" "cache_ok c (csize c) h1 ps' fs' (frees L)"
      "set ps' = set (partials L c) - {p}" "set fs' = set (fulls L c) - {p}"
      "within c (header_area (slabs_of L c) \<union> object_area a) h h1" by (auto simp: slabs_of_def)
  define L' where "L' = L\<lparr>partials := (partials L)(c := ps'), fulls := (fulls L)(c := fs')\<rparr>"
  note w = withinD [OF h1(5)] and s = within_same_heap [OF h1(5) g(1)]
  have sl: "slabs_of L' c = slabs_of L c - {p}" "e \<noteq> c \<Longrightarrow> slabs_of L' e = slabs_of L e" for e
    using h1(3,4) by (auto simp: L'_def slabs_of_def)
  have ok1: "heap_ok h1 L'"
  proof (rule heap_ok_step [OF d(1,2) s(1), where S = "slabs_of L c"])
    show "hmem h1 x = hmem h x" if "page_of x \<notin> slabs_of L c" for x using w(11) object_area_page [OF l] that by blast
    show "slabs_of L c \<inter> slabs_of L e = {}" if "e < 8" "e \<noteq> c" for e using heap_okD(7) [OF d(1) that(1) d(2)] that(2) by blast
    show "cache_part h1 L' c" using h1(2,3) j(2,3) sl(1) s(2) by (simp add: cache_part_def L'_def)
    show "slab_record h1 q" if "e < 8" "q \<in> slabs_of L e" for e q using cache_partD(3) [OF d(1) that(1)] that(2) s(2) by blast
  qed (use w(10) sl g(2) s(4) in \<open>auto simp: L'_def\<close>)
  note g1 = heap_okD(1,5) [OF ok1]
  have "slab_record h1 p" using d(7) s(2) by simp
  then obtain k where k: "k < length (pages h1)" "p = pg h1 k" "pages h1 ! k = slab_rec" by (auto simp: slab_record_def)
  let ?md = "set_run k 1 free_record (pages h1)"
  let ?h = "h1\<lparr>page_metadata := Some ?md\<rparr>"
  note pk = pg_page [OF g1(1) k(1)]
  have "pcount (pages h1 ! k) = 1" using k(3) by (simp add: slab_rec_def)
  then have run: "free_pages_backend p h1 = Some ?h"
    using free_pages_run [OF g1(1) pk(3) refl] pk(4) k(1,2) heap_geometryD(2) [OF g1(1)] by (simp add: pg_def)
  have r: "k + 1 \<le> length (pages h1)" "\<And>i. k \<le> i \<Longrightarrow> i < k + 1 \<Longrightarrow> ptype (pages h1 ! i) \<noteq> PAGE_TYPE_LARGE"
    "\<And>i. i < 1 \<Longrightarrow> \<not> (ptype (free_record i) = PAGE_TYPE_LARGE \<and> pcount (free_record i) \<noteq> 0)"
    using k by (auto simp: slab_rec_def free_record_def page_types le_less_Suc_eq)
  have ok: "heap_ok ?h L'"
  proof (rule heap_ok_pages [OF ok1])
    show "?md ! i = slab_rec" if "i < length (pages h1)" "pages h1 ! i = slab_rec" "\<exists>e < 8. pg h1 i \<in> slabs_of L' e" for i
    proof -
      have "p \<notin> slabs_of L' e" if "e < 8" for e using sl d(11) [OF that] by (cases "e = c") auto
      then have "i \<noteq> k" using that(3) k(2) by blast
      then show ?thesis using that(1,2) by (auto simp: nth_set_run le_less_Suc_eq)
    qed
  qed (use large_run_set(2) [OF g1(2) r] in simp_all)
  have "used L c p = {a}"
  proof -
    have "distinct (frees L p)" "set (frees L p) \<subseteq> slab_objects p (csize c)" using d(9) by (auto simp: slab_body_def)
    then have "card (used L c p) = max_objs (csize c) - length (frees L p)"
      using card_slab_objects [OF d(6) csize_ok [OF d(2)]] by (simp add: used_def card_Diff_subset distinct_card)
    then have "card (used L c p) = 1" using n by simp
    moreover have "a \<in> used L c p" using d(4,5) by (simp add: used_def)
    ultimately show ?thesis by (auto simp: card_1_singleton_iff)
  qed
  then have "slab_blocks L' = slab_blocks L - {(a, csize c)}"
    by (intro slab_blocks_put [OF d(2,6,8,4)]) (use sl d(11,12) in \<open>auto simp: L'_def\<close>)
  moreover have "large_blocks ?h = large_blocks h" using large_blocks_set [OF g1(2) r] s(3) by simp
  ultimately have "blocks ?h L' = blocks h L - {(a, csize c)}" using live_not_large [OF l] by (auto simp: blocks_def)
  moreover have "kept (blocks h L - {(a, csize c)}) h ?h" using put_kept [OF d(1,2,10) h1(5)] by (simp add: kept_def)
  ultimately show ?thesis using h1(1) run ok w(4) by (intro exI [of _ ?h] exI [of _ L']) simp
qed

section \<open>From the address of a block to its page\<close>

lemma slab_lookup:
  assumes i: "heap_ok h L" and b: "(a, n) \<in> slab_blocks L"
  shows "\<exists>c p k. live_object h L c p a \<and> n = csize c \<and> a \<noteq> 0 \<and> virt_to_page_idx h a = of_nat k \<and> of_nat k < total_pages h \<and>
    unat (of_nat k :: u32) = k \<and> page_metadata h = Some (pages h) \<and> arr_get (pages h) k = Some slab_rec \<and> a AND NOT (4096 - 1) = p \<and>
    get_cache p h \<noteq> 0 \<and> cache_index (get_cache p h) h = Some c"
proof -
  note g = heap_okD(1) [OF i]
  obtain c p where c: "c < 8" "n = csize c" "p \<in> slabs_of L c" "a \<in> slab_objects p (csize c)" "a \<notin> set (frees L p)"
    "slab_page p" "slab_record h p" "a \<noteq> 0" by (rule slab_blockE [OF b i]) blast
  have l: "live_object h L c p a" using i c by (simp add: live_object_def)
  have pa: "a AND NOT (4096 - 1) = p" by (rule object_page [OF c(4,6) csize_ok [OF c(1)]])
  obtain k where k: "k < length (pages h)" "p = pg h k" "pages h ! k = slab_rec" using c(7) by (auto simp: slab_record_def)
  note pk = pg_page [OF g k(1)]
  have "virt_to_page_idx h a = of_nat k" using pk(5) pa k(2) by (simp add: page_of_def)
  moreover have "get_cache p h = cache_ptr c h" using live_objectD(9) [OF l] by (simp add: slab_body_def)
  moreover have "arr_get (pages h) k = Some slab_rec" using k(1,3) by (simp add: arr_get_def)
  ultimately show ?thesis
    using l pa c(2,8) pk(3,4) heap_geometryD(1) [OF g] cache_index_ok [OF i c(1)]
    by (intro exI [of _ c] exI [of _ p] exI [of _ k]) simp
qed

lemma large_lookup:
  assumes i: "heap_ok h L" and b: "(a, n) \<in> large_blocks h"
  shows "\<exists>k m. large_run (pages h) k m \<and> a = pg h k \<and> n = m * 4096 \<and> a \<noteq> 0 \<and> virt_to_page_idx h a = of_nat k \<and>
    of_nat k < total_pages h \<and> unat (of_nat k :: u32) = k \<and> page_metadata h = Some (pages h) \<and>
    arr_get (pages h) k = Some (pages h ! k) \<and> ptype (pages h ! k) = PAGE_TYPE_LARGE"
proof -
  note g = heap_okD(1) [OF i]
  from b i obtain k m where k: "large_run (pages h) k m" "a = pg h k" "n = m * 4096" "a \<noteq> 0" by (rule large_blockE)
  have kl: "k < length (pages h)" "ptype (pages h ! k) = PAGE_TYPE_LARGE" using k(1) by (simp_all add: large_run_def)
  note pk = pg_page [OF g kl(1)]
  have "page_of a = pg h k" using in_page [OF pk(2), of 0 1 a] k(2) by (simp add: in_block_def)
  then have "virt_to_page_idx h a = of_nat k" by (rule pk(5))
  then show ?thesis using k kl pk(3,4) heap_geometryD(1) [OF g]
    by (intro exI [of _ k] exI [of _ m]) (simp add: arr_get_def)
qed

section \<open>free\<close>

lemma free_ok:
  assumes inv: "heap_inv h L" and b: "(a, n) \<in> blocks h L"
  shows "\<exists>h' L'. free a h = Some h' \<and> heap_inv h' L' \<and> blocks h' L' = blocks h L - {(a, n)} \<and> kept (blocks h L - {(a, n)}) h h'"
proof -
  let ?h = "h\<lparr>heap_lock := 1\<rparr>"
  from lock_heap_ok [OF inv] have lk: "lock_heap h = Some ?h" and i: "heap_ok ?h L" by simp_all
  have b': "(a, n) \<in> blocks ?h L" using b by simp
  have fin: ?thesis if "free a h = Some (unlock_heap h')" "heap_ok h' L'" "blocks h' L' = blocks h L - {(a, n)}"
    "kept (blocks h L - {(a, n)}) h h'" for h' L'
    using that unlock_heap_ok [OF that(2)] by (intro exI [of _ "unlock_heap h'"] exI [of _ L']) (simp add: unlock_heap_eq)
  show ?thesis
  proof (cases "(a, n) \<in> slab_blocks L")
    case True
    from slab_lookup [OF i True] obtain c p k where s: "live_object ?h L c p a" "n = csize c" "a \<noteq> 0"
      "virt_to_page_idx ?h a = of_nat k" "of_nat k < total_pages ?h" "unat (of_nat k :: u32) = k" "page_metadata ?h = Some (pages ?h)"
      "arr_get (pages ?h) k = Some slab_rec" "a AND NOT (4096 - 1) = p" "get_cache p ?h \<noteq> 0" "cache_index (get_cache p ?h) ?h = Some c"
      by blast
    have "free a h = cache_free c a ?h \<bind> (\<lambda>h. Some (unlock_heap h))"
      using s(3-11) lk unfolding free_def Let_def by (simp add: slab_rec_def del: word_of_nat_less_iff)
    moreover from cache_free_keep [OF s(1)] cache_free_last [OF s(1)] obtain h' L' where
      h': "cache_free c a ?h = Some h'" "heap_ok h' L'" "blocks h' L' = blocks h L - {(a, csize c)}" "kept (blocks h L - {(a, csize c)}) h h'"
      by (cases "length (frees L p) + 1 = max_objs (csize c)") auto
    ultimately have "free a h = Some (unlock_heap h')" by simp
    then show ?thesis by (rule fin) (use h' s(2) in simp_all)
  next
    case False
    then have "(a, n) \<in> large_blocks ?h" using b' by (simp add: blocks_def)
    from large_lookup [OF i this] obtain k m where s: "large_run (pages ?h) k m" "a = pg ?h k" "n = m * 4096" "a \<noteq> 0"
      "virt_to_page_idx ?h a = of_nat k" "of_nat k < total_pages ?h" "unat (of_nat k :: u32) = k" "page_metadata ?h = Some (pages ?h)"
      "arr_get (pages ?h) k = Some (pages ?h ! k)" "ptype (pages ?h ! k) = PAGE_TYPE_LARGE" by blast
    have "free a h = free_pages_backend a ?h \<bind> (\<lambda>h. Some (unlock_heap h))"
      using s(4-10) lk unfolding free_def Let_def by (simp add: page_types del: word_of_nat_less_iff)
    moreover from heap_freed_run [OF i s(1)] s(2,3) obtain h' where
      h': "free_pages_backend a ?h = Some h'" "heap_ok h' L" "blocks h' L = blocks h L - {(a, n)}" "hmem h' = hmem h" by auto
    ultimately have "free a h = Some (unlock_heap h')" by simp
    then show ?thesis by (rule fin) (use h' in \<open>simp_all add: kept_def\<close>)
  qed
qed

lemma old_size_ok:
  assumes i: "heap_ok h L" and b: "(a, n) \<in> blocks h L"
  shows "old_size a h = Some (of_nat n)" "n < 2 ^ 64" "a \<noteq> 0"
proof -
  have "old_size a h = Some (of_nat n) \<and> n < 2 ^ 64 \<and> a \<noteq> 0"
  proof (cases "(a, n) \<in> slab_blocks L")
    case True
    from slab_lookup [OF i True] obtain c p k where s: "live_object h L c p a" "n = csize c" "a \<noteq> 0"
      "virt_to_page_idx h a = of_nat k" "of_nat k < total_pages h" "unat (of_nat k :: u32) = k" "page_metadata h = Some (pages h)"
      "arr_get (pages h) k = Some slab_rec" "a AND NOT (4096 - 1) = p" "get_cache p h \<noteq> 0" "cache_index (get_cache p h) h = Some c"
      by blast
    have c: "c < 8" using live_objectD(2) [OF s(1)] .
    have "get_kmem c h = Some (caches h ! c)" "obj_size (caches h ! c) = of_nat n"
      using cache_okD(1,3) [OF cache_partD(1) [OF i c]] s(2) by (simp_all add: get_kmem_def arr_get_def)
    then have "old_size a h = Some (of_nat n)"
      using s(4-11) unfolding old_size_def Let_def by (simp add: slab_rec_def del: word_of_nat_less_iff)
    moreover have "n < 2 ^ 64" using csize_ok [OF c] s(2) by (simp add: size_ok_def)
    ultimately show ?thesis using s(3) by simp
  next
    case False
    then have "(a, n) \<in> large_blocks h" using b by (simp add: blocks_def)
    from large_lookup [OF i this] obtain k m where s: "large_run (pages h) k m" "a = pg h k" "n = m * 4096" "a \<noteq> 0"
      "virt_to_page_idx h a = of_nat k" "of_nat k < total_pages h" "unat (of_nat k :: u32) = k" "page_metadata h = Some (pages h)"
      "arr_get (pages h) k = Some (pages h ! k)" "ptype (pages h ! k) = PAGE_TYPE_LARGE" by blast
    have u: "unat (pcount (pages h ! k)) = m" using s(1) by (simp add: large_run_def)
    then have "m < 65536" using unat_u16_lt [of "pcount (pages h ! k)"] by simp
    moreover have "(ucast (pcount (pages h ! k)) :: u64) * 4096 = of_nat n"
    proof -
      have "unat (ucast (pcount (pages h ! k)) :: u64) = m"
        using u unat_u16_lt [of "pcount (pages h ! k)"] by (simp add: unsigned_ucast_eq take_bit_nat_eq_self)
      moreover have "unat (of_nat m :: u64) = m" using \<open>m < 65536\<close> by (intro unat_u64_of_nat) simp
      ultimately have "(ucast (pcount (pages h ! k)) :: u64) = of_nat m" by (simp add: word_unat_eq_iff)
      then show ?thesis using s(3) by simp
    qed
    ultimately show ?thesis
      using s(3-10) unfolding old_size_def Let_def by (simp add: page_types del: word_of_nat_less_iff)
  qed
  then show "old_size a h = Some (of_nat n)" "n < 2 ^ 64" "a \<noteq> 0" by blast+
qed

section \<open>Writes of the owner of a block\<close>

text \<open>A slab depends on its header and on the links of its free objects only.\<close>

lemma slab_body_header:
  assumes p: "slab_page p" and m: "\<And>x. in_block p 40 x \<Longrightarrow> hmem h' x = hmem h x"
    and f: "\<And>y x. y \<in> set xs \<Longrightarrow> in_block y 8 x \<Longrightarrow> hmem h' x = hmem h x"
    and at: "caches_at h' = caches_at h" and b: "slab_body c sz h p xs"
  shows "slab_body c sz h' p xs"
proof -
  have sub: "in_block p 40 x" if "in_block (p + of_nat i) n x" "i + n \<le> 40" "0 < n" for i n x
    using that in_page_block [OF p, of i n x] in_page_block [OF p, of 0 40 x] by simp
  have l64: "ld64 (hmem h') (p + of_nat i) = ld64 (hmem h) (p + of_nat i)" if "i + 8 \<le> 40" for i
    by (rule ld64_cong) (use m sub [where n = 8] that in auto)
  have l32: "ld32 (hmem h') (p + of_nat i) = ld32 (hmem h) (p + of_nat i)" if "i + 4 \<le> 40" for i
    by (rule ld32_cong) (use m sub [where n = 4] that in auto)
  have "chain (hmem h') a xs \<longleftrightarrow> chain (hmem h) a xs" for a by (rule chain_cong) (rule ld64_cong, rule f)
  then show ?thesis
    using b l64 [of 16] l64 [of 24] l32 [of 32] l32 [of 36] at
    by (simp add: slab_body_def get_magic_def get_cache_def get_free_list_def get_in_use_def cache_ptr_def)
qed

lemma free_object_byte:
  assumes i: "heap_ok h L" and b: "(a, n) \<in> blocks h L" "in_block a n x" and c: "c < 8" "p \<in> slabs_of L c" "y \<in> set (frees L p)"
  shows "\<not> in_block y 8 x"
proof
  assume x: "in_block y 8 x"
  note j = cache_partD [OF i c(1)]
  have s: "slab_page p" "slab_record h p" "set (frees L p) \<subseteq> slab_objects p (csize c)"
    using j(3,4) c(2) cache_okD(9) [OF j(1)] by (auto simp: slabs_of_def slab_body_def)
  have y: "y \<in> slab_objects p (csize c)" using s(3) c(3) by blast
  have xy: "in_block y (csize c) x" using x csize_ok [OF c(1)] by (simp add: in_block_def size_ok_def)
  have px: "page_of x = p" by (rule object_in_page(1) [OF y s(1) csize_ok [OF c(1)] xy])
  show False
  proof (cases "(a, n) \<in> slab_blocks L")
    case True
    obtain d q where d: "d < 8" "n = csize d" "q \<in> slabs_of L d" "a \<in> slab_objects q (csize d)" "a \<notin> set (frees L q)" "slab_page q"
      "page_of x = q" by (rule slab_blockE [OF True i]) (use b(2) in blast)
    have e: "q = p" "d = c" using px d(7) heap_okD(7) [OF i d(1) c(1) d(3)] c(2) by simp_all
    then have "a \<noteq> y" using d(5) c(3) by auto
    then have "disjoint_blocks a n y (csize c)" using objects_disjoint [of a p "csize c" y p] d(2,4,6) e y csize_ok [OF c(1)] by simp
    then show False using b(2) xy by (auto simp: disjoint_blocks_def)
  next
    case False
    then have "(a, n) \<in> large_blocks h" using b(1) by (simp add: blocks_def)
    then obtain r m where r: "large_run (pages h) r m" and
      rj: "\<forall>y. in_block a n y \<longrightarrow> (\<exists>j. r \<le> j \<and> j < r + m \<and> j < length (pages h) \<and> page_of y = pg h j)"
      using i by (rule large_blockE)
    from rj b(2) px obtain l where l: "r \<le> l" "l < r + m" "l < length (pages h)" "p = pg h l" by auto
    from page_rec_unique [OF heap_okD(1) [OF i] s(2) l(4,3)] run_type [OF heap_okD(5) [OF i] r l(1,2)] show False
      by (simp add: slab_rec_def page_types)
  qed
qed

lemma heap_ok_write:
  assumes i: "heap_ok h L" and b: "(a, n) \<in> blocks h L" and m: "\<And>x. \<not> in_block a n x \<Longrightarrow> m x = hmem h x"
  shows "heap_ok (h\<lparr>hmem := m\<rparr>) L"
proof -
  let ?h = "h\<lparr>hmem := m\<rparr>"
  have "cache_part ?h L c" if c: "c < 8" for c
  proof -
    note j = cache_partD [OF i c]
    note d = cache_okD [OF j(1)]
    have hd: "hmem ?h x = hmem h x" if "p \<in> slabs_of L c" "in_block p 40 x" for p x
    proof -
      have "x \<in> header_area (slabs_of L c)" using that by (auto simp: header_area_def)
      then have "\<not> in_block a n x" using block_byte(1) [OF i b _ c] by blast
      then show ?thesis using m by simp
    qed
    have l: "in_block q 40 x" if "in_block q 16 x" for q x using that by (simp add: in_block_def)
    have "slab_body c (csize c) ?h p (frees L p)" if p: "p \<in> slabs_of L c" for p
    proof (rule slab_body_header)
      show "slab_page p" "slab_body c (csize c) h p (frees L p)" using j(4) d(9) p by (auto simp: slabs_of_def)
      show "hmem ?h x = hmem h x" if "in_block p 40 x" for x using hd [OF p that] .
      show "hmem ?h x = hmem h x" if "y \<in> set (frees L p)" "in_block y 8 x" for y x
        using free_object_byte [OF i b _ c p that(1)] that(2) m [of x] by auto
    qed simp
    moreover have "sl.linked ?h 0 (partials L c)"
      by (rule linked_same [OF d(4)]) (use hd l in \<open>auto simp: slabs_of_def\<close>)
    moreover have "sl.linked ?h 0 (fulls L c)"
      by (rule linked_same [OF d(5)]) (use hd l in \<open>auto simp: slabs_of_def\<close>)
    ultimately have "cache_ok c (csize c) ?h (partials L c) (fulls L c) (frees L)"
      using d(1-3,6-8) by (simp add: cache_ok_def slabs_of_def)
    moreover have "slab_record ?h q = slab_record h q" for q by (simp add: slab_record_def pages_def pg_def page_idx_to_virt_def)
    ultimately show ?thesis using j(2,3) by (simp add: cache_part_def)
  qed
  then show ?thesis using i by (simp add: heap_ok_def heap_geometry_def caches_addr_ok_def pages_def)
qed

lemma blocks_write [simp]: "blocks (h\<lparr>hmem := m\<rparr>) L = blocks h L" "pages (h\<lparr>hmem := m\<rparr>) = pages h"
  by (simp_all add: blocks_def large_blocks_def pages_def pg_def page_idx_to_virt_def)

lemma heap_inv_write:
  assumes i: "heap_inv h L" and b: "(a, n) \<in> blocks h L" and m: "\<And>x. \<not> in_block a n x \<Longrightarrow> m x = hmem h x"
  shows "heap_inv (h\<lparr>hmem := m\<rparr>) L" "kept (blocks h L - {(a, n)}) h (h\<lparr>hmem := m\<rparr>)"
proof -
  have o: "heap_ok h L" using i by (simp add: heap_inv_def)
  show "heap_inv (h\<lparr>hmem := m\<rparr>) L" using heap_ok_write [OF o b m] i by (simp add: heap_inv_def)
  show "kept (blocks h L - {(a, n)}) h (h\<lparr>hmem := m\<rparr>)"
  proof (rule keptI)
    fix b' k y assume y: "(b', k) \<in> blocks h L - {(a, n)}" "in_block b' k y"
    then have "\<not> in_block a n y" using blocks_apart [OF o _ b y(2)] by auto
    then show "hmem (h\<lparr>hmem := m\<rparr>) y = hmem h y" using m by simp
  qed
qed

section \<open>calloc and realloc\<close>

lemma calloc_ok:
  assumes inv: "heap_inv h L" and t: "num * sz \<noteq> 0"
  shows "\<exists>a h' L'. calloc num sz h = Some (a, h') \<and> heap_inv h' L' \<and> kept (blocks h L) h h' \<and>
    (a = 0 \<and> blocks h' L' = blocks h L \<and> (\<forall>s. \<not> run_free (pages h) ((unat (num * sz) + 4095) div 4096) s) \<or>
     a \<noteq> 0 \<and> (a, capacity (unat (num * sz))) \<notin> blocks h L \<and>
     blocks h' L' = insert (a, capacity (unat (num * sz))) (blocks h L) \<and>
     (\<forall>x. in_block a (unat (num * sz)) x \<longrightarrow> hmem h' x = 0))"
proof -
  let ?t = "num * sz"
  let ?n = "capacity (unat ?t)"
  from malloc_ok [OF inv t] obtain a h1 L' where m: "malloc ?t h = Some (a, h1)" "heap_inv h1 L'" "kept (blocks h L) h h1"
    "a = 0 \<and> blocks h1 L' = blocks h L \<and> (\<forall>s. \<not> run_free (pages h) ((unat ?t + 4095) div 4096) s) \<or>
     a \<noteq> 0 \<and> (a, ?n) \<notin> blocks h L \<and> blocks h1 L' = insert (a, ?n) (blocks h L)" by blast
  show ?thesis
  proof (cases "a = 0")
    case True
    then show ?thesis using m by (intro exI [of _ a] exI [of _ h1] exI [of _ L']) (simp add: calloc_def)
  next
    case False
    let ?m = "memset a 0 ?t (hmem h1)"
    have f: "?m = filled (hmem h1) a 0 (unat ?t)" by (simp add: memset_filled)
    have b: "(a, ?n) \<in> blocks h1 L'" "blocks h1 L' = insert (a, ?n) (blocks h L)" "(a, ?n) \<notin> blocks h L" using m(4) False by auto
    have out: "?m x = hmem h1 x" if "\<not> in_block a ?n x" for x
      using that capacity_ge [of "unat ?t"] by (auto simp: f filled_def in_block_def)
    note w = heap_inv_write [OF m(2) b(1) out]
    have "blocks h1 L' - {(a, ?n)} = blocks h L" using b(2,3) by auto
    then have "kept (blocks h L) h (h1\<lparr>hmem := ?m\<rparr>)" using kept_trans [OF m(3)] w(2) by simp
    then show ?thesis using m(1) False w(1) b
      by (intro exI [of _ a] exI [of _ "h1\<lparr>hmem := ?m\<rparr>"] exI [of _ L']) (simp add: calloc_def f filled_def)
  qed
qed

lemma realloc_grow:
  assumes inv: "heap_inv h L" and b: "(a, n) \<in> blocks h L" and nz: "new_size \<noteq> 0" and gt: "n < unat new_size"
  shows "\<exists>b h' L'. realloc a new_size h = Some (b, h') \<and> heap_inv h' L' \<and>
    (b = 0 \<and> blocks h' L' = blocks h L \<and> kept (blocks h L) h h' \<or>
     b \<noteq> 0 \<and> (b, capacity (unat new_size)) \<notin> blocks h L \<and>
     blocks h' L' = insert (b, capacity (unat new_size)) (blocks h L - {(a, n)}) \<and> kept (blocks h L - {(a, n)}) h h' \<and>
     ld_bytes (hmem h') b n = ld_bytes (hmem h) a n)"
proof -
  let ?h = "h\<lparr>heap_lock := 1\<rparr>" and ?k = "capacity (unat new_size)" and ?B = "blocks h L"
  from lock_heap_ok [OF inv] have lk: "lock_heap h = Some ?h" and i: "heap_ok ?h L" by simp_all
  have b': "(a, n) \<in> blocks ?h L" using b by simp
  note o = old_size_ok [OF i b']
  have u: "unat (of_nat n :: u64) = n" using o(2) by (intro unat_u64_of_nat) simp
  have un: "unlock_heap ?h = h" using inv by (cases h) (simp add: unlock_heap_eq heap_inv_def)
  have le: "\<not> new_size \<le> of_nat n" using gt u by (simp add: word_le_nat_alt)
  have run: "realloc a new_size h = malloc new_size h \<bind> (\<lambda>(b, h). if b \<noteq> 0 then do {
      h \<leftarrow> free a (h\<lparr>hmem := memcpy b a (of_nat n) (hmem h)\<rparr>); Some (b, h) } else Some (b, h))"
    using o(1,3) nz lk le by (simp add: realloc_def un Let_def)
  from malloc_ok [OF inv nz] obtain c h1 L1 where m: "malloc new_size h = Some (c, h1)" "heap_inv h1 L1" "kept ?B h h1"
    "c = 0 \<and> blocks h1 L1 = ?B \<or> c \<noteq> 0 \<and> (c, ?k) \<notin> ?B \<and> blocks h1 L1 = insert (c, ?k) ?B" by blast
  show ?thesis
  proof (cases "c = 0")
    case True
    then show ?thesis using run m by (intro exI [of _ c] exI [of _ h1] exI [of _ L1]) simp
  next
    case False
    then have B: "(c, ?k) \<notin> ?B" "blocks h1 L1 = insert (c, ?k) ?B" using m(4) by auto
    have i1: "heap_ok h1 L1" using m(2) by (simp add: heap_inv_def)
    have kn: "n \<le> ?k" using gt capacity_ge [of "unat new_size"] by simp
    have dis: "disjoint_blocks c n a n"
      unfolding disjoint_blocks_def
    proof (intro allI notI)
      fix x assume x: "in_block c n x \<and> in_block a n x"
      then have "in_block c ?k x" using kn by (simp add: in_block_def)
      then have "c = a \<and> ?k = n" using blocks_apart [OF i1, of c ?k a n x] B(2) b x by simp
      then show False using B(1) b by simp
    qed
    let ?m = "memcpy c a (of_nat n) (hmem h1)"
    have cp: "?m = copied (hmem h1) c a n" using memcpy_copied [of c "of_nat n" a "hmem h1"] dis u by simp
    let ?h2 = "h1\<lparr>hmem := ?m\<rparr>"
    have out: "?m x = hmem h1 x" if "\<not> in_block c ?k x" for x
    proof -
      have "\<not> in_block c n x" using that kn by (simp add: in_block_def)
      then show ?thesis using cp by (simp add: copied_out)
    qed
    have c1: "(c, ?k) \<in> blocks h1 L1" using B(2) by simp
    note w = heap_inv_write [OF m(2) c1 out]
    have a2: "(a, n) \<in> blocks ?h2 L1" using B(2) b by simp
    from free_ok [OF w(1) a2] obtain h' L' where f: "free a ?h2 = Some h'" "heap_inv h' L'"
      "blocks h' L' = insert (c, ?k) ?B - {(a, n)}" "kept (insert (c, ?k) ?B - {(a, n)}) ?h2 h'" using B(2) by auto
    have ne: "insert (c, ?k) ?B - {(a, n)} = insert (c, ?k) (?B - {(a, n)})" using B(1) b by auto
    have old: "kept (?B - {(a, n)}) h h'"
    proof (rule keptI)
      fix d j y assume y: "(d, j) \<in> ?B - {(a, n)}" "in_block d j y"
      have "hmem h1 y = hmem h y" by (rule keptD [OF m(3) _ y(2)]) (use y(1) in blast)
      moreover have "hmem ?h2 y = hmem h1 y" by (rule keptD [OF w(2) _ y(2)]) (use y(1) B in auto)
      moreover have "hmem h' y = hmem ?h2 y" by (rule keptD [OF f(4) _ y(2)]) (use y(1) B in auto)
      ultimately show "hmem h' y = hmem h y" by simp
    qed
    have "ld_bytes (hmem h') c n = ld_bytes ?m c n"
    proof (rule ld_bytes_cong)
      show "n \<le> 2 ^ 64" using o(2) by simp
      show "hmem h' x = ?m x" if "in_block c n x" for x
      proof -
        have "in_block c ?k x" using that kn by (simp add: in_block_def)
        then show ?thesis using keptD [OF f(4), of c ?k x] unfolding ne by simp
      qed
    qed
    also have "\<dots> = ld_bytes (hmem h1) a n" using o(2) by (simp add: cp ld_bytes_copied)
    also have "\<dots> = ld_bytes (hmem h) a n"
    proof (rule ld_bytes_cong)
      show "n \<le> 2 ^ 64" using o(2) by simp
      show "hmem h1 x = hmem h x" if "in_block a n x" for x by (rule keptD [OF m(3) b that])
    qed
    finally have "ld_bytes (hmem h') c n = ld_bytes (hmem h) a n" .
    then show ?thesis using run m(1) False f(1-3) B(1) old unfolding ne
      by (intro exI [of _ c] exI [of _ h'] exI [of _ L']) simp
  qed
qed

lemma realloc_shrink:
  assumes inv: "heap_inv h L" and b: "(a, n) \<in> blocks h L" and nz: "new_size \<noteq> 0" and le: "unat new_size \<le> n"
  shows "realloc a new_size h = Some (a, h)"
proof -
  let ?h = "h\<lparr>heap_lock := 1\<rparr>"
  from lock_heap_ok [OF inv] have lk: "lock_heap h = Some ?h" and i: "heap_ok ?h L" by simp_all
  have b': "(a, n) \<in> blocks ?h L" using b by simp
  note o = old_size_ok [OF i b']
  have u: "unat (of_nat n :: u64) = n" using o(2) by (intro unat_u64_of_nat) simp
  have un: "unlock_heap ?h = h" using inv by (cases h) (simp add: unlock_heap_eq heap_inv_def)
  have "new_size \<le> of_nat n" using le u by (simp add: word_le_nat_alt)
  then show ?thesis using o(1,3) nz lk by (simp add: realloc_def un Let_def)
qed

section \<open>Initialisation\<close>

definition no_slabs :: layout where
  "no_slabs = \<lparr>partials = (\<lambda>_. []), fulls = (\<lambda>_. []), frees = (\<lambda>_. [])\<rparr>"

text \<open>
  \<open>heap_init\<close> on the region of \<open>sz\<close> bytes at \<open>start\<close>: \<open>s\<close> is the first page boundary, \<open>t\<close> the number of pages and
  \<open>r\<close> the number of pages reserved for the page table.
\<close>

definition init_args :: "u64 \<Rightarrow> u64 \<Rightarrow> nat \<Rightarrow> nat \<Rightarrow> nat \<Rightarrow> bool" where
  "init_args start sz s t r \<longleftrightarrow> s = (unat start + 4095) div 4096 * 4096 \<and> 0 < s \<and> s - unat start \<le> unat sz \<and>
     t = (unat sz - (s - unat start)) div 4096 \<and> r = (t * 4 + 4095) div 4096 \<and> r < t \<and> t < 65536 \<and> s + t * 4096 < 2 ^ 64"

definition reserved_rec :: page_info where "reserved_rec = \<lparr>ptype = PAGE_TYPE_LARGE, pcount = 1\<rparr>"

definition init_table :: "nat \<Rightarrow> nat \<Rightarrow> page_info list" where
  "init_table r t = set_run 0 r (\<lambda>_. reserved_rec) (replicate t \<lparr>ptype = 0, pcount = 0\<rparr>)"

lemma init_table_nth: "k < t \<Longrightarrow> init_table r t ! k = (if k < r then reserved_rec else \<lparr>ptype = 0, pcount = 0\<rparr>)"
  "length (init_table r t) = t"
  by (simp_all add: init_table_def nth_set_run)

lemma init_table_run:
  assumes "r \<le> t"
  shows "large_run (init_table r t) i n \<longleftrightarrow> i < r \<and> n = 1" "pages_ok (init_table r t)" "free_page (init_table r t) k \<longleftrightarrow> r \<le> k \<and> k < t"
proof -
  show l: "large_run (init_table r t) i n \<longleftrightarrow> i < r \<and> n = 1" for i n
    using assms by (cases "i < t") (auto simp: large_run_def init_table_nth reserved_rec_def page_types)
  show "pages_ok (init_table r t)" using assms by (auto simp: pages_ok_def l init_table_nth)
  show "free_page (init_table r t) k \<longleftrightarrow> r \<le> k \<and> k < t"
    by (cases "k < t") (auto simp: free_page_def init_table_nth reserved_rec_def page_types)
qed

lemma heap_init_run:
  assumes "init_args start sz s t r"
  shows "heap_init start sz h = Some (h\<lparr>total_pages := of_nat t, heap_start_addr := of_nat s, heap_end_addr := of_nat (s + t * 4096),
    page_metadata := Some (init_table r t),
    caches := map (\<lambda>s. \<lparr>slabs_partial = 0, slabs_full = 0, slabs_free = 0, obj_size = s\<rparr>) slab_sizes, heap_lock := 0\<rparr>)"
proof -
  have sd: "s = (unat start + 4095) div 4096 * 4096" and a: "0 < s" "s - unat start \<le> unat sz"
    "t = (unat sz - (s - unat start)) div 4096" "r = (t * 4 + 4095) div 4096" "r < t" "t < 65536" "s + t * 4096 < 2 ^ 64"
    using assms unfolding init_args_def by blast+
  have st: "unat start + 4095 < 2 ^ 64"
  proof (rule ccontr)
    assume "\<not> ?thesis"
    then have "(2 ^ 64 :: nat) div 4096 \<le> (unat start + 4095) div 4096" by (intro div_le_mono) simp
    then have "(2 ^ 64 :: nat) \<le> s" unfolding sd by simp
    then show False using a(7) by simp
  qed
  define as where "as = (start + 4096 - 1) AND NOT (4096 - 1)"
  have us: "unat as = s" unfolding as_def sd by (rule unat_page_ceil [OF st])
  then have as: "as = of_nat s" unfolding us [symmetric] by simp
  have ge: "unat start \<le> s" unfolding sd using div_mult_mod_eq [of "unat start + 4095" 4096] mod_less_divisor [of 4096 "unat start + 4095"] by simp
  then have d: "unat (as - start) = s - unat start" using us by (simp add: unat_sub_no_wrap word_le_nat_alt)
  have nd: "\<not> sz < as - start" using d a(2) by (simp add: word_less_nat_alt)
  have "unat (sz - (as - start)) = unat sz - (s - unat start)" using d a(2) by (subst unat_sub_no_wrap) (simp_all add: word_le_nat_alt)
  then have "unat ((sz - (as - start)) div 4096) = t" using a(3) by (simp add: unat_div_distrib)
  moreover have ut: "unat (of_nat t :: u32) = t" using a(6) by (intro unat_u32_of_nat) simp
  ultimately have tp: "(ucast ((sz - (as - start)) div 4096) :: u32) = of_nat t"
    using a(6) by (simp add: word_unat_eq_iff unsigned_ucast_eq take_bit_nat_eq_self)
  have t0: "(of_nat t :: u32) \<noteq> 0" using ut a(5) by auto
  have e: "as + ucast ((of_nat t :: u32) * 4096) = of_nat (s + t * 4096)"
  proof -
    have "unat ((of_nat t :: u32) * 4096) = t * 4096" using a(6) ut by (subst unat_mult_no_wrap) simp_all
    moreover have "unat (of_nat (t * 4096) :: u64) = t * 4096" by (rule unat_u64_of_nat) (use a(6) in simp)
    ultimately have "(ucast ((of_nat t :: u32) * 4096) :: u64) = of_nat (t * 4096)"
      by (simp only: word_unat_eq_iff unat_ucast_u32_u64)
    then show ?thesis using as by simp
  qed
  have ms: "unat (((ucast (of_nat t :: u32) :: u64) * 4 + 4096 - 1) div 4096) = r"
  proof -
    have "unat ((ucast (of_nat t :: u32) :: u64) * 4) = t * 4" using a(6) ut by (subst unat_mult_no_wrap) simp_all
    then show ?thesis using a(4,6) by (subst pages_needed) simp
  qed
  have le: "\<not> (ucast (of_nat t :: u32) :: u64) \<le> ((ucast (of_nat t :: u32) :: u64) * 4 + 4096 - 1) div 4096"
    using ms ut a(5) by (simp only: word_le_nat_alt unat_ucast_u32_u64)
  have lp: "for_loop 0 r (\<lambda>i md. arr_set md i \<lparr>ptype = PAGE_TYPE_LARGE, pcount = 1\<rparr>) (replicate t \<lparr>ptype = 0, pcount = 0\<rparr>) = Some (init_table r t)"
    unfolding init_table_def using a(5) by (intro for_loop_set_run [where len = t]) (simp_all add: reserved_rec_def)
  have "heap_init start sz h = Some (h\<lparr>total_pages := of_nat t, heap_start_addr := as,
    heap_end_addr := as + ucast ((of_nat t :: u32) * 4096), page_metadata := Some (init_table r t),
    caches := map (\<lambda>s. \<lparr>slabs_partial = 0, slabs_full = 0, slabs_free = 0, obj_size = s\<rparr>) slab_sizes, heap_lock := 0\<rparr>)"
    unfolding heap_init_def Let_def as_def [symmetric] using nd ms le
    by (simp add: tp t0 lp ut pthread_spin_init_def)
  then show ?thesis unfolding e unfolding as .
qed

lemma empty_cache:
  assumes "c < 8" "caches h = map (\<lambda>s. \<lparr>slabs_partial = 0, slabs_full = 0, slabs_free = 0, obj_size = s\<rparr>) slab_sizes"
  shows "cache_ok c (csize c) h [] [] F"
proof -
  have "caches h = map (\<lambda>c. \<lparr>slabs_partial = 0, slabs_full = 0, slabs_free = 0, obj_size = of_nat (csize c)\<rparr>) [0..<8]"
    unfolding assms(2) by (simp add: slab_sizes_def csize_def upt_rec)
  then show ?thesis using assms(1) csize_ok [OF assms(1)] by (simp add: cache_ok_def sl.linked_def)
qed

lemma heap_init_inv:
  assumes a: "init_args start sz s t r" and c: "caches_addr_ok h"
  shows "\<exists>h'. heap_init start sz h = Some h' \<and> heap_inv h' no_slabs \<and> hmem h' = hmem h \<and> unat (heap_start_addr h') = s \<and>
    length (pages h') = t \<and> (\<forall>k. free_page (pages h') k \<longleftrightarrow> r \<le> k \<and> k < t) \<and>
    blocks h' no_slabs = {(of_nat (s + i * 4096), 4096) | i. i < r}"
proof -
  define h' where "h' = h\<lparr>total_pages := of_nat t, heap_start_addr := of_nat s, heap_end_addr := of_nat (s + t * 4096),
    page_metadata := Some (init_table r t),
    caches := map (\<lambda>s. \<lparr>slabs_partial = 0, slabs_full = 0, slabs_free = 0, obj_size = s\<rparr>) slab_sizes, heap_lock := 0\<rparr>"
  have b: "s = (unat start + 4095) div 4096 * 4096" "0 < s" "r < t" "t < 65536" "s + t * 4096 < 2 ^ 64"
    using a unfolding init_args_def by blast+
  have u: "unat (of_nat t :: u32) = t" "unat (of_nat s :: u64) = s" "unat (of_nat (s + t * 4096) :: u64) = s + t * 4096"
  proof -
    show "unat (of_nat t :: u32) = t" by (rule unat_u32_of_nat) (use b(4) in simp)
    show "unat (of_nat s :: u64) = s" by (rule unat_u64_of_nat) (use b(5) in simp)
    show "unat (of_nat (s + t * 4096) :: u64) = s + t * 4096" by (rule unat_u64_of_nat) (use b(5) in simp)
  qed
  have f: "pages h' = init_table r t" "heap_start_addr h' = of_nat s" "total_pages h' = of_nat t" "length (caches h') = 8"
    "caches h' = map (\<lambda>s. \<lparr>slabs_partial = 0, slabs_full = 0, slabs_free = 0, obj_size = s\<rparr>) slab_sizes"
    "caches_at h' = caches_at h" "heap_lock h' = 0" "hmem h' = hmem h" "page_metadata h' = Some (init_table r t)"
    by (simp_all add: h'_def pages_def slab_sizes_def)
  have f': "heap_end_addr h' = of_nat (s + t * 4096)" by (simp add: h'_def)
  have "4096 dvd s" unfolding b(1) by simp
  moreover have "(of_nat s :: u64) \<noteq> 0" using u(2) b(2) by auto
  moreover have "unat (heap_end_addr h') = unat (heap_start_addr h') + unat (total_pages h') * 4096"
    unfolding f f' unfolding u ..
  ultimately have geo: "heap_geometry h'" using f(2,3,9) u init_table_nth(2) by (simp add: heap_geometry_def)
  have le: "r \<le> t" using b(3) by simp
  note tab = init_table_run [OF le]
  have "cache_part h' no_slabs c" if "c < 8" for c
    using empty_cache [OF that f(5)] by (simp add: cache_part_def no_slabs_def slabs_of_def)
  then have ok: "heap_ok h' no_slabs"
    using geo b(4) u(1) c tab(2) f by (simp add: heap_ok_def caches_addr_ok_def slabs_of_def no_slabs_def)
  have lb: "large_blocks h' = {(pg h' i, 4096) | i. i < r}" unfolding large_blocks_def f(1) tab(1) by auto
  have ad: "pg h' i = of_nat (s + i * 4096)" if "i < r" for i
  proof -
    have "i < length (pages h')" unfolding f(1) using that b(3) init_table_nth(2) by simp
    then have "unat (pg h' i) = s + 4096 * i" using pg_page(1) [OF geo] u(2) f(2) by simp
    moreover have "unat (of_nat (s + i * 4096) :: u64) = s + i * 4096"
      by (rule unat_u64_of_nat) (use b(3,5) that in simp)
    ultimately show ?thesis by (simp only: word_unat_eq_iff mult.commute)
  qed
  have "large_blocks h' = {(of_nat (s + i * 4096), 4096) | i. i < r}" unfolding lb by (rule Collect_cong) (metis ad)
  moreover have "slab_blocks no_slabs = {}" by (simp add: slab_blocks_def slabs_of_def no_slabs_def)
  ultimately have "blocks h' no_slabs = {(of_nat (s + i * 4096), 4096) | i. i < r}" by (simp add: blocks_def)
  moreover have "heap_inv h' no_slabs" using ok f(7) by (simp add: heap_inv_def)
  ultimately show ?thesis using heap_init_run [OF a, of h, folded h'_def] u(2) f(1,2,8) tab(3) init_table_nth(2)
    by (intro exI [of _ h']) simp
qed

section \<open>Programs that use the heap\<close>

text \<open>
  The pages at the start of the heap in which \<open>heap_init\<close> puts its table. The model keeps the table as a list
  apart from the memory, which is right as long as nobody writes into these pages.
\<close>

definition metadata_pages :: "u64 \<Rightarrow> u64 \<Rightarrow> (u64 \<times> nat) set" where
  "metadata_pages start sz =
     (let s = (unat start + 4095) div 4096 * 4096;
          t = (unat sz - (s - unat start)) div 4096
      in {(of_nat (s + i * 4096), 4096) | i. i < (t * 4 + 4095) div 4096})"

lemma init_args_metadata: "init_args start sz s t r \<Longrightarrow> metadata_pages start sz = {(of_nat (s + i * 4096), 4096) | i. i < r}"
  by (simp add: metadata_pages_def init_args_def Let_def)

text \<open>
  Any sequence of calls after \<open>heap_init\<close>, with the blocks its callers own, none at first: they allocate, free blocks
  they own and write into them. What they know of the blocks comes from the results of the calls alone. They own no
  page of the table, so they neither free one nor write into one.
\<close>

inductive heap_run :: "u64 \<Rightarrow> u64 \<Rightarrow> heap \<Rightarrow> (u64 \<times> nat) set \<Rightarrow> bool" for start sz where
  init: "init_args start sz s t r \<Longrightarrow> caches_addr_ok h \<Longrightarrow> heap_init start sz h = Some h' \<Longrightarrow> heap_run start sz h' {}"
| alloc: "heap_run start sz h B \<Longrightarrow> malloc n h = Some (a, h') \<Longrightarrow>
    heap_run start sz h' (if a = 0 then B else insert (a, capacity (unat n)) B)"
| release: "heap_run start sz h B \<Longrightarrow> (a, n) \<in> B \<Longrightarrow> free a h = Some h' \<Longrightarrow> heap_run start sz h' (B - {(a, n)})"
| modify: "heap_run start sz h B \<Longrightarrow> (a, n) \<in> B \<Longrightarrow> (\<And>x. \<not> in_block a n x \<Longrightarrow> m x = hmem h x) \<Longrightarrow>
    heap_run start sz (h\<lparr>hmem := m\<rparr>) B"


lemma blocks_disjoint:
  assumes "heap_inv h L" "(a, n) \<in> blocks h L" "(b, k) \<in> blocks h L" "(a, n) \<noteq> (b, k)"
  shows "disjoint_blocks a n b k"
  using blocks_apart [of h L a n b k] assms by (auto simp: disjoint_blocks_def heap_inv_def)

lemma block_aligned: "heap_inv h L \<Longrightarrow> (a, n) \<in> blocks h L \<Longrightarrow> aligned8 a"
proof -
  assume i: "heap_inv h L" and b: "(a, n) \<in> blocks h L"
  have o: "heap_ok h L" using i by (simp add: heap_inv_def)
  show "aligned8 a"
  proof (cases "(a, n) \<in> slab_blocks L")
    case True
    show ?thesis by (rule slab_blockE [OF True o])
  next
    case False
    then have "(a, n) \<in> large_blocks h" using b by (simp add: blocks_def)
    then show ?thesis using o by (rule large_blockE)
  qed
qed

section \<open>Properties\<close>

lemma demo_init:
  "\<exists>h. heap_init 0x50000000 0x8000 demo_heap = Some h \<and> heap_inv h no_slabs \<and> blocks h no_slabs = {(0x50000000, 4096)} \<and>
     (\<forall>k. free_page (pages h) k \<longleftrightarrow> 1 \<le> k \<and> k < 8) \<and> heap_run 0x50000000 0x8000 h {} \<and>
     metadata_pages 0x50000000 0x8000 = {(0x50000000, 4096)}"
proof -
  have a: "init_args 0x50000000 0x8000 0x50000000 8 1" by (simp add: init_args_def)
  have c: "caches_addr_ok demo_heap" by (simp add: caches_addr_ok_def demo_heap_def)
  from heap_init_inv [OF a c] obtain h where h: "heap_init 0x50000000 0x8000 demo_heap = Some h" "heap_inv h no_slabs"
    "\<forall>k. free_page (pages h) k \<longleftrightarrow> 1 \<le> k \<and> k < 8" "blocks h no_slabs = {(of_nat (0x50000000 + i * 4096), 4096) | i. i < 1}" by blast
  have e: "{(of_nat (0x50000000 + i * 4096) :: u64, 4096 :: nat) | i. i < (1 :: nat)} = {(0x50000000, 4096)}" by auto
  have "heap_run 0x50000000 0x8000 h {}" by (rule heap_run.init [OF a c h(1)])
  then show ?thesis using h init_args_metadata [OF a] unfolding e by blast
qed

text \<open>
  C3. \<open>malloc\<close> on a heap that satisfies the invariant never fails: it keeps the invariant and the contents of all
  live blocks, and returns either null, only for size zero or when no run of enough free pages is left, or the
  8-aligned address of a new block of at least the wanted size that overlaps no live block.
\<close>

theorem malloc_correct:
  assumes "heap_inv h L"
  shows "\<exists>a h' L'. malloc sz h = Some (a, h') \<and> heap_inv h' L' \<and> kept (blocks h L) h h' \<and>
    (if a = 0 then blocks h' L' = blocks h L \<and> (sz = 0 \<or> (\<forall>s. \<not> run_free (pages h) ((unat sz + 4095) div 4096) s))
     else aligned8 a \<and> unat sz \<le> capacity (unat sz) \<and> blocks h' L' = insert (a, capacity (unat sz)) (blocks h L) \<and>
       (\<forall>(b, k) \<in> blocks h L. disjoint_blocks a (capacity (unat sz)) b k))"
proof (cases "sz = 0")
  case True
  then show ?thesis using assms by (intro exI [of _ 0] exI [of _ h] exI [of _ L]) (simp add: malloc_def kept_def)
next
  case False
  let ?n = "capacity (unat sz)"
  from malloc_ok [OF assms False] obtain a h' L' where m: "malloc sz h = Some (a, h')" "heap_inv h' L'" "kept (blocks h L) h h'"
    "a = 0 \<and> blocks h' L' = blocks h L \<and> (\<forall>s. \<not> run_free (pages h) ((unat sz + 4095) div 4096) s) \<or>
     a \<noteq> 0 \<and> (a, ?n) \<notin> blocks h L \<and> blocks h' L' = insert (a, ?n) (blocks h L)" by blast
  have "aligned8 a \<and> (\<forall>(b, k) \<in> blocks h L. disjoint_blocks a ?n b k)" if "a \<noteq> 0"
    using blocks_disjoint [OF m(2), of a ?n] block_aligned [OF m(2), of a ?n] m(4) that by auto
  then show ?thesis using m capacity_ge [of "unat sz"] by (intro exI [of _ a] exI [of _ h'] exI [of _ L']) auto
qed

theorem malloc_correct_witness:
  "\<exists>h a h' L'. heap_init 0x50000000 0x8000 demo_heap = Some h \<and> malloc 24 h = Some (a, h') \<and> a \<noteq> 0 \<and> heap_inv h' L' \<and>
     blocks h' L' = {(a, 32), (0x50000000, 4096)} \<and> disjoint_blocks a 32 0x50000000 4096"
proof -
  from demo_init obtain h where h: "heap_init 0x50000000 0x8000 demo_heap = Some h" "heap_inv h no_slabs"
    "blocks h no_slabs = {(0x50000000, 4096)}" "\<forall>k. free_page (pages h) k \<longleftrightarrow> 1 \<le> k \<and> k < 8" by blast
  have "capacity 24 = 32" by (simp add: capacity_def)
  moreover have "run_free (pages h) 1 1" using h(4) by (simp add: run_free_def)
  ultimately show ?thesis using malloc_correct [OF h(2), of 24] h(1,3) by (auto split: if_splits)
qed

text \<open>
  C4. \<open>free\<close> of a live block, small or large, never fails: it keeps the invariant, takes exactly this block away and
  changes no byte of any other live block.
\<close>

theorem free_correct:
  assumes "heap_inv h L" "(a, n) \<in> blocks h L"
  shows "\<exists>h' L'. free a h = Some h' \<and> heap_inv h' L' \<and> blocks h' L' = blocks h L - {(a, n)} \<and> kept (blocks h L - {(a, n)}) h h'"
  by (rule free_ok [OF assms])

theorem free_correct_witness:
  "\<exists>h a h1 h' L'. heap_init 0x50000000 0x8000 demo_heap = Some h \<and> malloc 24 h = Some (a, h1) \<and> a \<noteq> 0 \<and> free a h1 = Some h' \<and>
     heap_inv h' L' \<and> blocks h' L' = {(0x50000000, 4096)}"
proof -
  from demo_init obtain h where h: "heap_init 0x50000000 0x8000 demo_heap = Some h" "heap_inv h no_slabs"
    "blocks h no_slabs = {(0x50000000, 4096)}" "\<forall>k. free_page (pages h) k \<longleftrightarrow> 1 \<le> k \<and> k < 8" by blast
  have c: "capacity 24 = 32" by (simp add: capacity_def)
  have "run_free (pages h) 1 1" using h(4) by (simp add: run_free_def)
  then obtain a h1 L1 where m: "malloc 24 h = Some (a, h1)" "heap_inv h1 L1" "a \<noteq> 0" "blocks h1 L1 = {(a, 32), (0x50000000, 4096)}"
    using malloc_ok [OF h(2), of 24] h(3) c by auto
  have "(a, 32) \<in> blocks h1 L1" using m(4) by simp
  from free_correct [OF m(2) this] m(4) show ?thesis using h(1) m(1,3) by auto
qed

text \<open>
  \<open>calloc\<close> with a product that does not overflow returns null, only when the product is zero or no run of free
  pages is left, or a new block of at least the wanted size, all of whose wanted bytes are zero.
\<close>

theorem calloc_correct:
  assumes "heap_inv h L" "unat num * unat sz < 2 ^ 64"
  shows "\<exists>a h' L'. calloc num sz h = Some (a, h') \<and> heap_inv h' L' \<and> kept (blocks h L) h h' \<and>
    (if a = 0 then blocks h' L' = blocks h L \<and>
       (unat num * unat sz = 0 \<or> (\<forall>s. \<not> run_free (pages h) ((unat num * unat sz + 4095) div 4096) s))
     else unat num * unat sz \<le> capacity (unat num * unat sz) \<and> (a, capacity (unat num * unat sz)) \<notin> blocks h L \<and>
       blocks h' L' = insert (a, capacity (unat num * unat sz)) (blocks h L) \<and>
       (\<forall>x. in_block a (unat num * unat sz) x \<longrightarrow> hmem h' x = 0))"
proof -
  have u: "unat (num * sz) = unat num * unat sz" using assms(2) by (intro unat_mult_no_wrap) simp
  show ?thesis
  proof (cases "num * sz = 0")
    case True
    then have "unat num * unat sz = 0" using u by simp
    then show ?thesis using assms(1) True by (intro exI [of _ 0] exI [of _ h] exI [of _ L]) (simp add: calloc_def malloc_def kept_def)
  next
    case False
    from calloc_ok [OF assms(1) this, unfolded u] obtain a h' L' where m: "calloc num sz h = Some (a, h')" "heap_inv h' L'"
      "kept (blocks h L) h h'"
      "a = 0 \<and> blocks h' L' = blocks h L \<and> (\<forall>s. \<not> run_free (pages h) ((unat num * unat sz + 4095) div 4096) s) \<or>
       a \<noteq> 0 \<and> (a, capacity (unat num * unat sz)) \<notin> blocks h L \<and>
       blocks h' L' = insert (a, capacity (unat num * unat sz)) (blocks h L) \<and>
       (\<forall>x. in_block a (unat num * unat sz) x \<longrightarrow> hmem h' x = 0)" by blast
    have "unat num * unat sz \<le> capacity (unat num * unat sz)" by (rule capacity_ge)
    then show ?thesis using m by (intro exI [of _ a] exI [of _ h'] exI [of _ L']) (cases "a = 0", simp_all)
  qed
qed

theorem calloc_correct_witness:
  "\<exists>h a h'. heap_init 0x50000000 0x8000 demo_heap = Some h \<and> calloc 3 8 h = Some (a, h') \<and> a \<noteq> 0 \<and>
     (\<forall>x. in_block a 24 x \<longrightarrow> hmem h' x = 0)"
proof -
  from demo_init obtain h where h: "heap_init 0x50000000 0x8000 demo_heap = Some h" "heap_inv h no_slabs"
    "\<forall>k. free_page (pages h) k \<longleftrightarrow> 1 \<le> k \<and> k < 8" by blast
  have "run_free (pages h) 1 1" using h(3) by (simp add: run_free_def)
  then show ?thesis using calloc_correct [OF h(2), of 3 8] h(1) by (auto split: if_splits)
qed

text \<open>
  C28. \<open>realloc\<close> of a live block: size zero frees it; a size that fits leaves everything as it is; otherwise the
  result is null and the block stays, or it is a new block that starts with the bytes of the old one, which
  is free. The other live blocks keep their bytes.
\<close>

theorem realloc_correct:
  assumes "heap_inv h L" "(a, n) \<in> blocks h L"
  shows "\<exists>b h' L'. realloc a new_size h = Some (b, h') \<and> heap_inv h' L' \<and>
    (if new_size = 0 then b = 0 \<and> blocks h' L' = blocks h L - {(a, n)} \<and> kept (blocks h L - {(a, n)}) h h'
     else if unat new_size \<le> n then b = a \<and> h' = h \<and> L' = L
     else if b = 0 then blocks h' L' = blocks h L \<and> kept (blocks h L) h h'
     else n \<le> capacity (unat new_size) \<and> (b, capacity (unat new_size)) \<notin> blocks h L \<and>
       blocks h' L' = insert (b, capacity (unat new_size)) (blocks h L - {(a, n)}) \<and> kept (blocks h L - {(a, n)}) h h' \<and>
       ld_bytes (hmem h') b n = ld_bytes (hmem h) a n)"
proof -
  have a0: "a \<noteq> 0" using old_size_ok(3) [OF _ assms(2)] assms(1) by (simp add: heap_inv_def)
  consider (zero) "new_size = 0" | (shrink) "new_size \<noteq> 0" "unat new_size \<le> n" | (grow) "new_size \<noteq> 0" "n < unat new_size" by linarith
  then show ?thesis
  proof cases
    case zero
    then show ?thesis using free_ok [OF assms] a0 by (auto simp: realloc_def)
  next
    case shrink
    then show ?thesis using realloc_shrink [OF assms shrink] assms(1) by simp
  next
    case grow
    from realloc_grow [OF assms grow] obtain b h' L' where r: "realloc a new_size h = Some (b, h')" "heap_inv h' L'"
      "b = 0 \<and> blocks h' L' = blocks h L \<and> kept (blocks h L) h h' \<or>
       b \<noteq> 0 \<and> (b, capacity (unat new_size)) \<notin> blocks h L \<and>
       blocks h' L' = insert (b, capacity (unat new_size)) (blocks h L - {(a, n)}) \<and> kept (blocks h L - {(a, n)}) h h' \<and>
       ld_bytes (hmem h') b n = ld_bytes (hmem h) a n" by blast
    have "n \<le> capacity (unat new_size)" using grow(2) capacity_ge [of "unat new_size"] by simp
    then show ?thesis using r grow by (intro exI [of _ b] exI [of _ h'] exI [of _ L']) (cases "b = 0", simp_all)
  qed
qed

theorem realloc_correct_witness:
  "\<exists>h a h1. heap_init 0x50000000 0x8000 demo_heap = Some h \<and> malloc 24 h = Some (a, h1) \<and> realloc a 30 h1 = Some (a, h1)"
proof -
  from demo_init obtain h where h: "heap_init 0x50000000 0x8000 demo_heap = Some h" "heap_inv h no_slabs"
    "blocks h no_slabs = {(0x50000000, 4096)}" "\<forall>k. free_page (pages h) k \<longleftrightarrow> 1 \<le> k \<and> k < 8" by blast
  have c: "capacity 24 = 32" by (simp add: capacity_def)
  have "run_free (pages h) 1 1" using h(4) by (simp add: run_free_def)
  then obtain a h1 L1 where m: "malloc 24 h = Some (a, h1)" "heap_inv h1 L1" "(a, 32) \<in> blocks h1 L1"
    using malloc_ok [OF h(2), of 24] h(3) c by auto
  from realloc_correct [OF m(2,3), of 30] show ?thesis using h(1) m(1) by auto
qed



end
