(* ===== verification/Threads_Heap.thy ===== *)
theory Threads_Heap
  imports Sched_Init Heap_Spec
begin

text \<open>
  The scheduler on the heap. The task structures are the contents of live blocks of the heap, so that a new task
  is never one that exists; with the theorems on \<open>malloc\<close> and \<open>free\<close> the operations of
  \<open>src/src/pthread.c\<close> that allocate are total, and the allocations of \<open>main\<close> at the start of the system succeed.
\<close>

section \<open>Tasks in blocks of the heap\<close>

definition tasks_in_heap :: "sched \<Rightarrow> layout \<Rightarrow> bool" where
  "tasks_in_heap s L \<longleftrightarrow> heap_inv (kheap s) L \<and> (\<forall>t. tasks s t \<noteq> None \<longrightarrow> (t, capacity 304) \<in> blocks (kheap s) L)"

lemma unat_task_size [simp]: "unat TASK_SIZE = 304" "TASK_SIZE \<noteq> 0"
  by (simp_all add: TASK_SIZE_def)

text \<open>An allocation, in the form in which the proofs below use it.\<close>

lemma malloc_cases:
  assumes "heap_inv h L"
  shows "\<exists>a h' L'. malloc sz h = Some (a, h') \<and> heap_inv h' L' \<and> kept (blocks h L) h h' \<and> blocks h L \<subseteq> blocks h' L' \<and>
    (a \<noteq> 0 \<longrightarrow> (a, capacity (unat sz)) \<in> blocks h' L' \<and> (a, capacity (unat sz)) \<notin> blocks h L)"
proof (cases "sz = 0")
  case True
  then show ?thesis using assms by (intro exI [of _ 0] exI [of _ h] exI [of _ L]) (simp add: malloc_def kept_def)
next
  case False
  from malloc_ok [OF assms this] show ?thesis by (elim exE conjE disjE) auto
qed

lemma stack_alloc_cases:
  assumes "heap_inv h L"
  shows "\<exists>a h' L'. stack_alloc attr h = Some (a, h') \<and> heap_inv h' L' \<and> kept (blocks h L) h h' \<and> blocks h L \<subseteq> blocks h' L'"
proof (cases "\<exists>a. stack_alloc attr h = Some (a, h)")
  case True
  then show ?thesis using assms by (auto simp: kept_def)
next
  case False
  then have "stack_alloc attr h = malloc (stack_size_of attr) h" by (auto simp: stack_alloc_def split: option.splits if_splits)
  then show ?thesis using malloc_cases [OF assms, of "stack_size_of attr"] by fastforce
qed

lemma kept_chain: "kept B h h1 \<Longrightarrow> B \<subseteq> B1 \<Longrightarrow> kept B1 h1 h2 \<Longrightarrow> kept B h h2"
  by (fastforce simp: kept_def)

text \<open>The outcome of \<open>pthread_create\<close>.\<close>

definition created :: "pthread_attr option \<Rightarrow> u64 \<Rightarrow> u64 \<Rightarrow> sched \<Rightarrow> (nat \<Rightarrow> u64 list) \<Rightarrow> layout \<Rightarrow> bool" where
  "created attr start_routine arg s q L \<longleftrightarrow>
     (\<exists>r t s' L'. pthread_create attr start_routine arg s = Some (r, t, s') \<and> tasks_in_heap s' L' \<and>
        kept (blocks (kheap s) L) (kheap s) (kheap s') \<and> blocks (kheap s) L \<subseteq> blocks (kheap s') L' \<and> cores s' = cores s \<and>
        (r = EAGAIN \<and> sched_inv s' q \<and> tasks s' = tasks s \<or>
         r = 0 \<and> t \<noteq> 0 \<and> tasks s t = None \<and> (t, capacity 304) \<notin> blocks (kheap s) L \<and>
         (\<forall>x. tasks s' x \<noteq> None \<longleftrightarrow> x = t \<or> tasks s x \<noteq> None) \<and>
         prio_of s' = (prio_of s)(t := unat (create_priority attr arg s)) \<and>
         sched_inv s' (let p = unat (create_priority attr arg s) in if p = 0 then q else q(p := q p @ [t]))))"

lemma release_task:
  assumes h: "heap_inv h2 L2" "(t, capacity 304) \<in> blocks h2 L2" "kept (blocks (kheap s) L) (kheap s) h2" "blocks (kheap s) L \<subseteq> blocks h2 L2"
    and t: "(t, capacity 304) \<notin> blocks (kheap s) L" "\<And>x. tasks s x \<noteq> None \<Longrightarrow> (x, capacity 304) \<in> blocks (kheap s) L"
  shows "\<exists>h' L'. free t h2 = Some h' \<and> kept (blocks (kheap s) L) (kheap s) h' \<and> blocks (kheap s) L \<subseteq> blocks h' L' \<and>
    (\<forall>s'. kheap s' = h' \<longrightarrow> tasks s' = tasks s \<longrightarrow> tasks_in_heap s' L')"
proof -
  from free_ok [OF h(1,2)] obtain h' L' where f: "free t h2 = Some h'" "heap_inv h' L'" "blocks h' L' = blocks h2 L2 - {(t, capacity 304)}"
    "kept (blocks h2 L2 - {(t, capacity 304)}) h2 h'" by blast
  have sub: "blocks (kheap s) L \<subseteq> blocks h2 L2 - {(t, capacity 304)}" using h(4) t(1) by blast
  have "kept (blocks (kheap s) L) (kheap s) h'" by (rule kept_chain [OF h(3) sub f(4)])
  moreover have "tasks_in_heap s' L'" if "kheap s' = h'" "tasks s' = tasks s" for s'
    using that f(2,3) t(2) sub unfolding tasks_in_heap_def by auto
  moreover have "blocks (kheap s) L \<subseteq> blocks h' L'" using sub f(3) by simp
  ultimately show ?thesis using f(1) by blast
qed

lemma pthread_create_in_heap:
  assumes inv: "sched_inv s q" and th: "tasks_in_heap s L"
    and attr: "\<forall>a. attr = Some a \<longrightarrow> is_initialized a \<noteq> 0 \<longrightarrow> 0 \<le> schedparam a"
  shows "created attr start_routine arg s q L"
proof -
  let ?B = "blocks (kheap s) L"
  have h: "heap_inv (kheap s) L" and tb: "\<And>x. tasks s x \<noteq> None \<Longrightarrow> (x, capacity 304) \<in> ?B"
    using th by (simp_all add: tasks_in_heap_def)
  from malloc_cases [OF h, of TASK_SIZE] obtain t h1 L1 where m: "malloc TASK_SIZE (kheap s) = Some (t, h1)" "heap_inv h1 L1"
    "kept ?B (kheap s) h1" "?B \<subseteq> blocks h1 L1"
    "t \<noteq> 0 \<Longrightarrow> (t, capacity 304) \<in> blocks h1 L1" "t \<noteq> 0 \<Longrightarrow> (t, capacity 304) \<notin> ?B" by auto
  have again: "created attr start_routine arg s q L"
    if "pthread_create attr start_routine arg s = Some (EAGAIN, 0, s')" "sched_inv s' q" "tasks s' = tasks s" "cores s' = cores s"
      "tasks_in_heap s' L'" "kept ?B (kheap s) (kheap s')" "?B \<subseteq> blocks (kheap s') L'" for s' L'
    using that unfolding created_def by blast
  show ?thesis
  proof (cases "t = 0")
    case True
    have "tasks s 0 = None"
    proof (rule ccontr)
      assume "tasks s 0 \<noteq> None"
      then have "(0, capacity 304) \<in> ?B" by (rule tb)
      then show False using old_size_ok(3) [of "kheap s" L 0] h by (simp add: heap_inv_def)
    qed
    with pthread_create_no_memory [OF inv m(1), of h1] True obtain s' where
      s': "pthread_create attr start_routine arg s = Some (EAGAIN, 0, s')" "sched_inv s' q" "tasks s' = tasks s" "cores s' = cores s" "kheap s' = h1" by blast
    have "tasks_in_heap s' L1" using s'(3,5) m(2,4) tb unfolding tasks_in_heap_def by auto
    then show ?thesis using again [OF s'(1-4)] s'(5) m(3,4) by simp
  next
    case False
    note t = m(5,6) [OF False]
    have none: "tasks s t = None" using tb t(2) by blast
    from stack_alloc_cases [OF m(2)] obtain st1 h2 L2 where st1: "stack_alloc attr h1 = Some (st1, h2)" "heap_inv h2 L2"
      "kept (blocks h1 L1) h1 h2" "blocks h1 L1 \<subseteq> blocks h2 L2" by blast
    have k2: "kept ?B (kheap s) h2" "?B \<subseteq> blocks h2 L2" "(t, capacity 304) \<in> blocks h2 L2"
      using kept_chain [OF m(3,4) st1(3)] m(4) st1(4) t(1) by auto
    from stack_alloc_cases [OF st1(2)] obtain st2 h3 L3 where st2: "stack_alloc attr h2 = Some (st2, h3)" "heap_inv h3 L3"
      "kept (blocks h2 L2) h2 h3" "blocks h2 L2 \<subseteq> blocks h3 L3" by blast
    have k3: "kept ?B (kheap s) h3" "?B \<subseteq> blocks h3 L3" "(t, capacity 304) \<in> blocks h3 L3"
      using kept_chain [OF k2(1,2) st2(3)] k2(2,3) st2(4) by auto
    have failed: "created attr start_routine arg s q L" if g: "heap_inv g M" "(t, capacity 304) \<in> blocks g M" "kept ?B (kheap s) g" "?B \<subseteq> blocks g M"
      and step: "\<And>h'. free t g = Some h' \<Longrightarrow> \<exists>s'. pthread_create attr start_routine arg s = Some (EAGAIN, 0, s') \<and>
        sched_inv s' q \<and> tasks s' = tasks s \<and> cores s' = cores s \<and> kheap s' = h'" for g M
    proof -
      from release_task [OF g t(2) tb] obtain h' L' where f: "free t g = Some h'" "kept ?B (kheap s) h'" "?B \<subseteq> blocks h' L'"
        "\<And>s'. kheap s' = h' \<Longrightarrow> tasks s' = tasks s \<Longrightarrow> tasks_in_heap s' L'" by blast
      from step [OF f(1)] obtain s' where s': "pthread_create attr start_routine arg s = Some (EAGAIN, 0, s')" "sched_inv s' q"
        "tasks s' = tasks s" "cores s' = cores s" "kheap s' = h'" by blast
      show ?thesis using again [OF s'(1-4) f(4) [OF s'(5,3)]] s'(5) f(2,3) by simp
    qed
    consider (one) "st1 = 0" | (two) "st1 \<noteq> 0" "st2 = 0" | (ok) "st1 \<noteq> 0" "st2 \<noteq> 0" by blast
    then show ?thesis
    proof cases
      case one
      then show ?thesis using failed [OF st1(2) k2(3,1,2)] pthread_create_no_memory [OF inv m(1) none] False st1(1) by blast
    next
      case two
      then show ?thesis using failed [OF st2(2) k3(3,1,2)] pthread_create_no_memory [OF inv m(1) none] False st1(1) st2(1) by blast
    next
      case ok
      from pthread_create_ok [OF inv m(1) False none st1(1) ok(1) st2(1) ok(2) attr refl, of start_routine arg] obtain s' where
        s': "pthread_create attr start_routine arg s = Some (0, t, s')"
          "sched_inv s' (if unat (create_priority attr arg s) = 0 then q else q(unat (create_priority attr arg s) := q (unat (create_priority attr arg s)) @ [t]))"
          "kheap s' = h3" "cores s' = cores s" "task_core s' t = Some (new_task attr start_routine arg st2 s)" "\<forall>x. x \<noteq> t \<longrightarrow> task_core s' x = task_core s x"
        by blast
      have dom: "tasks s' x \<noteq> None \<longleftrightarrow> x = t \<or> tasks s x \<noteq> None" for x
      proof -
        have "tasks z x = None \<longleftrightarrow> task_core z x = None" for z by (simp add: task_core_def)
        then show ?thesis using s'(5,6) by (cases "x = t") simp_all
      qed
      have prio: "prio_of s' = (prio_of s)(t := unat (create_priority attr arg s))"
      proof
        fix x
        have "prio_of z x = (case task_core z x of None \<Rightarrow> 0 | Some k \<Rightarrow> unat (t_priority k))" for z
          by (simp add: prio_of_def task_core_def split: option.split)
        then show "prio_of s' x = ((prio_of s)(t := unat (create_priority attr arg s))) x"
          using s'(5,6) by (cases "x = t") (simp_all add: new_task_def)
      qed
      have "tasks_in_heap s' L3" using dom tb k3(2,3) st2(2) s'(3) unfolding tasks_in_heap_def by auto
      then show ?thesis using s'(1-4) k3(1,2) none dom prio False t(2) unfolding created_def Let_def by blast
    qed
  qed
qed

end
