(* ===== verification/Startup.thy ===== *)
theory Startup
  imports Boot Threads_Heap
begin

text \<open>
  The first allocations of \<open>main\<close> (\<open>src/src/main.c\<close>): on the fresh heap of 8 MB that it sets up, those of
  \<open>sched_init\<close> and those for the second core all succeed.
\<close>

section \<open>A heap whose free pages are at its end\<close>

definition free_from :: "heap \<Rightarrow> nat \<Rightarrow> bool" where
  "free_from h m \<longleftrightarrow> (\<forall>k. free_page (pages h) k \<longleftrightarrow> m \<le> k \<and> k < length (pages h))"

lemma free_from_run: "free_from h m \<Longrightarrow> m + n \<le> length (pages h) \<Longrightarrow> run_free (pages h) n m"
  by (auto simp: free_from_def run_free_def)

lemma free_from_took:
  assumes f: "free_from h m" and t: "took_pages n h h'" and n: "0 < n"
  shows "length (pages h') = length (pages h)" "\<exists>m'. free_from h' m' \<and> m' \<le> m + n"
proof -
  have "length (pages h') = length (pages h) \<and> (\<exists>m'. free_from h' m' \<and> m' \<le> m + n)"
  proof (cases "pages h' = pages h")
    case True
    then show ?thesis using f unfolding free_from_def True by (intro conjI exI [of _ m]) simp_all
  next
    case False
    then obtain s g where s: "first_run (pages h) n = Some s" "\<forall>j < n. ptype (g j) \<noteq> PAGE_TYPE_FREE" "pages h' = set_run s n g (pages h)"
      using t by (auto simp: took_pages_def)
    note d = first_runD [OF s(1) n]
    have "free_page (pages h) s" using d(1) n by (simp add: run_free_def)
    then have "m \<le> s" using f by (simp add: free_from_def)
    moreover have "\<not> m < s" using d(3) [of m] free_from_run [OF f, of n] d(2) by auto
    ultimately have sm: "s = m" by simp
    have "free_page (pages h') k \<longleftrightarrow> m + n \<le> k \<and> k < length (pages h')" for k
    proof (cases "k < length (pages h)")
      case True
      have "free_page (pages h) k \<longleftrightarrow> m \<le> k" using f True by (simp add: free_from_def)
      then show ?thesis using s(2,3) sm True by (auto simp: free_page_def nth_set_run)
    next
      case False
      then show ?thesis using s(3) by (simp add: free_page_def)
    qed
    then show ?thesis using s(3) by (auto simp: free_from_def intro!: exI [of _ "m + n"])
  qed
  then show "length (pages h') = length (pages h)" "\<exists>m'. free_from h' m' \<and> m' \<le> m + n" by blast+
qed

text \<open>A state of the heap at the start: the invariant, and all pages from some page on are free.\<close>

definition roomy :: "heap \<Rightarrow> layout \<Rightarrow> nat \<Rightarrow> bool" where
  "roomy h L m \<longleftrightarrow> heap_inv h L \<and> length (pages h) = 2048 \<and> (\<exists>k \<le> m. free_from h k)"

lemma roomy_write:
  assumes "roomy h L m" "heap_inv (h\<lparr>hmem := M\<rparr>) L"
  shows "roomy (h\<lparr>hmem := M\<rparr>) L m"
  using assms unfolding roomy_def free_from_def blocks_write(2) by blast

lemma roomy_malloc:
  assumes r: "roomy h L m" and k: "unat sz = k" "0 < k" "n = (k + 4095) div 4096" "m + n \<le> 2048"
  shows "\<exists>a h' L'. malloc sz h = Some (a, h') \<and> a \<noteq> 0 \<and> roomy h' L' (m + n) \<and> (a, capacity k) \<notin> blocks h L \<and>
    blocks h' L' = insert (a, capacity k) (blocks h L) \<and> kept (blocks h L) h h' \<and> confined h h'"
proof -
  from r obtain i where i: "heap_inv h L" "length (pages h) = 2048" "i \<le> m" "free_from h i" unfolding roomy_def by blast
  have n: "0 < n" using k(2,3) by (simp add: div_greater_zero_iff)
  have sz: "sz \<noteq> 0" using k(1,2) by auto
  have "run_free (pages h) n i" using free_from_run [OF i(4), of n] i(2,3) k(4) by simp
  then have run: "\<not> (\<forall>s. \<not> run_free (pages h) n s)" by blast
  from malloc_ok [OF i(1) sz, unfolded k(1), folded k(3)] obtain a h' L' where m: "malloc sz h = Some (a, h')" "heap_inv h' L'" "took_pages n h h'"
    "kept (blocks h L) h h'"
    "a = 0 \<and> blocks h' L' = blocks h L \<and> (\<forall>s. \<not> run_free (pages h) n s) \<or>
     a \<noteq> 0 \<and> (a, capacity k) \<notin> blocks h L \<and> blocks h' L' = insert (a, capacity k) (blocks h L)" by blast
  have a: "a \<noteq> 0" "(a, capacity k) \<notin> blocks h L" "blocks h' L' = insert (a, capacity k) (blocks h L)"
    using m(5) run by blast+
  note ft = free_from_took [OF i(4) m(3) n]
  from ft(2) obtain i' where i': "free_from h' i'" "i' \<le> i + n" by blast
  have "i' \<le> m + n" using i'(2) i(3) by simp
  then have "roomy h' L' (m + n)" using m(2) ft(1) i(2) i'(1) unfolding roomy_def by auto
  moreover have "confined h h'" using m(3) by (simp add: took_pages_def)
  ultimately show ?thesis using m(1,4) a by blast
qed

lemma roomy_start:
  assumes "caches_addr_ok h"
  shows "\<exists>h'. heap_init 0x50000000 (8 * 1024 * 1024) h = Some h' \<and> roomy h' no_slabs 2"
proof -
  have "init_args 0x50000000 (8 * 1024 * 1024) 0x50000000 2048 2" by (simp add: init_args_def)
  from heap_init_inv [OF this assms] show ?thesis by (auto simp: roomy_def free_from_def intro!: exI [of _ 2])
qed

section \<open>The threads of the start\<close>

lemma sched_init_roomy:
  assumes s: "length (cores s) = 2" "sched_lock s = 0" "active_priorities s = 0" "tasks s = Map.empty"
    and r: "roomy (kheap s) L m" "m + 10 \<le> 2048"
  shows "\<exists>s' L'. sched_init ttbr1 s = Some s' \<and> sched_inv s' (\<lambda>_. []) \<and> tasks_in_heap s' L' \<and> roomy (kheap s') L' (m + 10) \<and>
    core_task (cores s' ! 0) \<noteq> 0 \<and> state_of s' (core_task (cores s' ! 0)) = Some TASK_RUNNING \<and>
    task_to_free (cores s' ! 0) = task_to_free (cores s ! 0) \<and> confined (kheap s) (kheap s') \<and>
    (\<exists>t st mt h. t \<noteq> mt \<and> s' = started ttbr1 t st mt h s)"
proof -
  have u: "unat (4096 * 4 :: u64) = 16384" by simp
  from roomy_malloc [OF r(1) unat_task_size(1), of 1] r(2) obtain t h1 L1 where t: "malloc TASK_SIZE (kheap s) = Some (t, h1)" "t \<noteq> 0"
    "roomy h1 L1 (m + 1)" "blocks h1 L1 = insert (t, capacity 304) (blocks (kheap s) L)" "confined (kheap s) h1" by auto
  from roomy_malloc [OF t(3) u, of 4] r(2) obtain st1 h2 L2 where st1: "malloc (4096 * 4) h1 = Some (st1, h2)" "st1 \<noteq> 0"
    "roomy h2 L2 (m + 1 + 4)" "blocks h2 L2 = insert (st1, capacity 16384) (blocks h1 L1)" "confined h1 h2" by auto
  from roomy_malloc [OF st1(3) u, of 4] r(2) obtain st2 h3 L3 where st2: "malloc (4096 * 4) h2 = Some (st2, h3)" "st2 \<noteq> 0"
    "roomy h3 L3 (m + 1 + 4 + 4)" "blocks h3 L3 = insert (st2, capacity 16384) (blocks h2 L2)" "confined h2 h3" by auto
  from roomy_malloc [OF st2(3) unat_task_size(1), of 1] r(2) obtain mt h4 L4 where mt: "malloc TASK_SIZE h3 = Some (mt, h4)" "mt \<noteq> 0"
    "roomy h4 L4 (m + 1 + 4 + 4 + 1)" "(mt, capacity 304) \<notin> blocks h3 L3" "blocks h4 L4 = insert (mt, capacity 304) (blocks h3 L3)" "confined h3 h4" by auto
  have ne: "mt \<noteq> t" using mt(4) t(4) st1(4) st2(4) by auto
  from sched_init_ok [OF s(1-3) t(1,2) st1(1,2) st2(1,2) mt(1,2) ne, of ttbr1] obtain s' where
    s': "sched_init ttbr1 s = Some s'" "sched_inv s' (\<lambda>_. [])" "core_task (cores s' ! 0) = mt" "tasks s' mt = Some (main_task s)"
      "kheap s' = h4" by blast
  have st: "s' = started ttbr1 t st2 mt h4 s" using sched_init_value [OF s(1) t(1,2) st1(1,2) st2(1,2) mt(1,2) ne, of ttbr1] s'(1) by simp
  then have "tasks s' x \<noteq> None \<longleftrightarrow> x = t \<or> x = mt" for x using s(4) by (auto simp: started_def)
  moreover have "(t, capacity 304) \<in> blocks h4 L4" "(mt, capacity 304) \<in> blocks h4 L4" using mt(5) t(4) st1(4) st2(4) by auto
  ultimately have "tasks_in_heap s' L4" using mt(3) s'(5) unfolding tasks_in_heap_def roomy_def by auto
  moreover have "state_of s' mt = Some TASK_RUNNING" using s'(4) by (simp add: state_of_def main_task_def)
  moreover have "roomy (kheap s') L4 (m + 10)" using mt(3) s'(5) by (simp add: algebra_simps)
  moreover have "task_to_free (cores s' ! 0) = task_to_free (cores s ! 0)" by (simp add: st started_def)
  moreover have "confined (kheap s) (kheap s')"
    using confined_trans [OF confined_trans [OF t(5) st1(5)] confined_trans [OF st2(5) mt(6)]] s'(5) by simp
  moreover have "\<exists>t st mt h. t \<noteq> mt \<and> s' = started ttbr1 t st mt h s" using st ne by metis
  ultimately show ?thesis using s'(1-3) mt(2) by blast
qed

section \<open>The data of the second core\<close>

lemma aligned8_add: "aligned8 a \<Longrightarrow> 8 dvd unat k \<Longrightarrow> aligned8 (a + k)"
  by (simp add: aligned8_def unat_word_ariths dvd_mod)

lemma boot_data_roomy:
  assumes r: "roomy h L m" "m + 5 \<le> 2048"
  shows "\<exists>data stack h' L'. boot_data entry v h = Some (data, h') \<and> heap_inv h' L' \<and>
    blocks h' L' = insert (stack, 16384) (insert (data, 64) (blocks h L)) \<and> data \<noteq> 0 \<and> stack \<noteq> 0 \<and> kept (blocks h L) h h' \<and>
    ld64 (hmem h') data = stack + 16384 \<and> ld64 (hmem h') (data + 8) = ttbr1_el1 v \<and> ld64 (hmem h') (data + 16) = tcr_el1 v \<and>
    ld64 (hmem h') (data + 24) = mair_el1 v \<and> ld64 (hmem h') (data + 32) = entry \<and> confined h h' \<and> roomy h' L' (m + 5)"
proof -
  have u: "unat (4096 * 4 :: u64) = 16384" by simp
  have cap: "capacity 40 = 64" "capacity 16384 = 16384" by (simp_all add: capacity_def)
  have u40: "unat (40 :: u64) = 40" by simp
  from roomy_malloc [OF r(1) u40, of 1] r(2) cap obtain data h1 L1 where d: "malloc 40 h = Some (data, h1)" "data \<noteq> 0"
    "roomy h1 L1 (m + 1)" "(data, 64) \<notin> blocks h L" "blocks h1 L1 = insert (data, 64) (blocks h L)" "kept (blocks h L) h h1" "confined h h1" by auto
  from roomy_malloc [OF d(3) u, of 4] r(2) cap obtain st h2 L2 where st: "malloc (4096 * 4) h1 = Some (st, h2)" "st \<noteq> 0"
    "roomy h2 L2 (m + 1 + 4)" "(st, 16384) \<notin> blocks h1 L1" "blocks h2 L2 = insert (st, 16384) (blocks h1 L1)"
    "kept (blocks h1 L1) h1 h2" "confined h1 h2" by auto
  have inv: "heap_inv h2 L2" using st(3) by (simp add: roomy_def)
  have b: "(data, 64) \<in> blocks h2 L2" using d(5) st(5) by simp
  have a0: "aligned8 data" by (rule block_aligned [OF inv b])
  have al: "aligned8 data" "aligned8 (data + 8)" "aligned8 (data + 16)" "aligned8 (data + 24)" "aligned8 (data + 32)"
    using a0 aligned8_add [OF a0, of 8] aligned8_add [OF a0, of 16] aligned8_add [OF a0, of 24] aligned8_add [OF a0, of 32] by simp_all
  define M where "M = st64 (st64 (st64 (st64 (st64 (hmem h2) data (st + 4096 * 4)) (data + 8) (ttbr1_el1 v)) (data + 16) (tcr_el1 v))
    (data + 24) (mair_el1 v)) (data + 32) entry"
  have run: "boot_data entry v h = Some (data, h2\<lparr>hmem := M\<rparr>)" using d(1,2) st(1) by (simp add: boot_data_def M_def)
  have sub: "in_block data 64 x" if "in_block (data + of_nat k) 8 x" "k + 8 \<le> 64" for k x
    using in_block_add [of k 8 data x] that by (auto simp: in_block_def)
  have out: "M x = hmem h2 x" if "\<not> in_block data 64 x" for x
    using that sub [of 0 x] sub [of 8 x] sub [of 16 x] sub [of 24 x] sub [of 32 x] by (auto simp: M_def st64_def st_bytes_def)
  note w = heap_inv_write [OF inv b out]
  have rd: "ld64 M data = st + 16384" "ld64 M (data + 8) = ttbr1_el1 v" "ld64 M (data + 16) = tcr_el1 v"
    "ld64 M (data + 24) = mair_el1 v" "ld64 M (data + 32) = entry"
    unfolding M_def using al by (simp_all add: words64.rd_wr)
  have "kept (blocks h L) h h2" by (rule kept_chain [OF d(6) _ st(6)]) (use d(5) in blast)
  moreover have "kept (blocks h L) h2 (h2\<lparr>hmem := M\<rparr>)"
  proof (rule keptI)
    fix c k y assume y: "(c, k) \<in> blocks h L" "in_block c k y"
    have "(c, k) \<in> blocks h2 L2 - {(data, 64)}" using y(1) d(4,5) st(5) by auto
    then show "hmem (h2\<lparr>hmem := M\<rparr>) y = hmem h2 y" using keptD [OF w(2) _ y(2)] by blast
  qed
  ultimately have kp: "kept (blocks h L) h (h2\<lparr>hmem := M\<rparr>)" by (rule kept_trans)
  have "confined h2 (h2\<lparr>hmem := M\<rparr>)"
    unfolding confined_def
  proof (intro conjI allI impI)
    fix x assume x: "\<forall>i < length (pages h2). page_of x \<noteq> pg h2 i"
    have "heap_ok h2 L2" using inv by (simp add: heap_inv_def)
    then have "\<not> in_block data 64 x" using block_byte(2) [OF _ b, of x] x by blast
    then show "hmem (h2\<lparr>hmem := M\<rparr>) x = hmem h2 x" using out by simp
  qed simp_all
  with d(7) st(7) have "confined h (h2\<lparr>hmem := M\<rparr>)" by (blast intro: confined_trans)
  moreover have "roomy (h2\<lparr>hmem := M\<rparr>) L2 (m + 5)" using roomy_write [OF st(3) w(1)] by (simp add: algebra_simps)
  ultimately show ?thesis using kp run w(1) d(2) st(2) rd st(5) d(5)
    by (intro exI [of _ data] exI [of _ st] exI [of _ "h2\<lparr>hmem := M\<rparr>"] exI [of _ L2]) simp
qed

section \<open>Properties\<close>

lemma startup_ok:
  assumes h: "caches_addr_ok h0" and s: "length (cores s) = 2" "sched_lock s = 0" "active_priorities s = 0" "tasks s = Map.empty"
  shows "\<exists>h s' L data stack h' L'. heap_init 0x50000000 (8 * 1024 * 1024) h0 = Some h \<and>
    sched_init ttbr1 (s\<lparr>kheap := h\<rparr>) = Some s' \<and> sched_inv s' (\<lambda>_. []) \<and> tasks_in_heap s' L \<and>
    boot_data entry v (kheap s') = Some (data, h') \<and> tasks_in_heap (s'\<lparr>kheap := h'\<rparr>) L' \<and>
    blocks h' L' = insert (stack, 16384) (insert (data, 64) (blocks (kheap s') L)) \<and> kept (blocks (kheap s') L) (kheap s') h' \<and>
    ld64 (hmem h') data = stack + 16384 \<and> ld64 (hmem h') (data + 8) = ttbr1_el1 v \<and> ld64 (hmem h') (data + 16) = tcr_el1 v \<and>
    ld64 (hmem h') (data + 24) = mair_el1 v \<and> ld64 (hmem h') (data + 32) = entry"
proof -
  from roomy_start [OF h] obtain h1 where h1: "heap_init 0x50000000 (8 * 1024 * 1024) h0 = Some h1" "roomy h1 no_slabs 2" by blast
  let ?s = "s\<lparr>kheap := h1\<rparr>"
  have f: "length (cores ?s) = 2" "sched_lock ?s = 0" "active_priorities ?s = 0" "tasks ?s = Map.empty" "roomy (kheap ?s) no_slabs 2"
    using s h1(2) by simp_all
  from sched_init_roomy [OF f, of ttbr1] obtain s' L where s': "sched_init ttbr1 ?s = Some s'" "sched_inv s' (\<lambda>_. [])" "tasks_in_heap s' L"
    "roomy (kheap s') L (2 + 10)" by auto
  from boot_data_roomy [OF s'(4), of entry v] obtain data stack h' L' where b: "boot_data entry v (kheap s') = Some (data, h')"
    "heap_inv h' L'" "blocks h' L' = insert (stack, 16384) (insert (data, 64) (blocks (kheap s') L))" "kept (blocks (kheap s') L) (kheap s') h'"
    "ld64 (hmem h') data = stack + 16384 \<and> ld64 (hmem h') (data + 8) = ttbr1_el1 v \<and> ld64 (hmem h') (data + 16) = tcr_el1 v \<and>
    ld64 (hmem h') (data + 24) = mair_el1 v \<and> ld64 (hmem h') (data + 32) = entry" by auto
  have "tasks_in_heap (s'\<lparr>kheap := h'\<rparr>) L'" using s'(3) b(2,3) by (simp add: tasks_in_heap_def)
  then show ?thesis using h1(1) s'(1-3) b by blast
qed

text \<open>
  The start of \<open>main\<close> from cleared static variables: on the fresh heap the scheduler initialises, with its two
  tasks in live blocks of the heap and its invariant, and the record for the second core and its stack are two new
  blocks apart from them; the record holds the top of this stack, the three translation registers and the entry
  point. None of the allocations fails.
\<close>

theorem startup_allocations:
  assumes "caches_addr_ok h0" "length (cores s) = 2" "sched_lock s = 0" "active_priorities s = 0" "tasks s = Map.empty"
  shows "\<exists>h s' L data stack h' L'. heap_init 0x50000000 (8 * 1024 * 1024) h0 = Some h \<and>
    sched_init ttbr1 (s\<lparr>kheap := h\<rparr>) = Some s' \<and> sched_inv s' (\<lambda>_. []) \<and> tasks_in_heap s' L \<and>
    boot_data entry v (kheap s') = Some (data, h') \<and> tasks_in_heap (s'\<lparr>kheap := h'\<rparr>) L' \<and>
    blocks h' L' = insert (stack, 16384) (insert (data, 64) (blocks (kheap s') L)) \<and> kept (blocks (kheap s') L) (kheap s') h' \<and>
    ld64 (hmem h') data = stack + 16384 \<and> ld64 (hmem h') (data + 8) = ttbr1_el1 v \<and> ld64 (hmem h') (data + 16) = tcr_el1 v \<and>
    ld64 (hmem h') (data + 24) = mair_el1 v \<and> ld64 (hmem h') (data + 32) = entry"
  by (rule startup_ok [OF assms])

theorem startup_allocations_witness:
  "\<exists>h s' L data h'. heap_init 0x50000000 (8 * 1024 * 1024) demo_heap = Some h \<and>
    sched_init 0x40500000 (demo_sched\<lparr>tasks := Map.empty, active_priorities := 0, kheap := h\<rparr>) = Some s' \<and>
    sched_inv s' (\<lambda>_. []) \<and> tasks_in_heap s' L \<and> boot_data 0x40081234 demo_vmm (kheap s') = Some (data, h') \<and>
    ld64 (hmem h') (data + 32) = 0x40081234"
proof -
  let ?s = "demo_sched\<lparr>tasks := Map.empty, active_priorities := 0\<rparr>"
  have "caches_addr_ok demo_heap" by (simp add: caches_addr_ok_def demo_heap_def)
  moreover have "length (cores ?s) = 2" "sched_lock ?s = 0" "active_priorities ?s = 0" "tasks ?s = Map.empty" by (simp_all add: demo_sched_def)
  ultimately show ?thesis using startup_allocations [of demo_heap ?s "0x40500000" "0x40081234" demo_vmm] by auto
qed

text \<open>
  \<open>pthread_create\<close> on a heap that satisfies its invariant and holds the existing tasks, with attributes of
  non-negative priority: it always returns, with 0 and one new task of the priority that the attributes ask for, in a block
  of its own, or with \<open>EAGAIN\<close> and no change of the tasks; both invariants hold again, the cores keep their tasks,
  and no live block is given up or changed.
\<close>

theorem pthread_create_total:
  assumes "sched_inv s q" "tasks_in_heap s L" "\<forall>a. attr = Some a \<longrightarrow> is_initialized a \<noteq> 0 \<longrightarrow> 0 \<le> schedparam a"
  shows "\<exists>r t s' L'. pthread_create attr start_routine arg s = Some (r, t, s') \<and> tasks_in_heap s' L' \<and>
    kept (blocks (kheap s) L) (kheap s) (kheap s') \<and> blocks (kheap s) L \<subseteq> blocks (kheap s') L' \<and> cores s' = cores s \<and>
    (r = EAGAIN \<and> sched_inv s' q \<and> tasks s' = tasks s \<or>
     r = 0 \<and> t \<noteq> 0 \<and> tasks s t = None \<and> (t, capacity 304) \<notin> blocks (kheap s) L \<and>
     (\<forall>x. tasks s' x \<noteq> None \<longleftrightarrow> x = t \<or> tasks s x \<noteq> None) \<and>
     prio_of s' = (prio_of s)(t := unat (create_priority attr arg s)) \<and>
     sched_inv s' (let p = unat (create_priority attr arg s) in if p = 0 then q else q(p := q p @ [t])))"
  using pthread_create_in_heap [OF assms, of start_routine arg] unfolding created_def .

theorem pthread_create_total_witness:
  "\<exists>h s r t s'. heap_init 0x50000000 (8 * 1024 * 1024) demo_heap = Some h \<and>
    sched_init 0x40500000 (demo_sched\<lparr>tasks := Map.empty, active_priorities := 0, kheap := h\<rparr>) = Some s \<and>
    pthread_create None 0x40083000 7 s = Some (r, t, s') \<and> (r = EAGAIN \<or> r = 0 \<and> tasks s t = None \<and> tasks s' t \<noteq> None)"
proof -
  let ?s = "demo_sched\<lparr>tasks := Map.empty, active_priorities := 0\<rparr>"
  have "caches_addr_ok demo_heap" by (simp add: caches_addr_ok_def demo_heap_def)
  moreover have "length (cores ?s) = 2" "sched_lock ?s = 0" "active_priorities ?s = 0" "tasks ?s = Map.empty" by (simp_all add: demo_sched_def)
  ultimately obtain h s L where s: "heap_init 0x50000000 (8 * 1024 * 1024) demo_heap = Some h"
    "sched_init 0x40500000 (?s\<lparr>kheap := h\<rparr>) = Some s" "sched_inv s (\<lambda>_. [])" "tasks_in_heap s L"
    using startup_ok [of demo_heap ?s "0x40500000" "0x40081234" demo_vmm] by blast
  have "\<forall>a. None = Some a \<longrightarrow> is_initialized a \<noteq> 0 \<longrightarrow> 0 \<le> schedparam a" by simp
  from pthread_create_total [OF s(3,4) this, of "0x40083000" 7] obtain r t s' where
    "pthread_create None 0x40083000 7 s = Some (r, t, s')" "r = EAGAIN \<or> r = 0 \<and> tasks s t = None \<and> tasks s' t \<noteq> None" by blast
  then show ?thesis using s(1,2) by auto
qed

end
