(* ===== verification/Switch.thy ===== *)
theory Switch
  imports Entry Startup
begin

text \<open>
  The context switch in assembly (\<open>src/src/switch.S\<close>), instruction by instruction on the registers of a core and the
  memory of the task structures. It implements the switch of the scheduler, \<open>cpu_switch_to\<close>, which works on the context in
  the task record, and with \<open>ret_from_fork\<close> it brings a new thread into its start routine.
\<close>

section \<open>The code\<close>

text \<open>Stores and loads at an offset from a register.\<close>

definition str_at :: "nat \<Rightarrow> nat \<Rightarrow> nat \<Rightarrow> machine \<Rightarrow> machine" where
  "str_at r base off m = m\<lparr>mmem := st64 (mmem m) (xr m base + of_nat off) (xr m r)\<rparr>"

definition stp_at :: "nat \<Rightarrow> nat \<Rightarrow> nat \<Rightarrow> nat \<Rightarrow> machine \<Rightarrow> machine" where
  "stp_at r1 r2 base off m = str_at r2 base (off + 8) (str_at r1 base off m)"

definition stp_q_at :: "nat \<Rightarrow> nat \<Rightarrow> nat \<Rightarrow> nat \<Rightarrow> machine \<Rightarrow> machine" where
  "stp_q_at r1 r2 base off m =
     m\<lparr>mmem := st128 (st128 (mmem m) (xr m base + of_nat off) (vr m r1)) (xr m base + of_nat (off + 16)) (vr m r2)\<rparr>"

definition ldr_at :: "nat \<Rightarrow> nat \<Rightarrow> nat \<Rightarrow> machine \<Rightarrow> machine" where
  "ldr_at r base off m = set_x r (ld64 (mmem m) (xr m base + of_nat off)) m"

definition ldp_at :: "nat \<Rightarrow> nat \<Rightarrow> nat \<Rightarrow> nat \<Rightarrow> machine \<Rightarrow> machine" where
  "ldp_at r1 r2 base off m =
     m\<lparr>xr := (xr m)(r1 := ld64 (mmem m) (xr m base + of_nat off), r2 := ld64 (mmem m) (xr m base + of_nat (off + 8)))\<rparr>"

definition ldp_q_at :: "nat \<Rightarrow> nat \<Rightarrow> nat \<Rightarrow> nat \<Rightarrow> machine \<Rightarrow> machine" where
  "ldp_q_at r1 r2 base off m =
     m\<lparr>vr := (vr m)(r1 := ld128 (mmem m) (xr m base + of_nat off), r2 := ld128 (mmem m) (xr m base + of_nat (off + 16)))\<rparr>"

text \<open>\<open>x0\<close> points to the task that gives way, \<open>x1\<close> to the next one; \<open>ret\<close> goes to \<open>x30\<close>.\<close>

definition switch_save :: "machine \<Rightarrow> machine" where
  "switch_save m =
  (let m = stp_at 19 20 0 0 m; m = stp_at 21 22 0 16 m; m = stp_at 23 24 0 32 m; m = stp_at 25 26 0 48 m;
       m = stp_at 27 28 0 64 m; m = stp_at 29 30 0 80 m; m = set_x 9 (spr m) m; m = str_at 9 0 96 m;
       m = stp_q_at 8 9 0 112 m; m = stp_q_at 10 11 0 144 m; m = stp_q_at 12 13 0 176 m
   in stp_q_at 14 15 0 208 m)"

definition switch_load :: "machine \<Rightarrow> machine" where
  "switch_load m =
  (let m = ldp_at 19 20 1 0 m; m = ldp_at 21 22 1 16 m; m = ldp_at 23 24 1 32 m; m = ldp_at 25 26 1 48 m;
       m = ldp_at 27 28 1 64 m; m = ldp_at 29 30 1 80 m; m = ldr_at 9 1 96 m; m = m\<lparr>spr := xr m 9\<rparr>;
       m = ldp_q_at 8 9 1 112 m; m = ldp_q_at 10 11 1 144 m; m = ldp_q_at 12 13 1 176 m; m = ldp_q_at 14 15 1 208 m
   in m\<lparr>pc := xr m 30\<rparr>)"

definition cpu_switch_code :: "machine \<Rightarrow> machine" where
  "cpu_switch_code m = switch_load (switch_save m)"

text \<open>
  \<open>ret_from_fork\<close> up to the call of the start routine; \<open>release\<close> stands for the compiled \<open>sched_unlock_release\<close>, and
  \<open>back_at\<close> is the address behind the call.
\<close>

definition ret_from_fork :: "(machine \<Rightarrow> machine) \<Rightarrow> u64 \<Rightarrow> machine \<Rightarrow> machine" where
  "ret_from_fork release back_at m =
     (let m = release m; m = set_x 0 (xr m 20) m; m = set_x 30 back_at m in m\<lparr>pc := xr m 19\<rparr>)"

section \<open>Contexts in registers and in memory\<close>

definition regs_of :: "machine \<Rightarrow> cpu_context" where
  "regs_of m = \<lparr>x19 = xr m 19, x20 = xr m 20, x21 = xr m 21, x22 = xr m 22, x23 = xr m 23, x24 = xr m 24, x25 = xr m 25,
     x26 = xr m 26, x27 = xr m 27, x28 = xr m 28, fp = xr m 29, lr = xr m 30, sp = spr m, qregs = map (vr m) [8..<16]\<rparr>"

definition context_at :: "mem \<Rightarrow> u64 \<Rightarrow> cpu_context" where
  "context_at m a = \<lparr>x19 = ld64 m a, x20 = ld64 m (a + 8), x21 = ld64 m (a + 16), x22 = ld64 m (a + 24), x23 = ld64 m (a + 32),
     x24 = ld64 m (a + 40), x25 = ld64 m (a + 48), x26 = ld64 m (a + 56), x27 = ld64 m (a + 64), x28 = ld64 m (a + 72),
     fp = ld64 m (a + 80), lr = ld64 m (a + 88), sp = ld64 m (a + 96), qregs = map (\<lambda>i. ld128 m (a + 112 + 16 * of_nat i)) [0..<8]\<rparr>"

definition context_items :: "machine \<Rightarrow> (nat \<times> u8 list) list" where
  "context_items m = map (\<lambda>i. (8 * i, to_le 8 (xr m (19 + i)))) [0..<12] @ [(96, to_le 8 (spr m))] @
     map (\<lambda>i. (112 + 16 * i, to_le 16 (vr m (8 + i)))) [0..<8]"

lemma context_numbers:
  "[0..<12] = [0, 1, 2, 3, 4, 5, 6, 7, 8, 9, 10, 11 :: nat]" "[0..<8] = [0, 1, 2, 3, 4, 5, 6, 7 :: nat]"
  "[8..<16] = [8, 9, 10, 11, 12, 13, 14, 15 :: nat]"
  by code_simp+

lemma context_fits: "fits 0 240 (context_items m)"
  by (simp add: context_items_def context_numbers)

lemmas at_defs = str_at_def stp_at_def stp_q_at_def ldr_at_def ldp_at_def ldp_q_at_def

lemma at_effect [simp]:
  "mmem (str_at r b off m) = st_bytes (mmem m) (xr m b + of_nat off) (to_le 8 (xr m r))"
  "mmem (stp_at r1 r2 b off m) = st_bytes (st_bytes (mmem m) (xr m b + of_nat off) (to_le 8 (xr m r1)))
     (xr m b + of_nat (off + 8)) (to_le 8 (xr m r2))"
  "mmem (stp_q_at r1 r2 b off m) = st_bytes (st_bytes (mmem m) (xr m b + of_nat off) (to_le 16 (vr m r1)))
     (xr m b + of_nat (off + 16)) (to_le 16 (vr m r2))"
  "xr (ldr_at r b off m) = (xr m)(r := ld64 (mmem m) (xr m b + of_nat off))"
  "xr (ldp_at r1 r2 b off m) = (xr m)(r1 := ld64 (mmem m) (xr m b + of_nat off), r2 := ld64 (mmem m) (xr m b + of_nat (off + 8)))"
  "vr (ldp_q_at r1 r2 b off m) = (vr m)(r1 := ld128 (mmem m) (xr m b + of_nat off), r2 := ld128 (mmem m) (xr m b + of_nat (off + 16)))"
  by (simp_all add: at_defs st64_def st128_def)

lemma at_kept [simp]:
  "xr (str_at r b off m) = xr m" "vr (str_at r b off m) = vr m" "spr (str_at r b off m) = spr m"
  "xr (stp_at r1 r2 b off m) = xr m" "vr (stp_at r1 r2 b off m) = vr m" "spr (stp_at r1 r2 b off m) = spr m"
  "xr (stp_q_at r1 r2 b off m) = xr m" "vr (stp_q_at r1 r2 b off m) = vr m" "spr (stp_q_at r1 r2 b off m) = spr m"
  "mmem (ldr_at r b off m) = mmem m" "vr (ldr_at r b off m) = vr m" "spr (ldr_at r b off m) = spr m"
  "mmem (ldp_at r1 r2 b off m) = mmem m" "vr (ldp_at r1 r2 b off m) = vr m" "spr (ldp_at r1 r2 b off m) = spr m"
  "mmem (ldp_q_at r1 r2 b off m) = mmem m" "xr (ldp_q_at r1 r2 b off m) = xr m" "spr (ldp_q_at r1 r2 b off m) = spr m"
  by (simp_all add: at_defs)

lemma switch_memory:
  "mmem (switch_save m) = put (xr m 0) (context_items m) (mmem m)" "xr (switch_save m) 1 = xr m 1" "mmem (switch_load m) = mmem m"
  by (simp_all add: switch_save_def switch_load_def Let_def context_items_def context_numbers)

lemma switch_registers:
  "regs_of (switch_load m) = context_at (mmem m) (xr m 1)" "pc (switch_load m) = lr (regs_of (switch_load m))"
  by (simp_all add: switch_load_def Let_def regs_of_def context_at_def context_numbers add.assoc)

section \<open>What the switch does\<close>

text \<open>The registers that are stored are the context in memory, and nothing outside of it changes.\<close>

lemma put_context: "context_at (put a (context_items m) M) a = regs_of m"
proof -
  have rd: "ld_bytes (put a (context_items m) M) (a + of_nat off) (length bs) = bs" if "(off, bs) \<in> set (context_items m)" for off bs
    using put_read [OF context_fits _ that] by simp
  have x: "ld64 (put a (context_items m) M) (a + of_nat off) = v" if "(off, to_le 8 v) \<in> set (context_items m)" for off v
    using rd [OF that] by (simp add: ld64_def le_word_to_le_full)
  have q: "ld128 (put a (context_items m) M) (a + of_nat off) = v" if "(off, to_le 16 v) \<in> set (context_items m)" for off v
    using rd [OF that] by (simp add: ld128_def le_word_to_le_full)
  have gp: "\<forall>i < 12. ld64 (put a (context_items m) M) (a + of_nat (8 * i)) = xr m (19 + i)" by (intro allI impI x) (simp add: context_items_def)
  have s: "ld64 (put a (context_items m) M) (a + of_nat 96) = spr m" by (rule x) (simp add: context_items_def)
  have v: "ld128 (put a (context_items m) M) (a + of_nat (112 + 16 * i)) = vr m (8 + i)" if "i < 8" for i
    by (rule q) (use that in \<open>simp add: context_items_def\<close>)
  have "map (\<lambda>i. ld128 (put a (context_items m) M) (a + 112 + 16 * of_nat i)) [0..<8] = map (\<lambda>i. vr m (8 + i)) [0..<8]"
    using v by (simp add: add.assoc)
  also have "\<dots> = map (vr m) [8..<16]" by (simp add: context_numbers)
  finally have vs: "map (\<lambda>i. ld128 (put a (context_items m) M) (a + 112 + 16 * of_nat i)) [0..<8] = map (vr m) [8..<16]" .
  have g: "ld64 (put a (context_items m) M) a = xr m 19"
    "\<And>i n r. n = 8 * of_nat i \<Longrightarrow> r = 19 + i \<Longrightarrow> i < 12 \<Longrightarrow> ld64 (put a (context_items m) M) (a + n) = xr m r"
    using gp [rule_format, of 0] gp by simp_all
  show ?thesis unfolding context_at_def regs_of_def vs
    using g(1) s g(2) [of 8 1 20] g(2) [of 16 2 21] g(2) [of 24 3 22] g(2) [of 32 4 23] g(2) [of 40 5 24] g(2) [of 48 6 25]
      g(2) [of 56 7 26] g(2) [of 64 8 27] g(2) [of 72 9 28] g(2) [of 80 10 29] g(2) [of 88 11 30] by simp
qed

lemma context_at_cong:
  assumes "\<And>x. in_block a 240 x \<Longrightarrow> M' x = M x"
  shows "context_at M' a = context_at M a"
proof -
  have b: "ld_bytes M' (a + of_nat off) n = ld_bytes M (a + of_nat off) n" if "off + n \<le> 240" for off n
  proof (intro nth_equalityI)
    fix k assume "k < length (ld_bytes M' (a + of_nat off) n)"
    then have k: "k < n" by simp
    have "in_block a 240 (a + of_nat (off + k))" using k that by (intro in_block_offset) simp_all
    then have "M' (a + of_nat (off + k)) = M (a + of_nat (off + k))" by (rule assms)
    then show "ld_bytes M' (a + of_nat off) n ! k = ld_bytes M (a + of_nat off) n ! k" using k by (simp add: add.assoc)
  qed simp
  have x: "ld64 M' (a + n) = ld64 M (a + n)" if "n = of_nat off" "off + 8 \<le> 240" for n off
    using b [OF that(2)] that(1) by (simp add: ld64_def)
  have "ld128 M' (a + of_nat (112 + 16 * i)) = ld128 M (a + of_nat (112 + 16 * i))" if "i < 8" for i
    using b [of "112 + 16 * i" 16] that by (simp add: ld128_def)
  then have q: "map (\<lambda>i. ld128 M' (a + 112 + 16 * of_nat i)) [0..<8] = map (\<lambda>i. ld128 M (a + 112 + 16 * of_nat i)) [0..<8]"
    by (simp add: add.assoc)
  have z: "ld64 M' a = ld64 M a" using x [of 0 0] by simp
  show ?thesis unfolding context_at_def q
    using z x [of 8 8] x [of 16 16] x [of 24 24] x [of 32 32] x [of 40 40] x [of 48 48] x [of 56 56] x [of 64 64] x [of 72 72]
      x [of 80 80] x [of 88 88] x [of 96 96] by simp
qed

text \<open>
  The core and the memory stand for a state of the scheduler: the callee-saved registers are those of the core, and at the
  address of each task structure, where the context comes first, is the context in the record.
\<close>

definition represents :: "machine \<Rightarrow> nat \<Rightarrow> sched \<Rightarrow> bool" where
  "represents m c s \<longleftrightarrow> regs_of m = regs s c \<and> (\<forall>t k. tasks s t = Some k \<longrightarrow> context_at (mmem m) t = t_context k)"

lemma contexts_apart:
  assumes "tasks_in_heap s L" "tasks s t \<noteq> None" "tasks s u \<noteq> None" "t \<noteq> u" "in_block t 240 x"
  shows "\<not> in_block u 240 x"
proof -
  have c: "240 \<le> capacity 304" using capacity_ge [of 304] by simp
  have "(t, capacity 304) \<in> blocks (kheap s) L" "(u, capacity 304) \<in> blocks (kheap s) L" "heap_inv (kheap s) L"
    using assms(1-3) by (simp_all add: tasks_in_heap_def)
  then have "disjoint_blocks t (capacity 304) u (capacity 304)" using assms(4) by (intro blocks_disjoint) simp_all
  moreover have "in_block t (capacity 304) x" using assms(5) c by (simp add: in_block_def)
  ultimately show ?thesis using c by (auto simp: disjoint_blocks_def in_block_def)
qed

lemma cpu_switch_ok:
  assumes th: "tasks_in_heap s L" and rep: "represents m c s" and t: "tasks s (xr m 0) \<noteq> None" "tasks s (xr m 1) \<noteq> None"
  shows "\<exists>s'. cpu_switch_to c (xr m 0) (xr m 1) s = Some s' \<and> represents (cpu_switch_code m) c s' \<and>
    pc (cpu_switch_code m) = lr (regs s' c) \<and> (\<forall>x. \<not> in_block (xr m 0) 240 x \<longrightarrow> mmem (cpu_switch_code m) x = mmem m x)"
proof -
  let ?a = "xr m 0"
  let ?m = "switch_save m"
  obtain k n where k: "tasks s ?a = Some k" "tasks s (xr m 1) = Some (n :: task)" using t by auto
  let ?s = "s\<lparr>tasks := (tasks s)(?a \<mapsto> k\<lparr>t_context := regs s c\<rparr>)\<rparr>"
  obtain n' where n': "tasks ?s (xr m 1) = Some (n' :: task)" using k(2) by (cases "xr m 1 = ?a") simp_all
  let ?s' = "?s\<lparr>regs := (regs s)(c := t_context n')\<rparr>"
  have step: "cpu_switch_to c ?a (xr m 1) s = Some ?s'" using k(1) n' by (simp add: cpu_switch_to_def upd_task_def)
  have out: "mmem ?m x = mmem m x" if "\<not> in_block ?a 240 x" for x
    using put_outside [OF context_fits _ that] by (simp add: switch_memory)
  have ctx: "context_at (mmem ?m) u = t_context ku" if "tasks ?s u = Some ku" for u ku
  proof (cases "u = ?a")
    case True
    then show ?thesis using that rep put_context [of ?a m "mmem m"] by (auto simp: switch_memory represents_def)
  next
    case False
    then have u: "tasks s u = Some ku" using that by simp
    have "context_at (mmem ?m) u = context_at (mmem m) u"
      by (rule context_at_cong, rule out, rule contexts_apart [OF th]) (use u t(1) False in simp_all)
    then show ?thesis using rep u by (simp add: represents_def)
  qed
  have "regs_of (cpu_switch_code m) = t_context n'"
    using ctx [OF n'] by (simp add: cpu_switch_code_def switch_registers(1) switch_memory(2) del: One_nat_def)
  moreover have "mmem (cpu_switch_code m) = mmem ?m" by (simp add: cpu_switch_code_def switch_memory(3))
  ultimately have "represents (cpu_switch_code m) c ?s'" "pc (cpu_switch_code m) = lr (regs ?s' c)"
    "\<forall>x. \<not> in_block ?a 240 x \<longrightarrow> mmem (cpu_switch_code m) x = mmem m x"
    using ctx out switch_registers(2) [of ?m] by (simp_all add: represents_def cpu_switch_code_def)
  with step show ?thesis by blast
qed

section \<open>Properties\<close>

text \<open>
  C18. The assembly refines the switch of the scheduler. When the registers of the core and the memory of the task
  structures stand for the state of the scheduler, whose tasks are blocks of the heap, then after the code of
  \<open>cpu_switch_to\<close> they stand for the state after the step of the model: the registers of the caller are in its context,
  the registers of the next task are in the core, and the contexts of all other tasks are untouched. Execution goes on at the link
  register of the next task, and no byte outside of the 240 bytes of the caller's context changes.
\<close>

theorem cpu_switch_correct:
  assumes "tasks_in_heap s L" "represents m c s" "tasks s (xr m 0) \<noteq> None" "tasks s (xr m 1) \<noteq> None"
  shows "\<exists>s'. cpu_switch_to c (xr m 0) (xr m 1) s = Some s' \<and> represents (cpu_switch_code m) c s' \<and>
    pc (cpu_switch_code m) = lr (regs s' c) \<and> (\<forall>x. \<not> in_block (xr m 0) 240 x \<longrightarrow> mmem (cpu_switch_code m) x = mmem m x)"
  by (rule cpu_switch_ok [OF assms])

text \<open>Two tasks on the fresh heap, with contexts as a memory has them.\<close>

definition two_tasks :: "machine \<Rightarrow> u64 \<Rightarrow> u64 \<Rightarrow> heap \<Rightarrow> sched" where
  "two_tasks m t u h = demo_sched\<lparr>kheap := h, regs := (\<lambda>_. regs_of m),
     tasks := [t \<mapsto> zero_task\<lparr>t_context := context_at (mmem m) t\<rparr>, u \<mapsto> zero_task\<lparr>t_context := context_at (mmem m) u\<rparr>]\<rparr>"

lemma two_blocks:
  "\<exists>t u h L. t \<noteq> u \<and> heap_inv h L \<and> (t, capacity 304) \<in> blocks h L \<and> (u, capacity 304) \<in> blocks h L"
proof -
  have "caches_addr_ok demo_heap" by (simp add: caches_addr_ok_def demo_heap_def)
  from roomy_start [OF this] obtain h where h: "roomy h no_slabs 2" by blast
  from roomy_malloc [OF h unat_task_size(1), of 1] obtain t h1 L1 where t: "roomy h1 L1 (2 + 1)"
    "blocks h1 L1 = insert (t, capacity 304) (blocks h no_slabs)" by auto
  from roomy_malloc [OF t(1) unat_task_size(1), of 1] obtain u h2 L2 where u: "roomy h2 L2 (2 + 1 + 1)"
    "(u, capacity 304) \<notin> blocks h1 L1" "blocks h2 L2 = insert (u, capacity 304) (blocks h1 L1)" by auto
  have "t \<noteq> u" using t(2) u(2) by auto
  moreover have "heap_inv h2 L2" using u(1) by (simp add: roomy_def)
  ultimately show ?thesis using t(2) u(3) by (intro exI [of _ t] exI [of _ u] exI [of _ h2] exI [of _ L2]) simp
qed

lemma two_tasks_ok:
  assumes "t \<noteq> u" "heap_inv h L" "(t, capacity 304) \<in> blocks h L" "(u, capacity 304) \<in> blocks h L"
  shows "tasks_in_heap (two_tasks m t u h) L" "represents m c (two_tasks m t u h)"
    "context_of (two_tasks m t u h) t = Some (context_at (mmem m) t)" "context_of (two_tasks m t u h) u = Some (context_at (mmem m) u)"
    "regs (two_tasks m t u h) c = regs_of m"
  using assms by (auto simp: two_tasks_def tasks_in_heap_def represents_def context_of_def)

lemma has_context: "context_of s t = Some x \<Longrightarrow> tasks s t \<noteq> None"
  by (auto simp: context_of_def)

theorem cpu_switch_correct_witness:
  "\<exists>t u h s'. t \<noteq> u \<and> cpu_switch_to 0 t u (two_tasks (demo_machine\<lparr>xr := (xr demo_machine)(0 := t, 1 := u)\<rparr>) t u h) = Some s' \<and>
     represents (cpu_switch_code (demo_machine\<lparr>xr := (xr demo_machine)(0 := t, 1 := u)\<rparr>)) 0 s'"
proof -
  from two_blocks obtain t u h L where b: "t \<noteq> u" "heap_inv h L" "(t, capacity 304) \<in> blocks h L" "(u, capacity 304) \<in> blocks h L" by blast
  let ?m = "demo_machine\<lparr>xr := (xr demo_machine)(0 := t, 1 := u)\<rparr>"
  note s = two_tasks_ok [OF b, of ?m]
  have r: "xr ?m 0 = t" "xr ?m 1 = u" by simp_all
  from cpu_switch_correct [OF s(1,2)] has_context [OF s(3)] has_context [OF s(4)]
  obtain s' where "cpu_switch_to 0 t u (two_tasks ?m t u h) = Some s'" "represents (cpu_switch_code ?m) 0 s'" unfolding r by blast
  with b(1) show ?thesis by blast
qed

text \<open>
  C19. The first run of a thread: its context is still the one that \<open>pthread_create\<close> set up, and another task gives way to it. The switch
  goes to \<open>ret_from_fork\<close>, and, when the compiled \<open>sched_unlock_release\<close> keeps the callee-saved registers and the stack,
  the start routine is entered with the argument of \<open>pthread_create\<close> in \<open>x0\<close>, on the stack of the new thread with a stack pointer
  aligned to 16 bytes, and with a return to the call of \<open>pthread_exit\<close>.
\<close>

theorem new_thread_starts:
  assumes "tasks_in_heap s L" "represents m c s" "tasks s (xr m 0) \<noteq> None" "xr m 0 \<noteq> xr m 1"
    and new: "context_of s (xr m 1) = Some (t_context (new_task attr start_routine arg stack s0))"
    and m1: "m1 = cpu_switch_code m"
    and release: "xr (release m1) 19 = xr m1 19" "xr (release m1) 20 = xr m1 20" "spr (release m1) = spr m1"
    and m2: "m2 = ret_from_fork release exit_call m1"
  shows "pc m1 = ret_from_fork_at s0 \<and> pc m2 = start_routine \<and> xr m2 0 = arg \<and> xr m2 30 = exit_call \<and>
    spr m2 = (stack + stack_size_of attr) AND NOT 0xF \<and> spr m2 AND 0xF = 0"
proof -
  from cpu_switch_ok [OF assms(1-3) has_context [OF new]] obtain s' where
    s': "cpu_switch_to c (xr m 0) (xr m 1) s = Some s'" "represents m1 c s'" "pc m1 = lr (regs s' c)" unfolding m1 by blast
  have "regs s' c = t_context (new_task attr start_routine arg stack s0)"
    using s'(1) new assms(4) by (auto simp: cpu_switch_to_def upd_task_def context_of_def bind_eq_Some_conv)
  then have r: "regs_of m1 = t_context (new_task attr start_routine arg stack s0)" "pc m1 = ret_from_fork_at s0"
    using s'(2,3) by (simp_all add: represents_def new_task_def)
  then have "xr m1 19 = start_routine" "xr m1 20 = arg" "spr m1 = (stack + stack_size_of attr) AND NOT 0xF"
    by (simp_all add: regs_of_def new_task_def zero_task_def zero_context_def)
  moreover have "((stack + stack_size_of attr) AND NOT 0xF) AND 0xF = 0"
    by (simp add: and.assoc)
  ultimately show ?thesis using r(2) release by (simp add: m2 ret_from_fork_def Let_def)
qed

text \<open>A thread on a stack at \<open>0x50400000\<close> that shall run the routine at \<open>0x40083000\<close> with argument 7.\<close>

definition first_registers :: machine where
  "first_registers = demo_machine\<lparr>xr := (\<lambda>_. 0)(19 := 0x40083000, 20 := 7, 30 := 0x40082000), vr := (\<lambda>_. 0), spr := 0x50404000\<rparr>"

lemma first_registers_context:
  "regs_of first_registers = t_context (new_task None 0x40083000 7 0x50400000 demo_sched)"
  by (simp add: first_registers_def regs_of_def new_task_def zero_task_def zero_context_def context_numbers
      stack_size_of_def demo_sched_def numeral_eq_Suc)

theorem new_thread_starts_witness:
  "\<exists>u m. context_at (mmem m) u = t_context (new_task None 0x40083000 7 0x50400000 demo_sched) \<and> xr m 1 = u \<and>
     pc (cpu_switch_code m) = 0x40082000 \<and>
     (let m2 = ret_from_fork (\<lambda>m. m\<lparr>mmem := st32 (mmem m) 0x40111000 0\<rparr>) 0x4008206C (cpu_switch_code m)
      in pc m2 = 0x40083000 \<and> xr m2 0 = 7 \<and> spr m2 = 0x50404000)"
proof -
  from two_blocks obtain t u h L where b: "t \<noteq> u" "heap_inv h L" "(t, capacity 304) \<in> blocks h L" "(u, capacity 304) \<in> blocks h L" by blast
  let ?m = "demo_machine\<lparr>xr := (xr demo_machine)(0 := t, 1 := u), mmem := put u (context_items first_registers) (mmem demo_machine)\<rparr>"
  note s = two_tasks_ok [OF b, of ?m]
  have r: "xr ?m 0 = t" "xr ?m 1 = u" "mmem ?m = put u (context_items first_registers) (mmem demo_machine)" by simp_all
  have c: "context_at (mmem ?m) u = t_context (new_task None 0x40083000 7 0x50400000 demo_sched)"
    unfolding r(3) put_context by (rule first_registers_context)
  let ?r = "\<lambda>m :: machine. m\<lparr>mmem := st32 (mmem m) 0x40111000 0\<rparr>"
  have "tasks (two_tasks ?m t u h) (xr ?m 0) \<noteq> None" "xr ?m 0 \<noteq> xr ?m 1" unfolding r using has_context [OF s(3)] b(1) by simp_all
  moreover have "context_of (two_tasks ?m t u h) (xr ?m 1) = Some (t_context (new_task None 0x40083000 7 0x50400000 demo_sched))"
    unfolding r(2) s(4) c by (rule refl)
  ultimately have "pc (cpu_switch_code ?m) = ret_from_fork_at demo_sched \<and> pc (ret_from_fork ?r 0x4008206C (cpu_switch_code ?m)) = 0x40083000 \<and>
    xr (ret_from_fork ?r 0x4008206C (cpu_switch_code ?m)) 0 = 7 \<and> xr (ret_from_fork ?r 0x4008206C (cpu_switch_code ?m)) 30 = 0x4008206C \<and>
    spr (ret_from_fork ?r 0x4008206C (cpu_switch_code ?m)) = (0x50400000 + stack_size_of None) AND NOT 0xF \<and>
    spr (ret_from_fork ?r 0x4008206C (cpu_switch_code ?m)) AND 0xF = 0"
    by (intro new_thread_starts [OF s(1,2) _ _ _ refl _ _ _ refl]) simp_all
  moreover have "ret_from_fork_at demo_sched = 0x40082000" "(0x50400000 + stack_size_of None) AND NOT 0xF = 0x50404000"
    by (simp_all add: demo_sched_def stack_size_of_def)
  ultimately show ?thesis using c r(2) by (intro exI [of _ u] exI [of _ ?m]) (simp only: Let_def simp_thms)
qed

end
