(* ===== verification/Report.thy ===== *)
theory Report
  imports Stdio
begin

text \<open>
  Messages of the kernel that are printed line by line through \<open>printf\<close> (\<open>src/src/stdio.c\<close>): a function that
  prints has an argument \<open>lit\<close> for the addresses that the linker gives to its string literals, and its
  literals \<open>ls\<close> lie in memory at these addresses.
\<close>

section \<open>Text\<close>

definition bytes :: "string \<Rightarrow> u8 list" where "bytes s = map of_char s"

text \<open>Plain text in a format is a sequence of literal characters.\<close>

definition lits :: "string \<Rightarrow> item list" where "lits s = map Lit (bytes s)"

definition plain :: "string \<Rightarrow> bool" where
  "plain s \<longleftrightarrow> (\<forall>x \<in> set (bytes s). x \<noteq> 0 \<and> x \<noteq> 37 \<and> x \<le> 127)"

lemma concat_singletons: "(\<And>x. f x = [x]) \<Longrightarrow> concat (map f xs) = xs"
  by (induction xs) auto

lemma lits_simps [simp]:
  "concat (map item_format (lits s)) = bytes s" "concat (map item_args (lits s)) = []"
  "concat (map item_text (lits s)) = bytes s" "(\<forall>it \<in> set (lits s). item_ok m it) \<longleftrightarrow> plain s"
  by (auto simp: lits_def comp_def concat_singletons plain_def)

lemma dec_text_of_nat: "dec_text (int n) = dec n"
  by (simp add: dec_text_def)

lemma as_int_small: "n < 2 ^ 31 \<Longrightarrow> as_int (of_nat n) = int n"
proof -
  assume n: "n < 2 ^ 31"
  have "take_bit 64 n = n" using n by (simp add: take_bit_nat_eq_self)
  then have "ucast (of_nat n :: u64) = (of_nat n :: u32)" by (simp add: unsigned_of_nat)
  moreover have "sint (of_nat n :: u32) = int n" using n by (simp add: signed_of_nat signed_take_bit_int_eq_self)
  ultimately show ?thesis by (simp add: as_int_def)
qed

lemma as_long_nonneg: "0 \<le> as_long x \<Longrightarrow> nat (as_long x) = unat x"
proof -
  assume "0 \<le> as_long x"
  then have "sint x mod 2 ^ 64 = sint x" using as_long_range [of x] by (simp add: as_long_def)
  moreover have "uint x = sint x mod 2 ^ 64" using uint_word_of_int [of "sint x", where ?'a = 64] by simp
  ultimately show ?thesis by (simp add: as_long_def flip: nat_uint_eq)
qed

section \<open>Lines\<close>

definition literals :: "string list \<Rightarrow> (string \<Rightarrow> u64) \<Rightarrow> mem \<Rightarrow> bool" where
  "literals ls lit m \<longleftrightarrow> (\<forall>s \<in> set ls. cstr m (lit s) (bytes s))"

text \<open>The console can print: the device takes characters, the lock is free, the literals are there.\<close>

definition can_print :: "string list \<Rightarrow> (string \<Rightarrow> u64) \<Rightarrow> console \<Rightarrow> bool" where
  "can_print ls lit c \<longleftrightarrow> tx_ready c \<and> print_lock c = 0 \<and> literals ls lit (cmem c)"

lemma can_print_emits: "emits c xs c' \<Longrightarrow> can_print ls lit c \<Longrightarrow> can_print ls lit c'"
  using emits_fields [of c xs c'] by (simp add: can_print_def)

lemma can_print_literal: "can_print ls lit c \<Longrightarrow> s \<in> set ls \<Longrightarrow> cstr (cmem c) (lit s) (bytes s)"
  by (simp add: can_print_def literals_def)

lemma print_line:
  assumes "can_print ls lit c" "s \<in> set ls" "bytes s = concat (map item_format items)"
    "\<forall>it \<in> set items. item_ok (cmem c) it" "args = concat (map item_args items)" "txt = concat (map item_text items)"
  shows "\<exists>r c'. printf (lit s) args c = Some (r, c') \<and> emits c txt c' \<and> can_print ls lit c'"
proof -
  have "cstr (cmem c) (lit s) (concat (map item_format items))"
    using can_print_literal [OF assms(1,2)] assms(3) by simp
  from printf_ok [OF _ _ assms(4) this] assms(1,5,6) can_print_emits show ?thesis
    by (fastforce simp: can_print_def)
qed

lemma plain_line:
  assumes "can_print ls lit c" "s \<in> set ls" "plain s"
  shows "\<exists>r c'. printf (lit s) [] c = Some (r, c') \<and> emits c (bytes s) c' \<and> can_print ls lit c'"
  using assms by (intro print_line [where items = "lits s"]) simp_all

lemma printf_locked: "mmu_enabled c \<Longrightarrow> print_lock c \<noteq> 0 \<Longrightarrow> printf p ap c = None"
  by (simp add: printf_def pthread_spin_lock_def cas_def)

text \<open>
  The messages of \<open>vmm_map_page\<close> and \<open>vmm_map_block\<close> about a table that could not be allocated (\<open>src/src/vmm.c\<close>, lines 86, 93
  and 130) use the conversion \<open>%llx\<close>: the call of \<open>printf\<close> never returns, on any console.
\<close>

lemma table_messages_hang:
  assumes "tx_ready c" "level = ''L2'' \<or> level = ''L3''"
    "cstr (cmem c) fmt (bytes (''[ [CVMM [W] Failed to allocate '' @ level @ '' table for 0x%llx\<newline>''))"
  shows "printf fmt [virt] c = None"
proof -
  let ?items = "lits (''[ [CVMM [W] Failed to allocate '' @ level @ '' table for 0x'')"
  have "plain (''[ [CVMM [W] Failed to allocate '' @ level @ '' table for 0x'')" using assms(2) by (auto simp: plain_def bytes_def)
  moreover have "bytes (''[ [CVMM [W] Failed to allocate '' @ level @ '' table for 0x%llx\<newline>'') =
      concat (map item_format ?items) @ 37 # 108 # 108 # [120, 10]"
    by (simp add: bytes_def)
  ultimately show ?thesis using printf_hangs [OF assms(1), of ?items fmt 108 "[120, 10]" "[virt]"] assms(3) by simp
qed

section \<open>A memory that holds the literals\<close>

text \<open>The literals in slots of 64 bytes.\<close>

definition slot_lit :: "string list \<Rightarrow> string \<Rightarrow> u64" where
  "slot_lit ls s = of_nat (64 * length (takeWhile (\<lambda>x. x \<noteq> s) ls))"

definition slot_mem :: "string list \<Rightarrow> mem" where
  "slot_mem ls a =
     (let k = unat a div 64; i = unat a mod 64
      in if k < length ls \<and> i < length (ls ! k) then bytes (ls ! k) ! i else 0)"

lemma slot_literals:
  assumes short: "\<forall>s \<in> set ls. length s < 64 \<and> 0 \<notin> set (bytes s)" and n: "length ls < 2 ^ 32"
  shows "literals ls (slot_lit ls) (slot_mem ls)"
  unfolding literals_def
proof
  fix s
  assume s: "s \<in> set ls"
  define k where "k = length (takeWhile (\<lambda>x. x \<noteq> s) ls)"
  have "takeWhile (\<lambda>x. x \<noteq> s) ls \<noteq> ls" using s by (simp only: takeWhile_eq_all_conv) blast
  then have "k < length ls"
    unfolding k_def by (metis length_takeWhile_le le_neq_implies_less takeWhile_eq_take take_all_iff order_refl)
  then have k: "k < length ls" "ls ! k = s"
    using nth_length_takeWhile [of "\<lambda>x. x \<noteq> s" ls] by (simp_all add: k_def)
  have sh: "length s < 64" "0 \<notin> set (bytes s)" using short s by auto
  have "slot_mem ls (slot_lit ls s + of_nat i) = (if i < length s then bytes s ! i else 0)" if "i < 64" for i
  proof -
    have "slot_lit ls s + of_nat i = of_nat (64 * k + i)" by (simp add: slot_lit_def k_def)
    moreover have "unat (of_nat (64 * k + i) :: u64) = 64 * k + i"
      by (rule unat_u64_of_nat) (use k(1) n that in simp)
    ultimately have "unat (slot_lit ls s + of_nat i) = 64 * k + i" by (simp only:)
    then show ?thesis using that k by (simp add: slot_mem_def Let_def)
  qed
  moreover have "length (bytes s) = length s" by (simp add: bytes_def)
  ultimately show "cstr (slot_mem ls) (slot_lit ls s) (bytes s)" using sh by (simp add: cstr_iff)
qed

lemma slot_console:
  assumes "\<forall>s \<in> set ls. length s < 64 \<and> 0 \<notin> set (bytes s)" "length ls < 2 ^ 32"
  shows "can_print ls (slot_lit ls) (demo_console\<lparr>cmem := slot_mem ls\<rparr>)"
  using slot_literals [OF assms] by (simp add: can_print_def demo_console_def tx_ready_def) blast

end
