(* ===== verification/Heap_Debug.thy ===== *)
theory Heap_Debug
  imports Report Heap_Spec
begin

text \<open>
  \<open>heap_debug\<close> of \<open>src/src/heap.c\<close>: the report on the caches of the heap. It reads the two heads of every cache
  under the lock of the heap and prints through \<open>printf\<close>.
\<close>

section \<open>The report\<close>

definition debug_cache :: "(string \<Rightarrow> u64) \<Rightarrow> heap \<Rightarrow> nat \<Rightarrow> console \<Rightarrow> console option" where
  "debug_cache lit h i c = do {
     k \<leftarrow> get_kmem i h;
     if slabs_partial k \<noteq> 0 \<or> slabs_full k \<noteq> 0 then do {
       (_, c) \<leftarrow> printf (lit ''Cache %d: Full: %s, Partial: %s\<newline>'')
         [obj_size k, lit (if slabs_full k \<noteq> 0 then ''Yes'' else ''No''),
          lit (if slabs_partial k \<noteq> 0 then ''Yes'' else ''No'')] c;
       Some c
     }
     else Some c
   }"

definition heap_debug :: "(string \<Rightarrow> u64) \<Rightarrow> heap \<Rightarrow> console \<Rightarrow> (heap \<times> console) option" where
  "heap_debug lit h c = do {
     h \<leftarrow> lock_heap h;
     (_, c) \<leftarrow> printf (lit ''--- Slab Allocator Status ---\<newline>'') [] c;
     c \<leftarrow> for_loop 0 NUM_CACHE_SIZES (debug_cache lit h) c;
     Some (unlock_heap h, c)
   }"

section \<open>What it prints\<close>

definition debug_literals :: "string list" where
  "debug_literals = [''--- Slab Allocator Status ---\<newline>'', ''Cache %d: Full: %s, Partial: %s\<newline>'', ''Yes'', ''No'']"

definition yes_no :: "bool \<Rightarrow> string" where "yes_no b = (if b then ''Yes'' else ''No'')"

text \<open>The line for the cache of class \<open>i\<close> with partially used slabs \<open>ps\<close> and full slabs \<open>fs\<close>.\<close>

definition debug_line :: "nat \<Rightarrow> u64 list \<Rightarrow> u64 list \<Rightarrow> u8 list" where
  "debug_line i ps fs =
     (if ps = [] \<and> fs = [] then []
      else bytes ''Cache '' @ dec (csize i) @ bytes '': Full: '' @ bytes (yes_no (fs \<noteq> [])) @
        bytes '', Partial: '' @ bytes (yes_no (ps \<noteq> [])) @ [10])"

lemma debug_cache_ok:
  assumes h: "heap_ok h L" and i: "i < 8" and c: "can_print debug_literals lit c"
  shows "\<exists>c'. debug_cache lit h i c = Some c' \<and> emits c (debug_line i (partials L i) (fulls L i)) c' \<and> can_print debug_literals lit c'"
proof -
  let ?ps = "partials L i" and ?fs = "fulls L i"
  have "cache_ok i (csize i) h ?ps ?fs (frees L)" using heap_okD(6) [OF h i] by (simp add: cache_part_def)
  note d = cache_okD [OF this]
  have n: "0 \<notin> set ?ps" "0 \<notin> set ?fs" using d(10) by (auto simp: slab_page_def)
  have k: "get_kmem i h = Some \<lparr>slabs_partial = head_of 0 ?ps, slabs_full = head_of 0 ?fs, slabs_free = 0, obj_size = of_nat (csize i)\<rparr>"
    using d(1,3) by (simp add: get_kmem_def arr_get_def)
  have sz: "as_int (of_nat (csize i)) = int (csize i)"
  proof (rule as_int_small)
    have "csize i \<le> 2 ^ 11" unfolding csize_def using i by (intro power_increasing) simp_all
    then show "csize i < 2 ^ 31" by simp
  qed
  show ?thesis
  proof (cases "?ps = [] \<and> ?fs = []")
    case True
    then show ?thesis using k c emits_refl [of c] by (simp add: debug_cache_def debug_line_def)
  next
    case False
    let ?f = "yes_no (?fs \<noteq> [])" and ?p = "yes_no (?ps \<noteq> [])"
    let ?items = "lits ''Cache '' @ [Dec (of_nat (csize i))] @ lits '': Full: '' @ [Str (lit ?f) (bytes ?f)] @
      lits '', Partial: '' @ [Str (lit ?p) (bytes ?p)] @ lits ''\<newline>''"
    have "yes_no b \<in> set debug_literals \<and> ascii (bytes (yes_no b))" for b
      by (simp add: yes_no_def debug_literals_def ascii_def bytes_def)
    then have "cstr (cmem c) (lit (yes_no b)) (bytes (yes_no b))" "ascii (bytes (yes_no b))" for b
      using can_print_literal [OF c] by blast+
    then have "\<exists>r c'. printf (lit ''Cache %d: Full: %s, Partial: %s\<newline>'') [of_nat (csize i), lit ?f, lit ?p] c = Some (r, c') \<and>
      emits c (debug_line i ?ps ?fs) c' \<and> can_print debug_literals lit c'"
      using c sz False
      by (intro print_line [where items = ?items])
        (simp_all add: debug_literals_def debug_line_def ball_Un plain_def bytes_def dec_text_of_nat)
    then obtain r c' where c': "printf (lit ''Cache %d: Full: %s, Partial: %s\<newline>'') [of_nat (csize i), lit ?f, lit ?p] c = Some (r, c')"
      "emits c (debug_line i ?ps ?fs) c'" "can_print debug_literals lit c'" by blast
    have "debug_cache lit h i c = Some c'"
      using c'(1) False k head_of_null [OF n(1)] head_of_null [OF n(2)] by (simp add: debug_cache_def yes_no_def)
    then show ?thesis using c'(2,3) by blast
  qed
qed

theorem heap_debug_ok:
  assumes h: "heap_inv h L" and c: "can_print debug_literals lit c"
  shows "\<exists>c'. heap_debug lit h c = Some (h, c') \<and> can_print debug_literals lit c' \<and>
    emits c (bytes ''--- Slab Allocator Status ---\<newline>'' @ concat (map (\<lambda>i. debug_line i (partials L i) (fulls L i)) [0..<8])) c'"
proof -
  let ?line = "\<lambda>i. debug_line i (partials L i) (fulls L i)" and ?h = "h\<lparr>heap_lock := 1\<rparr>"
  from h have ok: "heap_ok ?h L" and l: "heap_lock h = 0" by (simp_all add: heap_inv_def heap_ok_lock)
  from plain_line [OF c, of "''--- Slab Allocator Status ---\<newline>''"] obtain r c1 where
    c1: "printf (lit ''--- Slab Allocator Status ---\<newline>'') [] c = Some (r, c1)"
      "emits c (bytes ''--- Slab Allocator Status ---\<newline>'') c1" "can_print debug_literals lit c1"
    by (auto simp: debug_literals_def plain_def bytes_def)
  let ?P = "\<lambda>i c'. emits c1 (concat (map ?line [0..<i])) c' \<and> can_print debug_literals lit c'"
  have "\<exists>c'. for_loop 0 8 (debug_cache lit ?h) c1 = Some c' \<and> ?P 8 c'"
  proof (rule for_loop_total [where P = ?P])
    show "?P 0 c1" using c1(3) emits_refl [of c1] by simp
    fix i c2
    assume i: "i < 8" and p: "?P i c2"
    from debug_cache_ok [OF ok i] p obtain c3 where c3: "debug_cache lit ?h i c2 = Some c3"
      "emits c2 (?line i) c3" "can_print debug_literals lit c3" by blast
    from p have "emits c1 (concat (map ?line [0..<i])) c2" by simp
    from emits_trans [OF this c3(2)] c3(1,3) show "\<exists>c'. debug_cache lit ?h i c2 = Some c' \<and> ?P (Suc i) c'" by simp
  qed simp
  then obtain c4 where c4: "for_loop 0 8 (debug_cache lit ?h) c1 = Some c4" "emits c1 (concat (map ?line [0..<8])) c4"
    "can_print debug_literals lit c4" by blast
  have "lock_heap h = Some ?h" "unlock_heap ?h = h"
    using lock_heap_ok [OF h] l by (simp_all add: unlock_heap_eq)
  moreover have "NUM_CACHE_SIZES = 8" by (simp add: NUM_CACHE_SIZES_def slab_sizes_def)
  ultimately have "heap_debug lit h c = Some (h, c4)" using c1(1) c4(1) by (simp add: heap_debug_def)
  then show ?thesis using emits_trans [OF c1(2) c4(2)] c4(3) by blast
qed

end
