(* ===== verification/Rtc.thy ===== *)
theory Rtc
  imports Prelude
begin

text \<open>
  The clock of \<open>src/src/pl031.c\<close>: the PL031 real time clock, a device, and the time since boot from the
  generic timer of the processor. The registers of the device are a function of the number of the access
  and the address, its writes a list of address, width in bytes and value; the timer is a function of the
  number of the read. Division by a frequency of zero is undefined behaviour: \<^term>\<open>None\<close>.
\<close>

section \<open>The state\<close>

record rtc =
  pl031 :: u64
  boot_epoch :: u64
  boot_time :: u64
  mmio :: "nat \<Rightarrow> u64 \<Rightarrow> u64"
  mmio_reads :: nat
  mmio_writes :: "(u64 \<times> nat \<times> u64) list"
  cntpct_el0 :: "nat \<Rightarrow> u64"
  cnt_reads :: nat
  cntfrq_el0 :: u64

text \<open>The static variables before the first call.\<close>

definition rtc_static :: "rtc \<Rightarrow> rtc" where
  "rtc_static s = s\<lparr>pl031 := 0x09010000, boot_epoch := 0, boot_time := 0\<rparr>"

definition PL031_DR :: u64 where "PL031_DR = 0x000"
definition PL031_LR :: u64 where "PL031_LR = 0x008"

section \<open>Accesses to the device\<close>

definition mmio_write8 :: "u64 \<Rightarrow> u8 \<Rightarrow> rtc \<Rightarrow> rtc" where
  "mmio_write8 reg x s = s\<lparr>mmio_writes := mmio_writes s @ [(reg, 1, ucast x)]\<rparr>"

definition mmio_read8 :: "u64 \<Rightarrow> rtc \<Rightarrow> u8 \<times> rtc" where
  "mmio_read8 reg s = (ucast (mmio s (mmio_reads s) reg), s\<lparr>mmio_reads := mmio_reads s + 1\<rparr>)"

definition mmio_write16 :: "u64 \<Rightarrow> u16 \<Rightarrow> rtc \<Rightarrow> rtc" where
  "mmio_write16 reg x s = s\<lparr>mmio_writes := mmio_writes s @ [(reg, 2, ucast x)]\<rparr>"

definition mmio_read16 :: "u64 \<Rightarrow> rtc \<Rightarrow> u16 \<times> rtc" where
  "mmio_read16 reg s = (ucast (mmio s (mmio_reads s) reg), s\<lparr>mmio_reads := mmio_reads s + 1\<rparr>)"

definition mmio_write32 :: "u64 \<Rightarrow> u32 \<Rightarrow> rtc \<Rightarrow> rtc" where
  "mmio_write32 reg x s = s\<lparr>mmio_writes := mmio_writes s @ [(reg, 4, ucast x)]\<rparr>"

definition mmio_read32 :: "u64 \<Rightarrow> rtc \<Rightarrow> u32 \<times> rtc" where
  "mmio_read32 reg s = (ucast (mmio s (mmio_reads s) reg), s\<lparr>mmio_reads := mmio_reads s + 1\<rparr>)"

definition mmio_write64 :: "u64 \<Rightarrow> u64 \<Rightarrow> rtc \<Rightarrow> rtc" where
  "mmio_write64 reg x s = s\<lparr>mmio_writes := mmio_writes s @ [(reg, 8, x)]\<rparr>"

definition mmio_read64 :: "u64 \<Rightarrow> rtc \<Rightarrow> u64 \<times> rtc" where
  "mmio_read64 reg s = (mmio s (mmio_reads s) reg, s\<lparr>mmio_reads := mmio_reads s + 1\<rparr>)"

section \<open>The clock\<close>

definition pl031_init_time :: "rtc \<Rightarrow> rtc" where
  "pl031_init_time s =
     (if pl031 s \<noteq> 0 then
        let (t, s) = mmio_read32 (pl031 s + PL031_DR) s in s\<lparr>boot_epoch := ucast t\<rparr>
      else s)"

definition pl031_get_time :: "rtc \<Rightarrow> u32 \<times> rtc" where
  "pl031_get_time s = (if pl031 s = 0 then (0, s) else mmio_read32 (pl031 s + PL031_DR) s)"

definition pl031_set_time :: "u32 \<Rightarrow> rtc \<Rightarrow> rtc" where
  "pl031_set_time timestamp s =
     (if pl031 s = 0 then s else mmio_write32 (pl031 s + PL031_LR) timestamp s)"

text \<open>The two output values are returned with the state.\<close>

definition get_monotonic_time :: "rtc \<Rightarrow> ((u64 \<times> u64) \<times> rtc) option" where
  "get_monotonic_time s =
     (let now = cntpct_el0 s (cnt_reads s);
          s = s\<lparr>cnt_reads := cnt_reads s + 1\<rparr>;
          frq = cntfrq_el0 s;
          elapsed = now - boot_time s
      in if frq = 0 then None
         else Some ((elapsed div frq, (elapsed mod frq * 1000000000) div frq), s))"

definition get_realtime :: "rtc \<Rightarrow> ((u64 \<times> u64) \<times> rtc) option" where
  "get_realtime s = do {
     ((mono_sec, mono_nsec), s) \<leftarrow> get_monotonic_time s;
     Some ((boot_epoch s + mono_sec, mono_nsec), s)
   }"

section \<open>The time as a number of nanoseconds\<close>

definition nanos :: "u64 \<times> u64 \<Rightarrow> nat" where
  "nanos t = unat (fst t) * 1000000000 + unat (snd t)"

lemma split_seconds:
  assumes "0 < (f :: nat)"
  shows "e div f * g + (e mod f * g) div f = (e * g) div f"
proof -
  have "e * g = (e div f * g) * f + e mod f * g"
    by (metis add_mult_distrib div_mult_mod_eq mult.assoc mult.commute)
  then show ?thesis using assms by (simp add: div_mult_self3)
qed

lemma nanoseconds_bound:
  assumes "0 < f" "f \<le> 18446744073"
  shows "(e mod f) * 1000000000 < (2 :: nat) ^ 64"
proof -
  have "e mod f < f" using assms(1) by simp
  then have "(e mod f) * 1000000000 \<le> f * 1000000000" by simp
  also have "\<dots> \<le> 18446744073 * 1000000000" using assms(2) by simp
  finally show ?thesis by simp
qed

lemma monotonic_value:
  assumes "cntfrq_el0 s \<noteq> 0" "unat (cntfrq_el0 s) \<le> 18446744073"
    "e = unat (cntpct_el0 s (cnt_reads s) - boot_time s)" "f = unat (cntfrq_el0 s)"
  shows "\<exists>t. get_monotonic_time s = Some (t, s\<lparr>cnt_reads := cnt_reads s + 1\<rparr>) \<and>
     unat (fst t) = e div f \<and> unat (snd t) = (e mod f * 1000000000) div f"
proof -
  have f: "0 < f" using assms(1,4) by (simp add: unat_gt_0)
  have "unat ((cntpct_el0 s (cnt_reads s) - boot_time s) mod cntfrq_el0 s * 1000000000) = e mod f * 1000000000"
    using nanoseconds_bound [OF f, of e] assms(2,3,4) by (simp add: unat_mult_lem [THEN iffD1] unat_mod_distrib)
  then show ?thesis using assms by (simp add: get_monotonic_time_def Let_def unat_div_distrib)
qed

lemma nanos_of_parts:
  assumes "unat (fst t) = e div f" "unat (snd t) = (e mod f * 1000000000) div f" "0 < f"
  shows "nanos t = (e * 1000000000) div f" "unat (snd t) < 1000000000"
proof -
  show "nanos t = (e * 1000000000) div f" using assms by (simp add: nanos_def split_seconds)
  have "e mod f * 1000000000 < 1000000000 * f" using assms(3) by simp
  then show "unat (snd t) < 1000000000" using assms(2) by (simp add: less_mult_imp_div_less)
qed

section \<open>Properties\<close>

text \<open>
  C40. For every timer frequency from 1 to 18446744073 Hz, \<open>get_monotonic_time\<close> returns the time since
  \<open>boot_time\<close> rounded down to the nanosecond, in seconds and a number of nanoseconds below 1000000000: the
  intermediate product does not overflow. Nothing but the timer is read.
\<close>

theorem get_monotonic_time_correct:
  assumes "f = unat (cntfrq_el0 s)" "0 < f" "f \<le> 18446744073" "boot_time s \<le> cntpct_el0 s (cnt_reads s)"
  shows "\<exists>t. get_monotonic_time s = Some (t, s\<lparr>cnt_reads := cnt_reads s + 1\<rparr>) \<and> unat (snd t) < 1000000000 \<and>
     nanos t = ((unat (cntpct_el0 s (cnt_reads s)) - unat (boot_time s)) * 1000000000) div f"
proof -
  have nz: "cntfrq_el0 s \<noteq> 0" "unat (cntfrq_el0 s) \<le> 18446744073" using assms(1-3) by auto
  have e: "unat (cntpct_el0 s (cnt_reads s)) - unat (boot_time s) = unat (cntpct_el0 s (cnt_reads s) - boot_time s)"
    using unat_sub [OF assms(4)] by simp
  from monotonic_value [OF nz e assms(1)] nanos_of_parts [OF _ _ assms(2)] show ?thesis by metis
qed

definition demo_rtc :: rtc where
  "demo_rtc = rtc_static \<lparr>pl031 = 0, boot_epoch = 0, boot_time = 0, mmio = (\<lambda>_ _. 1700000000), mmio_reads = 0,
     mmio_writes = [], cntpct_el0 = (\<lambda>n. 625000001 + of_nat n), cnt_reads = 0, cntfrq_el0 = 62500000\<rparr>"

theorem get_monotonic_time_correct_witness:
  "\<exists>t. get_monotonic_time demo_rtc = Some (t, demo_rtc\<lparr>cnt_reads := 1\<rparr>) \<and> unat (snd t) < 1000000000 \<and> nanos t = 10000000016"
  using get_monotonic_time_correct [of 62500000 demo_rtc] by (simp add: demo_rtc_def rtc_static_def)

text \<open>
  \<open>get_realtime\<close> after \<open>pl031_init_time\<close> is the value that the clock had at the initialisation plus the whole
  time since \<open>boot_time\<close>, not the time since the initialisation: when the timer already stands at ten seconds
  at that moment, as it may because \<open>boot_time\<close> is the constant 0, the system is ten seconds ahead.
\<close>

theorem get_realtime_after_init:
  assumes "f = unat (cntfrq_el0 s)" "2 \<le> f" "f \<le> 18446744073" "pl031 s \<noteq> 0" "boot_time s \<le> cntpct_el0 s (cnt_reads s)"
    "epoch = fst (pl031_get_time s)"
  shows "\<exists>t s'. get_realtime (pl031_init_time s) = Some (t, s') \<and> unat (snd t) < 1000000000 \<and>
     nanos t = unat epoch * 1000000000 + ((unat (cntpct_el0 s (cnt_reads s)) - unat (boot_time s)) * 1000000000) div f"
proof -
  let ?s = "pl031_init_time s"
  have s: "cntfrq_el0 ?s = cntfrq_el0 s" "cnt_reads ?s = cnt_reads s" "cntpct_el0 ?s = cntpct_el0 s" "boot_time ?s = boot_time s"
    "boot_epoch ?s = ucast epoch"
    using assms(4,6) by (simp_all add: pl031_init_time_def pl031_get_time_def mmio_read32_def)
  let ?e = "unat (cntpct_el0 s (cnt_reads s) - boot_time s)"
  have f: "0 < f" using assms(2) by simp
  have "cntfrq_el0 ?s \<noteq> 0" "unat (cntfrq_el0 ?s) \<le> 18446744073" using assms(1-3) s by auto
  from monotonic_value [OF this refl refl] obtain t where t: "get_monotonic_time ?s = Some (t, ?s\<lparr>cnt_reads := cnt_reads s + 1\<rparr>)"
    "unat (fst t) = ?e div f" "unat (snd t) = (?e mod f * 1000000000) div f"
    unfolding s assms(1) by auto
  have "?e div f \<le> ?e div 2" using assms(2) by (simp add: div_le_mono2)
  moreover have "?e < 2 ^ 64" by (simp add: unat_u64_lt)
  moreover have "unat epoch < 2 ^ 32" using unat_u32_lt [of epoch] by simp
  ultimately have "unat (ucast epoch :: u64) + unat (fst t) < 2 ^ 64" using t(2) by simp
  from unat_add_no_wrap [of "ucast epoch" "fst t"] this have sec: "unat (ucast epoch + fst t) = unat epoch + unat (fst t)" by simp
  have "unat (cntpct_el0 s (cnt_reads s)) - unat (boot_time s) = ?e" using unat_sub [OF assms(5)] by simp
  then have n: "nanos (ucast epoch + fst t, snd t) = unat epoch * 1000000000 +
      ((unat (cntpct_el0 s (cnt_reads s)) - unat (boot_time s)) * 1000000000) div f"
    using nanos_of_parts(1) [OF t(2,3) f] sec by (simp add: nanos_def distrib_right)
  have "get_realtime ?s = Some ((ucast epoch + fst t, snd t), ?s\<lparr>cnt_reads := cnt_reads s + 1\<rparr>)"
    using t(1) s(5) by (cases t) (simp add: get_realtime_def)
  then show ?thesis using n nanos_of_parts(2) [OF t(2,3) f] by auto
qed

theorem get_realtime_after_init_witness:
  "\<exists>t s'. get_realtime (pl031_init_time demo_rtc) = Some (t, s') \<and> nanos t = (1700000000 + 10) * 1000000000 + 16"
  using get_realtime_after_init [of 62500000 demo_rtc 1700000000]
  by (auto simp: demo_rtc_def rtc_static_def pl031_get_time_def mmio_read32_def)

end
