(* ===== verification/Exceptions.thy ===== *)
theory Exceptions
  imports Report Gic Net
begin

text \<open>
  The exception handlers of \<open>src/src/exceptions.c\<close>. The system registers and the frame pointer are arguments;
  the reports go through \<open>printf\<close> of \<open>Stdio\<close>, with \<open>lit\<close> for the addresses that the linker gives to the string
  literals. A handler that ends in the endless loop of \<open>wfe\<close> instructions has the outcome \<open>Halted\<close>.
\<close>

section \<open>Reports\<close>

text \<open>The loop of \<open>dump_stack\<close> over the chain of frames, and \<open>dump_stack\<close>; \<open>fp\<close> is the register x29.\<close>

function dump_frames :: "(string \<Rightarrow> u64) \<Rightarrow> u64 \<Rightarrow> nat \<Rightarrow> console \<Rightarrow> console option" where
  "dump_frames lit fp depth c =
     (if fp \<noteq> 0 \<and> depth < 20 then
        if fp < 0x40000000 then Some c
        else
          Option.bind (printf (lit ''[%d] PC: 0x%lx\<newline>'')
              [of_nat depth, ld64 (cmem c) (fp + 8) - 0xba400000 + 0x40100000] c)
            (\<lambda>(_, c'). dump_frames lit (ld64 (cmem c) fp) (depth + 1) c')
      else Some c)"
  by pat_completeness auto
termination
  by (relation "measure (\<lambda>(lit, fp, depth, c). 20 - depth)") auto

declare dump_frames.simps [simp del]

definition dump_stack :: "(string \<Rightarrow> u64) \<Rightarrow> u64 \<Rightarrow> console \<Rightarrow> console option" where
  "dump_stack lit fp c = do {
     (_, c) \<leftarrow> printf (lit ''\<newline>--- Stack Trace ---\<newline>'') [] c;
     c \<leftarrow> dump_frames lit fp 0 c;
     (_, c) \<leftarrow> printf (lit ''-------------------\<newline>'') [] c;
     Some c
   }"

section \<open>Handlers\<close>

datatype outcome = Returned | Halted

definition el1_sync_handler ::
  "(string \<Rightarrow> u64) \<Rightarrow> u64 \<Rightarrow> u64 \<Rightarrow> u64 \<Rightarrow> u64 \<Rightarrow> console \<Rightarrow> (outcome \<times> console) option"
where
  "el1_sync_handler lit esr elr far fp c =
     (let ec = (ucast (drop_bit 26 esr AND 0x3F) :: u32);
          iss = esr AND 0x1FFFFFF
      in if ec = 0x20 \<or> ec = 0x21 \<or> ec = 0x24 \<or> ec = 0x25 then do {
           let fsc = (ucast (iss AND 0x3F) :: u8);
           let is_write = (drop_bit 6 iss AND 1 \<noteq> 0);
           (_, c) \<leftarrow> printf (lit ''\<newline>[PANIC] UNHANDLED SYNC EXCEPTION\<newline>'') [] c;
           (_, c) \<leftarrow> printf (lit ''  Type: %s Abort\<newline>'') [lit (if ec AND 1 \<noteq> 0 then ''Data'' else ''Instruction'')] c;
           (_, c) \<leftarrow> printf (lit ''  ESR: 0x%lx (FSC: 0x%x, Write: %d)\<newline>'') [esr, ucast fsc, of_bool is_write] c;
           (_, c) \<leftarrow> printf (lit ''  FAR: 0x%lx\<newline>'') [far] c;
           c \<leftarrow> dump_stack lit fp c;
           (_, c) \<leftarrow> printf (lit ''[EXC] EL1 synchronous exception\<newline>'') [] c;
           Some (Halted, c)
         }
         else if ec = 0x3C then Some (Returned, c)
         else do {
           (_, c) \<leftarrow> printf (lit ''\<newline>[PANIC] SYNC EXCEPTION\<newline>'') [] c;
           (_, c) \<leftarrow> printf (lit ''  ESR: 0x%lx (EC: 0x%x)\<newline>'') [esr, ucast ec] c;
           (_, c) \<leftarrow> printf (lit ''  ELR: 0x%lx (PC)\<newline>'') [elr] c;
           (_, c) \<leftarrow> printf (lit ''  FAR: 0x%lx (Addr)\<newline>'') [far] c;
           c \<leftarrow> dump_stack lit fp c;
           (_, c) \<leftarrow> printf (lit ''[EXC] EL1 synchronous exception\<newline>'') [] c;
           Some (Halted, c)
         })"

definition el1_irq_handler :: "gic \<Rightarrow> net \<Rightarrow> (gic \<times> net) option" where
  "el1_irq_handler g n = do {
     let (v, g) = gic_aoi g;
     let irq_id = (ucast v :: u32);
     n \<leftarrow> (if irq_id = 48 then virtio_net_handle_irq n else Some n);
     Some (gic_eoi (ucast irq_id) g, n)
   }"

definition el1_fiq_handler :: "(string \<Rightarrow> u64) \<Rightarrow> u64 \<Rightarrow> console \<Rightarrow> (outcome \<times> console) option" where
  "el1_fiq_handler lit fp c = do {
     (_, c) \<leftarrow> printf (lit ''[EXC] EL1 FIQ\<newline>'') [] c;
     c \<leftarrow> dump_stack lit fp c;
     Some (Halted, c)
   }"

definition el1_serr_handler :: "(string \<Rightarrow> u64) \<Rightarrow> u64 \<Rightarrow> console \<Rightarrow> (outcome \<times> console) option" where
  "el1_serr_handler lit fp c = do {
     c \<leftarrow> dump_stack lit fp c;
     (_, c) \<leftarrow> printf (lit ''[EXC] EL1 SError\<newline>'') [] c;
     Some (Halted, c)
   }"

section \<open>The printed reports\<close>

text \<open>The literals of the handlers.\<close>

definition report_literals :: "string list" where
  "report_literals =
     [''\<newline>--- Stack Trace ---\<newline>'', ''[%d] PC: 0x%lx\<newline>'', ''-------------------\<newline>'',
      ''\<newline>[PANIC] UNHANDLED SYNC EXCEPTION\<newline>'', ''  Type: %s Abort\<newline>'', ''Data'', ''Instruction'',
      ''  ESR: 0x%lx (FSC: 0x%x, Write: %d)\<newline>'', ''  FAR: 0x%lx\<newline>'', ''[EXC] EL1 synchronous exception\<newline>'',
      ''\<newline>[PANIC] SYNC EXCEPTION\<newline>'', ''  ESR: 0x%lx (EC: 0x%x)\<newline>'', ''  ELR: 0x%lx (PC)\<newline>'',
      ''  FAR: 0x%lx (Addr)\<newline>'', ''[EXC] EL1 FIQ\<newline>'', ''[EXC] EL1 SError\<newline>'']"

abbreviation can_report :: "(string \<Rightarrow> u64) \<Rightarrow> console \<Rightarrow> bool" where
  "can_report \<equiv> can_print report_literals"

text \<open>The program counters that \<open>dump_stack\<close> finds, and their lines.\<close>

function trace_pcs :: "mem \<Rightarrow> u64 \<Rightarrow> nat \<Rightarrow> u64 list" where
  "trace_pcs m fp depth =
     (if 0x40000000 \<le> fp \<and> depth < 20
      then (ld64 m (fp + 8) - 0xba400000 + 0x40100000) # trace_pcs m (ld64 m fp) (depth + 1) else [])"
  by pat_completeness auto
termination
  by (relation "measure (\<lambda>(m, fp, depth). 20 - depth)") auto

declare trace_pcs.simps [simp del]

primrec trace_lines :: "nat \<Rightarrow> u64 list \<Rightarrow> u8 list" where
  "trace_lines d [] = []"
| "trace_lines d (pc # pcs) =
     bytes ''['' @ dec d @ bytes ''] PC: 0x'' @ hex_text False (as_long pc) @ [10] @ trace_lines (d + 1) pcs"

definition trace_text :: "mem \<Rightarrow> u64 \<Rightarrow> u8 list" where
  "trace_text m fp = bytes ''\<newline>--- Stack Trace ---\<newline>'' @ trace_lines 0 (trace_pcs m fp 0) @ bytes ''-------------------\<newline>''"

lemma trace_pcs_bound: "depth \<le> 20 \<Longrightarrow> length (trace_pcs m fp depth) \<le> 20 - depth"
proof (induction m fp depth rule: trace_pcs.induct)
  case (1 m fp depth)
  then show ?case by (auto simp: trace_pcs.simps [of m fp depth])
qed

lemma frame_line:
  assumes "can_report lit c" "depth < 20"
  shows "\<exists>r c'. printf (lit ''[%d] PC: 0x%lx\<newline>'') [of_nat depth, pc] c = Some (r, c') \<and>
    emits c (bytes ''['' @ dec depth @ bytes ''] PC: 0x'' @ hex_text False (as_long pc) @ [10]) c' \<and> can_report lit c'"
proof -
  let ?items = "lits ''['' @ [Dec (of_nat depth)] @ lits ''] PC: 0x'' @ [Long_Hex False pc] @ lits ''\<newline>''"
  have "as_int (of_nat depth) = int depth" using assms(2) by (intro as_int_small) simp
  then show ?thesis
    using assms
    by (intro print_line [where items = ?items])
      (simp_all add: report_literals_def ball_Un plain_def bytes_def dec_text_of_nat)
qed

lemma dump_frames_ok:
  assumes "can_report lit c"
  shows "\<exists>c'. dump_frames lit fp depth c = Some c' \<and> emits c (trace_lines depth (trace_pcs (cmem c) fp depth)) c' \<and> can_report lit c'"
  using assms
proof (induction "20 - depth" arbitrary: fp depth c rule: less_induct)
  case less
  show ?case
  proof (cases "0x40000000 \<le> fp \<and> depth < 20")
    case True
    let ?pc = "ld64 (cmem c) (fp + 8) - 0xba400000 + 0x40100000"
    have pcs: "trace_pcs (cmem c) fp depth = ?pc # trace_pcs (cmem c) (ld64 (cmem c) fp) (depth + 1)"
      using True by (simp add: trace_pcs.simps [of _ fp])
    from frame_line [OF less.prems, of depth ?pc] True obtain r c1 where
      c1: "printf (lit ''[%d] PC: 0x%lx\<newline>'') [of_nat depth, ?pc] c = Some (r, c1)"
        "emits c (bytes ''['' @ dec depth @ bytes ''] PC: 0x'' @ hex_text False (as_long ?pc) @ [10]) c1" "can_report lit c1"
      by auto
    have m: "cmem c1 = cmem c" using emits_fields(2) [OF c1(2)] .
    have d: "20 - (depth + 1) < 20 - depth" using True by linarith
    from less.hyps [OF d c1(3), of "ld64 (cmem c) fp"] m obtain c2 where
      c2: "dump_frames lit (ld64 (cmem c) fp) (depth + 1) c1 = Some c2"
        "emits c1 (trace_lines (depth + 1) (trace_pcs (cmem c) (ld64 (cmem c) fp) (depth + 1))) c2" "can_report lit c2"
      by auto
    have "fp \<noteq> 0" "\<not> fp < 0x40000000" using True by auto
    then have "dump_frames lit fp depth c = Some c2"
      using True c1(1) c2(1) by (simp add: dump_frames.simps [of lit fp])
    then show ?thesis using emits_trans [OF c1(2) c2(2)] c2(3) pcs by simp
  next
    case False
    then have "dump_frames lit fp depth c = Some c" by (auto simp: dump_frames.simps [of lit fp])
    moreover have "trace_pcs (cmem c) fp depth = []" using False by (simp add: trace_pcs.simps [of _ fp])
    ultimately show ?thesis using less.prems emits_refl [of c] by simp
  qed
qed

lemma dump_stack_ok:
  assumes "can_report lit c"
  shows "\<exists>c'. dump_stack lit fp c = Some c' \<and> emits c (trace_text (cmem c) fp) c' \<and> can_report lit c'"
proof -
  from plain_line [OF assms, of "''\<newline>--- Stack Trace ---\<newline>''"] obtain r1 c1 where
    c1: "printf (lit ''\<newline>--- Stack Trace ---\<newline>'') [] c = Some (r1, c1)"
      "emits c (bytes ''\<newline>--- Stack Trace ---\<newline>'') c1" "can_report lit c1"
    by (auto simp: report_literals_def plain_def bytes_def)
  have m: "cmem c1 = cmem c" using emits_fields(2) [OF c1(2)] .
  from dump_frames_ok [OF c1(3), of fp 0] m obtain c2 where
    c2: "dump_frames lit fp 0 c1 = Some c2" "emits c1 (trace_lines 0 (trace_pcs (cmem c) fp 0)) c2" "can_report lit c2"
    by auto
  from plain_line [OF c2(3), of "''-------------------\<newline>''"] obtain r3 c3 where
    c3: "printf (lit ''-------------------\<newline>'') [] c2 = Some (r3, c3)"
      "emits c2 (bytes ''-------------------\<newline>'') c3" "can_report lit c3"
    by (auto simp: report_literals_def plain_def bytes_def)
  show ?thesis
    using c1(1) c2(1) c3(1,3) emits_trans [OF c1(2) emits_trans [OF c2(2) c3(2)]]
    by (simp add: dump_stack_def trace_text_def)
qed

text \<open>The lines of the report of an abort.\<close>

lemma write_flag: "drop_bit 6 ((esr :: u64) AND 0x1FFFFFF) AND 1 \<noteq> 0 \<longleftrightarrow> bit esr 6"
proof -
  have "bit (0x1FFFFFF :: u64) 6" by simp
  moreover have "drop_bit 6 x AND 1 \<noteq> 0 \<longleftrightarrow> bit x 6" for x :: u64
    by (simp only: and_one_eq bit_iff_odd_drop_bit) (simp add: odd_iff_mod_2_eq_one)
  ultimately show ?thesis by (simp only: bit_and_iff simp_thms)
qed

lemma fault_status: "ucast (ucast (((esr :: u64) AND 0x1FFFFFF) AND 0x3F) :: u8) = esr AND 0x3F" "unat (esr AND 0x3F) < 64"
proof -
  have m: "(0x3F :: u64) = mask 6" "(0x1FFFFFF :: u64) = mask 25" by (simp_all add: mask_eq_exp_minus_1)
  show "ucast (ucast ((esr AND 0x1FFFFFF) AND 0x3F) :: u8) = esr AND 0x3F"
    unfolding m by (rule bit_word_eqI) (auto simp: bit_simps)
  have "unat (take_bit 6 esr) = take_bit 6 (unat esr)" by (rule unsigned_take_bit_eq)
  then show "unat (esr AND 0x3F) < 64"
    using take_bit_nat_less_exp [of 6 "unat esr"] by (simp add: m(1) take_bit_eq_mask)
qed

lemma kind_line:
  assumes "can_report lit c" "s = ''Data'' \<or> s = ''Instruction''"
  shows "\<exists>r c'. printf (lit ''  Type: %s Abort\<newline>'') [lit s] c = Some (r, c') \<and>
    emits c (bytes ''  Type: '' @ bytes s @ bytes '' Abort\<newline>'') c' \<and> can_report lit c'"
proof -
  have "s \<in> set report_literals" using assms(2) by (auto simp: report_literals_def)
  then have "cstr (cmem c) (lit s) (bytes s)" using assms(1) by (intro can_print_literal)
  moreover have "ascii (bytes s)" using assms(2) by (auto simp: ascii_def bytes_def)
  ultimately show ?thesis
    using assms(1) by (intro print_line [where items = "lits ''  Type: '' @ [Str (lit s) (bytes s)] @ lits '' Abort\<newline>''"])
      (simp_all add: report_literals_def ball_Un plain_def bytes_def)
qed

lemma syndrome_line:
  assumes "can_report lit c" "n < 2 ^ 31"
  shows "\<exists>r c'. printf (lit ''  ESR: 0x%lx (FSC: 0x%x, Write: %d)\<newline>'') [esr, of_nat n, of_bool w] c = Some (r, c') \<and>
    emits c (bytes ''  ESR: 0x'' @ hex_text False (as_long esr) @ bytes '' (FSC: 0x'' @ hex False n @
      bytes '', Write: '' @ dec (of_bool w) @ bytes '')\<newline>'') c' \<and> can_report lit c'"
proof -
  have "as_int (of_nat n) = int n" using assms(2) by (rule as_int_small)
  moreover have "as_int (of_bool w) = int (of_bool w)" using as_int_small [of "of_bool w"] by simp
  moreover have "dec_text (int (of_bool w)) = dec (of_bool w)" by (rule dec_text_of_nat)
  ultimately show ?thesis
    using assms(1)
    by (intro print_line [where items = "lits ''  ESR: 0x'' @ [Long_Hex False esr] @ lits '' (FSC: 0x'' @ [Hex False (of_nat n)] @
      lits '', Write: '' @ [Dec (of_bool w)] @ lits '')\<newline>''"])
      (simp_all add: report_literals_def ball_Un plain_def bytes_def hex_text_def)
qed

lemma fault_address_line:
  assumes "can_report lit c"
  shows "\<exists>r c'. printf (lit ''  FAR: 0x%lx\<newline>'') [far] c = Some (r, c') \<and>
    emits c (bytes ''  FAR: 0x'' @ hex_text False (as_long far) @ bytes ''\<newline>'') c' \<and> can_report lit c'"
  using assms
  by (intro print_line [where items = "lits ''  FAR: 0x'' @ [Long_Hex False far] @ lits ''\<newline>''"])
    (simp_all add: report_literals_def ball_Un plain_def bytes_def)

section \<open>Properties\<close>

text \<open>
  C38. On an instruction or data abort, with any values in the syndrome, the fault address and the chain of frames, as far as the
  chain is in readable memory, the handler prints, in this order, the headline, the kind of the abort (data
  when the lowest bit of the exception class is set), the syndrome with fault status and write flag, the
  fault address, one line for each of the first 20 frames of the chain, which ends early at an address below the RAM, and the last
  line; then it halts. Each 64-bit number appears as \<open>printf\<close> prints it (\<open>hex_text\<close>): its hexadecimal digits when its top
  bit is clear, and otherwise a single character. The latter is the case for the return addresses into the kernel image itself:
  the offset that \<open>dump_stack\<close> subtracts makes them negative.
\<close>

theorem el1_sync_handler_abort:
  assumes "can_report lit c" "ec = drop_bit 26 esr AND 0x3F" "ec \<in> {0x20, 0x21, 0x24, 0x25}"
  shows "\<exists>c'. el1_sync_handler lit esr elr far fp c = Some (Halted, c') \<and> length (trace_pcs (cmem c) fp 0) \<le> 20 \<and>
     cmem c' = cmem c \<and> tx c' = tx c @
       bytes ''\<newline>[PANIC] UNHANDLED SYNC EXCEPTION\<newline>  Type: '' @
       bytes (if bit ec 0 then ''Data'' else ''Instruction'') @ bytes '' Abort\<newline>  ESR: 0x'' @ hex_text False (as_long esr) @
       bytes '' (FSC: 0x'' @ hex False (unat (esr AND 0x3F)) @ bytes '', Write: '' @ dec (of_bool (bit esr 6)) @
       bytes '')\<newline>  FAR: 0x'' @ hex_text False (as_long far) @ bytes ''\<newline>'' @ trace_text (cmem c) fp @
       bytes ''[EXC] EL1 synchronous exception\<newline>''"
proof -
  have ec: "ec \<noteq> 0x3C" "ucast ec AND (1 :: u32) \<noteq> 0 \<longleftrightarrow> bit ec 0"
    "ucast ec = (0x20 :: u32) \<or> ucast ec = (0x21 :: u32) \<or> ucast ec = (0x24 :: u32) \<or> ucast ec = (0x25 :: u32)"
    using assms(3) by auto
  define k where "k = (if bit ec 0 then ''Data'' else ''Instruction'')"
  have k: "k = ''Data'' \<or> k = ''Instruction''" by (simp add: k_def)
  let ?fsc = "unat (esr AND 0x3F)"
  from plain_line [OF assms(1), of "''\<newline>[PANIC] UNHANDLED SYNC EXCEPTION\<newline>''"] obtain r1 c1 where
    c1: "printf (lit ''\<newline>[PANIC] UNHANDLED SYNC EXCEPTION\<newline>'') [] c = Some (r1, c1)"
      "emits c (bytes ''\<newline>[PANIC] UNHANDLED SYNC EXCEPTION\<newline>'') c1" "can_report lit c1"
    by (auto simp: report_literals_def plain_def bytes_def)
  from kind_line [OF c1(3) k] obtain r2 c2 where
    c2: "printf (lit ''  Type: %s Abort\<newline>'') [lit k] c1 = Some (r2, c2)"
      "emits c1 (bytes ''  Type: '' @ bytes k @ bytes '' Abort\<newline>'') c2" "can_report lit c2" by auto
  from syndrome_line [OF c2(3), of ?fsc esr "bit esr 6"] fault_status(2) [of esr] obtain r3 c3 where
    c3: "printf (lit ''  ESR: 0x%lx (FSC: 0x%x, Write: %d)\<newline>'') [esr, esr AND 0x3F, of_bool (bit esr 6)] c2 = Some (r3, c3)"
      "emits c2 (bytes ''  ESR: 0x'' @ hex_text False (as_long esr) @ bytes '' (FSC: 0x'' @ hex False ?fsc @
        bytes '', Write: '' @ dec (of_bool (bit esr 6)) @ bytes '')\<newline>'') c3" "can_report lit c3" by auto
  from fault_address_line [OF c3(3), of far] obtain r4 c4 where
    c4: "printf (lit ''  FAR: 0x%lx\<newline>'') [far] c3 = Some (r4, c4)"
      "emits c3 (bytes ''  FAR: 0x'' @ hex_text False (as_long far) @ bytes ''\<newline>'') c4" "can_report lit c4" by auto
  have e4: "emits c (bytes ''\<newline>[PANIC] UNHANDLED SYNC EXCEPTION\<newline>'' @ (bytes ''  Type: '' @ bytes k @ bytes '' Abort\<newline>'') @
      (bytes ''  ESR: 0x'' @ hex_text False (as_long esr) @ bytes '' (FSC: 0x'' @ hex False ?fsc @ bytes '', Write: '' @
       dec (of_bool (bit esr 6)) @ bytes '')\<newline>'') @ bytes ''  FAR: 0x'' @ hex_text False (as_long far) @ bytes ''\<newline>'') c4"
    by (rule emits_trans [OF c1(2) emits_trans [OF c2(2) emits_trans [OF c3(2) c4(2)]]])
  have m: "cmem c4 = cmem c" using emits_fields(2) [OF e4] .
  from dump_stack_ok [OF c4(3), of fp] m obtain c5 where
    c5: "dump_stack lit fp c4 = Some c5" "emits c4 (trace_text (cmem c) fp) c5" "can_report lit c5" by auto
  from plain_line [OF c5(3), of "''[EXC] EL1 synchronous exception\<newline>''"] obtain r6 c6 where
    c6: "printf (lit ''[EXC] EL1 synchronous exception\<newline>'') [] c5 = Some (r6, c6)"
      "emits c5 (bytes ''[EXC] EL1 synchronous exception\<newline>'') c6"
    by (auto simp: report_literals_def plain_def bytes_def)
  have run: "el1_sync_handler lit esr elr far fp c = Some (Halted, c6)"
    unfolding el1_sync_handler_def Let_def assms(2) [symmetric] fault_status(1) write_flag ec(2) k_def [symmetric]
    using ec(3) by (simp only: if_True c1(1) c2(1) c3(1) c4(1) c5(1) c6(1) Option.bind.bind_lunit prod.case)
  show ?thesis
    using run trace_pcs_bound [of 0 "cmem c" fp] emits_fields(1,2) [OF emits_trans [OF e4 emits_trans [OF c5(2) c6(2)]]]
    by (intro exI [of _ c6]) (simp add: bytes_def k_def)
qed

text \<open>A console whose memory holds the literals.\<close>

abbreviation demo_lit :: "string \<Rightarrow> u64" where
  "demo_lit \<equiv> slot_lit report_literals"

definition demo_panic :: console where
  "demo_panic = demo_console\<lparr>cmem := slot_mem report_literals\<rparr>"

lemma demo_panic_ready: "can_report demo_lit demo_panic"
  unfolding demo_panic_def by (rule slot_console) (simp_all add: report_literals_def bytes_def)

text \<open>
  A data abort on a write, in a function of the kernel image: one frame at \<open>0x40200000\<close>, with the return address \<open>0x40101234\<close>,
  which is printed as the single character \<open>$\<close>.
\<close>

definition demo_trace :: console where
  "demo_trace = demo_panic\<lparr>cmem := st64 (slot_mem report_literals) 0x40200008 0x40101234\<rparr>"

lemma demo_trace_ready: "can_report demo_lit demo_trace"
proof -
  have "cstr (cmem demo_trace) (demo_lit s) (bytes s)" if s: "s \<in> set report_literals" for s
  proof (rule cstr_cong)
    show "cstr (cmem demo_panic) (demo_lit s) (bytes s)" using can_print_literal [OF demo_panic_ready s] .
    have len: "length (bytes s) < 64" using s by (auto simp: report_literals_def bytes_def)
    then show "length (bytes s) < 2 ^ 64" by simp
    define k where "k = length (takeWhile (\<lambda>x. x \<noteq> s) report_literals)"
    have "k \<le> 16" using length_takeWhile_le [of "\<lambda>x. x \<noteq> s" report_literals] by (simp add: k_def report_literals_def)
    moreover have "unat (of_nat (64 * k) :: u64) = 64 * k" by (rule unat_u64_of_nat) (use calculation in simp)
    ultimately have u: "unat (demo_lit s) \<le> 1024" unfolding slot_lit_def k_def [symmetric] by linarith
    fix x assume "in_block (demo_lit s) (length (bytes s) + 1) x"
    then have "unat x < 2048" using u len in_block_no_wrap [of "demo_lit s" "length (bytes s) + 1" x] by simp
    then have "\<not> in_block 0x40200008 8 x" using in_block_no_wrap [of "0x40200008" 8 x] by simp
    then show "cmem demo_trace x = cmem demo_panic x" by (simp add: demo_trace_def demo_panic_def st64_def st_bytes_out)
  qed
  then show ?thesis using demo_panic_ready by (simp add: can_print_def literals_def demo_trace_def tx_ready_def)
qed

lemma demo_trace_pcs: "trace_pcs (cmem demo_trace) 0x40200000 0 = [0x40101234 - 0xba400000 + 0x40100000]"
proof -
  have "length report_literals = 16" by (simp add: report_literals_def)
  moreover have "\<not> n div 64 < 16" if "2048 \<le> n" for n :: nat using that by linarith
  ultimately have z: "slot_mem report_literals x = 0" if "2048 \<le> unat x" for x
    using that by (simp add: slot_mem_def Let_def)
  have "ld_bytes (slot_mem report_literals) 0x40200000 8 = replicate 8 0"
  proof (rule nth_equalityI)
    fix i assume "i < length (ld_bytes (slot_mem report_literals) 0x40200000 8)"
    then have i: "i < 8" by simp
    then have "unat (0x40200000 + of_nat i :: u64) = 0x40200000 + i"
      using unat_add_no_wrap [of "0x40200000 :: u64" "of_nat i"] by (simp add: unat_u64_of_nat)
    then show "ld_bytes (slot_mem report_literals) 0x40200000 8 ! i = replicate 8 0 ! i" using z i by simp
  qed simp
  also have "\<dots> = to_le 8 (0 :: u64)" by (simp add: numeral_eq_Suc)
  finally have "ld64 (slot_mem report_literals) 0x40200000 = 0" by (simp add: ld64_def le_word_to_le_full)
  moreover have "disjoint_blocks 0x40200008 8 0x40200000 8" by (rule disjoint_blocks_sym [THEN iffD1], rule disjoint_no_wrap) simp_all
  ultimately have "ld64 (cmem demo_trace) 0x40200000 = 0" by (simp add: demo_trace_def ld_st_disjoint(1))
  moreover have "ld64 (cmem demo_trace) 0x40200008 = 0x40101234" by (simp add: demo_trace_def ld64_st64_same)
  ultimately show ?thesis by (simp add: trace_pcs.simps)
qed

theorem el1_sync_handler_abort_witness:
  "\<exists>c'. el1_sync_handler demo_lit 0x94000045 0 0x1234 0x40200000 demo_trace = Some (Halted, c') \<and>
     tx c' = bytes ''\<newline>[PANIC] UNHANDLED SYNC EXCEPTION\<newline>  Type: Data Abort\<newline>  ESR: 0x94000045 (FSC: 0x5, Write: 1)\<newline>  FAR: 0x1234\<newline>\<newline>--- Stack Trace ---\<newline>[0] PC: 0x$\<newline>-------------------\<newline>[EXC] EL1 synchronous exception\<newline>''"
proof -
  have h: "hex False 5 = bytes ''5''" "hex_text False (as_long 0x94000045) = bytes ''94000045''"
    "hex_text False (as_long 0x1234) = bytes ''1234''" "dec (Suc 0) = bytes ''1''" "dec 0 = bytes ''0''"
    "hex_text False (as_long (0x40101234 - 0xba400000 + 0x40100000)) = bytes ''$''"
    by (simp_all add: hex_text_def as_long_def hex.simps dec.simps bytes_def hex_char_def c_mod16_def)
  have e: "(0x25 :: u64) = drop_bit 26 0x94000045 AND 0x3F" by simp
  have "(0x94000045 :: u64) AND 0x3F = 5" "bit (0x94000045 :: u64) 6" "bit (0x25 :: u64) 0" "tx demo_trace = []"
    by (simp_all add: demo_trace_def demo_panic_def demo_console_def)
  then show ?thesis
    using el1_sync_handler_abort [OF demo_trace_ready e, of 0 "0x1234" "0x40200000"] h
    unfolding trace_text_def demo_trace_pcs by (auto simp: bytes_def)
qed

text \<open>
  Every synchronous exception other than a \<open>brk\<close> instruction stops the core, and \<open>brk\<close> is ignored. An exception
  that a core takes while the lock of \<open>printf\<close> is held, for instance inside \<open>printf\<close> itself, is never reported:
  the first line of the handler waits for a lock that the same core holds.
\<close>

theorem el1_sync_handler_stops:
  assumes "ec = drop_bit 26 esr AND 0x3F"
  shows "(ec = 0x3C \<longrightarrow> el1_sync_handler lit esr elr far fp c = Some (Returned, c)) \<and>
     (ec \<noteq> 0x3C \<longrightarrow> (\<nexists>c'. el1_sync_handler lit esr elr far fp c = Some (Returned, c'))) \<and>
     (ec \<noteq> 0x3C \<and> mmu_enabled c \<and> print_lock c \<noteq> 0 \<longrightarrow> el1_sync_handler lit esr elr far fp c = None)"
proof -
  have ec: "ucast ec = (0x3C :: u32) \<longleftrightarrow> ec = 0x3C"
  proof
    assume "ucast ec = (0x3C :: u32)"
    moreover have "ec = ucast (ucast ec :: u32)"
    proof -
      have m: "(0x3F :: u64) = mask 6" by (simp add: mask_eq_exp_minus_1)
      show ?thesis unfolding assms m by (rule bit_word_eqI) (auto simp: bit_simps)
    qed
    ultimately show "ec = 0x3C" by simp
  qed simp
  have stuck: "el1_sync_handler lit esr elr far fp c = None" if "ec \<noteq> 0x3C" "mmu_enabled c" "print_lock c \<noteq> 0"
    using that unfolding el1_sync_handler_def Let_def assms [symmetric] ec by (simp add: printf_locked)
  have no_return: "x \<bind> f \<noteq> Some (Returned, c')" if "\<And>y. f y \<noteq> Some (Returned, c')"
    for x :: "'a option" and f :: "'a \<Rightarrow> (outcome \<times> console) option" and c'
    using that by (cases x) simp_all
  have "el1_sync_handler lit esr elr far fp c \<noteq> Some (Returned, c')" if "ec \<noteq> 0x3C" for c'
    using that unfolding el1_sync_handler_def Let_def assms [symmetric] ec
    by (simp del: Option.bind_eq_Some_conv add: no_return split_def)
  moreover have "el1_sync_handler lit esr elr far fp c = Some (Returned, c)" if "ec = 0x3C"
    using that unfolding el1_sync_handler_def Let_def assms [symmetric] ec by simp
  ultimately show ?thesis using stuck by simp
qed

theorem el1_sync_handler_stops_witness:
  "el1_sync_handler demo_lit 0xF2000000 0 0 0 demo_panic = Some (Returned, demo_panic) \<and>
   el1_sync_handler demo_lit 0x96000000 0 0 0 (demo_panic\<lparr>print_lock := 1\<rparr>) = None"
proof -
  have "(0x3C :: u64) = drop_bit 26 0xF2000000 AND 0x3F" "(0x25 :: u64) = drop_bit 26 0x96000000 AND 0x3F" by simp_all
  from el1_sync_handler_stops [OF this(1)] el1_sync_handler_stops [OF this(2), of demo_lit 0 0 0 "demo_panic\<lparr>print_lock := 1\<rparr>"]
  show ?thesis by (simp add: demo_panic_def demo_console_def)
qed

text \<open>
  C39. The interrupt handler acknowledges one interrupt and completes exactly that one, whatever its number, after
  it was handled. Only interrupt 48, the network device, is handled: the device is told which conditions were
  seen, and when its rings are to be looked at, first the received packets are taken (\<open>net_poll_rx\<close>, which does nothing on an empty
  ring), and then, from the state that this left, the buffers of all transmitted frames are released and the transmit ring is
  up to date, whether or not there were packets; when the handling of the packets or a release does not succeed, neither does the handler,
  and used buffers in a transmit queue of size zero are undefined (a division by zero). Any other interrupt leaves the network driver as
  it was.
\<close>

theorem el1_irq_handler_correct:
  assumes "v = gic_regs g (gic_reads g) GICC_IAR" "g' = g\<lparr>gic_reads := gic_reads g + 1, gic_writes := gic_writes g @ [(GICC_EOIR, v)]\<rparr>"
    "status = dev_read n (dev_reads n) 0x60" "n1 = n\<lparr>dev_reads := dev_reads n + 1, dev_writes := dev_writes n @ [(0x64, status)]\<rparr>"
  shows "(\<forall>h n'. el1_irq_handler g n = Some (h, n') \<longrightarrow> h = g') \<and>
     (v \<noteq> 48 \<longrightarrow> el1_irq_handler g n = Some (g', n)) \<and>
     (v = 48 \<and> \<not> bit status 0 \<longrightarrow> el1_irq_handler g n = Some (g', n1)) \<and>
     (v = 48 \<and> bit status 0 \<and> net_poll_rx n1 = None \<longrightarrow> el1_irq_handler g n = None) \<and>
     (\<forall>n2 u. v = 48 \<and> bit status 0 \<and> net_poll_rx n1 = Some n2 \<and> u = ld16 (nmem n2) (used_idx_at (txq n2)) \<longrightarrow>
       el1_irq_handler g n = (if qsize (txq n2) = 0 \<and> u \<noteq> last_used_idx (txq n2) then None
         else map_option (\<lambda>p. (g', n2\<lparr>frames := p, txq := (txq n2)\<lparr>last_used_idx := u\<rparr>\<rparr>))
           (free_all (tx_done (unat (u - last_used_idx (txq n2))) (last_used_idx (txq n2)) (txq n2) (nmem n2)) (frames n2)))) \<and>
     (last_used_idx (rxq n) = ld16 (nmem n) (used_idx_at (rxq n)) \<longrightarrow> net_poll_rx n1 = Some n1)"
proof -
  have v: "ucast (ucast v :: u64) = v" by (rule bit_word_eqI) (auto simp: bit_simps)
  have run: "el1_irq_handler g n = map_option (\<lambda>n'. (g', n')) (if v = 48 then virtio_net_handle_irq n else Some n)"
    unfolding el1_irq_handler_def gic_aoi_def Gic.read32_def Let_def prod.case assms(1) [symmetric] v
    by (simp add: gic_eoi_def Gic.write32_def assms(2) v map_option_case split: option.split)
  have irq: "virtio_net_handle_irq n = (if bit status 0 then Option.bind (net_poll_rx n1) net_cleanup_tx else Some n1)"
    by (simp add: virtio_net_handle_irq_def Net.read32_def Net.write32_def assms(3,4))
  have "net_poll_rx n1 = Some n1" if "last_used_idx (rxq n) = ld16 (nmem n) (used_idx_at (rxq n))"
    using that by (simp add: net_poll_rx_def rx_loop.simps [of _ n1]) (simp add: assms(4))
  moreover have "net_cleanup_tx n2 = (if qsize (txq n2) = 0 \<and> u \<noteq> last_used_idx (txq n2) then None
       else map_option (\<lambda>p. n2\<lparr>frames := p, txq := (txq n2)\<lparr>last_used_idx := u\<rparr>\<rparr>)
         (free_all (tx_done (unat (u - last_used_idx (txq n2))) (last_used_idx (txq n2)) (txq n2) (nmem n2)) (frames n2)))"
    if u: "u = ld16 (nmem n2) (used_idx_at (txq n2))" for n2 u
  proof (cases "qsize (txq n2) = 0")
    case True
    have "(txq n2)\<lparr>last_used_idx := last_used_idx (txq n2)\<rparr> = txq n2" by (cases "txq n2") simp
    then have "n2\<lparr>txq := (txq n2)\<lparr>last_used_idx := last_used_idx (txq n2)\<rparr>\<rparr> = n2" by simp
    then show ?thesis using True u by (subst net_cleanup_tx.simps) (simp add: tx_round_def)
  next
    case False
    then show ?thesis using cleanup_tx_ok [OF False refl] u by simp
  qed
  ultimately show ?thesis unfolding run irq by (auto simp: map_option.compositionality comp_def)
qed

theorem el1_irq_handler_correct_witness:
  "\<exists>n'. el1_irq_handler \<lparr>gic_regs = (\<lambda>_ _. 48), gic_reads = 0, gic_writes = []\<rparr> (demo_done\<lparr>dev_read := (\<lambda>_ _. 1)\<rparr>) =
     Some (\<lparr>gic_regs = (\<lambda>_ _. 48), gic_reads = 1, gic_writes = [(0x08010010, 48)]\<rparr>, n') \<and>
     stack_top (frames n') = 3 \<and> dev_writes n' = [(0x64, 1)]"
proof -
  let ?n = "demo_done\<lparr>dev_read := (\<lambda>_ _. 1)\<rparr>"
  let ?g = "\<lparr>gic_regs = (\<lambda>_ _. 48), gic_reads = 0, gic_writes = []\<rparr> :: gic"
  obtain p where p: "free_all [0x40001000] demo_pmm = Some p" "stack_top p = 3" using demo_done_release by blast
  have e: "unat (0 - 65535 :: u16) = Suc 0" by simp
  let ?n1 = "?n\<lparr>dev_reads := 1, dev_writes := [(0x64, 1)]\<rparr>"
  have a: "48 = gic_regs ?g (gic_reads ?g) GICC_IAR"
    "\<lparr>gic_regs = (\<lambda>_ _. 48), gic_reads = 1, gic_writes = [(0x08010010, 48)]\<rparr> =
      ?g\<lparr>gic_reads := gic_reads ?g + 1, gic_writes := gic_writes ?g @ [(GICC_EOIR, 48)]\<rparr>"
    "1 = dev_read ?n (dev_reads ?n) 0x60" "?n1 = ?n\<lparr>dev_reads := dev_reads ?n + 1, dev_writes := dev_writes ?n @ [(0x64, 1)]\<rparr>"
    by (simp_all add: GICC_EOIR_def GIC_CPU_BASE_def GIC_DIST_BASE_def demo_done_def demo_net_def)
  have b: "qsize (txq ?n) \<noteq> 0" "last_used_idx (rxq ?n) = ld16 (nmem ?n) (used_idx_at (rxq ?n))"
    "0 = ld16 (nmem ?n) (used_idx_at (txq ?n))" "frames ?n = demo_pmm" "last_used_idx (txq ?n) = 65535"
    "tx_done (Suc 0) 65535 (txq ?n) (nmem ?n) = [0x40001000]"
    using demo_done_queue by (simp_all del: tx_done.simps)
  have "bit (1 :: u32) 0" by simp
  let ?n2 = "?n\<lparr>dev_reads := dev_reads ?n + 1, dev_writes := dev_writes ?n @ [(0x64, 1)]\<rparr>"
  note c = el1_irq_handler_correct [OF a(1,2,3) refl]
  have poll: "net_poll_rx ?n2 = Some ?n2" using c b(2) by blast
  have q: "txq ?n2 = txq ?n" "nmem ?n2 = nmem ?n" "frames ?n2 = frames ?n" by simp_all
  have n1: "?n2 = ?n1" using a(4) by simp
  have bit0: "bit (1 :: u32) 0" by simp
  have "48 = (48 :: u32) \<and> bit (1 :: u32) 0 \<and> net_poll_rx ?n2 = Some ?n2 \<and> 0 = ld16 (nmem ?n2) (used_idx_at (txq ?n2))"
    unfolding q by (intro conjI refl bit0 poll b(3))
  from mp [OF spec [OF spec [OF conjunct1 [OF conjunct2 [OF conjunct2 [OF conjunct2 [OF conjunct2 [OF c]]]]]]] this] have
    "el1_irq_handler ?g ?n = map_option (\<lambda>p. (?g\<lparr>gic_reads := 1, gic_writes := [(0x08010010, 48)]\<rparr>,
        ?n1\<lparr>frames := p, txq := (txq ?n)\<lparr>last_used_idx := 0\<rparr>\<rparr>))
      (free_all (tx_done (unat (0 - last_used_idx (txq ?n))) (last_used_idx (txq ?n)) (txq ?n) (nmem ?n)) (frames ?n))"
    unfolding q n1 using b(1) by simp
  then show ?thesis unfolding b(4,5) e b(6) p(1) using p(2) by simp
qed

end
