(* ===== verification/Threads_Run.thy ===== *)
theory Threads_Run
  imports Startup
begin

text \<open>
  All runs of the threads (\<open>src/src/pthread.c\<close> with \<open>src/src/heap.c\<close>): after \<open>heap_init\<close> and \<open>sched_init\<close> the two cores
  yield, create threads, compute, and use the heap, in any order. Every operation takes effect under
  its lock, so a run is a sequence of operations. Threads that exit are not in these runs, because
  \<open>pthread_exit\<close> never succeeds, and neither are those that join, which wait for an exit.
\<close>

section \<open>The invariant of the runs\<close>

text \<open>
  A task whose priority is above \<open>IDLE\<close> waits in the queue of its priority or runs on a core. Nothing is said of the
  tasks with priority \<open>IDLE\<close>: the idle threads, the threads that are created with the parameter 0, and the task of
  \<open>core_entry\<close> are put into no queue, so that they run only until their core finds another thread, if ever.
\<close>

definition placed :: "sched \<Rightarrow> (nat \<Rightarrow> u64 list) \<Rightarrow> bool" where
  "placed s q \<longleftrightarrow> (\<forall>x. is_task s x \<and> prio_of s x \<noteq> 0 \<longrightarrow>
     x \<in> set (q (prio_of s x)) \<or> (\<exists>c < 2. core_task (cores s ! c) = x))"

text \<open>The set \<open>U\<close> holds the blocks that the threads have allocated.\<close>

definition threads_ok :: "sched \<Rightarrow> (u64 \<times> nat) set \<Rightarrow> (nat \<Rightarrow> u64 list) \<Rightarrow> layout \<Rightarrow> bool" where
  "threads_ok s U q L \<longleftrightarrow> sched_inv s q \<and> tasks_in_heap s L \<and> U \<subseteq> blocks (kheap s) L \<and>
     (\<forall>t. is_task s t \<longrightarrow> (t, capacity 304) \<notin> U) \<and> (\<forall>c < 2. task_to_free (cores s ! c) = 0) \<and> placed s q"

lemma threads_okD:
  assumes "threads_ok s U q L"
  shows "sched_inv s q" "tasks_in_heap s L" "U \<subseteq> blocks (kheap s) L" "is_task s t \<Longrightarrow> (t, capacity 304) \<notin> U"
    "c < 2 \<Longrightarrow> task_to_free (cores s ! c) = 0" "placed s q" "heap_inv (kheap s) L"
    "is_task s t \<Longrightarrow> (t, capacity 304) \<in> blocks (kheap s) L"
  using assms by (simp_all add: threads_ok_def tasks_in_heap_def is_task_def)

lemma task_nonzero:
  assumes "tasks_in_heap s L" "is_task s t"
  shows "t \<noteq> 0"
proof
  assume "t = 0"
  then have "(0, capacity 304) \<in> blocks (kheap s) L" using assms by (simp add: tasks_in_heap_def is_task_def)
  then show False using old_size_ok(3) [of "kheap s" L 0] assms(1) by (simp add: tasks_in_heap_def heap_inv_def)
qed

text \<open>The heap depends on the memory in its pages only.\<close>

lemma heap_ok_outside:
  assumes i: "heap_ok h L" and m: "\<And>x j. j < length (pages h) \<Longrightarrow> page_of x = pg h j \<Longrightarrow> m x = hmem h x"
  shows "heap_ok (h\<lparr>hmem := m\<rparr>) L"
proof -
  let ?h = "h\<lparr>hmem := m\<rparr>"
  have "cache_part ?h L c" if c: "c < 8" for c
  proof -
    note p = cache_partD [OF i c]
    have "hmem ?h x = hmem h x" if "page_of x \<in> set (partials L c) \<union> set (fulls L c)" for x
    proof -
      have "slab_record h (page_of x)" using p(3) that by (simp add: slabs_of_def)
      then show ?thesis using m by (auto simp: slab_record_def)
    qed
    then have "cache_ok c (csize c) ?h (partials L c) (fulls L c) (frees L)"
      by (intro cache_ok_frame [OF p(1)]) simp_all
    moreover have "slab_record ?h q = slab_record h q" for q by (simp add: slab_record_def pg_def page_idx_to_virt_def)
    ultimately show ?thesis using p(2,3) by (simp add: cache_part_def)
  qed
  then show ?thesis using i by (simp add: heap_ok_def heap_geometry_def caches_addr_ok_def pages_def)
qed

section \<open>One operation\<close>

lemma placed_yield:
  assumes p: "placed s q" and t: "core_task (cores s ! c) = t" and pick: "pick_next t (requeued (prio_of s t) t q) = (n, q')"
    and s': "cores s' = (cores s)[c := k\<lparr>core_task := n\<rparr>]" "prio_of s' = prio_of s" "is_task s' = is_task s" and c: "c < length (cores s)" "c < 2"
  shows "placed s' q'"
proof -
  have "x \<in> set (q' (prio_of s x)) \<or> (\<exists>d < 2. core_task (cores s' ! d) = x)"
    if x: "is_task s x" "prio_of s x \<noteq> 0" and ne: "x \<noteq> n" for x
  proof -
    let ?r = "requeued (prio_of s t) t q"
    consider (queued) "x \<in> set (?r (prio_of s x))" | (other) d where "d < 2" "d \<noteq> c" "core_task (cores s ! d) = x"
    proof -
      from p x consider (q) "x \<in> set (q (prio_of s x))" | (run) d where "d < 2" "core_task (cores s ! d) = x"
        unfolding placed_def by blast
      then show thesis
      proof cases
        case q
        then have "x \<in> set (?r (prio_of s x))" by (auto simp: requeued_def)
        then show thesis by (rule queued)
      next
        case run
        show thesis
        proof (cases "d = c")
          case True
          then have "x \<in> set (?r (prio_of s x))" using run t x by (simp add: requeued_def)
          then show thesis by (rule queued)
        qed (use run other in blast)
      qed
    qed
    then show ?thesis
    proof cases
      case queued
      have "x \<in> set (q' (prio_of s x))"
      proof (cases "\<forall>p < COUNT. ?r p = []")
        case True
        then show ?thesis using queued pick by (auto simp: pick_next_def)
      next
        case False
        from pick_next_members(2) [OF pick this] show ?thesis using queued ne by (auto simp: in_set_remove1)
      qed
      then show ?thesis ..
    next
      case other
      then show ?thesis using s'(1) by auto
    qed
  qed
  moreover have "core_task (cores s' ! c) = n" using s'(1) c by simp
  ultimately show ?thesis using s'(2,3) c(2) unfolding placed_def by metis
qed

lemma threads_yield:
  assumes ok: "threads_ok s U q L" and c: "c < 2" "core_task (cores s ! c) \<noteq> 0"
  shows "\<exists>s' q'. sched_yield c s = Some s' \<and> threads_ok s' U q' L \<and> core_task (cores s' ! c) \<noteq> 0 \<and>
    (\<forall>d. d \<noteq> c \<longrightarrow> cores s' ! d = cores s ! d)"
proof -
  note d = threads_okD [OF ok]
  let ?t = "core_task (cores s ! c)"
  obtain n q' where pick: "pick_next ?t (requeued (prio_of s ?t) ?t q) = (n, q')" by fastforce
  from sched_yield_ok [OF d(1) c(1) refl c(2) d(5) [OF c(1)] pick] obtain s' where
    s': "sched_yield c s = Some s'" "yielded c ?t n q' s s'" by blast
  have f: "sched_inv s' q'" "cores s' = (cores s)[c := (cores s ! c)\<lparr>core_task := n\<rparr>]" "prio_of s' = prio_of s"
    "is_task s' = is_task s" "kheap s' = kheap s" "state_of s' n = Some TASK_RUNNING" using s'(2) by (simp_all add: yielded_def)
  have len: "length (cores s) = 2" using sched_invD(5) [OF d(1)] .
  have "task_to_free (cores s' ! i) = 0" if "i < 2" for i
    using d(5) [OF that] d(5) [OF c(1)] f(2) len c(1) that by (cases "i = c") simp_all
  moreover have th: "tasks_in_heap s' L" using d(2) f(4,5) by (simp add: tasks_in_heap_def is_task_def fun_eq_iff)
  moreover have "placed s' q'" by (rule placed_yield [OF d(6) refl pick f(2-4)]) (use c len in simp_all)
  moreover have "is_task s' n" using f(6) by (auto simp: state_of_def is_task_def)
  then have "core_task (cores s' ! c) \<noteq> 0" using task_nonzero [OF th] f(2) len c(1) by auto
  moreover have "\<forall>d. d \<noteq> c \<longrightarrow> cores s' ! d = cores s ! d" using f(2) by simp
  ultimately show ?thesis using s'(1) f(1,4,5) d(3,4) by (auto simp: threads_ok_def)
qed


lemma threads_create:
  assumes ok: "threads_ok s U q L" and attr: "\<forall>a. attr = Some a \<longrightarrow> is_initialized a \<noteq> 0 \<longrightarrow> 0 \<le> schedparam a"
  shows "\<exists>r t s' q' L'. pthread_create attr f arg s = Some (r, t, s') \<and> threads_ok s' U q' L' \<and> cores s' = cores s \<and>
    (r = EAGAIN \<and> q' = q \<or>
     r = 0 \<and> t \<noteq> 0 \<and> is_task s' t \<and> \<not> is_task s t \<and> prio_of s' = (prio_of s)(t := unat (create_priority attr arg s)) \<and>
       q' = (let p = unat (create_priority attr arg s) in if p = 0 then q else q(p := q p @ [t])))"
proof -
  note d = threads_okD [OF ok]
  from pthread_create_in_heap [OF d(1,2) attr, of f arg] obtain r t s' L' where
    s': "pthread_create attr f arg s = Some (r, t, s')" "tasks_in_heap s' L'" "blocks (kheap s) L \<subseteq> blocks (kheap s') L'" "cores s' = cores s"
    and cases: "r = EAGAIN \<and> sched_inv s' q \<and> tasks s' = tasks s \<or>
         r = 0 \<and> t \<noteq> 0 \<and> tasks s t = None \<and> (t, capacity 304) \<notin> blocks (kheap s) L \<and>
         (\<forall>x. tasks s' x \<noteq> None \<longleftrightarrow> x = t \<or> tasks s x \<noteq> None) \<and>
         prio_of s' = (prio_of s)(t := unat (create_priority attr arg s)) \<and>
         sched_inv s' (let p = unat (create_priority attr arg s) in if p = 0 then q else q(p := q p @ [t]))"
    unfolding created_def by blast
  have U: "U \<subseteq> blocks (kheap s') L'" using d(3) s'(3) by blast
  from cases show ?thesis
  proof (elim disjE conjE)
    assume e: "r = EAGAIN" "sched_inv s' q" "tasks s' = tasks s"
    then have "is_task s' = is_task s" "prio_of s' = prio_of s" by (simp_all add: is_task_def prio_of_def fun_eq_iff)
    then have "threads_ok s' U q L'" using e s'(2,4) U d(4-6) by (simp add: threads_ok_def placed_def)
    then show ?thesis using s'(1,4) e(1) by blast
  next
    let ?p = "unat (create_priority attr arg s)"
    let ?q = "if ?p = 0 then q else q(?p := q ?p @ [t])"
    assume e: "r = 0" "t \<noteq> 0" "tasks s t = None" "(t, capacity 304) \<notin> blocks (kheap s) L"
      "\<forall>x. tasks s' x \<noteq> None \<longleftrightarrow> x = t \<or> tasks s x \<noteq> None" "prio_of s' = (prio_of s)(t := ?p)"
      "sched_inv s' (let p = ?p in if p = 0 then q else q(p := q p @ [t]))"
    have tk: "is_task s' x \<longleftrightarrow> x = t \<or> is_task s x" "\<not> is_task s t" for x using e(3,5) by (auto simp: is_task_def)
    have "placed s' ?q"
      unfolding placed_def
    proof (intro allI impI)
      fix x assume x: "is_task s' x \<and> prio_of s' x \<noteq> 0"
      show "x \<in> set (?q (prio_of s' x)) \<or> (\<exists>c < 2. core_task (cores s' ! c) = x)"
      proof (cases "x = t")
        case True
        then show ?thesis using x e(6) by simp
      next
        case False
        then have "x \<in> set (q (prio_of s x)) \<or> (\<exists>c < 2. core_task (cores s ! c) = x)"
          using x d(6) tk(1) e(6) by (simp add: placed_def)
        then show ?thesis using False e(6) s'(4) by auto
      qed
    qed
    moreover have "(x, capacity 304) \<notin> U" if "is_task s' x" for x using that tk(1) [of x] d(3) d(4) [of x] e(4) by auto
    moreover have "sched_inv s' ?q" using e(7) by (simp only: Let_def)
    ultimately have "threads_ok s' U ?q L'" using s'(2,4) U d(5) unfolding threads_ok_def by simp
    moreover have "is_task s' t" using tk(1) by simp
    moreover have "?q = (let p = ?p in if p = 0 then q else q(p := q p @ [t]))" by (simp only: Let_def)
    ultimately show ?thesis using s'(1,4) e(1,2,6) tk(2) by blast
  qed
qed

text \<open>The heap changes, the tasks stay in their blocks.\<close>

lemma threads_heap:
  assumes ok: "threads_ok s U q L" and h: "heap_inv h L'" "U' \<subseteq> blocks h L'"
    and t: "\<And>t. is_task s t \<Longrightarrow> (t, capacity 304) \<in> blocks h L' \<and> (t, capacity 304) \<notin> U'"
  shows "threads_ok (s\<lparr>kheap := h\<rparr>) U' q L'"
proof -
  note d = threads_okD [OF ok]
  have "sched_inv (s\<lparr>kheap := h\<rparr>) q" using sched_inv_heap [OF d(1), where n = "tid_counter s"] by simp
  moreover have "is_task (s\<lparr>kheap := h\<rparr>) = is_task s" "prio_of (s\<lparr>kheap := h\<rparr>) = prio_of s"
    by (simp_all add: is_task_def prio_of_def fun_eq_iff)
  ultimately show ?thesis using d(5,6) h t by (simp add: threads_ok_def tasks_in_heap_def placed_def is_task_def)
qed

lemma threads_malloc:
  assumes ok: "threads_ok s U q L"
  shows "\<exists>a h L'. malloc n (kheap s) = Some (a, h) \<and>
    threads_ok (s\<lparr>kheap := h\<rparr>) (if a = 0 then U else insert (a, capacity (unat n)) U) q L'"
proof -
  note d = threads_okD [OF ok]
  from malloc_cases [OF d(7), of n] obtain a h L' where m: "malloc n (kheap s) = Some (a, h)" "heap_inv h L'"
    "blocks (kheap s) L \<subseteq> blocks h L'"
    "a \<noteq> 0 \<Longrightarrow> (a, capacity (unat n)) \<in> blocks h L' \<and> (a, capacity (unat n)) \<notin> blocks (kheap s) L" by blast
  have "threads_ok (s\<lparr>kheap := h\<rparr>) (if a = 0 then U else insert (a, capacity (unat n)) U) q L'"
    by (rule threads_heap [OF ok m(2)]) (use m(3,4) d(3,4,8) in \<open>auto split: if_splits\<close>)
  then show ?thesis using m(1) by blast
qed

lemma threads_free:
  assumes ok: "threads_ok s U q L" and b: "(a, n) \<in> U"
  shows "\<exists>h L'. free a (kheap s) = Some h \<and> threads_ok (s\<lparr>kheap := h\<rparr>) (U - {(a, n)}) q L'"
proof -
  note d = threads_okD [OF ok]
  from free_ok [OF d(7), of a n] b d(3) obtain h L' where f: "free a (kheap s) = Some h" "heap_inv h L'"
    "blocks h L' = blocks (kheap s) L - {(a, n)}" by blast
  have "threads_ok (s\<lparr>kheap := h\<rparr>) (U - {(a, n)}) q L'"
    by (rule threads_heap [OF ok f(2)]) (use f(3) b d(3,4,8) in auto)
  then show ?thesis using f(1) by blast
qed

lemma threads_modify:
  assumes ok: "threads_ok s U q L" and b: "(a, n) \<in> U" "\<And>x. \<not> in_block a n x \<Longrightarrow> m x = hmem (kheap s) x"
  shows "threads_ok (s\<lparr>kheap := (kheap s)\<lparr>hmem := m\<rparr>\<rparr>) U q L"
proof -
  note d = threads_okD [OF ok]
  have "(a, n) \<in> blocks (kheap s) L" using b(1) d(3) by blast
  from heap_inv_write(1) [OF d(7) this b(2)] show ?thesis
    by (rule threads_heap [OF ok]) (use d(3,4,8) in simp_all)
qed

lemma threads_outside:
  assumes ok: "threads_ok s U q L"
    and m: "\<And>x j. j < length (pages (kheap s)) \<Longrightarrow> page_of x = pg (kheap s) j \<Longrightarrow> m x = hmem (kheap s) x"
  shows "threads_ok (s\<lparr>kheap := (kheap s)\<lparr>hmem := m\<rparr>\<rparr>) U q L"
proof -
  note d = threads_okD [OF ok]
  have "heap_inv ((kheap s)\<lparr>hmem := m\<rparr>) L" using heap_ok_outside [OF _ m] d(7) by (simp add: heap_inv_def)
  then show ?thesis by (rule threads_heap [OF ok]) (use d(3,4,8) in simp_all)
qed

lemma threads_compute:
  assumes ok: "threads_ok s U q L"
  shows "threads_ok (s\<lparr>regs := r\<rparr>) U q L"
proof -
  have "is_task (s\<lparr>regs := r\<rparr>) = is_task s" "prio_of (s\<lparr>regs := r\<rparr>) = prio_of s" "state_of (s\<lparr>regs := r\<rparr>) = state_of s"
    "running_ok (s\<lparr>regs := r\<rparr>) = running_ok s"
    by (simp_all add: is_task_def prio_of_def state_of_def running_ok_def fun_eq_iff)
  moreover have "rq_rep (s\<lparr>regs := r\<rparr>) q = rq_rep s q"
    by (rule iffI; erule rq_rep_cong) (simp_all add: task_next_def task_prev_def is_task_def prio_of_def)
  ultimately show ?thesis using ok by (simp add: threads_ok_def sched_inv_def tasks_in_heap_def placed_def)
qed


text \<open>A core that had no task gets one.\<close>

lemma sched_inv_adopt:
  assumes inv: "sched_inv s q" and c: "c < 2" "core_task (cores s ! c) = 0" and t: "t \<noteq> 0" "running_ok s q t"
    and other: "\<And>d. d < 2 \<Longrightarrow> core_task (cores s ! d) \<noteq> t"
  shows "sched_inv (s\<lparr>cores := (cores s)[c := (cores s ! c)\<lparr>core_task := t\<rparr>]\<rparr>) q"
proof -
  let ?s = "s\<lparr>cores := (cores s)[c := (cores s ! c)\<lparr>core_task := t\<rparr>]\<rparr>"
  note d = sched_invD [OF inv]
  have "rq_rep ?s q" by (rule rq_rep_cong [OF d(1)]) (simp_all add: task_next_def task_prev_def is_task_def prio_of_def)
  moreover have "state_of ?s = state_of s" "running_ok ?s = running_ok s"
    by (simp_all add: state_of_def running_ok_def prio_of_def fun_eq_iff)
  moreover have "core_task (cores ?s ! i) = (if i = c then t else core_task (cores s ! i))" "cpu_id (cores ?s ! i) = cpu_id (cores s ! i)"
    if "i < 2" for i using that c(1) d(5) by (cases "i = c"; simp)+
  moreover have "core_task (cores s ! 0) \<noteq> t" "core_task (cores s ! 1) \<noteq> t" using other [of 0] other [of 1] by simp_all
  ultimately show ?thesis using inv c t unfolding sched_inv_def by (auto simp: less_2_cases_iff)
qed

lemma set_cpu_id:
  assumes "sched_inv s q"
  shows "upd_core 1 (cpu_id_update (\<lambda>_. 1)) s = Some s"
proof -
  have "cpu_id (cores s ! 1) = 1" using sched_invD(6) [OF assms, of 1] by simp
  then have "(cores s ! 1)\<lparr>cpu_id := 1\<rparr> = cores s ! 1" by (cases "cores s ! 1") simp
  then have "(cores s)[1 := (cores s ! 1)\<lparr>cpu_id := 1\<rparr>] = cores s" by simp
  then have "s\<lparr>cores := (cores s)[1 := (cores s ! 1)\<lparr>cpu_id := 1\<rparr>]\<rparr> = s" by simp
  then show ?thesis using sched_invD(5) [OF assms] by (simp add: upd_core_def array_facts)
qed

text \<open>\<open>sched_init_secondary\<close> on the second core, when it gets its memory.\<close>

lemma threads_secondary:
  assumes ok: "threads_ok s U q L" and c: "core_task (cores s ! 1) = 0" and run: "sched_init_secondary 1 s = Some s'"
  shows "\<exists>L' t s1 m. threads_ok s' U q L' \<and> pthread_create None (idle_at s) (idle_flag_at s) s = Some (0, t, s1) \<and>
    t \<noteq> 0 \<and> is_task s1 t \<and> \<not> is_task s t \<and> m \<noteq> 0 \<and> \<not> is_task s1 m \<and>
    tasks s' = (tasks s1)(m \<mapsto> zero_task\<lparr>t_priority := IDLE, t_state := TASK_RUNNING\<rparr>) \<and>
    cores s' = (cores s)[1 := (cores s ! 1)\<lparr>core_task := m\<rparr>] \<and> tid_counter s' = tid_counter s1 \<and>
    malloc TASK_SIZE (kheap s1) = Some (m, kheap s')"
proof -
  note d = threads_okD [OF ok]
  note len = sched_invD(5) [OF d(1)]
  from set_cpu_id [OF d(1)] obtain t s1 s2 s3 where
    s1: "pthread_create None (idle_at s) (idle_flag_at s) s = Some (0, t, s1)" and
    s2: "upd_task t (t_priority_update (\<lambda>_. IDLE)) s1 = Some s2" and
    s3: "upd_core 1 (core_task_update (\<lambda>_. t)) s2 = Some s3" and
    s': "adopt_running 1 (\<lambda>k. k\<lparr>t_priority := IDLE, t_state := TASK_RUNNING\<rparr>) s3 = Some s'"
    using run by (auto simp: sched_init_secondary_def bind_eq_Some_conv guard_def split: if_splits)
  from threads_create [OF ok, of None "idle_at s" "idle_flag_at s"] s1 obtain L1 where
    ok1: "threads_ok s1 U q L1" "cores s1 = cores s" "is_task s1 t" "prio_of s1 t = unat IDLE" "t \<noteq> 0" "\<not> is_task s t"
    by (auto simp: create_priority_def EAGAIN_def IDLE_def)
  obtain k where k: "tasks s1 t = Some k" using ok1(3) by (auto simp: is_task_def)
  then have "t_priority k = IDLE" using ok1(4) by (simp add: prio_of_def word_unat_eq_iff)
  then have "k\<lparr>t_priority := IDLE\<rparr> = k" by (cases k) simp
  then have "s2 = s1\<lparr>tasks := (tasks s1)(t \<mapsto> k)\<rparr>" using s2 k by (simp add: upd_task_def)
  moreover have "(tasks s1)(t \<mapsto> k) = tasks s1" using k by auto
  ultimately have e2: "s2 = s1" by simp
  note d1 = threads_okD [OF ok1(1)]
  have e3: "s3 = s1\<lparr>cores := (cores s)[1 := (cores s ! 1)\<lparr>core_task := t\<rparr>]\<rparr>"
    using s3 len ok1(2) by (simp add: e2 upd_core_def array_facts)
  from malloc_cases [OF d1(7), of TASK_SIZE] obtain m h L2 where m: "malloc TASK_SIZE (kheap s1) = Some (m, h)" "heap_inv h L2"
    "blocks (kheap s1) L1 \<subseteq> blocks h L2" "m \<noteq> 0 \<Longrightarrow> (m, capacity 304) \<in> blocks h L2 \<and> (m, capacity 304) \<notin> blocks (kheap s1) L1" by auto
  let ?k = "zero_task\<lparr>t_priority := IDLE, t_state := TASK_RUNNING\<rparr>"
  let ?s4 = "s1\<lparr>kheap := h, tasks := (tasks s1)(m \<mapsto> ?k)\<rparr>"
  let ?s5 = "?s4\<lparr>cores := (cores ?s4)[1 := (cores ?s4 ! 1)\<lparr>core_task := m\<rparr>]\<rparr>"
  have e5: "s' = ?s5" and mz: "m \<noteq> 0"
    using s' m(1) len ok1(2)
    by (auto simp: adopt_running_def heap_malloc_def e3 clear_task_def upd_task_def upd_core_def array_facts bind_eq_Some_conv guard_def split: if_splits)
  have new: "\<not> is_task s1 m" using d1(8) [of m] m(4) [OF mz] by blast
  have inv4: "sched_inv (s1\<lparr>kheap := h\<rparr>) q" using sched_inv_heap [OF d1(1), where n = "tid_counter s1"] by simp
  have inv4': "sched_inv ?s4 q" by (rule sched_inv_fresh(1) [OF inv4, where t = m and k = ?k]) (use new in \<open>simp_all add: is_task_def\<close>)
  have mq: "\<And>p. m \<notin> set (q p)"
    by (rule sched_inv_fresh(2) [OF inv4, where t = m and k = ?k and s' = ?s4]) (use new in \<open>simp_all add: is_task_def\<close>)
  have idle: "core_task (cores ?s4 ! 1) = 0" using c ok1(2) by simp
  have run: "running_ok ?s4 q m" using mq by (simp add: running_ok_def state_of_def prio_of_def IDLE_def COUNT_def)
  have other: "core_task (cores ?s4 ! i) \<noteq> m" if "i < 2" for i
  proof
    assume e: "core_task (cores ?s4 ! i) = m"
    then have "running_ok s1 q m" using sched_invD(7) [OF d1(1) that] mz by simp
    then show False using new by (auto simp: running_ok_def state_of_def is_task_def)
  qed
  have one: "(1 :: nat) < 2" by simp
  have inv5: "sched_inv ?s5 q" by (rule sched_inv_adopt [OF inv4' one idle mz run other])
  have tk: "is_task ?s5 x \<longleftrightarrow> x = m \<or> is_task s1 x" and pr: "prio_of ?s5 x = (if x = m then 0 else prio_of s1 x)" for x
    by (auto simp: is_task_def prio_of_def IDLE_def zero_task_def)
  have core: "core_task (cores ?s5 ! i) = (if i = 1 then m else core_task (cores s1 ! i))" "task_to_free (cores ?s5 ! i) = 0" if "i < 2" for i
    using that len ok1(2) d1(5) [OF that] d1(5) [OF one] by (cases "i = 1"; simp)+
  have "(x, capacity 304) \<in> blocks h L2" if "tasks ?s5 x \<noteq> None" for x
  proof -
    have "is_task ?s5 x" using that by (simp add: is_task_def)
    then have "x = m \<or> is_task s1 x" using tk by blast
    then show ?thesis using m(3) m(4) [OF mz] d1(8) by blast
  qed
  then have "tasks_in_heap ?s5 L2" using m(2) by (simp add: tasks_in_heap_def)
  moreover have "U \<subseteq> blocks (kheap ?s5) L2" using d1(3) m(3) by auto
  moreover have "(x, capacity 304) \<notin> U" if "is_task ?s5 x" for x using that tk [of x] d1(3) d1(4) [of x] m(4) [OF mz] by auto
  moreover have "placed ?s5 q"
    unfolding placed_def
  proof (intro allI impI)
    fix x assume x: "is_task ?s5 x \<and> prio_of ?s5 x \<noteq> 0"
    then have "x \<noteq> m" "is_task s1 x" "prio_of s1 x \<noteq> 0" using tk [of x] pr [of x] by (auto split: if_splits)
    then consider "x \<in> set (q (prio_of s1 x))" | i where "i < 2" "core_task (cores s1 ! i) = x" using d1(6) by (auto simp: placed_def)
    then show "x \<in> set (q (prio_of ?s5 x)) \<or> (\<exists>i < 2. core_task (cores ?s5 ! i) = x)"
    proof cases
      case 1
      then show ?thesis using pr [of x] \<open>x \<noteq> m\<close> by simp
    next
      case 2
      have "x \<noteq> 0" by (rule task_nonzero [OF d1(2) \<open>is_task s1 x\<close>])
      then have "i \<noteq> 1" using 2 idle by auto
      then show ?thesis using core(1) [OF 2(1)] 2 by auto
    qed
  qed
  ultimately have "threads_ok ?s5 U q L2" using inv5 core(2) unfolding threads_ok_def by blast
  moreover have "tasks ?s5 = (tasks s1)(m \<mapsto> ?k)" "tid_counter ?s5 = tid_counter s1"
    "malloc TASK_SIZE (kheap s1) = Some (m, kheap ?s5)" using m(1) by simp_all
  moreover have "cores ?s5 = (cores s)[1 := (cores s ! 1)\<lparr>core_task := m\<rparr>]" using len by (simp add: ok1(2))
  ultimately show ?thesis unfolding e5 using s1 ok1(3,5,6) mz new by blast
qed


section \<open>The start of the runs\<close>

lemma threads_begin:
  assumes s: "length (cores s) = 2" "sched_lock s = 0" "active_priorities s = 0" "tasks s = Map.empty"
      "\<forall>c < 2. task_to_free (cores s ! c) = 0"
    and r: "roomy (kheap s) L m" "m + 10 \<le> 2048"
  shows "\<exists>s' L'. sched_init ttbr1 s = Some s' \<and> threads_ok s' {} (\<lambda>_. []) L' \<and> roomy (kheap s') L' (m + 10) \<and>
    core_task (cores s' ! 0) \<noteq> 0 \<and> core_task (cores s' ! 1) = 0 \<and> confined (kheap s) (kheap s')"
proof -
  from sched_init_roomy [OF s(1-4) r, of ttbr1] obtain s' L' t st mt h where
    s': "sched_init ttbr1 s = Some s'" "sched_inv s' (\<lambda>_. [])" "tasks_in_heap s' L'" "roomy (kheap s') L' (m + 10)"
      "core_task (cores s' ! 0) \<noteq> 0" "confined (kheap s) (kheap s')" "t \<noteq> mt" "s' = started ttbr1 t st mt h s" by auto
  have cores: "core_task (cores s' ! 0) = mt" "core_task (cores s' ! 1) = 0" "task_to_free (cores s' ! 0) = 0" "task_to_free (cores s' ! 1) = 0"
    using s(5) s'(8) by (simp_all add: started_def)
  have "is_task s' x \<longleftrightarrow> x = t \<or> x = mt" for x using s(4) s'(8) by (simp add: started_def is_task_def)
  moreover have "prio_of s' t = 0" using s'(7,8) by (simp add: started_def prio_of_def new_task_def create_priority_def IDLE_def)
  ultimately have "placed s' (\<lambda>_. [])" using cores(1) by (auto simp: placed_def intro!: exI [of _ 0])
  then have "threads_ok s' {} (\<lambda>_. []) L'" using s'(2,3) cores(3,4) by (simp add: threads_ok_def less_2_cases_iff)
  then show ?thesis using s'(1,4-6) cores(2) by blast
qed

text \<open>
  What \<open>sched_init_secondary\<close> makes: a new idle thread, ready to start with its own stack, and the task of the running
  loop of \<open>core_entry\<close>, which is the task of the core. Both have priority \<open>IDLE\<close>; nothing else changes.
\<close>

definition second_core_tasks :: "u64 \<Rightarrow> u64 \<Rightarrow> sched \<Rightarrow> sched \<Rightarrow> bool" where
  "second_core_tasks idle_task me s s' \<longleftrightarrow>
     idle_task \<noteq> 0 \<and> me \<noteq> 0 \<and> idle_task \<noteq> me \<and> \<not> is_task s idle_task \<and> \<not> is_task s me \<and>
     (\<exists>stack. stack \<noteq> 0 \<and> task_core s' idle_task = Some (new_task None (idle_at s) (idle_flag_at s) stack s)) \<and>
     tasks s' me = Some (zero_task\<lparr>t_priority := IDLE, t_state := TASK_RUNNING\<rparr>) \<and>
     (\<forall>x. x \<noteq> idle_task \<and> x \<noteq> me \<longrightarrow> task_core s' x = task_core s x) \<and>
     cores s' = (cores s)[1 := (cores s ! 1)\<lparr>core_task := me\<rparr>] \<and> tid_counter s' = tid_counter s + 1"

text \<open>With ten free pages the second core can start.\<close>

lemma secondary_starts:
  assumes ok: "threads_ok s U q L" and c: "core_task (cores s ! 1) = 0" and r: "roomy (kheap s) L m" "m + 10 \<le> 2048"
  shows "\<exists>s' idle_task me L'. sched_init_secondary 1 s = Some s' \<and> second_core_tasks idle_task me s s' \<and> threads_ok s' U q L' \<and>
    (\<exists>L2. roomy (kheap s') L2 (m + 10))"
proof -
  note d = threads_okD [OF ok]
  note len = sched_invD(5) [OF d(1)]
  have u: "unat (4096 * 4 :: u64) = 16384" by simp
  from roomy_malloc [OF r(1) unat_task_size(1), of 1] r(2) obtain t h1 L1 where t: "malloc TASK_SIZE (kheap s) = Some (t, h1)" "t \<noteq> 0"
    "roomy h1 L1 (m + 1)" "(t, capacity 304) \<notin> blocks (kheap s) L" by auto
  from roomy_malloc [OF t(3) u, of 4] r(2) obtain st1 h2 L2 where st1: "malloc (4096 * 4) h1 = Some (st1, h2)" "st1 \<noteq> 0"
    "roomy h2 L2 (m + 1 + 4)" by auto
  from roomy_malloc [OF st1(3) u, of 4] r(2) obtain st2 h3 L3 where st2: "malloc (4096 * 4) h2 = Some (st2, h3)" "st2 \<noteq> 0"
    "roomy h3 L3 (m + 1 + 4 + 4)" by auto
  from roomy_malloc [OF st2(3) unat_task_size(1), of 1] r(2) obtain mt h4 L4 where mt: "malloc TASK_SIZE h3 = Some (mt, h4)" "mt \<noteq> 0"
    "roomy h4 L4 (m + 1 + 4 + 4 + 1)" by auto
  have st: "stack_alloc None h1 = Some (st1, h2)" "stack_alloc None h2 = Some (st2, h3)"
    using st1(1) st2(1) by (simp_all add: stack_alloc_def stack_size_of_def)
  have new: "tasks s t = None" using d(8) [of t] t(4) by (metis is_task_def)
  have "\<forall>a. None = Some a \<longrightarrow> is_initialized a \<noteq> 0 \<longrightarrow> 0 \<le> schedparam a" by simp
  from pthread_create_ok [OF d(1) t(1,2) new st(1) st1(2) st(2) st2(2) this refl, where start_routine = "idle_at s" and arg = "idle_flag_at s"]
  obtain s1 where s1: "pthread_create None (idle_at s) (idle_flag_at s) s = Some (0, t, s1)" "kheap s1 = h3" "cores s1 = cores s"
    "task_core s1 t = Some (new_task None (idle_at s) (idle_flag_at s) st2 s)" "\<forall>x. x \<noteq> t \<longrightarrow> task_core s1 x = task_core s x"
    "tid_counter s1 = tid_counter s + 1" by auto
  obtain k where k: "tasks s1 t = Some k" using s1(4) by (auto simp: task_core_def)
  note up = set_cpu_id [OF d(1)]
  obtain s' where run: "sched_init_secondary 1 s = Some s'" using up s1(1-3) k mt len
    by (simp add: sched_init_secondary_def upd_task_def upd_core_def array_facts adopt_running_def heap_malloc_def clear_task_def)
  let ?k = "zero_task\<lparr>t_priority := IDLE, t_state := TASK_RUNNING\<rparr>"
  from threads_secondary [OF ok c run] s1(1) obtain L' me where s': "threads_ok s' U q L'" "t \<noteq> 0" "is_task s1 t" "\<not> is_task s t"
    "me \<noteq> 0" "\<not> is_task s1 me" "tasks s' = (tasks s1)(me \<mapsto> ?k)" "cores s' = (cores s)[1 := (cores s ! 1)\<lparr>core_task := me\<rparr>]"
    "tid_counter s' = tid_counter s1" "malloc TASK_SIZE (kheap s1) = Some (me, kheap s')" by auto
  have "kheap s' = h4" using s'(10) s1(2) mt(1) by simp
  moreover have "m + 1 + 4 + 4 + 1 = m + 10" by simp
  ultimately have "\<exists>L2. roomy (kheap s') L2 (m + 10)" using mt(3) by metis
  moreover
  have ne: "t \<noteq> me" using s'(3,6) by blast
  then have "task_core s me = task_core s1 me" using s1(5) by metis
  then have me: "\<not> is_task s me" using s'(6) by (simp add: is_task_def task_core_def)
  have tc: "x \<noteq> me \<Longrightarrow> task_core s' x = task_core s1 x" for x by (simp add: task_core_def s'(7))
  have "second_core_tasks t me s s'"
    unfolding second_core_tasks_def using s' s1(4-6) st2(2) ne me tc by auto
  ultimately show ?thesis using run s'(1) by blast
qed

text \<open>With nine free pages a thread can be created.\<close>

lemma roomy_creates:
  assumes ok: "threads_ok s U q L" and r: "roomy (kheap s) L2 m" "m + 9 \<le> 2048" and arg: "arg \<noteq> idle_flag_at s"
  shows "\<exists>t s' L'. pthread_create None f arg s = Some (0, t, s') \<and> threads_ok s' U (q(2 := q 2 @ [t])) L' \<and> cores s' = cores s \<and>
    \<not> is_task s t \<and> prio_of s' = (prio_of s)(t := 2)"
proof -
  have u: "unat (4096 * 4 :: u64) = 16384" by simp
  from roomy_malloc [OF r(1) unat_task_size(1), of 1] r(2) obtain t h1 L1 where t: "malloc TASK_SIZE (kheap s) = Some (t, h1)" "t \<noteq> 0"
    "roomy h1 L1 (m + 1)" by auto
  from roomy_malloc [OF t(3) u, of 4] r(2) obtain st1 h2 L2 where st1: "malloc (4096 * 4) h1 = Some (st1, h2)" "st1 \<noteq> 0"
    "roomy h2 L2 (m + 1 + 4)" by auto
  from roomy_malloc [OF st1(3) u, of 4] r(2) obtain st2 h3 where st2: "malloc (4096 * 4) h2 = Some (st2, h3)" "st2 \<noteq> 0" by auto
  have st: "stack_alloc None h1 = Some (st1, h2)" "stack_alloc None h2 = Some (st2, h3)"
    using st1(1) st2(1) by (simp_all add: stack_alloc_def stack_size_of_def)
  note v = pthread_create_value [OF t(1,2) st(1) st1(2) st(2) st2(2), of f arg]
  have p: "create_priority None arg s = 2" using arg by (simp add: create_priority_def NORMAL_def)
  have "\<forall>a. None = Some a \<longrightarrow> is_initialized a \<noteq> 0 \<longrightarrow> 0 \<le> schedparam a" by simp
  from threads_create [OF ok this, of f arg] obtain r t' s' q' L' where
    c: "pthread_create None f arg s = Some (r, t', s')" "threads_ok s' U q' L'" "cores s' = cores s"
    "r = EAGAIN \<and> q' = q \<or> r = 0 \<and> \<not> is_task s t' \<and> prio_of s' = (prio_of s)(t' := 2) \<and> q' = q(2 := q 2 @ [t'])"
    unfolding p by (auto simp: Let_def)
  have "r = 0" using c(1) unfolding v by (auto simp: Let_def bind_eq_Some_conv split: if_splits)
  then have "\<not> is_task s t'" "prio_of s' = (prio_of s)(t' := 2)" "q' = q(2 := q 2 @ [t'])" using c(4) by (simp_all add: EAGAIN_def)
  then show ?thesis using c(1-3) \<open>r = 0\<close> by blast
qed

end
