(* ===== verification/Net_Init.thy ===== *)
theory Net_Init
  imports Net
begin

text \<open>
  The initialisation of the network driver of \<open>src/src/net.c\<close>: \<open>net_rx_fill\<close> posts the receive buffers, and
  \<open>net_init\<close> negotiates with the device, sets up both queues and leaves them ready for receiving and sending.
\<close>

section \<open>Posting receive buffers\<close>

text \<open>What one round of \<open>net_rx_fill\<close> writes for buffer \<open>a\<close> in descriptor \<open>i\<close>.\<close>

definition post_buffer :: "virtq \<Rightarrow> nat \<Rightarrow> u64 \<Rightarrow> mem \<Rightarrow> mem" where
  "post_buffer q i a m =
     st16 (set_desc q (of_nat i) a 4096 VIRTQ_DESC_F_WRITE m) (avail_ring_at q (of_nat i)) (of_nat i)"

primrec post_from :: "virtq \<Rightarrow> nat \<Rightarrow> u64 list \<Rightarrow> mem \<Rightarrow> mem" where
  "post_from q i [] m = m"
| "post_from q i (a # as) m = post_from q (Suc i) as (post_buffer q i a m)"

lemma post_from_append: "post_from q i (as @ bs) m = post_from q (i + length as) bs (post_from q i as m)"
  by (induction as arbitrary: i m) simp_all

lemma of_nat_mod_small:
  assumes "i < unat n"
  shows "(of_nat i :: u32) mod n = of_nat i"
proof -
  have "unat (of_nat i :: u32) = i" using assms unat_u32_lt [of n] by (intro unat_u32_of_nat) simp
  then show ?thesis using assms by (simp add: word_unat_eq_iff unat_mod_distrib)
qed

text \<open>The loop takes the frames from the top of the stack and stops early when the stack is empty.\<close>

lemma rx_fill_loop_ok:
  assumes "pmm_inv (frames s)" "free_frames (frames s) = pre @ fs" "i + length fs = unat (qsize (rxq s)) \<or>
    pre = [] \<and> i + length fs \<le> unat (qsize (rxq s))"
  shows "\<exists>p. rx_fill_loop i s = Some (s\<lparr>frames := p, nmem := post_from (rxq s) i (map index_to_phys (rev fs)) (nmem s)\<rparr>) \<and>
    pmm_inv p \<and> free_frames p = pre"
  using assms
proof (induction fs arbitrary: i s rule: rev_induct)
  case Nil
  show ?case
  proof (cases "i < unat (qsize (rxq s))")
    case True
    then have "free_frames (frames s) = []" using Nil.prems(2,3) by auto
    from pmm_alloc_frame_empty [OF Nil.prems(1) this] have "net_alloc s = Some (0, s)" by (simp add: net_alloc_def)
    then have "rx_fill_loop i s = Some s" using True by (subst rx_fill_loop.simps) simp
    then show ?thesis using Nil.prems by (intro exI [of _ "frames s"]) simp
  next
    case False
    then have "rx_fill_loop i s = Some s" by (subst rx_fill_loop.simps) simp
    then show ?thesis using Nil.prems by (intro exI [of _ "frames s"]) simp
  qed
next
  case (snoc f fs)
  have i: "i < unat (qsize (rxq s))" using snoc.prems(3) by auto
  from net_alloc_top [OF snoc.prems(1), of "pre @ fs" f] snoc.prems(2) obtain p where
    p: "net_alloc s = Some (index_to_phys f, s\<lparr>frames := p\<rparr>)" "pmm_inv p" "free_frames p = pre @ fs" by auto
  have nz: "index_to_phys f \<noteq> 0" using unat_index_to_phys [of f] by (metis add_is_0 unat_0 zero_neq_numeral)
  let ?s = "s\<lparr>frames := p, nmem := post_buffer (rxq s) i (index_to_phys f) (nmem s)\<rparr>"
  have "rx_fill_loop i s = rx_fill_loop (Suc i) ?s"
    using i p(1) nz of_nat_mod_small [OF i] by (subst rx_fill_loop.simps) (simp add: post_buffer_def)
  moreover have "pmm_inv (frames ?s)" "free_frames (frames ?s) = pre @ fs" "Suc i + length fs = unat (qsize (rxq ?s)) \<or>
      pre = [] \<and> Suc i + length fs \<le> unat (qsize (rxq ?s))"
    using p(2,3) snoc.prems(3) by auto
  from snoc.IH [OF this] obtain p' where "rx_fill_loop (Suc i) ?s =
      Some (?s\<lparr>frames := p', nmem := post_from (rxq s) (Suc i) (map index_to_phys (rev fs)) (nmem ?s)\<rparr>)"
    "pmm_inv p'" "free_frames p' = pre" by auto
  ultimately show ?case by (intro exI [of _ p']) simp
qed

text \<open>The descriptors and the ring after posting; \<open>rings_apart\<close> is what the setting up of the queue guarantees.\<close>

definition rings_apart :: "virtq \<Rightarrow> bool" where
  "rings_apart q \<longleftrightarrow> qsize q \<noteq> 0 \<and> unat (qsize q) \<le> 32768 \<and>
     disjoint_blocks (desc q) (16 * unat (qsize q)) (avail q) (4 + 2 * unat (qsize q))"

definition posted :: "virtq \<Rightarrow> u64 list \<Rightarrow> mem \<Rightarrow> bool" where
  "posted q as m \<longleftrightarrow> (\<forall>i < length as. ld_bytes m (desc_at q (of_nat i)) 16 = desc_bytes (as ! i) 4096 VIRTQ_DESC_F_WRITE \<and>
     ld16 m (avail_ring_at q (of_nat i)) = of_nat i)"

lemma unat_small_index: "i < unat (q :: u32) \<Longrightarrow> unat (of_nat i :: u32) = i"
  using unat_u32_lt [of q] by (intro unat_u32_of_nat) simp

lemma slot_at:
  assumes "i < unat (qsize q)"
  shows "desc_at q (of_nat i) = desc q + of_nat (16 * i)" "avail_ring_at q (of_nat i) = avail q + of_nat (4 + 2 * i)"
proof -
  have "(ucast (of_nat i :: u32) :: u64) = of_nat i"
    using unat_ucast_u32_u64 [of "of_nat i"] unat_small_index [OF assms] unat_u64_of_nat [of i] assms unat_u32_lt [of "qsize q"]
    by (simp only: word_unat_eq_iff)
  then show "desc_at q (of_nat i) = desc q + of_nat (16 * i)" "avail_ring_at q (of_nat i) = avail q + of_nat (4 + 2 * i)"
    by (simp_all add: desc_at_def avail_ring_at_def add.assoc)
qed

text \<open>Any two slots of the rings are apart from each other, and both from the index.\<close>

lemma slots_apart:
  assumes r: "rings_apart q" and i: "i < unat (qsize q)" and j: "j < unat (qsize q)"
  shows "disjoint_blocks (desc_at q (of_nat i)) 16 (avail_ring_at q (of_nat j)) 2"
    "disjoint_blocks (desc_at q (of_nat i)) 16 (avail_idx_at q) 2" "disjoint_blocks (avail_ring_at q (of_nat i)) 2 (avail_idx_at q) 2"
    "i \<noteq> j \<Longrightarrow> disjoint_blocks (desc_at q (of_nat i)) 16 (desc_at q (of_nat j)) 16"
    "i \<noteq> j \<Longrightarrow> disjoint_blocks (avail_ring_at q (of_nat i)) 2 (avail_ring_at q (of_nat j)) 2"
proof -
  have q: "unat (qsize q) \<le> 32768" and d: "disjoint_blocks (desc q) (16 * unat (qsize q)) (avail q) (4 + 2 * unat (qsize q))"
    using r by (simp_all add: rings_apart_def)
  have lt: "(of_nat i :: u32) < qsize q" "(of_nat j :: u32) < qsize q"
    using unat_small_index [OF i] unat_small_index [OF j] i j by (simp_all add: word_less_nat_alt)
  note si = slot_blocks [OF lt(1) q] and sj = slot_blocks [OF lt(2) q]
  show "disjoint_blocks (desc_at q (of_nat i)) 16 (avail_ring_at q (of_nat j)) 2"
    using d si(1) sj(2) by (rule disjoint_within)
  show "disjoint_blocks (desc_at q (of_nat i)) 16 (avail_idx_at q) 2"
    using d si(1) si(3) by (rule disjoint_within)
  show "disjoint_blocks (avail_ring_at q (of_nat i)) 2 (avail_idx_at q) 2" using si(4) by (simp add: disjoint_blocks_sym)
  show "disjoint_blocks (desc_at q (of_nat i)) 16 (desc_at q (of_nat j)) 16" if "i \<noteq> j"
    unfolding slot_at [OF i] slot_at [OF j] by (rule disjoint_offsets) (use that i j q in \<open>cases "i < j"; simp\<close>)+
  show "disjoint_blocks (avail_ring_at q (of_nat i)) 2 (avail_ring_at q (of_nat j)) 2" if "i \<noteq> j"
    unfolding slot_at [OF i] slot_at [OF j] by (rule disjoint_offsets) (use that i j q in \<open>cases "i < j"; simp\<close>)+
qed

lemma ld16_st_other: "disjoint_blocks b 2 a (length bs) \<Longrightarrow> ld16 (st_bytes m a bs) b = ld16 m b"
  using ld_st_bytes_disjoint [of a bs b 2 m] by (simp add: ld16_def disjoint_blocks_sym)

lemma length_desc_bytes [simp]: "length (desc_bytes a len flags) = 16"
  by (simp add: desc_bytes_def)

lemma post_buffer_bytes:
  "post_buffer q i a m = st_bytes (st_bytes m (desc_at q (of_nat i)) (desc_bytes a 4096 VIRTQ_DESC_F_WRITE))
     (avail_ring_at q (of_nat i)) (to_le 2 (of_nat i :: u16))"
  by (simp add: post_buffer_def set_desc_bytes st16_def)

lemma post_buffer_slots:
  assumes r: "rings_apart q" and i: "i < unat (qsize q)" and j: "j < unat (qsize q)"
  shows "ld_bytes (post_buffer q i a m) (desc_at q (of_nat j)) 16 =
      (if j = i then desc_bytes a 4096 VIRTQ_DESC_F_WRITE else ld_bytes m (desc_at q (of_nat j)) 16)"
    "ld16 (post_buffer q i a m) (avail_ring_at q (of_nat j)) = (if j = i then of_nat i else ld16 m (avail_ring_at q (of_nat j)))"
proof -
  let ?D = "desc_bytes a 4096 VIRTQ_DESC_F_WRITE" and ?d = "desc_at q (of_nat i)" and ?v = "avail_ring_at q (of_nat i)"
  note ap = slots_apart [OF r j i] and self = slots_apart [OF r i i]
  have "ld_bytes (post_buffer q i a m) (desc_at q (of_nat j)) 16 = ld_bytes (st_bytes m ?d ?D) (desc_at q (of_nat j)) 16"
    unfolding post_buffer_bytes using ap(1) by (intro ld_st_bytes_disjoint) (simp_all add: disjoint_blocks_sym)
  also have "\<dots> = (if j = i then ?D else ld_bytes m (desc_at q (of_nat j)) 16)"
    using ld_st_bytes [of ?D m ?d] ld_st_bytes_disjoint [of ?d ?D "desc_at q (of_nat j)" 16 m] ap(4) by (auto simp: disjoint_blocks_sym)
  finally show "ld_bytes (post_buffer q i a m) (desc_at q (of_nat j)) 16 = (if j = i then ?D else ld_bytes m (desc_at q (of_nat j)) 16)" .
  have v: "ld16 (st_bytes m' ?v (to_le 2 (of_nat i :: u16))) ?v = of_nat i" for m'
    using ld16_st16_same [of m' ?v "of_nat i"] by (simp add: st16_def)
  have "ld16 (st_bytes m ?d ?D) (avail_ring_at q (of_nat j)) = ld16 m (avail_ring_at q (of_nat j))"
    using slots_apart(1) [OF r i j] by (intro ld16_st_other) (simp add: disjoint_blocks_sym)
  then show "ld16 (post_buffer q i a m) (avail_ring_at q (of_nat j)) = (if j = i then of_nat i else ld16 m (avail_ring_at q (of_nat j)))"
    unfolding post_buffer_bytes using v ap(5) ld16_st_other [of "avail_ring_at q (of_nat j)" ?v "to_le 2 (of_nat i :: u16)"]
    by auto
qed

definition in_rings :: "virtq \<Rightarrow> u64 \<Rightarrow> bool" where
  "in_rings q x \<longleftrightarrow> in_block (desc q) (16 * unat (qsize q)) x \<or> in_block (avail q) (4 + 2 * unat (qsize q)) x"

lemma post_buffer_out:
  assumes r: "rings_apart q" and i: "i < unat (qsize q)" and x: "\<not> in_rings q x"
  shows "post_buffer q i a m x = m x"
proof -
  have lt: "(of_nat i :: u32) < qsize q" using unat_small_index [OF i] i by (simp add: word_less_nat_alt)
  have "unat (qsize q) \<le> 32768" using r by (simp add: rings_apart_def)
  note s = slot_blocks [OF lt this]
  have "\<not> in_block (desc_at q (of_nat i)) 16 x" "\<not> in_block (avail_ring_at q (of_nat i)) 2 x"
    using s(1,2) x by (auto simp: in_rings_def)
  then show ?thesis by (simp add: post_buffer_bytes st_bytes_out)
qed

lemma post_buffer_idx:
  assumes r: "rings_apart q" and i: "i < unat (qsize q)"
  shows "ld16 (post_buffer q i a m) (avail_idx_at q) = ld16 m (avail_idx_at q)"
proof -
  note s = slots_apart(2,3) [OF r i i]
  have "ld16 (st_bytes m' (desc_at q (of_nat i)) (desc_bytes a 4096 VIRTQ_DESC_F_WRITE)) (avail_idx_at q) = ld16 m' (avail_idx_at q)" for m'
    using s(1) by (intro ld16_st_other) (simp add: disjoint_blocks_sym)
  moreover have "ld16 (st_bytes m' (avail_ring_at q (of_nat i)) (to_le 2 (of_nat i :: u16))) (avail_idx_at q) = ld16 m' (avail_idx_at q)" for m'
    using s(2) by (intro ld16_st_other) (simp add: disjoint_blocks_sym)
  ultimately show ?thesis by (simp add: post_buffer_bytes)
qed

lemma post_from_ok:
  assumes r: "rings_apart q" and n: "length as \<le> unat (qsize q)"
  shows "posted q as (post_from q 0 as m)" "\<not> in_rings q x \<Longrightarrow> post_from q 0 as m x = m x"
    "\<And>j. length as \<le> j \<Longrightarrow> j < unat (qsize q) \<Longrightarrow> ld16 (post_from q 0 as m) (avail_ring_at q (of_nat j)) = ld16 m (avail_ring_at q (of_nat j))"
proof -
  have "posted q as (post_from q 0 as m) \<and> (\<not> in_rings q x \<longrightarrow> post_from q 0 as m x = m x) \<and>
    (\<forall>j. length as \<le> j \<and> j < unat (qsize q) \<longrightarrow>
      ld16 (post_from q 0 as m) (avail_ring_at q (of_nat j)) = ld16 m (avail_ring_at q (of_nat j)))"
    using n
  proof (induction as rule: rev_induct)
    case Nil
    then show ?case by (simp add: posted_def)
  next
    case (snoc a as)
    let ?m = "post_from q 0 as m" and ?i = "length as"
    have ih: "posted q as ?m" "\<not> in_rings q x \<Longrightarrow> ?m x = m x"
      "\<And>j. ?i \<le> j \<Longrightarrow> j < unat (qsize q) \<Longrightarrow> ld16 ?m (avail_ring_at q (of_nat j)) = ld16 m (avail_ring_at q (of_nat j))"
      using snoc by auto
    have i: "?i < unat (qsize q)" using snoc.prems by simp
    have e: "post_from q 0 (as @ [a]) m = post_buffer q ?i a ?m" by (simp add: post_from_append)
    have "posted q (as @ [a]) (post_buffer q ?i a ?m)"
      unfolding posted_def
    proof (intro allI impI)
      fix j assume j: "j < length (as @ [a])"
      then have jq: "j < unat (qsize q)" using i by simp
      show "ld_bytes (post_buffer q ?i a ?m) (desc_at q (of_nat j)) 16 = desc_bytes ((as @ [a]) ! j) 4096 VIRTQ_DESC_F_WRITE \<and>
          ld16 (post_buffer q ?i a ?m) (avail_ring_at q (of_nat j)) = of_nat j"
        using post_buffer_slots [OF r i jq] ih(1) j by (auto simp: posted_def nth_append less_Suc_eq)
    qed
    moreover have "\<not> in_rings q x \<Longrightarrow> post_buffer q ?i a ?m x = m x" using post_buffer_out [OF r i] ih(2) by simp
    moreover have "ld16 (post_buffer q ?i a ?m) (avail_ring_at q (of_nat j)) = ld16 m (avail_ring_at q (of_nat j))"
      if "Suc ?i \<le> j" "j < unat (qsize q)" for j
      using post_buffer_slots(2) [OF r i that(2)] ih(3) [of j] that by simp
    ultimately show ?case unfolding e by simp
  qed
  then show "posted q as (post_from q 0 as m)" "\<not> in_rings q x \<Longrightarrow> post_from q 0 as m x = m x"
    "\<And>j. length as \<le> j \<Longrightarrow> j < unat (qsize q) \<Longrightarrow> ld16 (post_from q 0 as m) (avail_ring_at q (of_nat j)) = ld16 m (avail_ring_at q (of_nat j))"
    by blast+
qed

section \<open>The queues in memory\<close>

text \<open>The queue of \<open>n\<close> entries in the eight frames from number \<open>k\<close>.\<close>

definition queue_of :: "nat \<Rightarrow> u32 \<Rightarrow> virtq" where
  "queue_of k n = \<lparr>desc = index_to_phys (of_nat (k + 4)), avail = index_to_phys (of_nat (k + 3)), used = index_to_phys (of_nat k),
     qsize = n, last_used_idx = 0\<rparr>"

lemma queue_of_fields [simp]: "qsize (queue_of k n) = n" "last_used_idx (queue_of k n) = 0"
  by (simp_all add: queue_of_def)

text \<open>Addresses as offsets from the first of the frames.\<close>

lemma in_block_off: "i + n \<le> 2 ^ 64 \<Longrightarrow> 0 < n \<Longrightarrow> in_block (b + of_nat i) n x \<longleftrightarrow> i \<le> unat (x - b) \<and> unat (x - b) < i + n"
  using in_block_offset_iff [of "unat (x - b)" i n b] unat_u64_lt [of "x - b"] by (simp add: of_nat_unat_u64)

lemma queue_of_at:
  assumes "k + j + 8 \<le> 2 ^ 32" "b = index_to_phys (of_nat k)"
  shows "desc (queue_of (k + j) n) = b + of_nat (j * 4096 + 16384)" "avail (queue_of (k + j) n) = b + of_nat (j * 4096 + 12288)"
    "used (queue_of (k + j) n) = b + of_nat (j * 4096)" "avail_idx_at (queue_of (k + j) n) = b + of_nat (j * 4096 + 12290)"
    "used_idx_at (queue_of (k + j) n) = b + of_nat (j * 4096 + 2)"
proof -
  have a: "index_to_phys (of_nat (k + i)) = b + of_nat (i * 4096)" if "i < j + 8" for i
    using index_to_phys_add [of k i] that assms by simp
  have e: "k + j + 4 = k + (j + 4)" "k + j + 3 = k + (j + 3)" "(j + 4) * 4096 = j * 4096 + 16384" "(j + 3) * 4096 = j * 4096 + 12288" by simp_all
  show d: "desc (queue_of (k + j) n) = b + of_nat (j * 4096 + 16384)" and v: "avail (queue_of (k + j) n) = b + of_nat (j * 4096 + 12288)"
    and u: "used (queue_of (k + j) n) = b + of_nat (j * 4096)"
    using a [of "j + 4"] a [of "j + 3"] a [of j] unfolding queue_of_def virtq.simps e by simp_all
  show "avail_idx_at (queue_of (k + j) n) = b + of_nat (j * 4096 + 12290)" "used_idx_at (queue_of (k + j) n) = b + of_nat (j * 4096 + 2)"
    unfolding avail_idx_at_def used_idx_at_def v u by simp_all
qed

lemma rings_apart_queue:
  assumes "k + j + 8 \<le> 2 ^ 32" "n \<noteq> 0" "unat n \<le> 1024"
  shows "rings_apart (queue_of (k + j) n)"
proof -
  have "0 < unat n" using assms(2) by (simp add: unat_gt_0)
  then have "disjoint_blocks (index_to_phys (of_nat k) + of_nat (j * 4096 + 16384)) (16 * unat n)
      (index_to_phys (of_nat k) + of_nat (j * 4096 + 12288)) (4 + 2 * unat n)"
    using assms by (intro disjoint_offsets) simp_all
  then show ?thesis using assms(2,3) unfolding rings_apart_def queue_of_fields queue_of_at [OF assms(1) refl] by simp
qed

lemma in_rings_queue:
  assumes "k + j + 8 \<le> 2 ^ 32" "n \<noteq> 0" "unat n \<le> 1024" "b = index_to_phys (of_nat k)" "in_rings (queue_of (k + j) n) x"
  shows "j * 4096 + 12288 \<le> unat (x - b)" "unat (x - b) < j * 4096 + 32768" "unat (x - b) < j * 4096 + 14340 \<or> j * 4096 + 16384 \<le> unat (x - b)"
proof -
  have "0 < unat n" using assms(2) by (simp add: unat_gt_0)
  have l: "j * 4096 + 16384 + 16 * unat n \<le> 2 ^ 64" "j * 4096 + 12288 + (4 + 2 * unat n) \<le> 2 ^ 64" using assms(1,3) by simp_all
  have "j * 4096 + 16384 \<le> unat (x - b) \<and> unat (x - b) < j * 4096 + 16384 + 16 * unat n \<or>
      j * 4096 + 12288 \<le> unat (x - b) \<and> unat (x - b) < j * 4096 + 12288 + (4 + 2 * unat n)"
    using assms(5) \<open>0 < unat n\<close> in_block_off [OF l(1), of b x] in_block_off [OF l(2), of b x]
    unfolding in_rings_def queue_of_fields queue_of_at [OF assms(1,4)] by simp
  then show "j * 4096 + 12288 \<le> unat (x - b)" "unat (x - b) < j * 4096 + 32768"
    "unat (x - b) < j * 4096 + 14340 \<or> j * 4096 + 16384 \<le> unat (x - b)" using assms(3) by auto
qed

lemma ld16_zero: "(\<And>x. in_block a 2 x \<Longrightarrow> m x = 0) \<Longrightarrow> ld16 m a = 0"
proof -
  assume z: "\<And>x. in_block a 2 x \<Longrightarrow> m x = 0"
  have "m a = 0" "m (a + 1) = 0" using z [of a] z [of "a + 1"] by (simp_all add: in_block_def)
  then have "ld_bytes m a 2 = [0, 0]" by (simp add: ld_bytes_def upt_rec)
  then show ?thesis by (simp add: ld16_def)
qed

section \<open>Receive buffers and the whole initialisation\<close>

lemma posted_st16_idx:
  assumes "rings_apart q" "length as \<le> unat (qsize q)" "posted q as m"
  shows "posted q as (st16 m (avail_idx_at q) v)"
    "j < unat (qsize q) \<Longrightarrow> ld16 (st16 m (avail_idx_at q) v) (avail_ring_at q (of_nat j)) = ld16 m (avail_ring_at q (of_nat j))"
proof -
  have r: "ld16 (st16 m (avail_idx_at q) v) (avail_ring_at q (of_nat j)) = ld16 m (avail_ring_at q (of_nat j))"
    if "j < unat (qsize q)" for j
    using slots_apart(3) [OF assms(1) that that] by (simp add: st16_def ld16_st_other)
  then show "j < unat (qsize q) \<Longrightarrow> ld16 (st16 m (avail_idx_at q) v) (avail_ring_at q (of_nat j)) = ld16 m (avail_ring_at q (of_nat j))" .
  have "ld_bytes (st16 m (avail_idx_at q) v) (desc_at q (of_nat i)) 16 = ld_bytes m (desc_at q (of_nat i)) 16"
    if "i < unat (qsize q)" for i
    using slots_apart(2) [OF assms(1) that that] unfolding st16_def
    by (intro ld_st_bytes_disjoint) (simp_all add: disjoint_blocks_sym)
  then show "posted q as (st16 m (avail_idx_at q) v)" using assms(2,3) r by (simp add: posted_def)
qed

lemma idx_in_rings:
  assumes "rings_apart q" "in_block (avail_idx_at q) 2 x"
  shows "in_rings q x"
proof -
  have "(0 :: u32) < qsize q" "unat (qsize q) \<le> 32768" using assms(1) by (simp_all add: rings_apart_def word_neq_0_conv)
  then show ?thesis using slot_blocks(3) [of 0 q x] assms(2) by (simp add: in_rings_def)
qed

lemma net_rx_fill_ok:
  assumes "pmm_inv (frames s)" "free_frames (frames s) = pre @ fs" "length fs = unat (qsize (rxq s)) \<or>
    pre = [] \<and> length fs \<le> unat (qsize (rxq s))" "avail (rxq s) \<noteq> 0"
  shows "\<exists>p. net_rx_fill s = Some (s\<lparr>frames := p, nmem := st16 (post_from (rxq s) 0 (map index_to_phys (rev fs)) (nmem s))
      (avail_idx_at (rxq s)) (ucast (qsize (rxq s))), dev_writes := dev_writes s @ [(0x50, 0)]\<rparr>) \<and> pmm_inv p \<and> free_frames p = pre"
proof -
  from rx_fill_loop_ok [OF assms(1,2), of 0] assms(3) obtain p where
    p: "rx_fill_loop 0 s = Some (s\<lparr>frames := p, nmem := post_from (rxq s) 0 (map index_to_phys (rev fs)) (nmem s)\<rparr>)"
      "pmm_inv p" "free_frames p = pre" by auto
  then show ?thesis by (intro exI [of _ p]) (simp add: net_rx_fill_def write32_def assms(4))
qed

text \<open>The registers that the negotiation writes when the device offers \<open>f\<close> as the upper half of its features.\<close>

definition negotiation :: "u32 \<Rightarrow> (u64 \<times> u32) list" where
  "negotiation f = [(0x70, 0), (0x70, 1), (0x70, 3), (0x14, 0), (0x24, 0), (0x20, 0), (0x14, 1), (0x24, 1), (0x20, f AND 1), (0x70, 11)]"

text \<open>Accesses of the device, one after the other.\<close>

definition accessed :: "(u64 \<times> u32) list \<Rightarrow> nat \<Rightarrow> net \<Rightarrow> net" where
  "accessed ws n s = s\<lparr>dev_reads := dev_reads s + n, dev_writes := dev_writes s @ ws\<rparr>"

lemma accessed_simps:
  "write32 off v (accessed ws n s) = accessed (ws @ [(off, v)]) n s"
  "read32 off (accessed ws n s) = (dev_read s (dev_reads s + n) off, accessed ws (Suc n) s)"
  by (simp_all add: accessed_def write32_def read32_def)

lemma net_negotiate_value:
  assumes "r = dev_reads s"
  shows "net_negotiate s =
    (if dev_read s (r + 2) 0x70 AND 8 = 0
     then (False, accessed (negotiation (dev_read s (r + 1) 0x10) @ [(0x70, STATUS_FAILED)]) 3 s)
     else (True, accessed (negotiation (dev_read s (r + 1) 0x10)) 3 s))"
proof -
  have "net_negotiate s = net_negotiate (accessed [] 0 s)" by (simp add: accessed_def)
  also have "\<dots> = (if dev_read s (r + 2) 0x70 AND 8 = 0
     then (False, accessed (negotiation (dev_read s (r + 1) 0x10) @ [(0x70, STATUS_FAILED)]) 3 s)
     else (True, accessed (negotiation (dev_read s (r + 1) 0x10)) 3 s))"
    unfolding net_negotiate_def Let_def accessed_simps prod.case assms
    by (simp add: accessed_simps negotiation_def STATUS_ACKNOWLEDGE_def STATUS_DRIVER_def STATUS_FEATURES_OK_def
      numeral_2_eq_2 numeral_3_eq_3)
  finally show ?thesis .
qed

definition mac_of :: "(nat \<Rightarrow> u64 \<Rightarrow> u32) \<Rightarrow> nat \<Rightarrow> nat \<Rightarrow> u8 list" where
  "mac_of f r n = map (\<lambda>i. ucast (f (r + i) (0x100 + of_nat i))) [0..<n]"

lemma read_mac_value: "read_mac n s = (mac_of (dev_read s) (dev_reads s) n, s\<lparr>dev_reads := dev_reads s + n\<rparr>)"
proof (induction n)
  case 0
  show ?case by (cases s) (simp add: mac_of_def)
next
  case (Suc n)
  then show ?case by (simp add: read32_def mac_of_def)
qed

text \<open>A receive queue whose first buffers are \<open>as\<close>, and a queue in which the device has nothing to look at.\<close>

definition rx_ready :: "virtq \<Rightarrow> u64 list \<Rightarrow> mem \<Rightarrow> bool" where
  "rx_ready q as m \<longleftrightarrow> posted q as m \<and> ld16 m (avail_idx_at q) = ucast (qsize q) \<and> ld16 m (used_idx_at q) = last_used_idx q"

definition tx_idle :: "virtq \<Rightarrow> mem \<Rightarrow> bool" where
  "tx_idle q m \<longleftrightarrow> ld16 m (avail_idx_at q) = 0 \<and> ld16 m (used_idx_at q) = last_used_idx q"

lemma filled_filled:
  assumes "i + j \<le> 2 ^ 64"
  shows "filled (filled m (a + of_nat i) v j) a v i = filled m a v (i + j)"
  using in_block_add [OF assms, of a] by (auto simp: filled_def fun_eq_iff)

lemma frames_apart:
  assumes i: "unat i < k \<or> k + n \<le> unat i" and k: "k + n \<le> 2 ^ 32" and x: "in_block (index_to_phys i) 4096 x"
  shows "\<not> in_block (index_to_phys (of_nat k)) (n * 4096) x"
proof (cases "n = 0")
  case False
  have u: "unat (of_nat k :: u32) = k" using k False by (intro unat_u32_of_nat) simp
  have l: "unat (index_to_phys i) + 4096 \<le> 2 ^ 64" "unat (index_to_phys (of_nat k)) + n * 4096 \<le> 2 ^ 64"
    using unat_u32_lt [of i] k by (simp_all add: unat_index_to_phys u)
  show ?thesis
    using x i unfolding in_block_no_wrap [OF l(1)] in_block_no_wrap [OF l(2)] unat_index_to_phys u by auto
qed (simp add: in_block_def)

definition net_ready :: "virtq \<Rightarrow> virtq \<Rightarrow> u64 list \<Rightarrow> net \<Rightarrow> bool" where
  "net_ready rq tq bufs s \<longleftrightarrow> rxq s = rq \<and> txq s = tq \<and> rx_ready rq bufs (nmem s) \<and> tx_idle tq (nmem s) \<and>
     (\<forall>len \<le> 4086. tx_queue_ok len s)"

lemma init_memory:
  assumes k: "k + 16 \<le> 2 ^ 32" and n: "nr \<noteq> 0" "unat nr \<le> 1024" "length bufs = unat nr" and b: "b = index_to_phys (of_nat k)"
    and q: "rq = queue_of (k + 8) nr" "tq = queue_of k nt"
    and m': "m' = st16 (post_from rq 0 bufs (filled m b 0 (16 * 4096))) (avail_idx_at rq) (ucast nr)"
  shows "rx_ready rq bufs m'" "tx_idle tq m'" "\<not> in_block b (16 * 4096) x \<Longrightarrow> m' x = m x"
proof -
  let ?m0 = "filled m b 0 (16 * 4096)" and ?m1 = "post_from rq 0 bufs (filled m b 0 (16 * 4096))"
  have k8: "k + 8 + 8 \<le> 2 ^ 32" "k + 0 + 8 \<le> 2 ^ 32" using k by simp_all
  have ra: "rings_apart rq" unfolding q(1) by (rule rings_apart_queue [OF k8(1) n(1,2)])
  have len: "length bufs \<le> unat (qsize rq)" using n(3) by (simp add: q)
  note pf = post_from_ok [OF ra len, where m = ?m0]
  have out: "m' x = ?m0 x" if "\<not> in_rings rq x" for x
  proof -
    have "m' x = post_from rq 0 bufs ?m0 x"
      using idx_in_rings [OF ra, of x] that unfolding m' st16_def by (subst st_bytes_out) auto
    then show ?thesis using pf(2) [OF that] by simp
  qed
  have rings: "12288 + 32768 \<le> unat (x - b)" "unat (x - b) < 65536" if "in_rings rq x" for x
    using in_rings_queue(1,2) [OF k8(1) n(1,2) b, of x] that by (simp_all add: q(1))
  have low: "m' x = 0" if "unat (x - b) < 12288 + 32768" for x
  proof -
    have "in_block b (16 * 4096) x" using that by (simp add: in_block_def)
    then show ?thesis using out [of x] rings(1) [of x] that by (auto simp: filled_def)
  qed
  note at = queue_of_at [OF k8(1) b] and at0 = queue_of_at [OF k8(2) b, unfolded add_0_right]
  have zero: "ld16 m' (b + of_nat i) = 0" if "i + 2 \<le> 12288 + 32768" for i
  proof (rule ld16_zero)
    fix x assume "in_block (b + of_nat i) 2 x"
    then have "unat (x - b) < i + 2" using in_block_off [of i 2 b x] that by simp
    then show "m' x = 0" using that by (intro low) simp
  qed
  have "posted rq bufs m'" unfolding m' by (rule posted_st16_idx(1) [OF ra len pf(1)])
  moreover have "ld16 m' (avail_idx_at rq) = ucast (qsize rq)" by (simp add: m' q(1) ld16_st16_same)
  moreover have "ld16 m' (used_idx_at rq) = last_used_idx rq"
    using zero [of "8 * 4096 + 2"] unfolding q(1) at queue_of_fields by simp
  ultimately show "rx_ready rq bufs m'" by (simp add: rx_ready_def)
  show "tx_idle tq m'"
    using zero [of "0 * 4096 + 12290"] zero [of "0 * 4096 + 2"] unfolding tx_idle_def q(2) at0 queue_of_fields by simp
  assume x: "\<not> in_block b (16 * 4096) x"
  then have "\<not> in_rings rq x" using rings(2) by (auto simp: in_block_def)
  then show "m' x = m x" using out x by (simp add: filled_def)
qed

lemma tx_queue_ready:
  assumes k: "k + 16 \<le> 2 ^ 32" and n: "nt \<noteq> 0" "unat nt \<le> 1024" and q: "txq s = queue_of k nt" and len: "len \<le> 4086"
    and f: "\<And>i. i \<in> set (free_frames (frames s)) \<Longrightarrow> unat i < k \<or> k + 16 \<le> unat i"
  shows "tx_queue_ok len s"
proof -
  define b where "b = index_to_phys (of_nat k)"
  have k0: "k + 0 + 8 \<le> 2 ^ 32" using k by simp
  have ra: "rings_apart (queue_of k nt)" using rings_apart_queue [OF k0 n] by simp
  have far: "disjoint_blocks a (10 + len) c j" if a: "a \<in> avail_frames (frames s)" and c: "(c, j) \<in> set (queue_bytes (txq s))" for a c j
    unfolding disjoint_blocks_def
  proof (intro allI notI, elim conjE)
    fix x assume x: "in_block a (10 + len) x" "in_block c j x"
    from a obtain i where i: "a = index_to_phys i" "i \<in> set (free_frames (frames s))" by (auto simp: avail_frames_def)
    have "in_block a 4096 x" using x(1) len by (simp add: in_block_def)
    from frames_apart [OF f [OF i(2)] k this [unfolded i(1)]] have no: "\<not> in_block b (16 * 4096) x" unfolding b_def .
    have "in_rings (queue_of k nt) x" using c x(2) unfolding q by (auto simp: queue_bytes_def in_rings_def)
    from in_rings_queue(2) [OF k0 n b_def, unfolded add_0_right, OF this] have "unat (x - b) < 16 * 4096" by simp
    then show False using no by (simp add: in_block_def)
  qed
  show ?thesis using ra far n by (auto simp: tx_queue_ok_def rings_apart_def q)
qed

lemma net_init_ok:
  assumes inv: "pmm_inv (frames s)" and free: "free_frames (frames s) = pre @ fs @ map of_nat [k..<k + 16]" and k: "k + 16 \<le> 2 ^ 32"
    and r: "r = dev_reads s" "dev_read s (r + 2) 0x70 AND 8 \<noteq> 0"
    and nr: "dev_read s (r + 3) 0x34 = nr" "nr \<noteq> 0" "unat nr \<le> 1024" "length fs = unat nr"
    and nt: "dev_read s (r + 4) 0x34 = nt" "nt \<noteq> 0" "unat nt \<le> 1024"
  shows "\<exists>s'. net_init s = Some s' \<and> pmm_inv (frames s') \<and> free_frames (frames s') = pre \<and>
    net_ready (queue_of (k + 8) nr) (queue_of k nt) (map index_to_phys (rev fs)) s' \<and>
    (\<forall>x. \<not> in_block (index_to_phys (of_nat k)) (16 * 4096) x \<longrightarrow> nmem s' x = nmem s x) \<and>
    net_mac s' = mac_of (dev_read s) (r + 5) 6 \<and>
    dev_writes s' = dev_writes s @ negotiation (dev_read s (r + 1) 0x10) @
      queue_registers 0 nr (desc (queue_of (k + 8) nr)) (avail (queue_of (k + 8) nr)) (used (queue_of (k + 8) nr)) @
      queue_registers 1 nt (desc (queue_of k nt)) (avail (queue_of k nt)) (used (queue_of k nt)) @ [(0x50, 0), (0x70, 15)]"
proof -
  let ?rq = "queue_of (k + 8) nr" and ?tq = "queue_of k nt" and ?b = "index_to_phys (of_nat k)"
  let ?ng = "negotiation (dev_read s (r + 1) 0x10)"
  define s0 where "s0 = accessed ?ng 3 s"
  have neg: "net_negotiate s = (True, s0)" using net_negotiate_value [OF r(1)] r(2) by (simp add: s0_def)
  have s0: "frames s0 = frames s" "nmem s0 = nmem s" "dev_read s0 = dev_read s" "dev_reads s0 = r + 3" "dev_writes s0 = dev_writes s @ ?ng"
    by (simp_all add: s0_def accessed_def r(1))
  have sp: "map of_nat [k..<k + 16] = (map of_nat [k..<k + 8] :: u32 list) @ map of_nat [k + 8..<k + 8 + 8]"
    using upt_add_eq_append [of k "k + 8" 8] by (simp add: add.commute [of k 16] flip: map_append)
  have f0: "free_frames (frames s0) = (pre @ fs @ map of_nat [k..<k + 8]) @ map of_nat [k + 8..<k + 8 + 8]" using free sp s0(1) by simp
  have i0: "pmm_inv (frames s0)" "dev_read s0 (dev_reads s0) 0x34 = nr" "k + 8 + 8 \<le> 2 ^ 32" using inv nr(1) k s0 by simp_all
  from virtio_init_queue_ok [OF i0(1) f0 i0(3,2) nr(2), of 0 "rxq s0"] obtain p1 where
    p1: "virtio_init_queue 0 (rxq s0) s0 = Some (?rq, s0\<lparr>frames := p1, nmem := filled (nmem s0) (index_to_phys (of_nat (k + 8))) 0 (8 * 4096),
        dev_reads := dev_reads s0 + 1, dev_writes := dev_writes s0 @ queue_registers 0 nr (desc ?rq) (avail ?rq) (used ?rq)\<rparr>)"
      "pmm_inv p1" "free_frames p1 = pre @ fs @ map of_nat [k..<k + 8]" unfolding queue_of_def virtq.simps by blast
  define t1 where "t1 = s0\<lparr>frames := p1, nmem := filled (nmem s0) (index_to_phys (of_nat (k + 8))) 0 (8 * 4096),
        dev_reads := dev_reads s0 + 1, dev_writes := dev_writes s0 @ queue_registers 0 nr (desc ?rq) (avail ?rq) (used ?rq)\<rparr>"
  define s1 where "s1 = t1\<lparr>rxq := ?rq\<rparr>"
  have i1: "pmm_inv (frames s1)" "free_frames (frames s1) = (pre @ fs) @ map of_nat [k..<k + 8]" "dev_read s1 (dev_reads s1) 0x34 = nt"
    "k + 8 \<le> 2 ^ 32"
    using p1(2,3) nt(1) k s0 by (simp_all add: s1_def t1_def add.commute [of r])
  from virtio_init_queue_ok [OF i1(1,2,4,3) nt(2), of 1 "txq s1"] obtain p2 where
    p2: "virtio_init_queue 1 (txq s1) s1 = Some (?tq, s1\<lparr>frames := p2, nmem := filled (nmem s1) ?b 0 (8 * 4096),
        dev_reads := dev_reads s1 + 1, dev_writes := dev_writes s1 @ queue_registers 1 nt (desc ?tq) (avail ?tq) (used ?tq)\<rparr>)"
      "pmm_inv p2" "free_frames p2 = pre @ fs" unfolding queue_of_def virtq.simps by blast
  define t2 where "t2 = s1\<lparr>frames := p2, nmem := filled (nmem s1) ?b 0 (8 * 4096),
        dev_reads := dev_reads s1 + 1, dev_writes := dev_writes s1 @ queue_registers 1 nt (desc ?tq) (avail ?tq) (used ?tq)\<rparr>"
  define s2 where "s2 = t2\<lparr>txq := ?tq\<rparr>"
  have rq2: "rxq s2 = ?rq" "txq s2 = ?tq" by (simp_all add: s2_def t2_def s1_def t1_def)
  have i2: "pmm_inv (frames s2)" "free_frames (frames s2) = pre @ fs" "length fs = unat (qsize (rxq s2)) \<or> pre = [] \<and> length fs \<le> unat (qsize (rxq s2))"
    using p2(2,3) nr(4) by (simp_all add: s2_def t2_def s1_def t1_def)
  have m2: "nmem s2 = filled (nmem s) ?b 0 (16 * 4096)"
    using filled_filled [of "8 * 4096" "8 * 4096" "nmem s" ?b 0] index_to_phys_add [of k 8] k s0(2) by (simp add: s2_def t2_def s1_def t1_def)
  define m3 where "m3 = st16 (post_from ?rq 0 (map index_to_phys (rev fs)) (nmem s2)) (avail_idx_at ?rq) (ucast nr)"
  have av: "avail (rxq s2) \<noteq> 0" unfolding rq2 queue_of_def virtq.simps by (rule index_to_phys_nonzero)
  from net_rx_fill_ok [OF i2 av] obtain p3 where p3: "net_rx_fill s2 = Some (s2\<lparr>frames := p3, nmem := m3, dev_writes := dev_writes s2 @ [(0x50, 0)]\<rparr>)"
    "pmm_inv p3" "free_frames p3 = pre" unfolding rq2 m3_def queue_of_fields by blast
  define s3 where "s3 = s2\<lparr>frames := p3, nmem := m3, dev_writes := dev_writes s2 @ [(0x50, 0)]\<rparr>"
  have acc: "dev_reads s3 = r + 5" "dev_read s3 = dev_read s" using s0 by (simp_all add: s3_def s2_def t2_def s1_def t1_def)
  define s4 where "s4 = write32 0x70 15 (s3\<lparr>dev_reads := dev_reads s3 + 6, net_mac := mac_of (dev_read s) (r + 5) 6\<rparr>)"
  have run: "virtio_init_queue 0 (rxq s0) s0 = Some (?rq, t1)" "virtio_init_queue 1 (txq s1) s1 = Some (?tq, t2)" "net_rx_fill s2 = Some s3"
    using p1(1) p2(1) p3(1) by (simp_all only: t1_def t2_def s3_def)
  have "net_init s = Some s4"
    unfolding net_init_def neg Let_def prod.case run(1) Option.bind.bind_lunit s1_def [symmetric] run(2) s2_def [symmetric] run(3)
    using acc by (simp add: read_mac_value s4_def STATUS_ACKNOWLEDGE_def STATUS_DRIVER_def STATUS_FEATURES_OK_def STATUS_DRIVER_OK_def)
  moreover have f4: "frames s4 = p3" "nmem s4 = m3" "rxq s4 = ?rq" "txq s4 = ?tq" "net_mac s4 = mac_of (dev_read s) (r + 5) 6"
    using rq2 by (simp_all add: s4_def s3_def write32_def)
  moreover have "dev_writes s4 = dev_writes s @ ?ng @ queue_registers 0 nr (desc ?rq) (avail ?rq) (used ?rq) @
      queue_registers 1 nt (desc ?tq) (avail ?tq) (used ?tq) @ [(0x50, 0), (0x70, 15)]"
    by (simp add: s4_def s3_def s2_def t2_def s1_def t1_def write32_def s0)
  moreover have "length (map index_to_phys (rev fs)) = unat nr" using nr(4) by simp
  note mem = init_memory [OF k nr(2,3) this refl refl refl m3_def [unfolded m2]]
  moreover have "tx_queue_ok len s4" if "len \<le> 4086" for len
  proof (rule tx_queue_ready [OF k nt(2,3) f4(4) that])
    fix i assume "i \<in> set (free_frames (frames s4))"
    then have "i \<in> set pre" using f4(1) p3(3) by simp
    then have ni: "i \<notin> set (map of_nat [k..<k + 16])" using pmm_invD(4) [OF inv] unfolding free by auto
    show "unat i < k \<or> k + 16 \<le> unat i"
    proof (rule ccontr)
      assume "\<not> ?thesis"
      then have "unat i \<in> set [k..<k + 16]" by simp
      then have "of_nat (unat i) \<in> set (map of_nat [k..<k + 16] :: u32 list)" unfolding set_map by (rule imageI)
      then show False using ni by simp
    qed
  qed
  ultimately show ?thesis using p3(2,3) by (intro exI [of _ s4]) (simp add: net_ready_def)
qed

section \<open>Properties\<close>

text \<open>
  C22. \<open>net_init\<close> on a device that accepts the features and offers queues of at most 1024 entries, with the frames for both
  queues next to each other on top of the free stack, as they are after \<open>pmm_init\<close>: it returns with both queues in
  these frames, every receive descriptor holding a frame of its own for the device to write to, the available ring
  naming all of them, nothing in the transmit queue, and the rings apart from every frame that can still be allocated,
  so that \<open>net_send\<close> works for every frame of at most 4086 bytes. No other byte of memory changes; the address is
  read from the device; and the device sees the handshake, both queues, one notification and at last \<open>DRIVER_OK\<close>.
\<close>

theorem net_init_correct:
  assumes "pmm_inv (frames s)" "free_frames (frames s) = pre @ fs @ map of_nat [k..<k + 16]" "k + 16 \<le> 2 ^ 32"
    and "r = dev_reads s" "dev_read s (r + 2) 0x70 AND 8 \<noteq> 0"
    and "dev_read s (r + 3) 0x34 = nr" "nr \<noteq> 0" "unat nr \<le> 1024" "length fs = unat nr"
    and "dev_read s (r + 4) 0x34 = nt" "nt \<noteq> 0" "unat nt \<le> 1024"
  shows "\<exists>s'. net_init s = Some s' \<and> pmm_inv (frames s') \<and> free_frames (frames s') = pre \<and>
    net_ready (queue_of (k + 8) nr) (queue_of k nt) (map index_to_phys (rev fs)) s' \<and>
    (\<forall>x. \<not> in_block (index_to_phys (of_nat k)) (16 * 4096) x \<longrightarrow> nmem s' x = nmem s x) \<and>
    net_mac s' = mac_of (dev_read s) (r + 5) 6 \<and>
    dev_writes s' = dev_writes s @ negotiation (dev_read s (r + 1) 0x10) @
      queue_registers 0 nr (desc (queue_of (k + 8) nr)) (avail (queue_of (k + 8) nr)) (used (queue_of (k + 8) nr)) @
      queue_registers 1 nt (desc (queue_of k nt)) (avail (queue_of k nt)) (used (queue_of k nt)) @ [(0x50, 0), (0x70, 15)]"
  by (rule net_init_ok [OF assms])

text \<open>Twenty-six frames, the first of them in use, and a device that answers every register with 8.\<close>

definition demo_fresh_net :: net where
  "demo_fresh_net = demo_net\<lparr>frames := \<lparr>frame_stack = Some (map of_nat [1..<26] @ [0]), stack_top = 25, stack_capacity = 26,
       used_frames = 1, phy_ram_size = 0x1A000, phy_ram_end = 0x4001A000, total_frames = 26,
       ref_counts = Some (1 # replicate 25 0)\<rparr>, dev_read := (\<lambda>_ _. 8)\<rparr>"

lemma demo_fresh_frames:
  "free_frames (frames demo_fresh_net) = [1] @ map of_nat [2..<10] @ map of_nat [10..<10 + 16]"
  by (simp add: demo_fresh_net_def free_frames_def upt_rec)

lemma demo_fresh_inv: "pmm_inv (frames demo_fresh_net)"
  by (simp add: pmm_inv_def demo_fresh_net_def ram_geometry_def PHY_RAM_BASE_def pmm_arrays_def free_frames_def ref_of_def upt_rec)

theorem net_init_correct_witness:
  "\<exists>s'. net_init demo_fresh_net = Some s' \<and> free_frames (frames s') = [1] \<and> desc (rxq s') = 0x40016000 \<and>
     net_mac s' = [8, 8, 8, 8, 8, 8] \<and> last (dev_writes s') = (0x70, 15)"
proof -
  have q: "unat (8 :: u32) \<le> 1024" "length (map of_nat [2..<10] :: u32 list) = unat (8 :: u32)" "(8 :: u32) \<noteq> 0" "(8 :: u32) AND 8 \<noteq> 0" by simp_all
  have d: "dev_read demo_fresh_net = (\<lambda>_ _. 8)" by (simp add: demo_fresh_net_def)
  have "index_to_phys 22 = 0x40016000" by (simp add: index_to_phys_def PHY_RAM_BASE_def)
  then show ?thesis
    using net_init_correct [OF demo_fresh_inv demo_fresh_frames _ refl, of 8 8] q d
    by (auto simp: net_ready_def queue_of_def mac_of_def upt_rec)
qed

text \<open>
  When the frames run out, \<open>net_rx_fill\<close> stops posting, but still makes all entries of the ring available: the index is the
  size of the queue, and the entries from the number of buffers on are what they were, zero after \<open>virtio_init_queue\<close>,
  so that they name descriptor 0 again and the device may use one buffer for several frames at a time.
\<close>

theorem net_rx_fill_out_of_frames:
  assumes "pmm_inv (frames s)" "n = length (free_frames (frames s))" "n < unat (qsize (rxq s))" "rings_apart (rxq s)"
    "avail (rxq s) \<noteq> 0"
  shows "\<exists>s'. net_rx_fill s = Some s' \<and> free_frames (frames s') = [] \<and>
    posted (rxq s) (map index_to_phys (rev (free_frames (frames s)))) (nmem s') \<and>
    ld16 (nmem s') (avail_idx_at (rxq s)) = ucast (qsize (rxq s)) \<and>
    (\<forall>j. n \<le> j \<and> j < unat (qsize (rxq s)) \<longrightarrow>
      ld16 (nmem s') (avail_ring_at (rxq s) (of_nat j)) = ld16 (nmem s) (avail_ring_at (rxq s) (of_nat j)))"
proof -
  let ?q = "rxq s" and ?as = "map index_to_phys (rev (free_frames (frames s)))"
  have len: "length ?as \<le> unat (qsize ?q)" using assms(2,3) by simp
  from net_rx_fill_ok [OF assms(1), of "[]" "free_frames (frames s)"] len assms(5) obtain p where
    p: "net_rx_fill s = Some (s\<lparr>frames := p, nmem := st16 (post_from ?q 0 ?as (nmem s)) (avail_idx_at ?q) (ucast (qsize ?q)),
      dev_writes := dev_writes s @ [(0x50, 0)]\<rparr>)" "free_frames p = []" by auto
  note pf = post_from_ok [OF assms(4) len, where m = "nmem s"]
  note idx = posted_st16_idx [OF assms(4) len pf(1)]
  show ?thesis unfolding p(1) using p(2) idx pf(3) assms(2) by (simp add: ld16_st16_same)
qed

theorem net_rx_fill_out_of_frames_witness:
  "\<exists>s'. net_rx_fill (demo_fresh_net\<lparr>rxq := queue_of 30 26\<rparr>) = Some s' \<and> free_frames (frames s') = [] \<and>
     ld16 (nmem s') (avail_idx_at (queue_of 30 26)) = 26"
proof -
  let ?s = "demo_fresh_net\<lparr>rxq := queue_of 30 26\<rparr>"
  have r: "rings_apart (rxq ?s)" using rings_apart_queue [of 30 0 26] by simp
  have i: "pmm_inv (frames ?s)" "length (free_frames (frames ?s)) < unat (qsize (rxq ?s))"
    using demo_fresh_inv demo_fresh_frames by simp_all
  have v: "avail (rxq ?s) \<noteq> 0" by (simp add: queue_of_def index_to_phys_nonzero)
  from net_rx_fill_out_of_frames [OF i(1) refl i(2) r v] show ?thesis by auto
qed

end
