(* ===== verification/System.thy ===== *)
theory System
  imports Threads_Run Net_Init Report
begin

text \<open>
  The whole start of the kernel, \<open>main\<close> of \<open>src/src/main.c\<close> on core 0, composed from the theorems on its components: the
  page tables, the heap, the tasks and the queues of the network device lie in the same memory, and what one
  component writes leaves the others as they are.
\<close>

section \<open>What the components do not touch\<close>

text \<open>The page tables lie outside the frames that the allocator can still hand out.\<close>

lemma rd_pte_outside:
  assumes t: "page_aligned t" "unat i < 512" and m: "\<And>x. page_of x = t \<Longrightarrow> m x = m' x"
  shows "rd_pte m (t, i) = rd_pte m' (t, i)"
proof (cases "t = 0")
  case False
  have s: "slab_page t" using t(1) False by (simp add: slab_page_def page_aligned_def)
  have at: "pte_addr t i = t + of_nat (8 * unat i)" by (simp add: pte_addr_def)
  have "m x = m' x" if "in_block (pte_addr t i) 8 x" for x
    using in_page [OF s that [unfolded at]] t(2) m by simp
  then have "ld_bytes m (pte_addr t i) 8 = ld_bytes m' (pte_addr t i) 8" by (intro ld_bytes_cong) simp_all
  then show ?thesis by (simp add: rd_pte_def ld64_def)
next
  case True
  have "m x = m' x" if "in_block (pte_addr t i) 8 x" for x
  proof -
    have "pte_addr t i = of_nat (8 * unat i)" using True by (simp add: pte_addr_def)
    moreover have "unat (of_nat (8 * unat i) :: u64) = 8 * unat i" using t(2) by (intro unat_u64_of_nat) simp
    ultimately have "unat x < 4096" using that t(2) in_block_no_wrap [of "pte_addr t i" 8 x] by simp
    then have "page_of x = t" using unat_page_floor [of x] True by (simp add: page_of_def word_unat_eq_iff)
    then show ?thesis by (rule m)
  qed
  then have "ld_bytes m (pte_addr t i) 8 = ld_bytes m' (pte_addr t i) 8" by (intro ld_bytes_cong) simp_all
  then show ?thesis by (simp add: rd_pte_def ld64_def)
qed

lemma tables_outside:
  assumes wf: "vmm_wf s" and p: "pmm_inv p" "avail_frames p \<subseteq> avail_frames (vmm.frames s)"
    and m: "\<And>x. page_of x \<notin> avail_frames (vmm.frames s) \<Longrightarrow> m x = ram s x"
  shows "vmm_wf (s\<lparr>vmm.frames := p, ram := m\<rparr>)" "translate (s\<lparr>vmm.frames := p, ram := m\<rparr>) va = translate s va"
proof -
  from wf obtain \<rho> where tree: "table_tree \<rho> s" by (auto simp: vmm_wf_def)
  note d = table_treeD [OF tree]
  have rd: "rd_pte m (t, i) = rd_pte (ram s) (t, i)" if "\<rho> t = Some r" "unat i < 512" for t r i
  proof (rule rd_pte_outside [OF pa_ok_aligned [OF d(3) [OF that(1)]] that(2)])
    fix x assume "page_of x = t"
    then show "m x = ram s x" using m [of x] d(5) [OF that(1)] by simp
  qed
  have root: "\<rho> (root_table s) = Some Level1" using d(2) by blast
  have g: "grows \<rho> s (s\<lparr>ram := m\<rparr>)" using rd by (auto simp: grows_def)
  show "translate (s\<lparr>vmm.frames := p, ram := m\<rparr>) va = translate s va"
    using grows_translate(1) [OF tree g, of va] by (simp add: translate_def)
  have roots: "\<forall>t. \<rho> t = Some Level1 \<longleftrightarrow> t = root_table s" using d(2) by blast
  have doms: "\<forall>t \<in> dom \<rho>. pa_ok 12 t \<and> t \<noteq> 0 \<and> t \<notin> avail_frames p" using d(3-5) p(2) by blast
  have blocks: "\<forall>i. unat i < 512 \<longrightarrow> \<not> is_block (rd_pte m (root_table s, i))" using d(6) rd [OF root] by simp
  have kids: "\<forall>t r i. \<rho> t = Some r \<and> interior r \<and> unat i < 512 \<and> is_table (rd_pte m (t, i)) \<longrightarrow>
      \<rho> (next_table (rd_pte m (t, i))) = Some (child r i)"
    using d(7) rd by metis
  have "table_tree \<rho> (s\<lparr>vmm.frames := p, ram := m\<rparr>)"
    unfolding table_tree_def using p(1) roots doms blocks kids by simp
  then show "vmm_wf (s\<lparr>vmm.frames := p, ram := m\<rparr>)" by (auto simp: vmm_wf_def)
qed

section \<open>The memory after the start\<close>

lemma in_frames:
  assumes k: "k + n \<le> 2 ^ 32" and x: "in_block (index_to_phys (of_nat k)) (n * 4096) x"
  shows "\<exists>j < n. page_of x = index_to_phys (of_nat (k + j))" "0x40000000 + k * 4096 \<le> unat x"
proof -
  have n: "0 < n" using x by (cases n) (simp_all add: in_block_def)
  have u: "unat (of_nat k :: u32) = k" using k n by (intro unat_u32_of_nat) simp
  have l: "unat (index_to_phys (of_nat k)) + n * 4096 \<le> 2 ^ 64" using k by (simp add: unat_index_to_phys u)
  have b: "0x40000000 + k * 4096 \<le> unat x" "unat x < 0x40000000 + k * 4096 + n * 4096"
    using x unfolding in_block_no_wrap [OF l] unat_index_to_phys u by simp_all
  then show "0x40000000 + k * 4096 \<le> unat x" by blast
  define j where "j = (unat x - (0x40000000 + k * 4096)) div 4096"
  have j: "j < n" using b by (simp add: j_def less_mult_imp_div_less)
  have v: "unat (of_nat (k + j) :: u32) = k + j" using k j by (intro unat_u32_of_nat) simp
  have "unat x div 4096 = 0x40000 + k + j"
  proof -
    obtain d where d: "unat x = 0x40000000 + k * 4096 + d" using b(1) by (metis le_add_diff_inverse)
    have "unat x = d + (0x40000 + k) * 4096" unfolding d by simp
    moreover have "(d + (0x40000 + k) * 4096) div 4096 = (0x40000 + k) + d div 4096" by (rule div_mult_self1) simp
    ultimately show ?thesis by (simp add: j_def d)
  qed
  then have "unat (page_of x) = 0x40000000 + (k + j) * 4096"
    unfolding page_of_def using unat_page_floor [of x] by simp
  then have "page_of x = index_to_phys (of_nat (k + j))" by (simp only: word_unat_eq_iff unat_index_to_phys v)
  then show "\<exists>j < n. page_of x = index_to_phys (of_nat (k + j))" using j by blast
qed

text \<open>What holds when \<open>main\<close> calls the scheduler: all components are in order, in one memory.\<close>

definition system_ok :: "kernel \<Rightarrow> (u64 \<times> nat) set \<Rightarrow> layout \<Rightarrow> bool" where
  "system_ok k U L \<longleftrightarrow> vmm_wf (mm k) \<and> paging_enabled (mm k) \<and>
     ttbr1_el1 (mm k) = root_table (mm k) \<and> mair_el1 (mm k) = 0xFF00 \<and> tcr_el1 (mm k) = 0x280190019 \<and>
     (\<forall>va. unat va < 2 ^ 39 \<longrightarrow> translate (mm k) va = boot_map 0x80000000 va) \<and>
     threads_ok (sc k) U (\<lambda>_. []) L \<and>
     ram (mm k) = hmem (kheap (sc k)) \<and> ram (mm k) = nmem (nt k) \<and> vmm.frames (mm k) = net.frames (nt k)"

text \<open>The record that the second core starts from.\<close>

definition boot_record :: "mem \<Rightarrow> u64 \<Rightarrow> u64 \<Rightarrow> vmm \<Rightarrow> u64 \<Rightarrow> bool" where
  "boot_record m data stack v entry \<longleftrightarrow> ld64 m data = stack + 16384 \<and> ld64 m (data + 8) = ttbr1_el1 v \<and>
     ld64 m (data + 16) = tcr_el1 v \<and> ld64 m (data + 24) = mair_el1 v \<and> ld64 m (data + 32) = entry"

lemma heap_start:
  assumes "caches_addr_ok h0"
  shows "\<exists>h. heap_init 0x50000000 (8 * 1024 * 1024) h0 = Some h \<and> roomy h no_slabs 2 \<and> hmem h = hmem h0 \<and>
    unat (heap_start_addr h) = 0x50000000"
proof -
  have "init_args 0x50000000 (8 * 1024 * 1024) 0x50000000 2048 2" by (simp add: init_args_def)
  from heap_init_inv [OF this assms] show ?thesis by (auto simp: roomy_def free_from_def intro!: exI [of _ 2])
qed

lemma heap_page_avail:
  assumes h: "heap_geometry h" "unat (heap_start_addr h) = 0x50000000" "length (pages h) = 2048" "j < 2048"
    and a: "\<forall>a. 4096 dvd unat a \<and> 0x50000000 \<le> unat a \<and> unat a < 0x50800000 \<longrightarrow> a \<in> A"
  shows "pg h j \<in> A" "page_of x = pg h j \<Longrightarrow> unat x < 0x50800000"
proof -
  have u: "unat (pg h j) = 0x50000000 + 4096 * j" using pg_page(1) [OF h(1), of j] h(2-4) by simp
  have "4096 dvd unat (pg h j)" unfolding u by (intro dvd_add) simp_all
  then show "pg h j \<in> A" using a h(4) by (simp add: u)
  assume "page_of x = pg h j"
  then have "unat x div 4096 * 4096 = 0x50000000 + 4096 * j" using unat_page_floor [of x] u by (simp add: page_of_def)
  moreover have "unat x < unat x div 4096 * 4096 + 4096"
    using mod_less_divisor [of 4096 "unat x"] div_mult_mod_eq [of "unat x" 4096] by linarith
  ultimately show "unat x < 0x50800000" using h(4) by linarith
qed

section \<open>The steps of main\<close>

text \<open>The heap, the scheduler and the record of the second core.\<close>

lemma threads_start:
  assumes h: "caches_addr_ok h0" and s: "length (cores s) = 2" "sched_lock s = 0" "active_priorities s = 0" "tasks s = Map.empty"
    "\<forall>c < 2. task_to_free (cores s ! c) = 0"
  shows "\<exists>h s' data stack h' L. heap_init 0x50000000 (8 * 1024 * 1024) h0 = Some h \<and>
    sched_init t1 (s\<lparr>kheap := h\<rparr>) = Some s' \<and> boot_data entry v (kheap s') = Some (data, h') \<and>
    threads_ok (s'\<lparr>kheap := h'\<rparr>) {(data, 64), (stack, 16384)} (\<lambda>_. []) L \<and> roomy h' L 17 \<and>
    core_task (cores s' ! 0) \<noteq> 0 \<and> core_task (cores s' ! 1) = 0 \<and>
    boot_record (hmem h') data stack v entry \<and> confined h h' \<and> hmem h = hmem h0 \<and> unat (heap_start_addr h) = 0x50000000 \<and>
    length (pages h) = 2048"
proof -
  from heap_start [OF h] obtain h1 where h1: "heap_init 0x50000000 (8 * 1024 * 1024) h0 = Some h1" "roomy h1 no_slabs 2"
    "hmem h1 = hmem h0" "unat (heap_start_addr h1) = 0x50000000" by blast
  let ?s = "s\<lparr>kheap := h1\<rparr>"
  have f: "length (cores ?s) = 2" "sched_lock ?s = 0" "active_priorities ?s = 0" "tasks ?s = Map.empty"
    "\<forall>c < 2. task_to_free (cores ?s ! c) = 0" "roomy (kheap ?s) no_slabs 2"
    using s h1(2) by simp_all
  from threads_begin [OF f, of t1] obtain s' L where s': "sched_init t1 ?s = Some s'" "threads_ok s' {} (\<lambda>_. []) L"
    "roomy (kheap s') L (2 + 10)" "core_task (cores s' ! 0) \<noteq> 0" "core_task (cores s' ! 1) = 0" "confined h1 (kheap s')" by auto
  from boot_data_roomy [OF s'(3), of entry v] obtain data stack h' L' where b: "boot_data entry v (kheap s') = Some (data, h')"
    "heap_inv h' L'" "blocks h' L' = insert (stack, 16384) (insert (data, 64) (blocks (kheap s') L))" "confined (kheap s') h'"
    "boot_record (hmem h') data stack v entry" "roomy h' L' (2 + 10 + 5)" unfolding boot_record_def by auto
  have "capacity 304 = 512" by (simp add: capacity_def)
  then have "threads_ok (s'\<lparr>kheap := h'\<rparr>) {(data, 64), (stack, 16384)} (\<lambda>_. []) L'"
    by (intro threads_heap [OF s'(2) b(2)]) (use b(3) threads_okD(8) [OF s'(2)] in auto)
  moreover have "length (pages h1) = 2048" using h1(2) by (simp add: roomy_def)
  ultimately show ?thesis using h1 s'(1,4,5) b(1,5,6) confined_trans [OF s'(6) b(4)]
    by (intro exI [of _ h1] exI [of _ s'] exI [of _ data] exI [of _ stack] exI [of _ h'] exI [of _ L']) simp
qed

text \<open>
  The memory at the end: the heap wrote in its own region and the network driver in sixteen of the frames on top of the
  stack; both regions lie in frames that were available after \<open>init_vmm\<close>, and they are apart.
\<close>

lemma shared_memory:
  assumes h: "heap_inv h' L" "confined h h'" "hmem h = ram v" "unat (heap_start_addr h) = 0x50000000" "length (pages h) = 2048"
    and wf: "vmm_wf v"
    and av: "\<forall>a. 4096 dvd unat a \<and> 0x50000000 \<le> unat a \<and> unat a < 0x50800000 \<longrightarrow> a \<in> avail_frames (vmm.frames v)"
    and k: "67584 \<le> k" "k + 16 \<le> 2 ^ 32" "\<forall>j < 16. index_to_phys (of_nat (k + j)) \<in> avail_frames (vmm.frames v)"
    and m: "\<forall>x. \<not> in_block (index_to_phys (of_nat k)) (16 * 4096) x \<longrightarrow> m x = hmem h' x"
    and p: "pmm_inv p" "avail_frames p \<subseteq> avail_frames (vmm.frames v)"
  shows "heap_inv (h'\<lparr>hmem := m\<rparr>) L" "vmm_wf (v\<lparr>vmm.frames := p, ram := m\<rparr>)"
    "translate (v\<lparr>vmm.frames := p, ram := m\<rparr>) va = translate v va"
    "(b, n) \<in> blocks h' L \<Longrightarrow> in_block b n x \<Longrightarrow> m x = hmem h' x"
proof -
  have ok: "heap_ok h' L" "heap_lock h' = 0" using h(1) by (simp_all add: heap_inv_def)
  have r: "unat (heap_start_addr h') = 0x50000000" "length (pages h') = 2048" "\<And>i. pg h' i = pg h i"
    using h(2,4,5) confined_pg [OF h(2)] by (simp_all add: confined_def)
  note pga = heap_page_avail [OF heap_okD(1) [OF ok(1)] r(1,2) _ av]
  have same: "m x = hmem h' x" if "j < length (pages h')" "page_of x = pg h' j" for x j
  proof -
    have "unat x < 0x50800000" using pga(2) that r(2) by simp
    then have "\<not> in_block (index_to_phys (of_nat k)) (16 * 4096) x" using in_frames(2) [OF k(2), of x] k(1) by auto
    then show ?thesis using m by blast
  qed
  have "heap_ok (h'\<lparr>hmem := m\<rparr>) L" by (rule heap_ok_outside [OF ok(1) same])
  then show "heap_inv (h'\<lparr>hmem := m\<rparr>) L" using ok(2) by (simp add: heap_inv_def)
  have out: "m x = ram v x" if x: "page_of x \<notin> avail_frames (vmm.frames v)" for x
  proof -
    have "\<not> in_block (index_to_phys (of_nat k)) (16 * 4096) x" using in_frames(1) [OF k(2), of x] k(3) x by auto
    then have "m x = hmem h' x" using m by blast
    moreover have "page_of x \<noteq> pg h i" if "i < 2048" for i using pga(1) [of i] that x r(3) by auto
    ultimately show ?thesis using h(2,3,5) by (simp add: confined_def)
  qed
  show "vmm_wf (v\<lparr>vmm.frames := p, ram := m\<rparr>)" "translate (v\<lparr>vmm.frames := p, ram := m\<rparr>) va = translate v va"
    using tables_outside [OF wf p out] by blast+
  assume b: "(b, n) \<in> blocks h' L" "in_block b n x"
  from block_byte(2) [OF ok(1) b] same show "m x = hmem h' x" by blast
qed

lemma boot_record_same:
  assumes "boot_record m data stack v entry" "\<And>x. in_block data 64 x \<Longrightarrow> m' x = m x"
  shows "boot_record m' data stack v entry"
proof -
  have "ld64 m' (data + of_nat j) = ld64 m (data + of_nat j)" if "j + 8 \<le> 64" for j
  proof -
    have "m' x = m x" if "in_block (data + of_nat j) 8 x" for x
      using in_block_sub [OF that \<open>j + 8 \<le> 64\<close>] assms(2) by simp
    then have "ld_bytes m' (data + of_nat j) 8 = ld_bytes m (data + of_nat j) 8" by (intro ld_bytes_cong) simp_all
    then show ?thesis by (simp add: ld64_def)
  qed
  from this [of 0] this [of 8] this [of 16] this [of 24] this [of 32] show ?thesis using assms(1) by (simp add: boot_record_def)
qed

definition greeting :: string where "greeting = ''Press Ctrl + A + X to exit\<newline>''"

lemma puts_greeting:
  assumes "tx_ready c" "cstr (cmem c) (lit greeting) (bytes greeting)"
  shows "\<exists>r c'. puts (lit greeting) c = Some (r, c') \<and> emits c (bytes greeting @ [10]) c'"
proof -
  have "ascii (bytes greeting)" by (simp add: greeting_def bytes_def ascii_def)
  from puts_loop_ok [OF assms this, of 0] obtain c1 where
    c1: "puts_loop (lit greeting) 0 c = Some (0 + int (length (bytes greeting)), c1)" "emits c (bytes greeting) c1" by blast
  have "tx_ready c1" using emits_fields(3) [OF c1(2)] assms(1) by simp
  from putchar_byte [OF this, of 10] obtain c2 where c2: "putchar 10 c1 = Some (10, c2)" "emits c1 [10] c2" by auto
  show ?thesis using c1(1) c2(1) emits_trans [OF c1(2) c2(2)] by (simp add: puts_def)
qed

lemma split_frames:
  assumes "a + 452090 \<le> e" "e \<le> 524288" "n \<le> 1024"
  shows "map of_nat [a..<e] = (map of_nat [a..<e - 16 - n] @ map of_nat [e - 16 - n..<e - 16] @ map of_nat [e - 16..<e - 16 + 16] :: u32 list)"
proof -
  have "[a..<e] = [a..<e - 16 - n] @ [e - 16 - n..<e - 16] @ [e - 16..<e]"
    using assms upt_add_eq_append [of a "e - 16 - n" "n + 16"] upt_add_eq_append [of "e - 16 - n" "e - 16" 16] by simp
  then show ?thesis using assms by (simp flip: map_append)
qed

text \<open>The state in which \<open>main\<close> starts: cleared static variables, and a device that offers two queues.\<close>

definition fresh_kernel :: "kernel \<Rightarrow> bool" where
  "fresh_kernel k \<longleftrightarrow> tx_ready (con k) \<and> vmm.frames (mm k) = pmm_static \<and> caches_addr_ok (kheap (sc k)) \<and>
     length (cores (sc k)) = 2 \<and> sched_lock (sc k) = 0 \<and> active_priorities (sc k) = 0 \<and> tasks (sc k) = Map.empty \<and>
     (\<forall>c < 2. task_to_free (cores (sc k) ! c) = 0)"

definition device_offers :: "net \<Rightarrow> u32 \<Rightarrow> u32 \<Rightarrow> bool" where
  "device_offers s nr nq \<longleftrightarrow> dev_read s (dev_reads s + 2) 0x70 AND 8 \<noteq> 0 \<and>
     dev_read s (dev_reads s + 3) 0x34 = nr \<and> nr \<noteq> 0 \<and> unat nr \<le> 1024 \<and>
     dev_read s (dev_reads s + 4) 0x34 = nq \<and> nq \<noteq> 0 \<and> unat nq \<le> 1024"

definition started_up :: "u64 \<Rightarrow> u64 \<Rightarrow> u32 \<Rightarrow> u32 \<Rightarrow> kernel \<Rightarrow> kernel \<Rightarrow> bool" where
  "started_up entry secondary nr nq k k' \<longleftrightarrow>
     (\<exists>L data stack bufs. system_ok k' {(data, 64), (stack, 16384)} L \<and> roomy (kheap (sc k')) L 17 \<and>
        boot_record (ram (mm k')) data stack (mm k') entry \<and>
        psci_calls k' = psci_calls k @ [(PSCI_CPU_ON_64, 1, secondary, data)] \<and>
        length bufs = unat nr \<and> qsize (rxq (nt k')) = nr \<and> qsize (txq (nt k')) = nq \<and>
        net_ready (rxq (nt k')) (txq (nt k')) bufs (nt k') \<and>
        (\<exists>n. con k' = (con k)\<lparr>polls := n, tx := tx (con k) @ bytes greeting @ [10], mmu_enabled := True\<rparr>) \<and>
        core_task (cores (sc k') ! 0) \<noteq> 0 \<and> core_task (cores (sc k') ! 1) = 0)"

lemma main_init_ok:
  assumes k: "fresh_kernel k" and lit: "cstr (cmem (con k)) (lit greeting) (bytes greeting)"
    and ker: "0x40000000 \<le> unat kernel_end" "unat kernel_end \<le> 0x4FD80000" and dev: "device_offers (nt k) nr nq"
  shows "\<exists>k'. main_init lit raw_stack raw_refs kernel_end entry secondary k = Some k' \<and> started_up entry secondary nr nq k k'"
proof -
  note f = k [unfolded fresh_kernel_def] and d = dev [unfolded device_offers_def]
  from puts_greeting [of "con k" lit] f lit obtain r c where
    c: "puts (lit greeting) (con k) = Some (r, c)" "emits (con k) (bytes greeting @ [10]) c" by blast
  from main_memory_ok [OF ker, of "mm k" raw_stack raw_refs] f obtain v a e where
    v: "main_memory raw_stack raw_refs kernel_end (mm k) = Some v" "vmm_wf v" "paging_enabled v"
      "\<forall>va. unat va < 2 ^ 39 \<longrightarrow> translate v va = boot_map 0x80000000 va" "pmm_inv (vmm.frames v)"
      "\<forall>a. 4096 dvd unat a \<and> 0x50000000 \<le> unat a \<and> unat a < 0x50800000 \<longrightarrow> a \<in> avail_frames (vmm.frames v)"
      "free_frames (vmm.frames v) = map of_nat [a..<e]" "e \<le> 524288" "a + 452090 \<le> e"
      "ttbr1_el1 v = root_table v" "mair_el1 v = 0xFF00" "tcr_el1 v = 0x280190019" by blast
  have "caches_addr_ok ((kheap (sc k))\<lparr>hmem := ram v\<rparr>)" using f by (simp add: caches_addr_ok_def)
  from threads_start [OF this, of "sc k" "ttbr1_el1 v" entry v] f obtain h s data stack h' L where
    t: "heap_init 0x50000000 (8 * 1024 * 1024) ((kheap (sc k))\<lparr>hmem := ram v\<rparr>) = Some h"
      "sched_init (ttbr1_el1 v) ((sc k)\<lparr>kheap := h\<rparr>) = Some s" "boot_data entry v (kheap s) = Some (data, h')"
      "threads_ok (s\<lparr>kheap := h'\<rparr>) {(data, 64), (stack, 16384)} (\<lambda>_. []) L" "roomy h' L 17"
      "core_task (cores s ! 0) \<noteq> 0" "core_task (cores s ! 1) = 0"
      "boot_record (hmem h') data stack v entry" "confined h h'" "hmem h = ram v" "unat (heap_start_addr h) = 0x50000000"
      "length (pages h) = 2048" by auto
  have "(48 :: u64) mod 32 \<noteq> 31" by simp
  from gic_enable_irq_some [OF this, of "gic_init (ic k)"] obtain g where g: "gic_enable_irq 48 (gic_init (ic k)) = Some g" by blast
  let ?n = "(nt k)\<lparr>net.frames := vmm.frames v, nmem := hmem h'\<rparr>" and ?q = "e - 16"
  let ?pre = "map of_nat [a..<e - 16 - unat nr] :: u32 list" and ?fs = "map of_nat [e - 16 - unat nr..<e - 16] :: u32 list"
  have n: "pmm_inv (net.frames ?n)" "free_frames (net.frames ?n) = ?pre @ ?fs @ map of_nat [?q..<?q + 16]" "?q + 16 \<le> 2 ^ 32"
    "dev_read ?n (dev_reads ?n + 2) 0x70 AND 8 \<noteq> 0" "dev_read ?n (dev_reads ?n + 3) 0x34 = nr" "nr \<noteq> 0" "unat nr \<le> 1024"
    "length ?fs = unat nr" "dev_read ?n (dev_reads ?n + 4) 0x34 = nq" "nq \<noteq> 0" "unat nq \<le> 1024"
    using v(5,7-9) split_frames [OF v(9,8), of "unat nr"] d by simp_all
  from net_init_ok [OF n(1-3) refl n(4-11)] obtain n' where n': "net_init ?n = Some n'" "pmm_inv (net.frames n')"
    "free_frames (net.frames n') = ?pre" "net_ready (queue_of (?q + 8) nr) (queue_of ?q nq) (map index_to_phys (rev ?fs)) n'"
    "\<forall>x. \<not> in_block (index_to_phys (of_nat ?q)) (16 * 4096) x \<longrightarrow> nmem n' x = hmem h' x" by auto
  have hi: "heap_inv h' L" "(data, 64) \<in> blocks h' L" using threads_okD(3,7) [OF t(4)] by simp_all
  have q: "67584 \<le> ?q" using v(9) by simp
  have top: "\<forall>j < 16. index_to_phys (of_nat (?q + j)) \<in> avail_frames (vmm.frames v)"
  proof (intro allI impI)
    fix j :: nat assume "j < 16"
    then have "a \<le> ?q + j" "?q + j < e" using v(9) by linarith+
    then have "of_nat (?q + j) \<in> set (free_frames (vmm.frames v))" unfolding v(7) set_map set_upt by (intro imageI) simp
    then show "index_to_phys (of_nat (?q + j)) \<in> avail_frames (vmm.frames v)" unfolding avail_frames_def by (rule imageI)
  qed
  have sub: "avail_frames (net.frames n') \<subseteq> avail_frames (vmm.frames v)" using n'(3) n(2) by (auto simp: avail_frames_def)
  note sh = shared_memory [OF hi(1) t(9-12) v(2,6) q n(3) top n'(5) n'(2) sub]
  define k' where "k' = (psci_cpu_on 1 secondary data k)\<lparr>con := c\<lparr>mmu_enabled := True\<rparr>, mm := v\<lparr>vmm.frames := net.frames n', ram := nmem n'\<rparr>,
    ic := g, sc := s\<lparr>kheap := h'\<lparr>hmem := nmem n'\<rparr>\<rparr>, nt := n'\<rparr>"
  have run: "main_init lit raw_stack raw_refs kernel_end entry secondary k = Some k'"
    unfolding main_init_def greeting_def [symmetric] Let_def
    using c(1) v(1) t(1-3) g n'(1) by (simp add: k'_def psci_cpu_on_def)
  define bufs where "bufs = map index_to_phys (rev ?fs)"
  have kf: "nt k' = n'" "mm k' = v\<lparr>vmm.frames := net.frames n', ram := nmem n'\<rparr>" "sc k' = s\<lparr>kheap := h'\<lparr>hmem := nmem n'\<rparr>\<rparr>"
    "con k' = c\<lparr>mmu_enabled := True\<rparr>" "psci_calls k' = psci_calls k @ [(PSCI_CPU_ON_64, 1, secondary, data)]"
    by (simp_all add: k'_def psci_cpu_on_def)
  have sys: "system_ok k' {(data, 64), (stack, 16384)} L"
  proof -
    have "threads_ok ((s\<lparr>kheap := h'\<rparr>)\<lparr>kheap := h'\<lparr>hmem := nmem n'\<rparr>\<rparr>) {(data, 64), (stack, 16384)} (\<lambda>_. []) L"
      by (rule threads_heap [OF t(4) sh(1)]) (use threads_okD(3,4,8) [OF t(4)] in simp_all)
    then have "threads_ok (s\<lparr>kheap := h'\<lparr>hmem := nmem n'\<rparr>\<rparr>) {(data, 64), (stack, 16384)} (\<lambda>_. []) L" by simp
    then show ?thesis using sh(2,3) v(3,4,10-12) by (simp add: system_ok_def kf)
  qed
  have "boot_record (nmem n') data stack v entry"
    by (rule boot_record_same [OF t(8)]) (rule sh(4) [OF hi(2)])
  then have rec: "boot_record (ram (mm k')) data stack (mm k') entry" by (simp add: boot_record_def kf)
  have msg: "\<exists>n. con k' = (con k)\<lparr>polls := n, tx := tx (con k) @ bytes greeting @ [10], mmu_enabled := True\<rparr>"
    using c(2) by (auto simp: emits_def kf)
  have net: "net_ready (rxq (nt k')) (txq (nt k')) bufs (nt k')" "qsize (rxq (nt k')) = nr" "qsize (txq (nt k')) = nq" "length bufs = unat nr"
    using n'(4) n(8) by (simp_all add: net_ready_def kf bufs_def)
  have room: "roomy (kheap (sc k')) L 17" using roomy_write [OF t(5) sh(1)] by (simp add: kf)
  have cur: "core_task (cores (sc k') ! 0) \<noteq> 0" "core_task (cores (sc k') ! 1) = 0" using t(6,7) by (simp_all add: kf)
  have "started_up entry secondary nr nq k k'"
    unfolding started_up_def using sys room rec kf(5) net msg cur
    by (intro exI [of _ L] exI [of _ data] exI [of _ stack] exI [of _ bufs] conjI)
  then show ?thesis using run by blast
qed

text \<open>A yield while no task waits comes back to the caller.\<close>

lemma yield_alone:
  assumes inv: "sched_inv s (\<lambda>_. [])" and t: "core_task (cores s ! 0) \<noteq> 0" "task_to_free (cores s ! 0) = 0"
  shows "\<exists>s'. sched_yield 0 s = Some s' \<and> sched_inv s' (\<lambda>_. []) \<and> cores s' = cores s \<and> regs s' = regs s \<and> kheap s' = kheap s"
proof -
  let ?t = "core_task (cores s ! 0)"
  have z: "(0 :: nat) < 2" by simp
  have "prio_of s ?t < COUNT" using sched_invD(7) [OF inv z t(1)] by (simp add: running_ok_def)
  have pick: "pick_next ?t (requeued (prio_of s ?t) ?t (\<lambda>_. [])) = (?t, \<lambda>_. [])"
  proof (cases "prio_of s ?t = 0")
    case True
    then show ?thesis by (simp add: requeued_def pick_next_def)
  next
    case False
    have "top_queue ((\<lambda>_. [])(prio_of s ?t := [?t])) = prio_of s ?t"
      using \<open>prio_of s ?t < COUNT\<close> by (intro top_queue_eq) simp_all
    then show ?thesis using False \<open>prio_of s ?t < COUNT\<close> by (auto simp: requeued_def pick_next_def fun_eq_iff)
  qed
  from sched_yield_ok [OF inv z refl t pick] obtain s' where s': "sched_yield 0 s = Some s'" "yielded 0 ?t ?t (\<lambda>_. []) s s'" by blast
  have "(cores s ! 0)\<lparr>core_task := ?t\<rparr> = cores s ! 0" by (cases "cores s ! 0") simp
  then show ?thesis using s' by (auto simp: yielded_def)
qed

section \<open>Properties\<close>

text \<open>
  C2. The whole of \<open>main\<close> on core 0, from cleared static variables, for a kernel image that ends in the 253 MB above the start of
  the RAM and a network device with queues of at most 1024 entries: no step fails. When \<open>main\<close> yields, the MMU translates
  with exactly the boot map on well-formed tables, although the heap and the network driver have written since to the same memory;
  the scheduler has its invariant with the boot code running and no task waiting, all tasks in live blocks of
  the heap; the second core was started with a complete record, with a stack of its own; the network driver is ready to
  receive into one frame per descriptor and to send; and the greeting is printed. The yield comes back to
  \<open>main\<close> with nothing but the scheduler touched. The \<open>pthread_exit\<close> that follows releases the task it runs as and goes on to
  use it: the end of \<open>main\<close> is undefined.
\<close>

theorem main_correct:
  assumes "fresh_kernel k" "cstr (cmem (con k)) (lit greeting) (bytes greeting)"
    and "0x40000000 \<le> unat kernel_end" "unat kernel_end \<le> 0x4FD80000" "device_offers (nt k) nr nq"
  shows "\<exists>k1 s. main_init lit raw_stack raw_refs kernel_end entry secondary k = Some k1 \<and> started_up entry secondary nr nq k k1 \<and>
    main lit raw_stack raw_refs kernel_end entry secondary k = Some (k1\<lparr>sc := s\<rparr>) \<and>
    sched_inv s (\<lambda>_. []) \<and> cores s = cores (sc k1) \<and> regs s = regs (sc k1) \<and> kheap s = kheap (sc k1) \<and>
    main_end (k1\<lparr>sc := s\<rparr>) = None"
proof -
  from main_init_ok [where lit = lit, OF assms] obtain k1 where k1: "main_init lit raw_stack raw_refs kernel_end entry secondary k = Some k1"
    "started_up entry secondary nr nq k k1" by blast
  then have "sched_inv (sc k1) (\<lambda>_. [])" "core_task (cores (sc k1) ! 0) \<noteq> 0" "task_to_free (cores (sc k1) ! 0) = 0"
    by (auto simp: started_up_def system_ok_def threads_ok_def)
  moreover from yield_alone [OF this] obtain s where s: "sched_yield 0 (sc k1) = Some s" "sched_inv s (\<lambda>_. [])" "cores s = cores (sc k1)"
    "regs s = regs (sc k1)" "kheap s = kheap (sc k1)" by blast
  ultimately have "pthread_exit 0 0 s = None"
    using sched_inv_core(2) [OF s(2), of 0] sched_invD(5) [OF s(2)] by (intro pthread_exit_none) simp_all
  then show ?thesis using k1 s by (intro exI [of _ k1] exI [of _ s]) (simp add: main_def main_end_def)
qed

definition demo_kernel :: kernel where
  "demo_kernel = \<lparr>con = demo_console\<lparr>cmem := slot_mem [greeting]\<rparr>, mm = demo_vmm\<lparr>vmm.frames := pmm_static\<rparr>,
     ic = \<lparr>gic_regs = (\<lambda>_ _. 0), gic_reads = 0, gic_writes = []\<rparr>,
     sc = demo_sched\<lparr>tasks := Map.empty, active_priorities := 0, kheap := demo_heap\<rparr>,
     nt = demo_fresh_net, psci_calls = []\<rparr>"

theorem main_correct_witness:
  "\<exists>k1 s. main_init (slot_lit [greeting]) (\<lambda>_. 0) (\<lambda>_. 0) 0x40100000 0x40081234 0x40080000 demo_kernel = Some k1 \<and>
    main (slot_lit [greeting]) (\<lambda>_. 0) (\<lambda>_. 0) 0x40100000 0x40081234 0x40080000 demo_kernel = Some (k1\<lparr>sc := s\<rparr>) \<and>
    translate (mm k1) 0x40080000 = Some (0x40080000, attr_bits VM_WRITABLE) \<and> qsize (txq (nt k1)) = 8 \<and>
    tx (con k1) = bytes greeting @ [10] \<and> length (psci_calls k1) = 1"
proof -
  have g: "\<forall>s \<in> set [greeting]. length s < 64 \<and> 0 \<notin> set (bytes s)" "length [greeting] < 2 ^ 32"
    by (simp_all add: greeting_def bytes_def)
  note c = slot_console [OF g]
  have lit: "cstr (cmem (con demo_kernel)) (slot_lit [greeting] greeting) (bytes greeting)"
    using can_print_literal [OF c, of greeting] by (simp add: demo_kernel_def)
  have "tx_ready (con demo_kernel)" using c by (simp add: can_print_def demo_kernel_def)
  moreover have "caches_addr_ok demo_heap" by (simp add: caches_addr_ok_def demo_heap_def)
  ultimately have k: "fresh_kernel demo_kernel" by (simp add: fresh_kernel_def demo_kernel_def demo_sched_def less_2_cases_iff)
  have d: "device_offers (nt demo_kernel) 8 8" by (simp add: device_offers_def demo_kernel_def demo_fresh_net_def)
  have e: "0x40000000 \<le> unat (0x40100000 :: u64)" "unat (0x40100000 :: u64) \<le> 0x4FD80000" by simp_all
  from main_correct [where lit = "slot_lit [greeting]", OF k lit e d, of "\<lambda>_. 0" "\<lambda>_. 0" "0x40081234" "0x40080000"] obtain k1 s where
    r: "main_init (slot_lit [greeting]) (\<lambda>_. 0) (\<lambda>_. 0) 0x40100000 0x40081234 0x40080000 demo_kernel = Some k1"
      "started_up 0x40081234 0x40080000 8 8 demo_kernel k1"
      "main (slot_lit [greeting]) (\<lambda>_. 0) (\<lambda>_. 0) 0x40100000 0x40081234 0x40080000 demo_kernel = Some (k1\<lparr>sc := s\<rparr>)" by blast
  have "translate (mm k1) 0x40080000 = boot_map 0x80000000 0x40080000" using r(2) by (auto simp: started_up_def system_ok_def)
  moreover have "boot_map 0x80000000 0x40080000 = Some (0x40080000, attr_bits VM_WRITABLE)" by (simp add: boot_map_def page_ceil_def)
  moreover have "tx (con demo_kernel) = []" "psci_calls demo_kernel = []" by (simp_all add: demo_kernel_def demo_console_def)
  ultimately show ?thesis using r(1,3) r(2) by (auto simp: started_up_def)
qed

end
