(* ===== verification/Kernel_Run.thy ===== *)
theory Kernel_Run
  imports System Entry
begin

text \<open>
  The kernel after its start: \<open>main\<close> of \<open>src/src/main.c\<close> has brought up all components, the second core may come up
  at any time, and the threads of both cores use the scheduler and the heap in any order.
\<close>

section \<open>Runs\<close>

text \<open>
  A state of the scheduler and the blocks that were allocated and not freed. At the start these are the record of the
  second core, whose address \<open>main\<close> passed to the firmware, and the stack that is noted in it. Between the
  operations a core computes, the program writes to its blocks, and all else in the kernel writes to memory outside of the heap.
\<close>

inductive kernel_run :: "sched \<Rightarrow> (u64 \<times> nat) set \<Rightarrow> bool" where
  start: "fresh_kernel k \<Longrightarrow> cstr (cmem (con k)) (lit greeting) (bytes greeting) \<Longrightarrow>
    0x40000000 \<le> unat kernel_end \<Longrightarrow> unat kernel_end \<le> 0x4FD80000 \<Longrightarrow> device_offers (nt k) nr nq \<Longrightarrow>
    main_init lit raw_stack raw_refs kernel_end entry secondary k = Some k1 \<Longrightarrow>
    psci_calls k1 = calls @ [(f, cpu, e, data)] \<Longrightarrow> stack + 16384 = ld64 (ram (mm k1)) data \<Longrightarrow>
    kernel_run (sc k1) {(data, 64), (stack, 16384)}"
| second_core: "kernel_run s U \<Longrightarrow> core_task (cores s ! 1) = 0 \<Longrightarrow> sched_init_secondary 1 s = Some s' \<Longrightarrow> kernel_run s' U"
| yield: "kernel_run s U \<Longrightarrow> c < 2 \<Longrightarrow> core_task (cores s ! c) \<noteq> 0 \<Longrightarrow> sched_yield c s = Some s' \<Longrightarrow> kernel_run s' U"
| create: "kernel_run s U \<Longrightarrow> \<forall>a. attr = Some a \<longrightarrow> attr_reach a \<Longrightarrow> pthread_create attr fn arg s = Some (r, t, s') \<Longrightarrow>
    kernel_run s' U"
| compute: "kernel_run s U \<Longrightarrow> kernel_run (s\<lparr>regs := (regs s)(c := x)\<rparr>) U"
| alloc: "kernel_run s U \<Longrightarrow> malloc n (kheap s) = Some (a, h) \<Longrightarrow>
    kernel_run (s\<lparr>kheap := h\<rparr>) (if a = 0 then U else insert (a, capacity (unat n)) U)"
| release: "kernel_run s U \<Longrightarrow> (a, n) \<in> U \<Longrightarrow> free a (kheap s) = Some h \<Longrightarrow> kernel_run (s\<lparr>kheap := h\<rparr>) (U - {(a, n)})"
| modify: "kernel_run s U \<Longrightarrow> (a, n) \<in> U \<Longrightarrow> (\<And>x. \<not> in_block a n x \<Longrightarrow> m x = hmem (kheap s) x) \<Longrightarrow>
    kernel_run (s\<lparr>kheap := (kheap s)\<lparr>hmem := m\<rparr>\<rparr>) U"
| outside: "kernel_run s U \<Longrightarrow>
    (\<And>x j. j < length (pages (kheap s)) \<Longrightarrow> page_of x = pg (kheap s) j \<Longrightarrow> m x = hmem (kheap s) x) \<Longrightarrow>
    kernel_run (s\<lparr>kheap := (kheap s)\<lparr>hmem := m\<rparr>\<rparr>) U"

section \<open>The invariant of the runs\<close>

lemma attr_priority: "\<forall>a. attr = Some a \<longrightarrow> attr_reach a \<Longrightarrow> \<forall>a. attr = Some a \<longrightarrow> is_initialized a \<noteq> 0 \<longrightarrow> 0 \<le> schedparam a"
  using attr_reach_valid by (auto simp: attr_valid_def)

text \<open>The state that \<open>main\<close> leaves.\<close>

lemma started_threads:
  assumes s: "started_up entry secondary nr nq k k1" and d: "psci_calls k1 = calls @ [(f, cpu, e, data)]" "stack + 16384 = ld64 (ram (mm k1)) data"
  shows "\<exists>L. threads_ok (sc k1) {(data, 64), (stack, 16384)} (\<lambda>_. []) L \<and> roomy (kheap (sc k1)) L 17"
proof -
  from s obtain L data' stack' where i: "threads_ok (sc k1) {(data', 64), (stack', 16384)} (\<lambda>_. []) L" "roomy (kheap (sc k1)) L 17"
    "boot_record (ram (mm k1)) data' stack' (mm k1) entry" "psci_calls k1 = psci_calls k @ [(PSCI_CPU_ON_64, 1, secondary, data')]"
    unfolding started_up_def system_ok_def by blast
  have "data' = data" using i(4) d(1) by simp
  moreover have "stack' + 16384 = ld64 (ram (mm k1)) data'" using i(3) by (simp add: boot_record_def)
  ultimately have "stack' = stack" using d(2) by (metis add_right_cancel)
  then show ?thesis using i(1,2) \<open>data' = data\<close> by blast
qed

lemma kernel_run_ok: "kernel_run s U \<Longrightarrow> \<exists>q L. threads_ok s U q L"
proof (induction rule: kernel_run.induct)
  case (start k lit kernel_end nr nq raw_stack raw_refs entry secondary k1 calls f cpu e data stack)
  from main_init_ok [where lit = lit, OF start(1-5), of raw_stack raw_refs entry secondary] start(6)
  have "started_up entry secondary nr nq k k1" by simp
  from started_threads [OF this start(7,8)] show ?case by blast
next
  case (second_core s U s')
  then show ?case using threads_secondary by blast
next
  case (yield s U c s')
  then obtain q L where "threads_ok s U q L" by blast
  from threads_yield [OF this yield(2,3)] yield(4) show ?case by auto
next
  case (create s U attr fn arg r t s')
  then obtain q L where "threads_ok s U q L" by blast
  from threads_create [OF this attr_priority [OF create(2)], of fn arg] create(3) show ?case by auto
next
  case (compute s U c x)
  then show ?case using threads_compute by blast
next
  case (alloc s U n a h)
  then obtain q L where "threads_ok s U q L" by blast
  from threads_malloc [OF this, of n] alloc(2) obtain L' where
    "threads_ok (s\<lparr>kheap := h\<rparr>) (if a = 0 then U else insert (a, capacity (unat n)) U) q L'" by auto
  then show ?case by blast
next
  case (release s U a n h)
  then obtain q L where "threads_ok s U q L" by blast
  from threads_free [OF this release(2)] release(3) show ?case by auto
next
  case (modify s U a n m)
  then show ?case using threads_modify by blast
next
  case (outside s U m)
  then obtain q L where ok: "threads_ok s U q L" by blast
  have "threads_ok (s\<lparr>kheap := (kheap s)\<lparr>hmem := m\<rparr>\<rparr>) U q L"
    by (rule threads_outside [OF ok]) (rule outside(2))
  then show ?case by blast
qed


text \<open>In every state each operation returns, and leads to a state of the runs again.\<close>

lemma run_yields:
  assumes run: "kernel_run s U" and c: "c < 2" "core_task (cores s ! c) \<noteq> 0"
  shows "\<exists>s'. sched_yield c s = Some s' \<and> kernel_run s' U \<and> core_task (cores s' ! c) \<noteq> 0 \<and> (\<forall>d. d \<noteq> c \<longrightarrow> cores s' ! d = cores s ! d)"
proof -
  from kernel_run_ok [OF run] obtain q L where "threads_ok s U q L" by blast
  from threads_yield [OF this c] obtain s' where s': "sched_yield c s = Some s'" "core_task (cores s' ! c) \<noteq> 0"
    "\<forall>d. d \<noteq> c \<longrightarrow> cores s' ! d = cores s ! d" by blast
  then show ?thesis using kernel_run.yield [OF run c s'(1)] by blast
qed

lemma run_creates:
  assumes run: "kernel_run s U" and attr: "\<forall>a. attr = Some a \<longrightarrow> attr_reach a"
  shows "\<exists>r t s'. pthread_create attr fn arg s = Some (r, t, s') \<and> (r = 0 \<or> r = EAGAIN) \<and> kernel_run s' U"
proof -
  from kernel_run_ok [OF run] obtain q L where "threads_ok s U q L" by blast
  from threads_create [OF this attr_priority [OF attr], of fn arg] obtain r t s' where
    s': "pthread_create attr fn arg s = Some (r, t, s')" "r = 0 \<or> r = EAGAIN" by blast
  then show ?thesis using kernel_run.create [OF run attr s'(1)] by blast
qed

lemma run_memory:
  assumes "kernel_run s U"
  shows "\<exists>a h. malloc sz (kheap s) = Some (a, h)" "(a, n) \<in> U \<Longrightarrow> \<exists>h. free a (kheap s) = Some h"
proof -
  from kernel_run_ok [OF assms] obtain q L where ok: "threads_ok s U q L" by blast
  show "\<exists>a h. malloc sz (kheap s) = Some (a, h)" using threads_malloc [OF ok] by blast
  show "(a, n) \<in> U \<Longrightarrow> \<exists>h. free a (kheap s) = Some h" using threads_free [OF ok] by blast
qed

lemma run_threads:
  assumes "kernel_run s U"
  shows "\<exists>q. sched_inv s q \<and> (\<forall>x. is_task s x \<and> prio_of s x \<noteq> 0 \<longrightarrow>
      (x \<in> set (q (prio_of s x))) \<noteq> (\<exists>c < 2. core_task (cores s ! c) = x)) \<and>
    (\<forall>x. is_task s x \<and> prio_of s x = 0 \<longrightarrow> (\<forall>p. x \<notin> set (q p))) \<and>
    (\<forall>x. is_task s x \<longrightarrow> (\<forall>(a, n) \<in> U. disjoint_blocks x (capacity 304) a n))"
proof -
  from kernel_run_ok [OF assms] obtain q L where ok: "threads_ok s U q L" by blast
  note d = threads_okD [OF ok]
  have "(x \<in> set (q (prio_of s x))) \<noteq> (\<exists>c < 2. core_task (cores s ! c) = x)" if x: "is_task s x" "prio_of s x \<noteq> 0" for x
  proof -
    have "x \<noteq> 0" by (rule task_nonzero [OF d(2) x(1)])
    then have "x \<notin> set (q (prio_of s x))" if "c < 2" "core_task (cores s ! c) = x" for c
      using sched_invD(7) [OF d(1) that(1)] that(2) by (auto simp: running_ok_def)
    then show ?thesis using d(6) x unfolding placed_def by blast
  qed
  moreover have "x \<notin> set (q p)" if x: "prio_of s x = 0" for x p
    using sched_invD(1,3) [OF d(1)] x rq.members(1) [OF sched_invD(1) [OF d(1)], of x p] by (cases "p = 0") (auto simp: queueable_def)
  moreover have "disjoint_blocks x (capacity 304) a n" if "is_task s x" "(a, n) \<in> U" for x a n
    by (rule blocks_disjoint [OF d(7) d(8) [OF that(1)]]) (use that d(3) d(4) [OF that(1)] in auto)
  ultimately show ?thesis using d(1) by blast
qed

text \<open>
  A round of the loop of \<open>core_entry\<close> while a thread waits. What it leaves: core 1 runs the thread \<open>t\<close> with the
  registers that were saved for it, core 0 is as before, and the task \<open>me\<close> of the loop is in no queue and on no core.
\<close>

definition loop_left :: "u64 \<Rightarrow> u64 \<Rightarrow> (u64 \<times> nat) set \<Rightarrow> sched \<Rightarrow> sched \<Rightarrow> bool" where
  "loop_left me t U s s' \<longleftrightarrow> kernel_run s' U \<and> core_task (cores s' ! 1) = t \<and> regs s' 1 = the (context_of s t) \<and>
     cores s' ! 0 = cores s ! 0 \<and> (\<forall>c < 2. core_task (cores s' ! c) \<noteq> me) \<and>
     (\<exists>q. sched_inv s' q \<and> (\<forall>p. me \<notin> set (q p)))"

lemma core_rounds_leave:
  assumes run: "kernel_run (sc k) U" and inv: "sched_inv (sc k) q" and me: "core_task (cores (sc k) ! 1) = me" "me \<noteq> 0"
    "prio_of (sc k) me = 0" and wait: "q p \<noteq> []"
  shows "\<exists>s. core_rounds (Suc n) me k = Some (k\<lparr>sc := s\<rparr>) \<and> loop_left me (hd (q (top_queue q))) U (sc k) s"
proof -
  let ?s = "sc k" and ?t = "hd (q (top_queue q))" and ?q = "q(top_queue q := tl (q (top_queue q)))"
  have one: "(1 :: nat) < 2" by simp
  from kernel_run_ok [OF run] obtain q0 L where "threads_ok ?s U q0 L" by blast
  note reap = threads_okD(5) [OF this one]
  note d = sched_invD [OF inv]
  have "p < COUNT" using d(1) wait unfolding rq_rep_def by (meson not_le)
  then have ne: "\<not> (\<forall>p < COUNT. q p = [])" using wait by blast
  have rq: "requeued (prio_of ?s me) me q = q" using me(3) by (simp add: requeued_def)
  have pick: "pick_next me (requeued (prio_of ?s me) me q) = (?t, ?q)" unfolding rq using ne by (simp only: pick_next_def if_False)
  have mq: "me \<notin> set (q r)" for r using d(7) [OF one] me by (simp add: running_ok_def)
  have "pick_next me q = (?t, ?q)" using ne by (simp only: pick_next_def if_False)
  note t = pick_next_members(1) [OF this ne]
  from t mq have tm: "?t \<noteq> me" by metis
  from sched_yield_ok [OF inv one me(1) [symmetric] me(2) reap pick] obtain s where
    s: "sched_yield 1 ?s = Some s" "yielded 1 me ?t ?q ?s s" by blast
  have f: "sched_inv s ?q" "cores s = (cores ?s)[1 := (cores ?s ! 1)\<lparr>core_task := ?t\<rparr>]" "regs s = (regs ?s)(1 := the (context_of ?s ?t))"
    using s(2) tm by (simp_all add: yielded_def)
  have c1: "core_task (cores s ! 1) = ?t" "cores s ! 0 = cores ?s ! 0" using f(2) d(5) by simp_all
  have "core_task (cores ?s ! 1) \<noteq> 0" using me by simp
  then have c0: "core_task (cores ?s ! 0) \<noteq> me" using d(8) [of 1 0] me by simp
  have "core_rounds n me (k\<lparr>sc := s\<rparr>) = Some (k\<lparr>sc := s\<rparr>)" using c1(1) tm by (cases n) simp_all
  then have "core_rounds (Suc n) me k = Some (k\<lparr>sc := s\<rparr>)" using s(1) me(1) by simp
  moreover have "kernel_run s U" by (rule kernel_run.yield [OF run one _ s(1)]) (use me in simp)
  moreover have "\<forall>c < 2. core_task (cores s ! c) \<noteq> me" using c1 c0 tm by (auto simp: less_2_cases_iff)
  moreover have "set (tl xs) \<subseteq> set xs" for xs :: "u64 list" by (cases xs) auto
  then have "me \<notin> set (?q r)" for r using mq [of r] mq [of "top_queue q"] by (cases "r = top_queue q") auto
  ultimately show ?thesis using c1 f(1,3) unfolding loop_left_def by (intro exI [of _ s] conjI exI [of _ ?q]) simp_all
qed

lemma core_rounds_stay:
  assumes "sched_inv (sc k) (\<lambda>_. [])" "core_task (cores (sc k) ! 1) = me" "me \<noteq> 0" "prio_of (sc k) me = 0"
    "task_to_free (cores (sc k) ! 1) = 0"
  shows "core_rounds n me k = Some k"
proof -
  have "(1 :: nat) < 2" by simp
  note sched_yield_alone [OF assms(1) this assms(2-5)]
  then show ?thesis using assms(2) by (induction n) simp_all
qed

definition online :: string where "online = ''[SMP] Core 1 online!\<newline>''"

lemma greeted:
  assumes p: "can_print [greeting, online] lit (con k)"
    and c: "con k1 = (con k)\<lparr>polls := n, tx := tx (con k) @ bytes greeting @ [10], mmu_enabled := True\<rparr>"
  shows "\<exists>r c'. printf (lit online) [] (con k1) = Some (r, c') \<and> tx c' = tx (con k) @ bytes greeting @ [10] @ bytes online"
proof -
  have "can_print [greeting, online] lit (con k1)" using p unfolding c by (simp add: can_print_def tx_ready_def)
  moreover have "plain online" by (simp add: plain_def online_def bytes_def)
  ultimately obtain r c' where c': "printf (lit online) [] (con k1) = Some (r, c')" "emits (con k1) (bytes online) c'"
    using plain_line [of "[greeting, online]" lit "con k1" online] by auto
  then show ?thesis using emits_fields(1) [OF c'(2)] by (simp add: c)
qed

lemma loop_task:
  assumes s': "second_core_tasks idle_task me s s'" and len: "length (cores s) = 2"
  shows "core_task (cores s' ! 1) = me" "me \<noteq> 0" "prio_of s' me = 0" "is_task s' me"
  using s' len by (simp_all add: second_core_tasks_def prio_of_def is_task_def IDLE_def)

section \<open>Properties\<close>

text \<open>
  C1. Every run of the kernel, from \<open>main\<close> on, with both cores yielding, creating threads, computing and using the heap in any
  order: the scheduler has its invariant. A thread whose priority is above \<open>IDLE\<close> is never lost and never runs twice: it is either in
  the queue of its priority or the task of a core, not both. A task with priority \<open>IDLE\<close>, that is an idle thread, a thread
  created with the parameter 0, or the loop of \<open>core_entry\<close>, is in no queue at all: it runs only while it is the task of a core, and
  nothing refers to it otherwise. No block that \<open>malloc\<close> gave out overlaps a task structure. No operation gets
  stuck: a core with a task can yield, a thread can be created with any attributes that the interface can make, with
  0 or \<open>EAGAIN\<close>, memory can be asked for, and every block given back.
\<close>

theorem kernel_runs_safe:
  assumes "kernel_run s U"
  shows "\<exists>q. sched_inv s q \<and> (\<forall>x. is_task s x \<and> prio_of s x \<noteq> 0 \<longrightarrow>
      (x \<in> set (q (prio_of s x))) \<noteq> (\<exists>c < 2. core_task (cores s ! c) = x)) \<and>
    (\<forall>x. is_task s x \<and> prio_of s x = 0 \<longrightarrow> (\<forall>p. x \<notin> set (q p))) \<and>
    (\<forall>x. is_task s x \<longrightarrow> (\<forall>(a, n) \<in> U. disjoint_blocks x (capacity 304) a n)) \<and>
    (\<forall>c < 2. core_task (cores s ! c) \<noteq> 0 \<longrightarrow> (\<exists>s'. sched_yield c s = Some s' \<and> kernel_run s' U)) \<and>
    (\<forall>attr fn arg. (\<forall>a. attr = Some a \<longrightarrow> attr_reach a) \<longrightarrow>
       (\<exists>r t s'. pthread_create attr fn arg s = Some (r, t, s') \<and> (r = 0 \<or> r = EAGAIN) \<and> kernel_run s' U)) \<and>
    (\<forall>n. \<exists>a h. malloc n (kheap s) = Some (a, h)) \<and> (\<forall>(a, n) \<in> U. \<exists>h. free a (kheap s) = Some h)"
proof -
  from run_threads [OF assms] obtain q where q: "sched_inv s q" "\<forall>x. is_task s x \<and> prio_of s x \<noteq> 0 \<longrightarrow>
      (x \<in> set (q (prio_of s x))) \<noteq> (\<exists>c < 2. core_task (cores s ! c) = x)"
    "\<forall>x. is_task s x \<and> prio_of s x = 0 \<longrightarrow> (\<forall>p. x \<notin> set (q p))"
    "\<forall>x. is_task s x \<longrightarrow> (\<forall>(a, n) \<in> U. disjoint_blocks x (capacity 304) a n)" by blast
  have y: "\<forall>c < 2. core_task (cores s ! c) \<noteq> 0 \<longrightarrow> (\<exists>s'. sched_yield c s = Some s' \<and> kernel_run s' U)"
    using run_yields [OF assms] by blast
  have "\<forall>(a, n) \<in> U. \<exists>h. free a (kheap s) = Some h" using run_memory(2) [OF assms] by blast
  then show ?thesis using q y run_creates [OF assms] run_memory(1) [OF assms]
    by (intro exI [of _ q] conjI allI impI) simp_all
qed

text \<open>The example of \<open>main\<close> with the messages of both cores.\<close>

definition two_core_kernel :: kernel where
  "two_core_kernel = demo_kernel\<lparr>con := demo_console\<lparr>cmem := slot_mem [greeting, online]\<rparr>\<rparr>"

lemma two_core_kernel:
  "fresh_kernel two_core_kernel" "can_print [greeting, online] (slot_lit [greeting, online]) (con two_core_kernel)"
  "device_offers (nt two_core_kernel) 8 8"
proof -
  have g: "\<forall>s \<in> set [greeting, online]. length s < 64 \<and> 0 \<notin> set (bytes s)" "length [greeting, online] < 2 ^ 32"
    by (simp_all add: greeting_def online_def bytes_def)
  note c = slot_console [OF g]
  show "can_print [greeting, online] (slot_lit [greeting, online]) (con two_core_kernel)" using c by (simp add: two_core_kernel_def)
  have "tx_ready (con two_core_kernel)" using c by (simp add: can_print_def two_core_kernel_def)
  moreover have "caches_addr_ok demo_heap" by (simp add: caches_addr_ok_def demo_heap_def)
  ultimately show "fresh_kernel two_core_kernel"
    by (simp add: fresh_kernel_def two_core_kernel_def demo_kernel_def demo_sched_def less_2_cases_iff)
  show "device_offers (nt two_core_kernel) 8 8" by (simp add: device_offers_def two_core_kernel_def demo_kernel_def demo_fresh_net_def)
qed

lemma two_core_run:
  "\<exists>k1 data stack. main_init (slot_lit [greeting, online]) (\<lambda>_. 0) (\<lambda>_. 0) 0x40100000 0x40081234 0x40080000 two_core_kernel = Some k1 \<and>
    kernel_run (sc k1) {(data, 64), (stack, 16384)} \<and> core_task (cores (sc k1) ! 0) \<noteq> 0"
proof -
  have e: "0x40000000 \<le> unat (0x40100000 :: u64)" "unat (0x40100000 :: u64) \<le> 0x4FD80000" by simp_all
  have lit: "cstr (cmem (con two_core_kernel)) (slot_lit [greeting, online] greeting) (bytes greeting)"
    by (rule can_print_literal [OF two_core_kernel(2)]) simp
  from main_init_ok [where lit = "slot_lit [greeting, online]", OF two_core_kernel(1) lit e two_core_kernel(3),
      of "\<lambda>_. 0" "\<lambda>_. 0" "0x40081234" "0x40080000"] obtain k1 where
    k1: "main_init (slot_lit [greeting, online]) (\<lambda>_. 0) (\<lambda>_. 0) 0x40100000 0x40081234 0x40080000 two_core_kernel = Some k1"
      "started_up 0x40081234 0x40080000 8 8 two_core_kernel k1" by blast
  then obtain data where calls: "psci_calls k1 = psci_calls two_core_kernel @ [(PSCI_CPU_ON_64, 1, 0x40080000, data)]"
    and t: "core_task (cores (sc k1) ! 0) \<noteq> 0" unfolding started_up_def by blast
  have "kernel_run (sc k1) {(data, 64), (ld64 (ram (mm k1)) data - 16384, 16384)}"
    by (rule kernel_run.start [where lit = "slot_lit [greeting, online]", OF two_core_kernel(1) lit e two_core_kernel(3) k1(1) calls]) simp
  then show ?thesis using k1(1) t by blast
qed

theorem kernel_runs_safe_witness:
  "\<exists>k1 a s r t s'. main_init (slot_lit [greeting, online]) (\<lambda>_. 0) (\<lambda>_. 0) 0x40100000 0x40081234 0x40080000 two_core_kernel = Some k1 \<and>
    sched_yield 0 (sc k1) = Some s \<and> pthread_create None 0x40083000 7 (sc k1) = Some (r, t, s') \<and> (r = 0 \<or> r = EAGAIN) \<and>
    (\<exists>h. free a (kheap (sc k1)) = Some h)"
proof -
  from two_core_run obtain k1 data stack where
    k1: "main_init (slot_lit [greeting, online]) (\<lambda>_. 0) (\<lambda>_. 0) 0x40100000 0x40081234 0x40080000 two_core_kernel = Some k1"
      "kernel_run (sc k1) {(data, 64), (stack, 16384)}" "core_task (cores (sc k1) ! 0) \<noteq> 0" by blast
  from kernel_runs_safe [OF k1(2)] have
    y: "\<forall>c < 2. core_task (cores (sc k1) ! c) \<noteq> 0 \<longrightarrow> (\<exists>s'. sched_yield c (sc k1) = Some s' \<and> kernel_run s' {(data, 64), (stack, 16384)})"
    and p: "\<forall>attr fn arg. (\<forall>a. attr = Some a \<longrightarrow> attr_reach a) \<longrightarrow>
       (\<exists>r t s'. pthread_create attr fn arg (sc k1) = Some (r, t, s') \<and> (r = 0 \<or> r = EAGAIN) \<and> kernel_run s' {(data, 64), (stack, 16384)})"
    and f: "\<forall>(a, n) \<in> {(data, 64 :: nat), (stack, 16384)}. \<exists>h. free a (kheap (sc k1)) = Some h" by blast+
  have "(0 :: nat) < 2" by simp
  from y [rule_format, OF this k1(3)] obtain s where s: "sched_yield 0 (sc k1) = Some s" by blast
  from p [rule_format, of None "0x40083000" 7] obtain r t s' where
    c: "pthread_create None 0x40083000 7 (sc k1) = Some (r, t, s')" "r = 0 \<or> r = EAGAIN" by auto
  have "\<exists>h. free data (kheap (sc k1)) = Some h" using f by simp
  then show ?thesis using k1(1) s c
    by (intro exI [of _ k1] exI [of _ data] exI [of _ s] exI [of _ r] exI [of _ t] exI [of _ s'] conjI)
qed

text \<open>
  C17. The second core after \<open>main\<close>: \<open>core_entry\<close> prints its message after the greeting and makes two tasks with
  priority \<open>IDLE\<close>, the idle thread, ready to start in \<open>idle\<close> with a stack of its own, and the task of its own loop, which
  is now the task of core 1; every other task and core 0 are as they were, and all queues are empty. With no thread waiting
  the loop goes on for any number of rounds without changing the state. In any later state of the kernel in which
  the loop still has the core and a thread waits, the next round gives the core to the first
  thread of the highest queue and is the last one: the task of the loop is in no queue and on no core. This happens as soon as core 0 creates a thread with default attributes, for which there is memory.
\<close>

theorem core_entry_correct:
  assumes "fresh_kernel k" "can_print [greeting, online] lit (con k)"
    and "0x40000000 \<le> unat kernel_end" "unat kernel_end \<le> 0x4FD80000" "device_offers (nt k) nr nq"
  shows "\<exists>k1 k2 U idle_task me. main_init lit raw_stack raw_refs kernel_end entry secondary k = Some k1 \<and>
    (\<forall>n. core_entry lit n k1 = Some k2) \<and> tx (con k2) = tx (con k) @ bytes greeting @ [10] @ bytes online \<and>
    kernel_run (sc k2) U \<and> sched_inv (sc k2) (\<lambda>_. []) \<and> second_core_tasks idle_task me (sc k1) (sc k2) \<and>
    (\<forall>k' V q n. kernel_run (sc k') V \<and> sched_inv (sc k') q \<and> core_task (cores (sc k') ! 1) = me \<and> prio_of (sc k') me = 0 \<and>
       (\<exists>p. q p \<noteq> []) \<longrightarrow>
       (\<exists>s. core_rounds (Suc n) me k' = Some (k'\<lparr>sc := s\<rparr>) \<and> loop_left me (hd (q (top_queue q))) V (sc k') s)) \<and>
    (\<forall>start arg n. arg \<noteq> idle_flag_at (sc k2) \<longrightarrow>
       (\<exists>t s' s. pthread_create None start arg (sc k2) = Some (0, t, s') \<and>
          core_rounds (Suc n) me (k2\<lparr>sc := s'\<rparr>) = Some (k2\<lparr>sc := s\<rparr>) \<and> loop_left me t U s' s))"
proof -
  have lit: "cstr (cmem (con k)) (lit greeting) (bytes greeting)" by (rule can_print_literal [OF assms(2)]) simp
  from main_init_ok [where lit = lit, OF assms(1) lit assms(3-5), of raw_stack raw_refs entry secondary] obtain k1 where
    k1: "main_init lit raw_stack raw_refs kernel_end entry secondary k = Some k1" "started_up entry secondary nr nq k k1" by blast
  then obtain n' data where c1: "con k1 = (con k)\<lparr>polls := n', tx := tx (con k) @ bytes greeting @ [10], mmu_enabled := True\<rparr>"
    and calls: "psci_calls k1 = psci_calls k @ [(PSCI_CPU_ON_64, 1, secondary, data)]" and free_core: "core_task (cores (sc k1) ! 1) = 0"
    unfolding started_up_def by blast
  let ?U = "{(data, 64), (ld64 (ram (mm k1)) data - 16384, 16384)}"
  have run: "kernel_run (sc k1) ?U" by (rule kernel_run.start [where lit = lit, OF assms(1) lit assms(3-5) k1(1) calls]) simp
  from greeted [OF assms(2) c1] obtain r c2 where
    c2: "printf (lit online) [] (con k1) = Some (r, c2)" "tx c2 = tx (con k) @ bytes greeting @ [10] @ bytes online" by blast
  have "(ld64 (ram (mm k1)) data - 16384) + 16384 = ld64 (ram (mm k1)) data" by simp
  from started_threads [OF k1(2) calls this] obtain L where ok: "threads_ok (sc k1) ?U (\<lambda>_. []) L" "roomy (kheap (sc k1)) L 17" by blast
  from secondary_starts [OF ok(1) free_core ok(2)] obtain s2 idle_task me L' L2 where
    s2: "sched_init_secondary 1 (sc k1) = Some s2" "second_core_tasks idle_task me (sc k1) s2" "threads_ok s2 ?U (\<lambda>_. []) L'"
      "roomy (kheap s2) L2 27" by auto
  let ?k = "k1\<lparr>con := c2, sc := s2\<rparr>"
  have run2: "kernel_run s2 ?U" by (rule kernel_run.second_core [OF run free_core s2(1)])
  note d = threads_okD [OF s2(3)]
  note me = loop_task [OF s2(2) sched_invD(5) [OF threads_okD(1) [OF ok(1)]]]
  have rounds: "core_rounds n me ?k = Some ?k" for n
    by (rule core_rounds_stay) (use d(1) d(5) [of 1] me in simp_all)
  have entry: "core_entry lit n k1 = Some ?k" for n
    unfolding core_entry_def online_def [symmetric] using c2(1) s2(1) me(1) rounds [of n] by simp
  have leave: "\<exists>s. core_rounds (Suc n) me k' = Some (k'\<lparr>sc := s\<rparr>) \<and> loop_left me (hd (q (top_queue q))) V (sc k') s"
    if "kernel_run (sc k') V \<and> sched_inv (sc k') q \<and> core_task (cores (sc k') ! 1) = me \<and> prio_of (sc k') me = 0 \<and> (\<exists>p. q p \<noteq> [])"
    for k' V q n using core_rounds_leave [of k' V q me _ n] that me(2) by blast
  have create: "\<exists>t s' s. pthread_create None start arg s2 = Some (0, t, s') \<and>
      core_rounds (Suc n) me (?k\<lparr>sc := s'\<rparr>) = Some (?k\<lparr>sc := s\<rparr>) \<and> loop_left me t ?U s' s"
    if arg: "arg \<noteq> idle_flag_at s2" for start arg n
  proof -
    have "(27 :: nat) + 9 \<le> 2048" by simp
    from roomy_creates [OF s2(3,4) this arg, of start] obtain t s' L3 where
      s': "pthread_create None start arg s2 = Some (0, t, s')" "threads_ok s' ?U (\<lambda>p. if p = 2 then [t] else []) L3" "cores s' = cores s2"
        "\<not> is_task s2 t" "prio_of s' = (prio_of s2)(t := 2)" by (auto simp: fun_upd_def)
    let ?q = "\<lambda>p. if p = 2 then [t] else ([] :: u64 list)"
    have top: "top_queue ?q = 2" by (rule top_queue_eq) (simp_all add: COUNT_def)
    have "t \<noteq> me" using s'(4) me(4) by blast
    then have "prio_of s' me = 0" using s'(5) me(3) by simp
    moreover have "kernel_run s' ?U" by (rule kernel_run.create [OF run2 _ s'(1)]) simp
    moreover have "core_task (cores s' ! 1) = me" using s'(3) me(1) by simp
    ultimately have "\<exists>s. core_rounds (Suc n) me (?k\<lparr>sc := s'\<rparr>) = Some (?k\<lparr>sc := s'\<rparr>\<lparr>sc := s\<rparr>) \<and>
        loop_left me (hd (?q (top_queue ?q))) ?U (sc (?k\<lparr>sc := s'\<rparr>)) s"
      by (intro core_rounds_leave [where p = 2]) (use threads_okD(1) [OF s'(2)] me(2) in simp_all)
    then show ?thesis using s'(1) unfolding top by auto
  qed
  show ?thesis
    by (intro exI [of _ k1] exI [of _ ?k] exI [of _ ?U] exI [of _ idle_task] exI [of _ me] conjI allI)
      (use k1(1) entry c2(2) run2 d(1) s2(2) leave create in simp_all)
qed

theorem core_entry_correct_witness:
  "\<exists>k1 k2 me t s' s. main_init (slot_lit [greeting, online]) (\<lambda>_. 0) (\<lambda>_. 0) 0x40100000 0x40081234 0x40080000 two_core_kernel = Some k1 \<and>
    core_entry (slot_lit [greeting, online]) 1000 k1 = Some k2 \<and> tx (con k2) = bytes greeting @ [10] @ bytes online \<and>
    pthread_create None 0x40083000 (idle_flag_at (sc k2) + 1) (sc k2) = Some (0, t, s') \<and>
    core_rounds 1000 me (k2\<lparr>sc := s'\<rparr>) = Some (k2\<lparr>sc := s\<rparr>) \<and> core_task (cores s ! 1) = t"
proof -
  have e: "0x40000000 \<le> unat (0x40100000 :: u64)" "unat (0x40100000 :: u64) \<le> 0x4FD80000" by simp_all
  have tx: "tx (con two_core_kernel) = []" by (simp add: two_core_kernel_def demo_kernel_def demo_console_def)
  from core_entry_correct [where lit = "slot_lit [greeting, online]", OF two_core_kernel(1,2) e two_core_kernel(3),
      of "\<lambda>_. 0" "\<lambda>_. 0" "0x40081234" "0x40080000"] obtain k1 k2 U me where
    k: "main_init (slot_lit [greeting, online]) (\<lambda>_. 0) (\<lambda>_. 0) 0x40100000 0x40081234 0x40080000 two_core_kernel = Some k1"
      "\<forall>n. core_entry (slot_lit [greeting, online]) n k1 = Some k2"
      "tx (con k2) = tx (con two_core_kernel) @ bytes greeting @ [10] @ bytes online"
    and c: "\<forall>start arg n. arg \<noteq> idle_flag_at (sc k2) \<longrightarrow>
       (\<exists>t s' s. pthread_create None start arg (sc k2) = Some (0, t, s') \<and>
          core_rounds (Suc n) me (k2\<lparr>sc := s'\<rparr>) = Some (k2\<lparr>sc := s\<rparr>) \<and> loop_left me t U s' s)" by blast
  have ne: "idle_flag_at (sc k2) + 1 \<noteq> idle_flag_at (sc k2)" by simp
  have n: "Suc 999 = 1000" by simp
  from c [rule_format, OF ne, of "0x40083000" 999, unfolded n] obtain t s' s where
    "pthread_create None 0x40083000 (idle_flag_at (sc k2) + 1) (sc k2) = Some (0, t, s')"
    "core_rounds 1000 me (k2\<lparr>sc := s'\<rparr>) = Some (k2\<lparr>sc := s\<rparr>)" "loop_left me t U s' s" by blast
  then show ?thesis using k [unfolded tx append_Nil] by (auto simp: loop_left_def)
qed


text \<open>The second core in the hands of \<open>secondary_entry\<close>, with the record that \<open>main\<close> left for it.\<close>

definition secondary_ready :: "u64 \<Rightarrow> u64 \<Rightarrow> vmm \<Rightarrow> machine \<Rightarrow> bool" where
  "secondary_ready entry stack v c \<longleftrightarrow> pc c = entry \<and> spr c = stack + 16384 \<and>
     c_ttbr0 c = ttbr1_el1 v \<and> c_ttbr1 c = ttbr1_el1 v \<and> c_tcr c = tcr_el1 v \<and> c_mair c = mair_el1 v \<and>
     bit (c_sctlr c) 0 \<and> bit (c_sctlr c) 2 \<and> bit (c_sctlr c) 12 \<and> bit (c_cpacr c) 20 \<and> bit (c_cpacr c) 21 \<and>
     (\<forall>va. unat va < 2 ^ 39 \<longrightarrow> walk (mmem c) (c_ttbr0 c) va = boot_map 0x80000000 va)"

lemma secondary_entry_ready:
  assumes "boot_record (mmem c) data stack v entry" "xr c 0 = data" "mmem c = ram v" "ttbr1_el1 v = root_table v"
    "\<forall>va. unat va < 2 ^ 39 \<longrightarrow> translate v va = boot_map 0x80000000 va"
  shows "secondary_ready entry stack v (secondary_entry c)"
proof -
  note e = secondary_entry_value [OF refl, of c]
  have b: "bit (c_sctlr c OR (1 OR push_bit 2 1 OR push_bit 12 1)) i" if "i = 0 \<or> i = 2 \<or> i = 12" for i
    using that by (auto simp: bit_simps)
  have p: "bit (c_cpacr c OR push_bit 20 3) i" if "i = 20 \<or> i = 21" for i
    using that by (auto simp: bit_simps numeral_eq_Suc)
  show ?thesis
    using assms b p by (simp add: secondary_ready_def e boot_record_def translate_def)
qed

text \<open>
  C16. The hand-over to the second core. \<open>main\<close> starts it once, at \<open>secondary_entry\<close>, with the address of a record; from whatever state the
  core is in, with this address in \<open>x0\<close> and the memory of core 0, \<open>secondary_entry\<close> sets the stack pointer to the top of a
  stack that is a live block of the heap of its own, takes over the translation registers of core 0, so that it sees exactly the same
  address map, switches the MMU, the caches and the floating-point unit on, and goes to \<open>core_entry\<close>. It does not set
  the base of the exception vectors.
\<close>

theorem second_core_starts:
  assumes "fresh_kernel k" "cstr (cmem (con k)) (lit greeting) (bytes greeting)"
    and "0x40000000 \<le> unat kernel_end" "unat kernel_end \<le> 0x4FD80000" "device_offers (nt k) nr nq"
  shows "\<exists>k1 data stack. main_init lit raw_stack raw_refs kernel_end entry secondary k = Some k1 \<and>
    psci_calls k1 = psci_calls k @ [(PSCI_CPU_ON_64, 1, secondary, data)] \<and> kernel_run (sc k1) {(data, 64), (stack, 16384)} \<and>
    (\<forall>c. xr c 0 = data \<and> mmem c = ram (mm k1) \<longrightarrow>
       secondary_ready entry stack (mm k1) (secondary_entry c) \<and> c_vbar (secondary_entry c) = c_vbar c)"
proof -
  from main_init_ok [where lit = lit, OF assms, of raw_stack raw_refs entry secondary] obtain k1 where
    k1: "main_init lit raw_stack raw_refs kernel_end entry secondary k = Some k1" "started_up entry secondary nr nq k k1" by blast
  then obtain U L data stack where s: "system_ok k1 U L" "boot_record (ram (mm k1)) data stack (mm k1) entry"
    "psci_calls k1 = psci_calls k @ [(PSCI_CPU_ON_64, 1, secondary, data)]" unfolding started_up_def by blast
  have "stack + 16384 = ld64 (ram (mm k1)) data" using s(2) by (simp add: boot_record_def)
  then have run: "kernel_run (sc k1) {(data, 64), (stack, 16384)}" by (rule kernel_run.start [where lit = lit, OF assms k1(1) s(3)])
  have "secondary_ready entry stack (mm k1) (secondary_entry c)" if "xr c 0 = data" "mmem c = ram (mm k1)" for c
    by (rule secondary_entry_ready) (use that s(1,2) in \<open>simp_all add: system_ok_def\<close>)
  then show ?thesis using k1(1) s(3) run secondary_entry_value(8) [OF refl]
    by (intro exI [of _ k1] exI [of _ data] exI [of _ stack]) simp
qed

theorem second_core_starts_witness:
  "\<exists>k1 data c. main_init (slot_lit [greeting, online]) (\<lambda>_. 0) (\<lambda>_. 0) 0x40100000 0x40081234 0x40080000 two_core_kernel = Some k1 \<and>
    c = secondary_entry (demo_machine\<lparr>xr := (\<lambda>_. data), mmem := ram (mm k1)\<rparr>) \<and> pc c = 0x40081234 \<and> bit (c_sctlr c) 0 \<and>
    walk (mmem c) (c_ttbr0 c) 0x40081234 = Some (0x40081234, attr_bits VM_WRITABLE)"
proof -
  have e: "0x40000000 \<le> unat (0x40100000 :: u64)" "unat (0x40100000 :: u64) \<le> 0x4FD80000" by simp_all
  have lit: "cstr (cmem (con two_core_kernel)) (slot_lit [greeting, online] greeting) (bytes greeting)"
    by (rule can_print_literal [OF two_core_kernel(2)]) simp
  from second_core_starts [where lit = "slot_lit [greeting, online]", OF two_core_kernel(1) lit e two_core_kernel(3),
      of "\<lambda>_. 0" "\<lambda>_. 0" "0x40081234" "0x40080000"] obtain k1 data stack where
    k1: "main_init (slot_lit [greeting, online]) (\<lambda>_. 0) (\<lambda>_. 0) 0x40100000 0x40081234 0x40080000 two_core_kernel = Some k1"
      "\<forall>c. xr c 0 = data \<and> mmem c = ram (mm k1) \<longrightarrow> secondary_ready 0x40081234 stack (mm k1) (secondary_entry c) \<and>
         c_vbar (secondary_entry c) = c_vbar c" by blast
  let ?c = "demo_machine\<lparr>xr := (\<lambda>_. data), mmem := ram (mm k1)\<rparr>"
  let ?d = "secondary_entry ?c"
  have "secondary_ready 0x40081234 stack (mm k1) ?d" using k1(2) by simp
  then have d: "pc ?d = 0x40081234" "bit (c_sctlr ?d) 0" "\<forall>va. unat va < 2 ^ 39 \<longrightarrow> walk (mmem ?d) (c_ttbr0 ?d) va = boot_map 0x80000000 va"
    unfolding secondary_ready_def by blast+
  have "unat (0x40081234 :: u64) < 2 ^ 39" by simp
  then have "walk (mmem ?d) (c_ttbr0 ?d) 0x40081234 = boot_map 0x80000000 0x40081234" using d(3) by blast
  also have "\<dots> = Some (0x40081234, attr_bits VM_WRITABLE)" by (simp add: boot_map_def page_ceil_def)
  finally show ?thesis using k1(1) d(1,2) by (intro exI [of _ k1] exI [of _ data] exI [of _ ?d] conjI refl)
qed

end
